(* ===== verification/Prelude.thy ===== *)
theory Prelude
  imports Main "HOL-Library.Word" "HOL-Library.Multiset"
begin

unbundle bit_operations_syntax

text \<open>
  Shared vocabulary of the development: the return codes and abnormal ends of the C code, the
  machine types, the collections that carry the component proofs, and the list lemmas that the
  array-based components (heap, queue, ring buffer, hash tables) have in common.

  Conventions.  A C \<open>int\<close> whose overflow would be undefined behaviour is an \<open>int\<close> or, where the
  code keeps it non-negative, a \<open>nat\<close>; unsigned types whose wrap-around is meaningful are words.
  A function that may call \<open>exit\<close>, fail an \<open>assert\<close> or dereference a null pointer returns a
  value of \<open>c_error + 'a\<close>, \<open>Inl\<close> for the abnormal end.
\<close>

section \<open>Machine types, return codes and abnormal ends\<close>

type_synonym u8 = "8 word"
type_synonym u32 = "32 word"
type_synonym u64 = "64 word"
type_synonym zbx_hash_t = u32

abbreviation (input) SUCCEED :: int where "SUCCEED \<equiv> 0"
abbreviation (input) FAIL :: int where "FAIL \<equiv> -1"

datatype c_error =
    ExitFailure      \<comment> \<open>\<open>exit(EXIT_FAILURE)\<close>\<close>
  | AssertFail       \<comment> \<open>\<open>assert(0)\<close>\<close>
  | NullDeref        \<comment> \<open>a null pointer is dereferenced\<close>
  | BadIndex         \<comment> \<open>an array is read or written outside its bounds\<close>
  | DivByZero        \<comment> \<open>an integer is divided by zero\<close>
  | Deadlock         \<comment> \<open>waits for ever for a lock that the caller holds itself\<close>

type_synonym 'a result = "c_error + 'a"

definition bind_result :: "'a result \<Rightarrow> ('a \<Rightarrow> 'b result) \<Rightarrow> 'b result" where
  "bind_result r f = (case r of Inl e \<Rightarrow> Inl e | Inr x \<Rightarrow> f x)"

lemma bind_result_simps [simp]:
  "bind_result (Inl e) f = Inl e"
  "bind_result (Inr x) f = f x"
  by (simp_all add: bind_result_def)

lemma bind_result_Inr_iff:
  "bind_result r f = Inr y \<longleftrightarrow> (\<exists>x. r = Inr x \<and> f x = Inr y)"
  by (cases r) auto

section \<open>Collections\<close>

named_theorems algo_simps \<open>unfolding and frame facts of the container operations\<close>
named_theorems inv_intros \<open>every operation keeps its component's invariant\<close>

section \<open>Lists as arrays\<close>

definition list_swap :: "'a list \<Rightarrow> nat \<Rightarrow> nat \<Rightarrow> 'a list" where
  "list_swap xs i j = xs[i := xs ! j, j := xs ! i]"

lemma length_list_swap [simp]: "length (list_swap xs i j) = length xs"
  by (simp add: list_swap_def)

lemma nth_list_swap:
  "i < length xs \<Longrightarrow> j < length xs \<Longrightarrow> k < length xs \<Longrightarrow>
   list_swap xs i j ! k = (if k = j then xs ! i else if k = i then xs ! j else xs ! k)"
  by (simp add: list_swap_def nth_list_update)

lemma mset_list_swap [simp]:
  "i < length xs \<Longrightarrow> j < length xs \<Longrightarrow> mset (list_swap xs i j) = mset xs"
  unfolding list_swap_def by (cases "i = j") (simp_all add: mset_swap list_update_swap)

lemma nth_butlast_upd:
  "j < length xs - 1 \<Longrightarrow> (butlast xs)[i := v] ! j = (if j = i then v else xs ! j)"
  by (simp add: nth_list_update nth_butlast)

lemma mset_update_butlast_last:
  assumes "i < length xs - 1"
  shows "mset ((butlast xs)[i := last xs]) = mset xs - {#xs ! i#}"
proof -
  from assms have ne: "xs \<noteq> []" by auto
  have "mset (butlast xs @ [last xs]) = mset xs"
    by (rule arg_cong [OF append_butlast_last_id [OF ne]])
  then have "mset xs = add_mset (last xs) (mset (butlast xs))" by simp
  moreover from assms have "xs ! i = butlast xs ! i" by (simp add: nth_butlast)
  moreover from assms have "butlast xs ! i \<in># mset (butlast xs)" by (simp add: nth_mem)
  ultimately show ?thesis
    using assms by (simp add: mset_update)
qed

lemma mset_butlast:
  "xs \<noteq> [] \<Longrightarrow> mset (butlast xs) = mset xs - {#last xs#}"
proof -
  assume "xs \<noteq> []"
  then have "mset (butlast xs @ [last xs]) = mset xs"
    by (rule arg_cong [OF append_butlast_last_id])
  then have "mset xs = add_mset (last xs) (mset (butlast xs))" by simp
  then show ?thesis by simp
qed

lemma map_of_cong_set:
  assumes "distinct (map fst xs)" "distinct (map fst ys)" "set xs = set ys"
  shows "map_of xs = map_of ys"
  using assms by (rule map_of_inject_set [THEN iffD2])

lemma mset_concat_update:
  assumes "i < length xss"
  shows "mset (concat (xss[i := ys])) + mset (xss ! i) = mset (concat xss) + mset ys"
proof -
  have "xss = take i xss @ xss ! i # drop (Suc i) xss" by (rule id_take_nth_drop [OF assms])
  then have "mset (concat xss) = mset (concat (take i xss @ xss ! i # drop (Suc i) xss))" by simp
  with assms show ?thesis by (simp add: upd_conv_take_nth_drop)
qed

lemma mset_remove_nth_last:
  assumes "i < length xs"
  shows "add_mset (xs ! i) (mset (butlast (xs[i := last xs]))) = mset xs"
proof (cases "i = length xs - 1")
  case True
  with assms have "xs ! i = last xs" by (metis last_conv_nth length_0_conv less_nat_zero_code)
  moreover from this have "xs[i := last xs] = xs" by (metis list_update_id)
  moreover have "xs \<noteq> []" using assms by auto
  ultimately show ?thesis by (simp add: mset_butlast)
next
  case False
  with assms have i: "i < length xs - 1" by simp
  then have "butlast (xs[i := last xs]) = (butlast xs)[i := last xs]"
    by (simp add: butlast_list_update)
  with i show ?thesis
    using mset_update_butlast_last [OF i] assms by (simp add: nth_mem_mset)
qed

lemma option_eqI: "(\<And>w. x = Some w \<longleftrightarrow> y = Some w) \<Longrightarrow> x = y"
  by (cases x; cases y) auto

lemma concat_map_Nil [simp]: "concat (map (\<lambda>x. []) xs) = []"
  by (induction xs) auto

end
