(* ===== verification/AlgoDefs.thy ===== *)
theory AlgoDefs
  imports Prelude
begin

text \<open>
  \<open>src/libs/zbxalgo/algodefs.c\<close>: the hash functions, the comparison functions and the numeric
  helpers (\<open>is_prime\<close>, \<open>next_prime\<close>, \<open>zbx_isqrt32\<close>) the containers are built on.
\<close>

section \<open>Hash functions\<close>

fun modfnv_loop :: "u8 list \<Rightarrow> zbx_hash_t \<Rightarrow> zbx_hash_t" where
  "modfnv_loop [] hash = hash"
| "modfnv_loop (p # ps) hash = modfnv_loop ps ((hash XOR ucast p) * 16777619)"

definition zbx_hash_modfnv :: "u8 list \<Rightarrow> zbx_hash_t \<Rightarrow> zbx_hash_t" where
  "zbx_hash_modfnv data seed =
     (let hash = modfnv_loop data (2166136261 XOR seed);
          hash = hash + push_bit 13 hash;
          hash = hash XOR drop_bit 7 hash;
          hash = hash + push_bit 3 hash;
          hash = hash XOR drop_bit 17 hash
      in hash + push_bit 5 hash)"

definition zbx_hash_splittable64 :: "u64 \<Rightarrow> zbx_hash_t" where
  "zbx_hash_splittable64 value =
     (let value = value XOR drop_bit 30 value;
          value = value * 0xbf58476d1ce4e5b9;
          value = value XOR drop_bit 27 value;
          value = value * 0x94d049bb133111eb;
          value = value XOR drop_bit 31 value
      in ucast value XOR ucast (drop_bit 32 value))"

text \<open>The bytes of a \<open>zbx_uint64_t\<close> in memory order (little-endian host).\<close>

definition u64_bytes :: "u64 \<Rightarrow> u8 list" where
  "u64_bytes v = map (\<lambda>i. ucast (drop_bit (8 * i) v)) [0..<8]"

definition zbx_default_string_hash_func :: "u8 list \<Rightarrow> zbx_hash_t" where
  "zbx_default_string_hash_func data = zbx_hash_modfnv data 0"

definition zbx_default_uint64_pair_hash_func :: "u64 \<times> u64 \<Rightarrow> zbx_hash_t" where
  "zbx_default_uint64_pair_hash_func p =
     (let hash = zbx_hash_splittable64 (fst p)
      in zbx_hash_modfnv (u64_bytes (snd p)) hash)"

section \<open>Comparison functions\<close>

text \<open>\<open>ZBX_RETURN_IF_NOT_EQUAL(a, b); return 0\<close>\<close>

definition return_if_not_equal :: "'a::linorder \<Rightarrow> 'a \<Rightarrow> int \<Rightarrow> int" where
  "return_if_not_equal a b rest = (if a < b then -1 else if a > b then 1 else rest)"

definition zbx_default_int_compare_func :: "int \<Rightarrow> int \<Rightarrow> int" where
  "zbx_default_int_compare_func i1 i2 = return_if_not_equal i1 i2 0"

definition zbx_default_uint64_compare_func :: "u64 \<Rightarrow> u64 \<Rightarrow> int" where
  "zbx_default_uint64_compare_func i1 i2 = return_if_not_equal i1 i2 0"

definition zbx_default_uint64_pair_compare_func :: "u64 \<times> u64 \<Rightarrow> u64 \<times> u64 \<Rightarrow> int" where
  "zbx_default_uint64_pair_compare_func p1 p2 =
     return_if_not_equal (fst p1) (fst p2) (return_if_not_equal (snd p1) (snd p2) 0)"

text \<open>
  The contract of a \<open>zbx_compare_func_t\<close> the ordered containers rely on: the sign of the result
  is a total preorder.  The keyed containers only need that zero means equal keys.
\<close>

locale compare_order =
  fixes cmp :: "'a \<Rightarrow> 'a \<Rightarrow> int"
  assumes cmp_total: "cmp x y \<le> 0 \<or> cmp y x \<le> 0"
    and cmp_trans: "cmp x y \<le> 0 \<Longrightarrow> cmp y z \<le> 0 \<Longrightarrow> cmp x z \<le> 0"
begin

lemma cmp_refl: "cmp x x \<le> 0"
  using cmp_total by blast

lemma cmp_not_le: "\<not> cmp x y \<le> 0 \<Longrightarrow> cmp y x \<le> 0"
  using cmp_total by blast

end

locale compare_equal =
  fixes cmp :: "'a \<Rightarrow> 'a \<Rightarrow> int"
  assumes cmp_zero: "cmp x y = 0 \<longleftrightarrow> x = y"

locale compare_linear = compare_order + compare_equal +
  assumes cmp_antisym: "cmp x y \<le> 0 \<Longrightarrow> cmp y x \<le> 0 \<Longrightarrow> x = y"
begin

lemma cmp_neg_iff: "cmp x y < 0 \<longleftrightarrow> cmp x y \<le> 0 \<and> x \<noteq> y"
  using cmp_zero [of x y] by auto

lemma cmp_pos_iff: "cmp x y > 0 \<longleftrightarrow> cmp y x < 0"
  using cmp_zero [of x y] cmp_zero [of y x] cmp_antisym [of x y] cmp_total [of x y] by force

lemma cmp_less_trans: "cmp x y \<le> 0 \<Longrightarrow> cmp y z < 0 \<Longrightarrow> cmp x z < 0"
  using cmp_trans [of x y z] cmp_antisym [of y z] cmp_neg_iff by force

end

lemma return_if_not_equal_le: "return_if_not_equal a b 0 \<le> 0 \<longleftrightarrow> a \<le> b"
  by (auto simp: return_if_not_equal_def)

lemma return_if_not_equal_zero: "return_if_not_equal a b r = 0 \<longleftrightarrow> a = b \<and> r = 0"
  by (auto simp: return_if_not_equal_def)

interpretation uint64_cmp: compare_linear zbx_default_uint64_compare_func
  by unfold_locales
    (auto simp: zbx_default_uint64_compare_func_def return_if_not_equal_le return_if_not_equal_zero)

interpretation int_cmp: compare_linear zbx_default_int_compare_func
  by unfold_locales
    (auto simp: zbx_default_int_compare_func_def return_if_not_equal_le return_if_not_equal_zero)

interpretation pair_cmp: compare_linear zbx_default_uint64_pair_compare_func
  by unfold_locales
    (auto simp: zbx_default_uint64_pair_compare_func_def return_if_not_equal_def prod_eq_iff
      split: if_splits)

section \<open>Primes\<close>

function is_prime_loop :: "int \<Rightarrow> int \<Rightarrow> bool" where
  "is_prime_loop n i =
     (if i * i \<le> n then (if n mod i = 0 then False else is_prime_loop n (i + 2)) else True)"
  by pat_completeness auto
termination
proof (relation "measure (\<lambda>(n, i). nat (n + 1 - i))")
  fix n i :: int
  assume "i * i \<le> n"
  have "i \<le> i * i" by (simp add: mult_le_cancel_left1)
  with \<open>i * i \<le> n\<close> show "((n, i + 2), (n, i)) \<in> measure (\<lambda>(n, i). nat (n + 1 - i))" by simp
qed simp

declare is_prime_loop.simps [simp del]

definition is_prime :: "int \<Rightarrow> bool" where
  "is_prime n =
     (if n \<le> 1 then False
      else if n = 2 then True
      else if n mod 2 = 0 then False
      else is_prime_loop n 3)"

definition prime_int :: "int \<Rightarrow> bool" where
  "prime_int n \<longleftrightarrow> 1 < n \<and> (\<forall>d. 1 < d \<and> d < n \<longrightarrow> \<not> d dvd n)"

lemma is_prime_loop_iff:
  "0 < i \<Longrightarrow> is_prime_loop n i \<longleftrightarrow> (\<forall>k\<ge>i. even (k - i) \<and> k * k \<le> n \<longrightarrow> \<not> k dvd n)"
proof (induction n i rule: is_prime_loop.induct)
  case (1 n i)
  show ?case
  proof (cases "i * i \<le> n")
    case False
    then have "\<not> k * k \<le> n" if "k \<ge> i" for k
      using that \<open>0 < i\<close> mult_mono [of i k i k] by linarith
    with False show ?thesis by (subst is_prime_loop.simps) auto
  next
    case True
    show ?thesis
    proof (cases "i dvd n")
      case True
      with \<open>i * i \<le> n\<close> show ?thesis
        by (subst is_prime_loop.simps) (auto simp: dvd_eq_mod_eq_0)
    next
      case False
      with True have "is_prime_loop n i \<longleftrightarrow> is_prime_loop n (i + 2)"
        by (subst is_prime_loop.simps) (auto simp: dvd_eq_mod_eq_0)
      also have "\<dots> \<longleftrightarrow> (\<forall>k\<ge>i + 2. even (k - (i + 2)) \<and> k * k \<le> n \<longrightarrow> \<not> k dvd n)"
        using "1.IH" True False "1.prems" by (simp add: dvd_eq_mod_eq_0)
      also have "\<dots> \<longleftrightarrow> (\<forall>k\<ge>i. even (k - i) \<and> k * k \<le> n \<longrightarrow> \<not> k dvd n)"
      proof -
        have "k \<ge> i \<and> even (k - i) \<longleftrightarrow> k = i \<or> (k \<ge> i + 2 \<and> even (k - (i + 2)))" for k
          by presburger
        with False show ?thesis by metis
      qed
      finally show ?thesis .
    qed
  qed
qed

lemma small_factor:
  assumes "1 < (n::int)" "\<not> prime_int n"
  obtains k where "1 < k" "k * k \<le> n" "k dvd n"
proof -
  from assms obtain d where d: "1 < d" "d < n" "d dvd n" by (auto simp: prime_int_def)
  then obtain e where n: "n = d * e" by blast
  have "1 < e" using d n mult_le_cancel_left2 [of d e] by (smt (verit) mult_cancel_left2)
  show ?thesis
  proof (cases "d \<le> e")
    case True
    then have "d * d \<le> n" using n d by (simp add: mult_left_mono)
    with that d show ?thesis by blast
  next
    case False
    then have "e * e \<le> n" using n \<open>1 < e\<close> by (simp add: mult_right_mono)
    with that n \<open>1 < e\<close> show ?thesis by simp
  qed
qed

lemma is_prime_iff: "is_prime n \<longleftrightarrow> prime_int n"
proof (cases "n \<le> 2 \<or> even n")
  case True
  consider "n \<le> 1" | "n = 2" | "n > 2" "even n" using True by linarith
  then show ?thesis
  proof cases
    case 3
    then have "\<not> prime_int n" by (auto simp: prime_int_def intro: exI [of _ 2])
    with 3 show ?thesis by (simp add: is_prime_def even_iff_mod_2_eq_zero)
  qed (auto simp: is_prime_def prime_int_def)
next
  case False
  then have n: "2 < n" "odd n" by auto
  have "is_prime n \<longleftrightarrow> is_prime_loop n 3"
    using n by (simp add: is_prime_def odd_iff_mod_2_eq_one)
  also have "\<dots> \<longleftrightarrow> (\<forall>k\<ge>3. odd k \<and> k * k \<le> n \<longrightarrow> \<not> k dvd n)"
    by (simp add: is_prime_loop_iff)
  also have "\<dots> \<longleftrightarrow> prime_int n"
  proof
    assume *: "\<forall>k\<ge>3. odd k \<and> k * k \<le> n \<longrightarrow> \<not> k dvd n"
    show "prime_int n"
    proof (rule ccontr)
      assume "\<not> prime_int n"
      with n obtain k where k: "1 < k" "k * k \<le> n" "k dvd n"
        using small_factor [of n] by auto
      with n have "odd k" by (meson dvd_trans)
      with k(1) have "k \<ge> 3" by presburger
      with * k \<open>odd k\<close> show False by blast
    qed
  next
    assume p: "prime_int n"
    show "\<forall>k\<ge>3. odd k \<and> k * k \<le> n \<longrightarrow> \<not> k dvd n"
    proof (intro allI impI)
      fix k :: int
      assume k: "k \<ge> 3" "odd k \<and> k * k \<le> n"
      then have "k * 1 < k * k" by (intro mult_strict_left_mono) auto
      with k have "k < n" by linarith
      with k p show "\<not> k dvd n" by (simp add: prime_int_def)
    qed
  qed
  finally show ?thesis .
qed

lemma prime_int_above: "\<exists>p\<ge>n. prime_int p"
proof -
  define N where "N = nat (max n 2)"
  define m where "m = int (fact N) + 1"
  have "1 < m" by (simp add: m_def)
  let ?P = "\<lambda>d::nat. 1 < d \<and> int d dvd m"
  have ex: "?P (nat m)" using \<open>1 < m\<close> by simp
  define q where "q = (LEAST d. ?P d)"
  have q: "1 < q" "int q dvd m" using LeastI [of ?P, OF ex] by (auto simp: q_def)
  have "prime_int (int q)"
    unfolding prime_int_def
  proof (intro conjI allI impI)
    fix d :: int
    assume d: "1 < d \<and> d < int q"
    show "\<not> d dvd int q"
    proof
      assume "d dvd int q"
      with q d have "?P (nat d)" by (auto intro: dvd_trans)
      then have "q \<le> nat d" unfolding q_def by (rule Least_le)
      with d show False by linarith
    qed
  qed (use q in simp)
  moreover have "int q \<ge> n"
  proof (rule ccontr)
    assume "\<not> int q \<ge> n"
    then have "q \<le> N" by (simp add: N_def)
    with q have "q dvd fact N" by (intro dvd_fact) auto
    then have "int q dvd int (fact N)" by (simp only: int_dvd_int_iff)
    with q have "int q dvd 1" by (simp add: m_def dvd_add_right_iff)
    with q show False by simp
  qed
  ultimately show ?thesis by blast
qed

function next_prime :: "int \<Rightarrow> int" where
  "next_prime n = (if \<not> is_prime n then next_prime (n + 1) else n)"
  by pat_completeness auto
termination
proof (relation "measure (\<lambda>n. LEAST k. is_prime (n + int k))")
  fix n :: int
  assume np: "\<not> is_prime n"
  let ?k = "LEAST k. is_prime (n + int k)"
  obtain p where p: "p \<ge> n" "is_prime p" using prime_int_above by (auto simp: is_prime_iff)
  then have "is_prime (n + int (nat (p - n)))" by simp
  then have k: "is_prime (n + int ?k)" by (rule LeastI)
  have "?k \<noteq> 0"
  proof
    assume "?k = 0"
    with k have "is_prime n" by simp
    with np show False ..
  qed
  then obtain j where j: "?k = Suc j" by (cases ?k) auto
  with k have "is_prime (n + 1 + int j)" by (simp add: algebra_simps)
  then have "(LEAST k. is_prime (n + 1 + int k)) \<le> j" by (rule Least_le)
  with j show "(n + 1, n) \<in> measure (\<lambda>n. LEAST k. is_prime (n + int k))" by simp
qed simp

declare next_prime.simps [simp del]

lemma next_prime_props:
  "n \<le> next_prime n \<and> prime_int (next_prime n) \<and> (\<forall>m. n \<le> m \<and> m < next_prime n \<longrightarrow> \<not> prime_int m)"
proof (induction n rule: next_prime.induct)
  case (1 n)
  show ?case
  proof (cases "is_prime n")
    case True
    then have eq: "next_prime n = n" by (subst next_prime.simps) simp
    show ?thesis unfolding eq using True by (auto simp: is_prime_iff)
  next
    case False
    then have eq: "next_prime n = next_prime (n + 1)" by (subst next_prime.simps) simp
    have "\<not> prime_int m" if "n \<le> m" "m < next_prime (n + 1)" for m
      using that 1 [OF False] False by (cases "m = n") (auto simp: is_prime_iff)
    with 1 [OF False] show ?thesis unfolding eq by auto
  qed
qed

lemma next_prime_ge [simp]: "n \<le> next_prime n"
  using next_prime_props by blast

lemma next_prime_gt_one: "1 < next_prime n"
  using next_prime_props [of n] by (simp add: prime_int_def)

lemma nat_next_prime_pos [simp]: "0 < nat (next_prime n)"
  using next_prime_gt_one [of n] by simp

lemma nat_next_prime_ge [simp]: "m \<le> n \<Longrightarrow> nat m \<le> nat (next_prime n)"
  using next_prime_ge [of n] by (intro nat_mono) linarith

section \<open>Integer square root\<close>

fun isqrt32_loop :: "nat \<Rightarrow> u32 \<Rightarrow> u32 \<Rightarrow> u32 \<Rightarrow> u32" where
  "isqrt32_loop 0 value remainder result = result"
| "isqrt32_loop (Suc n) value remainder result =
     (let result = push_bit 1 result;
          remainder = push_bit 2 remainder + drop_bit 30 value;
          value = push_bit 2 value;
          p = push_bit 1 result OR 1
      in if p \<le> remainder
         then isqrt32_loop n value (remainder - p) (result OR 1)
         else isqrt32_loop n value remainder result)"

definition zbx_isqrt32 :: "u32 \<Rightarrow> u32" where
  "zbx_isqrt32 value = isqrt32_loop 16 value 0 0"

lemma unat_u32_push_bit:
  "unat w * 2 ^ n < 2 ^ 32 \<Longrightarrow> unat (push_bit n (w :: u32)) = unat w * 2 ^ n"
  by (simp add: unsigned_push_bit_eq) (simp add: push_bit_eq_mult take_bit_eq_mod)

lemma unat_u32_push2: "unat (push_bit 2 (w :: u32)) = unat w * 4 mod 2 ^ 32"
  by (simp add: unsigned_push_bit_eq) (simp add: push_bit_eq_mult take_bit_eq_mod)

lemma unat_u32_drop30: "unat (drop_bit 30 (w :: u32)) = unat w div 4 ^ 15"
  by (simp add: unat_drop_bit_eq) (simp add: drop_bit_eq_div)

lemma unat_u32_shift_or1:
  assumes "unat (w :: u32) * 2 + 1 < 2 ^ 32"
  shows "unat (push_bit 1 w OR 1) = unat w * 2 + 1"
proof -
  have "push_bit 1 w OR 1 = push_bit 1 w + 1" by (simp add: or_one_eq)
  moreover from assms have "unat (push_bit 1 w) = unat w * 2"
    using unat_u32_push_bit [of w 1] by simp
  ultimately show ?thesis using assms by (simp add: unat_word_ariths)
qed

text \<open>
  One digit: with \<open>d\<close> the next base-4 digit of the argument, the pair (root, remainder) moves
  from the prefix \<open>R\<^sup>2 + M\<close> to \<open>4 * (R\<^sup>2 + M) + d\<close> and the remainder stays at most twice the root.
\<close>

lemma isqrt_digit:
  fixes R M d :: nat
  assumes "M \<le> 2 * R" "d < 4"
  shows "4 * R + 1 \<le> 4 * M + d \<Longrightarrow>
           (2 * R + 1)\<^sup>2 + (4 * M + d - (4 * R + 1)) = 4 * (R\<^sup>2 + M) + d
           \<and> 4 * M + d - (4 * R + 1) \<le> 2 * (2 * R + 1)"
    and "\<not> 4 * R + 1 \<le> 4 * M + d \<Longrightarrow>
           (2 * R)\<^sup>2 + (4 * M + d) = 4 * (R\<^sup>2 + M) + d \<and> 4 * M + d \<le> 2 * (2 * R)"
  using assms by (auto simp: power2_eq_square algebra_simps)

lemma isqrt32_loop_correct:
  assumes "n \<le> 16" "unat result < 2 ^ (16 - n)" "unat remainder \<le> 2 * unat result"
    and "unat v = W * 4 ^ (16 - n)" "W < 4 ^ n"
  shows "(unat (isqrt32_loop n v remainder result))\<^sup>2
           \<le> ((unat result)\<^sup>2 + unat remainder) * 4 ^ n + W
       \<and> ((unat result)\<^sup>2 + unat remainder) * 4 ^ n + W
           < (unat (isqrt32_loop n v remainder result) + 1)\<^sup>2"
  using assms
proof (induction n arbitrary: v remainder result W)
  case 0
  then show ?case by (simp add: power2_eq_square)
next
  case (Suc n)
  define R where "R = unat result"
  define M where "M = unat remainder"
  define d where "d = W div 4 ^ n"
  define k where "k = 15 - n"
  from Suc.prems(1) have kn: "16 - Suc n = k" "16 - n = Suc k" "k + n = 15" by (auto simp: k_def)
  have R: "R < 2 ^ k" using Suc.prems(2) kn by (simp add: R_def)
  have "(2::nat) ^ k \<le> 2 ^ 15" using kn by (intro power_increasing) auto
  with R have R15: "R < 2 ^ 15" by linarith
  have M: "M \<le> 2 * R" using Suc.prems(3) by (simp add: R_def M_def)
  have V: "unat v = W * 4 ^ k" using Suc.prems(4) kn by simp
  have W: "W < 4 * 4 ^ n" using Suc.prems(5) by simp
  have d: "d < 4" using W by (simp add: d_def less_mult_imp_div_less mult.commute)
  have p415: "(4::nat) ^ 15 = 4 ^ n * 4 ^ k" using kn by (metis add.commute power_add)
  have digit: "unat (drop_bit 30 v) = d"
    unfolding unat_u32_drop30 V p415 d_def by simp
  define v' where "v' = push_bit 2 v"
  define result' where "result' = push_bit 1 result"
  define remainder' where "remainder' = push_bit 2 remainder + drop_bit 30 v"
  have res': "unat result' = 2 * R"
    using R15 unat_u32_push_bit [of result 1] by (simp add: result'_def R_def)
  have rem': "unat remainder' = 4 * M + d"
  proof -
    have "unat (push_bit 2 remainder) = M * 4"
      using M R15 unat_u32_push_bit [of remainder 2] by (simp add: M_def)
    then show ?thesis using M R15 d by (simp add: remainder'_def unat_word_ariths digit)
  qed
  have val': "unat v' = (W mod 4 ^ n) * 4 ^ (16 - n)"
  proof -
    have e: "(2::nat) ^ 32 = 4 ^ n * 4 ^ Suc k" using p415 by (simp add: mult.commute)
    have "unat v' = (W * 4 ^ Suc k) mod 2 ^ 32"
      unfolding v'_def unat_u32_push2 V by (simp add: ac_simps)
    also have "\<dots> = W mod 4 ^ n * 4 ^ Suc k" unfolding e by (simp only: mult_mod_left)
    finally show ?thesis by (simp only: kn)
  qed
  define pp where "pp = push_bit 1 result' OR 1"
  have p: "unat pp = 4 * R + 1"
    using res' R15 unat_u32_shift_or1 [of result'] unfolding pp_def by simp
  have step: "isqrt32_loop (Suc n) v remainder result =
      (if pp \<le> remainder' then isqrt32_loop n v' (remainder' - pp) (result' OR 1)
       else isqrt32_loop n v' remainder' result')"
    by (simp only: isqrt32_loop.simps Let_def pp_def v'_def result'_def remainder'_def)
  have tot: "(4 * (R\<^sup>2 + M) + d) * 4 ^ n + W mod 4 ^ n = (R\<^sup>2 + M) * 4 ^ Suc n + W"
    using mult_div_mod_eq [of "4 ^ n" W] by (simp add: d_def algebra_simps)
  have Wm: "W mod 4 ^ n < 4 ^ n" and n: "n \<le> 16" using Suc.prems(1) by auto
  show ?case
  proof (cases "4 * R + 1 \<le> 4 * M + d")
    case True
    then have le: "pp \<le> remainder'" unfolding word_le_nat_alt p rem' .
    have r2: "unat (result' OR 1) = 2 * R + 1"
      using R15 unat_u32_shift_or1 [of result] unfolding result'_def R_def by simp
    have m2: "unat (remainder' - pp) = 4 * M + d - (4 * R + 1)"
      using le by (simp only: unat_sub p rem')
    have b: "2 * R + 1 < 2 ^ (16 - n)" using R kn by simp
    note dig = isqrt_digit(1) [OF M d True]
    show ?thesis
      using Suc.IH [OF n, of "result' OR 1" "remainder' - pp" v' "W mod 4 ^ n"] b dig val' Wm le
      unfolding step r2 m2 R_def [symmetric] M_def [symmetric] tot [symmetric] by simp
  next
    case False
    then have le: "\<not> pp \<le> remainder'" unfolding word_le_nat_alt p rem' .
    have b: "2 * R < 2 ^ (16 - n)" using R kn by simp
    note dig = isqrt_digit(2) [OF M d False]
    show ?thesis
      using Suc.IH [OF n, of result' remainder' v' "W mod 4 ^ n"] b dig val' Wm le
      unfolding step res' rem' R_def [symmetric] M_def [symmetric] tot [symmetric] by (simp add: add.assoc)
  qed
qed


section \<open>Properties\<close>

text \<open>
  The search for the next prime ends for every start and returns the least prime not below it, so the
  hash tables grow to the smallest prime that has room.
\<close>

theorem next_prime_least:
  "n \<le> next_prime n \<and> prime_int (next_prime n) \<and> {m. n \<le> m \<and> m < next_prime n \<and> prime_int m} = {}"
  using next_prime_props [of n] by blast

text \<open>
  The integer square root of every 32-bit number is exact: its square is not above the number and the
  next square is.
\<close>

theorem isqrt32_exact:
  "(unat (zbx_isqrt32 v))\<^sup>2 \<le> unat v \<and> unat v < (unat (zbx_isqrt32 v) + 1)\<^sup>2"
  using isqrt32_loop_correct [of 16 0 0 v "unat v"] unsigned_less [of v, where ?'a = nat] by (simp add: zbx_isqrt32_def)

end
