(* ===== verification/Hashmap.thy ===== *)
theory Hashmap
  imports AlgoDefs
begin

text \<open>
  \<open>src/libs/zbxalgo/hashmap.c\<close>: the map from \<open>zbx_uint64_t\<close> keys to non-negative ints that the
  binary heap uses as its key index.  A slot holds a growable array of entries: \<open>hm_entries\<close> is
  its live prefix (so \<open>entries_num\<close> is its length) and \<open>hm_entries_alloc\<close> its capacity, which is
  0 exactly while \<open>entries\<close> is NULL.

  The invariant \<open>hm_inv\<close> says that every entry lies in the slot of its hash, no key occurs twice,
  the counters are exact and no slot holds more entries than it has room for.  Under it the
  operations refine the abstract map \<open>hm_abs\<close>, growing and rehashing included.
\<close>

section \<open>State\<close>

record hm_entry =
  hme_key :: u64
  hme_value :: int

record hm_slot =
  hm_entries :: "hm_entry list"
  hm_entries_alloc :: nat

record zbx_hashmap =
  hm_slots :: "hm_slot list"
  hm_num_slots :: nat
  hm_num_data :: nat
  hm_hash_func :: "u64 \<Rightarrow> zbx_hash_t"
  hm_compare_func :: "u64 \<Rightarrow> u64 \<Rightarrow> int"

abbreviation empty_slot :: hm_slot where
  "empty_slot \<equiv> \<lparr>hm_entries = [], hm_entries_alloc = 0\<rparr>"

section \<open>Operations\<close>

definition hashmap_ensure_free_entry :: "hm_slot \<Rightarrow> hm_slot" where
  "hashmap_ensure_free_entry slot =
     (if hm_entries_alloc slot = 0 then slot\<lparr>hm_entries := [], hm_entries_alloc := 6\<rparr>
      else if length (hm_entries slot) = hm_entries_alloc slot
      then slot\<lparr>hm_entries_alloc := hm_entries_alloc slot * 2\<rparr>
      else slot)"

definition zbx_hashmap_init_slots :: "zbx_hashmap \<Rightarrow> nat \<Rightarrow> zbx_hashmap" where
  "zbx_hashmap_init_slots hm init_size =
     (let hm = hm\<lparr>hm_num_data := 0\<rparr> in
      if 0 < init_size then
        (let num_slots = nat (next_prime (int init_size))
         in hm\<lparr>hm_num_slots := num_slots, hm_slots := replicate num_slots empty_slot\<rparr>)
      else hm\<lparr>hm_num_slots := 0, hm_slots := []\<rparr>)"

definition zbx_hashmap_create_ext ::
  "nat \<Rightarrow> (u64 \<Rightarrow> zbx_hash_t) \<Rightarrow> (u64 \<Rightarrow> u64 \<Rightarrow> int) \<Rightarrow> zbx_hashmap" where
  "zbx_hashmap_create_ext init_size hash_func compare_func =
     zbx_hashmap_init_slots
       \<lparr>hm_slots = [], hm_num_slots = 0, hm_num_data = 0,
        hm_hash_func = hash_func, hm_compare_func = compare_func\<rparr> init_size"

definition zbx_hashmap_create :: "nat \<Rightarrow> zbx_hashmap" where
  "zbx_hashmap_create init_size =
     zbx_hashmap_create_ext init_size zbx_hash_splittable64 zbx_default_uint64_compare_func"

text \<open>The function pointers that \<open>destroy\<close> clears are left: the structure is dead afterwards.\<close>

definition zbx_hashmap_destroy :: "zbx_hashmap \<Rightarrow> zbx_hashmap" where
  "zbx_hashmap_destroy hm = hm\<lparr>hm_num_data := 0, hm_num_slots := 0, hm_slots := []\<rparr>"

text \<open>The scan \<open>for (i = 0; i < slot->entries_num; i++)\<close>: the first index whose key compares
  equal, or \<open>entries_num\<close>.\<close>

fun slot_scan :: "(u64 \<Rightarrow> u64 \<Rightarrow> int) \<Rightarrow> hm_entry list \<Rightarrow> u64 \<Rightarrow> nat" where
  "slot_scan cmp [] key = 0"
| "slot_scan cmp (e # es) key = (if cmp (hme_key e) key = 0 then 0 else Suc (slot_scan cmp es key))"

definition hm_slot_of :: "zbx_hashmap \<Rightarrow> u64 \<Rightarrow> nat" where
  "hm_slot_of hm key = unat (hm_hash_func hm key) mod hm_num_slots hm"

definition zbx_hashmap_get :: "zbx_hashmap \<Rightarrow> u64 \<Rightarrow> int" where
  "zbx_hashmap_get hm key =
     (if hm_num_slots hm = 0 then FAIL
      else let es = hm_entries (hm_slots hm ! hm_slot_of hm key);
               i = slot_scan (hm_compare_func hm) es key
           in if i < length es then hme_value (es ! i) else FAIL)"

text \<open>
  The rehash of \<open>zbx_hashmap_set\<close>: \<open>rehash_entries\<close> is the inner loop over the entries of slot
  \<open>s\<close>, \<open>rehash_slots\<close> the outer one.  An entry that moves is appended to its new slot, its place
  is taken by the last entry of the slot, and the index is looked at again (\<open>i--\<close>, then \<open>i++\<close>).
\<close>

definition rehash_move :: "nat \<Rightarrow> nat \<Rightarrow> nat \<Rightarrow> hm_slot list \<Rightarrow> hm_slot list" where
  "rehash_move s new_s i slots =
     (let slot = slots ! s;
          new_slot = hashmap_ensure_free_entry (slots ! new_s);
          new_slot = new_slot\<lparr>hm_entries := hm_entries new_slot @ [hm_entries slot ! i]\<rparr>;
          es = hm_entries slot;
          slot = slot\<lparr>hm_entries := butlast (es[i := last es])\<rparr>
      in slots[new_s := new_slot, s := slot])"

function rehash_entries ::
  "(u64 \<Rightarrow> zbx_hash_t) \<Rightarrow> nat \<Rightarrow> nat \<Rightarrow> nat \<Rightarrow> hm_slot list \<Rightarrow> hm_slot list" where
  "rehash_entries hash inc_slots s i slots =
     (if s < length slots \<and> i < length (hm_entries (slots ! s)) then
        (let new_s = unat (hash (hme_key (hm_entries (slots ! s) ! i))) mod inc_slots in
         if new_s \<noteq> s
         then rehash_entries hash inc_slots s i (rehash_move s new_s i slots)
         else rehash_entries hash inc_slots s (Suc i) slots)
      else slots)"
  by pat_completeness auto
termination
  by (relation "measure (\<lambda>(hash, inc, s, i, slots). length (hm_entries (slots ! s)) - i)")
    (auto simp: rehash_move_def Let_def)

declare rehash_entries.simps [simp del]

fun rehash_slots ::
  "(u64 \<Rightarrow> zbx_hash_t) \<Rightarrow> nat \<Rightarrow> nat list \<Rightarrow> hm_slot list \<Rightarrow> hm_slot list" where
  "rehash_slots hash inc_slots [] slots = slots"
| "rehash_slots hash inc_slots (s # ss) slots =
     rehash_slots hash inc_slots ss (rehash_entries hash inc_slots s 0 slots)"

definition hashmap_grow :: "zbx_hashmap \<Rightarrow> zbx_hashmap" where
  "hashmap_grow hm =
     (let inc_slots = nat (next_prime (int (hm_num_slots hm * 3 div 2)));
          slots = hm_slots hm @ replicate (inc_slots - hm_num_slots hm) empty_slot;
          slots = rehash_slots (hm_hash_func hm) inc_slots [0..<hm_num_slots hm] slots
      in hm\<lparr>hm_slots := slots, hm_num_slots := inc_slots\<rparr>)"

definition zbx_hashmap_set :: "zbx_hashmap \<Rightarrow> u64 \<Rightarrow> int \<Rightarrow> zbx_hashmap" where
  "zbx_hashmap_set hm key v =
     (let hm = (if hm_num_slots hm = 0 then zbx_hashmap_init_slots hm 10 else hm);
          s = hm_slot_of hm key;
          slot = hm_slots hm ! s;
          es = hm_entries slot;
          i = slot_scan (hm_compare_func hm) es key
      in if i < length es then
           hm\<lparr>hm_slots := (hm_slots hm)[s := slot\<lparr>hm_entries := es[i := (es ! i)\<lparr>hme_value := v\<rparr>]\<rparr>]\<rparr>
         else
           (let slot = hashmap_ensure_free_entry slot;
                slot = slot\<lparr>hm_entries := hm_entries slot @ [\<lparr>hme_key = key, hme_value = v\<rparr>]\<rparr>;
                hm = hm\<lparr>hm_slots := (hm_slots hm)[s := slot], hm_num_data := hm_num_data hm + 1\<rparr>
            in if hm_num_data hm \<ge> hm_num_slots hm * 5 then hashmap_grow hm else hm))"

definition zbx_hashmap_remove :: "zbx_hashmap \<Rightarrow> u64 \<Rightarrow> zbx_hashmap" where
  "zbx_hashmap_remove hm key =
     (if hm_num_slots hm = 0 then hm
      else let s = hm_slot_of hm key;
               slot = hm_slots hm ! s;
               es = hm_entries slot;
               i = slot_scan (hm_compare_func hm) es key
           in if i < length es then
                hm\<lparr>hm_slots := (hm_slots hm)[s := slot\<lparr>hm_entries := butlast (es[i := last es])\<rparr>],
                   hm_num_data := hm_num_data hm - 1\<rparr>
              else hm)"

definition zbx_hashmap_clear :: "zbx_hashmap \<Rightarrow> zbx_hashmap" where
  "zbx_hashmap_clear hm =
     hm\<lparr>hm_slots := map (\<lambda>slot. slot\<lparr>hm_entries := []\<rparr>) (hm_slots hm), hm_num_data := 0\<rparr>"

section \<open>Invariant and abstraction\<close>

definition hm_all :: "hm_slot list \<Rightarrow> hm_entry list" where
  "hm_all slots = concat (map hm_entries slots)"

definition placed :: "(u64 \<Rightarrow> zbx_hash_t) \<Rightarrow> nat \<Rightarrow> nat \<Rightarrow> hm_slot \<Rightarrow> bool" where
  "placed hash n s slot \<longleftrightarrow> (\<forall>e \<in> set (hm_entries slot). unat (hash (hme_key e)) mod n = s)"

definition slot_room :: "hm_slot \<Rightarrow> bool" where
  "slot_room slot \<longleftrightarrow> length (hm_entries slot) \<le> hm_entries_alloc slot"

definition hm_inv :: "zbx_hashmap \<Rightarrow> bool" where
  "hm_inv hm \<longleftrightarrow>
     compare_equal (hm_compare_func hm)
     \<and> length (hm_slots hm) = hm_num_slots hm
     \<and> (\<forall>s < hm_num_slots hm. placed (hm_hash_func hm) (hm_num_slots hm) s (hm_slots hm ! s))
     \<and> (\<forall>slot \<in> set (hm_slots hm). slot_room slot)
     \<and> distinct (map hme_key (hm_all (hm_slots hm)))
     \<and> hm_num_data hm = length (hm_all (hm_slots hm))"

definition hm_abs :: "zbx_hashmap \<Rightarrow> u64 \<rightharpoonup> int" where
  "hm_abs hm = map_of (map (\<lambda>e. (hme_key e, hme_value e)) (hm_all (hm_slots hm)))"

section \<open>Scanning a slot\<close>

lemma slot_scan_le: "slot_scan cmp es k \<le> length es"
  by (induction es) auto

lemma slot_scan_found:
  assumes "compare_equal cmp" "slot_scan cmp es k < length es"
  shows "hme_key (es ! slot_scan cmp es k) = k"
  using assms(2) by (induction es) (auto simp: compare_equal.cmp_zero [OF assms(1)] split: if_splits)

lemma slot_scan_found_iff:
  assumes "compare_equal cmp"
  shows "slot_scan cmp es k < length es \<longleftrightarrow> k \<in> hme_key ` set es"
  by (induction es) (auto simp: compare_equal.cmp_zero [OF assms])

section \<open>Lookup\<close>

lemma hm_entry_eta [simp]: "\<lparr>hme_key = hme_key e, hme_value = hme_value e\<rparr> = (e :: hm_entry)"
  by (cases e) simp

lemma hm_slot_of_less: "0 < hm_num_slots hm \<Longrightarrow> hm_slot_of hm k < hm_num_slots hm"
  by (simp add: hm_slot_of_def)

lemma hm_all_in_slot:
  assumes "hm_inv hm" "e \<in> set (hm_all (hm_slots hm))"
  shows "0 < hm_num_slots hm \<and> e \<in> set (hm_entries (hm_slots hm ! hm_slot_of hm (hme_key e)))"
proof -
  from assms(2) obtain s where s: "s < length (hm_slots hm)" "e \<in> set (hm_entries (hm_slots hm ! s))"
    by (auto simp: hm_all_def) (metis in_set_conv_nth)
  with assms(1) have "unat (hm_hash_func hm (hme_key e)) mod hm_num_slots hm = s"
    by (auto simp: hm_inv_def placed_def)
  with s assms(1) show ?thesis by (auto simp: hm_slot_of_def hm_inv_def)
qed

lemma entry_insert_iff:
  assumes "hme_key e \<notin> hme_key ` R"
  shows "\<lparr>hme_key = j, hme_value = w\<rparr> \<in> insert e R \<longleftrightarrow>
     (if j = hme_key e then w = hme_value e else \<lparr>hme_key = j, hme_value = w\<rparr> \<in> R)"
  using assms by (cases e) force

lemma entry_notin: "k \<notin> hme_key ` R \<Longrightarrow> \<lparr>hme_key = k, hme_value = w\<rparr> \<notin> R"
  by force

lemma in_hm_all: "s < length slots \<Longrightarrow> e \<in> set (hm_entries (slots ! s)) \<Longrightarrow> e \<in> set (hm_all slots)"
  by (force simp: hm_all_def)

lemma hm_abs_Some_iff:
  assumes "hm_inv hm"
  shows "hm_abs hm k = Some v \<longleftrightarrow> \<lparr>hme_key = k, hme_value = v\<rparr> \<in> set (hm_all (hm_slots hm))"
proof -
  have "distinct (map fst (map (\<lambda>e. (hme_key e, hme_value e)) (hm_all (hm_slots hm))))"
    using assms by (simp add: hm_inv_def comp_def)
  then show ?thesis by (auto simp: hm_abs_def intro!: rev_image_eqI)
qed

lemma hm_get_abs:
  assumes "hm_inv hm"
  shows "zbx_hashmap_get hm k = (case hm_abs hm k of None \<Rightarrow> FAIL | Some v \<Rightarrow> v)"
proof (cases "hm_num_slots hm = 0")
  case True
  with assms show ?thesis by (simp add: zbx_hashmap_get_def hm_abs_def hm_all_def hm_inv_def)
next
  case False
  define s es i where "s = hm_slot_of hm k" and "es = hm_entries (hm_slots hm ! s)"
    and "i = slot_scan (hm_compare_func hm) es k"
  have cmp: "compare_equal (hm_compare_func hm)" using assms by (simp add: hm_inv_def)
  have s: "s < length (hm_slots hm)"
    using False assms hm_slot_of_less [of hm k] by (simp add: s_def hm_inv_def)
  show ?thesis
  proof (cases "i < length es")
    case True
    then have "hme_key (es ! i) = k" using slot_scan_found [OF cmp] by (simp add: i_def)
    moreover have "es ! i \<in> set (hm_all (hm_slots hm))"
      using in_hm_all [OF s] True by (simp add: es_def)
    ultimately have "hm_abs hm k = Some (hme_value (es ! i))"
      by (auto simp: hm_abs_Some_iff [OF assms])
    with True False show ?thesis
      by (simp add: zbx_hashmap_get_def Let_def flip: s_def es_def i_def)
  next
    case notin: False
    have "hm_abs hm k = None"
    proof (rule ccontr)
      assume "hm_abs hm k \<noteq> None"
      then obtain v where "\<lparr>hme_key = k, hme_value = v\<rparr> \<in> set (hm_all (hm_slots hm))"
        by (auto simp: hm_abs_Some_iff [OF assms])
      from hm_all_in_slot [OF assms this] have "k \<in> hme_key ` set es"
        by (force simp: es_def s_def)
      with notin show False by (simp add: i_def slot_scan_found_iff [OF cmp])
    qed
    with notin False show ?thesis
      by (simp add: zbx_hashmap_get_def Let_def flip: s_def es_def i_def)
  qed
qed

section \<open>Rehashing\<close>

lemma slot_room_ensure:
  "slot_room slot \<Longrightarrow> length (hm_entries (hashmap_ensure_free_entry slot))
     < hm_entries_alloc (hashmap_ensure_free_entry slot)"
  by (auto simp: slot_room_def hashmap_ensure_free_entry_def)

lemma entries_ensure:
  "slot_room slot \<Longrightarrow> hm_entries (hashmap_ensure_free_entry slot) = hm_entries slot"
  by (auto simp: slot_room_def hashmap_ensure_free_entry_def)

lemma length_rehash_move [simp]: "length (rehash_move s s' i slots) = length slots"
  by (simp add: rehash_move_def Let_def)

lemma rehash_move_nth:
  assumes "s < length slots" "s' < length slots" "s' \<noteq> s" "\<forall>slot \<in> set slots. slot_room slot"
    and "i < length (hm_entries (slots ! s))" "j < length slots"
  shows "hm_entries (rehash_move s s' i slots ! j) =
     (if j = s then butlast ((hm_entries (slots ! s))[i := last (hm_entries (slots ! s))])
      else if j = s' then hm_entries (slots ! s') @ [hm_entries (slots ! s) ! i]
      else hm_entries (slots ! j))"
  using assms by (auto simp: rehash_move_def Let_def nth_list_update entries_ensure)

lemma rehash_move_room:
  assumes "\<forall>slot \<in> set slots. slot_room slot" "s' < length slots" "s < length slots"
  shows "\<forall>slot \<in> set (rehash_move s s' i slots). slot_room slot"
proof -
  have room: "slot_room (slots ! s)" "slot_room (slots ! s')" using assms by auto
  have "slot_room ((slots ! s)\<lparr>hm_entries := butlast ((hm_entries (slots ! s))[i := x])\<rparr>)" for x
    using room(1) by (simp add: slot_room_def)
  moreover have "slot_room ((hashmap_ensure_free_entry (slots ! s'))
      \<lparr>hm_entries := hm_entries (hashmap_ensure_free_entry (slots ! s')) @ [x]\<rparr>)" for x
    using slot_room_ensure [OF room(2)] by (simp add: slot_room_def)
  ultimately show ?thesis
    using assms(1) by (auto simp: rehash_move_def Let_def dest!: set_update_subset_insert [THEN subsetD])
qed

lemma mset_rehash_move:
  assumes "s < length slots" "s' < length slots" "s' \<noteq> s" "\<forall>slot \<in> set slots. slot_room slot"
    and i: "i < length (hm_entries (slots ! s))"
  shows "mset (hm_all (rehash_move s s' i slots)) = mset (hm_all slots)"
proof -
  define es where "es = map hm_entries slots"
  define x where "x = hm_entries (slots ! s) ! i"
  define ys where "ys = butlast ((es ! s)[i := last (es ! s)])"
  have es: "es ! s = hm_entries (slots ! s)" "es ! s' = hm_entries (slots ! s')"
    using assms by (auto simp: es_def)
  have len: "s < length es" "s' < length es" using assms by (auto simp: es_def)
  have "map hm_entries (rehash_move s s' i slots) = es[s' := es ! s' @ [x], s := ys]"
    using assms rehash_move_nth [OF assms]
    by (intro nth_equalityI) (auto simp: es_def nth_list_update x_def ys_def)
  then have "hm_all (rehash_move s s' i slots) = concat (es[s' := es ! s' @ [x], s := ys])"
    by (simp add: hm_all_def)
  moreover have "mset (concat (es[s' := es ! s' @ [x], s := ys])) + mset (es ! s) =
      mset (concat (es[s' := es ! s' @ [x]])) + mset ys"
    using mset_concat_update [of s "es[s' := es ! s' @ [x]]" ys] len assms(3) by simp
  moreover have "mset (concat (es[s' := es ! s' @ [x]])) = add_mset x (mset (concat es))"
    using mset_concat_update [of s' es "es ! s' @ [x]"] len by simp
  moreover have "mset (es ! s) = add_mset x (mset ys)"
    using mset_remove_nth_last [of i "es ! s"] i by (simp add: es ys_def x_def)
  ultimately show ?thesis by (simp add: hm_all_def es_def)
qed

text \<open>
  The state of the rehash before slot \<open>s\<close> is handled: nothing was lost, every slot has room, and
  the slots below \<open>s\<close> or beyond the old table hold correctly placed entries only.
\<close>

definition rehash_inv ::
  "(u64 \<Rightarrow> zbx_hash_t) \<Rightarrow> nat \<Rightarrow> hm_entry multiset \<Rightarrow> (nat \<Rightarrow> bool) \<Rightarrow> hm_slot list \<Rightarrow> bool" where
  "rehash_inv hash n M done slots \<longleftrightarrow>
     length slots = n \<and> (\<forall>slot \<in> set slots. slot_room slot) \<and> mset (hm_all slots) = M
     \<and> (\<forall>j < n. done j \<longrightarrow> placed hash n j (slots ! j))"

lemma rehash_entries_inv:
  assumes "rehash_inv hash n M done slots" "s < n" "\<not> done s"
    and "\<forall>j < i. j < length (hm_entries (slots ! s)) \<longrightarrow>
           unat (hash (hme_key (hm_entries (slots ! s) ! j))) mod n = s"
  shows "rehash_inv hash n M (\<lambda>j. j = s \<or> done j) (rehash_entries hash n s i slots)"
  using assms
proof (induction hash n s i slots rule: rehash_entries.induct)
  case (1 hash n s i slots)
  note inv = "1.prems"(1)
  have len: "length slots = n" using inv by (simp add: rehash_inv_def)
  let ?es = "hm_entries (slots ! s)"
  show ?case
  proof (cases "i < length ?es")
    case False
    then have "placed hash n s (slots ! s)"
      using "1.prems"(4) by (auto simp: placed_def in_set_conv_nth)
    with False inv show ?thesis
      by (subst rehash_entries.simps) (auto simp: rehash_inv_def)
  next
    case True
    define s' where "s' = unat (hash (hme_key (?es ! i))) mod n"
    have s': "s' < length slots" using "1.prems"(2) len by (simp add: s'_def)
    have guard: "s < length slots \<and> i < length ?es" using True "1.prems"(2) len by simp
    show ?thesis
    proof (cases "s' = s")
      case same: True
      have "rehash_inv hash n M (\<lambda>j. j = s \<or> done j) (rehash_entries hash n s (Suc i) slots)"
        using "1.IH"(2) [OF guard refl] same "1.prems" by (auto simp: s'_def less_Suc_eq)
      with guard same show ?thesis by (subst rehash_entries.simps) (simp add: s'_def)
    next
      case move: False
      define slots' where "slots' = rehash_move s s' i slots"
      have room: "\<forall>slot \<in> set slots. slot_room slot" using inv by (simp add: rehash_inv_def)
      note nth = rehash_move_nth [OF conjunct1 [OF guard] s' move room True]
      have place: "placed hash n j (slots' ! j)" if "j < n" "done j" for j
      proof -
        from that "1.prems"(3) have "j \<noteq> s" by auto
        moreover from that inv have "placed hash n j (slots ! j)" by (simp add: rehash_inv_def)
        ultimately show ?thesis
          using that len nth [of j] by (auto simp: placed_def slots'_def s'_def)
      qed
      have inv': "rehash_inv hash n M done slots'"
        using inv place len s' guard move room mset_rehash_move [OF conjunct1 [OF guard] s' move room True]
          rehash_move_room [OF room s' conjunct1 [OF guard]]
        by (simp add: rehash_inv_def slots'_def)
      have "hm_entries (slots' ! s) = butlast (?es[i := last ?es])"
        using nth [of s] guard by (simp add: slots'_def)
      then have "\<forall>j < i. j < length (hm_entries (slots' ! s)) \<longrightarrow>
           unat (hash (hme_key (hm_entries (slots' ! s) ! j))) mod n = s"
        using "1.prems"(4) by (auto simp: nth_butlast)
      then have "rehash_inv hash n M (\<lambda>j. j = s \<or> done j) (rehash_entries hash n s i slots')"
        using "1.IH"(1) [OF guard s'_def move] inv' "1.prems"(2,3) by (simp add: slots'_def)
      with guard move show ?thesis
        by (subst rehash_entries.simps) (simp add: s'_def slots'_def)
    qed
  qed
qed

lemma rehash_slots_inv:
  assumes "rehash_inv hash n M done slots" "distinct ss" "\<forall>s \<in> set ss. s < n \<and> \<not> done s"
  shows "rehash_inv hash n M (\<lambda>j. j \<in> set ss \<or> done j) (rehash_slots hash n ss slots)"
  using assms
proof (induction ss arbitrary: "done" slots)
  case Nil
  then show ?case by simp
next
  case (Cons s ss)
  have "rehash_inv hash n M (\<lambda>j. j = s \<or> done j) (rehash_entries hash n s 0 slots)"
    using Cons.prems by (intro rehash_entries_inv) auto
  from Cons.IH [OF this] Cons.prems
  have "rehash_inv hash n M (\<lambda>j. j \<in> set ss \<or> j = s \<or> done j) (rehash_slots hash n (s # ss) slots)"
    by auto
  moreover have "(\<lambda>j. j \<in> set ss \<or> j = s \<or> done j) = (\<lambda>j. j \<in> set (s # ss) \<or> done j)" by auto
  ultimately show ?case by simp
qed

lemma hm_inv_mset:
  assumes "hm_inv hm" "mset (hm_all slots) = mset (hm_all (hm_slots hm))"
    and "length slots = n" "\<forall>s < n. placed (hm_hash_func hm) n s (slots ! s)"
    and "\<forall>slot \<in> set slots. slot_room slot"
  shows "hm_inv (hm\<lparr>hm_slots := slots, hm_num_slots := n\<rparr>)"
    and "hm_abs (hm\<lparr>hm_slots := slots, hm_num_slots := n\<rparr>) = hm_abs hm"
proof -
  have "mset (map hme_key (hm_all slots)) = mset (map hme_key (hm_all (hm_slots hm)))"
    using assms(2) by simp
  from mset_eq_imp_distinct_iff [OF this] have d: "distinct (map hme_key (hm_all slots))"
    using assms(1) by (simp add: hm_inv_def)
  have l: "length (hm_all slots) = length (hm_all (hm_slots hm))"
    using assms(2) by (rule mset_eq_length)
  show inv: "hm_inv (hm\<lparr>hm_slots := slots, hm_num_slots := n\<rparr>)"
    using assms d l by (simp add: hm_inv_def)
  have "set (hm_all slots) = set (hm_all (hm_slots hm))" using assms(2) by (rule mset_eq_setD)
  then show "hm_abs (hm\<lparr>hm_slots := slots, hm_num_slots := n\<rparr>) = hm_abs hm"
    unfolding hm_abs_def using d assms(1)
    by (intro map_of_cong_set) (simp_all add: hm_inv_def comp_def)
qed

lemma hm_all_append_empty: "hm_all (slots @ replicate m empty_slot) = hm_all slots"
  by (simp add: hm_all_def)

lemma hashmap_grow_refines:
  assumes inv: "hm_inv hm"
  shows "hm_inv (hashmap_grow hm)" and "hm_abs (hashmap_grow hm) = hm_abs hm"
proof -
  define n where "n = nat (next_prime (int (hm_num_slots hm * 3 div 2)))"
  define slots where "slots = hm_slots hm @ replicate (n - hm_num_slots hm) empty_slot"
  define slots' where "slots' = rehash_slots (hm_hash_func hm) n [0..<hm_num_slots hm] slots"
  have "int (hm_num_slots hm) \<le> int (hm_num_slots hm * 3 div 2)" by linarith
  then have n: "hm_num_slots hm \<le> n" unfolding n_def by (metis nat_int nat_next_prime_ge)
  have "rehash_inv (hm_hash_func hm) n (mset (hm_all (hm_slots hm))) (\<lambda>j. hm_num_slots hm \<le> j) slots"
    using inv n
    by (auto simp: rehash_inv_def slots_def hm_all_append_empty hm_inv_def slot_room_def placed_def
        nth_append)
  from rehash_slots_inv [OF this, of "[0..<hm_num_slots hm]"] n
  have "rehash_inv (hm_hash_func hm) n (mset (hm_all (hm_slots hm)))
      (\<lambda>j. j \<in> set [0..<hm_num_slots hm] \<or> hm_num_slots hm \<le> j) slots'"
    by (simp add: slots'_def)
  then have r: "length slots' = n" "\<forall>slot \<in> set slots'. slot_room slot"
    "mset (hm_all slots') = mset (hm_all (hm_slots hm))"
    "\<forall>j < n. placed (hm_hash_func hm) n j (slots' ! j)"
    by (auto simp: rehash_inv_def)
  have eq: "hashmap_grow hm = hm\<lparr>hm_slots := slots', hm_num_slots := n\<rparr>"
    by (simp add: hashmap_grow_def Let_def n_def slots_def slots'_def)
  show "hm_inv (hashmap_grow hm)" "hm_abs (hashmap_grow hm) = hm_abs hm"
    unfolding eq using hm_inv_mset [OF inv r(3) r(1) r(4) r(2)] by auto
qed

section \<open>Creation, insertion, removal\<close>

lemma hm_init_slots:
  assumes "compare_equal (hm_compare_func hm)"
  shows "hm_inv (zbx_hashmap_init_slots hm n)" and "hm_abs (zbx_hashmap_init_slots hm n) = Map.empty"
  using assms
  by (auto simp: zbx_hashmap_init_slots_def Let_def hm_inv_def hm_abs_def hm_all_def placed_def
      slot_room_def)

lemma hm_create_ext:
  assumes "compare_equal cmp"
  shows "hm_inv (zbx_hashmap_create_ext n hash cmp)" "hm_abs (zbx_hashmap_create_ext n hash cmp) = Map.empty"
  using assms by (simp_all add: zbx_hashmap_create_ext_def hm_init_slots)

lemma hm_create:
  "hm_inv (zbx_hashmap_create n)" "hm_abs (zbx_hashmap_create n) = Map.empty"
  using uint64_cmp.compare_equal_axioms by (simp_all add: zbx_hashmap_create_def hm_create_ext)

lemma hm_all_update:
  assumes "s < length slots"
  shows "mset (hm_all (slots[s := slot])) + mset (hm_entries (slots ! s)) =
         mset (hm_all slots) + mset (hm_entries slot)"
  using mset_concat_update [of s "map hm_entries slots" "hm_entries slot"] assms
  by (simp add: hm_all_def map_update)

lemma hm_slots_split:
  assumes "s < length slots"
  obtains xs ys where "hm_all slots = xs @ hm_entries (slots ! s) @ ys"
    and "\<And>slot. hm_all (slots[s := slot]) = xs @ hm_entries slot @ ys"
proof
  show "hm_all slots = hm_all (take s slots) @ hm_entries (slots ! s) @ hm_all (drop (Suc s) slots)"
    using arg_cong [OF id_take_nth_drop [OF assms], of hm_all] by (simp add: hm_all_def)
  show "hm_all (slots[s := slot]) = hm_all (take s slots) @ hm_entries slot @ hm_all (drop (Suc s) slots)"
    for slot
    using assms by (simp add: hm_all_def upd_conv_take_nth_drop)
qed

lemma hm_placed_update:
  assumes "hm_inv hm" "s < hm_num_slots hm" "placed (hm_hash_func hm) (hm_num_slots hm) s slot"
    and "slot_room slot"
  shows "\<forall>j < hm_num_slots hm. placed (hm_hash_func hm) (hm_num_slots hm) j ((hm_slots hm)[s := slot] ! j)"
    and "\<forall>sl \<in> set ((hm_slots hm)[s := slot]). slot_room sl"
  using assms by (auto simp: hm_inv_def nth_list_update dest!: set_update_subset_insert [THEN subsetD])

lemma hm_replace_value:
  assumes inv: "hm_inv hm" and s: "s < hm_num_slots hm"
    and i: "i < length (hm_entries (hm_slots hm ! s))"
    and es: "es = hm_entries (hm_slots hm ! s)" and k: "hme_key (es ! i) = k"
    and hm': "hm' = hm\<lparr>hm_slots := (hm_slots hm)[s := (hm_slots hm ! s)\<lparr>hm_entries :=
                 es[i := (es ! i)\<lparr>hme_value := v\<rparr>]\<rparr>]\<rparr>"
  shows "hm_inv hm'" and "hm_abs hm' = (hm_abs hm)(k \<mapsto> v)"
proof -
  define slot where "slot = (hm_slots hm ! s)\<lparr>hm_entries := es[i := (es ! i)\<lparr>hme_value := v\<rparr>]\<rparr>"
  have len: "s < length (hm_slots hm)" using s inv by (simp add: hm_inv_def)
  obtain xs ys where xy: "hm_all (hm_slots hm) = xs @ hm_entries (hm_slots hm ! s) @ ys"
    "\<And>slot. hm_all ((hm_slots hm)[s := slot]) = xs @ hm_entries slot @ ys"
    using hm_slots_split [OF len] by metis
  have eis: "es = take i es @ es ! i # drop (Suc i) es" using i es by (simp add: id_take_nth_drop)
  have all: "hm_all (hm_slots hm) = (xs @ take i es) @ es ! i # (drop (Suc i) es @ ys)"
    using xy(1) eis es by (metis append.assoc append_Cons)
  have all': "hm_all (hm_slots hm') =
      (xs @ take i es) @ (es ! i)\<lparr>hme_value := v\<rparr> # (drop (Suc i) es @ ys)"
    using xy(2) i es by (simp add: hm' upd_conv_take_nth_drop)
  have keys: "map hme_key (hm_all (hm_slots hm')) = map hme_key (hm_all (hm_slots hm))"
    unfolding all all' by simp
  have klen: "length (hm_all (hm_slots hm')) = length (hm_all (hm_slots hm))"
    unfolding all all' by simp
  have d: "distinct (map hme_key (hm_all (hm_slots hm)))" using inv by (simp add: hm_inv_def)
  have "placed (hm_hash_func hm) (hm_num_slots hm) s (hm_slots hm ! s)" "slot_room (hm_slots hm ! s)"
    using inv s len by (auto simp: hm_inv_def)
  then have "placed (hm_hash_func hm) (hm_num_slots hm) s slot" "slot_room slot"
    using i es
    by (auto simp: placed_def slot_room_def slot_def dest!: set_update_subset_insert [THEN subsetD])
  from hm_placed_update [OF inv s this] show inv': "hm_inv hm'"
    using inv keys klen by (simp add: hm_inv_def hm' slot_def es)
  have d2: "k \<notin> hme_key ` set (xs @ take i es)" "k \<notin> hme_key ` set (drop (Suc i) es @ ys)"
    using d unfolding all by (auto simp: k)
  show "hm_abs hm' = (hm_abs hm)(k \<mapsto> v)"
  proof
    fix j
    have e': "(es ! i)\<lparr>hme_value := v\<rparr> = \<lparr>hme_key = k, hme_value = v\<rparr>"
      using k by (cases "es ! i") simp
    define R where "R = set (xs @ take i es) \<union> set (drop (Suc i) es @ ys)"
    have "k \<notin> hme_key ` R" using d2 by (auto simp: R_def)
    moreover have "set (hm_all (hm_slots hm)) = insert (es ! i) R"
      "set (hm_all (hm_slots hm')) = insert \<lparr>hme_key = k, hme_value = v\<rparr> R"
      unfolding all all' e' R_def by auto
    ultimately show "hm_abs hm' j = ((hm_abs hm)(k \<mapsto> v)) j"
      using k by (intro option_eqI) (auto simp: hm_abs_Some_iff [OF inv'] hm_abs_Some_iff [OF inv] entry_insert_iff
          entry_notin simp del: insert_iff)
  qed
qed

lemma hm_add_entry:
  assumes inv: "hm_inv hm" and n: "0 < hm_num_slots hm" and k: "hm_abs hm k = None"
    and s: "s = hm_slot_of hm k"
    and slot: "slot = hashmap_ensure_free_entry (hm_slots hm ! s)"
    and hm': "hm' = hm\<lparr>hm_slots := (hm_slots hm)[s := slot\<lparr>hm_entries := hm_entries slot @
                   [\<lparr>hme_key = k, hme_value = v\<rparr>]\<rparr>], hm_num_data := hm_num_data hm + 1\<rparr>"
  shows "hm_inv hm'" and "hm_abs hm' = (hm_abs hm)(k \<mapsto> v)"
proof -
  let ?e = "\<lparr>hme_key = k, hme_value = v\<rparr>"
  define slot' where "slot' = slot\<lparr>hm_entries := hm_entries slot @ [?e]\<rparr>"
  have sn: "s < hm_num_slots hm" using n s by (simp add: hm_slot_of_less)
  have len: "s < length (hm_slots hm)" using sn inv by (simp add: hm_inv_def)
  have room: "slot_room (hm_slots hm ! s)" and pl: "placed (hm_hash_func hm) (hm_num_slots hm) s (hm_slots hm ! s)"
    using inv len sn by (auto simp: hm_inv_def)
  have es: "hm_entries slot = hm_entries (hm_slots hm ! s)" using room by (simp add: slot entries_ensure)
  obtain xs ys where xy: "hm_all (hm_slots hm) = xs @ hm_entries (hm_slots hm ! s) @ ys"
    "\<And>slot. hm_all ((hm_slots hm)[s := slot]) = xs @ hm_entries slot @ ys"
    using hm_slots_split [OF len] by metis
  have all: "mset (hm_all (hm_slots hm')) = add_mset ?e (mset (hm_all (hm_slots hm)))"
    using xy by (simp add: hm' es)
  have fresh: "k \<notin> hme_key ` set (hm_all (hm_slots hm))"
    using k by (auto simp: hm_abs_def map_of_eq_None_iff image_iff)
  have "mset (map hme_key (hm_all (hm_slots hm'))) = mset (k # map hme_key (hm_all (hm_slots hm)))"
    using all by simp
  from mset_eq_imp_distinct_iff [OF this] have d: "distinct (map hme_key (hm_all (hm_slots hm')))"
    using fresh inv by (simp add: hm_inv_def)
  have l: "length (hm_all (hm_slots hm')) = Suc (length (hm_all (hm_slots hm)))"
    using arg_cong [OF all, of size] by simp
  have "placed (hm_hash_func hm) (hm_num_slots hm) s slot'"
    using pl by (auto simp: placed_def slot'_def es) (simp add: s hm_slot_of_def)
  moreover have "slot_room slot'"
    using slot_room_ensure [OF room] by (simp add: slot'_def slot_room_def slot)
  ultimately have "placed (hm_hash_func hm) (hm_num_slots hm) s slot'" "slot_room slot'" by auto
  from hm_placed_update [OF inv sn this] show inv': "hm_inv hm'"
    using inv d l by (simp add: hm_inv_def hm' slot'_def)
  show "hm_abs hm' = (hm_abs hm)(k \<mapsto> v)"
  proof
    fix j
    have "set (hm_all (hm_slots hm')) = insert ?e (set (hm_all (hm_slots hm)))"
      using arg_cong [OF all, of set_mset] by simp
    then show "hm_abs hm' j = ((hm_abs hm)(k \<mapsto> v)) j"
      using fresh by (intro option_eqI) (auto simp: hm_abs_Some_iff [OF inv'] hm_abs_Some_iff [OF inv] entry_insert_iff
          entry_notin simp del: insert_iff)
  qed
qed

lemma hm_delete_entry:
  assumes inv: "hm_inv hm" and sn: "s < hm_num_slots hm"
    and es: "es = hm_entries (hm_slots hm ! s)" and i: "i < length es" and k: "hme_key (es ! i) = k"
    and hm': "hm' = hm\<lparr>hm_slots := (hm_slots hm)[s := (hm_slots hm ! s)\<lparr>hm_entries :=
                   butlast (es[i := last es])\<rparr>], hm_num_data := hm_num_data hm - 1\<rparr>"
  shows "hm_inv hm'" and "hm_abs hm' = (hm_abs hm)(k := None)"
proof -
  define slot' where "slot' = (hm_slots hm ! s)\<lparr>hm_entries := butlast (es[i := last es])\<rparr>"
  have len: "s < length (hm_slots hm)" using sn inv by (simp add: hm_inv_def)
  have room: "slot_room (hm_slots hm ! s)" and pl: "placed (hm_hash_func hm) (hm_num_slots hm) s (hm_slots hm ! s)"
    using inv len sn by (auto simp: hm_inv_def)
  have "mset (hm_all (hm_slots hm')) + mset es = mset (hm_all (hm_slots hm)) + mset (butlast (es[i := last es]))"
    using hm_all_update [OF len, of slot'] by (simp add: hm' slot'_def es)
  then have "add_mset (es ! i) (mset (hm_all (hm_slots hm'))) + mset (butlast (es[i := last es])) =
      mset (hm_all (hm_slots hm)) + mset (butlast (es[i := last es]))"
    unfolding mset_remove_nth_last [OF i, symmetric] by simp
  then have all: "mset (hm_all (hm_slots hm)) = add_mset (es ! i) (mset (hm_all (hm_slots hm')))"
    by simp
  have "mset (map hme_key (hm_all (hm_slots hm))) = mset (k # map hme_key (hm_all (hm_slots hm')))"
    using all k by simp
  from mset_eq_imp_distinct_iff [OF this]
  have d: "distinct (map hme_key (hm_all (hm_slots hm')))" "k \<notin> hme_key ` set (hm_all (hm_slots hm'))"
    using inv by (simp_all add: hm_inv_def)
  have l: "length (hm_all (hm_slots hm)) = Suc (length (hm_all (hm_slots hm')))"
    using arg_cong [OF all, of size] by simp
  have sub: "set (butlast (es[i := last es])) \<subseteq> set es"
    using mset_remove_nth_last [OF i] by (metis insert_iff set_mset_add_mset_insert set_mset_mset subsetI)
  have "placed (hm_hash_func hm) (hm_num_slots hm) s slot'" "slot_room slot'"
    using pl room sub by (auto simp: placed_def slot'_def slot_room_def es)
  from hm_placed_update [OF inv sn this] show inv': "hm_inv hm'"
    using inv d l by (simp add: hm_inv_def hm' slot'_def)
  show "hm_abs hm' = (hm_abs hm)(k := None)"
  proof
    fix j
    have "set (hm_all (hm_slots hm)) = insert (es ! i) (set (hm_all (hm_slots hm')))"
      using arg_cong [OF all, of set_mset] by simp
    then show "hm_abs hm' j = ((hm_abs hm)(k := None)) j"
      using d(2) k by (intro option_eqI) (auto simp: hm_abs_Some_iff [OF inv'] hm_abs_Some_iff [OF inv] entry_insert_iff
          entry_notin simp del: insert_iff)
  qed
qed

lemma hm_set_refines:
  assumes "hm_inv hm"
  shows "hm_inv (zbx_hashmap_set hm k v)" and "hm_abs (zbx_hashmap_set hm k v) = (hm_abs hm)(k \<mapsto> v)"
proof -
  define hm0 where "hm0 = (if hm_num_slots hm = 0 then zbx_hashmap_init_slots hm 10 else hm)"
  have cmp: "compare_equal (hm_compare_func hm)" using assms by (simp add: hm_inv_def)
  have inv0: "hm_inv hm0" and abs0: "hm_abs hm0 = hm_abs hm" and n0: "0 < hm_num_slots hm0"
    and cmp0: "hm_compare_func hm0 = hm_compare_func hm"
    using assms hm_init_slots [OF cmp, of 10] next_prime_gt_one [of 10]
    by (auto simp: hm0_def hm_abs_def hm_all_def hm_inv_def zbx_hashmap_init_slots_def Let_def)
  define s es i where "s = hm_slot_of hm0 k" and "es = hm_entries (hm_slots hm0 ! s)"
    and "i = slot_scan (hm_compare_func hm0) es k"
  have sn: "s < hm_num_slots hm0" using n0 by (simp add: s_def hm_slot_of_less)
  note eq = zbx_hashmap_set_def [of hm k v, unfolded Let_def, folded hm0_def, folded s_def, folded es_def, folded i_def]
  have "hm_inv (zbx_hashmap_set hm k v) \<and> hm_abs (zbx_hashmap_set hm k v) = (hm_abs hm)(k \<mapsto> v)"
  proof (cases "i < length es")
    case True
    then have "hme_key (es ! i) = k" using slot_scan_found cmp cmp0 by (simp add: i_def)
    from hm_replace_value [OF inv0 sn _ es_def this refl, of v] True show ?thesis
      by (simp add: eq abs0) (simp add: es_def)
  next
    case False
    have "hm_abs hm0 k = None"
    proof (rule ccontr)
      assume "hm_abs hm0 k \<noteq> None"
      then obtain w where "\<lparr>hme_key = k, hme_value = w\<rparr> \<in> set (hm_all (hm_slots hm0))"
        by (auto simp: hm_abs_Some_iff [OF inv0])
      from hm_all_in_slot [OF inv0 this] have "k \<in> hme_key ` set es" by (force simp: es_def s_def)
      with False show False using slot_scan_found_iff cmp cmp0 by (simp add: i_def)
    qed
    note add = hm_add_entry [OF inv0 n0 this s_def refl refl, of v]
    with False hashmap_grow_refines [OF add(1)] show ?thesis by (simp add: eq abs0)
  qed
  then show "hm_inv (zbx_hashmap_set hm k v)" "hm_abs (zbx_hashmap_set hm k v) = (hm_abs hm)(k \<mapsto> v)"
    by auto
qed

lemma hm_remove_refines:
  assumes inv: "hm_inv hm"
  shows "hm_inv (zbx_hashmap_remove hm k)" and "hm_abs (zbx_hashmap_remove hm k) = (hm_abs hm)(k := None)"
proof -
  have cmp: "compare_equal (hm_compare_func hm)" using inv by (simp add: hm_inv_def)
  define s es i where "s = hm_slot_of hm k" and "es = hm_entries (hm_slots hm ! s)"
    and "i = slot_scan (hm_compare_func hm) es k"
  note eq = zbx_hashmap_remove_def [of hm k, unfolded Let_def, folded s_def, folded es_def, folded i_def]
  have "hm_inv (zbx_hashmap_remove hm k) \<and> hm_abs (zbx_hashmap_remove hm k) = (hm_abs hm)(k := None)"
  proof (cases "hm_num_slots hm \<noteq> 0 \<and> i < length es")
    case True
    then have k: "hme_key (es ! i) = k" using slot_scan_found cmp by (simp add: i_def)
    have sn: "s < hm_num_slots hm" using True by (simp add: s_def hm_slot_of_less)
    from hm_delete_entry [OF inv sn es_def _ k refl] True show ?thesis by (simp add: eq)
  next
    case False
    have "hm_abs hm k = None"
    proof (rule ccontr)
      assume "hm_abs hm k \<noteq> None"
      then obtain w where "\<lparr>hme_key = k, hme_value = w\<rparr> \<in> set (hm_all (hm_slots hm))"
        by (auto simp: hm_abs_Some_iff [OF inv])
      from hm_all_in_slot [OF inv this] have "hm_num_slots hm \<noteq> 0" "k \<in> hme_key ` set es"
        by (force simp: es_def s_def)+
      with False show False using slot_scan_found_iff cmp by (simp add: i_def)
    qed
    then have "(hm_abs hm)(k := None) = hm_abs hm" by (simp add: fun_upd_idem)
    with False inv show ?thesis by (auto simp: eq)
  qed
  then show "hm_inv (zbx_hashmap_remove hm k)" "hm_abs (zbx_hashmap_remove hm k) = (hm_abs hm)(k := None)"
    by auto
qed

lemma hm_clear_refines:
  assumes "hm_inv hm"
  shows "hm_inv (zbx_hashmap_clear hm)" and "hm_abs (zbx_hashmap_clear hm) = Map.empty"
  using assms
  by (auto simp: zbx_hashmap_clear_def hm_inv_def hm_abs_def hm_all_def placed_def slot_room_def comp_def)

section \<open>The interface of the key index\<close>

text \<open>
  What the binary heap relies on: the operations refine a partial map, \<open>get\<close> answering \<open>FAIL\<close>
  for a key that is not there.
\<close>

locale key_index =
  fixes get :: "'m \<Rightarrow> 'k \<Rightarrow> int"
    and put :: "'m \<Rightarrow> 'k \<Rightarrow> int \<Rightarrow> 'm"
    and del :: "'m \<Rightarrow> 'k \<Rightarrow> 'm"
    and wipe :: "'m \<Rightarrow> 'm"
    and inv :: "'m \<Rightarrow> bool"
    and abs :: "'m \<Rightarrow> 'k \<rightharpoonup> int"
  assumes get_abs: "inv m \<Longrightarrow> get m k = (case abs m k of None \<Rightarrow> FAIL | Some v \<Rightarrow> v)"
    and put_inv: "inv m \<Longrightarrow> inv (put m k v)"
    and put_abs: "inv m \<Longrightarrow> abs (put m k v) = (abs m)(k \<mapsto> v)"
    and del_inv: "inv m \<Longrightarrow> inv (del m k)"
    and del_abs: "inv m \<Longrightarrow> abs (del m k) = (abs m)(k := None)"
    and wipe_inv: "inv m \<Longrightarrow> inv (wipe m)"
    and wipe_abs: "inv m \<Longrightarrow> abs (wipe m) = Map.empty"
begin

lemma get_put: "inv m \<Longrightarrow> get (put m k v) j = (if j = k then v else get m j)"
  by (simp add: get_abs put_inv put_abs)

lemma get_del: "inv m \<Longrightarrow> get (del m k) j = (if j = k then FAIL else get m j)"
  by (simp add: get_abs del_inv del_abs)

lemma get_wipe: "inv m \<Longrightarrow> get (wipe m) k = FAIL"
  by (simp add: get_abs wipe_inv wipe_abs)

lemma put_put_inv: "inv m \<Longrightarrow> inv (put (put m k v) k' v')"
  by (simp add: put_inv)

lemma put_put_abs: "inv m \<Longrightarrow> abs (put (put m k v) k' v') = (abs m)(k \<mapsto> v, k' \<mapsto> v')"
  by (simp add: put_inv put_abs)

lemma get_eq_FAIL:
  assumes "inv m" "\<And>v. abs m k = Some v \<Longrightarrow> 0 \<le> v"
  shows "get m k = FAIL \<longleftrightarrow> abs m k = None"
  using assms by (cases "abs m k") (auto simp: get_abs)

lemma get_eq_index:
  assumes "inv m" "\<And>v. abs m k = Some v \<Longrightarrow> 0 \<le> v" "0 \<le> i"
  shows "get m k = i \<longleftrightarrow> abs m k = Some i"
  using assms by (cases "abs m k") (auto simp: get_abs)

lemmas laws = put_inv put_abs del_inv del_abs wipe_inv wipe_abs

end

interpretation hm: key_index zbx_hashmap_get zbx_hashmap_set zbx_hashmap_remove zbx_hashmap_clear
  hm_inv hm_abs
  by unfold_locales
    (simp_all add: hm_get_abs hm_set_refines hm_remove_refines hm_clear_refines)

lemmas hm_inv_intros [inv_intros] = hm.put_inv hm.del_inv hm.wipe_inv hm_create

section \<open>Runs\<close>

datatype hm_op = HmSet u64 int | HmRemove u64 | HmClear

fun hm_exec :: "zbx_hashmap \<Rightarrow> hm_op \<Rightarrow> zbx_hashmap" where
  "hm_exec hm (HmSet k v) = zbx_hashmap_set hm k v"
| "hm_exec hm (HmRemove k) = zbx_hashmap_remove hm k"
| "hm_exec hm HmClear = zbx_hashmap_clear hm"

fun hm_spec :: "(u64 \<rightharpoonup> int) \<Rightarrow> hm_op \<Rightarrow> (u64 \<rightharpoonup> int)" where
  "hm_spec m (HmSet k v) = m(k \<mapsto> v)"
| "hm_spec m (HmRemove k) = m(k := None)"
| "hm_spec m HmClear = Map.empty"

lemma hm_exec_refines:
  assumes "hm_inv hm"
  shows "hm_inv (hm_exec hm a)" and "hm_abs (hm_exec hm a) = hm_spec (hm_abs hm) a"
  using assms by (cases a; simp add: hm.laws)+

lemma hm_run_refines:
  assumes "hm_inv hm"
  shows "hm_inv (foldl hm_exec hm ops)" and "hm_abs (foldl hm_exec hm ops) = foldl hm_spec (hm_abs hm) ops"
  using assms by (induction ops arbitrary: hm) (simp_all add: hm_exec_refines)

text \<open>
  C4.  After any sequence of \<open>zbx_hashmap_set\<close>, \<open>zbx_hashmap_remove\<close> and \<open>zbx_hashmap_clear\<close> on a
  freshly created hashmap, slot growth and rehashing included, \<open>zbx_hashmap_get\<close> answers exactly
  what a mathematical map that went through the same operations holds, and \<open>FAIL\<close> for every
  other key; the element counter is the number of keys of that map.
\<close>

theorem hashmap_refines_map:
  "zbx_hashmap_get (foldl hm_exec (zbx_hashmap_create n) ops) k
     = (case foldl hm_spec Map.empty ops k of None \<Rightarrow> FAIL | Some v \<Rightarrow> v)
   \<and> hm_num_data (foldl hm_exec (zbx_hashmap_create n) ops) = card (dom (foldl hm_spec Map.empty ops))"
proof -
  let ?hm = "foldl hm_exec (zbx_hashmap_create n) ops"
  have inv: "hm_inv ?hm" and abs: "hm_abs ?hm = foldl hm_spec Map.empty ops"
    using hm_run_refines [OF hm_create(1)] by (simp_all add: hm_create)
  have "dom (hm_abs ?hm) = set (map hme_key (hm_all (hm_slots ?hm)))"
    by (simp add: hm_abs_def dom_map_of_conv_image_fst image_image)
  then have "card (dom (hm_abs ?hm)) = length (hm_all (hm_slots ?hm))"
    using inv by (simp only: hm_inv_def distinct_card length_map)
  with inv abs show ?thesis by (simp add: hm.get_abs hm_inv_def)
qed

end
