(* ===== verification/Binary_Heap.thy ===== *)
theory Binary_Heap
  imports Hashmap
begin

text \<open>
  \<open>src/libs/zbxalgo/binaryheap.c\<close>: the array-based min-heap with an optional key index (option
  DIRECT), the timer queue of pollers, timers, escalators and the event queue.

  \<open>bh_elems\<close> is the live prefix of the element array, so \<open>elems_num\<close> is its length;
  \<open>bh_elems_alloc\<close> is the capacity, 0 exactly while the array pointer is NULL.  Every \<open>exit\<close> of
  the source is the error \<open>ExitFailure\<close>.
\<close>

section \<open>State\<close>

record heap_elem =
  he_key :: u64
  he_data :: u64
  he_local_data :: u64

record zbx_binary_heap =
  bh_elems :: "heap_elem list"
  bh_elems_alloc :: nat
  bh_options :: int
  bh_compare_func :: "heap_elem \<Rightarrow> heap_elem \<Rightarrow> int"
  bh_key_index :: "zbx_hashmap option"

abbreviation bh_elems_num :: "zbx_binary_heap \<Rightarrow> nat" where
  "bh_elems_num heap \<equiv> length (bh_elems heap)"

definition has_direct_option :: "zbx_binary_heap \<Rightarrow> bool" where
  "has_direct_option heap \<longleftrightarrow> bh_options heap AND 1 \<noteq> 0"

text \<open>Calls on \<open>heap->key_index\<close> under \<open>HAS_DIRECT_OPTION\<close>.\<close>

definition index_set :: "u64 \<Rightarrow> nat \<Rightarrow> zbx_binary_heap \<Rightarrow> zbx_binary_heap" where
  "index_set key index heap =
     (if has_direct_option heap
      then heap\<lparr>bh_key_index := map_option (\<lambda>hm. zbx_hashmap_set hm key (int index)) (bh_key_index heap)\<rparr>
      else heap)"

definition index_remove :: "u64 \<Rightarrow> zbx_binary_heap \<Rightarrow> zbx_binary_heap" where
  "index_remove key heap =
     (if has_direct_option heap
      then heap\<lparr>bh_key_index := map_option (\<lambda>hm. zbx_hashmap_remove hm key) (bh_key_index heap)\<rparr>
      else heap)"

definition index_get :: "zbx_binary_heap \<Rightarrow> u64 \<Rightarrow> int" where
  "index_get heap key = (case bh_key_index heap of None \<Rightarrow> FAIL | Some hm \<Rightarrow> zbx_hashmap_get hm key)"

section \<open>Operations\<close>

definition binary_heap_swap :: "zbx_binary_heap \<Rightarrow> nat \<Rightarrow> nat \<Rightarrow> zbx_binary_heap" where
  "binary_heap_swap heap index_1 index_2 =
     (let heap = heap\<lparr>bh_elems := list_swap (bh_elems heap) index_1 index_2\<rparr>;
          heap = index_set (he_key (bh_elems heap ! index_1)) index_1 heap
      in index_set (he_key (bh_elems heap ! index_2)) index_2 heap)"

definition binary_heap_ensure_free_space :: "zbx_binary_heap \<Rightarrow> zbx_binary_heap" where
  "binary_heap_ensure_free_space heap =
     (if bh_elems_alloc heap = 0 then heap\<lparr>bh_elems := [], bh_elems_alloc := 32\<rparr>
      else if bh_elems_num heap = bh_elems_alloc heap
      then heap\<lparr>bh_elems_alloc := max (bh_elems_alloc heap + 1) (bh_elems_alloc heap * 3 div 2)\<rparr>
      else heap)"

lemma index_set_elems [simp]:
  "bh_elems (index_set k i h) = bh_elems h"
  "bh_compare_func (index_set k i h) = bh_compare_func h"
  "bh_elems_alloc (index_set k i h) = bh_elems_alloc h"
  "bh_options (index_set k i h) = bh_options h"
  by (simp_all add: index_set_def)

lemma index_remove_elems [simp]:
  "bh_elems (index_remove k h) = bh_elems h"
  "bh_compare_func (index_remove k h) = bh_compare_func h"
  "bh_elems_alloc (index_remove k h) = bh_elems_alloc h"
  "bh_options (index_remove k h) = bh_options h"
  by (simp_all add: index_remove_def)

lemma binary_heap_swap_simps [simp]:
  "bh_elems (binary_heap_swap h i j) = list_swap (bh_elems h) i j"
  "bh_compare_func (binary_heap_swap h i j) = bh_compare_func h"
  "bh_elems_alloc (binary_heap_swap h i j) = bh_elems_alloc h"
  "bh_options (binary_heap_swap h i j) = bh_options h"
  by (simp_all add: binary_heap_swap_def Let_def)

function binary_heap_bubble_up :: "zbx_binary_heap \<Rightarrow> nat \<Rightarrow> zbx_binary_heap \<times> nat" where
  "binary_heap_bubble_up heap index =
     (if index \<noteq> 0 then
        (if bh_compare_func heap (bh_elems heap ! ((index - 1) div 2)) (bh_elems heap ! index) \<le> 0
         then (heap, index)
         else binary_heap_bubble_up (binary_heap_swap heap ((index - 1) div 2) index) ((index - 1) div 2))
      else (heap, index))"
  by pat_completeness auto
termination
  by (relation "measure snd") auto

function binary_heap_bubble_down :: "zbx_binary_heap \<Rightarrow> nat \<Rightarrow> zbx_binary_heap \<times> nat" where
  "binary_heap_bubble_down heap index =
     (let left = 2 * index + 1; right = 2 * index + 2 in
      if left \<ge> bh_elems_num heap then (heap, index)
      else if right \<ge> bh_elems_num heap then
        (if bh_compare_func heap (bh_elems heap ! index) (bh_elems heap ! left) > 0
         then (binary_heap_swap heap index left, left)
         else (heap, index))
      else if bh_compare_func heap (bh_elems heap ! left) (bh_elems heap ! right) \<le> 0 then
        (if bh_compare_func heap (bh_elems heap ! index) (bh_elems heap ! left) > 0
         then binary_heap_bubble_down (binary_heap_swap heap index left) left
         else (heap, index))
      else
        (if bh_compare_func heap (bh_elems heap ! index) (bh_elems heap ! right) > 0
         then binary_heap_bubble_down (binary_heap_swap heap index right) right
         else (heap, index)))"
  by pat_completeness auto
termination
  by (relation "measure (\<lambda>(heap, index). bh_elems_num heap - index)") auto

declare binary_heap_bubble_up.simps [simp del] binary_heap_bubble_down.simps [simp del]

definition zbx_binary_heap_create :: "(heap_elem \<Rightarrow> heap_elem \<Rightarrow> int) \<Rightarrow> int \<Rightarrow> zbx_binary_heap" where
  "zbx_binary_heap_create compare_func options =
     (let heap = \<lparr>bh_elems = [], bh_elems_alloc = 0, bh_options = options,
                  bh_compare_func = compare_func, bh_key_index = None\<rparr>
      in if has_direct_option heap
         then heap\<lparr>bh_key_index := Some (zbx_hashmap_create_ext 512 zbx_hash_splittable64
                                        zbx_default_uint64_compare_func)\<rparr>
         else heap)"

text \<open>The function pointers that \<open>destroy\<close> clears are left: the structure is dead afterwards.\<close>

definition zbx_binary_heap_destroy :: "zbx_binary_heap \<Rightarrow> zbx_binary_heap" where
  "zbx_binary_heap_destroy heap =
     (let heap = heap\<lparr>bh_elems := [], bh_elems_alloc := 0\<rparr>
      in if has_direct_option heap then heap\<lparr>bh_key_index := None, bh_options := 0\<rparr> else heap)"

definition zbx_binary_heap_empty :: "zbx_binary_heap \<Rightarrow> int" where
  "zbx_binary_heap_empty heap = (if bh_elems_num heap = 0 then SUCCEED else FAIL)"

definition zbx_binary_heap_find_min :: "zbx_binary_heap \<Rightarrow> heap_elem result" where
  "zbx_binary_heap_find_min heap =
     (if bh_elems_num heap = 0 then Inl ExitFailure else Inr (bh_elems heap ! 0))"

definition zbx_binary_heap_insert :: "zbx_binary_heap \<Rightarrow> heap_elem \<Rightarrow> zbx_binary_heap result" where
  "zbx_binary_heap_insert heap elem =
     (if has_direct_option heap \<and> index_get heap (he_key elem) \<noteq> FAIL then Inl ExitFailure
      else
        (let heap = binary_heap_ensure_free_space heap;
             index = bh_elems_num heap;
             heap = heap\<lparr>bh_elems := bh_elems heap @ [elem]\<rparr>;
             (heap, index) = binary_heap_bubble_up heap index
         in Inr (if index = bh_elems_num heap - 1
                 then index_set (he_key elem) index heap else heap)))"

definition zbx_binary_heap_update_direct :: "zbx_binary_heap \<Rightarrow> heap_elem \<Rightarrow> zbx_binary_heap result" where
  "zbx_binary_heap_update_direct heap elem =
     (if \<not> has_direct_option heap then Inl ExitFailure
      else
        (let index = index_get heap (he_key elem)
         in if index \<noteq> FAIL then
              (let index = nat index;
                   heap = heap\<lparr>bh_elems := (bh_elems heap)[index := elem]\<rparr>;
                   (heap, index') = binary_heap_bubble_up heap index
               in Inr (if index = index' then fst (binary_heap_bubble_down heap index) else heap))
            else Inl ExitFailure))"

text \<open>\<open>heap->elems[index] = heap->elems[--heap->elems_num]\<close>\<close>

definition take_last :: "nat \<Rightarrow> zbx_binary_heap \<Rightarrow> zbx_binary_heap" where
  "take_last index heap =
     heap\<lparr>bh_elems := (butlast (bh_elems heap))[index := last (bh_elems heap)]\<rparr>"

definition zbx_binary_heap_remove_min :: "zbx_binary_heap \<Rightarrow> zbx_binary_heap result" where
  "zbx_binary_heap_remove_min heap =
     (if bh_elems_num heap = 0 then Inl ExitFailure
      else
        (let heap = index_remove (he_key (bh_elems heap ! 0)) heap
         in if bh_elems_num heap - 1 \<noteq> 0 then
              (let (heap, index) = binary_heap_bubble_down (take_last 0 heap) 0
               in Inr (if index = 0 then index_set (he_key (bh_elems heap ! index)) index heap else heap))
            else Inr (heap\<lparr>bh_elems := butlast (bh_elems heap)\<rparr>)))"

definition zbx_binary_heap_remove_direct :: "zbx_binary_heap \<Rightarrow> u64 \<Rightarrow> zbx_binary_heap result" where
  "zbx_binary_heap_remove_direct heap key =
     (if \<not> has_direct_option heap then Inl ExitFailure
      else
        (let index = index_get heap key
         in if index \<noteq> FAIL then
              (let index = nat index;
                   heap = index_remove key heap
               in if index \<noteq> bh_elems_num heap - 1 then
                    (let (heap, index') = binary_heap_bubble_up (take_last index heap) index
                     in if index = index' then
                          (let (heap, index'') = binary_heap_bubble_down heap index
                           in Inr (if index = index''
                                   then index_set (he_key (bh_elems heap ! index)) index heap else heap))
                        else Inr heap)
                  else Inr (heap\<lparr>bh_elems := butlast (bh_elems heap)\<rparr>))
            else Inl ExitFailure))"

definition zbx_binary_heap_clear :: "zbx_binary_heap \<Rightarrow> zbx_binary_heap" where
  "zbx_binary_heap_clear heap =
     (let heap = heap\<lparr>bh_elems := []\<rparr>
      in if has_direct_option heap
         then heap\<lparr>bh_key_index := map_option zbx_hashmap_clear (bh_key_index heap)\<rparr> else heap)"

section \<open>Frame facts of the bubble loops\<close>

lemma bubble_up_frame:
  assumes "index < bh_elems_num heap"
  shows "mset (bh_elems (fst (binary_heap_bubble_up heap index))) = mset (bh_elems heap)
    \<and> bh_elems_num (fst (binary_heap_bubble_up heap index)) = bh_elems_num heap
    \<and> bh_compare_func (fst (binary_heap_bubble_up heap index)) = bh_compare_func heap
    \<and> bh_elems_alloc (fst (binary_heap_bubble_up heap index)) = bh_elems_alloc heap
    \<and> bh_options (fst (binary_heap_bubble_up heap index)) = bh_options heap
    \<and> snd (binary_heap_bubble_up heap index) \<le> index"
  using assms
proof (induction heap index rule: binary_heap_bubble_up.induct)
  case (1 heap index)
  show ?case
  proof (cases "index \<noteq> 0 \<and>
      \<not> bh_compare_func heap (bh_elems heap ! ((index - 1) div 2)) (bh_elems heap ! index) \<le> 0")
    case True
    have "(index - 1) div 2 < bh_elems_num heap" "(index - 1) div 2 \<le> index" using "1.prems" by auto
    with True 1 show ?thesis by (subst (1 2 3 4 5 6) binary_heap_bubble_up.simps) auto
  next
    case False
    then have "binary_heap_bubble_up heap index = (heap, index)"
      by (subst binary_heap_bubble_up.simps) auto
    then show ?thesis by simp
  qed
qed

lemma bubble_down_cases:
  obtains (stop) "binary_heap_bubble_down heap index = (heap, index)"
      "\<And>k. compare_order (bh_compare_func heap) \<Longrightarrow> k < bh_elems_num heap \<Longrightarrow>
         k = 2 * index + 1 \<or> k = 2 * index + 2 \<Longrightarrow>
         bh_compare_func heap (bh_elems heap ! index) (bh_elems heap ! k) \<le> 0"
  | (move) m where "m = 2 * index + 1 \<or> m = 2 * index + 2" "m < bh_elems_num heap"
      "\<not> bh_compare_func heap (bh_elems heap ! index) (bh_elems heap ! m) \<le> 0"
      "\<And>k. compare_order (bh_compare_func heap) \<Longrightarrow> k < bh_elems_num heap \<Longrightarrow>
         k = 2 * index + 1 \<or> k = 2 * index + 2 \<Longrightarrow> 
         bh_compare_func heap (bh_elems heap ! m) (bh_elems heap ! k) \<le> 0"
      "binary_heap_bubble_down heap index = binary_heap_bubble_down (binary_heap_swap heap index m) m"
proof -
  let ?c = "bh_compare_func heap" and ?xs = "bh_elems heap" and ?l = "2 * index + 1" and ?r = "2 * index + 2"
  note eq = binary_heap_bubble_down.simps [of heap index]
  note ord = compare_order.cmp_refl compare_order.cmp_not_le
  consider (a) "?l \<ge> length ?xs"
    | (b) "?l < length ?xs" "?r \<ge> length ?xs" "?c (?xs ! index) (?xs ! ?l) > 0"
    | (c) "?l < length ?xs" "?r \<ge> length ?xs" "\<not> ?c (?xs ! index) (?xs ! ?l) > 0"
    | (d) "?r < length ?xs" "?c (?xs ! ?l) (?xs ! ?r) \<le> 0" "?c (?xs ! index) (?xs ! ?l) > 0"
    | (e) "?r < length ?xs" "?c (?xs ! ?l) (?xs ! ?r) \<le> 0" "\<not> ?c (?xs ! index) (?xs ! ?l) > 0"
    | (f) "?r < length ?xs" "\<not> ?c (?xs ! ?l) (?xs ! ?r) \<le> 0" "?c (?xs ! index) (?xs ! ?r) > 0"
    | (g) "?r < length ?xs" "\<not> ?c (?xs ! ?l) (?xs ! ?r) \<le> 0" "\<not> ?c (?xs ! index) (?xs ! ?r) > 0"
    by linarith
  then show thesis
  proof cases
    case a
    then show thesis using stop eq by auto
  next
    case b
    have "binary_heap_bubble_down heap index = (binary_heap_swap heap index ?l, ?l)"
      using b eq by (simp add: Let_def)
    moreover have "binary_heap_bubble_down (binary_heap_swap heap index ?l) ?l
        = (binary_heap_swap heap index ?l, ?l)"
      using b binary_heap_bubble_down.simps [of "binary_heap_swap heap index ?l" ?l] by (simp add: Let_def)
    ultimately show thesis using move [of ?l] b by (auto intro: ord)
  next
    case c
    then show thesis using stop eq by (auto simp: Let_def)
  next
    case d
    then show thesis using move [of ?l] eq by (auto simp: Let_def intro: ord)
  next
    case e
    then show thesis
      using eq by (intro stop) (auto simp: Let_def not_less intro: compare_order.cmp_trans)
  next
    case f
    then show thesis using move [of ?r] eq by (auto simp: Let_def intro: ord)
  next
    case g
    then have "compare_order ?c \<Longrightarrow> ?c (?xs ! ?r) (?xs ! ?l) \<le> 0" by (auto intro: ord)
    with g show thesis
      using eq by (intro stop) (auto simp: Let_def not_less intro: compare_order.cmp_trans)
  qed
qed

lemma bubble_down_induct [case_names bubble]:
  assumes "\<And>heap index. (\<And>m. m = 2 * index + 1 \<or> m = 2 * index + 2 \<Longrightarrow> m < bh_elems_num heap \<Longrightarrow>
      P (binary_heap_swap heap index m) m) \<Longrightarrow> P heap index"
  shows "P heap index"
proof (induction "bh_elems_num heap - index" arbitrary: heap index rule: less_induct)
  case less
  show ?case
  proof (rule assms)
    fix m
    assume m: "m = 2 * index + 1 \<or> m = 2 * index + 2" "m < bh_elems_num heap"
    then have "bh_elems_num (binary_heap_swap heap index m) - m < bh_elems_num heap - index" by auto
    then show "P (binary_heap_swap heap index m) m" by (rule less)
  qed
qed

lemma bubble_down_frame:
  assumes "index < bh_elems_num heap"
  shows "mset (bh_elems (fst (binary_heap_bubble_down heap index))) = mset (bh_elems heap)
    \<and> bh_elems_num (fst (binary_heap_bubble_down heap index)) = bh_elems_num heap
    \<and> bh_compare_func (fst (binary_heap_bubble_down heap index)) = bh_compare_func heap
    \<and> bh_elems_alloc (fst (binary_heap_bubble_down heap index)) = bh_elems_alloc heap
    \<and> bh_options (fst (binary_heap_bubble_down heap index)) = bh_options heap
    \<and> index \<le> snd (binary_heap_bubble_down heap index)
    \<and> snd (binary_heap_bubble_down heap index) < bh_elems_num heap"
  using assms
proof (induction heap index rule: bubble_down_induct)
  case (bubble heap index)
  show ?case
  proof (cases rule: bubble_down_cases [where heap = heap and index = index])
    case stop
    with bubble.prems show ?thesis by simp
  next
    case (move m)
    with bubble.IH [of m] bubble.prems show ?thesis by auto
  qed
qed

section \<open>Heap order\<close>

definition heap_ok :: "(heap_elem \<Rightarrow> heap_elem \<Rightarrow> int) \<Rightarrow> heap_elem list \<Rightarrow> bool" where
  "heap_ok c xs \<longleftrightarrow> (\<forall>k. 0 < k \<and> k < length xs \<longrightarrow> c (xs ! ((k - 1) div 2)) (xs ! k) \<le> 0)"

text \<open>
  \<open>order_around c xs P i\<close>: every edge (named by its child) with \<open>P\<close> is ordered, and the children
  of \<open>i\<close> are above the parent of \<open>i\<close>, so that the element at \<open>i\<close> may be replaced.
\<close>

definition order_around ::
  "(heap_elem \<Rightarrow> heap_elem \<Rightarrow> int) \<Rightarrow> heap_elem list \<Rightarrow> (nat \<Rightarrow> bool) \<Rightarrow> nat \<Rightarrow> bool" where
  "order_around c xs P i \<longleftrightarrow>
     (\<forall>k. 0 < k \<and> k < length xs \<and> P k \<longrightarrow> c (xs ! ((k - 1) div 2)) (xs ! k) \<le> 0)
     \<and> (\<forall>k. 0 < i \<and> 0 < k \<and> k < length xs \<and> (k - 1) div 2 = i \<longrightarrow> c (xs ! ((i - 1) div 2)) (xs ! k) \<le> 0)"

lemma order_aroundD:
  "order_around c xs P i \<Longrightarrow> 0 < k \<Longrightarrow> k < length xs \<Longrightarrow> P k \<Longrightarrow> c (xs ! ((k - 1) div 2)) (xs ! k) \<le> 0"
  "order_around c xs P i \<Longrightarrow> 0 < i \<Longrightarrow> 0 < k \<Longrightarrow> k < length xs \<Longrightarrow> (k - 1) div 2 = i \<Longrightarrow>
     c (xs ! ((i - 1) div 2)) (xs ! k) \<le> 0"
  by (simp_all add: order_around_def)

lemma parent_less: "0 < k \<Longrightarrow> (k - 1) div 2 < (k::nat)"
  by auto

lemma swap_up_order:
  assumes c: "compare_order c" and i: "0 < i" "i < length xs"
    and gt: "\<not> c (xs ! ((i - 1) div 2)) (xs ! i) \<le> 0"
    and ok: "order_around c xs (\<lambda>k. k \<noteq> i \<and> (k - 1) div 2 \<noteq> i) i"
  shows "order_around c (list_swap xs ((i - 1) div 2) i) (\<lambda>k. k \<noteq> (i - 1) div 2) ((i - 1) div 2)"
proof -
  define p where "p = (i - 1) div 2"
  define ys where "ys = list_swap xs p i"
  have p: "p < i" "p < length xs" "(i - Suc 0) div 2 = p" using i by (auto simp: p_def)
  have nth: "ys ! k = (if k = i then xs ! p else if k = p then xs ! i else xs ! k)"
    if "k < length xs" for k
    using that p i by (simp add: ys_def nth_list_swap)
  have le: "c (xs ! i) (xs ! p) \<le> 0" using gt compare_order.cmp_not_le [OF c] by (simp add: p_def)
  note tr = compare_order.cmp_trans [OF c]
  have "c (ys ! ((k - 1) div 2)) (ys ! k) \<le> 0" if k: "0 < k" "k < length xs" "k \<noteq> p" for k
  proof -
    consider "k = i" | "(k - 1) div 2 = i" | "(k - 1) div 2 = p" "k \<noteq> i"
      | "k \<noteq> i" "(k - 1) div 2 \<noteq> i" "(k - 1) div 2 \<noteq> p" by blast
    then show ?thesis
    proof cases
      case 1
      then show ?thesis using le p i by (simp add: nth )
    next
      case 2
      then have "k \<noteq> i" "k \<noteq> p" using parent_less [OF k(1)] p by auto
      with 2 show ?thesis
        using order_aroundD(2) [OF ok i(1) k(1,2) 2] k by (simp add: nth i p)
    next
      case 3
      then have "c (xs ! p) (xs ! k) \<le> 0" using order_aroundD(1) [OF ok k(1,2)] p by simp
      with 3 show ?thesis using tr [OF le] k p by (simp add: nth)
    next
      case 4
      have "c (xs ! ((k - 1) div 2)) (xs ! k) \<le> 0" using order_aroundD(1) [OF ok k(1,2)] 4 by simp
      with 4 show ?thesis using k parent_less [OF k(1)] by (simp add: nth)
    qed
  qed
  moreover have "c (ys ! ((p - 1) div 2)) (ys ! k) \<le> 0"
    if k: "0 < p" "0 < k" "k < length xs" "(k - 1) div 2 = p" for k
  proof -
    have pp: "(p - 1) div 2 < p" using parent_less [OF k(1)] .
    have ep: "c (xs ! ((p - 1) div 2)) (xs ! p) \<le> 0"
      using order_aroundD(1) [OF ok, of p] p pp k by simp
    show ?thesis
    proof (cases "k = i")
      case True
      with ep pp p i show ?thesis by (simp add: nth)
    next
      case False
      then have "c (xs ! p) (xs ! k) \<le> 0" using order_aroundD(1) [OF ok k(2,3)] p k(4) by simp
      with False tr [OF ep] pp p k show ?thesis using parent_less [OF k(2)] by (simp add: nth)
    qed
  qed
  ultimately show ?thesis unfolding order_around_def p_def ys_def by simp
qed

lemma swap_down_order:
  assumes c: "compare_order c" and m: "m = 2 * i + 1 \<or> m = 2 * i + 2" "m < length xs"
    and gt: "\<not> c (xs ! i) (xs ! m) \<le> 0"
    and mn: "\<And>k. k < length xs \<Longrightarrow> k = 2 * i + 1 \<or> k = 2 * i + 2 \<Longrightarrow> c (xs ! m) (xs ! k) \<le> 0"
    and ok: "order_around c xs (\<lambda>k. (k - 1) div 2 \<noteq> i) i"
  shows "order_around c (list_swap xs i m) (\<lambda>k. (k - 1) div 2 \<noteq> m) m"
proof -
  define ys where "ys = list_swap xs i m"
  have im: "i < m" "i < length xs" "(m - Suc 0) div 2 = i" "0 < m" using m by auto
  have nth: "ys ! k = (if k = m then xs ! i else if k = i then xs ! m else xs ! k)"
    if "k < length xs" for k
    using that m im by (simp add: ys_def nth_list_swap)
  have le: "c (xs ! m) (xs ! i) \<le> 0" using gt compare_order.cmp_not_le [OF c] by blast
  have "c (ys ! ((k - 1) div 2)) (ys ! k) \<le> 0"
    if k: "0 < k" "k < length xs" "(k - 1) div 2 \<noteq> m" for k
  proof -
    consider "k = m" | "k = i" | "(k - 1) div 2 = i" "k \<noteq> m" | "k \<noteq> m" "k \<noteq> i" "(k - 1) div 2 \<noteq> i"
      by blast
    then show ?thesis
    proof cases
      case 1
      then show ?thesis using le m im by (simp add: nth)
    next
      case 2
      then have "c (xs ! ((i - 1) div 2)) (xs ! m) \<le> 0"
        using order_aroundD(2) [OF ok, of m] m im k by simp
      with 2 show ?thesis using m im k parent_less [OF k(1)] by (simp add: nth)
    next
      case 3
      then have "k = 2 * i + 1 \<or> k = 2 * i + 2" using k by presburger
      with mn [OF k(2)] 3 show ?thesis using m im k parent_less [OF k(1)] by (simp add: nth)
    next
      case 4
      then have "c (xs ! ((k - 1) div 2)) (xs ! k) \<le> 0" using order_aroundD(1) [OF ok k(1,2)] by simp
      with 4 k show ?thesis using parent_less [OF k(1)] by (simp add: nth)
    qed
  qed
  moreover have "c (ys ! ((m - 1) div 2)) (ys ! k) \<le> 0"
    if k: "0 < k" "k < length xs" "(k - 1) div 2 = m" for k
  proof -
    have "c (xs ! m) (xs ! k) \<le> 0" using order_aroundD(1) [OF ok k(1,2)] k im by simp
    with k m im show ?thesis using parent_less [OF k(1)] by (simp add: nth)
  qed
  ultimately show ?thesis unfolding order_around_def ys_def by simp
qed

lemma order_around_mono:
  "order_around c xs P i \<Longrightarrow> (\<And>k. Q k \<Longrightarrow> P k) \<Longrightarrow> order_around c xs Q i"
  by (simp add: order_around_def)

lemma bubble_up_order:
  assumes "compare_order (bh_compare_func heap)" "i < bh_elems_num heap"
    and "order_around (bh_compare_func heap) (bh_elems heap) (\<lambda>k. k \<noteq> i) i"
  shows "heap_ok (bh_compare_func heap) (bh_elems (fst (binary_heap_bubble_up heap i)))"
  using assms
proof (induction heap i rule: binary_heap_bubble_up.induct)
  case (1 heap i)
  let ?c = "bh_compare_func heap" and ?xs = "bh_elems heap" and ?p = "(i - 1) div 2"
  show ?case
  proof (cases "i \<noteq> 0 \<and> \<not> ?c (?xs ! ?p) (?xs ! i) \<le> 0")
    case True
    then have "order_around ?c (list_swap ?xs ?p i) (\<lambda>k. k \<noteq> ?p) ?p"
      using "1.prems" by (intro swap_up_order) (auto elim: order_around_mono)
    then have "heap_ok ?c (bh_elems (fst (binary_heap_bubble_up (binary_heap_swap heap ?p i) ?p)))"
      using "1.IH" True "1.prems" by auto
    with True show ?thesis by (subst binary_heap_bubble_up.simps) simp
  next
    case False
    then have "binary_heap_bubble_up heap i = (heap, i)"
      by (subst binary_heap_bubble_up.simps) auto
    with False "1.prems"(3) show ?thesis
      unfolding heap_ok_def order_around_def by (metis fst_conv neq0_conv)
  qed
qed

lemma bubble_down_order:
  assumes "compare_order (bh_compare_func heap)" "i < bh_elems_num heap"
    and "order_around (bh_compare_func heap) (bh_elems heap) (\<lambda>k. (k - 1) div 2 \<noteq> i) i"
  shows "heap_ok (bh_compare_func heap) (bh_elems (fst (binary_heap_bubble_down heap i)))"
  using assms
proof (induction heap i rule: bubble_down_induct)
  case (bubble heap i)
  let ?c = "bh_compare_func heap" and ?xs = "bh_elems heap"
  show ?case
  proof (cases rule: bubble_down_cases [where heap = heap and index = i])
    case stop
    have "?c (?xs ! ((k - 1) div 2)) (?xs ! k) \<le> 0" if k: "0 < k" "k < length ?xs" for k
    proof (cases "(k - 1) div 2 = i")
      case True
      with k have "k = 2 * i + 1 \<or> k = 2 * i + 2" by presburger
      with stop(2) [OF bubble.prems(1) k(2)] True show ?thesis by simp
    next
      case False
      then show ?thesis using order_aroundD(1) [OF bubble.prems(3) k] by simp
    qed
    with stop(1) show ?thesis by (simp add: heap_ok_def)
  next
    case (move m)
    have "order_around ?c (list_swap ?xs i m) (\<lambda>k. (k - 1) div 2 \<noteq> m) m"
      using move(1-4) bubble.prems by (intro swap_down_order) auto
    with bubble.IH [OF move(1,2)] bubble.prems(1) move(2,5) show ?thesis by simp
  qed
qed

text \<open>Replacing the element at \<open>i\<close> of an ordered heap: bubbling up and, if it stayed, down.\<close>

lemma heap_ok_replace:
  assumes c: "compare_order c" and "heap_ok c xs" "i < length xs"
  shows "order_around c (xs[i := v]) (\<lambda>k. k \<noteq> i \<and> (k - 1) div 2 \<noteq> i) i"
proof -
  have ok: "c (xs ! ((k - 1) div 2)) (xs ! k) \<le> 0" if "0 < k" "k < length xs" for k
    using assms that by (simp add: heap_ok_def)
  have "c (xs[i := v] ! ((i - 1) div 2)) (xs[i := v] ! k) \<le> 0"
    if k: "0 < i" "0 < k" "k < length xs" "(k - 1) div 2 = i" for k
  proof -
    have "c (xs ! ((i - 1) div 2)) (xs ! k) \<le> 0"
      using compare_order.cmp_trans [OF c ok [OF k(1) assms(3)]] ok [OF k(2,3)] k(4) by simp
    with parent_less [OF k(1)] parent_less [OF k(2)] k(4) show ?thesis by simp
  qed
  moreover have "c (xs[i := v] ! ((k - 1) div 2)) (xs[i := v] ! k) \<le> 0"
    if "0 < k" "k < length xs" "k \<noteq> i" "(k - 1) div 2 \<noteq> i" for k
    using ok that by simp
  ultimately show ?thesis unfolding order_around_def length_list_update by blast
qed

lemma bubble_up_stay:
  "snd (binary_heap_bubble_up heap i) = i \<Longrightarrow> i < bh_elems_num heap \<Longrightarrow>
   fst (binary_heap_bubble_up heap i) = heap \<and>
   (i \<noteq> 0 \<longrightarrow> bh_compare_func heap (bh_elems heap ! ((i - 1) div 2)) (bh_elems heap ! i) \<le> 0)"
proof -
  assume stay: "snd (binary_heap_bubble_up heap i) = i" and i: "i < bh_elems_num heap"
  show ?thesis
  proof (cases "i \<noteq> 0 \<and> \<not> bh_compare_func heap (bh_elems heap ! ((i - 1) div 2)) (bh_elems heap ! i) \<le> 0")
    case True
    then have "binary_heap_bubble_up heap i =
        binary_heap_bubble_up (binary_heap_swap heap ((i - 1) div 2) i) ((i - 1) div 2)"
      by (subst binary_heap_bubble_up.simps) simp
    moreover have "(i - 1) div 2 < bh_elems_num (binary_heap_swap heap ((i - 1) div 2) i)" using i by simp
    ultimately have "snd (binary_heap_bubble_up heap i) \<le> (i - 1) div 2" using bubble_up_frame by metis
    moreover have "(i - 1) div 2 < i" using True by (intro parent_less) simp
    ultimately show ?thesis using stay by linarith
  next
    case False
    then have "binary_heap_bubble_up heap i = (heap, i)"
      by (subst binary_heap_bubble_up.simps) auto
    with False show ?thesis by auto
  qed
qed

lemma bubble_up_moved_order:
  assumes c: "compare_order (bh_compare_func heap)" and i: "i < bh_elems_num heap"
    and ok: "order_around (bh_compare_func heap) (bh_elems heap) (\<lambda>k. k \<noteq> i \<and> (k - 1) div 2 \<noteq> i) i"
    and "snd (binary_heap_bubble_up heap i) \<noteq> i"
  shows "heap_ok (bh_compare_func heap) (bh_elems (fst (binary_heap_bubble_up heap i)))"
proof -
  let ?c = "bh_compare_func heap" and ?xs = "bh_elems heap" and ?p = "(i - 1) div 2"
  have move: "i \<noteq> 0" "\<not> ?c (?xs ! ?p) (?xs ! i) \<le> 0"
    using assms(4) binary_heap_bubble_up.simps [of heap i] by (auto split: if_splits)
  then have "order_around ?c (list_swap ?xs ?p i) (\<lambda>k. k \<noteq> ?p) ?p"
    using c i ok by (intro swap_up_order) auto
  then have "heap_ok ?c (bh_elems (fst (binary_heap_bubble_up (binary_heap_swap heap ?p i) ?p)))"
    using bubble_up_order [of "binary_heap_swap heap ?p i" ?p] c i by simp
  with move show ?thesis by (subst binary_heap_bubble_up.simps) simp
qed

section \<open>The key index\<close>

text \<open>
  \<open>idx_rel xs p m\<close>: the map \<open>m\<close> gives the position of every element but the one at the hole \<open>p\<close>,
  whose entry may be missing or stale while it is being moved.  \<open>p = length xs\<close> is "no hole".
\<close>

definition idx_rel :: "heap_elem list \<Rightarrow> nat \<Rightarrow> (u64 \<rightharpoonup> int) \<Rightarrow> bool" where
  "idx_rel xs p m \<longleftrightarrow>
     distinct (map he_key xs)
     \<and> (\<forall>i < length xs. i \<noteq> p \<longrightarrow> m (he_key (xs ! i)) = Some (int i))
     \<and> dom m \<subseteq> he_key ` set xs"

definition bh_indexed :: "zbx_binary_heap \<Rightarrow> nat \<Rightarrow> bool" where
  "bh_indexed heap p \<longleftrightarrow>
     (has_direct_option heap \<longrightarrow>
       (\<exists>hm. bh_key_index heap = Some hm \<and> hm_inv hm \<and> idx_rel (bh_elems heap) p (hm_abs hm)))"

lemma idx_rel_fill:
  assumes "idx_rel xs p m" "p < length xs"
  shows "idx_rel xs (length xs) (m(he_key (xs ! p) \<mapsto> int p))"
proof -
  have "he_key (xs ! i) \<noteq> he_key (xs ! p)" if "i < length xs" "i \<noteq> p" for i
    using assms that by (auto simp: idx_rel_def distinct_conv_nth)
  with assms show ?thesis by (auto simp: idx_rel_def)
qed

lemma idx_rel_swap:
  assumes rel: "idx_rel xs p m" and ij: "i < length xs" "j < length xs" "i \<noteq> j"
    and p: "p = i \<or> p = j \<or> length xs \<le> p"
  shows "idx_rel (list_swap xs i j) (length xs) (m(he_key (xs ! j) \<mapsto> int i, he_key (xs ! i) \<mapsto> int j))"
proof -
  have "mset (map he_key (list_swap xs i j)) = mset (map he_key xs)" using ij by simp
  from mset_eq_imp_distinct_iff [OF this] have d: "distinct (map he_key (list_swap xs i j))"
    using rel by (simp add: idx_rel_def)
  have s: "set (list_swap xs i j) = set xs" using ij by (metis mset_list_swap mset_eq_setD)
  have inj: "he_key (xs ! a) \<noteq> he_key (xs ! b)" if "a < length xs" "b < length xs" "a \<noteq> b" for a b
    using rel that by (auto simp: idx_rel_def distinct_conv_nth)
  have "(m(he_key (xs ! j) \<mapsto> int i, he_key (xs ! i) \<mapsto> int j)) (he_key (list_swap xs i j ! k)) = Some (int k)"
    if k: "k < length xs" for k
    using inj [of k i] inj [of k j] inj [of i j] rel ij p k
    by (auto simp: nth_list_swap idx_rel_def)
  with d s rel ij show ?thesis by (auto simp: idx_rel_def)
qed

lemma idx_rel_append:
  assumes "idx_rel xs (length xs) m" "he_key e \<notin> he_key ` set xs"
  shows "idx_rel (xs @ [e]) (length xs) m"
proof -
  have "dom m \<subseteq> he_key ` set (xs @ [e])" using assms by (auto simp: idx_rel_def dest!: subsetD)
  with assms show ?thesis by (auto simp: idx_rel_def nth_append)
qed

lemma idx_rel_weaken: "idx_rel xs (length xs) m \<Longrightarrow> idx_rel xs p m"
  by (auto simp: idx_rel_def)

lemma bh_indexed_weaken: "bh_indexed h (bh_elems_num h) \<Longrightarrow> bh_indexed h p"
  by (auto simp: bh_indexed_def intro: idx_rel_weaken)

lemma has_direct_frame [simp]:
  "has_direct_option (index_set k i h) = has_direct_option h"
  "has_direct_option (index_remove k h) = has_direct_option h"
  "has_direct_option (binary_heap_swap h a b) = has_direct_option h"
  "has_direct_option (h\<lparr>bh_elems := xs\<rparr>) = has_direct_option h"
  "has_direct_option (h\<lparr>bh_elems_alloc := n\<rparr>) = has_direct_option h"
  "has_direct_option (h\<lparr>bh_key_index := ix\<rparr>) = has_direct_option h"
  "has_direct_option (take_last i h) = has_direct_option h"
  by (simp_all add: has_direct_option_def take_last_def)

lemma bh_indexed_fill:
  assumes "bh_indexed h p" "p < bh_elems_num h" "k = he_key (bh_elems h ! p)"
  shows "bh_indexed (index_set k p h) (bh_elems_num h)"
  using assms
  by (auto simp: bh_indexed_def index_set_def hm.put_inv hm.put_abs idx_rel_fill)

lemma bh_indexed_swap:
  assumes "bh_indexed h p" "i < bh_elems_num h" "j < bh_elems_num h" "i \<noteq> j"
    and "p = i \<or> p = j \<or> bh_elems_num h \<le> p"
  shows "bh_indexed (binary_heap_swap h i j) (bh_elems_num h)"
proof (cases "has_direct_option h")
  case True
  with assms(1) obtain hm where hm: "bh_key_index h = Some hm" "hm_inv hm"
    "idx_rel (bh_elems h) p (hm_abs hm)" by (auto simp: bh_indexed_def)
  have "bh_key_index (binary_heap_swap h i j) = Some (zbx_hashmap_set
      (zbx_hashmap_set hm (he_key (bh_elems h ! j)) (int i)) (he_key (bh_elems h ! i)) (int j))"
    using True hm(1) assms by (simp add: binary_heap_swap_def index_set_def Let_def nth_list_swap)
  moreover note idx_rel_swap [OF hm(3) assms(2-5)]
  ultimately show ?thesis
    using hm(2) by (simp add: bh_indexed_def hm.put_put_inv hm.put_put_abs)
next
  case False
  then show ?thesis by (simp add: bh_indexed_def)
qed

lemma bubble_up_indexed:
  assumes "bh_indexed h p" "i < bh_elems_num h" "p = i \<or> bh_elems_num h \<le> p"
  shows "if snd (binary_heap_bubble_up h i) = i then fst (binary_heap_bubble_up h i) = h
         else bh_indexed (fst (binary_heap_bubble_up h i)) (bh_elems_num h)"
  using assms
proof (induction h i arbitrary: p rule: binary_heap_bubble_up.induct)
  case (1 h i)
  let ?q = "(i - 1) div 2"
  show ?case
  proof (cases "snd (binary_heap_bubble_up h i) = i")
    case True
    with bubble_up_stay "1.prems" show ?thesis by simp
  next
    case False
    then have mv: "i \<noteq> 0" "\<not> bh_compare_func h (bh_elems h ! ?q) (bh_elems h ! i) \<le> 0"
      using binary_heap_bubble_up.simps [of h i] by (auto split: if_splits)
    define h' where "h' = binary_heap_swap h ?q i"
    have eq: "binary_heap_bubble_up h i = binary_heap_bubble_up h' ?q"
      using mv by (subst binary_heap_bubble_up.simps) (simp add: h'_def)
    have q: "?q < i" using mv by (intro parent_less) simp
    have "bh_indexed h' (bh_elems_num h)"
      unfolding h'_def using "1.prems" q by (intro bh_indexed_swap) auto
    moreover have n: "bh_elems_num h' = bh_elems_num h" by (simp add: h'_def)
    ultimately have "if snd (binary_heap_bubble_up h' ?q) = ?q then fst (binary_heap_bubble_up h' ?q) = h'
         else bh_indexed (fst (binary_heap_bubble_up h' ?q)) (bh_elems_num h')"
      using "1.IH" [OF mv(1) mv(2), folded h'_def, of "bh_elems_num h"] "1.prems" q by simp
    with \<open>bh_indexed h' (bh_elems_num h)\<close> n eq False show ?thesis by (auto split: if_splits)
  qed
qed

lemma bubble_down_indexed:
  assumes "bh_indexed h p" "i < bh_elems_num h" "p = i \<or> bh_elems_num h \<le> p"
  shows "if snd (binary_heap_bubble_down h i) = i then fst (binary_heap_bubble_down h i) = h
         else bh_indexed (fst (binary_heap_bubble_down h i)) (bh_elems_num h)"
  using assms
proof (induction h i arbitrary: p rule: bubble_down_induct)
  case (bubble h i)
  show ?case
  proof (cases rule: bubble_down_cases [where heap = h and index = i])
    case stop
    then show ?thesis by simp
  next
    case (move m)
    define h' where "h' = binary_heap_swap h i m"
    have n: "bh_elems_num h' = bh_elems_num h" by (simp add: h'_def)
    have ix: "bh_indexed h' (bh_elems_num h)"
      unfolding h'_def using bubble.prems move(1,2) by (intro bh_indexed_swap) auto
    then have "if snd (binary_heap_bubble_down h' m) = m then fst (binary_heap_bubble_down h' m) = h'
         else bh_indexed (fst (binary_heap_bubble_down h' m)) (bh_elems_num h')"
      using bubble.IH [OF move(1,2), folded h'_def, of "bh_elems_num h"] move(2) n by simp
    moreover have "snd (binary_heap_bubble_down h i) \<noteq> i"
      using bubble_down_frame [of m h'] move(1,2,5) n by (auto simp flip: h'_def)
    ultimately show ?thesis using ix n move(5) by (auto simp flip: h'_def split: if_splits)
  qed
qed

section \<open>Invariant of the heap and its preservation\<close>

definition bh_inv :: "zbx_binary_heap \<Rightarrow> bool" where
  "bh_inv heap \<longleftrightarrow>
     compare_order (bh_compare_func heap)
     \<and> heap_ok (bh_compare_func heap) (bh_elems heap)
     \<and> bh_elems_num heap \<le> bh_elems_alloc heap
     \<and> bh_indexed heap (bh_elems_num heap)"

lemma index_get_inv:
  assumes "bh_inv h" "has_direct_option h"
  shows "index_get h k = FAIL \<longleftrightarrow> k \<notin> he_key ` set (bh_elems h)"
    and "i < bh_elems_num h \<Longrightarrow> index_get h (he_key (bh_elems h ! i)) = int i"
    and "index_get h k \<noteq> FAIL \<Longrightarrow> \<exists>i < bh_elems_num h. index_get h k = int i \<and> he_key (bh_elems h ! i) = k"
proof -
  from assms obtain hm where hm: "bh_key_index h = Some hm" "hm_inv hm"
    "idx_rel (bh_elems h) (bh_elems_num h) (hm_abs hm)"
    by (auto simp: bh_inv_def bh_indexed_def)
  have get: "index_get h k = (case hm_abs hm k of None \<Rightarrow> FAIL | Some v \<Rightarrow> v)" for k
    using hm by (simp add: index_get_def hm.get_abs)
  have at: "hm_abs hm (he_key (bh_elems h ! i)) = Some (int i)" if "i < bh_elems_num h" for i
    using hm(3) that by (simp add: idx_rel_def)
  have dom: "k \<in> he_key ` set (bh_elems h)" if "hm_abs hm k \<noteq> None" for k
    using hm(3) that by (auto simp: idx_rel_def)
  show "i < bh_elems_num h \<Longrightarrow> index_get h (he_key (bh_elems h ! i)) = int i" by (simp add: get at)
  show "index_get h k = FAIL \<longleftrightarrow> k \<notin> he_key ` set (bh_elems h)"
  proof (cases "k \<in> he_key ` set (bh_elems h)")
    case True
    then obtain i where "i < bh_elems_num h" "k = he_key (bh_elems h ! i)" by (auto simp: in_set_conv_nth)
    with True show ?thesis by (simp add: get at)
  next
    case False
    with dom [of k] show ?thesis by (cases "hm_abs hm k") (auto simp: get)
  qed
  then show "index_get h k \<noteq> FAIL \<Longrightarrow> \<exists>i < bh_elems_num h. index_get h k = int i \<and> he_key (bh_elems h ! i) = k"
    by (auto simp: in_set_conv_nth get at)
qed

lemma bh_create:
  assumes "compare_order c"
  shows "bh_inv (zbx_binary_heap_create c opts)" "bh_elems (zbx_binary_heap_create c opts) = []"
    and "bh_compare_func (zbx_binary_heap_create c opts) = c"
    and "has_direct_option (zbx_binary_heap_create c opts) \<longleftrightarrow> opts AND 1 \<noteq> 0"
  using assms hm_create_ext [OF uint64_cmp.compare_equal_axioms]
  by (auto simp: zbx_binary_heap_create_def Let_def bh_inv_def heap_ok_def bh_indexed_def idx_rel_def
      has_direct_option_def)

lemma ensure_free_space:
  assumes "bh_inv h"
  shows "bh_elems (binary_heap_ensure_free_space h) = bh_elems h"
    and "bh_elems_num h < bh_elems_alloc (binary_heap_ensure_free_space h)"
    and "bh_compare_func (binary_heap_ensure_free_space h) = bh_compare_func h"
    and "bh_key_index (binary_heap_ensure_free_space h) = bh_key_index h"
    and "bh_options (binary_heap_ensure_free_space h) = bh_options h"
  using assms by (auto simp: binary_heap_ensure_free_space_def bh_inv_def)

lemma bh_insert:
  assumes inv: "bh_inv h" and new: "has_direct_option h \<Longrightarrow> he_key e \<notin> he_key ` set (bh_elems h)"
  shows "\<exists>h'. zbx_binary_heap_insert h e = Inr h' \<and> bh_inv h'
    \<and> mset (bh_elems h') = add_mset e (mset (bh_elems h))
    \<and> bh_compare_func h' = bh_compare_func h \<and> bh_options h' = bh_options h"
proof -
  define n where "n = bh_elems_num h"
  define h0 where "h0 = binary_heap_ensure_free_space h"
  define h1 where "h1 = h0\<lparr>bh_elems := bh_elems h0 @ [e]\<rparr>"
  define h2 where "h2 = fst (binary_heap_bubble_up h1 n)"
  define i where "i = snd (binary_heap_bubble_up h1 n)"
  define h3 where "h3 = (if i = n then index_set (he_key e) n h2 else h2)"
  note free = ensure_free_space [OF inv, folded h0_def]
  have e1: "bh_elems h1 = bh_elems h @ [e]" "bh_compare_func h1 = bh_compare_func h"
    "bh_options h1 = bh_options h" "bh_key_index h1 = bh_key_index h"
    "bh_elems_alloc h1 = bh_elems_alloc h0"
    by (simp_all add: h1_def free)
  have n1: "n < bh_elems_num h1" "bh_elems_num h1 = Suc n" by (simp_all add: e1 n_def)
  have d1: "has_direct_option h1 = has_direct_option h" by (simp add: has_direct_option_def e1)
  note fr = bubble_up_frame [OF n1(1), folded h2_def i_def]
  have c: "compare_order (bh_compare_func h1)" using inv by (simp add: e1 bh_inv_def)
  have "order_around (bh_compare_func h1) (bh_elems h1) (\<lambda>k. k \<noteq> n) n"
    unfolding order_around_def
  proof (intro conjI allI impI)
    fix k
    assume k: "0 < k \<and> k < bh_elems_num h1 \<and> k \<noteq> n"
    then have "k < n" "(k - 1) div 2 < n" using n1 parent_less [of k] by auto
    with k inv show "bh_compare_func h1 (bh_elems h1 ! ((k - 1) div 2)) (bh_elems h1 ! k) \<le> 0"
      by (simp add: e1 nth_append n_def bh_inv_def heap_ok_def)
  next
    fix k
    assume "0 < n \<and> 0 < k \<and> k < bh_elems_num h1 \<and> (k - 1) div 2 = n"
    with n1 parent_less [of k] show "bh_compare_func h1 (bh_elems h1 ! ((n - 1) div 2)) (bh_elems h1 ! k) \<le> 0"
      by simp
  qed
  then have ok: "heap_ok (bh_compare_func h1) (bh_elems h2)"
    unfolding h2_def using c n1 by (intro bubble_up_order)
  have ix1: "bh_indexed h1 n"
  proof (cases "has_direct_option h")
    case True
    then show ?thesis
      using inv new [OF True] d1 by (auto simp: bh_indexed_def bh_inv_def idx_rel_append e1 n_def)
  next
    case False
    then show ?thesis by (simp add: bh_indexed_def d1)
  qed
  have ix: "bh_indexed h3 (Suc n)"
  proof (cases "i = n")
    case True
    with bubble_up_stay [of h1 n] n1 have "h2 = h1" by (simp add: h2_def i_def)
    with bh_indexed_fill [OF ix1 n1(1), of "he_key e"] True n1 show ?thesis
      by (simp add: h3_def e1 n_def)
  next
    case False
    with bubble_up_indexed [OF ix1 n1(1)] n1 show ?thesis by (simp add: h3_def h2_def i_def)
  qed
  have e3: "bh_elems h3 = bh_elems h2" "bh_compare_func h3 = bh_compare_func h"
    "bh_elems_alloc h3 = bh_elems_alloc h0" "bh_options h3 = bh_options h"
    using fr by (auto simp: h3_def e1)
  have "zbx_binary_heap_insert h e = Inr h3"
  proof -
    have g: "\<not> (has_direct_option h \<and> index_get h (he_key e) \<noteq> FAIL)"
      using new index_get_inv(1) [OF inv] by blast
    have l: "bh_elems_num h0 = n" by (simp add: free n_def)
    have "zbx_binary_heap_insert h e =
        (let (heap, index) = binary_heap_bubble_up h1 n
         in Inr (if index = bh_elems_num heap - 1 then index_set (he_key e) index heap else heap))"
      using g by (simp only: zbx_binary_heap_insert_def if_False Let_def flip: h0_def)
        (simp only: l flip: h1_def)
    then show ?thesis
      using fr n1 by (simp add: h3_def h2_def i_def case_prod_unfold Let_def)
  qed
  moreover have "bh_inv h3"
    using ix ok fr n1 free inv by (simp add: bh_inv_def e3 e1 n_def)
  moreover have "mset (bh_elems h3) = add_mset e (mset (bh_elems h))" using fr by (simp add: e3 e1)
  ultimately show ?thesis using e3 by blast
qed

lemma bh_insert_duplicate:
  assumes "bh_inv h" "has_direct_option h" "he_key e \<in> he_key ` set (bh_elems h)"
  shows "zbx_binary_heap_insert h e = Inl ExitFailure"
  using assms index_get_inv(1) [OF assms(1,2)] by (simp add: zbx_binary_heap_insert_def)

lemma heap_ok_min:
  assumes c: "compare_order c" and ok: "heap_ok c xs" and "k < length xs"
  shows "c (xs ! 0) (xs ! k) \<le> 0"
  using assms(3)
proof (induction k rule: less_induct)
  case (less k)
  show ?case
  proof (cases "k = 0")
    case True
    then show ?thesis by (simp add: compare_order.cmp_refl [OF c])
  next
    case False
    then have p: "(k - 1) div 2 < k" by (intro parent_less) simp
    with less have "c (xs ! 0) (xs ! ((k - 1) div 2)) \<le> 0" by simp
    moreover have "c (xs ! ((k - 1) div 2)) (xs ! k) \<le> 0" using ok False less.prems by (simp add: heap_ok_def)
    ultimately show ?thesis by (rule compare_order.cmp_trans [OF c])
  qed
qed

text \<open>What both removals and the update do at position \<open>i\<close> once its element is replaced.\<close>

definition settle :: "zbx_binary_heap \<Rightarrow> nat \<Rightarrow> zbx_binary_heap \<times> nat" where
  "settle h i = (let (h', i') = binary_heap_bubble_up h i
                 in if i = i' then binary_heap_bubble_down h' i else (h', i'))"

lemma settle_spec:
  assumes c: "compare_order (bh_compare_func h)" and i: "i < bh_elems_num h"
    and ok: "order_around (bh_compare_func h) (bh_elems h) (\<lambda>k. k \<noteq> i \<and> (k - 1) div 2 \<noteq> i) i"
    and ix: "bh_indexed h p" "p = i \<or> bh_elems_num h \<le> p"
  shows "heap_ok (bh_compare_func h) (bh_elems (fst (settle h i)))"
    and "mset (bh_elems (fst (settle h i))) = mset (bh_elems h)"
    and "bh_compare_func (fst (settle h i)) = bh_compare_func h"
    and "bh_elems_alloc (fst (settle h i)) = bh_elems_alloc h"
    and "bh_options (fst (settle h i)) = bh_options h"
    and "if snd (settle h i) = i then fst (settle h i) = h
         else bh_indexed (fst (settle h i)) (bh_elems_num h)"
proof -
  note up = bubble_up_frame [OF i]
  note down = bubble_down_frame [OF i]
  show "mset (bh_elems (fst (settle h i))) = mset (bh_elems h)"
    "bh_compare_func (fst (settle h i)) = bh_compare_func h"
    "bh_elems_alloc (fst (settle h i)) = bh_elems_alloc h"
    "bh_options (fst (settle h i)) = bh_options h"
    using up down bubble_up_stay [OF _ i] by (auto simp: settle_def case_prod_unfold Let_def)
  show "heap_ok (bh_compare_func h) (bh_elems (fst (settle h i)))"
  proof (cases "snd (binary_heap_bubble_up h i) = i")
    case True
    note stay = bubble_up_stay [OF True i]
    have "order_around (bh_compare_func h) (bh_elems h) (\<lambda>k. (k - 1) div 2 \<noteq> i) i"
      using ok stay unfolding order_around_def by (metis neq0_conv)
    from bubble_down_order [OF c i this] True stay show ?thesis
      by (simp add: settle_def case_prod_unfold Let_def)
  next
    case False
    with bubble_up_moved_order [OF c i ok] show ?thesis
      by (auto simp: settle_def case_prod_unfold Let_def)
  qed
  show "if snd (settle h i) = i then fst (settle h i) = h
        else bh_indexed (fst (settle h i)) (bh_elems_num h)"
  proof (cases "snd (binary_heap_bubble_up h i) = i")
    case True
    with bubble_up_stay [OF True i] bubble_down_indexed [OF ix(1) i ix(2)] show ?thesis
      by (simp add: settle_def case_prod_unfold Let_def)
  next
    case False
    with bubble_up_indexed [OF ix(1) i ix(2)] show ?thesis
      by (auto simp: settle_def case_prod_unfold Let_def)
  qed
qed

lemma bubble_down_root: "binary_heap_bubble_down h 0 = settle h 0"
  by (simp add: settle_def binary_heap_bubble_up.simps [of h 0])

text \<open>Taking the last element into the hole left at \<open>i\<close>.\<close>

lemma take_last_order:
  assumes c: "compare_order c" and ok: "heap_ok c xs" and i: "i < length xs - 1"
  shows "order_around c ((butlast xs)[i := last xs]) (\<lambda>k. k \<noteq> i \<and> (k - 1) div 2 \<noteq> i) i"
proof (rule heap_ok_replace [OF c])
  have "butlast xs ! ((k - 1) div 2) = xs ! ((k - 1) div 2)" if "0 < k" "k < length xs - 1" for k
    using that parent_less [of k] by (intro nth_butlast) simp
  then show "heap_ok c (butlast xs)"
    using ok by (auto simp: heap_ok_def nth_butlast)
qed (use i in simp)

lemma take_last_idx:
  assumes rel: "idx_rel xs (length xs) m" and i: "i < length xs - 1"
  shows "idx_rel ((butlast xs)[i := last xs]) i (m(he_key (xs ! i) := None))"
proof -
  let ?ys = "(butlast xs)[i := last xs]"
  have ms: "mset xs = add_mset (xs ! i) (mset ?ys)"
    using mset_update_butlast_last [OF i] i by (simp add: nth_mem_mset)
  then have "mset (map he_key xs) = mset (he_key (xs ! i) # map he_key ?ys)" by simp
  from mset_eq_imp_distinct_iff [OF this]
  have d: "distinct (map he_key ?ys)" "he_key (xs ! i) \<notin> he_key ` set ?ys"
    using rel by (simp_all add: idx_rel_def)
  have st: "set xs = insert (xs ! i) (set ?ys)" using arg_cong [OF ms, of set_mset] by simp
  have "(m(he_key (xs ! i) := None)) (he_key (?ys ! j)) = Some (int j)" if j: "j < length ?ys" "j \<noteq> i" for j
  proof -
    have "?ys ! j = xs ! j" using j by (simp add: nth_butlast)
    moreover have "?ys ! j \<in> set ?ys" using j(1) by (rule nth_mem)
    ultimately have "he_key (xs ! j) \<noteq> he_key (xs ! i)" using d(2) by (metis image_eqI)
    then show ?thesis using \<open>?ys ! j = xs ! j\<close> rel j by (auto simp: idx_rel_def)
  qed
  moreover have "dom (m(he_key (xs ! i) := None)) \<subseteq> he_key ` set ?ys"
    using rel st by (auto simp: idx_rel_def)
  ultimately show ?thesis using d(1) by (simp add: idx_rel_def)
qed

lemma drop_last_idx:
  assumes rel: "idx_rel xs (length xs) m" and ne: "xs \<noteq> []"
  shows "idx_rel (butlast xs) (length xs - 1) (m(he_key (last xs) := None))"
proof -
  have xs: "xs = butlast xs @ [last xs]" using ne by simp
  have "distinct (map he_key (butlast xs @ [last xs]))" using rel xs by (simp add: idx_rel_def)
  then have d: "distinct (map he_key (butlast xs))" "he_key (last xs) \<notin> he_key ` set (butlast xs)" by auto
  have "m (he_key (butlast xs ! j)) = Some (int j)" if "j < length xs - 1" for j
    using rel that by (simp add: idx_rel_def nth_butlast)
  moreover have "he_key (butlast xs ! j) \<noteq> he_key (last xs)" if "j < length xs - 1" for j
    using d(2) that by (metis image_eqI length_butlast nth_mem)
  moreover have "set xs = insert (last xs) (set (butlast xs))" by (subst xs) simp
  ultimately show ?thesis using d rel by (auto simp: idx_rel_def)
qed

lemma bh_indexed_take_last:
  assumes "bh_indexed h (bh_elems_num h)" "i < bh_elems_num h - 1" "k = he_key (bh_elems h ! i)"
  shows "bh_indexed (take_last i (index_remove k h)) i"
  using assms
  by (auto simp: bh_indexed_def take_last_def index_remove_def hm.del_inv hm.del_abs take_last_idx)

lemma bh_indexed_drop_last:
  assumes "bh_indexed h (bh_elems_num h)" "bh_elems h \<noteq> []" "k = he_key (last (bh_elems h))"
  shows "bh_indexed ((index_remove k h)\<lparr>bh_elems := butlast (bh_elems h)\<rparr>) (bh_elems_num h - 1)"
  using assms
  by (auto simp: bh_indexed_def index_remove_def hm.del_inv hm.del_abs drop_last_idx [unfolded One_nat_def])

lemma take_last_simps [simp]:
  "bh_elems (take_last i h) = (butlast (bh_elems h))[i := last (bh_elems h)]"
  "bh_compare_func (take_last i h) = bh_compare_func h"
  "bh_elems_alloc (take_last i h) = bh_elems_alloc h"
  "bh_options (take_last i h) = bh_options h"
  by (simp_all add: take_last_def)

text \<open>The common end of the removals: the hole at \<open>i\<close> is filled with the last element and settled.\<close>

lemma remove_at:
  assumes inv: "bh_inv h" and i: "i < bh_elems_num h - 1"
    and h1: "h1 = take_last i (index_remove (he_key (bh_elems h ! i)) h)"
    and h2: "h2 = fst (settle h1 i)"
    and h3: "h3 = (if snd (settle h1 i) = i then index_set (he_key (bh_elems h2 ! i)) i h2 else h2)"
  shows "bh_inv h3 \<and> mset (bh_elems h3) = mset (bh_elems h) - {#bh_elems h ! i#}
    \<and> bh_compare_func h3 = bh_compare_func h \<and> bh_options h3 = bh_options h"
proof -
  let ?c = "bh_compare_func h"
  have c: "compare_order ?c" and ok: "heap_ok ?c (bh_elems h)" and ix: "bh_indexed h (bh_elems_num h)"
    and al: "bh_elems_num h \<le> bh_elems_alloc h"
    using inv by (simp_all add: bh_inv_def)
  have e1: "bh_elems h1 = (butlast (bh_elems h))[i := last (bh_elems h)]" "bh_compare_func h1 = ?c"
    "bh_elems_alloc h1 = bh_elems_alloc h" "bh_options h1 = bh_options h"
    by (simp_all add: h1)
  have n1: "bh_elems_num h1 = bh_elems_num h - 1" "i < bh_elems_num h1" using i by (simp_all add: e1)
  have ix1: "bh_indexed h1 i" unfolding h1 using bh_indexed_take_last [OF ix i refl] .
  have ord: "order_around (bh_compare_func h1) (bh_elems h1) (\<lambda>k. k \<noteq> i \<and> (k - 1) div 2 \<noteq> i) i"
    unfolding e1 using take_last_order [OF c ok i] .
  note st = settle_spec [OF c [folded e1(2)] n1(2) ord ix1 disjI1 [OF refl], folded h2]
  have n2: "bh_elems_num h2 = bh_elems_num h - 1" using st(2) n1 by (metis mset_eq_length)
  have "bh_indexed h3 (bh_elems_num h - 1)"
  proof (cases "snd (settle h1 i) = i")
    case True
    with st(6) have "h2 = h1" by simp
    with True bh_indexed_fill [OF ix1 n1(2) refl] n1 show ?thesis by (simp add: h3)
  next
    case False
    with st(6) n1 show ?thesis by (simp add: h3)
  qed
  moreover have "bh_elems h3 = bh_elems h2" "bh_compare_func h3 = ?c" "bh_options h3 = bh_options h"
    "bh_elems_alloc h3 = bh_elems_alloc h"
    using st e1 by (simp_all add: h3)
  moreover have "mset (bh_elems h2) = mset (bh_elems h) - {#bh_elems h ! i#}"
    using st(2) mset_update_butlast_last [OF i] by (simp add: e1)
  ultimately show ?thesis using st(1) n2 c al by (simp add: bh_inv_def e1)
qed

lemma remove_last:
  assumes inv: "bh_inv h" and ne: "bh_elems h \<noteq> []"
    and h': "h' = (index_remove (he_key (last (bh_elems h))) h)\<lparr>bh_elems := butlast (bh_elems h)\<rparr>"
  shows "bh_inv h' \<and> mset (bh_elems h') = mset (bh_elems h) - {#last (bh_elems h)#}
    \<and> bh_compare_func h' = bh_compare_func h \<and> bh_options h' = bh_options h"
proof -
  have ok: "heap_ok (bh_compare_func h) (bh_elems h)" and ix: "bh_indexed h (bh_elems_num h)"
    using inv by (simp_all add: bh_inv_def)
  have "heap_ok (bh_compare_func h) (butlast (bh_elems h))"
    unfolding heap_ok_def
  proof (intro allI impI)
    fix k
    assume k: "0 < k \<and> k < length (butlast (bh_elems h))"
    then have "(k - 1) div 2 < length (butlast (bh_elems h))" using parent_less [of k] by simp
    moreover from k have "k < bh_elems_num h" by auto
    ultimately show "bh_compare_func h (butlast (bh_elems h) ! ((k - 1) div 2)) (butlast (bh_elems h) ! k) \<le> 0"
      using k ok by (simp add: nth_butlast heap_ok_def)
  qed
  moreover have "bh_indexed h' (bh_elems_num h - 1)" unfolding h' by (rule bh_indexed_drop_last [OF ix ne refl])
  moreover have "bh_elems_num h - Suc 0 \<le> bh_elems_alloc h" using inv by (auto simp: bh_inv_def)
  ultimately show ?thesis using inv mset_butlast [OF ne] by (simp add: h' bh_inv_def)
qed

lemma bh_remove_min:
  assumes inv: "bh_inv h" and ne: "bh_elems h \<noteq> []"
  shows "\<exists>h'. zbx_binary_heap_remove_min h = Inr h' \<and> bh_inv h'
    \<and> mset (bh_elems h') = mset (bh_elems h) - {#bh_elems h ! 0#}
    \<and> bh_compare_func h' = bh_compare_func h \<and> bh_options h' = bh_options h"
proof (cases "bh_elems_num h - 1 = 0")
  case True
  with ne have one: "last (bh_elems h) = bh_elems h ! 0" by (simp add: last_conv_nth)
  have "zbx_binary_heap_remove_min h =
      Inr ((index_remove (he_key (last (bh_elems h))) h)\<lparr>bh_elems := butlast (bh_elems h)\<rparr>)"
    using True ne by (simp add: zbx_binary_heap_remove_min_def one)
  with remove_last [OF inv ne refl] one show ?thesis by auto
next
  case False
  define h1 where "h1 = take_last 0 (index_remove (he_key (bh_elems h ! 0)) h)"
  define h2 where "h2 = fst (settle h1 0)"
  define h3 where "h3 = (if snd (settle h1 0) = 0 then index_set (he_key (bh_elems h2 ! 0)) 0 h2 else h2)"
  have "zbx_binary_heap_remove_min h = Inr h3"
    using False ne
    by (auto simp: zbx_binary_heap_remove_min_def bubble_down_root h3_def h2_def h1_def case_prod_unfold Let_def)
  with remove_at [OF inv _ h1_def h2_def h3_def] False show ?thesis by auto
qed

lemma bh_remove_direct:
  assumes inv: "bh_inv h" and direct: "has_direct_option h" and i: "i < bh_elems_num h"
    and k: "he_key (bh_elems h ! i) = k"
  shows "\<exists>h'. zbx_binary_heap_remove_direct h k = Inr h' \<and> bh_inv h'
    \<and> mset (bh_elems h') = mset (bh_elems h) - {#bh_elems h ! i#}
    \<and> bh_compare_func h' = bh_compare_func h \<and> bh_options h' = bh_options h"
proof -
  have get: "index_get h k = int i" using index_get_inv(2) [OF inv direct i] k by simp
  show ?thesis
  proof (cases "i = bh_elems_num h - 1")
    case True
    from i have ne: "bh_elems h \<noteq> []" by auto
    then have l: "last (bh_elems h) = bh_elems h ! i" using True by (simp add: last_conv_nth)
    have kl: "he_key (last (bh_elems h)) = k" using l k by simp
    have "zbx_binary_heap_remove_direct h k =
        Inr ((index_remove (he_key (last (bh_elems h))) h)\<lparr>bh_elems := butlast (bh_elems h)\<rparr>)"
      unfolding kl using True direct get by (simp add: zbx_binary_heap_remove_direct_def)
    with remove_last [OF inv ne refl] l show ?thesis by auto
  next
    case False
    with i have i1: "i < bh_elems_num h - 1" by simp
    define h1 where "h1 = take_last i (index_remove (he_key (bh_elems h ! i)) h)"
    define h2 where "h2 = fst (settle h1 i)"
    define h3 where "h3 = (if snd (settle h1 i) = i then index_set (he_key (bh_elems h2 ! i)) i h2 else h2)"
    have "zbx_binary_heap_remove_direct h k = Inr h3"
      using False direct get
      by (auto simp: zbx_binary_heap_remove_direct_def settle_def h3_def h2_def h1_def k case_prod_unfold Let_def)
    with remove_at [OF inv i1 h1_def h2_def h3_def] show ?thesis by auto
  qed
qed

lemma bh_update_direct:
  assumes inv: "bh_inv h" and direct: "has_direct_option h" and i: "i < bh_elems_num h"
    and k: "he_key (bh_elems h ! i) = he_key e"
  shows "\<exists>h'. zbx_binary_heap_update_direct h e = Inr h' \<and> bh_inv h'
    \<and> mset (bh_elems h') = add_mset e (mset (bh_elems h) - {#bh_elems h ! i#})
    \<and> bh_compare_func h' = bh_compare_func h \<and> bh_options h' = bh_options h"
proof -
  let ?c = "bh_compare_func h"
  define h1 where "h1 = h\<lparr>bh_elems := (bh_elems h)[i := e]\<rparr>"
  have c: "compare_order ?c" and ok: "heap_ok ?c (bh_elems h)" and ix: "bh_indexed h (bh_elems_num h)"
    using inv by (simp_all add: bh_inv_def)
  have get: "index_get h (he_key e) = int i" using index_get_inv(2) [OF inv direct i] k by simp
  have e1: "bh_elems h1 = (bh_elems h)[i := e]" "bh_compare_func h1 = ?c" by (simp_all add: h1_def)
  have keys: "map he_key (bh_elems h1) = map he_key (bh_elems h)"
    using k by (simp add: e1 map_update list_update_same_conv [THEN iffD2] i)
  have at: "he_key (bh_elems h1 ! j) = he_key (bh_elems h ! j)" if "j < bh_elems_num h" for j
    using arg_cong [OF keys, of "\<lambda>xs. xs ! j"] that by (simp add: e1)
  have "he_key ` set (bh_elems h1) = he_key ` set (bh_elems h)"
    using arg_cong [OF keys, of set] by simp
  then have ix1: "bh_indexed h1 (bh_elems_num h)"
    using ix keys at by (auto simp: bh_indexed_def idx_rel_def h1_def)
  have i1: "i < bh_elems_num h1" using i by (simp add: e1)
  have ord: "order_around (bh_compare_func h1) (bh_elems h1) (\<lambda>k. k \<noteq> i \<and> (k - 1) div 2 \<noteq> i) i"
    unfolding e1 by (rule heap_ok_replace [OF c ok i])
  have n1: "bh_elems_num h1 = bh_elems_num h" by (simp add: e1)
  note st = settle_spec [OF c [folded e1(2)] i1 ord ix1]
  have "zbx_binary_heap_update_direct h e = Inr (fst (settle h1 i))"
    using direct get
    by (auto simp: zbx_binary_heap_update_direct_def settle_def h1_def case_prod_unfold Let_def)
  moreover have "bh_indexed (fst (settle h1 i)) (bh_elems_num h)"
    using st(6) ix1 n1 by (auto split: if_splits)
  moreover have "bh_elems_num (fst (settle h1 i)) = bh_elems_num h"
    using st(2) n1 by (metis le_refl mset_eq_length)
  ultimately show ?thesis
    using st inv n1 i by (auto simp: bh_inv_def e1 h1_def mset_update)
qed

lemma bh_clear:
  assumes "bh_inv h"
  shows "bh_inv (zbx_binary_heap_clear h)" "bh_elems (zbx_binary_heap_clear h) = []"
    and "bh_compare_func (zbx_binary_heap_clear h) = bh_compare_func h"
    and "bh_options (zbx_binary_heap_clear h) = bh_options h"
  using assms
  by (auto simp: zbx_binary_heap_clear_def Let_def bh_inv_def heap_ok_def bh_indexed_def idx_rel_def
      hm.wipe_inv hm.wipe_abs)

section \<open>Abstract specification and simulation\<close>

datatype bh_op = BhInsert heap_elem | BhUpdate heap_elem | BhRemoveMin | BhRemove u64 | BhClear

fun bh_exec :: "zbx_binary_heap \<Rightarrow> bh_op \<Rightarrow> zbx_binary_heap result" where
  "bh_exec h (BhInsert e) = zbx_binary_heap_insert h e"
| "bh_exec h (BhUpdate e) = zbx_binary_heap_update_direct h e"
| "bh_exec h BhRemoveMin = zbx_binary_heap_remove_min h"
| "bh_exec h (BhRemove k) = zbx_binary_heap_remove_direct h k"
| "bh_exec h BhClear = Inr (zbx_binary_heap_clear h)"

text \<open>
  The contract of the heap as a multiset of elements: \<open>pq_step c direct M op r\<close> says that \<open>op\<close> on
  content \<open>M\<close> may have the result \<open>r\<close>, a new content or the abnormal end of the process.
\<close>

inductive pq_step ::
  "(heap_elem \<Rightarrow> heap_elem \<Rightarrow> int) \<Rightarrow> bool \<Rightarrow> heap_elem multiset \<Rightarrow> bh_op \<Rightarrow> heap_elem multiset result \<Rightarrow> bool"
  for c direct M where
  insert_new: "\<not> (direct \<and> (\<exists>x \<in># M. he_key x = he_key e)) \<Longrightarrow>
     pq_step c direct M (BhInsert e) (Inr (add_mset e M))"
| insert_dup: "direct \<Longrightarrow> x \<in># M \<Longrightarrow> he_key x = he_key e \<Longrightarrow>
     pq_step c direct M (BhInsert e) (Inl ExitFailure)"
| update: "direct \<Longrightarrow> x \<in># M \<Longrightarrow> he_key x = he_key e \<Longrightarrow>
     pq_step c direct M (BhUpdate e) (Inr (add_mset e {#y \<in># M. he_key y \<noteq> he_key e#}))"
| update_fail: "\<not> (direct \<and> (\<exists>x \<in># M. he_key x = he_key e)) \<Longrightarrow>
     pq_step c direct M (BhUpdate e) (Inl ExitFailure)"
| remove_min: "m \<in># M \<Longrightarrow> (\<And>x. x \<in># M \<Longrightarrow> c m x \<le> 0) \<Longrightarrow>
     pq_step c direct M BhRemoveMin (Inr (M - {#m#}))"
| remove_min_fail: "M = {#} \<Longrightarrow> pq_step c direct M BhRemoveMin (Inl ExitFailure)"
| remove: "direct \<Longrightarrow> x \<in># M \<Longrightarrow> he_key x = k \<Longrightarrow>
     pq_step c direct M (BhRemove k) (Inr {#y \<in># M. he_key y \<noteq> k#})"
| remove_fail: "\<not> (direct \<and> (\<exists>x \<in># M. he_key x = k)) \<Longrightarrow>
     pq_step c direct M (BhRemove k) (Inl ExitFailure)"
| clear: "pq_step c direct M BhClear (Inr {#})"

lemma filter_key_remove1:
  assumes "distinct (map he_key xs)" "x \<in> set xs"
  shows "mset xs - {#x#} = {#y \<in># mset xs. he_key y \<noteq> he_key x#}"
  using assms
proof (induction xs)
  case Nil
  then show ?case by simp
next
  case (Cons z xs)
  show ?case
  proof (cases "x = z")
    case True
    have "filter (\<lambda>y. he_key y \<noteq> he_key z) xs = xs"
      using Cons.prems by (intro filter_True) (auto simp: image_iff)
    with True show ?thesis by (simp flip: mset_filter)
  next
    case False
    then have x: "x \<in> set xs" using Cons.prems by simp
    then have "he_key z \<noteq> he_key x" using Cons.prems by (auto simp: image_iff)
    with False x Cons show ?thesis by (simp add: add_mset_diff_bothsides diff_union_swap2)
  qed
qed

lemma direct_distinct: "bh_inv h \<Longrightarrow> has_direct_option h \<Longrightarrow> distinct (map he_key (bh_elems h))"
  by (auto simp: bh_inv_def bh_indexed_def idx_rel_def)

definition bh_sim :: "zbx_binary_heap \<Rightarrow> bh_op \<Rightarrow> bool" where
  "bh_sim h op \<longleftrightarrow>
     pq_step (bh_compare_func h) (has_direct_option h) (mset (bh_elems h)) op
       (map_sum id (\<lambda>h'. mset (bh_elems h')) (bh_exec h op))
     \<and> (\<forall>h'. bh_exec h op = Inr h' \<longrightarrow>
          bh_inv h' \<and> bh_compare_func h' = bh_compare_func h \<and> bh_options h' = bh_options h)"

lemma bh_simI:
  assumes "bh_exec h op = Inr h'" "bh_inv h'" "bh_compare_func h' = bh_compare_func h"
    "bh_options h' = bh_options h"
    and "pq_step (bh_compare_func h) (has_direct_option h) (mset (bh_elems h)) op (Inr (mset (bh_elems h')))"
  shows "bh_sim h op"
  using assms by (simp add: bh_sim_def)

lemma bh_sim_errorI:
  assumes "bh_exec h op = Inl ExitFailure"
    and "pq_step (bh_compare_func h) (has_direct_option h) (mset (bh_elems h)) op (Inl ExitFailure)"
  shows "bh_sim h op"
  using assms by (simp add: bh_sim_def)

lemma bh_sim_insert: "bh_inv h \<Longrightarrow> bh_sim h (BhInsert e)"
proof (cases "has_direct_option h \<and> he_key e \<in> he_key ` set (bh_elems h)")
  case True
  assume inv: "bh_inv h"
  from True obtain x where "x \<in># mset (bh_elems h)" "he_key x = he_key e" by auto
  with True bh_insert_duplicate [OF inv] show ?thesis
    by (intro bh_sim_errorI) (auto intro: pq_step.insert_dup)
next
  case False
  assume inv: "bh_inv h"
  obtain h' where h': "zbx_binary_heap_insert h e = Inr h'" "bh_inv h'"
    "mset (bh_elems h') = add_mset e (mset (bh_elems h))"
    "bh_compare_func h' = bh_compare_func h" "bh_options h' = bh_options h"
    using bh_insert [OF inv] False by metis
  have "\<not> (has_direct_option h \<and> (\<exists>x \<in># mset (bh_elems h). he_key x = he_key e))"
    using False by (auto simp: image_iff)
  from pq_step.insert_new [OF this] h' show ?thesis by (intro bh_simI [of _ _ h']) simp_all
qed

lemma bh_sim_update: "bh_inv h \<Longrightarrow> bh_sim h (BhUpdate e)"
proof (cases "has_direct_option h \<and> he_key e \<in> he_key ` set (bh_elems h)")
  case True
  assume inv: "bh_inv h"
  from True obtain i where i: "i < bh_elems_num h" "he_key (bh_elems h ! i) = he_key e"
    by (auto simp: in_set_conv_nth)
  obtain h' where h': "zbx_binary_heap_update_direct h e = Inr h'" "bh_inv h'"
    "mset (bh_elems h') = add_mset e (mset (bh_elems h) - {#bh_elems h ! i#})"
    "bh_compare_func h' = bh_compare_func h" "bh_options h' = bh_options h"
    using bh_update_direct [OF inv conjunct1 [OF True] i] by blast
  have m: "mset (bh_elems h') = add_mset e {#y \<in># mset (bh_elems h). he_key y \<noteq> he_key e#}"
    using h'(3) filter_key_remove1 [OF direct_distinct [OF inv conjunct1 [OF True]] nth_mem [OF i(1)]] i(2)
    by simp
  have "pq_step (bh_compare_func h) (has_direct_option h) (mset (bh_elems h)) (BhUpdate e)
      (Inr (mset (bh_elems h')))"
    unfolding m by (rule pq_step.update [of _ "bh_elems h ! i"]) (use i True in simp_all)
  with h' show ?thesis by (intro bh_simI [of _ _ h']) simp_all
next
  case False
  assume inv: "bh_inv h"
  from False have "bh_exec h (BhUpdate e) = Inl ExitFailure"
    using index_get_inv(1) [OF inv] by (auto simp: zbx_binary_heap_update_direct_def)
  moreover have "\<not> (has_direct_option h \<and> (\<exists>x \<in># mset (bh_elems h). he_key x = he_key e))"
    using False by (metis image_eqI set_mset_mset)
  ultimately show ?thesis by (intro bh_sim_errorI pq_step.update_fail)
qed

lemma bh_sim_remove: "bh_inv h \<Longrightarrow> bh_sim h (BhRemove k)"
proof (cases "has_direct_option h \<and> k \<in> he_key ` set (bh_elems h)")
  case True
  assume inv: "bh_inv h"
  from True obtain i where i: "i < bh_elems_num h" "he_key (bh_elems h ! i) = k"
    by (auto simp: in_set_conv_nth)
  obtain h' where h': "zbx_binary_heap_remove_direct h k = Inr h'" "bh_inv h'"
    "mset (bh_elems h') = mset (bh_elems h) - {#bh_elems h ! i#}"
    "bh_compare_func h' = bh_compare_func h" "bh_options h' = bh_options h"
    using bh_remove_direct [OF inv conjunct1 [OF True] i] by blast
  have m: "mset (bh_elems h') = {#y \<in># mset (bh_elems h). he_key y \<noteq> k#}"
    using h'(3) filter_key_remove1 [OF direct_distinct [OF inv conjunct1 [OF True]] nth_mem [OF i(1)]] i(2)
    by simp
  have "pq_step (bh_compare_func h) (has_direct_option h) (mset (bh_elems h)) (BhRemove k)
      (Inr (mset (bh_elems h')))"
    unfolding m by (rule pq_step.remove [of _ "bh_elems h ! i"]) (use i True in simp_all)
  with h' show ?thesis by (intro bh_simI [of _ _ h']) simp_all
next
  case False
  assume inv: "bh_inv h"
  from False have "bh_exec h (BhRemove k) = Inl ExitFailure"
    using index_get_inv(1) [OF inv] by (auto simp: zbx_binary_heap_remove_direct_def)
  moreover have "\<not> (has_direct_option h \<and> (\<exists>x \<in># mset (bh_elems h). he_key x = k))"
    using False by (metis image_eqI set_mset_mset)
  ultimately show ?thesis by (intro bh_sim_errorI pq_step.remove_fail)
qed

lemma bh_find_min:
  assumes "bh_inv h" "bh_elems h \<noteq> []"
  shows "\<exists>m. zbx_binary_heap_find_min h = Inr m \<and> m \<in># mset (bh_elems h)
    \<and> (\<forall>x \<in># mset (bh_elems h). bh_compare_func h m x \<le> 0)"
proof -
  have "bh_compare_func h (bh_elems h ! 0) x \<le> 0" if "x \<in> set (bh_elems h)" for x
    using that heap_ok_min assms(1) by (auto simp: in_set_conv_nth bh_inv_def)
  with assms(2) show ?thesis by (simp add: zbx_binary_heap_find_min_def)
qed

lemma bh_sim_remove_min: "bh_inv h \<Longrightarrow> bh_sim h BhRemoveMin"
proof (cases "bh_elems h = []")
  case True
  then show ?thesis
    by (intro bh_sim_errorI) (auto intro: pq_step.remove_min_fail simp: zbx_binary_heap_remove_min_def)
next
  case False
  assume inv: "bh_inv h"
  obtain h' where h': "zbx_binary_heap_remove_min h = Inr h'" "bh_inv h'"
    "mset (bh_elems h') = mset (bh_elems h) - {#bh_elems h ! 0#}"
    "bh_compare_func h' = bh_compare_func h" "bh_options h' = bh_options h"
    using bh_remove_min [OF inv False] by blast
  have "bh_compare_func h (bh_elems h ! 0) x \<le> 0" "bh_elems h ! 0 \<in># mset (bh_elems h)"
    if "x \<in># mset (bh_elems h)" for x
    using bh_find_min [OF inv False] that False by (auto simp: zbx_binary_heap_find_min_def)
  with h' False show ?thesis
    by (intro bh_simI [of _ _ h']) (auto intro!: pq_step.remove_min)
qed

lemma bh_sim_all: "bh_inv h \<Longrightarrow> bh_sim h op"
  by (cases op)
    (simp_all add: bh_sim_insert bh_sim_update bh_sim_remove_min bh_sim_remove,
     intro bh_simI [of _ _ "zbx_binary_heap_clear h"], simp_all add: bh_clear pq_step.clear)

section \<open>Runs\<close>

fun bh_run :: "zbx_binary_heap \<Rightarrow> bh_op list \<Rightarrow> zbx_binary_heap result" where
  "bh_run h [] = Inr h"
| "bh_run h (op # ops) = bind_result (bh_exec h op) (\<lambda>h'. bh_run h' ops)"

lemma bh_run_inv:
  assumes "bh_inv h" "bh_run h ops = Inr h'"
  shows "bh_inv h' \<and> bh_compare_func h' = bh_compare_func h \<and> bh_options h' = bh_options h"
  using assms
proof (induction ops arbitrary: h)
  case Nil
  then show ?case by simp
next
  case (Cons op ops)
  from Cons.prems(2) obtain h1 where h1: "bh_exec h op = Inr h1" "bh_run h1 ops = Inr h'"
    by (auto simp: bind_result_Inr_iff)
  with bh_sim_all [OF Cons.prems(1), of op] have "bh_inv h1" "bh_compare_func h1 = bh_compare_func h"
    "bh_options h1 = bh_options h" by (auto simp: bh_sim_def)
  with Cons.IH [OF _ h1(2)] show ?case by simp
qed

section \<open>Properties\<close>

text \<open>
  C2.  Every operation of the binary heap (insert, direct update, removal of the minimum, direct
  removal, clear) simulates the abstract priority queue on the multiset of its elements: it changes
  the content exactly as specified, ends the process exactly in the specified error cases
  (duplicate key, missing key, operation without the DIRECT option, empty heap), and keeps the heap
  order, the key index and the capacity of the array.
\<close>

theorem binary_heap_simulates_priority_queue:
  assumes "bh_inv h"
  shows "pq_step (bh_compare_func h) (has_direct_option h) (mset (bh_elems h)) op
           (map_sum id (\<lambda>h'. mset (bh_elems h')) (bh_exec h op))
         \<and> (\<forall>h'. bh_exec h op = Inr h' \<longrightarrow> bh_inv h')"
  using bh_sim_all [OF assms, of op] by (simp add: bh_sim_def)

definition key_compare :: "heap_elem \<Rightarrow> heap_elem \<Rightarrow> int" where
  "key_compare e1 e2 = zbx_default_uint64_compare_func (he_key e1) (he_key e2)"

lemma key_compare_order: "compare_order key_compare"
  by unfold_locales
    (auto simp: key_compare_def zbx_default_uint64_compare_func_def return_if_not_equal_le)

theorem binary_heap_simulates_priority_queue_witness:
  "bh_inv (zbx_binary_heap_create key_compare 1)
   \<and> (\<exists>h'. bh_exec (zbx_binary_heap_create key_compare 1)
        (BhInsert \<lparr>he_key = 7, he_data = 0, he_local_data = 0\<rparr>) = Inr h' \<and> bh_inv h')"
proof -
  let ?h = "zbx_binary_heap_create key_compare 1"
  let ?e = "\<lparr>he_key = 7, he_data = 0, he_local_data = 0\<rparr>"
  have inv: "bh_inv ?h" by (rule bh_create(1) [OF key_compare_order])
  have "\<exists>h'. bh_exec ?h (BhInsert ?e) = Inr h'"
    using bh_insert [OF inv, of ?e] bh_create(2) [OF key_compare_order] by auto
  with inv binary_heap_simulates_priority_queue [OF inv, of "BhInsert ?e"] show ?thesis by blast
qed

text \<open>
  After any sequence of operations that does not end the process, on a heap created with any
  total preorder as comparison function, \<open>zbx_binary_heap_find_min\<close> on a non-empty heap returns an
  element of the heap that compares at most equal to every other element; and with the DIRECT
  option the key index answers the exact position of every stored key and \<open>FAIL\<close> for every other
  key.
\<close>

theorem binary_heap_run_find_min:
  assumes "compare_order c" and "bh_run (zbx_binary_heap_create c opts) ops = Inr h"
  shows "(bh_elems h \<noteq> [] \<longrightarrow>
           (\<exists>m. zbx_binary_heap_find_min h = Inr m \<and> m \<in> set (bh_elems h)
              \<and> (\<forall>x \<in> set (bh_elems h). c m x \<le> 0)))
       \<and> (opts AND 1 \<noteq> 0 \<longrightarrow>
           (\<forall>i < bh_elems_num h. index_get h (he_key (bh_elems h ! i)) = int i)
           \<and> (\<forall>k. k \<notin> he_key ` set (bh_elems h) \<longrightarrow> index_get h k = FAIL))"
proof -
  have inv: "bh_inv h" and c: "bh_compare_func h = c"
    and o: "bh_options h = bh_options (zbx_binary_heap_create c opts)"
    using bh_run_inv [OF bh_create(1) [OF assms(1)] assms(2)] bh_create(3) [OF assms(1)] by auto
  have d: "has_direct_option h \<longleftrightarrow> opts AND 1 \<noteq> 0"
    using bh_create(4) [OF assms(1), of opts] o by (simp add: has_direct_option_def)
  show ?thesis
    using bh_find_min [OF inv] index_get_inv(1,2) [OF inv] by (auto simp: c d)
qed

theorem binary_heap_run_find_min_witness:
  "\<exists>h. bh_run (zbx_binary_heap_create key_compare 1)
         [BhInsert \<lparr>he_key = 7, he_data = 0, he_local_data = 0\<rparr>] = Inr h
     \<and> index_get h 7 = 0 \<and> index_get h 8 = FAIL"
proof -
  let ?e = "\<lparr>he_key = 7, he_data = 0, he_local_data = 0\<rparr>" and ?h = "zbx_binary_heap_create key_compare 1"
  obtain h where h: "zbx_binary_heap_insert ?h ?e = Inr h" "mset (bh_elems h) = {#?e#}"
    using bh_insert [OF bh_create(1) [OF key_compare_order], of 1 ?e] bh_create(2) [OF key_compare_order]
    by auto
  have run: "bh_run ?h [BhInsert ?e] = Inr h" using h(1) by simp
  have es: "bh_elems h = [?e]" using h(2) by simp
  from binary_heap_run_find_min [OF key_compare_order run] es run show ?thesis by auto
qed

end
