(* ===== verification/Event_Queue.thy ===== *)
theory Event_Queue
  imports Binary_Heap
begin

text \<open>
  \<open>src/libs/zbxalgo/event_queue.c\<close>: the millisecond event queue of the asynchronous pollers, a
  binary heap ordered by time and a table of callbacks.

  Callbacks belong to the queue's clients: the table holds opaque handler names \<open>'h\<close> and the
  parameter \<open>cb\<close> gives, for a handler and an event, the change of the client's state \<open>'s\<close> and the
  list of events the handler places in the queue with \<open>event_queue_add_event\<close>.  \<open>mem\<close> is the content
  of the memory block \<open>malloc_func\<close> returned, from which \<open>event_queue_init\<close> does not clear the
  callback table.  The mutex that a queue created with locks takes around each operation is not part of the model: the
  operations are those of one thread.
\<close>

section \<open>The interface of the timer queue\<close>

locale timer_queue =
  fixes is_empty :: "'q \<Rightarrow> int"
    and find_min :: "'q \<Rightarrow> 'e result"
    and insert :: "'q \<Rightarrow> 'e \<Rightarrow> 'q result"
    and remove_min :: "'q \<Rightarrow> 'q result"
    and inv :: "'q \<Rightarrow> bool"
    and content :: "'q \<Rightarrow> 'e multiset"
    and key :: "'e \<Rightarrow> 'k::linorder"
  assumes empty_law: "inv q \<Longrightarrow> is_empty q = (if content q = {#} then SUCCEED else FAIL)"
    and insert_law: "inv q \<Longrightarrow> \<exists>q'. insert q e = Inr q' \<and> inv q' \<and> content q' = add_mset e (content q)"
    and find_law: "inv q \<Longrightarrow> content q \<noteq> {#} \<Longrightarrow>
      \<exists>m. find_min q = Inr m \<and> m \<in># content q \<and> (\<forall>x \<in># content q. key m \<le> key x)"
    and remove_law: "inv q \<Longrightarrow> find_min q = Inr m \<Longrightarrow>
      \<exists>q'. remove_min q = Inr q' \<and> inv q' \<and> content q' = content q - {#m#}"
begin

lemma pop:
  assumes "inv q" "is_empty q = FAIL"
  obtains m q' where "find_min q = Inr m" "remove_min q = Inr q'" "inv q'"
    "content q = add_mset m (content q')" "\<And>x. x \<in># content q \<Longrightarrow> key m \<le> key x"
proof -
  have "content q \<noteq> {#}" using assms by (auto simp: empty_law)
  with assms(1) obtain m where m: "find_min q = Inr m" "m \<in># content q" "\<forall>x \<in># content q. key m \<le> key x"
    using find_law by blast
  obtain q' where "remove_min q = Inr q'" "inv q'" "content q' = content q - {#m#}"
    using remove_law [OF assms(1) m(1)] by blast
  with m show thesis by (intro that [of m q']) auto
qed

lemma insertE:
  assumes "inv q"
  obtains q' where "insert q e = Inr q'" "inv q'" "content q' = add_mset e (content q)"
  using insert_law [OF assms] by blast

end

section \<open>State and operations\<close>

record 'h event_queue =
  eq_queue :: zbx_binary_heap
  eq_locks :: bool
  eq_callbacks :: "u8 \<Rightarrow> 'h option"

definition event_queue_compare_func :: "heap_elem \<Rightarrow> heap_elem \<Rightarrow> int" where
  "event_queue_compare_func e1 e2 = return_if_not_equal (he_key e1) (he_key e2) 0"

definition event_queue_init :: "bool \<Rightarrow> (u8 \<Rightarrow> 'h option) \<Rightarrow> 'h event_queue" where
  "event_queue_init shared mem =
     \<lparr>eq_queue = zbx_binary_heap_create event_queue_compare_func 0, eq_locks = shared, eq_callbacks = mem\<rparr>"

text \<open>\<open>callback_id > MAX_EVENT_CALLBACK_ID\<close> (255) is never true of an \<open>unsigned char\<close>.\<close>

definition event_queue_add_callback :: "'h event_queue \<Rightarrow> u8 \<Rightarrow> 'h option \<Rightarrow> 'h event_queue \<times> int" where
  "event_queue_add_callback conf callback_id cb_func =
     (if unat callback_id > 255 then (conf, FAIL)
      else (conf\<lparr>eq_callbacks := (eq_callbacks conf)(callback_id := cb_func)\<rparr>, SUCCEED))"

definition event_queue_add_event :: "'h event_queue \<Rightarrow> u64 \<Rightarrow> u8 \<Rightarrow> u64 \<Rightarrow> 'h event_queue result" where
  "event_queue_add_event conf msec_time event_id data =
     (let elem = \<lparr>he_key = msec_time, he_data = data, he_local_data = ucast event_id\<rparr>
      in if eq_callbacks conf event_id = None then Inl ExitFailure
         else bind_result (zbx_binary_heap_insert (eq_queue conf) elem)
                (\<lambda>queue. Inr (conf\<lparr>eq_queue := queue\<rparr>)))"

fun add_events :: "'h event_queue \<Rightarrow> (u64 \<times> u8 \<times> u64) list \<Rightarrow> 'h event_queue result" where
  "add_events conf [] = Inr conf"
| "add_events conf ((t, i, d) # evs) =
     bind_result (event_queue_add_event conf t i d) (\<lambda>conf. add_events conf evs)"

type_synonym ('h, 's) handler = "'h \<Rightarrow> u64 \<Rightarrow> u8 \<Rightarrow> u64 \<Rightarrow> 's \<Rightarrow> 's \<times> (u64 \<times> u8 \<times> u64) list"

text \<open>The handling of the minimum: dequeue it, call its handler.\<close>

definition dispatch_min ::
  "('h, 's) handler \<Rightarrow> heap_elem \<Rightarrow> 'h event_queue \<Rightarrow> 's \<Rightarrow> ('h event_queue \<times> 's) result" where
  "dispatch_min cb ev conf s =
     (let event_id = ucast (he_local_data ev); data = he_data ev; msec_time = he_key ev
      in bind_result (zbx_binary_heap_remove_min (eq_queue conf)) (\<lambda>queue.
           case eq_callbacks conf event_id of
             None \<Rightarrow> Inl NullDeref
           | Some h \<Rightarrow>
               (let (s', evs) = cb h msec_time event_id data s
                in bind_result (add_events (conf\<lparr>eq_queue := queue\<rparr>) evs) (\<lambda>conf'. Inr (conf', s')))))"

text \<open>
  The loop of \<open>event_queue_process_events\<close>.  With \<open>max_events = 0\<close> it may run for ever when handlers
  keep placing due events, so it is partial.  The last component is the sequence of dispatched
  events, whose length is the returned count.
\<close>

partial_function (option) process_loop ::
  "('h, 's) handler \<Rightarrow> int \<Rightarrow> u64 \<Rightarrow> 'h event_queue \<Rightarrow> 's \<Rightarrow> heap_elem list
    \<Rightarrow> ('h event_queue \<times> 's \<times> heap_elem list) result option" where
  "process_loop cb max_events now conf s done =
     (if zbx_binary_heap_empty (eq_queue conf) = FAIL \<and> (max_events = 0 \<or> int (length done) < max_events)
      then
        (case zbx_binary_heap_find_min (eq_queue conf) of
           Inl e \<Rightarrow> Some (Inl e)
         | Inr ev \<Rightarrow>
             (if he_key ev > now then Some (Inr (conf, s, done))
              else
                (case dispatch_min cb ev conf s of
                   Inl e \<Rightarrow> Some (Inl e)
                 | Inr (conf', s') \<Rightarrow> process_loop cb max_events now conf' s' (done @ [ev]))))
      else Some (Inr (conf, s, done)))"

definition event_queue_process_events ::
  "('h, 's) handler \<Rightarrow> u64 \<Rightarrow> 'h event_queue \<Rightarrow> int \<Rightarrow> 's \<Rightarrow> ('h event_queue \<times> 's \<times> heap_elem list) result option" where
  "event_queue_process_events cb now conf max_events s = process_loop cb max_events now conf s []"

definition event_queue_get_events_count :: "'h event_queue \<Rightarrow> int" where
  "event_queue_get_events_count conf = int (bh_elems_num (eq_queue conf))"

definition event_queue_get_delay :: "'h event_queue \<Rightarrow> u64 \<Rightarrow> u64 result" where
  "event_queue_get_delay conf now =
     (if zbx_binary_heap_empty (eq_queue conf) = FAIL
      then bind_result (zbx_binary_heap_find_min (eq_queue conf)) (\<lambda>ev. Inr (now - he_key ev))
      else Inr 0)"

section \<open>Invariant\<close>

lemma event_queue_compare_order: "compare_order event_queue_compare_func"
  by unfold_locales (auto simp: event_queue_compare_func_def return_if_not_equal_le)

definition event_heap_inv :: "zbx_binary_heap \<Rightarrow> bool" where
  "event_heap_inv h \<longleftrightarrow> bh_inv h \<and> \<not> has_direct_option h \<and> bh_compare_func h = event_queue_compare_func"

definition event_queue_inv :: "'h event_queue \<Rightarrow> bool" where
  "event_queue_inv conf \<longleftrightarrow>
     event_heap_inv (eq_queue conf)
     \<and> (\<forall>e \<in> set (bh_elems (eq_queue conf)). eq_callbacks conf (ucast (he_local_data e)) \<noteq> None)"

lemma event_heap_find:
  "event_heap_inv q \<Longrightarrow> mset (bh_elems q) \<noteq> {#} \<Longrightarrow>
    \<exists>m. zbx_binary_heap_find_min q = Inr m \<and> m \<in># mset (bh_elems q)
      \<and> (\<forall>x \<in># mset (bh_elems q). he_key m \<le> he_key x)"
  using bh_find_min [of q]
  by (simp add: event_heap_inv_def event_queue_compare_func_def return_if_not_equal_le)

lemma event_heap_remove:
  assumes "event_heap_inv q" "zbx_binary_heap_find_min q = Inr m"
  shows "\<exists>q'. zbx_binary_heap_remove_min q = Inr q' \<and> event_heap_inv q'
    \<and> mset (bh_elems q') = mset (bh_elems q) - {#m#}"
proof -
  have ne: "bh_elems q \<noteq> []" and m: "m = bh_elems q ! 0"
    using assms(2) by (auto simp: zbx_binary_heap_find_min_def split: if_splits)
  from bh_remove_min [OF _ ne] assms(1) obtain q' where "zbx_binary_heap_remove_min q = Inr q'" "bh_inv q'"
    "mset (bh_elems q') = mset (bh_elems q) - {#m#}" "bh_compare_func q' = bh_compare_func q"
    "bh_options q' = bh_options q"
    unfolding m event_heap_inv_def by blast
  with assms(1) show ?thesis by (auto simp: event_heap_inv_def has_direct_option_def)
qed

lemma event_heap_insert:
  assumes "event_heap_inv q"
  shows "\<exists>q'. zbx_binary_heap_insert q e = Inr q' \<and> event_heap_inv q'
    \<and> mset (bh_elems q') = add_mset e (mset (bh_elems q))"
proof -
  have "bh_inv q" "\<not> has_direct_option q" using assms by (auto simp: event_heap_inv_def)
  then obtain q' where "zbx_binary_heap_insert q e = Inr q'" "bh_inv q'"
    "mset (bh_elems q') = add_mset e (mset (bh_elems q))" "bh_compare_func q' = bh_compare_func q"
    "bh_options q' = bh_options q"
    using bh_insert [of q e] by blast
  with assms show ?thesis by (auto simp: event_heap_inv_def has_direct_option_def)
qed

interpretation timer: timer_queue zbx_binary_heap_empty zbx_binary_heap_find_min
  zbx_binary_heap_insert zbx_binary_heap_remove_min event_heap_inv "\<lambda>h. mset (bh_elems h)" he_key
proof (unfold_locales, goal_cases)
  case (1 q)
  then show ?case by (simp add: zbx_binary_heap_empty_def)
next
  case (2 q e)
  then show ?case by (rule event_heap_insert)
next
  case (3 q)
  then show ?case by (rule event_heap_find)
next
  case (4 q m)
  then show ?case by (rule event_heap_remove)
qed

lemma event_queue_init_inv: "event_queue_inv (event_queue_init shared mem)"
  using bh_create [OF event_queue_compare_order, of 0]
  by (simp add: event_queue_inv_def event_queue_init_def event_heap_inv_def)

lemma ucast_event_id: "(ucast (ucast (i :: u8) :: u64) :: u8) = i"
  by (rule bit_word_eqI) (auto simp: bit_simps)

lemma add_event_ok:
  assumes "event_queue_inv conf" "eq_callbacks conf i \<noteq> None"
  obtains conf' where "event_queue_add_event conf t i d = Inr conf'" "event_queue_inv conf'"
    "eq_callbacks conf' = eq_callbacks conf"
    "mset (bh_elems (eq_queue conf')) =
       add_mset \<lparr>he_key = t, he_data = d, he_local_data = ucast i\<rparr> (mset (bh_elems (eq_queue conf)))"
proof -
  let ?e = "\<lparr>he_key = t, he_data = d, he_local_data = ucast i\<rparr>"
  obtain q where q: "zbx_binary_heap_insert (eq_queue conf) ?e = Inr q" "event_heap_inv q"
    "mset (bh_elems q) = add_mset ?e (mset (bh_elems (eq_queue conf)))"
    using timer.insertE assms(1) unfolding event_queue_inv_def by metis
  have "set (bh_elems q) = insert ?e (set (bh_elems (eq_queue conf)))"
    using arg_cong [OF q(3), of set_mset] by simp
  then have "event_queue_inv (conf\<lparr>eq_queue := q\<rparr>)"
    using assms q(2) by (auto simp: event_queue_inv_def ucast_event_id)
  with q assms that [of "conf\<lparr>eq_queue := q\<rparr>"] show thesis by (simp add: event_queue_add_event_def)
qed

lemma add_events_ok:
  assumes "event_queue_inv conf" "\<forall>(t, i, d) \<in> set evs. eq_callbacks conf i \<noteq> None"
  shows "\<exists>conf'. add_events conf evs = Inr conf' \<and> event_queue_inv conf'
    \<and> eq_callbacks conf' = eq_callbacks conf"
  using assms
proof (induction evs arbitrary: conf)
  case Nil
  then show ?case by simp
next
  case (Cons ev evs)
  obtain t i d where ev: "ev = (t, i, d)" by (metis prod_cases3)
  have "eq_callbacks conf i \<noteq> None" using Cons.prems(2) ev by auto
  then obtain conf1 where "event_queue_add_event conf t i d = Inr conf1" "event_queue_inv conf1"
    "eq_callbacks conf1 = eq_callbacks conf"
    by (rule add_event_ok [OF Cons.prems(1), of i t d])
  with Cons.IH [of conf1] Cons.prems(2) ev show ?case by auto
qed

definition handlers_registered :: "('h, 's) handler \<Rightarrow> (u8 \<Rightarrow> 'h option) \<Rightarrow> bool" where
  "handlers_registered cb callbacks \<longleftrightarrow>
     (\<forall>h t i d s. \<forall>(t', i', d') \<in> set (snd (cb h t i d s)). callbacks i' \<noteq> None)"

lemma dispatch_ok:
  assumes inv: "event_queue_inv conf" and reg: "handlers_registered cb (eq_callbacks conf)"
    and ne: "zbx_binary_heap_empty (eq_queue conf) = FAIL"
  obtains ev where "zbx_binary_heap_find_min (eq_queue conf) = Inr ev"
    "ev \<in> set (bh_elems (eq_queue conf))"
    "\<forall>x \<in> set (bh_elems (eq_queue conf)). he_key ev \<le> he_key x"
    "\<exists>conf' s'. dispatch_min cb ev conf s = Inr (conf', s') \<and> event_queue_inv conf'
       \<and> eq_callbacks conf' = eq_callbacks conf"
proof -
  obtain ev q where q: "zbx_binary_heap_find_min (eq_queue conf) = Inr ev"
    "zbx_binary_heap_remove_min (eq_queue conf) = Inr q" "event_heap_inv q"
    "mset (bh_elems (eq_queue conf)) = add_mset ev (mset (bh_elems q))"
    "\<And>x. x \<in># mset (bh_elems (eq_queue conf)) \<Longrightarrow> he_key ev \<le> he_key x"
    using timer.pop [OF _ ne] inv unfolding event_queue_inv_def by metis
  have set: "set (bh_elems (eq_queue conf)) = insert ev (set (bh_elems q))"
    using arg_cong [OF q(4), of set_mset] by simp
  let ?i = "ucast (he_local_data ev) :: u8"
  have inv1: "event_queue_inv (conf\<lparr>eq_queue := q\<rparr>)"
    using inv q(3) set by (auto simp: event_queue_inv_def)
  obtain h where h: "eq_callbacks conf ?i = Some h" using inv set by (auto simp: event_queue_inv_def)
  let ?r = "cb h (he_key ev) ?i (he_data ev) s"
  have "\<forall>(t, i, d) \<in> set (snd ?r). eq_callbacks (conf\<lparr>eq_queue := q\<rparr>) i \<noteq> None"
    using reg unfolding handlers_registered_def by simp
  from add_events_ok [OF inv1 this] obtain conf' where "add_events (conf\<lparr>eq_queue := q\<rparr>) (snd ?r) = Inr conf'"
    "event_queue_inv conf'" "eq_callbacks conf' = eq_callbacks conf" by auto
  with h q(2) have "dispatch_min cb ev conf s = Inr (conf', fst ?r)"
    by (simp add: dispatch_min_def Let_def case_prod_unfold)
  with \<open>event_queue_inv conf'\<close> \<open>eq_callbacks conf' = eq_callbacks conf\<close> that q(1,5) set show thesis
    by auto
qed

section \<open>The processing loop\<close>

lemma process_loop_bounded:
  assumes "event_queue_inv conf" "handlers_registered cb (eq_callbacks conf)"
    and "0 < max_events" "int (length done) \<le> max_events" "\<forall>e \<in> set done. he_key e \<le> now"
  shows "\<exists>conf' s' done'. process_loop cb max_events now conf s done = Some (Inr (conf', s', done'))
    \<and> event_queue_inv conf' \<and> int (length done') \<le> max_events
    \<and> (\<forall>e \<in> set done'. he_key e \<le> now)
    \<and> (int (length done') < max_events \<longrightarrow> (\<forall>e \<in> set (bh_elems (eq_queue conf')). now < he_key e))"
  using assms
proof (induction "nat (max_events - int (length done))" arbitrary: conf s "done" rule: less_induct)
  case less
  note eq = process_loop.simps [of cb max_events now conf s "done"]
  show ?case
  proof (cases "zbx_binary_heap_empty (eq_queue conf) = FAIL \<and> int (length done) < max_events")
    case True
    obtain ev where ev: "zbx_binary_heap_find_min (eq_queue conf) = Inr ev"
      "\<forall>x \<in> set (bh_elems (eq_queue conf)). he_key ev \<le> he_key x"
      "\<exists>conf' s'. dispatch_min cb ev conf s = Inr (conf', s') \<and> event_queue_inv conf'
         \<and> eq_callbacks conf' = eq_callbacks conf"
      using dispatch_ok [OF less.prems(1,2) conjunct1 [OF True]] by metis
    show ?thesis
    proof (cases "he_key ev > now")
      case later: True
      with ev(2) have "\<forall>e \<in> set (bh_elems (eq_queue conf)). now < he_key e" by fastforce
      with less.prems later True ev(1) show ?thesis by (simp add: eq)
    next
      case due: False
      obtain conf' s' where d: "dispatch_min cb ev conf s = Inr (conf', s')" "event_queue_inv conf'"
        "eq_callbacks conf' = eq_callbacks conf" using ev(3) by blast
      have "process_loop cb max_events now conf s done = process_loop cb max_events now conf' s' (done @ [ev])"
        using True due d(1) ev(1) by (simp add: eq)
      with less.hyps [of "done @ [ev]" conf' s'] less.prems d due True show ?thesis by auto
    qed
  next
    case False
    then have st: "process_loop cb max_events now conf s done = Some (Inr (conf, s, done))"
      using less.prems(3) by (auto simp: eq)
    have "bh_elems (eq_queue conf) = []" if "int (length done) < max_events"
      using False that by (auto simp: zbx_binary_heap_empty_def split: if_splits)
    with st less.prems show ?thesis by auto
  qed
qed

text \<open>
  C5.  With a positive \<open>max_events\<close> and handlers that only place events with a registered callback,
  \<open>event_queue_process_events\<close> returns whatever the handlers place: it dispatches at most
  \<open>max_events\<close> events, only due ones, and if it stops before the limit no due event is left in the
  queue.
\<close>

theorem event_queue_process_events_bounded:
  assumes "event_queue_inv conf" "handlers_registered cb (eq_callbacks conf)" "0 < max_events"
  shows "\<exists>conf' s' done. event_queue_process_events cb now conf max_events s = Some (Inr (conf', s', done))
    \<and> event_queue_inv conf' \<and> int (length done) \<le> max_events
    \<and> (\<forall>e \<in> set done. he_key e \<le> now)
    \<and> (int (length done) < max_events \<longrightarrow> (\<forall>e \<in> set (bh_elems (eq_queue conf')). now < he_key e))"
  unfolding event_queue_process_events_def using assms by (intro process_loop_bounded) auto

theorem event_queue_process_events_bounded_witness:
  "\<exists>conf' s' done. event_queue_process_events (\<lambda>h t i d s. (s, [(5, 0, 0)])) 10
      (event_queue_init False (\<lambda>_. Some ())) 3 () = Some (Inr (conf', s', done)) \<and> length done \<le> 3"
proof -
  let ?conf = "event_queue_init False (\<lambda>_. Some ())"
  have "handlers_registered (\<lambda>h t i d s. (s, [(5, 0, 0)])) (eq_callbacks ?conf)"
    by (simp add: handlers_registered_def event_queue_init_def)
  from event_queue_process_events_bounded [OF event_queue_init_inv this, of 3 10 "()"]
  show ?thesis by auto
qed

lemma process_loop_drains:
  assumes "event_queue_inv conf" "\<And>h t i d s. snd (cb h t i d s) = []"
    and "sorted (map he_key done)"
    and "\<forall>d \<in> set done. \<forall>e \<in> set (bh_elems (eq_queue conf)). he_key d \<le> he_key e"
  shows "\<exists>conf' s' evs. process_loop cb 0 now conf s done = Some (Inr (conf', s', done @ evs))
    \<and> sorted (map he_key (done @ evs))
    \<and> mset evs = {#e \<in># mset (bh_elems (eq_queue conf)). he_key e \<le> now#}
    \<and> mset (bh_elems (eq_queue conf')) = {#e \<in># mset (bh_elems (eq_queue conf)). now < he_key e#}"
  using assms
proof (induction "bh_elems_num (eq_queue conf)" arbitrary: conf s "done" rule: less_induct)
  case less
  note eq = process_loop.simps [of cb 0 now conf s "done"]
  show ?case
  proof (cases "zbx_binary_heap_empty (eq_queue conf) = FAIL")
    case False
    then have "bh_elems (eq_queue conf) = []" by (auto simp: zbx_binary_heap_empty_def split: if_splits)
    with False less.prems(3) show ?thesis by (simp add: eq)
  next
    case True
    obtain ev q where q: "zbx_binary_heap_find_min (eq_queue conf) = Inr ev"
      "zbx_binary_heap_remove_min (eq_queue conf) = Inr q" "event_heap_inv q"
      "mset (bh_elems (eq_queue conf)) = add_mset ev (mset (bh_elems q))"
      "\<And>x. x \<in># mset (bh_elems (eq_queue conf)) \<Longrightarrow> he_key ev \<le> he_key x"
      using timer.pop [OF _ True] less.prems(1) unfolding event_queue_inv_def by metis
    have set: "set (bh_elems (eq_queue conf)) = insert ev (set (bh_elems q))"
      using arg_cong [OF q(4), of set_mset] by simp
    show ?thesis
    proof (cases "he_key ev > now")
      case later: True
      then have "\<forall>e \<in> set (bh_elems (eq_queue conf)). now < he_key e" using q(5) by fastforce
      then have "{#e \<in># mset (bh_elems (eq_queue conf)). he_key e \<le> now#} = {#}"
        "{#e \<in># mset (bh_elems (eq_queue conf)). now < he_key e#} = mset (bh_elems (eq_queue conf))"
        by (auto simp: filter_mset_eq_conv)
      with True later q(1) less.prems(3) show ?thesis by (simp add: eq)
    next
      case due: False
      define conf1 where "conf1 = conf\<lparr>eq_queue := q\<rparr>"
      let ?i = "ucast (he_local_data ev) :: u8"
      obtain h where h: "eq_callbacks conf ?i = Some h"
        using less.prems(1) set by (auto simp: event_queue_inv_def)
      define s1 where "s1 = fst (cb h (he_key ev) ?i (he_data ev) s)"
      have "dispatch_min cb ev conf s = Inr (conf1, s1)"
        using h q(2) less.prems(2) by (simp add: dispatch_min_def Let_def case_prod_unfold conf1_def s1_def)
      then have step: "process_loop cb 0 now conf s done = process_loop cb 0 now conf1 s1 (done @ [ev])"
        using True due q(1) by (simp add: eq)
      have inv1: "event_queue_inv conf1"
        using less.prems(1) q(3) set by (auto simp: event_queue_inv_def conf1_def)
      have n: "bh_elems_num (eq_queue conf1) < bh_elems_num (eq_queue conf)"
        using arg_cong [OF q(4), of size] by (simp add: conf1_def)
      have srt: "sorted (map he_key (done @ [ev]))"
        using less.prems(3,4) set by (auto simp: sorted_append)
      have ub: "\<forall>d \<in> set (done @ [ev]). \<forall>e \<in> set (bh_elems (eq_queue conf1)). he_key d \<le> he_key e"
        using less.prems(4) q(5) set by (auto simp: conf1_def)
      from less.hyps [OF n inv1 less.prems(2) srt ub, of s1]
      obtain conf' s' evs where r: "process_loop cb 0 now conf1 s1 (done @ [ev]) = Some (Inr (conf', s', (done @ [ev]) @ evs))"
        "sorted (map he_key ((done @ [ev]) @ evs))"
        "mset evs = {#e \<in># mset (bh_elems (eq_queue conf1)). he_key e \<le> now#}"
        "mset (bh_elems (eq_queue conf')) = {#e \<in># mset (bh_elems (eq_queue conf1)). now < he_key e#}"
        by blast
      have "mset (ev # evs) = {#e \<in># mset (bh_elems (eq_queue conf)). he_key e \<le> now#}"
        "mset (bh_elems (eq_queue conf')) = {#e \<in># mset (bh_elems (eq_queue conf)). now < he_key e#}"
        using r(3,4) due by (simp_all add: q(4) conf1_def)
      moreover have "process_loop cb 0 now conf s done = Some (Inr (conf', s', done @ ev # evs))"
        using step r(1) by simp
      moreover have "sorted (map he_key (done @ ev # evs))" using r(2) by simp
      ultimately show ?thesis by blast
    qed
  qed
qed

text \<open>
  C39.  With \<open>max_events = 0\<close> and handlers that place no events, \<open>event_queue_process_events\<close> returns
  after it dispatched exactly the due events, in order of their time, and leaves exactly the
  later ones in the queue.
\<close>

theorem event_queue_process_events_drains:
  assumes "event_queue_inv conf" "\<And>h t i d s. snd (cb h t i d s) = []"
  shows "\<exists>conf' s' done. event_queue_process_events cb now conf 0 s = Some (Inr (conf', s', done))
    \<and> sorted (map he_key done)
    \<and> mset done = {#e \<in># mset (bh_elems (eq_queue conf)). he_key e \<le> now#}
    \<and> mset (bh_elems (eq_queue conf')) = {#e \<in># mset (bh_elems (eq_queue conf)). now < he_key e#}"
  using process_loop_drains [OF assms, of "[]"] by (simp add: event_queue_process_events_def)

theorem event_queue_process_events_drains_witness:
  "\<exists>conf'. event_queue_add_event (event_queue_init False (\<lambda>_. Some ())) 5 1 9 = Inr conf'
     \<and> (\<exists>conf'' done. event_queue_process_events (\<lambda>h t i d s. (s, [])) 10 conf' 0 () = Some (Inr (conf'', (), done))
         \<and> length done = 1)"
proof -
  let ?conf = "event_queue_init False (\<lambda>_. Some ())"
  let ?e = "\<lparr>he_key = 5, he_data = 9, he_local_data = 1\<rparr> :: heap_elem"
  have cb: "eq_callbacks ?conf 1 \<noteq> None" by (simp add: event_queue_init_def)
  obtain conf' where c: "event_queue_add_event ?conf 5 1 9 = Inr conf'" "event_queue_inv conf'"
    "mset (bh_elems (eq_queue conf')) =
       add_mset \<lparr>he_key = 5, he_data = 9, he_local_data = ucast (1 :: u8)\<rparr> (mset (bh_elems (eq_queue ?conf)))"
    by (rule add_event_ok [OF event_queue_init_inv cb, of 5 9]) blast
  have "mset (bh_elems (eq_queue conf')) = {#?e#}"
    using c(3) bh_create(2) [OF event_queue_compare_order] by (simp add: event_queue_init_def)
  then have due: "{#e \<in># mset (bh_elems (eq_queue conf')). he_key e \<le> 10#} = {#?e#}" by simp
  from event_queue_process_events_drains [OF c(2), of "\<lambda>h t i d s. (s, [])" 10 "()"]
  obtain conf'' s' "done" where r: "event_queue_process_events (\<lambda>h t i d s. (s, [])) 10 conf' 0 () = Some (Inr (conf'', s', done))"
    "mset done = {#?e#}" by (auto simp: due)
  moreover have "length done = 1" using arg_cong [OF r(2), of size] by simp
  ultimately show ?thesis using c(1) by auto
qed

end
