(* ===== verification/Hashset.thy ===== *)
theory Hashset
  imports AlgoDefs
begin

text \<open>
  \<open>src/libs/zbxalgo/hashset.c\<close>: the chained hash table under the configuration cache, the value
  and state caches, the string pools and the element hashes.

  A slot is the list of the entries of its chain.  An entry carries its address (the identity that
  \<open>zbx_hashset_remove_direct\<close> and the iterators compare), the stored hash and the data.  The memory
  functions are the environment's: \<open>hm_slots_ok\<close> says whether the (re)allocation of the slot array
  succeeds and \<open>hm_entry\<close> is the address of the new entry, \<open>None\<close> for NULL.  \<open>hs_freed\<close> is the log of
  the entries handed to \<open>clean_func\<close> and \<open>mem_free_func\<close>, in order.

  A slot array that is NULL is the empty list; reading a slot of it is \<open>NullDeref\<close>.
\<close>

section \<open>State\<close>

record 'd hs_entry =
  hse_addr :: nat
  hse_hash :: zbx_hash_t
  hse_data :: 'd

record 'd zbx_hashset =
  hs_slots :: "'d hs_entry list list"
  hs_num_slots :: nat
  hs_num_data :: int
  hs_hash_func :: "'d \<Rightarrow> zbx_hash_t"
  hs_compare_func :: "'d \<Rightarrow> 'd \<Rightarrow> int"
  hs_freed :: "'d hs_entry list"

record hs_mem =
  mem_slots_ok :: bool
  mem_entry :: "nat option"

section \<open>Operations\<close>

definition hashset_free_entry :: "'d hs_entry \<Rightarrow> 'd zbx_hashset \<Rightarrow> 'd zbx_hashset" where
  "hashset_free_entry entry hs = hs\<lparr>hs_freed := hs_freed hs @ [entry]\<rparr>"

definition zbx_hashset_init_slots :: "bool \<Rightarrow> 'd zbx_hashset \<Rightarrow> nat \<Rightarrow> 'd zbx_hashset \<times> int" where
  "zbx_hashset_init_slots ok hs init_size =
     (let hs = hs\<lparr>hs_num_data := 0\<rparr> in
      if 0 < init_size then
        (let hs = hs\<lparr>hs_num_slots := nat (next_prime (int init_size))\<rparr> in
         if \<not> ok then (hs\<lparr>hs_slots := []\<rparr>, FAIL)
         else (hs\<lparr>hs_slots := replicate (hs_num_slots hs) []\<rparr>, SUCCEED))
      else (hs\<lparr>hs_num_slots := 0, hs_slots := []\<rparr>, SUCCEED))"

definition zbx_hashset_create_ext ::
  "bool \<Rightarrow> nat \<Rightarrow> ('d \<Rightarrow> zbx_hash_t) \<Rightarrow> ('d \<Rightarrow> 'd \<Rightarrow> int) \<Rightarrow> 'd zbx_hashset" where
  "zbx_hashset_create_ext ok init_size hash_func compare_func =
     fst (zbx_hashset_init_slots ok
       \<lparr>hs_slots = [], hs_num_slots = 0, hs_num_data = 0, hs_hash_func = hash_func,
        hs_compare_func = compare_func, hs_freed = []\<rparr> init_size)"

definition zbx_hashset_create ::
  "nat \<Rightarrow> ('d \<Rightarrow> zbx_hash_t) \<Rightarrow> ('d \<Rightarrow> 'd \<Rightarrow> int) \<Rightarrow> 'd zbx_hashset" where
  "zbx_hashset_create init_size hash_func compare_func =
     zbx_hashset_create_ext True init_size hash_func compare_func"

text \<open>The function pointers that \<open>destroy\<close> clears are left: the structure is dead afterwards.\<close>

definition zbx_hashset_destroy :: "'d zbx_hashset \<Rightarrow> 'd zbx_hashset" where
  "zbx_hashset_destroy hs =
     (let hs = foldl (\<lambda>hs entry. hashset_free_entry entry hs) hs (concat (hs_slots hs))
      in hs\<lparr>hs_num_data := 0, hs_num_slots := 0, hs_slots := []\<rparr>)"

text \<open>
  The rehash: one chain is walked (\<open>kept\<close> is the part that stays), every entry whose new slot
  differs becomes the head of that slot's chain.
\<close>

fun rehash_chain ::
  "nat \<Rightarrow> nat \<Rightarrow> 'd hs_entry list \<Rightarrow> 'd hs_entry list \<Rightarrow> 'd hs_entry list list \<Rightarrow> 'd hs_entry list list" where
  "rehash_chain inc_slots slot [] kept slots = slots[slot := kept]"
| "rehash_chain inc_slots slot (cur # rest) kept slots =
     (let new_slot = unat (hse_hash cur) mod inc_slots in
      if slot \<noteq> new_slot
      then rehash_chain inc_slots slot rest kept (slots[new_slot := cur # slots ! new_slot])
      else rehash_chain inc_slots slot rest (kept @ [cur]) slots)"

fun rehash_all :: "nat \<Rightarrow> nat list \<Rightarrow> 'd hs_entry list list \<Rightarrow> 'd hs_entry list list" where
  "rehash_all inc_slots [] slots = slots"
| "rehash_all inc_slots (slot # ss) slots =
     rehash_all inc_slots ss (rehash_chain inc_slots slot (slots ! slot) [] slots)"

text \<open>
  \<open>CRIT_LOAD_FACTOR\<close> is the text \<open>4/5\<close>: \<open>num_slots * 4/5\<close> is \<open>(num_slots * 4) / 5\<close>, while
  \<open>2 - 4/5\<close> is 2 in integer arithmetic.
\<close>

definition zbx_hashset_reserve :: "bool \<Rightarrow> 'd zbx_hashset \<Rightarrow> int \<Rightarrow> 'd zbx_hashset \<times> int" where
  "zbx_hashset_reserve ok hs num_slots_req =
     (if hs_num_slots hs = 0 then
        zbx_hashset_init_slots ok hs (nat (max 10 (num_slots_req * (2 - 4 div 5) + 1)))
      else if num_slots_req \<ge> int (hs_num_slots hs * 4 div 5) then
        (let inc_slots = nat (next_prime (int (hs_num_slots hs * 3 div 2))) in
         if \<not> ok then (hs, FAIL)
         else
           (let slots = hs_slots hs @ replicate (inc_slots - hs_num_slots hs) [];
                slots = rehash_all inc_slots [0..<hs_num_slots hs] slots
            in (hs\<lparr>hs_slots := slots, hs_num_slots := inc_slots\<rparr>, SUCCEED)))
      else (hs, SUCCEED))"

definition hs_slot :: "'d zbx_hashset \<Rightarrow> zbx_hash_t \<Rightarrow> nat" where
  "hs_slot hs hash = unat hash mod hs_num_slots hs"

definition hs_chain :: "'d zbx_hashset \<Rightarrow> nat \<Rightarrow> 'd hs_entry list result" where
  "hs_chain hs slot = (if slot < length (hs_slots hs) then Inr (hs_slots hs ! slot) else Inl NullDeref)"

definition entry_matches :: "'d zbx_hashset \<Rightarrow> zbx_hash_t \<Rightarrow> 'd \<Rightarrow> 'd hs_entry \<Rightarrow> bool" where
  "entry_matches hs hash data entry \<longleftrightarrow>
     hse_hash entry = hash \<and> hs_compare_func hs (hse_data entry) data = 0"

text \<open>\<open>while (NULL != entry)\<close> over a chain: the first matching entry.\<close>

fun chain_find :: "('d hs_entry \<Rightarrow> bool) \<Rightarrow> 'd hs_entry list \<Rightarrow> 'd hs_entry option" where
  "chain_find P [] = None"
| "chain_find P (e # es) = (if P e then Some e else chain_find P es)"

text \<open>
  \<open>zbx_hashset_insert_ext\<close>; \<open>cpy\<close> is the \<open>memcpy\<close> of the data without its first \<open>offset\<close> bytes into
  the new entry.  The result is the entry whose data pointer is returned, \<open>None\<close> for NULL.
\<close>

definition zbx_hashset_insert_ext ::
  "hs_mem \<Rightarrow> ('d \<Rightarrow> 'd) \<Rightarrow> 'd zbx_hashset \<Rightarrow> 'd \<Rightarrow> ('d zbx_hashset \<times> 'd hs_entry option) result" where
  "zbx_hashset_insert_ext mem cpy hs data =
     (let (hs, ret) = (if hs_num_slots hs = 0 then zbx_hashset_init_slots (mem_slots_ok mem) hs 10
                       else (hs, SUCCEED))
      in if ret \<noteq> SUCCEED then Inr (hs, None)
         else
           (let hash = hs_hash_func hs data in
            bind_result (hs_chain hs (hs_slot hs hash)) (\<lambda>chain.
              case chain_find (entry_matches hs hash data) chain of
                Some entry \<Rightarrow> Inr (hs, Some entry)
              | None \<Rightarrow>
                  (let (hs, ret) = zbx_hashset_reserve (mem_slots_ok mem) hs (hs_num_data hs + 1)
                   in if ret \<noteq> SUCCEED then Inr (hs, None)
                      else
                        (let slot = hs_slot hs hash in
                         case mem_entry mem of
                           None \<Rightarrow> Inr (hs, None)
                         | Some addr \<Rightarrow>
                             (let entry = \<lparr>hse_addr = addr, hse_hash = hash, hse_data = cpy data\<rparr>
                              in bind_result (hs_chain hs slot) (\<lambda>chain.
                                   Inr (hs\<lparr>hs_slots := (hs_slots hs)[slot := entry # chain],
                                           hs_num_data := hs_num_data hs + 1\<rparr>, Some entry))))))))"

definition zbx_hashset_insert ::
  "hs_mem \<Rightarrow> 'd zbx_hashset \<Rightarrow> 'd \<Rightarrow> ('d zbx_hashset \<times> 'd hs_entry option) result" where
  "zbx_hashset_insert mem hs data = zbx_hashset_insert_ext mem id hs data"

definition zbx_hashset_search :: "'d zbx_hashset \<Rightarrow> 'd \<Rightarrow> 'd hs_entry option result" where
  "zbx_hashset_search hs data =
     (if hs_num_slots hs = 0 then Inr None
      else
        (let hash = hs_hash_func hs data in
         bind_result (hs_chain hs (hs_slot hs hash)) (\<lambda>chain.
           Inr (chain_find (entry_matches hs hash data) chain))))"

text \<open>Unlinking the first entry of a chain with \<open>P\<close>.\<close>

fun chain_unlink :: "('d hs_entry \<Rightarrow> bool) \<Rightarrow> 'd hs_entry list \<Rightarrow> 'd hs_entry list" where
  "chain_unlink P [] = []"
| "chain_unlink P (e # es) = (if P e then es else e # chain_unlink P es)"

definition hs_unlink :: "('d hs_entry \<Rightarrow> bool) \<Rightarrow> nat \<Rightarrow> 'd zbx_hashset \<Rightarrow> 'd zbx_hashset result" where
  "hs_unlink P slot hs =
     bind_result (hs_chain hs slot) (\<lambda>chain.
       case chain_find P chain of
         None \<Rightarrow> Inr hs
       | Some entry \<Rightarrow>
           Inr ((hashset_free_entry entry (hs\<lparr>hs_slots := (hs_slots hs)[slot := chain_unlink P chain]\<rparr>))
                \<lparr>hs_num_data := hs_num_data hs - 1\<rparr>))"

definition zbx_hashset_remove :: "'d zbx_hashset \<Rightarrow> 'd \<Rightarrow> 'd zbx_hashset result" where
  "zbx_hashset_remove hs data =
     (if hs_num_slots hs = 0 then Inr hs
      else
        (let hash = hs_hash_func hs data
         in hs_unlink (entry_matches hs hash data) (hs_slot hs hash) hs))"

text \<open>\<open>data_entry\<close> is the entry in front of the data pointer the caller holds.\<close>

definition zbx_hashset_remove_direct :: "'d zbx_hashset \<Rightarrow> 'd hs_entry \<Rightarrow> 'd zbx_hashset result" where
  "zbx_hashset_remove_direct hs data_entry =
     (if hs_num_slots hs = 0 then Inr hs
      else hs_unlink (\<lambda>e. hse_addr e = hse_addr data_entry) (hs_slot hs (hse_hash data_entry)) hs)"

definition zbx_hashset_clear :: "'d zbx_hashset \<Rightarrow> 'd zbx_hashset" where
  "zbx_hashset_clear hs =
     (let hs = foldl (\<lambda>hs entry. hashset_free_entry entry hs) hs (concat (hs_slots hs))
      in hs\<lparr>hs_slots := map (\<lambda>_. []) (hs_slots hs), hs_num_data := 0\<rparr>)"

text \<open>\<open>zbx_hashset_copy\<close> with the addresses of the new entries given by the allocator, in order.\<close>

fun copy_chain :: "nat list \<Rightarrow> 'd hs_entry list \<Rightarrow> nat list \<times> 'd hs_entry list" where
  "copy_chain addrs [] = (addrs, [])"
| "copy_chain addrs (e # es) =
     (let (addrs', es') = copy_chain (tl addrs) es in (addrs', e\<lparr>hse_addr := hd addrs\<rparr> # es'))"

fun copy_slots :: "nat list \<Rightarrow> 'd hs_entry list list \<Rightarrow> 'd hs_entry list list" where
  "copy_slots addrs [] = []"
| "copy_slots addrs (chain # slots) =
     (let (addrs', chain') = copy_chain addrs chain in chain' # copy_slots addrs' slots)"

definition zbx_hashset_copy :: "nat list \<Rightarrow> 'd zbx_hashset \<Rightarrow> 'd zbx_hashset" where
  "zbx_hashset_copy addrs src = src\<lparr>hs_slots := copy_slots addrs (hs_slots src), hs_freed := []\<rparr>"

section \<open>Iterators\<close>

text \<open>\<open>ITER_START\<close> is -1, \<open>ITER_FINISH\<close> is -2; \<open>it_entry\<close> is the entry pointer, \<open>None\<close> for NULL.\<close>

record hs_iter =
  it_slot :: int
  it_entry :: "nat option"

definition zbx_hashset_iter_reset :: "hs_iter \<Rightarrow> hs_iter" where
  "zbx_hashset_iter_reset iter = iter\<lparr>it_slot := -1\<rparr>"

text \<open>\<open>entry->next\<close> of the entry with address \<open>a\<close> in its chain.\<close>

fun next_in_chain :: "nat \<Rightarrow> 'd hs_entry list \<Rightarrow> 'd hs_entry option" where
  "next_in_chain a [] = None"
| "next_in_chain a (e # es) =
     (if hse_addr e = a then (case es of [] \<Rightarrow> None | e' # _ \<Rightarrow> Some e') else next_in_chain a es)"

text \<open>The \<open>while (1)\<close> loop that looks for the next slot with a chain.\<close>

function iter_next_slot :: "'d zbx_hashset \<Rightarrow> hs_iter \<Rightarrow> hs_iter \<times> 'd hs_entry option" where
  "iter_next_slot hs iter =
     (let iter = iter\<lparr>it_slot := it_slot iter + 1\<rparr> in
      if it_slot iter \<ge> int (hs_num_slots hs) then (iter\<lparr>it_slot := -2\<rparr>, None)
      else case hs_slots hs ! nat (it_slot iter) of
             [] \<Rightarrow> iter_next_slot hs iter
           | e # _ \<Rightarrow> (iter\<lparr>it_entry := Some (hse_addr e)\<rparr>, Some e))"
  by pat_completeness auto
termination
  by (relation "measure (\<lambda>(hs, iter). nat (int (hs_num_slots hs) - it_slot iter))") auto

declare iter_next_slot.simps [simp del]

definition zbx_hashset_iter_next :: "'d zbx_hashset \<Rightarrow> hs_iter \<Rightarrow> hs_iter \<times> 'd hs_entry option" where
  "zbx_hashset_iter_next hs iter =
     (if it_slot iter = -2 then (iter, None)
      else case (if it_slot iter = -1 then None
                 else case it_entry iter of
                        None \<Rightarrow> None
                      | Some a \<Rightarrow> next_in_chain a (hs_slots hs ! nat (it_slot iter))) of
             Some e \<Rightarrow> (iter\<lparr>it_entry := Some (hse_addr e)\<rparr>, Some e)
           | None \<Rightarrow> iter_next_slot hs iter)"

text \<open>The predecessor in the chain, for \<open>while (prev_entry->next != iter->entry)\<close>.\<close>

fun prev_in_chain :: "nat \<Rightarrow> 'd hs_entry list \<Rightarrow> 'd hs_entry option" where
  "prev_in_chain a (e # e' # es) = (if hse_addr e' = a then Some e else prev_in_chain a (e' # es))"
| "prev_in_chain a _ = None"

definition zbx_hashset_iter_remove ::
  "'d zbx_hashset \<Rightarrow> hs_iter \<Rightarrow> ('d zbx_hashset \<times> hs_iter) result" where
  "zbx_hashset_iter_remove hs iter =
     (case it_entry iter of
        None \<Rightarrow> Inl ExitFailure
      | Some a \<Rightarrow>
          (if it_slot iter = -1 \<or> it_slot iter = -2 then Inl ExitFailure
           else
             bind_result (hs_chain hs (nat (it_slot iter))) (\<lambda>chain.
               bind_result (hs_unlink (\<lambda>e. hse_addr e = a) (nat (it_slot iter)) hs) (\<lambda>hs'.
                 case chain of
                   [] \<Rightarrow> Inl NullDeref
                 | first # _ \<Rightarrow>
                     (if hse_addr first = a
                      then Inr (hs', iter\<lparr>it_slot := it_slot iter - 1, it_entry := None\<rparr>)
                      else case prev_in_chain a chain of
                             None \<Rightarrow> Inl NullDeref
                           | Some prev \<Rightarrow> Inr (hs', iter\<lparr>it_entry := Some (hse_addr prev)\<rparr>))))))"

section \<open>Invariant and abstraction\<close>

text \<open>
  What a hashset's hash and comparison functions must agree on: they compare some key of the data,
  and equal keys hash alike.
\<close>

locale keyed =
  fixes hash :: "'d \<Rightarrow> zbx_hash_t" and cmp :: "'d \<Rightarrow> 'd \<Rightarrow> int" and key :: "'d \<Rightarrow> 'k"
  assumes cmp_key: "cmp x y = 0 \<longleftrightarrow> key x = key y"
    and hash_key: "key x = key y \<Longrightarrow> hash x = hash y"

abbreviation hs_all :: "'d zbx_hashset \<Rightarrow> 'd hs_entry list" where
  "hs_all hs \<equiv> concat (hs_slots hs)"

definition hs_placed :: "'d hs_entry list list \<Rightarrow> (nat \<Rightarrow> bool) \<Rightarrow> bool" where
  "hs_placed slots done \<longleftrightarrow>
     (\<forall>s < length slots. done s \<longrightarrow> (\<forall>e \<in> set (slots ! s). unat (hse_hash e) mod length slots = s))"

definition hs_inv :: "('d \<Rightarrow> 'k) \<Rightarrow> 'd zbx_hashset \<Rightarrow> bool" where
  "hs_inv key hs \<longleftrightarrow>
     keyed (hs_hash_func hs) (hs_compare_func hs) key
     \<and> length (hs_slots hs) = hs_num_slots hs
     \<and> hs_placed (hs_slots hs) (\<lambda>_. True)
     \<and> (\<forall>e \<in> set (hs_all hs). hse_hash e = hs_hash_func hs (hse_data e))
     \<and> distinct (map (\<lambda>e. key (hse_data e)) (hs_all hs))
     \<and> distinct (map hse_addr (hs_all hs))
     \<and> hs_num_data hs = int (length (hs_all hs))"

definition hs_abs :: "('d \<Rightarrow> 'k) \<Rightarrow> 'd zbx_hashset \<Rightarrow> 'k \<rightharpoonup> 'd hs_entry" where
  "hs_abs key hs = map_of (map (\<lambda>e. (key (hse_data e), e)) (hs_all hs))"

declare set_concat [simp del]

lemma hs_abs_Some_iff:
  assumes "hs_inv key hs"
  shows "hs_abs key hs k = Some e \<longleftrightarrow> e \<in> set (hs_all hs) \<and> key (hse_data e) = k"
proof -
  have "distinct (map fst (map (\<lambda>e. (key (hse_data e), e)) (hs_all hs)))"
    using assms by (simp add: hs_inv_def comp_def)
  from map_of_eq_Some_iff [OF this] show ?thesis by (auto simp: hs_abs_def)
qed

lemma hs_abs_None_iff: "hs_abs key hs k = None \<longleftrightarrow> (\<forall>e \<in> set (hs_all hs). key (hse_data e) \<noteq> k)"
  by (auto simp: hs_abs_def map_of_eq_None_iff image_iff)

lemma chain_find_Some: "chain_find P es = Some e \<Longrightarrow> e \<in> set es \<and> P e"
  by (induction es) (auto split: if_splits)

lemma chain_find_None: "chain_find P es = None \<longleftrightarrow> (\<forall>e \<in> set es. \<not> P e)"
  by (induction es) auto

lemma mset_chain_unlink:
  "chain_find P es = Some e \<Longrightarrow> mset es = add_mset e (mset (chain_unlink P es))"
  by (induction es) (auto split: if_splits)

lemma set_chain_unlink: "set (chain_unlink P es) \<subseteq> set es"
  by (induction es) auto

lemma hs_slot_less: "0 < hs_num_slots hs \<Longrightarrow> hs_slot hs h < hs_num_slots hs"
  by (simp add: hs_slot_def)

lemma hs_in_chain:
  assumes "hs_inv key hs" "e \<in> set (hs_all hs)"
  shows "0 < hs_num_slots hs \<and> e \<in> set (hs_slots hs ! hs_slot hs (hse_hash e))"
proof -
  from assms(2) obtain s where s: "s < length (hs_slots hs)" "e \<in> set (hs_slots hs ! s)"
    by (auto simp: set_concat) (metis in_set_conv_nth)
  with assms(1) have "unat (hse_hash e) mod hs_num_slots hs = s"
    by (auto simp: hs_inv_def hs_placed_def)
  with s assms(1) show ?thesis by (auto simp: hs_slot_def hs_inv_def)
qed

lemma hs_chain_inv:
  assumes "hs_inv key hs" "0 < hs_num_slots hs"
  shows "hs_chain hs (hs_slot hs h) = Inr (hs_slots hs ! hs_slot hs h)"
  using assms hs_slot_less [of hs h] by (simp add: hs_chain_def hs_inv_def)

lemma hs_chain_find:
  assumes inv: "hs_inv key hs" and n: "0 < hs_num_slots hs"
  shows "chain_find (entry_matches hs (hs_hash_func hs d) d) (hs_slots hs ! hs_slot hs (hs_hash_func hs d))
    = hs_abs key hs (key d)"
proof -
  let ?h = "hs_hash_func hs d" and ?c = "hs_slots hs ! hs_slot hs (hs_hash_func hs d)"
  have K: "keyed (hs_hash_func hs) (hs_compare_func hs) key" using inv by (simp add: hs_inv_def)
  have s: "hs_slot hs ?h < length (hs_slots hs)" using inv hs_slot_less [OF n] by (simp add: hs_inv_def)
  have mem: "e \<in> set (hs_all hs)" if "e \<in> set ?c" for e using that s by (auto simp: set_concat)
  have M: "entry_matches hs ?h d e \<longleftrightarrow> key (hse_data e) = key d" if "e \<in> set (hs_all hs)" for e
  proof -
    have "hse_hash e = hs_hash_func hs (hse_data e)" using inv that unfolding hs_inv_def by blast
    then show ?thesis
      using keyed.cmp_key [OF K, of "hse_data e" d] keyed.hash_key [OF K, of "hse_data e" d]
      by (auto simp: entry_matches_def)
  qed
  show ?thesis
  proof (cases "chain_find (entry_matches hs ?h d) ?c")
    case (Some e)
    then have "e \<in> set ?c" "entry_matches hs ?h d e" by (auto dest: chain_find_Some)
    with mem M have "hs_abs key hs (key d) = Some e" by (auto simp: hs_abs_Some_iff [OF inv])
    with Some show ?thesis by simp
  next
    case None
    have "hs_abs key hs (key d) = None"
      unfolding hs_abs_None_iff
    proof (intro ballI notI)
      fix e
      assume e: "e \<in> set (hs_all hs)" "key (hse_data e) = key d"
      then have "hse_hash e = ?h" using inv keyed.hash_key [OF K e(2)] unfolding hs_inv_def by metis
      with hs_in_chain [OF inv e(1)] have "e \<in> set ?c" by simp
      with None M e show False by (auto simp: chain_find_None)
    qed
    with None show ?thesis by simp
  qed
qed

lemma hs_search_abs:
  assumes "hs_inv key hs"
  shows "zbx_hashset_search hs d = Inr (hs_abs key hs (key d))"
proof (cases "hs_num_slots hs = 0")
  case True
  with assms show ?thesis by (simp add: zbx_hashset_search_def hs_abs_def hs_inv_def)
next
  case False
  with assms show ?thesis
    by (simp add: zbx_hashset_search_def Let_def hs_chain_inv hs_chain_find)
qed

section \<open>Rehashing\<close>

lemma hs_placed_update:
  assumes "hs_placed slots done" "\<And>e. done t \<Longrightarrow> e \<in> set chain \<Longrightarrow> unat (hse_hash e) mod length slots = t"
  shows "hs_placed (slots[t := chain]) done"
  unfolding hs_placed_def
proof (intro allI impI ballI)
  fix s e
  assume s: "s < length (slots[t := chain])" "done s" "e \<in> set (slots[t := chain] ! s)"
  show "unat (hse_hash e) mod length (slots[t := chain]) = s"
  proof (cases "s = t")
    case True
    with s assms(2) show ?thesis by simp
  next
    case False
    with s assms(1) show ?thesis by (simp add: hs_placed_def)
  qed
qed

lemma hs_placed_cons:
  assumes "hs_placed slots done" "t < length slots" "unat (hse_hash e) mod length slots = t"
  shows "hs_placed (slots[t := e # slots ! t]) done"
  using assms(1)
proof (rule hs_placed_update)
  fix x
  assume "done t" "x \<in> set (e # slots ! t)"
  with assms show "unat (hse_hash x) mod length slots = t" unfolding hs_placed_def by auto
qed

lemma rehash_chain_spec:
  assumes "s < length slots" "n = length slots" "hs_placed slots done" "\<not> done s"
    and "\<forall>e \<in> set kept. unat (hse_hash e) mod n = s"
  shows "length (rehash_chain n s rest kept slots) = n
    \<and> hs_placed (rehash_chain n s rest kept slots) (\<lambda>j. j = s \<or> done j)
    \<and> mset (concat (rehash_chain n s rest kept slots)) = mset (concat (slots[s := []])) + mset kept + mset rest"
  using assms
proof (induction n s rest kept slots rule: rehash_chain.induct)
  case (1 n s kept slots)
  have "mset (concat (slots[s := kept])) = mset (concat (slots[s := []])) + mset kept"
    using mset_concat_update [of s "slots[s := []]" kept] "1.prems"(1) by simp
  with 1 show ?case by (auto simp: hs_placed_def nth_list_update)
next
  case (2 n s x rest kept slots)
  define t where "t = unat (hse_hash x) mod n"
  have t: "t < length slots" using "2.prems"(1,2) by (auto simp: t_def intro: mod_less_divisor)
  show ?case
  proof (cases "s = t")
    case True
    with "2.IH"(2) [OF t_def] "2.prems" show ?thesis by (auto simp: t_def Let_def)
  next
    case False
    let ?sl = "slots[t := x # slots ! t]"
    have pl: "hs_placed ?sl done" using hs_placed_cons [OF "2.prems"(3) t] "2.prems"(2) t_def by simp
    have "mset (concat (?sl[s := []])) = add_mset x (mset (concat (slots[s := []])))"
      using mset_concat_update [of t "slots[s := []]" "x # slots ! t"] False t
      by (simp add: list_update_swap)
    with "2.IH"(1) [OF t_def False] pl "2.prems" False show ?thesis by (simp add: t_def Let_def)
  qed
qed

lemma rehash_all_spec:
  assumes "distinct ss" "\<forall>s \<in> set ss. s < n \<and> \<not> done s" "n = length slots" "hs_placed slots done"
  shows "length (rehash_all n ss slots) = n
    \<and> hs_placed (rehash_all n ss slots) (\<lambda>j. j \<in> set ss \<or> done j)
    \<and> mset (concat (rehash_all n ss slots)) = mset (concat slots)"
  using assms
proof (induction ss arbitrary: "done" slots)
  case Nil
  then show ?case by simp
next
  case (Cons s ss)
  let ?sl = "rehash_chain n s (slots ! s) [] slots"
  have s: "s < length slots" using Cons.prems by simp
  have r: "length ?sl = n" "hs_placed ?sl (\<lambda>j. j = s \<or> done j)"
    "mset (concat ?sl) = mset (concat (slots[s := []])) + mset (slots ! s)"
    using rehash_chain_spec [OF s Cons.prems(3,4), of "[]" "slots ! s"] Cons.prems(2) by auto
  have "mset (concat ?sl) = mset (concat slots)"
    using r(3) mset_concat_update [OF s, of "[]"] by simp
  moreover have "length (rehash_all n ss ?sl) = n
    \<and> hs_placed (rehash_all n ss ?sl) (\<lambda>j. j \<in> set ss \<or> j = s \<or> done j)
    \<and> mset (concat (rehash_all n ss ?sl)) = mset (concat ?sl)"
    using Cons.prems(1,2) r by (intro Cons.IH) auto
  moreover have "(\<lambda>j. j \<in> set ss \<or> j = s \<or> done j) = (\<lambda>j. j \<in> set (s # ss) \<or> done j)" by auto
  ultimately show ?case by simp
qed

text \<open>A hashset whose slot array is replaced by a correctly placed one with the same entries.\<close>

lemma hs_inv_reslot:
  assumes "hs_inv key hs" "mset (concat slots) = mset (hs_all hs)" "hs_placed slots (\<lambda>_. True)"
  shows "hs_inv key (hs\<lparr>hs_slots := slots, hs_num_slots := length slots\<rparr>)"
    and "hs_abs key (hs\<lparr>hs_slots := slots, hs_num_slots := length slots\<rparr>) = hs_abs key hs"
proof -
  have st: "set (concat slots) = set (hs_all hs)" using assms(2) by (rule mset_eq_setD)
  have l: "length (concat slots) = length (hs_all hs)" using assms(2) by (rule mset_eq_length)
  have "mset (map (\<lambda>e. key (hse_data e)) (concat slots)) = mset (map (\<lambda>e. key (hse_data e)) (hs_all hs))"
    "mset (map hse_addr (concat slots)) = mset (map hse_addr (hs_all hs))"
    unfolding mset_map assms(2) by simp_all
  from this [THEN mset_eq_imp_distinct_iff]
  show "hs_inv key (hs\<lparr>hs_slots := slots, hs_num_slots := length slots\<rparr>)"
    using assms st l by (simp add: hs_inv_def)
  then show "hs_abs key (hs\<lparr>hs_slots := slots, hs_num_slots := length slots\<rparr>) = hs_abs key hs"
    using st by (intro ext option_eqI) (simp add: hs_abs_Some_iff assms(1))
qed

lemma hs_init_slots_inv:
  assumes "keyed (hs_hash_func hs) (hs_compare_func hs) key"
  shows "hs_inv key (fst (zbx_hashset_init_slots True hs n))"
    and "hs_abs key (fst (zbx_hashset_init_slots True hs n)) = Map.empty"
    and "snd (zbx_hashset_init_slots True hs n) = SUCCEED"
    and "hs_hash_func (fst (zbx_hashset_init_slots True hs n)) = hs_hash_func hs"
  using assms by (auto simp: zbx_hashset_init_slots_def Let_def hs_inv_def hs_placed_def hs_abs_def)

text \<open>What a client gets from a table that it creates with its own functions.\<close>

context keyed begin

lemma created:
  "hs_inv key (zbx_hashset_create_ext True n hash cmp)"
  "hs_abs key (zbx_hashset_create_ext True n hash cmp) = Map.empty"
  "hs_all (zbx_hashset_create_ext True n hash cmp) = []"
  using keyed_axioms by (simp_all add: zbx_hashset_create_ext_def hs_init_slots_inv zbx_hashset_init_slots_def Let_def
      hs_inv_def hs_placed_def hs_abs_def)

end

lemma hs_reserve_spec:
  assumes inv: "hs_inv key hs" and n: "0 < hs_num_slots hs"
  shows "hs_inv key (fst (zbx_hashset_reserve ok hs r))"
    and "hs_abs key (fst (zbx_hashset_reserve ok hs r)) = hs_abs key hs"
    and "0 < hs_num_slots (fst (zbx_hashset_reserve ok hs r))"
    and "hs_hash_func (fst (zbx_hashset_reserve ok hs r)) = hs_hash_func hs"
    and "hs_freed (fst (zbx_hashset_reserve ok hs r)) = hs_freed hs"
    and "ok \<Longrightarrow> snd (zbx_hashset_reserve ok hs r) = SUCCEED"
    and "set (hs_all (fst (zbx_hashset_reserve ok hs r))) = set (hs_all hs)"
proof -
  define m where "m = nat (next_prime (int (hs_num_slots hs * 3 div 2)))"
  define slots where "slots = hs_slots hs @ replicate (m - hs_num_slots hs) []"
  define slots' where "slots' = rehash_all m [0..<hs_num_slots hs] slots"
  have "int (hs_num_slots hs) \<le> int (hs_num_slots hs * 3 div 2)" by linarith
  then have m: "hs_num_slots hs \<le> m" unfolding m_def by (metis nat_int nat_next_prime_ge)
  have len: "m = length slots" using m inv by (simp add: slots_def hs_inv_def)
  have "hs_placed slots (\<lambda>j. hs_num_slots hs \<le> j)"
    using inv by (auto simp: hs_placed_def slots_def nth_append hs_inv_def)
  from rehash_all_spec [OF _ _ len this, of "[0..<hs_num_slots hs]"] m
  have r: "length slots' = m" "mset (concat slots') = mset (hs_all hs)"
    and pl: "hs_placed slots' (\<lambda>j. j \<in> set [0..<hs_num_slots hs] \<or> hs_num_slots hs \<le> j)"
    by (simp_all add: slots'_def slots_def)
  have "hs_placed slots' (\<lambda>_. True)" using pl by (auto simp: hs_placed_def)
  note g = hs_inv_reslot [OF inv r(2) this]
  have eq: "zbx_hashset_reserve ok hs r = (if r < int (hs_num_slots hs * 4 div 5) then (hs, SUCCEED)
      else if \<not> ok then (hs, FAIL)
      else (hs\<lparr>hs_slots := slots', hs_num_slots := length slots'\<rparr>, SUCCEED))"
    using n r(1) by (auto simp: zbx_hashset_reserve_def Let_def m_def slots_def slots'_def)
  have "0 < m" using m n by simp
  with g inv n r mset_eq_setD [OF r(2)] show "hs_inv key (fst (zbx_hashset_reserve ok hs r))"
    "hs_abs key (fst (zbx_hashset_reserve ok hs r)) = hs_abs key hs"
    "0 < hs_num_slots (fst (zbx_hashset_reserve ok hs r))"
    "hs_hash_func (fst (zbx_hashset_reserve ok hs r)) = hs_hash_func hs"
    "hs_freed (fst (zbx_hashset_reserve ok hs r)) = hs_freed hs"
    "set (hs_all (fst (zbx_hashset_reserve ok hs r))) = set (hs_all hs)"
    by (auto simp: eq)
  show "snd (zbx_hashset_reserve ok hs r) = SUCCEED" if "ok"
    unfolding eq using that by simp
qed

section \<open>Insertion and removal\<close>

lemma hs_inv_cons:
  assumes inv: "hs_inv key hs" and n: "0 < hs_num_slots hs"
    and e: "hse_hash e = hs_hash_func hs (hse_data e)" "hs_abs key hs (key (hse_data e)) = None"
      "\<forall>e' \<in> set (hs_all hs). hse_addr e' \<noteq> hse_addr e"
    and hs': "hs' = hs\<lparr>hs_slots := (hs_slots hs)[hs_slot hs (hse_hash e) := e # hs_slots hs ! hs_slot hs (hse_hash e)],
               hs_num_data := hs_num_data hs + 1\<rparr>"
  shows "hs_inv key hs'" and "hs_abs key hs' = (hs_abs key hs)(key (hse_data e) \<mapsto> e)"
    and "set (hs_all hs') = insert e (set (hs_all hs))"
proof -
  let ?s = "hs_slot hs (hse_hash e)"
  have s: "?s < length (hs_slots hs)" using inv hs_slot_less [OF n] by (simp add: hs_inv_def)
  have ms: "mset (hs_all hs') = mset (e # hs_all hs)"
    using mset_concat_update [OF s, of "e # hs_slots hs ! ?s"] by (simp add: hs')
  show st: "set (hs_all hs') = insert e (set (hs_all hs))" using mset_eq_setD [OF ms] by simp
  have "distinct (map (\<lambda>e. key (hse_data e)) (e # hs_all hs))" "distinct (map hse_addr (e # hs_all hs))"
    using inv e(2,3) unfolding hs_abs_None_iff hs_inv_def by auto
  moreover have "mset (map (\<lambda>e. key (hse_data e)) (hs_all hs')) = mset (map (\<lambda>e. key (hse_data e)) (e # hs_all hs))"
    "mset (map hse_addr (hs_all hs')) = mset (map hse_addr (e # hs_all hs))"
    unfolding mset_map ms by simp_all
  ultimately have d: "distinct (map (\<lambda>e. key (hse_data e)) (hs_all hs'))" "distinct (map hse_addr (hs_all hs'))"
    by (metis mset_eq_imp_distinct_iff)+
  have "hs_placed (hs_slots hs') (\<lambda>_. True)"
    using hs_placed_cons [of "hs_slots hs" "\<lambda>_. True" ?s e] inv s by (simp add: hs' hs_inv_def hs_slot_def)
  moreover have "hs_num_data hs' = int (length (hs_all hs'))"
    using mset_eq_length [OF ms] inv by (simp add: hs' hs_inv_def)
  moreover have "\<forall>x \<in> set (hs_all hs'). hse_hash x = hs_hash_func hs' (hse_data x)"
    unfolding st using inv e(1) by (auto simp: hs' hs_inv_def)
  moreover have "keyed (hs_hash_func hs') (hs_compare_func hs') key" "length (hs_slots hs') = hs_num_slots hs'"
    using inv by (simp_all add: hs' hs_inv_def)
  ultimately show I: "hs_inv key hs'" using d unfolding hs_inv_def by blast
  show "hs_abs key hs' = (hs_abs key hs)(key (hse_data e) \<mapsto> e)"
    using e(2) by (intro ext option_eqI) (auto simp: hs_abs_Some_iff [OF I] st hs_abs_Some_iff [OF inv] hs_abs_None_iff)
qed

lemma hs_inv_unlink:
  assumes inv: "hs_inv key hs" and s: "s < hs_num_slots hs"
    and f: "chain_find P (hs_slots hs ! s) = Some e"
    and r: "hs_unlink P s hs = Inr hs'"
  shows "hs_inv key hs'" and "hs_abs key hs' = (hs_abs key hs)(key (hse_data e) := None)"
    and "set (hs_all hs') = set (hs_all hs) - {e}" and "hs_freed hs' = hs_freed hs @ [e]"
    and "hs_hash_func hs' = hs_hash_func hs" and "hs_num_slots hs' = hs_num_slots hs"
proof -
  have sl: "s < length (hs_slots hs)" using s inv by (simp add: hs_inv_def)
  have hs': "hs' = (hashset_free_entry e (hs\<lparr>hs_slots := (hs_slots hs)[s := chain_unlink P (hs_slots hs ! s)]\<rparr>))
                \<lparr>hs_num_data := hs_num_data hs - 1\<rparr>"
    using r f sl by (simp add: hs_unlink_def hs_chain_def)
  have ms: "mset (e # hs_all hs') = mset (hs_all hs)"
    using mset_concat_update [OF sl, of "chain_unlink P (hs_slots hs ! s)"] mset_chain_unlink [OF f]
    by (simp add: hs' hashset_free_entry_def)
  have "mset (map (\<lambda>e. key (hse_data e)) (e # hs_all hs')) = mset (map (\<lambda>e. key (hse_data e)) (hs_all hs))"
    "mset (map hse_addr (e # hs_all hs')) = mset (map hse_addr (hs_all hs))"
    unfolding mset_map ms by simp_all
  then have d: "distinct (map (\<lambda>e. key (hse_data e)) (e # hs_all hs'))" "distinct (map hse_addr (e # hs_all hs'))"
    using inv by (metis mset_eq_imp_distinct_iff hs_inv_def)+
  have st0: "set (hs_all hs) = insert e (set (hs_all hs'))" using mset_eq_setD [OF ms] by simp
  have e': "e \<notin> set (hs_all hs')" using d(2) by auto
  with st0 show st: "set (hs_all hs') = set (hs_all hs) - {e}" by simp
  have "hs_placed ((hs_slots hs)[s := chain_unlink P (hs_slots hs ! s)]) (\<lambda>_. True)"
    using inv sl set_chain_unlink [of P "hs_slots hs ! s"]
    by (intro hs_placed_update) (auto simp: hs_inv_def hs_placed_def)
  then have "hs_placed (hs_slots hs') (\<lambda>_. True)" by (simp add: hs' hashset_free_entry_def)
  moreover have "hs_num_data hs' = int (length (hs_all hs'))"
    using mset_eq_length [OF ms] inv by (simp add: hs' hashset_free_entry_def hs_inv_def)
  moreover have "\<forall>x \<in> set (hs_all hs'). hse_hash x = hs_hash_func hs' (hse_data x)"
    unfolding st using inv by (auto simp: hs' hashset_free_entry_def hs_inv_def)
  moreover have "keyed (hs_hash_func hs') (hs_compare_func hs') key" "length (hs_slots hs') = hs_num_slots hs'"
    using inv by (simp_all add: hs' hs_inv_def hashset_free_entry_def)
  ultimately show I: "hs_inv key hs'" using d unfolding hs_inv_def by simp
  have kd: "key (hse_data x) \<noteq> key (hse_data e)" if "x \<in> set (hs_all hs')" for x
    using d(1) imageI [OF that, of "\<lambda>e. key (hse_data e)"] by auto
  show "hs_abs key hs' = (hs_abs key hs)(key (hse_data e) := None)"
    using kd by (intro ext option_eqI) (auto simp: hs_abs_Some_iff [OF I] hs_abs_Some_iff [OF inv] st0)
  show "hs_freed hs' = hs_freed hs @ [e]" "hs_hash_func hs' = hs_hash_func hs"
    "hs_num_slots hs' = hs_num_slots hs" by (simp_all add: hs' hashset_free_entry_def)
qed

lemma hs_first_slots:
  assumes inv: "hs_inv key hs" and ok: "ok \<or> 0 < hs_num_slots hs"
  obtains hs1 where
    "(if hs_num_slots hs = 0 then zbx_hashset_init_slots ok hs 10 else (hs, SUCCEED)) = (hs1, SUCCEED)"
    "hs_inv key hs1" "hs_abs key hs1 = hs_abs key hs" "0 < hs_num_slots hs1"
    "hs_hash_func hs1 = hs_hash_func hs" "set (hs_all hs1) = set (hs_all hs)" "hs_freed hs1 = hs_freed hs"
proof (cases "hs_num_slots hs = 0")
  case True
  with ok have [simp]: "ok = True" by simp
  let ?i = "zbx_hashset_init_slots True hs 10"
  have K: "keyed (hs_hash_func hs) (hs_compare_func hs) key" using inv by (simp add: hs_inv_def)
  note i = hs_init_slots_inv [OF K, of 10]
  have e: "hs_slots hs = []" using True inv by (simp add: hs_inv_def)
  have n: "0 < hs_num_slots (fst ?i)" "set (hs_all (fst ?i)) = {}" "hs_freed (fst ?i) = hs_freed hs"
    using nat_next_prime_pos [of 10] by (auto simp: zbx_hashset_init_slots_def Let_def)
  have a: "hs_abs key hs = Map.empty" using e by (simp add: hs_abs_def)
  have "(if hs_num_slots hs = 0 then zbx_hashset_init_slots ok hs 10 else (hs, SUCCEED)) = (fst ?i, SUCCEED)"
    using True i(3) by (simp add: prod_eq_iff)
  then show thesis by (rule that) (use i n e a in simp_all)
next
  case False
  then show thesis using inv by (intro that [of hs]) simp_all
qed

lemma hs_insert_ext_spec:
  assumes inv: "hs_inv key hs" and cpy: "key (cpy d) = key d"
    and ok: "mem_slots_ok mem \<or> 0 < hs_num_slots hs"
    and fresh: "\<And>a. mem_entry mem = Some a \<Longrightarrow> \<forall>e \<in> set (hs_all hs). hse_addr e \<noteq> a"
  obtains hs' r where "zbx_hashset_insert_ext mem cpy hs d = Inr (hs', r)" "hs_inv key hs'"
    "hs_hash_func hs' = hs_hash_func hs" "hs_freed hs' = hs_freed hs"
    "mem_slots_ok mem \<Longrightarrow> mem_entry mem \<noteq> None \<Longrightarrow> r \<noteq> None"
    "hs_abs key hs (key d) \<noteq> None \<Longrightarrow> r = hs_abs key hs (key d)"
    "hs_abs key hs (key d) = None \<Longrightarrow> r \<noteq> None \<Longrightarrow>
       r = Some \<lparr>hse_addr = the (mem_entry mem), hse_hash = hs_hash_func hs d, hse_data = cpy d\<rparr>"
    "hs_abs key hs' = (case r of None \<Rightarrow> hs_abs key hs | Some e \<Rightarrow> (hs_abs key hs)(key d \<mapsto> e))"
    "set (hs_all hs') = (case r of None \<Rightarrow> set (hs_all hs) | Some e \<Rightarrow> insert e (set (hs_all hs)))"
proof -
  obtain hs1 where i: "(if hs_num_slots hs = 0 then zbx_hashset_init_slots (mem_slots_ok mem) hs 10 else (hs, SUCCEED)) = (hs1, SUCCEED)"
    and I: "hs_inv key hs1" "hs_abs key hs1 = hs_abs key hs" "0 < hs_num_slots hs1"
      "hs_hash_func hs1 = hs_hash_func hs" "set (hs_all hs1) = set (hs_all hs)" "hs_freed hs1 = hs_freed hs"
    using hs_first_slots [OF inv ok] by metis
  have K: "keyed (hs_hash_func hs) (hs_compare_func hs) key" using inv by (simp add: hs_inv_def)
  let ?h = "hs_hash_func hs d"
  note c1 = hs_chain_inv [OF I(1,3), of ?h] and f1 = hs_chain_find [OF I(1,3), of d]
  define R where "R = zbx_hashset_reserve (mem_slots_ok mem) hs1 (hs_num_data hs1 + 1)"
  note rs = hs_reserve_spec [OF I(1,3), where ok = "mem_slots_ok mem" and r = "hs_num_data hs1 + 1", folded R_def]
  show thesis
  proof (cases "hs_abs key hs (key d)")
    case (Some e)
    then have "zbx_hashset_insert_ext mem cpy hs d = Inr (hs1, Some e)"
      using c1 f1 I by (simp add: zbx_hashset_insert_ext_def i Let_def)
    moreover have "insert e (set (hs_all hs)) = set (hs_all hs)"
      using Some hs_abs_Some_iff [OF inv] by (simp add: insert_absorb)
    ultimately show thesis
      using I Some by (intro that [of hs1 "Some e"]) (simp_all add: fun_upd_idem)
  next
    case None
    define e where "e = \<lparr>hse_addr = the (mem_entry mem), hse_hash = ?h, hse_data = cpy d\<rparr>"
    have E: "zbx_hashset_insert_ext mem cpy hs d =
        (if snd R \<noteq> SUCCEED \<or> mem_entry mem = None then Inr (fst R, None)
         else bind_result (hs_chain (fst R) (hs_slot (fst R) ?h)) (\<lambda>chain.
                Inr (fst R\<lparr>hs_slots := (hs_slots (fst R))[hs_slot (fst R) ?h := e # chain],
                           hs_num_data := hs_num_data (fst R) + 1\<rparr>, Some e)))"
      using None c1 f1 I
      by (auto simp: zbx_hashset_insert_ext_def i Let_def R_def [symmetric] e_def split: prod.splits option.splits)
    show thesis
    proof (cases "snd R \<noteq> SUCCEED \<or> mem_entry mem = None")
      case True
      show thesis
        by (rule that [of "fst R" None]) (use True None rs I E in auto)
    next
      case False
      let ?hs' = "fst R\<lparr>hs_slots := (hs_slots (fst R))[hs_slot (fst R) ?h := e # hs_slots (fst R) ! hs_slot (fst R) ?h],
                           hs_num_data := hs_num_data (fst R) + 1\<rparr>"
      have "zbx_hashset_insert_ext mem cpy hs d = Inr (?hs', Some e)"
        using E False hs_chain_inv [OF rs(1,3)] by simp
      moreover have "hse_hash e = hs_hash_func (fst R) (hse_data e)"
        using keyed.hash_key [OF K cpy] rs(4) I(4) by (simp add: e_def)
      moreover have "hs_abs key (fst R) (key (hse_data e)) = None" using None rs(2) I(2) cpy by (simp add: e_def)
      moreover have "\<forall>x \<in> set (hs_all (fst R)). hse_addr x \<noteq> hse_addr e"
        using False fresh rs(7) I(5) by (auto simp: e_def)
      ultimately show thesis
        using hs_inv_cons [OF rs(1,3), of e ?hs'] rs I cpy None
        by (intro that [of ?hs' "Some e"]) (simp_all add: e_def)
    qed
  qed
qed

lemma hs_remove_spec:
  assumes inv: "hs_inv key hs"
  obtains hs' where "zbx_hashset_remove hs d = Inr hs'" "hs_inv key hs'"
    "hs_abs key hs' = (hs_abs key hs)(key d := None)" "hs_hash_func hs' = hs_hash_func hs"
    "hs_freed hs' = hs_freed hs @ (case hs_abs key hs (key d) of None \<Rightarrow> [] | Some e \<Rightarrow> [e])"
    "set (hs_all hs') \<subseteq> set (hs_all hs)"
proof (cases "hs_num_slots hs = 0")
  case True
  then have "hs_abs key hs = Map.empty" using inv by (simp add: hs_inv_def hs_abs_def)
  with True inv show thesis by (intro that [of hs]) (simp_all add: zbx_hashset_remove_def)
next
  case False
  then have n: "0 < hs_num_slots hs" by simp
  let ?s = "hs_slot hs (hs_hash_func hs d)" and ?P = "entry_matches hs (hs_hash_func hs d) d"
  have u: "zbx_hashset_remove hs d = hs_unlink ?P ?s hs" using n by (simp add: zbx_hashset_remove_def Let_def)
  note f = hs_chain_find [OF inv n, of d]
  show thesis
  proof (cases "hs_abs key hs (key d)")
    case None
    with f inv n show thesis
      by (intro that [of hs]) (simp_all add: u hs_unlink_def hs_chain_inv fun_upd_idem)
  next
    case (Some e)
    then obtain hs' where r: "hs_unlink ?P ?s hs = Inr hs'"
      using f hs_chain_inv [OF inv n] by (simp add: hs_unlink_def)
    from Some have "key (hse_data e) = key d" using hs_abs_Some_iff [OF inv] by simp
    moreover from Some f have "chain_find ?P (hs_slots hs ! ?s) = Some e" by simp
    ultimately show thesis
      using hs_inv_unlink [OF inv hs_slot_less [OF n] _ r] Some r u by (intro that [of hs']) auto
  qed
qed

lemma chain_find_unique:
  assumes "distinct (map hse_addr es)" "e \<in> set es"
  shows "chain_find (\<lambda>x. hse_addr x = hse_addr e) es = Some e"
  using assms by (induction es) (auto simp: image_iff)

lemma hs_distinct_chain:
  assumes "hs_inv key hs" "s < hs_num_slots hs"
  shows "distinct (map hse_addr (hs_slots hs ! s))"
proof -
  have "s < length (hs_slots hs)" using assms by (simp add: hs_inv_def)
  then have "hs_all hs = concat (take s (hs_slots hs)) @ hs_slots hs ! s @ concat (drop (Suc s) (hs_slots hs))"
    by (metis concat.simps(2) concat_append id_take_nth_drop)
  with assms(1) have "distinct (map hse_addr (concat (take s (hs_slots hs)) @ hs_slots hs ! s @ concat (drop (Suc s) (hs_slots hs))))"
    by (simp add: hs_inv_def)
  then show ?thesis by simp
qed

lemma hs_remove_direct_spec:
  assumes inv: "hs_inv key hs" and e: "e \<in> set (hs_all hs)"
  obtains hs' where "zbx_hashset_remove_direct hs e = Inr hs'" "hs_inv key hs'"
    "hs_abs key hs' = (hs_abs key hs)(key (hse_data e) := None)" "hs_hash_func hs' = hs_hash_func hs"
    "set (hs_all hs') = set (hs_all hs) - {e}" "hs_freed hs' = hs_freed hs @ [e]"
proof -
  let ?s = "hs_slot hs (hse_hash e)" and ?P = "\<lambda>x. hse_addr x = hse_addr e"
  from hs_in_chain [OF inv e] have n: "0 < hs_num_slots hs" and c: "e \<in> set (hs_slots hs ! ?s)" by simp_all
  note s = hs_slot_less [OF n, of "hse_hash e"]
  from c have f: "chain_find ?P (hs_slots hs ! ?s) = Some e"
    by (rule chain_find_unique [OF hs_distinct_chain [OF inv s]])
  then obtain hs' where r: "hs_unlink ?P ?s hs = Inr hs'"
    using hs_chain_inv [OF inv n] by (simp add: hs_unlink_def)
  with n have "zbx_hashset_remove_direct hs e = Inr hs'" by (simp add: zbx_hashset_remove_direct_def)
  then show thesis by (rule that) (use hs_inv_unlink [OF inv s f r] in simp_all)
qed

lemma hs_remove_direct_slots: "zbx_hashset_remove_direct hs e = Inr hs' \<Longrightarrow> hs_num_slots hs' = hs_num_slots hs"
  by (auto simp: zbx_hashset_remove_direct_def hs_unlink_def hashset_free_entry_def bind_result_Inr_iff split: if_splits option.splits)

lemma foldl_free_entry:
  "foldl (\<lambda>hs entry. hashset_free_entry entry hs) hs es = hs\<lparr>hs_freed := hs_freed hs @ es\<rparr>"
  by (induction es arbitrary: hs) (simp_all add: hashset_free_entry_def)

lemma hs_clear_spec:
  assumes "hs_inv key hs"
  shows "hs_inv key (zbx_hashset_clear hs)" "hs_abs key (zbx_hashset_clear hs) = Map.empty"
    "hs_freed (zbx_hashset_clear hs) = hs_freed hs @ hs_all hs" "hs_all (zbx_hashset_clear hs) = []"
  using assms by (auto simp: zbx_hashset_clear_def foldl_free_entry hs_inv_def hs_placed_def hs_abs_def Let_def)

lemma hs_destroy_freed: "hs_freed (zbx_hashset_destroy hs) = hs_freed hs @ hs_all hs"
  by (simp add: zbx_hashset_destroy_def foldl_free_entry)

section \<open>Iteration\<close>

text \<open>
  \<open>iter_on hs it pre e post\<close>: the iterator stands on \<open>e\<close>, \<open>pre\<close> are the entries before it in slot
  order and \<open>post\<close> those after it; \<open>iter_at\<close> also covers the start, the end and the position after
  the first entry of a chain was removed, where no entry is current.
\<close>

definition iter_on :: "'d zbx_hashset \<Rightarrow> hs_iter \<Rightarrow> 'd hs_entry list \<Rightarrow> 'd hs_entry \<Rightarrow> 'd hs_entry list \<Rightarrow> bool" where
  "iter_on hs it pre e post \<longleftrightarrow>
     (\<exists>s c1 c2. it_slot it = int s \<and> s < length (hs_slots hs) \<and> it_entry it = Some (hse_addr e)
        \<and> hs_slots hs ! s = c1 @ e # c2 \<and> pre = concat (take s (hs_slots hs)) @ c1
        \<and> post = c2 @ concat (drop (Suc s) (hs_slots hs)))"

definition iter_at :: "'d zbx_hashset \<Rightarrow> hs_iter \<Rightarrow> 'd hs_entry list \<Rightarrow> 'd hs_entry list \<Rightarrow> bool" where
  "iter_at hs it pre post \<longleftrightarrow>
     (it_slot it = -2 \<and> pre = hs_all hs \<and> post = [])
     \<or> (\<exists>s. it_slot it = int s - 1 \<and> s \<le> length (hs_slots hs) \<and> (s = 0 \<or> it_entry it = None)
          \<and> pre = concat (take s (hs_slots hs)) \<and> post = concat (drop s (hs_slots hs)))
     \<or> (\<exists>pre' e. iter_on hs it pre' e post \<and> pre = pre' @ [e])"

lemma iter_at_reset: "iter_at hs (zbx_hashset_iter_reset it) [] (hs_all hs)"
  by (auto simp: iter_at_def zbx_hashset_iter_reset_def intro: exI [of _ 0])

lemma iter_next_slot_spec:
  assumes "length (hs_slots hs) = hs_num_slots hs" "it_slot it = int s - 1" "s \<le> length (hs_slots hs)"
  shows "case concat (drop s (hs_slots hs)) of
      [] \<Rightarrow> snd (iter_next_slot hs it) = None
    | e # post \<Rightarrow> snd (iter_next_slot hs it) = Some e
        \<and> iter_on hs (fst (iter_next_slot hs it)) (concat (take s (hs_slots hs))) e post"
  using assms
proof (induction hs it arbitrary: s rule: iter_next_slot.induct)
  case (1 hs it)
  let ?it = "it\<lparr>it_slot := it_slot it + 1\<rparr>"
  have its: "it_slot ?it = int s" using 1 by simp
  show ?case
  proof (cases "s < length (hs_slots hs)")
    case False
    with 1 have "concat (drop s (hs_slots hs)) = []" by simp
    moreover from False 1 have "snd (iter_next_slot hs it) = None" by (simp add: iter_next_slot.simps [of hs it])
    ultimately show ?thesis by (simp only: list.case)
  next
    case True
    then have d: "concat (drop s (hs_slots hs)) = hs_slots hs ! s @ concat (drop (Suc s) (hs_slots hs))"
      by (simp add: Cons_nth_drop_Suc [symmetric])
    have t: "concat (take (Suc s) (hs_slots hs)) = concat (take s (hs_slots hs)) @ hs_slots hs ! s"
      using True by (simp add: take_Suc_conv_app_nth)
    show ?thesis
    proof (cases "hs_slots hs ! s")
      case Nil
      have e: "iter_next_slot hs it = iter_next_slot hs ?it"
        using True Nil its 1 by (simp add: iter_next_slot.simps [of hs it])
      have n: "\<not> int (hs_num_slots hs) \<le> it_slot ?it" using True 1 by simp
      have "case concat (drop (Suc s) (hs_slots hs)) of
          [] \<Rightarrow> snd (iter_next_slot hs ?it) = None
        | e # post \<Rightarrow> snd (iter_next_slot hs ?it) = Some e
            \<and> iter_on hs (fst (iter_next_slot hs ?it)) (concat (take (Suc s) (hs_slots hs))) e post"
        by (rule "1.IH" [OF refl n]) (use True Nil its 1 in simp_all)
      then show ?thesis using Nil by (simp add: d t e cong: list.case_cong)
    next
      case (Cons e c)
      have "iter_next_slot hs it = (?it\<lparr>it_entry := Some (hse_addr e)\<rparr>, Some e)"
        using True Cons its 1 by (simp add: iter_next_slot.simps [of hs it])
      moreover have "iter_on hs (?it\<lparr>it_entry := Some (hse_addr e)\<rparr>) (concat (take s (hs_slots hs))) e
          (c @ concat (drop (Suc s) (hs_slots hs)))"
        unfolding iter_on_def using its True Cons by (intro exI [of _ s] exI [of _ "[]"] exI [of _ c]) simp
      ultimately show ?thesis using Cons by (simp add: d)
    qed
  qed
qed

lemma next_in_chain_append:
  assumes "distinct (map hse_addr (c1 @ e # c2))"
  shows "next_in_chain (hse_addr e) (c1 @ e # c2) = (case c2 of [] \<Rightarrow> None | e' # _ \<Rightarrow> Some e')"
  using assms by (induction c1) auto

lemma iter_next_spec:
  assumes inv: "hs_inv key hs" and at: "iter_at hs it pre post"
  shows "case post of
      [] \<Rightarrow> snd (zbx_hashset_iter_next hs it) = None
    | e # post' \<Rightarrow> snd (zbx_hashset_iter_next hs it) = Some e
        \<and> iter_on hs (fst (zbx_hashset_iter_next hs it)) pre e post'"
proof -
  have len: "length (hs_slots hs) = hs_num_slots hs" using inv by (simp add: hs_inv_def)
  from at consider (fin) "it_slot it = -2" "post = []"
    | (gap) s where "it_slot it = int s - 1" "s \<le> length (hs_slots hs)" "s = 0 \<or> it_entry it = None"
        "pre = concat (take s (hs_slots hs))" "post = concat (drop s (hs_slots hs))"
    | (on) pre' e where "iter_on hs it pre' e post" "pre = pre' @ [e]"
    unfolding iter_at_def by blast
  then show ?thesis
  proof cases
    case fin
    then show ?thesis by (simp add: zbx_hashset_iter_next_def)
  next
    case gap
    then have eq: "zbx_hashset_iter_next hs it = iter_next_slot hs it"
      by (auto simp: zbx_hashset_iter_next_def)
    show ?thesis unfolding eq gap(4,5) by (rule iter_next_slot_spec [OF len gap(1,2)])
  next
    case on
    then obtain s c1 c2 where s: "it_slot it = int s" "s < length (hs_slots hs)" "it_entry it = Some (hse_addr e)"
        "hs_slots hs ! s = c1 @ e # c2" "pre' = concat (take s (hs_slots hs)) @ c1"
        "post = c2 @ concat (drop (Suc s) (hs_slots hs))" unfolding iter_on_def by blast
    have "distinct (map hse_addr (c1 @ e # c2))" using hs_distinct_chain [OF inv, of s] s len by simp
    from next_in_chain_append [OF this] have nx: "next_in_chain (hse_addr e) (hs_slots hs ! s) = (case c2 of [] \<Rightarrow> None | e' # _ \<Rightarrow> Some e')"
      by (simp add: s)
    show ?thesis
    proof (cases c2)
      case Nil
      with s nx have "zbx_hashset_iter_next hs it = iter_next_slot hs it"
        by (simp add: zbx_hashset_iter_next_def)
      moreover have "concat (take (Suc s) (hs_slots hs)) = pre"
        using s Nil on by (simp add: take_Suc_conv_app_nth)
      ultimately show ?thesis using iter_next_slot_spec [OF len, of it "Suc s"] s Nil by (simp cong: list.case_cong)
    next
      case (Cons e' c3)
      with s nx have "zbx_hashset_iter_next hs it = (it\<lparr>it_entry := Some (hse_addr e')\<rparr>, Some e')"
        by (simp add: zbx_hashset_iter_next_def)
      moreover have "iter_on hs (it\<lparr>it_entry := Some (hse_addr e')\<rparr>) pre e' (c3 @ concat (drop (Suc s) (hs_slots hs)))"
        unfolding iter_on_def using s Cons on
        by (intro exI [of _ s] exI [of _ "c1 @ [e]"] exI [of _ c3]) simp
      ultimately show ?thesis using s Cons by simp
    qed
  qed
qed

lemma chain_unlink_append:
  assumes "distinct (map hse_addr (c1 @ e # c2))"
  shows "chain_unlink (\<lambda>x. hse_addr x = hse_addr e) (c1 @ e # c2) = c1 @ c2"
  using assms by (induction c1) auto

lemma prev_in_chain_append:
  assumes "distinct (map hse_addr (c1 @ p # e # c2))"
  shows "prev_in_chain (hse_addr e) (c1 @ p # e # c2) = Some p"
  using assms
proof (induction c1)
  case (Cons x c1)
  then show ?case by (cases c1) auto
qed simp

lemma iter_remove_spec:
  assumes inv: "hs_inv key hs" and on: "iter_on hs it pre e post"
  obtains hs' it' where "zbx_hashset_iter_remove hs it = Inr (hs', it')" "hs_inv key hs'"
    "iter_at hs' it' pre post" "hs_all hs' = pre @ post" "hs_freed hs' = hs_freed hs @ [e]"
    "hs_abs key hs' = (hs_abs key hs)(key (hse_data e) := None)"
proof -
  from on obtain s c1 c2 where s: "it_slot it = int s" "s < length (hs_slots hs)" "it_entry it = Some (hse_addr e)"
      "hs_slots hs ! s = c1 @ e # c2" and pre: "pre = concat (take s (hs_slots hs)) @ c1"
      and post: "post = c2 @ concat (drop (Suc s) (hs_slots hs))" unfolding iter_on_def by blast
  let ?P = "\<lambda>x. hse_addr x = hse_addr e"
  have sn: "s < hs_num_slots hs" using inv s by (simp add: hs_inv_def)
  have d: "distinct (map hse_addr (c1 @ e # c2))" using hs_distinct_chain [OF inv sn] s by simp
  have f: "chain_find ?P (hs_slots hs ! s) = Some e" using chain_find_unique [OF d] s by simp
  define hs' where "hs' = (hashset_free_entry e (hs\<lparr>hs_slots := (hs_slots hs)[s := c1 @ c2]\<rparr>))\<lparr>hs_num_data := hs_num_data hs - 1\<rparr>"
  have u: "hs_unlink ?P s hs = Inr hs'"
    using f s chain_unlink_append [OF d] by (simp add: hs_unlink_def hs_chain_def hs'_def)
  have sl: "hs_slots hs' = (hs_slots hs)[s := c1 @ c2]" by (simp add: hs'_def hashset_free_entry_def)
  have all: "hs_all hs' = pre @ post" using s by (simp add: sl pre post upd_conv_take_nth_drop)
  note u' = hs_inv_unlink [OF inv sn f u]
  show thesis
  proof (cases c1 rule: rev_cases)
    case Nil
    let ?it = "it\<lparr>it_slot := it_slot it - 1, it_entry := None\<rparr>"
    have "zbx_hashset_iter_remove hs it = Inr (hs', ?it)"
      using s u Nil by (simp add: zbx_hashset_iter_remove_def hs_chain_def)
    moreover have "iter_at hs' ?it pre post"
    proof -
      have "pre = concat (take s (hs_slots hs'))" using pre Nil sl by simp
      moreover have "post = concat (drop s (hs_slots hs'))"
        using post Nil sl s by (simp add: upd_conv_take_nth_drop)
      ultimately have "\<exists>s. it_slot ?it = int s - 1 \<and> s \<le> length (hs_slots hs') \<and> (s = 0 \<or> it_entry ?it = None)
          \<and> pre = concat (take s (hs_slots hs')) \<and> post = concat (drop s (hs_slots hs'))"
        using s sl by (intro exI [of _ s]) simp
      then show ?thesis unfolding iter_at_def by blast
    qed
    ultimately show thesis by (rule that [OF _ u'(1) _ all u'(4,2)])
  next
    case (snoc c p)
    let ?it = "it\<lparr>it_entry := Some (hse_addr p)\<rparr>"
    obtain x xs where c: "c1 @ e # c2 = x # xs" "hse_addr x \<noteq> hse_addr e" using d snoc by (cases c) auto
    have pv: "prev_in_chain (hse_addr e) (x # xs) = Some p"
      using prev_in_chain_append [of c p e c2] d snoc by (simp flip: c(1))
    then have "zbx_hashset_iter_remove hs it = Inr (hs', ?it)"
      using s u c pv by (simp add: zbx_hashset_iter_remove_def hs_chain_def)
    moreover have "iter_on hs' ?it (concat (take s (hs_slots hs')) @ c) p post"
      unfolding iter_on_def using s sl snoc post by (intro exI [of _ s] exI [of _ c] exI [of _ c2]) simp
    then have "iter_at hs' ?it pre post" unfolding iter_at_def using pre snoc sl by auto
    ultimately show thesis by (rule that [OF _ u'(1) _ all u'(4,2)])
  qed
qed

text \<open>
  The loop of the callers, \<open>while (NULL != (d = zbx_hashset_iter_next(&iter)))\<close>, whose body removes
  the entries with \<open>P\<close> through the iterator.  \<open>None\<close> is a loop that does not end within the fuel; the
  visited entries are returned in order.
\<close>

fun hs_sweep ::
  "nat \<Rightarrow> ('d hs_entry \<Rightarrow> bool) \<Rightarrow> 'd zbx_hashset \<Rightarrow> hs_iter \<Rightarrow> ('d zbx_hashset \<times> 'd hs_entry list) result option" where
  "hs_sweep 0 P hs iter = None"
| "hs_sweep (Suc fuel) P hs iter =
     (case zbx_hashset_iter_next hs iter of
        (iter, None) \<Rightarrow> Some (Inr (hs, []))
      | (iter, Some e) \<Rightarrow>
          (case (if P e then zbx_hashset_iter_remove hs iter else Inr (hs, iter)) of
             Inl err \<Rightarrow> Some (Inl err)
           | Inr (hs, iter) \<Rightarrow>
               (case hs_sweep fuel P hs iter of
                  Some (Inr (hs, seen)) \<Rightarrow> Some (Inr (hs, e # seen))
                | r \<Rightarrow> r)))"

lemma hs_sweep_spec:
  assumes "hs_inv key hs" "iter_at hs it pre post" "hs_all hs = pre @ post" "length post < fuel"
  shows "\<exists>hs'. hs_sweep fuel P hs it = Some (Inr (hs', post)) \<and> hs_inv key hs'
    \<and> hs_all hs' = pre @ filter (\<lambda>e. \<not> P e) post \<and> hs_freed hs' = hs_freed hs @ filter P post"
  using assms
proof (induction post arbitrary: hs it pre fuel)
  case Nil
  then obtain f where "fuel = Suc f" by (cases fuel) auto
  with Nil iter_next_spec [OF Nil.prems(1,2)] show ?case
    by (cases "zbx_hashset_iter_next hs it") simp
next
  case (Cons e post)
  then obtain f where f: "fuel = Suc f" "length post < f" by (cases fuel) auto
  obtain it1 where n: "zbx_hashset_iter_next hs it = (it1, Some e)" "iter_on hs it1 pre e post"
    using iter_next_spec [OF Cons.prems(1,2)] by (cases "zbx_hashset_iter_next hs it") auto
  show ?case
  proof (cases "P e")
    case True
    obtain hs2 it2 where r: "zbx_hashset_iter_remove hs it1 = Inr (hs2, it2)" "hs_inv key hs2"
      "iter_at hs2 it2 pre post" "hs_all hs2 = pre @ post" "hs_freed hs2 = hs_freed hs @ [e]"
      using iter_remove_spec [OF Cons.prems(1) n(2)] by metis
    with Cons.IH [OF r(2-4) f(2)] show ?thesis using True n f by (auto split: sum.splits)
  next
    case False
    have "iter_at hs it1 (pre @ [e]) post" unfolding iter_at_def using n(2) by auto
    from Cons.IH [OF Cons.prems(1) this _ f(2)] Cons.prems(3) show ?thesis using False n f by auto
  qed
qed

section \<open>The hash set as a finite map\<close>

text \<open>
  A sequence of operations on the structure, with a memory allocator that always succeeds and hands
  out the addresses \<open>a\<close>, \<open>a + 1\<close>, ..., and the same sequence on a finite map.
\<close>

datatype 'd hs_op = HsInsert 'd | HsSearch 'd | HsRemove 'd | HsClear

fun hs_exec :: "nat \<Rightarrow> 'd zbx_hashset \<Rightarrow> 'd hs_op \<Rightarrow> ('d zbx_hashset \<times> 'd hs_entry option) result" where
  "hs_exec a hs (HsInsert d) = zbx_hashset_insert \<lparr>mem_slots_ok = True, mem_entry = Some a\<rparr> hs d"
| "hs_exec a hs (HsSearch d) = bind_result (zbx_hashset_search hs d) (\<lambda>r. Inr (hs, r))"
| "hs_exec a hs (HsRemove d) = bind_result (zbx_hashset_remove hs d) (\<lambda>hs. Inr (hs, None))"
| "hs_exec a hs HsClear = Inr (zbx_hashset_clear hs, None)"

fun hs_run :: "nat \<Rightarrow> 'd zbx_hashset \<Rightarrow> 'd hs_op list \<Rightarrow> ('d option list \<times> int) result" where
  "hs_run a hs [] = Inr ([], hs_num_data hs)"
| "hs_run a hs (op # ops) =
     bind_result (hs_exec a hs op) (\<lambda>(hs, r).
       bind_result (hs_run (Suc a) hs ops) (\<lambda>(rs, n). Inr (map_option hse_data r # rs, n)))"

fun map_exec :: "('d \<Rightarrow> 'k) \<Rightarrow> ('k \<rightharpoonup> 'd) \<Rightarrow> 'd hs_op \<Rightarrow> ('k \<rightharpoonup> 'd) \<times> 'd option" where
  "map_exec key m (HsInsert d) =
     (case m (key d) of Some d' \<Rightarrow> (m, Some d') | None \<Rightarrow> (m(key d \<mapsto> d), Some d))"
| "map_exec key m (HsSearch d) = (m, m (key d))"
| "map_exec key m (HsRemove d) = (m(key d := None), None)"
| "map_exec key m HsClear = (Map.empty, None)"

fun map_run :: "('d \<Rightarrow> 'k) \<Rightarrow> ('k \<rightharpoonup> 'd) \<Rightarrow> 'd hs_op list \<Rightarrow> 'd option list \<times> nat" where
  "map_run key m [] = ([], card (dom m))"
| "map_run key m (op # ops) =
     (let (m, r) = map_exec key m op; (rs, n) = map_run key m ops in (r # rs, n))"

definition hs_data_abs :: "('d \<Rightarrow> 'k) \<Rightarrow> 'd zbx_hashset \<Rightarrow> 'k \<rightharpoonup> 'd" where
  "hs_data_abs key hs = map_option hse_data \<circ> hs_abs key hs"

lemma hs_num_data_card: 
  assumes "hs_inv key hs"
  shows "hs_num_data hs = int (card (dom (hs_data_abs key hs)))"
proof -
  have "dom (hs_data_abs key hs) = (\<lambda>e. key (hse_data e)) ` set (hs_all hs)"
    by (auto simp: hs_data_abs_def hs_abs_def dom_map_of_conv_image_fst image_image)
  also have "card \<dots> = length (hs_all hs)"
    using assms distinct_card [of "map (\<lambda>e. key (hse_data e)) (hs_all hs)"] by (simp add: hs_inv_def)
  finally show ?thesis using assms by (simp add: hs_inv_def)
qed

lemma hs_exec_refines:
  assumes inv: "hs_inv key hs" and a: "\<forall>e \<in> set (hs_all hs). hse_addr e < a"
  shows "\<exists>hs' r. hs_exec a hs op = Inr (hs', r) \<and> hs_inv key hs' \<and> (\<forall>e \<in> set (hs_all hs'). hse_addr e < Suc a)
    \<and> map_exec key (hs_data_abs key hs) op = (hs_data_abs key hs', map_option hse_data r)"
proof (cases op)
  case (HsInsert d)
  let ?m = "\<lparr>mem_slots_ok = True, mem_entry = Some a\<rparr>"
  obtain hs' r where i: "zbx_hashset_insert_ext ?m id hs d = Inr (hs', r)" "hs_inv key hs'" "r \<noteq> None"
    "hs_abs key hs (key d) \<noteq> None \<Longrightarrow> r = hs_abs key hs (key d)"
    "hs_abs key hs (key d) = None \<Longrightarrow> r \<noteq> None \<Longrightarrow>
       r = Some \<lparr>hse_addr = the (mem_entry ?m), hse_hash = hs_hash_func hs d, hse_data = id d\<rparr>"
    "hs_abs key hs' = (case r of None \<Rightarrow> hs_abs key hs | Some e \<Rightarrow> (hs_abs key hs)(key d \<mapsto> e))"
    "set (hs_all hs') = (case r of None \<Rightarrow> set (hs_all hs) | Some e \<Rightarrow> insert e (set (hs_all hs)))"
    by (rule hs_insert_ext_spec [OF inv, where cpy = id and d = d and mem = ?m]) (use a in auto)
  have E: "hs_exec a hs op = Inr (hs', r)" using i(1) HsInsert by (simp add: zbx_hashset_insert_def)
  show ?thesis
  proof (cases "hs_abs key hs (key d)")
    case None
    with i have r: "r = Some \<lparr>hse_addr = a, hse_hash = hs_hash_func hs d, hse_data = d\<rparr>" by simp
    with i a have "\<forall>e \<in> set (hs_all hs'). hse_addr e < Suc a" by (auto simp: less_SucI)
    moreover have "map_exec key (hs_data_abs key hs) op = (hs_data_abs key hs', map_option hse_data r)"
      using None r i(6) HsInsert by (simp add: hs_data_abs_def fun_upd_comp)
    ultimately show ?thesis using E i(2) by blast
  next
    case (Some e)
    with i have r: "r = Some e" by simp
    with i(6) Some have abs: "hs_abs key hs' = hs_abs key hs" by (simp add: fun_upd_idem)
    have "set (hs_all hs') = set (hs_all hs)" using i(7) r Some hs_abs_Some_iff [OF inv] by (simp add: insert_absorb)
    moreover have "map_exec key (hs_data_abs key hs) op = (hs_data_abs key hs', map_option hse_data r)"
      using Some r abs HsInsert by (simp add: hs_data_abs_def)
    ultimately show ?thesis using E i(2) a by (metis less_SucI)
  qed
next
  case (HsSearch d)
  with assms hs_search_abs [OF inv, of d] show ?thesis by (auto simp: less_SucI hs_data_abs_def)
next
  case (HsRemove d)
  obtain hs' where "zbx_hashset_remove hs d = Inr hs'" "hs_inv key hs'"
    "hs_abs key hs' = (hs_abs key hs)(key d := None)" "set (hs_all hs') \<subseteq> set (hs_all hs)"
    using hs_remove_spec [OF inv] by metis
  with HsRemove a show ?thesis by (auto simp: hs_data_abs_def fun_upd_comp less_SucI subset_iff)
next
  case HsClear
  with hs_clear_spec [OF inv] show ?thesis by (auto simp: hs_data_abs_def simp del: concat_eq_Nil_conv)
qed

lemma hs_run_refines:
  assumes "hs_inv key hs" "\<forall>e \<in> set (hs_all hs). hse_addr e < a"
  shows "hs_run a hs ops = Inr (map_prod id int (map_run key (hs_data_abs key hs) ops))"
  using assms
proof (induction ops arbitrary: a hs)
  case Nil
  then show ?case by (simp add: hs_num_data_card [OF Nil.prems(1)])
next
  case (Cons op ops)
  from hs_exec_refines [OF Cons.prems, of op] obtain hs' r where
    "hs_exec a hs op = Inr (hs', r)" "hs_inv key hs'" "\<forall>e \<in> set (hs_all hs'). hse_addr e < Suc a"
    "map_exec key (hs_data_abs key hs) op = (hs_data_abs key hs', map_option hse_data r)" by blast
  with Cons.IH [of hs' "Suc a"] show ?case
    by (cases "map_run key (hs_data_abs key hs') ops") simp
qed

text \<open>
  C3. A hash set behaves as a finite map from keys to data: every insertion, search and removal and
  every clearing, in any sequence from a newly created set of any initial size, through all the
  rehashes on the way, returns what the map returns (an insertion returns the data already stored
  under an equal key and changes nothing), and the element counter is the number of keys.
\<close>

theorem hashset_refines_map:
  assumes "keyed hash cmp key"
  shows "hs_run 0 (zbx_hashset_create n hash cmp) ops = Inr (map_prod id int (map_run key Map.empty ops))"
proof -
  note c = keyed.created [OF assms]
  have "hs_data_abs key (zbx_hashset_create n hash cmp) = Map.empty"
    using c by (simp add: hs_data_abs_def zbx_hashset_create_def comp_def)
  then show ?thesis using hs_run_refines [of key "zbx_hashset_create n hash cmp" 0 ops] c
    by (simp add: zbx_hashset_create_def del: concat_eq_Nil_conv)
qed

theorem hashset_refines_map_witness:
  "hs_run 0 (zbx_hashset_create 2 (\<lambda>p. word_of_nat (fst p)) (\<lambda>p q. int (fst p) - int (fst q)))
     [HsInsert (1, ''a''), HsInsert (3, ''b''), HsInsert (5, ''c''), HsInsert (3, ''d''), HsRemove (1, []), HsSearch (1, [])]
   = Inr (map_prod id int (map_run fst Map.empty
       [HsInsert (1, ''a''), HsInsert (3, ''b''), HsInsert (5, ''c''), HsInsert (3, ''d''), HsRemove (1, []), HsSearch (1, [])]))"
  by (rule hashset_refines_map) (unfold_locales, auto)

text \<open>
  A sweep with an iterator visits every entry exactly once, in slot order, also when it removes
  entries through the iterator on the way: exactly the entries with \<open>P\<close> are removed and freed, each
  once, the others keep their place, and the loop ends within one call more than there are entries.
\<close>

theorem hashset_sweep:
  assumes "hs_inv key hs" "length (concat (hs_slots hs)) < fuel"
  shows "\<exists>hs'. hs_sweep fuel P hs (zbx_hashset_iter_reset it) = Some (Inr (hs', concat (hs_slots hs)))
    \<and> hs_inv key hs' \<and> concat (hs_slots hs') = filter (\<lambda>e. \<not> P e) (concat (hs_slots hs))
    \<and> hs_freed hs' = hs_freed hs @ filter P (concat (hs_slots hs))"
  using hs_sweep_spec [OF assms(1) iter_at_reset _ assms(2)] by simp

definition sweep_example :: "(nat \<times> string) zbx_hashset" where
  "sweep_example =
     \<lparr>hs_slots = [[\<lparr>hse_addr = 1, hse_hash = 4, hse_data = (4, ''a'')\<rparr>, \<lparr>hse_addr = 2, hse_hash = 2, hse_data = (2, ''b'')\<rparr>],
                  [\<lparr>hse_addr = 3, hse_hash = 1, hse_data = (1, ''c'')\<rparr>]],
      hs_num_slots = 2, hs_num_data = 3, hs_hash_func = \<lambda>p. word_of_nat (fst p),
      hs_compare_func = \<lambda>p q. int (fst p) - int (fst q), hs_freed = []\<rparr>"

lemma sweep_example_inv: "hs_inv fst sweep_example"
proof -
  have "keyed (\<lambda>p. word_of_nat (fst p) :: zbx_hash_t) (\<lambda>p q. int (fst p) - int (fst q)) (fst :: nat \<times> string \<Rightarrow> nat)"
    by unfold_locales auto
  moreover have "hs_placed (hs_slots sweep_example) (\<lambda>_. True)"
    unfolding hs_placed_def sweep_example_def by (auto simp: less_Suc_eq) (simp_all flip: numeral_2_eq_2)
  ultimately show ?thesis by (simp add: hs_inv_def sweep_example_def)
qed

theorem hashset_sweep_witness:
  "\<exists>hs'. hs_sweep 4 (\<lambda>e. fst (hse_data e) < 3) sweep_example (zbx_hashset_iter_reset \<lparr>it_slot = 0, it_entry = None\<rparr>)
      = Some (Inr (hs', concat (hs_slots sweep_example)))
    \<and> map hse_addr (concat (hs_slots hs')) = [1] \<and> map hse_addr (hs_freed hs') = [2, 3]"
proof -
  have "length (concat (hs_slots sweep_example)) < 4" by (simp add: sweep_example_def)
  from hashset_sweep [OF sweep_example_inv this, of "\<lambda>e. fst (hse_data e) < 3" "\<lparr>it_slot = 0, it_entry = None\<rparr>"]
  show ?thesis by (auto simp: sweep_example_def)
qed

text \<open>
  A creation or a first insertion whose slot array cannot be allocated still leaves the slot
  count set, so the structure no longer looks empty and the next search reads through the NULL slot
  array.
\<close>

theorem hashset_failed_init_search:
  "zbx_hashset_search (zbx_hashset_create_ext False (Suc n) hash cmp) d = Inl NullDeref"
  using nat_next_prime_pos [of "int (Suc n)"]
  by (simp add: zbx_hashset_search_def zbx_hashset_create_ext_def zbx_hashset_init_slots_def Let_def hs_chain_def)

end
