(* ===== verification/Glb_Lock.thy ===== *)
theory Glb_Lock
  imports Prelude
begin

text \<open>
  \<open>src/libs/zbxsys/glb_lock.c\<close>: the mutex and read-write lock wrappers of the shared caches.

  A lock is modelled as one thread of control sees it: which holds of it the thread has.  The
  read-write lock functions spin on \<open>pthread_rwlock_try*lock\<close>; when it is the caller itself that
  blocks the lock the loop never ends, which is \<open>Deadlock\<close>.  Unlocking a lock that is not held fails
  in pthread and ends in \<open>exit\<close>.  A non-recursive mutex that its owner locks again blocks for ever.
\<close>

datatype rwlock = Unlocked | Readers nat | Writer

definition glb_rwlock_init :: rwlock where
  "glb_rwlock_init = Unlocked"

fun glb_rwlock_rdlock :: "rwlock \<Rightarrow> rwlock result" where
  "glb_rwlock_rdlock Unlocked = Inr (Readers 0)"
| "glb_rwlock_rdlock (Readers n) = Inr (Readers (Suc n))"
| "glb_rwlock_rdlock Writer = Inl Deadlock"

fun glb_rwlock_wrlock :: "rwlock \<Rightarrow> rwlock result" where
  "glb_rwlock_wrlock Unlocked = Inr Writer"
| "glb_rwlock_wrlock (Readers n) = Inl Deadlock"
| "glb_rwlock_wrlock Writer = Inl Deadlock"

fun glb_rwlock_unlock :: "rwlock \<Rightarrow> rwlock result" where
  "glb_rwlock_unlock Unlocked = Inl ExitFailure"
| "glb_rwlock_unlock (Readers 0) = Inr Unlocked"
| "glb_rwlock_unlock (Readers (Suc n)) = Inr (Readers n)"
| "glb_rwlock_unlock Writer = Inr Unlocked"

datatype mutex = MFree | MHeld

definition glb_lock_init :: mutex where
  "glb_lock_init = MFree"

fun glb_lock_block :: "mutex \<Rightarrow> mutex result" where
  "glb_lock_block MFree = Inr MHeld"
| "glb_lock_block MHeld = Inl Deadlock"

fun glb_lock_unlock :: "mutex \<Rightarrow> mutex" where
  "glb_lock_unlock m = MFree"

lemma rwlock_roundtrip [simp]:
  "bind_result (glb_rwlock_rdlock l) glb_rwlock_unlock = (if l = Writer then Inl Deadlock else Inr l)"
  "bind_result (glb_rwlock_wrlock l) glb_rwlock_unlock = (if l = Unlocked then Inr l else Inl Deadlock)"
  by (cases l; simp)+

end
