(* ===== verification/Elems_Hash.thy ===== *)
theory Elems_Hash
  imports Hashset Glb_Lock
begin

text \<open>
  \<open>src/libs/zbxalgo/elems_hash.c\<close>: the table of lockable elements by id under the state caches
  (items, hosts, triggers), the object index and the poller.

  The table is a hash set of elements with the two locks the code takes: the table's \<open>meta_lock\<close> and
  each element's \<open>rw_lock\<close>.  The memory functions do not return NULL (they end the process instead);
  \<open>eh_next\<close> is the address they hand out next.  \<open>eh_released\<close> logs the elements given to
  \<open>elem_free_func\<close>, and \<open>eh_junk\<close> stands for the bytes behind an id that is passed where the hash set
  expects an element (they are never read).  A callback gets the id, the data and the flags of an element and the caller's
  parameters; it returns new data, flags and parameters and its return code.
\<close>

section \<open>State\<close>

record 'v eh_elem =
  el_id :: u64
  el_data :: 'v
  el_flags :: u8
  el_lock :: rwlock

record 'v elems_hash =
  eh_elems :: "'v eh_elem zbx_hashset"
  eh_lock :: rwlock
  eh_next :: nat
  eh_released :: "'v eh_elem list"
  eh_junk :: 'v

type_synonym ('v, 'p) elems_cb = "u64 \<Rightarrow> 'v \<Rightarrow> u8 \<Rightarrow> 'p \<Rightarrow> ('v \<times> u8 \<times> 'p \<times> int) result"

abbreviation (input) ELEM_FLAG_DO_NOT_CREATE :: u64 where "ELEM_FLAG_DO_NOT_CREATE \<equiv> 1"
abbreviation (input) ELEM_FLAG_DELETE :: u8 where "ELEM_FLAG_DELETE \<equiv> 2"
abbreviation (input) ELEMS_HASH_READ_ONLY :: u64 where "ELEMS_HASH_READ_ONLY \<equiv> 8"
abbreviation (input) ELEMS_HASH_WRITE :: u64 where "ELEMS_HASH_WRITE \<equiv> 16"

section \<open>Operations\<close>

text \<open>A write through the data pointer of a hash set entry.\<close>

definition hs_poke :: "nat \<Rightarrow> 'd \<Rightarrow> 'd zbx_hashset \<Rightarrow> 'd zbx_hashset" where
  "hs_poke addr d hs =
     hs\<lparr>hs_slots := map (map (\<lambda>e. if hse_addr e = addr then e\<lparr>hse_data := d\<rparr> else e)) (hs_slots hs)\<rparr>"

definition elems_hash_init :: "'v \<Rightarrow> 'v elems_hash" where
  "elems_hash_init junk =
     \<lparr>eh_elems = zbx_hashset_create_ext True 0 (\<lambda>e. zbx_hash_splittable64 (el_id e))
        (\<lambda>a b. zbx_default_uint64_compare_func (el_id a) (el_id b)),
      eh_lock = glb_rwlock_init, eh_next = 0, eh_released = [], eh_junk = junk\<rparr>"

text \<open>The table is keyed by the id alone: searching with \<open>&id\<close> reads only that field.\<close>

definition eh_probe :: "'v elems_hash \<Rightarrow> u64 \<Rightarrow> 'v eh_elem hs_entry option result" where
  "eh_probe elems elemid = zbx_hashset_search (eh_elems elems)
     \<lparr>el_id = elemid, el_data = eh_junk elems, el_flags = 0, el_lock = Unlocked\<rparr>"

text \<open>
  \<open>zbx_hashset_search\<close> passes the probe only to the hash and comparison functions, which read the id.
\<close>

definition elem_lock :: "u64 \<Rightarrow> 'v eh_elem \<Rightarrow> 'v eh_elem result" where
  "elem_lock flags elem =
     bind_result (if flags AND ELEMS_HASH_READ_ONLY \<noteq> 0 then glb_rwlock_rdlock (el_lock elem)
                  else glb_rwlock_wrlock (el_lock elem))
       (\<lambda>l. Inr (elem\<lparr>el_lock := l\<rparr>))"

definition elem_unlock :: "'v eh_elem \<Rightarrow> 'v eh_elem result" where
  "elem_unlock elem = bind_result (glb_rwlock_unlock (el_lock elem)) (\<lambda>l. Inr (elem\<lparr>el_lock := l\<rparr>))"

definition meta_rdlock :: "'v elems_hash \<Rightarrow> 'v elems_hash result" where
  "meta_rdlock elems = bind_result (glb_rwlock_rdlock (eh_lock elems)) (\<lambda>l. Inr (elems\<lparr>eh_lock := l\<rparr>))"

definition meta_wrlock :: "'v elems_hash \<Rightarrow> 'v elems_hash result" where
  "meta_wrlock elems = bind_result (glb_rwlock_wrlock (eh_lock elems)) (\<lambda>l. Inr (elems\<lparr>eh_lock := l\<rparr>))"

definition meta_unlock :: "'v elems_hash \<Rightarrow> 'v elems_hash result" where
  "meta_unlock elems = bind_result (glb_rwlock_unlock (eh_lock elems)) (\<lambda>l. Inr (elems\<lparr>eh_lock := l\<rparr>))"

text \<open>
  \<open>elem_free_func\<close> is the client's: it gets the element, \<open>None\<close> for the NULL pointer, and returns a code or fails
  (as when it reads through NULL).  For NULL, \<open>zbx_hashset_remove_direct\<close> reads the entry header in front of it, unless the
  set has no slots yet.
\<close>

type_synonym 'v elem_free_cb = "'v eh_elem option \<Rightarrow> int result"

definition delete_element ::
  "'v elem_free_cb \<Rightarrow> 'v elems_hash \<Rightarrow> 'v eh_elem hs_entry option \<Rightarrow> ('v elems_hash \<times> int) result" where
  "delete_element free_func elems entry =
     bind_result (free_func (map_option hse_data entry)) (\<lambda>ret.
       case entry of
         None \<Rightarrow> if hs_num_slots (eh_elems elems) = 0 then Inr (elems, ret) else Inl NullDeref
       | Some e \<Rightarrow>
           bind_result (zbx_hashset_remove_direct (eh_elems elems) e) (\<lambda>hs.
             Inr (elems\<lparr>eh_elems := hs, eh_released := eh_released elems @ [hse_data e]\<rparr>, ret)))"

definition create_element ::
  "(u64 \<Rightarrow> 'p \<Rightarrow> 'v) \<Rightarrow> 'v elems_hash \<Rightarrow> u64 \<Rightarrow> 'p \<Rightarrow> ('v elems_hash \<times> 'v eh_elem hs_entry option) result" where
  "create_element create elems elemid params =
     bind_result (eh_probe elems elemid) (\<lambda>found.
       case found of
         Some _ \<Rightarrow> Inr (elems, None)
       | None \<Rightarrow>
           bind_result (glb_rwlock_wrlock glb_rwlock_init) (\<lambda>l.
             bind_result (zbx_hashset_insert \<lparr>mem_slots_ok = True, mem_entry = Some (eh_next elems)\<rparr> (eh_elems elems)
                 \<lparr>el_id = elemid, el_data = create elemid params, el_flags = 0, el_lock = l\<rparr>) (\<lambda>(hs, entry).
               Inr (elems\<lparr>eh_elems := hs, eh_next := Suc (eh_next elems)\<rparr>, entry))))"

text \<open>Running a callback on the element of an entry, with the element written back.\<close>

definition call_process ::
  "('v, 'p) elems_cb \<Rightarrow> 'v elems_hash \<Rightarrow> 'v eh_elem hs_entry \<Rightarrow> 'v eh_elem \<Rightarrow> 'p \<Rightarrow>
     ('v elems_hash \<times> 'v eh_elem \<times> 'p \<times> int) result" where
  "call_process f elems entry elem params =
     bind_result (f (el_id elem) (el_data elem) (el_flags elem) params) (\<lambda>(data, flags, params, ret).
       let elem = elem\<lparr>el_data := data, el_flags := flags\<rparr>
       in Inr (elems\<lparr>eh_elems := hs_poke (hse_addr entry) elem (eh_elems elems)\<rparr>, elem, params, ret))"

text \<open>
  The branch that deletes the element is never taken (a flag word masked with 2 is compared with 1), so the free
  function in it is a stand-in.
\<close>

definition finish_process ::
  "('v, 'p) elems_cb \<Rightarrow> 'v elems_hash \<Rightarrow> 'v eh_elem hs_entry \<Rightarrow> 'v eh_elem \<Rightarrow> 'p \<Rightarrow> ('v elems_hash \<times> 'p \<times> int) result" where
  "finish_process f elems entry elem params =
     bind_result (call_process f elems entry elem params) (\<lambda>(elems, elem, params, ret).
      if el_flags elem AND ELEM_FLAG_DELETE = 1 then
        bind_result (meta_unlock elems) (\<lambda>elems.
        bind_result (meta_wrlock elems) (\<lambda>elems.
        bind_result (delete_element (\<lambda>_. Inr SUCCEED) elems (Some (entry\<lparr>hse_data := elem\<rparr>))) (\<lambda>(elems, _).
        bind_result (meta_unlock elems) (\<lambda>elems. Inr (elems, params, ret)))))
      else
        bind_result (elem_unlock elem) (\<lambda>elem.
        bind_result (meta_unlock (elems\<lparr>eh_elems := hs_poke (hse_addr entry) elem (eh_elems elems)\<rparr>)) (\<lambda>elems.
        Inr (elems, params, ret))))"

definition elems_hash_process ::
  "(u64 \<Rightarrow> 'p \<Rightarrow> 'v) \<Rightarrow> 'v elems_hash \<Rightarrow> u64 \<Rightarrow> ('v, 'p) elems_cb option \<Rightarrow> 'p \<Rightarrow> u64 \<Rightarrow>
     ('v elems_hash \<times> 'p \<times> int) result" where
  "elems_hash_process create elems elemid process_func params flags =
     (case process_func of
        None \<Rightarrow> Inr (elems, params, FAIL)
      | Some f \<Rightarrow>
          bind_result (meta_rdlock elems) (\<lambda>elems.
          bind_result (eh_probe elems elemid) (\<lambda>found.
            case found of
              Some entry \<Rightarrow>
                bind_result (elem_lock flags (hse_data entry)) (\<lambda>elem.
                finish_process f elems entry elem params)
            | None \<Rightarrow>
                bind_result (meta_unlock elems) (\<lambda>elems.
                if flags AND ELEM_FLAG_DO_NOT_CREATE = 1 then Inr (elems, params, FAIL)
                else
                  bind_result (meta_wrlock elems) (\<lambda>elems.
                  bind_result (create_element create elems elemid params) (\<lambda>(elems, created).
                    case created of
                      None \<Rightarrow> bind_result (meta_unlock elems) (\<lambda>elems. Inr (elems, params, FAIL))
                    | Some entry \<Rightarrow>
                        bind_result (meta_unlock elems) (\<lambda>elems.
                        bind_result (meta_rdlock elems) (\<lambda>elems.
                        finish_process f elems entry (hse_data entry) params))))))))"

text \<open>\<open>free_ret\<close> is the code that the free function returns for the element.\<close>

definition elems_hash_delete :: "int \<Rightarrow> 'v elems_hash \<Rightarrow> u64 \<Rightarrow> ('v elems_hash \<times> int) result" where
  "elems_hash_delete free_ret elems elemid =
     bind_result (meta_wrlock elems) (\<lambda>elems.
     bind_result (eh_probe elems elemid) (\<lambda>elem.
     bind_result (case elem of
        Some e \<Rightarrow> delete_element (\<lambda>_. Inr free_ret) elems (Some e)
      | None \<Rightarrow> Inr (elems, FAIL)) (\<lambda>(elems, ret).
     bind_result (meta_unlock elems) (\<lambda>elems. Inr (elems, ret)))))"

text \<open>The \<open>if\<close> in the loop has an empty statement as its body: \<open>delete_element\<close> is always called.\<close>

fun mass_delete_loop :: "'v elem_free_cb \<Rightarrow> 'v elems_hash \<Rightarrow> u64 list \<Rightarrow> int \<Rightarrow> ('v elems_hash \<times> int) result" where
  "mass_delete_loop free_func elems [] cnt = Inr (elems, cnt)"
| "mass_delete_loop free_func elems (elemid # ids) cnt =
     bind_result (eh_probe elems elemid) (\<lambda>elem.
     bind_result (delete_element free_func elems elem) (\<lambda>(elems, _). mass_delete_loop free_func elems ids (cnt + 1)))"

definition elems_hash_mass_delete :: "'v elem_free_cb \<Rightarrow> 'v elems_hash \<Rightarrow> u64 list \<Rightarrow> ('v elems_hash \<times> int) result" where
  "elems_hash_mass_delete free_func elems ids =
     (if ids = [] then Inr (elems, 0)
      else
        bind_result (meta_wrlock elems) (\<lambda>elems.
        bind_result (mass_delete_loop free_func elems ids 0) (\<lambda>(elems, cnt).
        bind_result (meta_unlock elems) (\<lambda>elems. Inr (elems, cnt)))))"

text \<open>
  The loop of \<open>elems_hash_iterate\<close>; \<open>last_ret\<close> stays \<open>SUCCEED\<close>, so it ends with the iterator.  A loop
  that outlasts its fuel is \<open>Deadlock\<close>.
\<close>

fun iterate_loop ::
  "nat \<Rightarrow> ('v, 'p) elems_cb \<Rightarrow> u64 \<Rightarrow> 'v elems_hash \<Rightarrow> hs_iter \<Rightarrow> 'p \<Rightarrow> int \<Rightarrow> ('v elems_hash \<times> 'p \<times> int) result" where
  "iterate_loop 0 f flags elems iter params cnt = Inl Deadlock"
| "iterate_loop (Suc fuel) f flags elems iter params cnt =
     (case zbx_hashset_iter_next (eh_elems elems) iter of
        (iter, None) \<Rightarrow> Inr (elems, params, cnt)
      | (iter, Some entry) \<Rightarrow>
          bind_result (elem_lock flags (hse_data entry)) (\<lambda>elem.
          bind_result (call_process f elems entry elem params) (\<lambda>(elems, elem, params, _).
          bind_result (elem_unlock elem) (\<lambda>elem.
          iterate_loop fuel f flags (elems\<lparr>eh_elems := hs_poke (hse_addr entry) elem (eh_elems elems)\<rparr>) iter params (cnt + 1)))))"

definition elems_hash_iterate ::
  "'v elems_hash \<Rightarrow> ('v, 'p) elems_cb \<Rightarrow> 'p \<Rightarrow> u64 \<Rightarrow> ('v elems_hash \<times> 'p \<times> int) result" where
  "elems_hash_iterate elems proc_func params flags =
     bind_result (meta_rdlock elems) (\<lambda>elems.
     bind_result (iterate_loop (Suc (length (concat (hs_slots (eh_elems elems))))) proc_func flags elems
         (zbx_hashset_iter_reset \<lparr>it_slot = 0, it_entry = None\<rparr>) params 0) (\<lambda>(elems, params, cnt).
     bind_result (meta_unlock elems) (\<lambda>elems. Inr (elems, params, cnt))))"

definition elems_hash_get_num :: "'v elems_hash \<Rightarrow> ('v elems_hash \<times> int) result" where
  "elems_hash_get_num elems =
     bind_result (meta_rdlock elems) (\<lambda>elems.
     let num_data = hs_num_data (eh_elems elems) in
     bind_result (meta_unlock elems) (\<lambda>elems. Inr (elems, num_data)))"

definition elems_hash_id_exists :: "'v elems_hash \<Rightarrow> u64 \<Rightarrow> ('v elems_hash \<times> int) result" where
  "elems_hash_id_exists elems elemid =
     bind_result (meta_rdlock elems) (\<lambda>elems.
     bind_result (eh_probe elems elemid) (\<lambda>found.
     let ret = (if found \<noteq> None then SUCCEED else FAIL) in
     bind_result (meta_unlock elems) (\<lambda>elems. Inr (elems, ret))))"

text \<open>
  \<open>elems_hash_destroy\<close>: every element is given to \<open>elem_free_func\<close> in iterator order, then the hash
  set frees its entries.  The meta lock is not touched.
\<close>

definition elems_hash_destroy :: "'v elems_hash \<Rightarrow> 'v elems_hash" where
  "elems_hash_destroy elems =
     elems\<lparr>eh_released := eh_released elems @ map hse_data (concat (hs_slots (eh_elems elems))),
           eh_elems := zbx_hashset_destroy (eh_elems elems)\<rparr>"

text \<open>
  \<open>elems_hash_replace\<close> exchanges the hash sets under both meta locks; the lock of \<open>new_elems\<close> is not
  released before the table is destroyed.  The result is both structures at the end.
\<close>

definition elems_hash_replace :: "'v elems_hash \<Rightarrow> 'v elems_hash \<Rightarrow> ('v elems_hash \<times> 'v elems_hash) result" where
  "elems_hash_replace old_elems new_elems =
     bind_result (meta_wrlock old_elems) (\<lambda>old_elems.
     bind_result (meta_wrlock new_elems) (\<lambda>new_elems.
     let tmp_hset = eh_elems old_elems;
         old_elems = old_elems\<lparr>eh_elems := eh_elems new_elems, eh_next := max (eh_next old_elems) (eh_next new_elems)\<rparr>;
         new_elems = new_elems\<lparr>eh_elems := tmp_hset\<rparr>
     in bind_result (meta_unlock old_elems) (\<lambda>old_elems.
        Inr (old_elems, elems_hash_destroy new_elems))))"

subsection \<open>Update of one table from another\<close>

text \<open>
  \<open>update_delete_func_cb\<close> runs on every element of the table with the new table as its parameters: a
  missing id only gets the delete flag, a present one runs the caller's update function with the
  element first and the element of the new table second (\<open>update_process_func_cb\<close>).
\<close>

definition update_process_func_cb :: "('v \<Rightarrow> 'v \<Rightarrow> 'v) \<Rightarrow> ('v, 'v) elems_cb" where
  "update_process_func_cb cb elemid data flags first = Inr (data, flags, cb first data, SUCCEED)"

definition addnew_func_cb :: "('v \<Rightarrow> 'v \<Rightarrow> 'v) \<Rightarrow> ('v, 'v) elems_cb" where
  "addnew_func_cb cb elemid data flags first = Inr (cb data first, flags, first, SUCCEED)"

definition update_delete_func_cb ::
  "(u64 \<Rightarrow> 'v \<Rightarrow> 'v) \<Rightarrow> ('v \<Rightarrow> 'v \<Rightarrow> 'v) \<Rightarrow> ('v, 'v elems_hash) elems_cb" where
  "update_delete_func_cb create cb elemid data flags new_elems =
     bind_result (elems_hash_id_exists new_elems elemid) (\<lambda>(new_elems, ret).
       if ret = FAIL then Inr (data, ELEM_FLAG_DELETE, new_elems, SUCCEED)
       else
         bind_result (elems_hash_process create new_elems elemid (Some (update_process_func_cb cb)) data 0)
           (\<lambda>(new_elems, data, ret). Inr (data, flags, new_elems, ret)))"

definition add_new_func_cb ::
  "(u64 \<Rightarrow> 'v \<Rightarrow> 'v) \<Rightarrow> ('v \<Rightarrow> 'v \<Rightarrow> 'v) \<Rightarrow> ('v, 'v elems_hash) elems_cb" where
  "add_new_func_cb create cb elemid data flags elems =
     bind_result (elems_hash_id_exists elems elemid) (\<lambda>(elems, ret).
       if ret = FAIL then
         bind_result (elems_hash_process create elems elemid (Some (addnew_func_cb cb)) data 0)
           (\<lambda>(elems, data, ret). Inr (data, flags, elems, ret))
       else Inr (data, flags, elems, SUCCEED))"

definition elems_hash_update ::
  "(u64 \<Rightarrow> 'v \<Rightarrow> 'v) \<Rightarrow> 'v elems_hash \<Rightarrow> 'v elems_hash \<Rightarrow> ('v \<Rightarrow> 'v \<Rightarrow> 'v) \<Rightarrow> ('v elems_hash \<times> 'v elems_hash) result" where
  "elems_hash_update create elems new_elems cb =
     bind_result (elems_hash_iterate elems (update_delete_func_cb create cb) new_elems ELEMS_HASH_WRITE)
       (\<lambda>(elems, new_elems, _).
     bind_result (elems_hash_iterate new_elems (add_new_func_cb create cb) elems ELEMS_HASH_WRITE)
       (\<lambda>(new_elems, elems, _). Inr (elems, new_elems)))"

section \<open>Writing through a data pointer\<close>

declare set_concat [simp del]

abbreviation poke_entry :: "nat \<Rightarrow> 'd \<Rightarrow> 'd hs_entry \<Rightarrow> 'd hs_entry" where
  "poke_entry a d \<equiv> \<lambda>e. if hse_addr e = a then e\<lparr>hse_data := d\<rparr> else e"

lemma hs_all_poke: "hs_all (hs_poke a d hs) = map (poke_entry a d) (hs_all hs)"
  by (simp add: hs_poke_def map_concat)

lemma hs_poke_poke: "hs_poke a d (hs_poke a d' hs) = hs_poke a d hs"
  by (simp add: hs_poke_def comp_def)

lemma image_key_iff:
  assumes "\<And>x. x \<in> A \<Longrightarrow> key (hse_data (f x)) = key (hse_data x)"
  shows "w \<in> f ` A \<and> key (hse_data w) = k \<longleftrightarrow> (\<exists>y \<in> A. w = f y \<and> key (hse_data y) = k)"
  using assms by auto

lemma hs_poke_spec:
  assumes inv: "hs_inv key hs" and e: "e \<in> set (hs_all hs)" and k: "key d = key (hse_data e)"
  shows "hs_inv key (hs_poke (hse_addr e) d hs)"
    and "hs_abs key (hs_poke (hse_addr e) d hs) = (hs_abs key hs)(key d \<mapsto> e\<lparr>hse_data := d\<rparr>)"
proof -
  let ?hs = "hs_poke (hse_addr e) d hs" and ?f = "poke_entry (hse_addr e) d"
  have K: "keyed (hs_hash_func hs) (hs_compare_func hs) key" using inv by (simp add: hs_inv_def)
  have uniq: "x = e" if "x \<in> set (hs_all hs)" "hse_addr x = hse_addr e" for x
    using inv that e by (auto simp: hs_inv_def distinct_map inj_on_def)
  have key: "key (hse_data (?f x)) = key (hse_data x)" if "x \<in> set (hs_all hs)" for x
    using uniq [OF that] k by auto
  have m: "map (\<lambda>e. key (hse_data e)) (hs_all ?hs) = map (\<lambda>e. key (hse_data e)) (hs_all hs)"
    "map hse_addr (hs_all ?hs) = map hse_addr (hs_all hs)"
    unfolding hs_all_poke using key by auto
  have "hs_placed (hs_slots ?hs) (\<lambda>_. True)"
    using inv unfolding hs_placed_def hs_inv_def by (auto simp: hs_poke_def)
  moreover have "\<forall>x \<in> set (hs_all ?hs). hse_hash x = hs_hash_func ?hs (hse_data x)"
  proof
    fix x
    assume "x \<in> set (hs_all ?hs)"
    then obtain y where y: "y \<in> set (hs_all hs)" "x = ?f y" unfolding hs_all_poke by auto
    have "hse_hash y = hs_hash_func hs (hse_data y)" using inv y(1) unfolding hs_inv_def by blast
    moreover have "hs_hash_func hs (hse_data x) = hs_hash_func hs (hse_data y)"
      using keyed.hash_key [OF K, of "hse_data x" "hse_data y"] key [OF y(1)] y(2) by metis
    ultimately show "hse_hash x = hs_hash_func ?hs (hse_data x)" using y(2) by (simp add: hs_poke_def)
  qed
  moreover have "keyed (hs_hash_func ?hs) (hs_compare_func ?hs) key" "length (hs_slots ?hs) = hs_num_slots ?hs"
    "hs_num_data ?hs = int (length (hs_all ?hs))"
    using inv by (simp_all add: hs_all_poke hs_inv_def) (simp_all add: hs_poke_def)
  ultimately show I: "hs_inv key ?hs" using m inv unfolding hs_inv_def by simp
  show "hs_abs key ?hs = (hs_abs key hs)(key d \<mapsto> e\<lparr>hse_data := d\<rparr>)"
  proof (intro ext option_eqI)
    fix k' w
    have "hs_abs key ?hs k' = Some w \<longleftrightarrow> (\<exists>y \<in> set (hs_all hs). w = ?f y \<and> key (hse_data y) = k')"
      using image_key_iff [where f = ?f, OF key] unfolding hs_abs_Some_iff [OF I] hs_all_poke set_map .
    also have "\<dots> \<longleftrightarrow> ((hs_abs key hs)(key d \<mapsto> e\<lparr>hse_data := d\<rparr>)) k' = Some w"
    proof (cases "k' = key d")
      case True
      have "y = e" if "y \<in> set (hs_all hs)" "key (hse_data y) = k'" for y
        using that True k e inv by (auto simp: hs_inv_def distinct_map inj_on_def)
      with True k e have "(\<exists>y \<in> set (hs_all hs). w = ?f y \<and> key (hse_data y) = k') \<longleftrightarrow> w = ?f e" by metis
      with True show ?thesis by auto
    next
      case False
      then have "?f y = y" if "y \<in> set (hs_all hs)" "key (hse_data y) = k'" for y using uniq [of y] that k by auto
      then have "(\<exists>y \<in> set (hs_all hs). w = ?f y \<and> key (hse_data y) = k') \<longleftrightarrow> w \<in> set (hs_all hs) \<and> key (hse_data w) = k'"
        by metis
      with False show ?thesis by (simp add: hs_abs_Some_iff [OF inv])
    qed
    finally show "hs_abs key ?hs k' = Some w \<longleftrightarrow> ((hs_abs key hs)(key d \<mapsto> e\<lparr>hse_data := d\<rparr>)) k' = Some w" .
  qed
qed

section \<open>Invariant and abstraction\<close>

definition eh_ok :: "'v elems_hash \<Rightarrow> bool" where
  "eh_ok elems \<longleftrightarrow> hs_inv el_id (eh_elems elems)
     \<and> (\<forall>e \<in> set (hs_all (eh_elems elems)). hse_addr e < eh_next elems \<and> el_lock (hse_data e) = Unlocked)"

text \<open>Between two calls no lock is held.\<close>

definition eh_inv :: "'v elems_hash \<Rightarrow> bool" where
  "eh_inv elems \<longleftrightarrow> eh_ok elems \<and> eh_lock elems = Unlocked"

definition eh_abs :: "'v elems_hash \<Rightarrow> u64 \<rightharpoonup> 'v \<times> u8" where
  "eh_abs elems elemid =
     map_option (\<lambda>e. (el_data (hse_data e), el_flags (hse_data e))) (hs_abs el_id (eh_elems elems) elemid)"

lemma eh_probe_abs: "eh_ok elems \<Longrightarrow> eh_probe elems elemid = Inr (hs_abs el_id (eh_elems elems) elemid)"
  by (simp add: eh_probe_def eh_ok_def hs_search_abs [of el_id])

lemma eh_lock_irrelevant [simp]:
  "eh_ok (elems\<lparr>eh_lock := l\<rparr>) = eh_ok elems" "eh_abs (elems\<lparr>eh_lock := l\<rparr>) = eh_abs elems"
  by (simp_all add: eh_ok_def eh_abs_def fun_eq_iff)

interpretation elem: keyed "\<lambda>e. zbx_hash_splittable64 (el_id e)" "\<lambda>a b. zbx_default_uint64_compare_func (el_id a) (el_id b)" el_id
  by unfold_locales (auto simp: uint64_cmp.cmp_zero)

lemma eh_init_inv: "eh_inv (elems_hash_init junk)" "eh_abs (elems_hash_init junk) = Map.empty"
  using elem.created [of 0]
  by (simp_all add: eh_inv_def eh_ok_def eh_abs_def elems_hash_init_def glb_rwlock_init_def fun_eq_iff del: concat_eq_Nil_conv)

lemma delete_flag_never: "(w :: u8) AND 2 \<noteq> 1"
proof
  assume "w AND 2 = 1"
  then have "bit (w AND 2) 0 = bit (1 :: u8) 0" by (rule arg_cong)
  then show False by (simp add: bit_and_iff)
qed

section \<open>Processing one element\<close>

lemma eh_ok_poke:
  assumes inv: "hs_inv el_id (eh_elems elems)" and e: "e \<in> set (hs_all (eh_elems elems))"
    and all: "\<forall>x \<in> set (hs_all (eh_elems elems)). hse_addr x < eh_next elems \<and> (x = e \<or> el_lock (hse_data x) = Unlocked)"
    and d: "el_id d = el_id (hse_data e)" "el_lock d = Unlocked"
  shows "eh_ok (elems\<lparr>eh_elems := hs_poke (hse_addr e) d (eh_elems elems)\<rparr>)"
    and "eh_abs (elems\<lparr>eh_elems := hs_poke (hse_addr e) d (eh_elems elems)\<rparr>)
      = (eh_abs elems)(el_id d \<mapsto> (el_data d, el_flags d))"
proof -
  note p = hs_poke_spec [OF inv e d(1)]
  show "eh_ok (elems\<lparr>eh_elems := hs_poke (hse_addr e) d (eh_elems elems)\<rparr>)"
    using p(1) all d(2) by (auto simp: eh_ok_def hs_all_poke)
  show "eh_abs (elems\<lparr>eh_elems := hs_poke (hse_addr e) d (eh_elems elems)\<rparr>)
      = (eh_abs elems)(el_id d \<mapsto> (el_data d, el_flags d))"
    using p(2) by (simp add: eh_abs_def fun_eq_iff)
qed

text \<open>
  The common end of \<open>elems_hash_process\<close>: an error of the callback is the result, otherwise the callback's results are stored, the element lock and the
  meta lock are released; the deletion branch is dead, since a word masked with 2 is never 1.
\<close>

definition processed ::
  "'v elems_hash \<Rightarrow> u64 \<Rightarrow> ('v \<times> u8 \<times> 'p \<times> int) result \<Rightarrow> ('v elems_hash \<times> 'p \<times> int) result \<Rightarrow> bool" where
  "processed elems elemid called r \<longleftrightarrow>
     (case called of
        Inl err \<Rightarrow> r = Inl err
      | Inr (v, fl, p', ret) \<Rightarrow>
          \<exists>elems'. r = Inr (elems', p', ret) \<and> eh_inv elems' \<and> eh_abs elems' = (eh_abs elems)(elemid \<mapsto> (v, fl))
            \<and> eh_released elems' = eh_released elems)"

lemma finish_process_spec:
  assumes lock: "eh_lock es = Readers 0" "el_lock elem = Writer \<or> el_lock elem = Readers 0"
    and ok': "\<And>d. el_id d = el_id elem \<Longrightarrow> el_lock d = Unlocked \<Longrightarrow>
       eh_ok (es\<lparr>eh_elems := hs_poke (hse_addr e) d (eh_elems es)\<rparr>)
       \<and> eh_abs (es\<lparr>eh_elems := hs_poke (hse_addr e) d (eh_elems es)\<rparr>) = (eh_abs elems)(el_id elem \<mapsto> (el_data d, el_flags d))"
    and rel: "eh_released es = eh_released elems"
  shows "processed elems (el_id elem) (f (el_id elem) (el_data elem) (el_flags elem) p) (finish_process f es e elem p)"
proof (cases "f (el_id elem) (el_data elem) (el_flags elem) p")
  case (Inl err)
  then show ?thesis by (simp add: processed_def finish_process_def call_process_def)
next
  case (Inr r)
  then obtain v fl p' ret where f: "f (el_id elem) (el_data elem) (el_flags elem) p = Inr (v, fl, p', ret)" by (cases r) auto
  define d where "d = elem\<lparr>el_data := v, el_flags := fl, el_lock := Unlocked\<rparr>"
  define elems' where "elems' = es\<lparr>eh_elems := hs_poke (hse_addr e) d (eh_elems es), eh_lock := Unlocked\<rparr>"
  have eq: "elems' = (es\<lparr>eh_elems := hs_poke (hse_addr e) d (eh_elems es)\<rparr>)\<lparr>eh_lock := Unlocked\<rparr>"
    by (simp add: elems'_def)
  have "finish_process f es e elem p = Inr (elems', p', ret)"
    using lock f delete_flag_never [of fl]
    by (auto simp: finish_process_def call_process_def elem_unlock_def meta_unlock_def hs_poke_poke elems'_def d_def Let_def)
  moreover have "eh_inv elems'" "eh_abs elems' = (eh_abs elems)(el_id elem \<mapsto> (v, fl))"
    using ok' [of d] unfolding eq eh_inv_def eh_lock_irrelevant by (simp_all add: d_def)
  moreover have "eh_released elems' = eh_released elems" by (simp add: elems'_def rel)
  ultimately show ?thesis using f by (simp add: processed_def)
qed

lemma elems_process_old:
  assumes inv: "eh_inv elems" and found: "eh_abs elems elemid = Some (v0, fl0)"
  shows "processed elems elemid (f elemid v0 fl0 p) (elems_hash_process create elems elemid (Some f) p flags)"
proof -
  have ok: "eh_ok elems" and l: "eh_lock elems = Unlocked" using inv by (simp_all add: eh_inv_def)
  have hi: "hs_inv el_id (eh_elems elems)" using ok by (simp add: eh_ok_def)
  obtain e where e: "hs_abs el_id (eh_elems elems) elemid = Some e" "el_data (hse_data e) = v0" "el_flags (hse_data e) = fl0"
    using found by (auto simp: eh_abs_def)
  then have mem: "e \<in> set (hs_all (eh_elems elems))" and k: "el_id (hse_data e) = elemid"
    using hs_abs_Some_iff [OF hi] by simp_all
  have lk: "el_lock (hse_data e) = Unlocked" using ok mem by (simp add: eh_ok_def)
  define es where "es = elems\<lparr>eh_lock := Readers 0\<rparr>"
  have oks: "eh_ok es" and ms: "e \<in> set (hs_all (eh_elems es))" and as: "eh_abs es = eh_abs elems"
    using ok mem by (simp_all add: es_def)
  have his: "hs_inv el_id (eh_elems es)"
    and alls: "\<forall>x \<in> set (hs_all (eh_elems es)). hse_addr x < eh_next es \<and> (x = e \<or> el_lock (hse_data x) = Unlocked)"
    using oks by (auto simp: eh_ok_def)
  obtain elem where el: "elem_lock flags (hse_data e) = Inr elem" "el_lock elem = Writer \<or> el_lock elem = Readers 0"
      "el_id elem = elemid" "el_data elem = v0" "el_flags elem = fl0"
    using lk k e by (cases "flags AND 8 \<noteq> 0") (auto simp: elem_lock_def)
  have "elems_hash_process create elems elemid (Some f) p flags = finish_process f es e elem p"
    using l oks eh_probe_abs [OF oks] e el
    by (simp add: elems_hash_process_def meta_rdlock_def es_def)
  moreover have "processed elems (el_id elem) (f (el_id elem) (el_data elem) (el_flags elem) p) (finish_process f es e elem p)"
  proof (rule finish_process_spec)
    show "eh_ok (es\<lparr>eh_elems := hs_poke (hse_addr e) d (eh_elems es)\<rparr>)
       \<and> eh_abs (es\<lparr>eh_elems := hs_poke (hse_addr e) d (eh_elems es)\<rparr>) = (eh_abs elems)(el_id elem \<mapsto> (el_data d, el_flags d))"
      if "el_id d = el_id elem" "el_lock d = Unlocked" for d
      using eh_ok_poke [OF his ms alls _ that(2)] that k el as by simp
  qed (use el es_def in simp_all)
  ultimately show ?thesis using el by simp
qed

lemma elems_process_missing:
  assumes inv: "eh_inv elems" and none: "eh_abs elems elemid = None" and fl: "flags AND 1 = 1"
  shows "elems_hash_process create elems elemid (Some f) p flags = Inr (elems, p, FAIL)"
proof -
  have "eh_ok (elems\<lparr>eh_lock := Readers 0\<rparr>)" "eh_lock elems = Unlocked" using inv by (simp_all add: eh_inv_def)
  moreover have "hs_abs el_id (eh_elems elems) elemid = None" using none by (simp add: eh_abs_def)
  ultimately show ?thesis
    using fl eh_probe_abs [of "elems\<lparr>eh_lock := Readers 0\<rparr>" elemid]
    by (simp add: elems_hash_process_def meta_rdlock_def meta_unlock_def)
qed

lemma elems_process_new:
  assumes inv: "eh_inv elems" and none: "eh_abs elems elemid = None" and fl: "flags AND 1 \<noteq> 1"
  shows "processed elems elemid (f elemid (create elemid p) 0 p) (elems_hash_process create elems elemid (Some f) p flags)"
proof -
  have ok: "eh_ok (elems\<lparr>eh_lock := l\<rparr>)" for l using inv by (simp add: eh_inv_def)
  have lk: "eh_lock elems = Unlocked" using inv by (simp add: eh_inv_def)
  have hi: "hs_inv el_id (eh_elems elems)" using inv by (simp add: eh_inv_def eh_ok_def)
  have n: "hs_abs el_id (eh_elems elems) elemid = None" using none by (simp add: eh_abs_def)
  have pr: "eh_probe (elems\<lparr>eh_lock := l\<rparr>) elemid = Inr None" for l using eh_probe_abs [OF ok] n by simp
  let ?d = "\<lparr>el_id = elemid, el_data = create elemid p, el_flags = 0, el_lock = Writer\<rparr>"
  let ?m = "\<lparr>mem_slots_ok = True, mem_entry = Some (eh_next elems)\<rparr>"
  obtain hs' r where i: "zbx_hashset_insert_ext ?m id (eh_elems elems) ?d = Inr (hs', r)" "hs_inv el_id hs'" "r \<noteq> None"
    "hs_abs el_id (eh_elems elems) (el_id ?d) = None \<Longrightarrow> r \<noteq> None \<Longrightarrow>
       r = Some \<lparr>hse_addr = the (mem_entry ?m), hse_hash = hs_hash_func (eh_elems elems) ?d, hse_data = id ?d\<rparr>"
    "hs_abs el_id hs' = (case r of None \<Rightarrow> hs_abs el_id (eh_elems elems) | Some e \<Rightarrow> (hs_abs el_id (eh_elems elems))(el_id ?d \<mapsto> e))"
    "set (hs_all hs') = (case r of None \<Rightarrow> set (hs_all (eh_elems elems)) | Some e \<Rightarrow> insert e (set (hs_all (eh_elems elems))))"
    by (rule hs_insert_ext_spec [OF hi, where cpy = id and d = ?d and mem = ?m])
       (use inv in \<open>auto simp: eh_inv_def eh_ok_def\<close>)
  define e where "e = \<lparr>hse_addr = eh_next elems, hse_hash = hs_hash_func (eh_elems elems) ?d, hse_data = ?d\<rparr>"
  have r: "r = Some e" using i(3,4) n by (simp add: e_def)
  define es where "es = elems\<lparr>eh_elems := hs', eh_next := Suc (eh_next elems), eh_lock := Readers 0\<rparr>"
  have "create_element create (elems\<lparr>eh_lock := Writer\<rparr>) elemid p
      = Inr ((elems\<lparr>eh_lock := Writer\<rparr>)\<lparr>eh_elems := hs', eh_next := Suc (eh_next elems)\<rparr>, Some e)"
    using i(1) pr r by (simp add: create_element_def zbx_hashset_insert_def glb_rwlock_init_def)
  then have "elems_hash_process create elems elemid (Some f) p flags = finish_process f es e ?d p"
    using lk pr fl
    by (simp add: elems_hash_process_def meta_rdlock_def meta_wrlock_def meta_unlock_def es_def e_def)
  moreover have "processed elems (el_id ?d) (f (el_id ?d) (el_data ?d) (el_flags ?d) p) (finish_process f es e ?d p)"
  proof (rule finish_process_spec)
    have "eh_abs es = (eh_abs elems)(elemid \<mapsto> (create elemid p, 0))"
      using i(5) r by (simp add: eh_abs_def es_def fun_eq_iff e_def)
    moreover have "hs_inv el_id (eh_elems es)" "e \<in> set (hs_all (eh_elems es))"
      "\<forall>x \<in> set (hs_all (eh_elems es)). hse_addr x < eh_next es \<and> (x = e \<or> el_lock (hse_data x) = Unlocked)"
      using i(2,6) r inv by (auto simp: es_def eh_inv_def eh_ok_def e_def less_SucI)
    ultimately show "eh_ok (es\<lparr>eh_elems := hs_poke (hse_addr e) d (eh_elems es)\<rparr>)
       \<and> eh_abs (es\<lparr>eh_elems := hs_poke (hse_addr e) d (eh_elems es)\<rparr>) = (eh_abs elems)(el_id ?d \<mapsto> (el_data d, el_flags d))"
      if "el_id d = el_id ?d" "el_lock d = Unlocked" for d
      using eh_ok_poke [of es e d] that by (simp add: e_def)
  qed (simp_all add: es_def)
  ultimately show ?thesis by simp
qed

lemma elems_process_found:
  assumes "eh_inv elems" "eh_abs elems elemid = Some (v0, fl0)" "f elemid v0 fl0 p = Inr (v, fl, p', ret)"
  shows "\<exists>elems'. elems_hash_process create elems elemid (Some f) p flags = Inr (elems', p', ret)
    \<and> eh_inv elems' \<and> eh_abs elems' = (eh_abs elems)(elemid \<mapsto> (v, fl)) \<and> eh_released elems' = eh_released elems"
  using elems_process_old [OF assms(1,2), of f p create flags] assms(3) by (simp add: processed_def)

lemma elems_process_create:
  assumes "eh_inv elems" "eh_abs elems elemid = None" "flags AND 1 \<noteq> 1" "f elemid (create elemid p) 0 p = Inr (v, fl, p', ret)"
  shows "\<exists>elems'. elems_hash_process create elems elemid (Some f) p flags = Inr (elems', p', ret)
    \<and> eh_inv elems' \<and> eh_abs elems' = (eh_abs elems)(elemid \<mapsto> (v, fl)) \<and> eh_released elems' = eh_released elems"
  using elems_process_new [OF assms(1-3), of f create p] assms(4) by (simp add: processed_def)

section \<open>Deletion and queries\<close>

lemma delete_element_spec:
  assumes "eh_ok elems" "e \<in> set (hs_all (eh_elems elems))" "free_func (Some (hse_data e)) = Inr ret"
  obtains elems' where "delete_element free_func elems (Some e) = Inr (elems', ret)" "eh_ok elems'"
    "eh_abs elems' = (eh_abs elems)(el_id (hse_data e) := None)" "eh_lock elems' = eh_lock elems"
    "eh_released elems' = eh_released elems @ [hse_data e]" "hs_num_slots (eh_elems elems') = hs_num_slots (eh_elems elems)"
proof -
  have inv: "hs_inv el_id (eh_elems elems)" using assms by (simp add: eh_ok_def)
  obtain hs' where r: "zbx_hashset_remove_direct (eh_elems elems) e = Inr hs'" "hs_inv el_id hs'"
    "hs_abs el_id hs' = (hs_abs el_id (eh_elems elems))(el_id (hse_data e) := None)"
    "set (hs_all hs') = set (hs_all (eh_elems elems)) - {e}"
    using inv assms(2) hs_remove_direct_spec by metis
  have "hs_num_slots hs' = hs_num_slots (eh_elems elems)" using hs_remove_direct_slots [OF r(1)] .
  then show thesis
    by (intro that [of "elems\<lparr>eh_elems := hs', eh_released := eh_released elems @ [hse_data e]\<rparr>"])
       (use r assms(1,3) in \<open>auto simp: delete_element_def eh_ok_def eh_abs_def fun_eq_iff\<close>)
qed

lemma elems_delete_spec:
  assumes inv: "eh_inv elems"
  shows "\<exists>elems'. elems_hash_delete free_ret elems elemid
      = Inr (elems', if eh_abs elems elemid = None then FAIL else free_ret)
    \<and> eh_inv elems' \<and> eh_abs elems' = (eh_abs elems)(elemid := None)"
proof -
  have ok: "eh_ok (elems\<lparr>eh_lock := Writer\<rparr>)" and l: "eh_lock elems = Unlocked" using inv by (simp_all add: eh_inv_def)
  have hi: "hs_inv el_id (eh_elems elems)" using inv by (simp add: eh_inv_def eh_ok_def)
  show ?thesis
  proof (cases "hs_abs el_id (eh_elems elems) elemid")
    case None
    then have "elems_hash_delete free_ret elems elemid = Inr (elems\<lparr>eh_lock := Unlocked\<rparr>, FAIL)"
      using l eh_probe_abs [OF ok] by (simp add: elems_hash_delete_def meta_wrlock_def meta_unlock_def)
    moreover have "eh_abs elems elemid = None" using None by (simp add: eh_abs_def)
    ultimately show ?thesis using inv by (simp add: eh_inv_def fun_upd_idem)
  next
    case (Some e)
    then have e: "e \<in> set (hs_all (eh_elems (elems\<lparr>eh_lock := Writer\<rparr>)))" "el_id (hse_data e) = elemid"
      using hs_abs_Some_iff [OF hi] by simp_all
    obtain elems' where d: "delete_element (\<lambda>_. Inr free_ret) (elems\<lparr>eh_lock := Writer\<rparr>) (Some e) = Inr (elems', free_ret)" "eh_ok elems'"
      "eh_abs elems' = (eh_abs elems)(elemid := None)" "eh_lock elems' = Writer"
      using delete_element_spec [OF ok e(1), of "\<lambda>_. Inr free_ret" free_ret] e(2) by (metis eh_lock_irrelevant(2) elems_hash.select_convs(2) elems_hash.surjective elems_hash.update_convs(2))
    then have "elems_hash_delete free_ret elems elemid = Inr (elems'\<lparr>eh_lock := Unlocked\<rparr>, free_ret)"
      using l Some eh_probe_abs [OF ok] by (simp add: elems_hash_delete_def meta_wrlock_def meta_unlock_def)
    moreover have "eh_abs elems elemid \<noteq> None" using Some by (simp add: eh_abs_def)
    ultimately show ?thesis using d by (auto simp: eh_inv_def)
  qed
qed

lemma elems_id_exists_spec:
  assumes "eh_inv elems"
  shows "elems_hash_id_exists elems elemid = Inr (elems, if eh_abs elems elemid = None then FAIL else SUCCEED)"
proof -
  have ok: "eh_ok (elems\<lparr>eh_lock := Readers 0\<rparr>)" and l: "eh_lock elems = Unlocked"
    using assms by (simp_all add: eh_inv_def)
  from l have [simp]: "elems\<lparr>eh_lock := Unlocked\<rparr> = elems" by (cases elems) simp
  show ?thesis
    using l eh_probe_abs [OF ok, of elemid]
    by (simp add: elems_hash_id_exists_def meta_rdlock_def meta_unlock_def eh_abs_def Let_def)
qed

section \<open>The table as an interface\<close>

text \<open>What the clients of the table rely on: processing and deleting an element by its id.\<close>

locale id_store =
  fixes inv :: "'s \<Rightarrow> bool"
    and look :: "'s \<Rightarrow> u64 \<rightharpoonup> 'v \<times> u8"
    and process :: "'s \<Rightarrow> u64 \<Rightarrow> ('v, 'p) elems_cb \<Rightarrow> 'p \<Rightarrow> u64 \<Rightarrow> ('s \<times> 'p \<times> int) result"
    and delete :: "'s \<Rightarrow> u64 \<Rightarrow> ('s \<times> int) result"
    and create :: "u64 \<Rightarrow> 'p \<Rightarrow> 'v"
  assumes process_found: "inv s \<Longrightarrow> look s i = Some (v0, fl0) \<Longrightarrow> f i v0 fl0 p = Inr (v, fl, p', ret) \<Longrightarrow>
      \<exists>s'. process s i f p flags = Inr (s', p', ret) \<and> inv s' \<and> look s' = (look s)(i \<mapsto> (v, fl))"
    and process_missing: "inv s \<Longrightarrow> look s i = None \<Longrightarrow> flags AND 1 = 1 \<Longrightarrow> process s i f p flags = Inr (s, p, -1)"
    and process_create: "inv s \<Longrightarrow> look s i = None \<Longrightarrow> flags AND 1 \<noteq> 1 \<Longrightarrow> f i (create i p) 0 p = Inr (v, fl, p', ret) \<Longrightarrow>
      \<exists>s'. process s i f p flags = Inr (s', p', ret) \<and> inv s' \<and> look s' = (look s)(i \<mapsto> (v, fl))"
    and delete_spec: "inv s \<Longrightarrow> \<exists>s' ret. delete s i = Inr (s', ret) \<and> inv s' \<and> look s' = (look s)(i := None)"
begin

text \<open>An update that creates the element when it is missing.\<close>

lemma process_upsert:
  assumes "inv s" and "\<And>v fl. f i v fl p = Inr (g v, fl, p, ret)"
  shows "\<exists>s'. process s i f p 0 = Inr (s', p, ret) \<and> inv s' \<and> look s' = (look s)(i \<mapsto>
    (case look s i of None \<Rightarrow> (g (create i p), 0) | Some (v, fl) \<Rightarrow> (g v, fl)))"
proof (cases "look s i")
  case None
  with process_create [OF assms(1) None, of 0 f p] assms(2) show ?thesis by simp
next
  case (Some vf)
  then obtain v fl where "look s i = Some (v, fl)" by (cases vf) simp
  with process_found [OF assms(1) this, of f p] assms(2) show ?thesis by simp
qed

text \<open>An update of an element that is left alone when it is missing.\<close>

lemma process_modify:
  assumes "inv s" and "\<And>v fl. f i v fl p = Inr (g v, h v fl, p, ret)"
  shows "\<exists>s' ret'. process s i f p 1 = Inr (s', p, ret') \<and> inv s' \<and> look s' =
    (case look s i of None \<Rightarrow> look s | Some (v, fl) \<Rightarrow> (look s)(i \<mapsto> (g v, h v fl)))"
proof (cases "look s i")
  case None
  with process_missing [OF assms(1) None, of 1 f p] assms(1) show ?thesis by simp
next
  case (Some vf)
  then obtain v fl where "look s i = Some (v, fl)" by (cases vf) simp
  with process_found [OF assms(1) this, of f p] assms(2) show ?thesis by fastforce
qed

end

interpretation eh: id_store eh_inv eh_abs "\<lambda>s i f p flags. elems_hash_process create s i (Some f) p flags"
  "elems_hash_delete free_ret" create
proof (unfold_locales, goal_cases)
  case (1 s i v0 fl0 f p v fl p' ret flags)
  then show ?case using elems_process_found [of s i v0 fl0 f p v fl p' ret create flags] by blast
next
  case (2 s i flags f p)
  then show ?case by (rule elems_process_missing)
next
  case (3 s i flags f p v fl p' ret)
  then show ?case using elems_process_create [of s i flags f create p v fl p' ret] by blast
next
  case (4 s i)
  then show ?case using elems_delete_spec [of s free_ret i] by blast
qed

section \<open>Iteration over the table\<close>

abbreviation elem_triple :: "'v eh_elem hs_entry \<Rightarrow> u64 \<times> 'v \<times> u8" where
  "elem_triple e \<equiv> (el_id (hse_data e), el_data (hse_data e), el_flags (hse_data e))"

definition eh_list :: "'v elems_hash \<Rightarrow> (u64 \<times> 'v \<times> u8) list" where
  "eh_list elems = map elem_triple (concat (hs_slots (eh_elems elems)))"

text \<open>The callback run over a list of elements, its parameters threaded through.\<close>

fun run_callback :: "('v, 'p) elems_cb \<Rightarrow> (u64 \<times> 'v \<times> u8) list \<Rightarrow> 'p \<Rightarrow> ((u64 \<times> 'v \<times> u8) list \<times> 'p) result" where
  "run_callback f [] p = Inr ([], p)"
| "run_callback f ((i, v, fl) # xs) p =
     bind_result (f i v fl p) (\<lambda>(v, fl, p, _).
     bind_result (run_callback f xs p) (\<lambda>(ys, p). Inr ((i, v, fl) # ys, p)))"

lemma map_option_map_of: "map_option g (map_of (map (\<lambda>e. (k e, e)) es) x) = map_of (map (\<lambda>e. (k e, g e)) es) x"
  by (induction es) auto

lemma eh_abs_list: "eh_abs elems = map_of (eh_list elems)"
  by (simp add: fun_eq_iff eh_abs_def hs_abs_def eh_list_def map_option_map_of)

lemma iter_at_poke:
  assumes "iter_on hs it pre e post"
  shows "iter_at (hs_poke a d hs) it (map (poke_entry a d) (pre @ [e])) (map (poke_entry a d) post)"
proof -
  from assms obtain s c1 c2 where s: "it_slot it = int s" "s < length (hs_slots hs)" "it_entry it = Some (hse_addr e)"
      "hs_slots hs ! s = c1 @ e # c2" "pre = concat (take s (hs_slots hs)) @ c1"
      "post = c2 @ concat (drop (Suc s) (hs_slots hs))" unfolding iter_on_def by blast
  let ?f = "poke_entry a d"
  have "iter_on (hs_poke a d hs) it (map ?f pre) (?f e) (map ?f post)"
    unfolding iter_on_def using s
    by (intro exI [of _ s] exI [of _ "map ?f c1"] exI [of _ "map ?f c2"])
       (simp add: hs_poke_def take_map drop_map map_concat)
  then show ?thesis unfolding iter_at_def by auto
qed

lemma iterate_loop_spec:
  assumes "hs_inv el_id (eh_elems elems)" "iter_at (eh_elems elems) it pre post"
    and "hs_all (eh_elems elems) = pre @ post"
    and "\<forall>x \<in> set (pre @ post). hse_addr x < eh_next elems \<and> el_lock (hse_data x) = Unlocked"
    and "run_callback f (map elem_triple post) p = Inr (ys, p')" "length post < fuel"
  shows "\<exists>elems'. iterate_loop fuel f flags elems it p cnt = Inr (elems', p', cnt + int (length post))
    \<and> eh_ok elems' \<and> eh_list elems' = map elem_triple pre @ ys \<and> eh_lock elems' = eh_lock elems
    \<and> eh_released elems' = eh_released elems"
  using assms
proof (induction post arbitrary: elems it pre p ys fuel cnt)
  case Nil
  then obtain n where "fuel = Suc n" by (cases fuel) auto
  with Nil iter_next_spec [OF Nil.prems(1,2)] show ?case
    by (cases "zbx_hashset_iter_next (eh_elems elems) it") (simp add: eh_ok_def eh_list_def)
next
  case (Cons e post)
  then obtain n where n: "fuel = Suc n" "length post < n" by (cases fuel) auto
  obtain it1 where nx: "zbx_hashset_iter_next (eh_elems elems) it = (it1, Some e)" "iter_on (eh_elems elems) it1 pre e post"
    using iter_next_spec [OF Cons.prems(1,2)] by (cases "zbx_hashset_iter_next (eh_elems elems) it") auto
  obtain v fl p1 r ys' where cb: "f (el_id (hse_data e)) (el_data (hse_data e)) (el_flags (hse_data e)) p = Inr (v, fl, p1, r)"
    "run_callback f (map elem_triple post) p1 = Inr (ys', p')" "ys = (el_id (hse_data e), v, fl) # ys'"
    using Cons.prems(5) by (auto simp: bind_result_Inr_iff)
  define d where "d = (hse_data e)\<lparr>el_data := v, el_flags := fl\<rparr>"
  have lk: "el_lock (hse_data e) = Unlocked" using Cons.prems(4) by simp
  define es where "es = elems\<lparr>eh_elems := hs_poke (hse_addr e) d (eh_elems elems)\<rparr>"
  obtain l where l: "elem_lock flags (hse_data e) = Inr ((hse_data e)\<lparr>el_lock := l\<rparr>)" "glb_rwlock_unlock l = Inr Unlocked"
    using lk by (cases "flags AND 8 \<noteq> 0") (auto simp: elem_lock_def)
  have dl: "(hse_data e)\<lparr>el_lock := Unlocked, el_data := v, el_flags := fl\<rparr> = d"
    using lk unfolding d_def by (cases "hse_data e") simp
  have step: "iterate_loop fuel f flags elems it p cnt = iterate_loop n f flags es it1 p1 (cnt + 1)"
    using nx l cb(1) dl lk
    by (cases "hse_data e") (simp add: n call_process_def elem_unlock_def hs_poke_poke es_def Let_def d_def)
  have mem: "e \<in> set (hs_all (eh_elems elems))" using Cons.prems(3) by simp
  have "distinct (map hse_addr (pre @ e # post))" using Cons.prems(1,3) by (simp add: hs_inv_def)
  then have pf: "map (poke_entry (hse_addr e) d) pre = pre" "map (poke_entry (hse_addr e) d) post = post"
    by (auto intro!: map_idI simp: image_iff)
  have "\<exists>elems'. iterate_loop n f flags es it1 p1 (cnt + 1) = Inr (elems', p', (cnt + 1) + int (length post))
    \<and> eh_ok elems' \<and> eh_list elems' = map elem_triple (pre @ [e\<lparr>hse_data := d\<rparr>]) @ ys' \<and> eh_lock elems' = eh_lock es
    \<and> eh_released elems' = eh_released es"
  proof (rule Cons.IH [OF _ _ _ _ cb(2) n(2)])
    show "hs_inv el_id (eh_elems es)"
      using hs_poke_spec(1) [OF Cons.prems(1) mem, of d] by (simp add: es_def d_def)
    show "iter_at (eh_elems es) it1 (pre @ [e\<lparr>hse_data := d\<rparr>]) post"
      using iter_at_poke [OF nx(2), of "hse_addr e" d] pf by (simp add: es_def)
    show "hs_all (eh_elems es) = (pre @ [e\<lparr>hse_data := d\<rparr>]) @ post"
      using pf Cons.prems(3) by (simp add: es_def hs_all_poke)
    show "\<forall>x \<in> set ((pre @ [e\<lparr>hse_data := d\<rparr>]) @ post). hse_addr x < eh_next es \<and> el_lock (hse_data x) = Unlocked"
      using Cons.prems(4) lk by (auto simp: es_def d_def)
  qed
  then show ?case using step cb(3) by (auto simp: d_def es_def)
qed

lemma elems_iterate_spec:
  assumes inv: "eh_inv elems" and r: "run_callback f (eh_list elems) p = Inr (ys, p')"
  shows "\<exists>elems'. elems_hash_iterate elems f p flags = Inr (elems', p', int (length (eh_list elems)))
    \<and> eh_inv elems' \<and> eh_list elems' = ys \<and> eh_released elems' = eh_released elems"
proof -
  let ?es = "elems\<lparr>eh_lock := Readers 0\<rparr>"
  have "\<exists>elems'. iterate_loop (Suc (length (hs_all (eh_elems ?es)))) f flags ?es
      (zbx_hashset_iter_reset \<lparr>it_slot = 0, it_entry = None\<rparr>) p 0 = Inr (elems', p', 0 + int (length (hs_all (eh_elems ?es))))
    \<and> eh_ok elems' \<and> eh_list elems' = map elem_triple [] @ ys \<and> eh_lock elems' = eh_lock ?es
    \<and> eh_released elems' = eh_released ?es"
    using inv r by (intro iterate_loop_spec [OF _ iter_at_reset]) (simp_all add: eh_inv_def eh_ok_def eh_list_def)
  then show ?thesis
    using inv by (auto simp: elems_hash_iterate_def meta_rdlock_def meta_unlock_def eh_inv_def eh_list_def)
qed

section \<open>Updating a table from another\<close>

lemma eh_list_distinct: "eh_inv elems \<Longrightarrow> distinct (map fst (eh_list elems))"
  by (simp add: eh_inv_def eh_ok_def hs_inv_def eh_list_def comp_def)

fun updated_elem :: "(u64 \<rightharpoonup> 'v \<times> u8) \<Rightarrow> ('v \<Rightarrow> 'v \<Rightarrow> 'v) \<Rightarrow> u64 \<times> 'v \<times> u8 \<Rightarrow> u64 \<times> 'v \<times> u8" where
  "updated_elem new cb (i, v, fl) =
     (case new i of None \<Rightarrow> (i, v, ELEM_FLAG_DELETE) | Some (nv, _) \<Rightarrow> (i, cb v nv, fl))"

lemma run_update_delete:
  assumes "eh_inv new_elems"
  shows "\<exists>new'. run_callback (update_delete_func_cb create cb) xs new_elems
      = Inr (map (updated_elem (eh_abs new_elems) cb) xs, new') \<and> eh_inv new' \<and> eh_abs new' = eh_abs new_elems"
  using assms
proof (induction xs arbitrary: new_elems)
  case Nil
  then show ?case by simp
next
  case (Cons x xs)
  obtain i v fl where x: "x = (i, v, fl)" by (cases x)
  show ?case
  proof (cases "eh_abs new_elems i")
    case None
    with Cons.IH [OF Cons.prems] x show ?thesis
      by (auto simp: update_delete_func_cb_def elems_id_exists_spec [OF Cons.prems])
  next
    case (Some w)
    then obtain nv nfl where w: "eh_abs new_elems i = Some (nv, nfl)" by (cases w) simp
    obtain new1 where n: "elems_hash_process create new_elems i (Some (update_process_func_cb cb)) v 0 = Inr (new1, cb v nv, 0)"
      "eh_inv new1" "eh_abs new1 = eh_abs new_elems"
      using elems_process_found [OF Cons.prems w, of "update_process_func_cb cb" v nv nfl "cb v nv" 0 create 0] w
      by (auto simp: update_process_func_cb_def fun_upd_idem)
    from Cons.IH [OF n(2)] n x w show ?thesis
      by (auto simp: update_delete_func_cb_def elems_id_exists_spec [OF Cons.prems])
  qed
qed

text \<open>The ids of the new table that are missing are created and updated once.\<close>

lemma run_add_new:
  assumes "eh_inv elems" "distinct (map fst xs)"
  shows "\<exists>elems'. run_callback (add_new_func_cb create cb) xs elems = Inr (xs, elems') \<and> eh_inv elems'
    \<and> eh_abs elems' = (\<lambda>i. case eh_abs elems i of Some w \<Rightarrow> Some w
        | None \<Rightarrow> map_option (\<lambda>(nv, _). (cb (create i nv) nv, 0)) (map_of xs i))"
  using assms
proof (induction xs arbitrary: elems)
  case Nil
  then show ?case by (auto simp: fun_eq_iff split: option.split)
next
  case (Cons x xs)
  obtain i v fl where x: "x = (i, v, fl)" by (cases x)
  from Cons.prems x have d: "distinct (map fst xs)" "map_of xs i = None" by (auto simp: map_of_eq_None_iff)
  show ?case
  proof (cases "eh_abs elems i")
    case (Some w)
    from Cons.IH [OF Cons.prems(1) d(1)] x Some show ?thesis
      by (auto simp: add_new_func_cb_def elems_id_exists_spec [OF Cons.prems(1)] fun_eq_iff split: option.split)
  next
    case None
    obtain e1 where n: "elems_hash_process create elems i (Some (addnew_func_cb cb)) v 0 = Inr (e1, v, 0)"
      "eh_inv e1" "eh_abs e1 = (eh_abs elems)(i \<mapsto> (cb (create i v) v, 0))"
      using elems_process_create [OF Cons.prems(1) None, of 0 "addnew_func_cb cb" create v]
      by (auto simp: addnew_func_cb_def)
    from Cons.IH [OF n(2) d(1)] n x None d(2) show ?thesis
      by (auto simp: add_new_func_cb_def elems_id_exists_spec [OF Cons.prems(1)] fun_eq_iff split: option.split)
  qed
qed

lemma map_of_updated:
  "map_of (map (updated_elem new cb) xs) i = map_option (\<lambda>(v, fl). snd (updated_elem new cb (i, v, fl))) (map_of xs i)"
  by (induction xs) (auto split: option.splits)

section \<open>Properties\<close>

text \<open>
  Updating a table from another runs to its end with every lock released, leaves the other table
  as it is, updates every element both tables have with the caller's function and creates every
  element only the new table has.  An element that the new table does not have is only flagged: it
  stays in the table.
\<close>

theorem elems_hash_update_spec:
  assumes "eh_inv elems" "eh_inv new_elems"
  shows "\<exists>elems' new'. elems_hash_update create elems new_elems cb = Inr (elems', new')
    \<and> eh_inv elems' \<and> eh_inv new' \<and> eh_abs new' = eh_abs new_elems
    \<and> eh_abs elems' = (\<lambda>i. case eh_abs elems i of
         Some (v, fl) \<Rightarrow> Some (case eh_abs new_elems i of None \<Rightarrow> (v, ELEM_FLAG_DELETE) | Some (nv, _) \<Rightarrow> (cb v nv, fl))
       | None \<Rightarrow> map_option (\<lambda>(nv, _). (cb (create i nv) nv, 0)) (eh_abs new_elems i))"
proof -
  obtain new1 where a: "run_callback (update_delete_func_cb create cb) (eh_list elems) new_elems
      = Inr (map (updated_elem (eh_abs new_elems) cb) (eh_list elems), new1)" "eh_inv new1" "eh_abs new1 = eh_abs new_elems"
    using run_update_delete [OF assms(2)] by metis
  obtain e1 where b: "elems_hash_iterate elems (update_delete_func_cb create cb) new_elems 16 = Inr (e1, new1, int (length (eh_list elems)))"
      "eh_inv e1" "eh_list e1 = map (updated_elem (eh_abs new_elems) cb) (eh_list elems)"
    using elems_iterate_spec [OF assms(1) a(1)] by metis
  obtain e2 where c: "run_callback (add_new_func_cb create cb) (eh_list new1) e1 = Inr (eh_list new1, e2)" "eh_inv e2"
    "eh_abs e2 = (\<lambda>i. case eh_abs e1 i of Some w \<Rightarrow> Some w
        | None \<Rightarrow> map_option (\<lambda>(nv, _). (cb (create i nv) nv, 0)) (eh_abs new1 i))"
    using run_add_new [OF b(2) eh_list_distinct [OF a(2)]] unfolding eh_abs_list [of new1] by metis
  obtain new2 where d: "elems_hash_iterate new1 (add_new_func_cb create cb) e1 16 = Inr (new2, e2, int (length (eh_list new1)))"
      "eh_inv new2" "eh_list new2 = eh_list new1"
    using elems_iterate_spec [OF a(2) c(1)] by metis
  have "eh_abs new2 = eh_abs new_elems" using d(3) a(3) by (simp add: eh_abs_list)
  moreover have "eh_abs e1 i = map_option (\<lambda>(v, fl). snd (updated_elem (eh_abs new_elems) cb (i, v, fl))) (eh_abs elems i)" for i
    using b(3) by (simp add: eh_abs_list [of e1] eh_abs_list [of elems] map_of_updated)
  ultimately show ?thesis
    using b(1,2) c(2,3) d(1,2) a(3)
    by (auto simp: elems_hash_update_def fun_eq_iff split: option.splits)
qed

text \<open>Two tables with one element each, for the instances below.\<close>

definition one_elem :: "u64 \<Rightarrow> nat \<Rightarrow> nat elems_hash" where
  "one_elem i v = fst (case elems_hash_process (\<lambda>_ p. p) (elems_hash_init 0) i (Some (\<lambda>_ v fl p. Inr (v, fl, p, 0))) v 0 of Inr r \<Rightarrow> r)"

lemma one_elem_spec: "eh_inv (one_elem i v)" "eh_abs (one_elem i v) = [i \<mapsto> (v, 0)]"
proof -
  obtain s' where "elems_hash_process (\<lambda>_ p. p) (elems_hash_init 0) i (Some (\<lambda>_ v fl p. Inr (v, fl, p, 0))) v 0 = Inr (s', v, 0)"
    "eh_inv s'" "eh_abs s' = [i \<mapsto> (v, 0)]"
    using eh.process_create [OF eh_init_inv(1), where i = i and flags = 0 and p = v and create = "\<lambda>_ p. p"
        and f = "\<lambda>_ v fl p. Inr (v, fl, p, 0)" and v = v and fl = 0 and p' = v and ret = 0]
    by (auto simp: eh_init_inv(2))
  then show "eh_inv (one_elem i v)" "eh_abs (one_elem i v) = [i \<mapsto> (v, 0)]" by (simp_all add: one_elem_def)
qed

theorem elems_hash_update_spec_witness:
  "\<exists>elems' new'. elems_hash_update (\<lambda>_ _. 0) (one_elem 1 10) (one_elem 2 20) (\<lambda>v nv. nv) = Inr (elems', new')
    \<and> eh_abs elems' 1 = Some (10, 2) \<and> eh_abs elems' 2 = Some (20, 0)"
  using elems_hash_update_spec [OF one_elem_spec(1) one_elem_spec(1), of "\<lambda>_ _. 0" 1 10 2 20 "\<lambda>v nv. nv"]
  by (auto simp: one_elem_spec(2))

text \<open>The result of a mass deletion when the search for one of the ids fails.\<close>

definition null_deleted :: "'v elem_free_cb \<Rightarrow> 'v elems_hash \<Rightarrow> int \<Rightarrow> ('v elems_hash \<times> int) result" where
  "null_deleted free_func elems cnt =
     bind_result (free_func None) (\<lambda>_. if hs_num_slots (eh_elems elems) = 0 then Inr (elems, cnt) else Inl NullDeref)"

lemma mass_delete_no_slots:
  assumes "eh_ok elems" "hs_num_slots (eh_elems elems) = 0" "free_func None = Inr ret"
  shows "mass_delete_loop free_func elems ids cnt = Inr (elems, cnt + int (length ids))"
proof (induction ids arbitrary: cnt)
  case (Cons i ids)
  have "hs_all (eh_elems elems) = []" using assms(1,2) by (simp add: eh_ok_def hs_inv_def)
  then have "eh_probe elems i = Inr None" using eh_probe_abs [OF assms(1), of i] by (simp add: hs_abs_def del: concat_eq_Nil_conv)
  then show ?case using Cons.IH assms(2,3) by (simp add: delete_element_def)
qed simp

lemma mass_delete_loop_spec:
  assumes "eh_ok elems" "\<And>d. \<exists>ret. free_func (Some d) = Inr ret"
  shows "if distinct ids \<and> (\<forall>i \<in> set ids. eh_abs elems i \<noteq> None)
    then \<exists>elems'. mass_delete_loop free_func elems ids cnt = Inr (elems', cnt + int (length ids)) \<and> eh_ok elems'
      \<and> eh_abs elems' = (\<lambda>i. if i \<in> set ids then None else eh_abs elems i) \<and> eh_lock elems' = eh_lock elems
    else mass_delete_loop free_func elems ids cnt = null_deleted free_func elems (cnt + int (length ids))"
  using assms(1)
proof (induction ids arbitrary: elems cnt)
  case Nil
  then show ?case by auto
next
  case (Cons i ids)
  note p = eh_probe_abs [OF Cons.prems, of i]
  show ?case
  proof (cases "hs_abs el_id (eh_elems elems) i")
    case None
    then have n: "eh_abs elems i = None" by (simp add: eh_abs_def)
    have "mass_delete_loop free_func elems (i # ids) cnt = null_deleted free_func elems (cnt + int (length (i # ids)))"
    proof (cases "free_func None")
      case (Inl err)
      then show ?thesis using None p by (simp add: delete_element_def null_deleted_def)
    next
      case (Inr ret)
      then show ?thesis
        using mass_delete_no_slots [where free_func = free_func, OF Cons.prems _ Inr, of "i # ids" cnt] None p
        by (cases "hs_num_slots (eh_elems elems) = 0") (simp_all add: delete_element_def null_deleted_def)
    qed
    then show ?thesis using n by simp
  next
    case (Some e)
    then have e: "e \<in> set (hs_all (eh_elems elems))" "el_id (hse_data e) = i"
      using hs_abs_Some_iff [of el_id "eh_elems elems"] Cons.prems by (simp_all add: eh_ok_def)
    have e': "eh_abs elems i \<noteq> None" using Some by (simp add: eh_abs_def)
    have slots: "hs_num_slots (eh_elems elems) \<noteq> 0" using hs_in_chain [of el_id "eh_elems elems" e] e(1) Cons.prems by (simp add: eh_ok_def)
    obtain ret where ret: "free_func (Some (hse_data e)) = Inr ret" using assms(2) by blast
    obtain e1 where d: "delete_element free_func elems (Some e) = Inr (e1, ret)" "eh_ok e1" "eh_abs e1 = (eh_abs elems)(i := None)"
      "eh_lock e1 = eh_lock elems" "hs_num_slots (eh_elems e1) = hs_num_slots (eh_elems elems)"
      using delete_element_spec [OF Cons.prems e(1), of free_func ret] ret e(2) by metis
    have step: "mass_delete_loop free_func elems (i # ids) cnt = mass_delete_loop free_func e1 ids (cnt + 1)" using p Some d by simp
    have nd: "null_deleted free_func e1 c = null_deleted free_func elems c'" for c c'
      using slots d(5) by (simp add: null_deleted_def)
    have "distinct ids \<and> (\<forall>j \<in> set ids. eh_abs e1 j \<noteq> None) \<longleftrightarrow> distinct (i # ids) \<and> (\<forall>j \<in> set (i # ids). eh_abs elems j \<noteq> None)"
      using d(3) e' by auto
    with Cons.IH [OF d(2), of "cnt + 1"] step d(4) show ?thesis
      by (auto simp: d(3) intro: nd split: if_splits)
  qed
qed

text \<open>
  C40. Mass deletion of ids that are pairwise different and all in the table removes exactly these elements, in one hold of the
  meta lock, and counts them.  When an id is missing or given twice, the code goes on with the NULL result of
  the search, because the \<open>if\<close> that should guard the deletion has an empty body: the free function gets NULL, and if it
  returns, the removal reads through NULL; only in a table that never had an element nothing happens, and all the ids are counted
  as deleted.  The free function is the client's; it is assumed to return for the elements of the table.
\<close>

theorem elems_hash_mass_delete_spec:
  assumes "eh_inv elems" "\<And>d. \<exists>ret. free_func (Some d) = Inr ret"
  shows "if distinct ids \<and> (\<forall>i \<in> set ids. eh_abs elems i \<noteq> None)
    then \<exists>elems'. elems_hash_mass_delete free_func elems ids = Inr (elems', int (length ids)) \<and> eh_inv elems'
      \<and> eh_abs elems' = (\<lambda>i. if i \<in> set ids then None else eh_abs elems i)
    else elems_hash_mass_delete free_func elems ids =
      (case free_func None of
         Inl err \<Rightarrow> Inl err
       | Inr _ \<Rightarrow> if hs_num_slots (eh_elems elems) = 0 then Inr (elems, int (length ids)) else Inl NullDeref)"
proof (cases "ids = []")
  case True
  with assms show ?thesis by (auto simp: elems_hash_mass_delete_def)
next
  case False
  have "eh_ok (elems\<lparr>eh_lock := Writer\<rparr>)" and l: "eh_lock elems = Unlocked" using assms(1) by (simp_all add: eh_inv_def)
  have u: "elems\<lparr>eh_lock := Unlocked\<rparr> = elems" using l by (cases elems) simp
  note loop = mass_delete_loop_spec [where free_func = free_func, OF \<open>eh_ok (elems\<lparr>eh_lock := Writer\<rparr>)\<close> assms(2), of ids 0, unfolded eh_lock_irrelevant]
  show ?thesis
  proof (cases "distinct ids \<and> (\<forall>i \<in> set ids. eh_abs elems i \<noteq> None)")
    case True
    with loop l False show ?thesis
      by (auto simp: elems_hash_mass_delete_def meta_wrlock_def meta_unlock_def eh_inv_def)
  next
    case no: False
    with loop l u False show ?thesis
      by (auto simp: elems_hash_mass_delete_def meta_wrlock_def meta_unlock_def null_deleted_def split: sum.split)
  qed
qed

theorem elems_hash_mass_delete_spec_witness:
  "(\<exists>elems'. elems_hash_mass_delete (\<lambda>_. Inr 0) (one_elem 1 10) [1] = Inr (elems', 1) \<and> eh_abs elems' 1 = None)
   \<and> elems_hash_mass_delete (\<lambda>_. Inr 0) (elems_hash_init (0 :: nat)) [1, 2] = Inr (elems_hash_init 0, 2)"
proof -
  have "hs_num_slots (eh_elems (elems_hash_init (0 :: nat))) = 0" by (simp add: elems_hash_init_def zbx_hashset_create_ext_def zbx_hashset_init_slots_def)
  moreover have "elems_hash_mass_delete (\<lambda>_. Inr 0) (elems_hash_init (0 :: nat)) [1, 2] =
      (if hs_num_slots (eh_elems (elems_hash_init (0 :: nat))) = 0 then Inr (elems_hash_init 0, 2) else Inl NullDeref)"
    using elems_hash_mass_delete_spec [of "elems_hash_init (0 :: nat)" "\<lambda>_. Inr 0" "[1, 2]"]
    by (auto simp: eh_init_inv split: if_splits)
  moreover have "\<exists>elems'. elems_hash_mass_delete (\<lambda>_. Inr 0) (one_elem 1 10) [1] = Inr (elems', 1) \<and> eh_abs elems' 1 = None"
    using elems_hash_mass_delete_spec [of "one_elem 1 10" "\<lambda>_. Inr 0" "[1]"] by (auto simp: one_elem_spec)
  ultimately show ?thesis by simp
qed

text \<open>
  C13. Processing an id calls the callback exactly on its element, an existing one or, unless the
  caller forbids it, a newly created one with no flags.  An error of the callback is the result; otherwise what the callback left
  is stored under the id, its parameters and its return code are handed on, both locks are
  released, no other element changes and nothing is freed.  In particular the flag by which a callback asks for the deletion of the
  element has no effect: whatever flags the callback sets, the element stays in the table.  A missing id that must not be
  created changes nothing.
\<close>

theorem elems_hash_process_spec:
  assumes "eh_inv elems"
  shows "case eh_abs elems i of
      Some (v, fl) \<Rightarrow> processed elems i (f i v fl p) (elems_hash_process create elems i (Some f) p flags)
    | None \<Rightarrow>
       (if flags AND ELEM_FLAG_DO_NOT_CREATE = 1
        then elems_hash_process create elems i (Some f) p flags = Inr (elems, p, FAIL)
        else processed elems i (f i (create i p) 0 p) (elems_hash_process create elems i (Some f) p flags))"
  using elems_process_missing [OF assms, of i flags create f p] elems_process_new [OF assms, of i flags f create p]
    elems_process_old [OF assms, of i _ _ f p create flags]
  by (auto split: option.split)

theorem elems_hash_process_spec_witness:
  "\<exists>elems'. elems_hash_process (\<lambda>_ _. 0) (one_elem 1 10) 1 (Some (\<lambda>_ v fl p. Inr (v + 1, fl OR 2, v, 7))) 0 1 = Inr (elems', 10, 7)
     \<and> eh_abs elems' 1 = Some (11, 2)"
  using elems_hash_process_spec [OF one_elem_spec(1), where f = "\<lambda>_ v fl p. Inr (v + 1, fl OR 2, v, 7)" and i = 1 and p = 0
      and create = "\<lambda>_ _. 0" and flags = 1, of 1 10]
  by (auto simp: one_elem_spec(2) processed_def)

end
