(* ===== verification/Vector.thy ===== *)
theory Vector
  imports AlgoDefs
begin

text \<open>
  \<open>include/zbxalgo.h\<close>: the growing arrays that \<open>ZBX_VECTOR_IMPL\<close> generates for every element type,
  with the searches and set operations on them.

  \<open>vec_values\<close> is the used part of the array, so \<open>values_num\<close> is its length; \<open>vec_alloc\<close> is
  \<open>values_alloc\<close>, 0 exactly when the array pointer is NULL.  \<open>qsort\<close> and \<open>bsearch\<close> are the C library's:
  the first is an insertion sort by the comparison function (the order of equal elements is not
  specified), the second the usual bisection.
\<close>

section \<open>State and operations\<close>

record 'a zbx_vector =
  vec_values :: "'a list"
  vec_alloc :: nat

abbreviation values_num :: "'a zbx_vector \<Rightarrow> nat" where
  "values_num v \<equiv> length (vec_values v)"

definition zbx_vector_create :: "'a zbx_vector" where
  "zbx_vector_create = \<lparr>vec_values = [], vec_alloc = 0\<rparr>"

definition zbx_vector_destroy :: "'a zbx_vector \<Rightarrow> 'a zbx_vector" where
  "zbx_vector_destroy v = \<lparr>vec_values = [], vec_alloc = 0\<rparr>"

definition vector_ensure_free_space :: "'a zbx_vector \<Rightarrow> 'a zbx_vector" where
  "vector_ensure_free_space v =
     (if vec_alloc v = 0 then \<lparr>vec_values = [], vec_alloc = 32\<rparr>
      else if values_num v = vec_alloc v then v\<lparr>vec_alloc := max (vec_alloc v + 1) (vec_alloc v * 3 div 2)\<rparr>
      else v)"

definition zbx_vector_append :: "'a zbx_vector \<Rightarrow> 'a \<Rightarrow> 'a zbx_vector result" where
  "zbx_vector_append v x =
     (let v = vector_ensure_free_space v in
      if values_num v < vec_alloc v then Inr (v\<lparr>vec_values := vec_values v @ [x]\<rparr>) else Inl BadIndex)"

definition zbx_vector_reserve :: "'a zbx_vector \<Rightarrow> nat \<Rightarrow> 'a zbx_vector" where
  "zbx_vector_reserve v n = (if n > vec_alloc v then v\<lparr>vec_alloc := n\<rparr> else v)"

definition zbx_vector_append_array :: "'a zbx_vector \<Rightarrow> 'a list \<Rightarrow> 'a zbx_vector result" where
  "zbx_vector_append_array v xs =
     (let v = zbx_vector_reserve v (values_num v + length xs) in
      if values_num v + length xs \<le> vec_alloc v then Inr (v\<lparr>vec_values := vec_values v @ xs\<rparr>) else Inl BadIndex)"

definition zbx_vector_remove_noorder :: "'a zbx_vector \<Rightarrow> int \<Rightarrow> 'a zbx_vector result" where
  "zbx_vector_remove_noorder v index =
     (if \<not> (0 \<le> index \<and> index < int (values_num v)) then Inl ExitFailure
      else Inr (v\<lparr>vec_values := butlast ((vec_values v)[nat index := last (vec_values v)])\<rparr>))"

definition zbx_vector_remove :: "'a zbx_vector \<Rightarrow> int \<Rightarrow> 'a zbx_vector result" where
  "zbx_vector_remove v index =
     (if \<not> (0 \<le> index \<and> index < int (values_num v)) then Inl ExitFailure
      else Inr (v\<lparr>vec_values := take (nat index) (vec_values v) @ drop (Suc (nat index)) (vec_values v)\<rparr>))"

fun insort_cmp :: "('a \<Rightarrow> 'a \<Rightarrow> int) \<Rightarrow> 'a \<Rightarrow> 'a list \<Rightarrow> 'a list" where
  "insort_cmp cmp x [] = [x]"
| "insort_cmp cmp x (y # ys) = (if cmp x y \<le> 0 then x # y # ys else y # insort_cmp cmp x ys)"

definition qsort :: "('a \<Rightarrow> 'a \<Rightarrow> int) \<Rightarrow> 'a list \<Rightarrow> 'a list" where
  "qsort cmp xs = foldr (insort_cmp cmp) xs []"

definition zbx_vector_sort :: "'a zbx_vector \<Rightarrow> ('a \<Rightarrow> 'a \<Rightarrow> int) \<Rightarrow> 'a zbx_vector" where
  "zbx_vector_sort v cmp = (if 2 \<le> values_num v then v\<lparr>vec_values := qsort cmp (vec_values v)\<rparr> else v)"

text \<open>The loop of \<open>uniq\<close> over \<open>i\<close>, writing in place at \<open>j\<close>.\<close>

fun uniq_loop :: "('a \<Rightarrow> 'a \<Rightarrow> int) \<Rightarrow> nat list \<Rightarrow> nat \<Rightarrow> 'a list \<Rightarrow> nat \<times> 'a list" where
  "uniq_loop cmp [] j xs = (j, xs)"
| "uniq_loop cmp (i # is) j xs =
     (if cmp (xs ! (i - 1)) (xs ! i) \<noteq> 0 then uniq_loop cmp is (j + 1) (xs[j := xs ! i])
      else uniq_loop cmp is j xs)"

definition zbx_vector_uniq :: "'a zbx_vector \<Rightarrow> ('a \<Rightarrow> 'a \<Rightarrow> int) \<Rightarrow> 'a zbx_vector" where
  "zbx_vector_uniq v cmp =
     (if 2 \<le> values_num v then
        (let (j, xs) = uniq_loop cmp [1..<values_num v] 1 (vec_values v) in v\<lparr>vec_values := take j xs\<rparr>)
      else v)"

function nearestindex_loop :: "('a \<Rightarrow> 'a \<Rightarrow> int) \<Rightarrow> 'a list \<Rightarrow> 'a \<Rightarrow> nat \<Rightarrow> nat \<Rightarrow> nat" where
  "nearestindex_loop cmp xs x lo hi =
     (if lo < hi then
        (let mid = (lo + hi) div 2; c = cmp (xs ! mid) x in
         if c < 0 then nearestindex_loop cmp xs x (mid + 1) hi
         else if c = 0 then mid
         else nearestindex_loop cmp xs x lo mid)
      else hi)"
  by pat_completeness auto
termination
  by (relation "measure (\<lambda>(cmp, xs, x, lo, hi). hi - lo)") auto

declare nearestindex_loop.simps [simp del]

definition zbx_vector_nearestindex :: "'a zbx_vector \<Rightarrow> 'a \<Rightarrow> ('a \<Rightarrow> 'a \<Rightarrow> int) \<Rightarrow> nat" where
  "zbx_vector_nearestindex v x cmp = nearestindex_loop cmp (vec_values v) x 0 (values_num v)"

function bsearch_loop :: "('a \<Rightarrow> 'a \<Rightarrow> int) \<Rightarrow> 'a list \<Rightarrow> 'a \<Rightarrow> nat \<Rightarrow> nat \<Rightarrow> nat option" where
  "bsearch_loop cmp xs x l u =
     (if l < u then
        (let idx = (l + u) div 2; c = cmp x (xs ! idx) in
         if c < 0 then bsearch_loop cmp xs x l idx
         else if c > 0 then bsearch_loop cmp xs x (idx + 1) u
         else Some idx)
      else None)"
  by pat_completeness auto
termination
  by (relation "measure (\<lambda>(cmp, xs, x, l, u). u - l)") auto

declare bsearch_loop.simps [simp del]

definition zbx_vector_bsearch :: "'a zbx_vector \<Rightarrow> 'a \<Rightarrow> ('a \<Rightarrow> 'a \<Rightarrow> int) \<Rightarrow> int" where
  "zbx_vector_bsearch v x cmp =
     (case (if values_num v = 0 then None else bsearch_loop cmp (vec_values v) x 0 (values_num v)) of
        Some i \<Rightarrow> int i | None \<Rightarrow> FAIL)"

text \<open>\<open>lsearch\<close> goes on from \<open>*index\<close> and leaves it at the first element that is not smaller.\<close>

function zbx_vector_lsearch :: "'a zbx_vector \<Rightarrow> 'a \<Rightarrow> nat \<Rightarrow> ('a \<Rightarrow> 'a \<Rightarrow> int) \<Rightarrow> nat \<times> int" where
  "zbx_vector_lsearch v x index cmp =
     (if index < values_num v then
        (let c = cmp (vec_values v ! index) x in
         if c < 0 then zbx_vector_lsearch v x (index + 1) cmp
         else if c = 0 then (index, SUCCEED)
         else (index, FAIL))
      else (index, FAIL))"
  by pat_completeness auto
termination
  by (relation "measure (\<lambda>(v, x, index, cmp). values_num v - index)") auto

declare zbx_vector_lsearch.simps [simp del]

fun search_loop :: "('a \<Rightarrow> 'a \<Rightarrow> int) \<Rightarrow> 'a list \<Rightarrow> 'a \<Rightarrow> nat list \<Rightarrow> int" where
  "search_loop cmp xs x [] = FAIL"
| "search_loop cmp xs x (i # is) = (if cmp (xs ! i) x = 0 then int i else search_loop cmp xs x is)"

definition zbx_vector_search :: "'a zbx_vector \<Rightarrow> 'a \<Rightarrow> ('a \<Rightarrow> 'a \<Rightarrow> int) \<Rightarrow> int" where
  "zbx_vector_search v x cmp = search_loop cmp (vec_values v) x [0..<values_num v]"

definition memmove :: "'a list \<Rightarrow> nat \<Rightarrow> nat \<Rightarrow> nat \<Rightarrow> 'a list" where
  "memmove xs dst src n = take dst xs @ take n (drop src xs) @ drop (dst + n) xs"

text \<open>The loop of \<open>setdiff\<close>: the array, \<open>block_start\<close>, \<open>deleted\<close>, \<open>left_index\<close>, \<open>right_index\<close>.\<close>

function setdiff_loop ::
  "('a \<Rightarrow> 'a \<Rightarrow> int) \<Rightarrow> 'a list \<Rightarrow> 'a list \<Rightarrow> nat \<Rightarrow> nat \<Rightarrow> nat \<Rightarrow> nat \<Rightarrow> 'a list \<times> nat \<times> nat" where
  "setdiff_loop cmp left right block_start deleted li ri =
     (if li < length left \<and> ri < length right then
        (let c = cmp (left ! li) (right ! ri);
             li' = (if c \<le> 0 then li + 1 else li);
             ri' = (if c \<ge> 0 then ri + 1 else ri)
         in if c \<noteq> 0 then setdiff_loop cmp left right block_start deleted li' ri'
            else
              (let deleted' = deleted + 1;
                   left' = (if 0 < deleted
                            then memmove left (block_start + 1 - deleted') block_start (li' - 1 - block_start)
                            else left)
               in setdiff_loop cmp left' right li' deleted' li' ri'))
      else (left, block_start, deleted))"
  by pat_completeness auto
termination
proof (relation "measure (\<lambda>(cmp, left, right, bs, d, li, ri). (length left - li) + (length right - ri))", goal_cases)
  case (3 cmp left right bs d li ri c li' ri' d' left')
  then have "length left' \<le> max (length left) (li' - 1)" by (auto simp: memmove_def)
  with 3 show ?case by auto
qed auto

declare setdiff_loop.simps [simp del]

definition zbx_vector_setdiff :: "'a zbx_vector \<Rightarrow> 'a zbx_vector \<Rightarrow> ('a \<Rightarrow> 'a \<Rightarrow> int) \<Rightarrow> 'a zbx_vector" where
  "zbx_vector_setdiff left right cmp =
     (let (xs, block_start, deleted) = setdiff_loop cmp (vec_values left) (vec_values right) 0 0 0 0 in
      if 0 < deleted then
        left\<lparr>vec_values := take (values_num left - deleted)
           (memmove xs (block_start - deleted) block_start (values_num left - block_start))\<rparr>
      else left)"

definition zbx_vector_clear :: "'a zbx_vector \<Rightarrow> 'a zbx_vector" where
  "zbx_vector_clear v = v\<lparr>vec_values := []\<rparr>"

section \<open>Growth\<close>

definition vec_inv :: "'a zbx_vector \<Rightarrow> bool" where
  "vec_inv v \<longleftrightarrow> values_num v \<le> vec_alloc v"

lemma vec_create_inv [inv_intros]: "vec_inv zbx_vector_create"
  by (simp add: vec_inv_def zbx_vector_create_def)

lemma vec_append_spec:
  "vec_inv v \<Longrightarrow> \<exists>v'. zbx_vector_append v x = Inr v' \<and> vec_values v' = vec_values v @ [x] \<and> vec_inv v'"
  by (auto simp: zbx_vector_append_def vector_ensure_free_space_def vec_inv_def Let_def)

lemma vec_append_array_spec:
  "vec_inv v \<Longrightarrow> \<exists>v'. zbx_vector_append_array v xs = Inr v' \<and> vec_values v' = vec_values v @ xs \<and> vec_inv v'"
  by (auto simp: zbx_vector_append_array_def zbx_vector_reserve_def vec_inv_def Let_def)

lemma vec_remove_spec:
  assumes "vec_inv v" "i < values_num v"
  shows "\<exists>v'. zbx_vector_remove v (int i) = Inr v' \<and> vec_values v' = take i (vec_values v) @ drop (Suc i) (vec_values v) \<and> vec_inv v'"
  using assms by (auto simp: zbx_vector_remove_def vec_inv_def)

lemma vec_remove_noorder_mset:
  assumes "i < values_num v" "zbx_vector_remove_noorder v (int i) = Inr v'"
  shows "add_mset (vec_values v ! i) (mset (vec_values v')) = mset (vec_values v)"
proof -
  have "vec_values v' = butlast ((vec_values v)[i := last (vec_values v)])"
    using assms by (simp add: zbx_vector_remove_noorder_def) (metis zbx_vector.select_convs(1) zbx_vector.surjective zbx_vector.update_convs(1))
  with mset_remove_nth_last [OF assms(1)] show ?thesis by simp
qed

section \<open>Sorting and searching\<close>

abbreviation vec_sorted :: "('a \<Rightarrow> 'a \<Rightarrow> int) \<Rightarrow> 'a list \<Rightarrow> bool" where
  "vec_sorted cmp xs \<equiv> sorted_wrt (\<lambda>x y. cmp x y \<le> 0) xs"

lemma mset_qsort [simp]: "mset (qsort cmp xs) = mset xs"
proof -
  have "mset (insort_cmp cmp x ys) = add_mset x (mset ys)" for x ys by (induction ys) auto
  then show ?thesis unfolding qsort_def by (induction xs) auto
qed

lemma length_qsort [simp]: "length (qsort cmp xs) = length xs"
  by (metis mset_qsort size_mset)

lemma set_qsort [simp]: "set (qsort cmp xs) = set xs"
  by (metis mset_qsort set_mset_mset)

context compare_order
begin

lemma sorted_insort_cmp: "vec_sorted cmp ys \<Longrightarrow> vec_sorted cmp (insort_cmp cmp x ys)"
proof (induction ys)
  case (Cons y ys)
  have "set (insort_cmp cmp x ys) = insert x (set ys)" by (induction ys) auto
  with Cons cmp_not_le [of x y] show ?case by (auto intro: cmp_trans)
qed simp

lemma sorted_qsort: "vec_sorted cmp (qsort cmp xs)"
  unfolding qsort_def by (induction xs) (simp_all add: sorted_insort_cmp)

lemma vec_sort_spec:
  "vec_sorted cmp (vec_values (zbx_vector_sort v cmp)) \<and> mset (vec_values (zbx_vector_sort v cmp)) = mset (vec_values v)"
proof (cases "2 \<le> values_num v")
  case True
  then show ?thesis by (simp add: zbx_vector_sort_def sorted_qsort)
next
  case False
  then have "length (vec_values v) = 0 \<or> length (vec_values v) = 1" by linarith
  then show ?thesis by (auto simp: zbx_vector_sort_def length_Suc_conv)
qed

end

definition setdiff_out :: "'a list \<times> nat \<times> nat \<Rightarrow> 'a list" where
  "setdiff_out t = (case t of (xs, b, d) \<Rightarrow> if d = 0 then xs else take (b - d) xs @ drop b xs)"

text \<open>
  The invariant of the loop of \<open>setdiff\<close> on the original array \<open>L\<close>: the part from \<open>block_start\<close> on is
  untouched.
\<close>

definition setdiff_inv :: "'a list \<Rightarrow> 'a list \<Rightarrow> nat \<Rightarrow> nat \<Rightarrow> nat \<Rightarrow> bool" where
  "setdiff_inv L xs b d li \<longleftrightarrow> length xs = length L \<and> li \<le> length L
     \<and> (if d = 0 then xs = L else d \<le> b \<and> b \<le> li \<and> drop b xs = drop b L)"

definition setdiff_kept :: "'a list \<Rightarrow> 'a list \<Rightarrow> nat \<Rightarrow> nat \<Rightarrow> nat \<Rightarrow> 'a list" where
  "setdiff_kept L xs b d li = (if d = 0 then take li L else take (b - d) xs @ drop b (take li L))"

lemma length_memmove: "dst \<le> src \<Longrightarrow> src + n \<le> length xs \<Longrightarrow> length (memmove xs dst src n) = length xs"
  by (simp add: memmove_def)

lemma setdiff_inv_delete:
  assumes inv: "setdiff_inv L xs b d li" and li: "li < length L"
  defines "xs' \<equiv> (if 0 < d then memmove xs (b + 1 - (d + 1)) b (li + 1 - 1 - b) else xs)"
  shows "setdiff_inv L xs' (li + 1) (d + 1) (li + 1)"
    and "setdiff_kept L xs' (li + 1) (d + 1) (li + 1) = setdiff_kept L xs b d li"
proof -
  consider (z) "d = 0" "xs = L" | (p) "0 < d" "d \<le> b" "b \<le> li" "drop b xs = drop b L" "length xs = length L"
    using inv by (auto simp: setdiff_inv_def split: if_splits)
  then have "setdiff_inv L xs' (li + 1) (d + 1) (li + 1)
    \<and> setdiff_kept L xs' (li + 1) (d + 1) (li + 1) = setdiff_kept L xs b d li"
  proof cases
    case z
    with li show ?thesis by (simp add: setdiff_inv_def setdiff_kept_def xs'_def)
  next
    case p
    then have x: "xs' = memmove xs (b - d) b (li - b)" by (simp add: xs'_def)
    have "length xs' = length L" using p li x by (simp add: length_memmove)
    moreover have "drop (li + 1) xs' = drop (li + 1) L"
    proof -
      have "drop (li + 1) xs' = drop (li + 1) xs" using p li by (simp add: x memmove_def)
      also have "\<dots> = drop (li + 1 - b) (drop b xs)" using p(3) by simp
      also have "\<dots> = drop (li + 1) L" unfolding p(4) using p(3) by simp
      finally show ?thesis .
    qed
    moreover have "take (li - d) xs' = take (b - d) xs @ drop b (take li L)"
      using p li by (simp add: x memmove_def drop_take)
    ultimately show ?thesis using p li by (simp add: setdiff_inv_def setdiff_kept_def)
  qed
  then show "setdiff_inv L xs' (li + 1) (d + 1) (li + 1)"
    "setdiff_kept L xs' (li + 1) (d + 1) (li + 1) = setdiff_kept L xs b d li" by simp_all
qed

lemma setdiff_inv_nth: "setdiff_inv L xs b d li \<Longrightarrow> li < length L \<Longrightarrow> xs ! li = L ! li"
  by (auto simp: setdiff_inv_def split: if_splits) (metis hd_drop_conv_nth drop_drop le_add_diff_inverse2)

lemma setdiff_inv_skip:
  assumes "setdiff_inv L xs b d li" "li < length L"
  shows "setdiff_inv L xs b d (li + 1)" "setdiff_kept L xs b d (li + 1) = setdiff_kept L xs b d li @ [L ! li]"
  using assms by (auto simp: setdiff_inv_def setdiff_kept_def take_Suc_conv_app_nth split: if_splits)

lemma setdiff_out_end:
  assumes "setdiff_inv L xs b d li"
  shows "setdiff_out (xs, b, d) = setdiff_kept L xs b d li @ drop li L"
proof (cases "d = 0")
  case True
  with assms show ?thesis by (simp add: setdiff_out_def setdiff_kept_def setdiff_inv_def)
next
  case False
  with assms have b: "b \<le> li" "drop b xs = drop b L" "li \<le> length L" by (simp_all add: setdiff_inv_def)
  then have "drop b L = drop b (take li L) @ drop li L"
    by (metis append_take_drop_id drop_append drop_0 diff_is_0_eq length_take min.absorb2)
  with False b show ?thesis by (simp add: setdiff_out_def setdiff_kept_def)
qed

context compare_linear
begin

lemma sorted_nth_le: "vec_sorted cmp xs \<Longrightarrow> i \<le> j \<Longrightarrow> j < length xs \<Longrightarrow> cmp (xs ! i) (xs ! j) \<le> 0"
  by (cases "i = j") (auto simp: cmp_refl sorted_wrt_iff_nth_less)

definition splits_at :: "'a list \<Rightarrow> 'a \<Rightarrow> nat \<Rightarrow> nat \<Rightarrow> bool" where
  "splits_at xs x lo hi \<longleftrightarrow>
     (\<forall>i < lo. cmp (xs ! i) x < 0) \<and> (\<forall>i. hi \<le> i \<and> i < length xs \<longrightarrow> cmp x (xs ! i) < 0)"

lemma splits_at_up:
  assumes "vec_sorted cmp xs" "splits_at xs x lo hi" "mid < length xs" "cmp (xs ! mid) x < 0"
  shows "splits_at xs x (Suc mid) hi"
  using assms sorted_nth_le [OF assms(1) _ assms(3)] cmp_less_trans unfolding splits_at_def by (metis less_Suc_eq_le)

lemma splits_at_down:
  assumes "vec_sorted cmp xs" "splits_at xs x lo hi" "mid < length xs" "cmp x (xs ! mid) < 0"
  shows "splits_at xs x lo mid"
proof -
  have "cmp x (xs ! i) < 0" if "mid \<le> i" "i < length xs" for i
    using cmp_trans [of x "xs ! mid" "xs ! i"] cmp_antisym [of x "xs ! mid"] sorted_nth_le [OF assms(1) that] assms(4)
    by (metis cmp_neg_iff)
  with assms(2) show ?thesis unfolding splits_at_def by blast
qed

lemma nearestindex_loop_spec:
  assumes "vec_sorted cmp xs" "lo \<le> hi" "hi \<le> length xs" "splits_at xs x lo hi"
  shows "nearestindex_loop cmp xs x lo hi \<le> length xs \<and>
    (nearestindex_loop cmp xs x lo hi < length xs \<and> xs ! nearestindex_loop cmp xs x lo hi = x
     \<or> splits_at xs x (nearestindex_loop cmp xs x lo hi) (nearestindex_loop cmp xs x lo hi))"
  using assms(2-)
proof (induction "hi - lo" arbitrary: lo hi rule: less_induct)
  case less
  show ?case
  proof (cases "lo < hi")
    case False
    then have e: "nearestindex_loop cmp xs x lo hi = hi" by (simp add: nearestindex_loop.simps [of cmp xs x lo hi])
    from False less.prems have "splits_at xs x hi hi" by (auto simp: splits_at_def)
    with less.prems(2) show ?thesis unfolding e by blast
  next
    case True
    define mid where "mid = (lo + hi) div 2"
    have m: "lo \<le> mid" "mid < hi" "mid < length xs" using True less.prems by (auto simp: mid_def)
    consider "cmp (xs ! mid) x < 0" | "cmp (xs ! mid) x = 0" | "cmp (xs ! mid) x > 0" by linarith
    then show ?thesis
    proof cases
      case 1
      with True have "nearestindex_loop cmp xs x lo hi = nearestindex_loop cmp xs x (Suc mid) hi"
        by (simp add: nearestindex_loop.simps [of cmp xs x lo hi] mid_def [symmetric] Let_def)
      with less.hyps [of hi "Suc mid"] less.prems m splits_at_up [OF assms(1) less.prems(3) m(3) 1]
      show ?thesis by simp
    next
      case 2
      with True have "nearestindex_loop cmp xs x lo hi = mid"
        by (simp add: nearestindex_loop.simps [of cmp xs x lo hi] mid_def [symmetric] Let_def)
      with 2 m cmp_zero show ?thesis by simp
    next
      case 3
      with True have "nearestindex_loop cmp xs x lo hi = nearestindex_loop cmp xs x lo mid"
        by (simp add: nearestindex_loop.simps [of cmp xs x lo hi] mid_def [symmetric] Let_def)
      with less.hyps [of mid lo] less.prems m splits_at_down [OF assms(1) less.prems(3) m(3)] 3 cmp_pos_iff
      show ?thesis by simp
    qed
  qed
qed

lemma splits_at_notin: "splits_at xs x h h \<Longrightarrow> x \<notin> set xs"
  unfolding splits_at_def using cmp_zero [of x x] by (auto simp: in_set_conv_nth) (metis not_less less_irrefl)

lemma nearestindex_spec:
  fixes x :: 'a
  assumes "vec_sorted cmp (vec_values v)"
  defines "r \<equiv> zbx_vector_nearestindex v x cmp"
  shows "if x \<in> set (vec_values v) then r < values_num v \<and> vec_values v ! r = x
    else r \<le> values_num v \<and> (\<forall>i < r. cmp (vec_values v ! i) x < 0)
      \<and> (\<forall>i. r \<le> i \<and> i < values_num v \<longrightarrow> cmp x (vec_values v ! i) < 0)"
proof -
  have "splits_at (vec_values v) x 0 (values_num v)" by (simp add: splits_at_def)
  from nearestindex_loop_spec [OF assms(1) _ _ this]
  have "r < values_num v \<and> vec_values v ! r = x \<or> r \<le> values_num v \<and> splits_at (vec_values v) x r r"
    by (auto simp: r_def zbx_vector_nearestindex_def)
  then show ?thesis using splits_at_notin [of "vec_values v" x r] nth_mem [of r "vec_values v"]
    by (auto simp: splits_at_def)
qed

lemma bsearch_loop_spec:
  assumes "vec_sorted cmp xs" "u \<le> length xs" "splits_at xs x l u"
  shows "case bsearch_loop cmp xs x l u of Some i \<Rightarrow> i < length xs \<and> xs ! i = x | None \<Rightarrow> x \<notin> set xs"
  using assms(2-)
proof (induction "u - l" arbitrary: l u rule: less_induct)
  case less
  show ?case
  proof (cases "l < u")
    case False
    then have "splits_at xs x u u" using less.prems by (auto simp: splits_at_def)
    with False splits_at_notin show ?thesis by (simp add: bsearch_loop.simps [of cmp xs x l u])
  next
    case True
    define idx where "idx = (l + u) div 2"
    have m: "l \<le> idx" "idx < u" "idx < length xs" using True less.prems by (auto simp: idx_def)
    note eq = bsearch_loop.simps [of cmp xs x l u, unfolded Let_def idx_def [symmetric]]
    consider "cmp x (xs ! idx) < 0" | "cmp x (xs ! idx) = 0" | "cmp x (xs ! idx) > 0" by linarith
    then show ?thesis
    proof cases
      case 1
      with less.hyps [of idx l] less.prems m splits_at_down [OF assms(1) less.prems(2) m(3) 1] True
      show ?thesis by (simp add: eq)
    next
      case 2
      with True have e: "bsearch_loop cmp xs x l u = Some idx" by (simp add: eq)
      show ?thesis unfolding e using 2 m cmp_zero by simp
    next
      case 3
      then have "cmp (xs ! idx) x < 0" by (simp add: cmp_pos_iff)
      with less.hyps [of u "Suc idx"] less.prems m splits_at_up [OF assms(1) less.prems(2) m(3)] True 3
      show ?thesis by (simp add: eq)
    qed
  qed
qed

lemma bsearch_spec:
  assumes "vec_sorted cmp (vec_values v)"
  shows "if x \<in> set (vec_values v)
    then 0 \<le> zbx_vector_bsearch v x cmp \<and> nat (zbx_vector_bsearch v x cmp) < values_num v
      \<and> vec_values v ! nat (zbx_vector_bsearch v x cmp) = x
    else zbx_vector_bsearch v x cmp = -1"
proof -
  have "splits_at (vec_values v) x 0 (values_num v)" by (simp add: splits_at_def)
  from bsearch_loop_spec [OF assms(1) _ this] show ?thesis
    by (auto simp: zbx_vector_bsearch_def split: option.splits)
qed

lemma uniq_loop_spec:
  assumes "1 \<le> i" "i \<le> length L" "length xs = length L" "j \<le> i"
    and "take j xs = remdups_adj (take i L)" "drop (i - 1) xs = drop (i - 1) L"
  shows "take (fst (uniq_loop cmp [i..<length L] j xs)) (snd (uniq_loop cmp [i..<length L] j xs)) = remdups_adj L"
  using assms
proof (induction "length L - i" arbitrary: i j xs)
  case 0
  then show ?case by simp
next
  case (Suc n)
  then have i: "i < length L" by simp
  obtain k where k: "i = Suc k" using Suc.prems(1) by (cases i) auto
  have ln: "length (take j xs) = j" using Suc.prems(3,4) i by (simp only: length_take)
  have nth: "xs ! k = L ! k" "xs ! i = L ! i"
    using Suc.prems(6) i Suc.prems(3) k
    by (metis diff_Suc_1 hd_drop_conv_nth Suc_lessD, metis Cons_nth_drop_Suc Suc_lessD diff_Suc_1 hd_drop_conv_nth list.sel(3))
  have "take (Suc i) L = take k L @ [L ! k, L ! i]" using i k by (simp add: take_Suc_conv_app_nth)
  moreover have "take i L = take k L @ [L ! k]" using i k by (simp add: take_Suc_conv_app_nth)
  ultimately have ra: "remdups_adj (take (Suc i) L) = remdups_adj (take i L) @ (if L ! k = L ! i then [] else [L ! i])"
    by (simp add: remdups_adj_append_two)
  have dr: "drop i xs = drop i L" using Suc.prems(6) k by (metis diff_Suc_1 drop_Suc tl_drop)
  let ?j = "if L ! k = L ! i then j else j + 1" and ?xs = "if L ! k = L ! i then xs else xs[j := L ! i]"
  have "uniq_loop cmp [i..<length L] j xs = uniq_loop cmp [Suc i..<length L] ?j ?xs"
    using i nth k cmp_zero by (simp add: upt_conv_Cons)
  moreover have "take ?j ?xs = remdups_adj (take (Suc i) L)"
    using ra Suc.prems(3-5) i ln by (auto simp: take_Suc_conv_app_nth)
  moreover have "drop (Suc i - 1) ?xs = drop (Suc i - 1) L"
  proof (cases "j < i")
    case True
    then show ?thesis using dr by simp
  next
    case False
    then have "j = i" using Suc.prems(4) by simp
    moreover have "xs[i := L ! i] = xs" using nth(2) by (metis list_update_id)
    ultimately show ?thesis using dr by simp
  qed
  ultimately show ?case using Suc.hyps(1) [of "Suc i" ?xs ?j] Suc.hyps(2) Suc.prems i by simp
qed

lemma uniq_remdups_adj: "vec_values (zbx_vector_uniq v cmp) = remdups_adj (vec_values v)"
proof (cases "2 \<le> values_num v")
  case True
  then obtain x y ys where "vec_values v = x # y # ys" by (metis Suc_le_length_iff numeral_2_eq_2)
  then have "take 1 (vec_values v) = remdups_adj (take 1 (vec_values v))" by simp
  with True uniq_loop_spec [of 1 "vec_values v" "vec_values v" 1] show ?thesis
    by (simp add: zbx_vector_uniq_def case_prod_beta Let_def del: upt_Suc)
next
  case False
  then have "length (vec_values v) = 0 \<or> length (vec_values v) = 1" by linarith
  then show ?thesis by (auto simp: zbx_vector_uniq_def length_Suc_conv)
qed

lemma sorted_remdups_adj:
  "vec_sorted cmp xs \<Longrightarrow> sorted_wrt (\<lambda>x y. cmp x y < 0) (remdups_adj xs)"
proof (induction xs rule: remdups_adj.induct)
  case (3 x y xs)
  show ?case
  proof (cases "x = y")
    case True
    with 3 show ?thesis by simp
  next
    case False
    have "cmp x z < 0" if "z = y \<or> z \<in> set xs" for z
    proof -
      have "cmp x y < 0" using 3(3) False by (simp add: cmp_neg_iff)
      moreover have "cmp y z \<le> 0" using 3(3) that cmp_refl by auto
      ultimately show ?thesis using cmp_trans [of x y z] cmp_antisym [of x y] by (metis cmp_neg_iff)
    qed
    with 3 False show ?thesis by simp
  qed
qed simp_all

fun merge_diff :: "'a list \<Rightarrow> 'a list \<Rightarrow> 'a list" where
  "merge_diff [] ys = []"
| "merge_diff xs [] = xs"
| "merge_diff (x # xs) (y # ys) =
     (if cmp x y < 0 then x # merge_diff xs (y # ys)
      else if cmp x y = 0 then merge_diff xs ys
      else merge_diff (x # xs) ys)"

lemma merge_diff_mset:
  "vec_sorted cmp xs \<Longrightarrow> vec_sorted cmp ys \<Longrightarrow> mset (merge_diff xs ys) = mset xs - mset ys"
proof (induction xs ys rule: merge_diff.induct)
  case (3 x xs y ys)
  have lt: "cmp u w < 0 \<Longrightarrow> cmp w z \<le> 0 \<Longrightarrow> u \<noteq> z" for u w z
    using cmp_antisym cmp_neg_iff by blast
  consider "cmp x y < 0" | "cmp x y = 0" | "cmp x y > 0" by linarith
  then show ?case
  proof cases
    case 1
    have "x \<notin> set (y # ys)" using 1 3(5) lt [OF 1] cmp_refl by auto
    then have "mset (x # xs) - mset (y # ys) = add_mset x (mset xs - mset (y # ys))"
      by (auto simp: add_mset_diff_bothsides diff_add_mset_swap)
    with 1 3 show ?thesis by simp
  next
    case 2
    with 3 cmp_zero [of x y] show ?thesis by simp
  next
    case 3
    then have g: "cmp y x < 0" by (simp add: cmp_pos_iff)
    have "y \<notin> set (x # xs)" using 3 "3.prems"(1) lt [OF g] cmp_refl by auto
    then have "mset (x # xs) - mset (y # ys) = mset (x # xs) - mset ys"
      by (simp add: minus_add_mset_if_not_in_lhs)
    with 3 "3.prems" "3.IH"(3) show ?thesis by simp
  qed
qed simp_all

lemma setdiff_loop_inv:
  assumes "setdiff_inv L xs b d li" "setdiff_loop cmp xs R b d li ri = (xs', b', d')"
  shows "\<exists>li'. setdiff_inv L xs' b' d' li'"
  using assms
proof (induction "(length L - li) + (length R - ri)" arbitrary: xs b d li ri rule: less_induct)
  case less
  note eq = setdiff_loop.simps [of cmp xs R b d li ri, unfolded Let_def]
  have len: "length xs = length L" using less.prems by (simp add: setdiff_inv_def)
  show ?case
  proof (cases "li < length L \<and> ri < length R")
    case False
    with less.prems len have "xs = xs'" "b = b'" "d = d'" by (auto simp: eq)
    with less.prems(1) show ?thesis by blast
  next
    case True
    then have li: "li < length L" and ri: "ri < length R" by simp_all
    from less.prems(2) len True show ?thesis
      using less.hyps [OF _ setdiff_inv_skip(1) [OF less.prems(1) li], of ri]
        less.hyps [OF _ setdiff_inv_delete(1) [OF less.prems(1) li], of "ri + 1"]
        less.hyps [OF _ less.prems(1), of "ri + 1"]
      by (auto simp: eq split: if_splits)
  qed
qed

lemma setdiff_loop_spec:
  assumes "setdiff_inv L xs b d li" "ri \<le> length R"
  shows "setdiff_out (setdiff_loop cmp xs R b d li ri) = setdiff_kept L xs b d li @ merge_diff (drop li L) (drop ri R)"
  using assms
proof (induction "(length L - li) + (length R - ri)" arbitrary: xs b d li ri rule: less_induct)
  case less
  have len: "length xs = length L" using less.prems by (simp add: setdiff_inv_def)
  show ?case
  proof (cases "li < length L \<and> ri < length R")
    case False
    then have "setdiff_loop cmp xs R b d li ri = (xs, b, d)" using len by (auto simp: setdiff_loop.simps [of cmp xs])
    moreover have "merge_diff (drop li L) (drop ri R) = drop li L"
      using False by (cases "drop li L") (auto simp: not_less)
    ultimately show ?thesis using setdiff_out_end [OF less.prems(1)] by simp
  next
    case True
    then have li: "li < length L" and ri: "ri < length R" by simp_all
    note nth = setdiff_inv_nth [OF less.prems(1) li]
    note dr = Cons_nth_drop_Suc [OF li, symmetric] Cons_nth_drop_Suc [OF ri, symmetric]
    note eq = setdiff_loop.simps [of cmp xs R b d li ri, unfolded Let_def]
    consider "cmp (L ! li) (R ! ri) < 0" | "cmp (L ! li) (R ! ri) = 0" | "cmp (L ! li) (R ! ri) > 0" by linarith
    then show ?thesis
    proof cases
      case 1
      with len li ri nth have "setdiff_loop cmp xs R b d li ri = setdiff_loop cmp xs R b d (li + 1) ri" by (subst eq) simp
      with less.hyps [OF _ setdiff_inv_skip(1) [OF less.prems(1) li] less.prems(2)] 1 li
        setdiff_inv_skip(2) [OF less.prems(1) li] show ?thesis by (simp add: dr)
    next
      case 2
      let ?xs = "if 0 < d then memmove xs (b + 1 - (d + 1)) b (li + 1 - 1 - b) else xs"
      have "setdiff_loop cmp xs R b d li ri = setdiff_loop cmp ?xs R (li + 1) (d + 1) (li + 1) (ri + 1)"
        using 2 len li ri nth by (subst eq) simp
      with less.hyps [OF _ setdiff_inv_delete(1) [OF less.prems(1) li], of "ri + 1"] 2 li ri
        setdiff_inv_delete(2) [OF less.prems(1) li] show ?thesis by (simp add: dr)
    next
      case 3
      with len li ri nth have "setdiff_loop cmp xs R b d li ri = setdiff_loop cmp xs R b d li (ri + 1)" by (subst eq) simp
      with less.hyps [OF _ less.prems(1), of "ri + 1"] 3 ri li show ?thesis by (simp add: dr)
    qed
  qed
qed

lemma setdiff_merge_diff: "vec_values (zbx_vector_setdiff left right cmp) = merge_diff (vec_values left) (vec_values right)"
proof -
  let ?L = "vec_values left" and ?R = "vec_values right"
  obtain xs b d where t: "setdiff_loop cmp ?L ?R 0 0 0 0 = (xs, b, d)" by (metis prod_cases3)
  have "setdiff_out (xs, b, d) = merge_diff ?L ?R"
    using setdiff_loop_spec [of ?L ?L 0 0 0 0 ?R] by (simp add: t setdiff_inv_def setdiff_kept_def)
  moreover have "0 < d \<and> d \<le> b \<and> b \<le> length xs \<and> length xs = length ?L \<or> d = 0 \<and> xs = ?L"
    using setdiff_loop_inv [of ?L ?L 0 0 0 ?R 0] t by (auto simp: setdiff_inv_def split: if_splits)
  ultimately show ?thesis
    by (auto simp: zbx_vector_setdiff_def t setdiff_out_def memmove_def split: if_splits)
qed

end

section \<open>Properties\<close>

text \<open>
  Sorting a vector of ids and dropping adjacent duplicates leaves each id once, in strictly
  ascending order.
\<close>

theorem vector_uint64_sort_uniq:
  "let v' = zbx_vector_uniq (zbx_vector_sort v zbx_default_uint64_compare_func) zbx_default_uint64_compare_func
   in sorted_wrt (<) (vec_values v') \<and> set (vec_values v') = set (vec_values v)"
proof -
  let ?c = "zbx_default_uint64_compare_func" and ?s = "vec_values (zbx_vector_sort v zbx_default_uint64_compare_func)"
  have "?c x y < 0 \<longleftrightarrow> x < y" for x y
    by (auto simp: zbx_default_uint64_compare_func_def return_if_not_equal_def)
  moreover have "set ?s = set (vec_values v)" using uint64_cmp.vec_sort_spec [of v] by (metis mset_eq_setD)
  ultimately show ?thesis
    using uint64_cmp.vec_sort_spec [of v] uint64_cmp.sorted_remdups_adj [of ?s]
    by (simp add: uint64_cmp.uniq_remdups_adj)
qed

text \<open>
  The difference of two sorted vectors, computed in place by moving the kept blocks, is the
  multiset difference: of an id that both vectors have, as many copies are removed as the right
  vector has.
\<close>

theorem vector_uint64_setdiff:
  assumes "sorted (vec_values left)" "sorted (vec_values right)"
  shows "mset (vec_values (zbx_vector_setdiff left right zbx_default_uint64_compare_func))
    = mset (vec_values left) - mset (vec_values right)"
proof -
  have "zbx_default_uint64_compare_func x y \<le> 0 \<longleftrightarrow> x \<le> y" for x y
    by (auto simp: zbx_default_uint64_compare_func_def return_if_not_equal_def)
  with assms show ?thesis
    by (simp add: uint64_cmp.setdiff_merge_diff uint64_cmp.merge_diff_mset)
qed

theorem vector_uint64_setdiff_witness:
  "mset (vec_values (zbx_vector_setdiff \<lparr>vec_values = [1, 2, 2, 5, 9], vec_alloc = 32\<rparr>
     \<lparr>vec_values = [2, 3, 9], vec_alloc = 32\<rparr> zbx_default_uint64_compare_func)) = {#1, 2, 5#}"
  using vector_uint64_setdiff [of "\<lparr>vec_values = [1, 2, 2, 5, 9], vec_alloc = 32\<rparr>" "\<lparr>vec_values = [2, 3, 9], vec_alloc = 32\<rparr>"]
  by (simp add: add_mset_commute)

text \<open>
  On a sorted vector of ids the nearest index is the position of the id when the vector has it,
  and otherwise the position at which inserting it keeps the order.
\<close>

theorem vector_uint64_nearestindex:
  assumes "sorted (vec_values v)"
  shows "let r = zbx_vector_nearestindex v x zbx_default_uint64_compare_func; xs = vec_values v in
    if x \<in> set xs then r < length xs \<and> xs ! r = x
    else r \<le> length xs \<and> sorted (take r xs @ [x] @ drop r xs)"
proof -
  have le: "zbx_default_uint64_compare_func x y \<le> 0 \<longleftrightarrow> x \<le> y" "zbx_default_uint64_compare_func x y < 0 \<longleftrightarrow> x < y" for x y
    by (auto simp: zbx_default_uint64_compare_func_def return_if_not_equal_def)
  let ?r = "zbx_vector_nearestindex v x zbx_default_uint64_compare_func" and ?xs = "vec_values v"
  have n: "if x \<in> set ?xs then ?r < length ?xs \<and> ?xs ! ?r = x
    else ?r \<le> length ?xs \<and> (\<forall>i < ?r. ?xs ! i < x) \<and> (\<forall>i. ?r \<le> i \<and> i < length ?xs \<longrightarrow> x < ?xs ! i)"
    using uint64_cmp.nearestindex_spec [of v x] assms unfolding le by simp
  moreover have "sorted (take ?r ?xs @ [x] @ drop ?r ?xs)" if "x \<notin> set ?xs"
  proof -
    have "\<forall>y \<in> set (take ?r ?xs). y < x" "\<forall>y \<in> set (drop ?r ?xs). x < y"
      using n that by (auto simp: in_set_conv_nth)
    moreover have "sorted (take ?r ?xs @ drop ?r ?xs)" using assms by simp
    ultimately show ?thesis unfolding sorted_append by force
  qed
  ultimately show ?thesis by (simp add: Let_def)
qed

theorem vector_uint64_nearestindex_witness:
  "zbx_vector_nearestindex \<lparr>vec_values = [1, 4, 9], vec_alloc = 32\<rparr> 4 zbx_default_uint64_compare_func = 1"
  using vector_uint64_nearestindex [of "\<lparr>vec_values = [1, 4, 9], vec_alloc = 32\<rparr>" 4]
  by (auto simp: Let_def less_Suc_eq nth_Cons' split: if_splits)

end
