(* ===== verification/Obj_Index.thy ===== *)
theory Obj_Index
  imports Elems_Hash Vector
begin

text \<open>
  \<open>src/libs/zbxalgo/obj_index.c\<close>: the two-way index of references between object ids (hosts to
  items, items to triggers), two tables of reference vectors kept in step.

  A callback without a \<open>return\<close> statement is modelled as returning \<open>SUCCEED\<close>; no caller uses the
  value.
\<close>

section \<open>State and operations\<close>

type_synonym ref_id = "u64 zbx_vector"

record obj_index =
  from_to :: "ref_id elems_hash"
  to_from :: "ref_id elems_hash"

definition ref_create_callback :: "u64 \<Rightarrow> 'p \<Rightarrow> ref_id" where
  "ref_create_callback elemid p = zbx_vector_create"

definition obj_index_init :: obj_index where
  "obj_index_init =
     \<lparr>from_to = elems_hash_init zbx_vector_create, to_from = elems_hash_init zbx_vector_create\<rparr>"

definition add_ref_nosort_callback :: "(ref_id, u64) elems_cb" where
  "add_ref_nosort_callback elemid ref flags id_to =
     bind_result (zbx_vector_append ref id_to) (\<lambda>ref. Inr (ref, flags, id_to, SUCCEED))"

definition add_ref_callback :: "(ref_id, u64) elems_cb" where
  "add_ref_callback elemid ref flags id_to =
     bind_result (zbx_vector_append ref id_to) (\<lambda>ref.
       Inr (zbx_vector_sort ref zbx_default_uint64_compare_func, flags, id_to, SUCCEED))"

definition del_ref_callback :: "(ref_id, u64) elems_cb" where
  "del_ref_callback elemid ref flags id_to =
     (let i = zbx_vector_bsearch ref id_to zbx_default_uint64_compare_func in
      if i = FAIL then Inr (ref, flags, id_to, SUCCEED)
      else
        bind_result (zbx_vector_remove ref i) (\<lambda>ref.
          Inr (ref, if values_num ref = 0 then flags OR ELEM_FLAG_DELETE else flags, id_to, SUCCEED)))"

definition get_refs_callback :: "(ref_id, u64 zbx_vector) elems_cb" where
  "get_refs_callback elemid ref flags out_refs =
     bind_result (zbx_vector_append_array (zbx_vector_reserve out_refs (values_num ref)) (vec_values ref)) (\<lambda>out_refs.
       Inr (ref, flags, out_refs, SUCCEED))"

text \<open>The loop that deletes the back references of an id.\<close>

fun del_back_refs :: "ref_id elems_hash \<Rightarrow> u64 list \<Rightarrow> u64 \<Rightarrow> ref_id elems_hash result" where
  "del_back_refs elems [] elemid = Inr elems"
| "del_back_refs elems (i # ids) elemid =
     bind_result (elems_hash_process ref_create_callback elems i (Some del_ref_callback) elemid ELEM_FLAG_DO_NOT_CREATE)
       (\<lambda>(elems, _, _). del_back_refs elems ids elemid)"

definition obj_index_del_id_from :: "obj_index \<Rightarrow> u64 \<Rightarrow> (obj_index \<times> int) result" where
  "obj_index_del_id_from idx elemid =
     bind_result (elems_hash_process ref_create_callback (from_to idx) elemid (Some get_refs_callback) zbx_vector_create ELEM_FLAG_DO_NOT_CREATE)
       (\<lambda>(ft, ids, _).
     bind_result (del_back_refs (to_from idx) (vec_values ids) elemid) (\<lambda>tf.
     bind_result (elems_hash_delete SUCCEED ft elemid) (\<lambda>(ft, _).
       Inr (idx\<lparr>from_to := ft, to_from := tf\<rparr>, SUCCEED))))"

definition obj_index_del_id_to :: "obj_index \<Rightarrow> u64 \<Rightarrow> (obj_index \<times> int) result" where
  "obj_index_del_id_to idx elemid =
     bind_result (elems_hash_process ref_create_callback (to_from idx) elemid (Some get_refs_callback) zbx_vector_create ELEM_FLAG_DO_NOT_CREATE)
       (\<lambda>(tf, ids, _).
     bind_result (del_back_refs (from_to idx) (vec_values ids) elemid) (\<lambda>ft.
     bind_result (elems_hash_delete SUCCEED tf elemid) (\<lambda>(tf, _).
       Inr (idx\<lparr>from_to := ft, to_from := tf\<rparr>, SUCCEED))))"

definition index_both ::
  "(ref_id, u64) elems_cb \<Rightarrow> u64 \<Rightarrow> obj_index \<Rightarrow> u64 \<Rightarrow> u64 \<Rightarrow> (obj_index \<times> int) result" where
  "index_both cb flags idx id_from id_to =
     bind_result (elems_hash_process ref_create_callback (from_to idx) id_from (Some cb) id_to flags) (\<lambda>(ft, _, _).
     bind_result (elems_hash_process ref_create_callback (to_from idx) id_to (Some cb) id_from flags) (\<lambda>(tf, _, _).
       Inr (idx\<lparr>from_to := ft, to_from := tf\<rparr>, SUCCEED)))"

definition obj_index_add_ref :: "obj_index \<Rightarrow> u64 \<Rightarrow> u64 \<Rightarrow> (obj_index \<times> int) result" where
  "obj_index_add_ref idx id_from id_to = index_both add_ref_callback 0 idx id_from id_to"

definition obj_index_add_ref_nosort :: "obj_index \<Rightarrow> u64 \<Rightarrow> u64 \<Rightarrow> (obj_index \<times> int) result" where
  "obj_index_add_ref_nosort idx id_from id_to = index_both add_ref_nosort_callback 0 idx id_from id_to"

definition obj_index_del_ref :: "obj_index \<Rightarrow> u64 \<Rightarrow> u64 \<Rightarrow> (obj_index \<times> int) result" where
  "obj_index_del_ref idx id_from id_to = index_both del_ref_callback ELEM_FLAG_DO_NOT_CREATE idx id_from id_to"

definition obj_index_get_refs_to :: "obj_index \<Rightarrow> u64 \<Rightarrow> u64 zbx_vector \<Rightarrow> (obj_index \<times> u64 zbx_vector \<times> int) result" where
  "obj_index_get_refs_to idx id_from out_refs =
     bind_result (elems_hash_process ref_create_callback (from_to idx) id_from (Some get_refs_callback) out_refs ELEM_FLAG_DO_NOT_CREATE)
       (\<lambda>(ft, out_refs, ret). Inr (idx\<lparr>from_to := ft\<rparr>, out_refs, ret))"

definition obj_index_get_refs_from :: "obj_index \<Rightarrow> u64 \<Rightarrow> u64 zbx_vector \<Rightarrow> (obj_index \<times> u64 zbx_vector \<times> int) result" where
  "obj_index_get_refs_from idx id_to out_refs =
     bind_result (elems_hash_process ref_create_callback (to_from idx) id_to (Some get_refs_callback) out_refs ELEM_FLAG_DO_NOT_CREATE)
       (\<lambda>(tf, out_refs, ret). Inr (idx\<lparr>to_from := tf\<rparr>, out_refs, ret))"

definition obj_index_replace :: "obj_index \<Rightarrow> obj_index \<Rightarrow> obj_index result" where
  "obj_index_replace old_idx new_idx =
     bind_result (elems_hash_replace (from_to old_idx) (from_to new_idx)) (\<lambda>(ft, _).
     bind_result (elems_hash_replace (to_from old_idx) (to_from new_idx)) (\<lambda>(tf, _).
       Inr (old_idx\<lparr>from_to := ft, to_from := tf\<rparr>)))"

text \<open>\<open>update_vector\<close>; the copy of the new values never fails, the room is reserved first.\<close>

definition update_vector :: "u64 zbx_vector \<Rightarrow> u64 zbx_vector \<Rightarrow> u64 zbx_vector" where
  "update_vector vector new_vector =
     (case zbx_vector_append_array (zbx_vector_clear vector) (vec_values new_vector) of
        Inr v \<Rightarrow> zbx_vector_sort v zbx_default_uint64_compare_func
      | Inl _ \<Rightarrow> vector)"

definition obj_index_update :: "obj_index \<Rightarrow> obj_index \<Rightarrow> (obj_index \<times> obj_index) result" where
  "obj_index_update idx new_idx =
     bind_result (elems_hash_update ref_create_callback (from_to idx) (from_to new_idx) update_vector) (\<lambda>(ft, nft).
     bind_result (elems_hash_update ref_create_callback (to_from idx) (to_from new_idx) update_vector) (\<lambda>(tf, ntf).
       Inr (idx\<lparr>from_to := ft, to_from := tf\<rparr>, new_idx\<lparr>from_to := nft, to_from := ntf\<rparr>)))"

definition obj_index_get_numdata :: "obj_index \<Rightarrow> int" where
  "obj_index_get_numdata idx = hs_num_data (eh_elems (from_to idx))"

section \<open>One table of reference vectors\<close>

definition refs_ok :: "ref_id elems_hash \<Rightarrow> bool" where
  "refs_ok s \<longleftrightarrow> eh_inv s \<and> (\<forall>i v fl. eh_abs s i = Some (v, fl) \<longrightarrow> vec_inv v \<and> sorted (vec_values v))"

text \<open>The references of an id, as a multiset: adding a reference twice stores it twice.\<close>

definition refs :: "ref_id elems_hash \<Rightarrow> u64 \<Rightarrow> u64 multiset" where
  "refs s i = (case eh_abs s i of None \<Rightarrow> {#} | Some (v, _) \<Rightarrow> mset (vec_values v))"

lemma u64_cmp_le: "zbx_default_uint64_compare_func x y \<le> 0 \<longleftrightarrow> x \<le> y"
  by (auto simp: zbx_default_uint64_compare_func_def return_if_not_equal_def)

lemma refs_ok_upd:
  assumes "eh_inv s'" "eh_abs s' = (eh_abs s)(i \<mapsto> (v, fl))" "refs_ok s" "vec_inv v" "sorted (vec_values v)"
  shows "refs_ok s' \<and> refs s' = (refs s)(i := mset (vec_values v))"
  using assms by (auto simp: refs_ok_def refs_def fun_eq_iff)

lemma add_ref_spec:
  assumes "vec_inv v"
  shows "\<exists>v'. add_ref_callback i v fl x = Inr (v', fl, x, 0) \<and> vec_inv v' \<and> sorted (vec_values v')
    \<and> mset (vec_values v') = add_mset x (mset (vec_values v))"
proof -
  obtain w where w: "zbx_vector_append v x = Inr w" "vec_values w = vec_values v @ [x]" "vec_inv w"
    using vec_append_spec [OF assms] by blast
  moreover have "vec_inv (zbx_vector_sort w zbx_default_uint64_compare_func)"
    using w(3) by (simp add: vec_inv_def zbx_vector_sort_def)
  ultimately show ?thesis
    using uint64_cmp.vec_sort_spec [of w] by (simp add: add_ref_callback_def u64_cmp_le)
qed

lemma process_add:
  assumes ok: "refs_ok s"
  shows "\<exists>s'. elems_hash_process ref_create_callback s i (Some add_ref_callback) x 0 = Inr (s', x, 0)
    \<and> refs_ok s' \<and> refs s' = (refs s)(i := add_mset x (refs s i))"
proof (cases "eh_abs s i")
  case None
  obtain v' where v': "add_ref_callback i (ref_create_callback i x) 0 x = Inr (v', 0, x, 0)" "vec_inv v'" "sorted (vec_values v')"
    "mset (vec_values v') = {#x#}"
    using add_ref_spec [of zbx_vector_create i 0 x] vec_create_inv by (auto simp: ref_create_callback_def zbx_vector_create_def)
  have "eh_inv s" "(0 :: u64) AND 1 \<noteq> 1" using ok by (simp_all add: refs_ok_def)
  from eh.process_create [where f = add_ref_callback and create = ref_create_callback, OF this(1) None this(2) v'(1)]
  obtain s' where s': "elems_hash_process ref_create_callback s i (Some add_ref_callback) x 0 = Inr (s', x, 0)" "eh_inv s'"
    "eh_abs s' = (eh_abs s)(i \<mapsto> (v', 0))" by blast
  from refs_ok_upd [OF s'(2,3) ok v'(2,3)] s'(1) None v'(4) show ?thesis by (simp add: refs_def)
next
  case (Some w)
  then obtain v fl where w: "eh_abs s i = Some (v, fl)" by (cases w) simp
  with ok have "vec_inv v" by (auto simp: refs_ok_def)
  then obtain v' where v': "add_ref_callback i v fl x = Inr (v', fl, x, 0)" "vec_inv v'" "sorted (vec_values v')"
    "mset (vec_values v') = add_mset x (mset (vec_values v))" using add_ref_spec by blast
  have "eh_inv s" using ok by (simp add: refs_ok_def)
  from eh.process_found [where f = add_ref_callback and create = ref_create_callback and flags = 0, OF this w v'(1)]
  obtain s' where s': "elems_hash_process ref_create_callback s i (Some add_ref_callback) x 0 = Inr (s', x, 0)" "eh_inv s'"
    "eh_abs s' = (eh_abs s)(i \<mapsto> (v', fl))" by blast
  from refs_ok_upd [OF s'(2,3) ok v'(2,3)] s'(1) w v'(4) show ?thesis by (simp add: refs_def)
qed

lemma del_ref_spec:
  assumes v: "vec_inv v" "sorted (vec_values v)"
  shows "\<exists>v' fl'. del_ref_callback i v fl x = Inr (v', fl', x, 0) \<and> vec_inv v' \<and> sorted (vec_values v')
    \<and> mset (vec_values v') = mset (vec_values v) - {#x#}"
proof -
  define k where "k = zbx_vector_bsearch v x zbx_default_uint64_compare_func"
  have b: "if x \<in> set (vec_values v) then 0 \<le> k \<and> nat k < values_num v \<and> vec_values v ! nat k = x else k = -1"
    using uint64_cmp.bsearch_spec [of v x] v(2) by (simp add: u64_cmp_le k_def)
  show ?thesis
  proof (cases "x \<in> set (vec_values v)")
    case False
    with b v show ?thesis by (simp add: del_ref_callback_def k_def)
  next
    case True
    with b have n: "nat k < values_num v" "vec_values v ! nat k = x" "0 \<le> k" by simp_all
    obtain w where w: "zbx_vector_remove v k = Inr w" "vec_values w = take (nat k) (vec_values v) @ drop (Suc (nat k)) (vec_values v)" "vec_inv w"
      using vec_remove_spec [OF v(1) n(1)] n(3) by auto
    have "mset (take (nat k) (vec_values v) @ x # drop (Suc (nat k)) (vec_values v)) = mset (vec_values v)"
      using id_take_nth_drop [OF n(1)] n(2) by simp
    then have "mset (vec_values w) = mset (vec_values v) - {#x#}" using w(2) by (metis add_mset_remove_trivial mset.simps(2) mset_append union_mset_add_mset_right)
    moreover have "sorted (take (nat k) (vec_values v) @ x # drop (Suc (nat k)) (vec_values v))"
      using id_take_nth_drop [OF n(1)] n(2) v(2) by simp
    then have "sorted (vec_values w)" unfolding w(2) sorted_append by auto
    ultimately show ?thesis using w n k_def by (simp add: del_ref_callback_def Let_def)
  qed
qed

lemma process_del:
  assumes ok: "refs_ok s"
  shows "\<exists>s' r. elems_hash_process ref_create_callback s i (Some del_ref_callback) x 1 = Inr (s', x, r)
    \<and> refs_ok s' \<and> refs s' = (refs s)(i := refs s i - {#x#})"
proof (cases "eh_abs s i")
  case None
  have "eh_inv s" using ok by (simp add: refs_ok_def)
  from eh.process_missing [OF this None, of 1 ref_create_callback del_ref_callback x] ok None
  show ?thesis by (simp add: refs_def fun_upd_idem)
next
  case (Some w)
  then obtain v fl where w: "eh_abs s i = Some (v, fl)" by (cases w) simp
  with ok have "vec_inv v" "sorted (vec_values v)" by (auto simp: refs_ok_def)
  then obtain v' fl' where v': "del_ref_callback i v fl x = Inr (v', fl', x, 0)" "vec_inv v'" "sorted (vec_values v')"
    "mset (vec_values v') = mset (vec_values v) - {#x#}" using del_ref_spec by blast
  have "eh_inv s" using ok by (simp add: refs_ok_def)
  from eh.process_found [where f = del_ref_callback and create = ref_create_callback and flags = 1, OF this w v'(1)]
  obtain s' where s': "elems_hash_process ref_create_callback s i (Some del_ref_callback) x 1 = Inr (s', x, 0)" "eh_inv s'"
    "eh_abs s' = (eh_abs s)(i \<mapsto> (v', fl'))" by blast
  from refs_ok_upd [OF s'(2,3) ok v'(2,3)] s'(1) w v'(4) show ?thesis by (simp add: refs_def)
qed

lemma process_get:
  assumes ok: "refs_ok s" and out: "vec_inv out"
  shows "\<exists>s' out' ret. elems_hash_process ref_create_callback s i (Some get_refs_callback) out 1 = Inr (s', out', ret)
    \<and> eh_inv s' \<and> eh_abs s' = eh_abs s \<and> vec_values out' = vec_values out @ sorted_list_of_multiset (refs s i)"
proof (cases "eh_abs s i")
  case None
  have "eh_inv s" using ok by (simp add: refs_ok_def)
  from eh.process_missing [OF this None, of 1 ref_create_callback get_refs_callback out] this None
  show ?thesis by (simp add: refs_def)
next
  case (Some w)
  then obtain v fl where w: "eh_abs s i = Some (v, fl)" by (cases w) simp
  with ok have v: "sorted (vec_values v)" and inv: "eh_inv s" by (auto simp: refs_ok_def)
  have "vec_inv (zbx_vector_reserve out (values_num v))" using out by (auto simp: vec_inv_def zbx_vector_reserve_def)
  from vec_append_array_spec [OF this, of "vec_values v"] obtain out' where o:
    "zbx_vector_append_array (zbx_vector_reserve out (values_num v)) (vec_values v) = Inr out'"
    "vec_values out' = vec_values out @ vec_values v" by (auto simp: zbx_vector_reserve_def)
  have "get_refs_callback i v fl out = Inr (v, fl, out', 0)" using o by (simp add: get_refs_callback_def)
  from eh.process_found [where f = get_refs_callback and create = ref_create_callback and flags = 1, OF inv w this]
  obtain s' where "elems_hash_process ref_create_callback s i (Some get_refs_callback) out 1 = Inr (s', out', 0)"
    "eh_inv s'" "eh_abs s' = eh_abs s" using w by (auto simp: fun_upd_idem)
  moreover have "sorted_list_of_multiset (mset (vec_values v)) = vec_values v"
    using v by (simp add: sorted_list_of_multiset_mset sorted_sort_id)
  ultimately show ?thesis using o w by (auto simp: refs_def)
qed

lemma del_back_refs_spec:
  assumes "refs_ok s"
  shows "\<exists>s'. del_back_refs s ids x = Inr s' \<and> refs_ok s'
    \<and> refs s' = (\<lambda>i. refs s i - replicate_mset (count (mset ids) i) x)"
  using assms
proof (induction ids arbitrary: s)
  case Nil
  then show ?case by simp
next
  case (Cons i ids)
  from process_del [OF Cons.prems] obtain s1 r where s1:
    "elems_hash_process ref_create_callback s i (Some del_ref_callback) x 1 = Inr (s1, x, r)" "refs_ok s1"
    "refs s1 = (refs s)(i := refs s i - {#x#})" by blast
  from Cons.IH [OF s1(2)] obtain s' where s': "del_back_refs s1 ids x = Inr s'" "refs_ok s'"
    "refs s' = (\<lambda>j. refs s1 j - replicate_mset (count (mset ids) j) x)" by blast
  have "refs s1 j - replicate_mset (count (mset ids) j) x = refs s j - replicate_mset (count (mset (i # ids)) j) x" for j
    using s1(3) by (simp add: multiset_eq_iff)
  with s1 s' show ?case by simp
qed

lemma refs_delete:
  assumes "refs_ok s"
  shows "\<exists>s' ret. elems_hash_delete 0 s i = Inr (s', ret) \<and> refs_ok s' \<and> refs s' = (refs s)(i := {#})"
proof -
  have "eh_inv s" using assms by (simp add: refs_ok_def)
  from eh.delete_spec [OF this, of 0 i] obtain s' ret where
    "elems_hash_delete 0 s i = Inr (s', ret)" "eh_inv s'" "eh_abs s' = (eh_abs s)(i := None)" by blast
  with assms show ?thesis by (auto simp: refs_ok_def refs_def fun_eq_iff)
qed

lemma refs_ok_same: "refs_ok s \<Longrightarrow> eh_inv s' \<Longrightarrow> eh_abs s' = eh_abs s \<Longrightarrow> refs_ok s' \<and> refs s' = refs s"
  by (simp add: refs_ok_def refs_def fun_eq_iff)

section \<open>The index as a multiset of pairs\<close>

definition oi_rel :: "obj_index \<Rightarrow> (u64 \<times> u64) multiset \<Rightarrow> bool" where
  "oi_rel idx M \<longleftrightarrow> refs_ok (from_to idx) \<and> refs_ok (to_from idx)
     \<and> (\<forall>a b. count (refs (from_to idx) a) b = count M (a, b))
     \<and> (\<forall>a b. count (refs (to_from idx) b) a = count M (a, b))"

datatype oi_op = AddRef u64 u64 | DelRef u64 u64 | DelIdFrom u64 | DelIdTo u64

fun oi_exec :: "obj_index \<Rightarrow> oi_op \<Rightarrow> (obj_index \<times> int) result" where
  "oi_exec idx (AddRef a b) = obj_index_add_ref idx a b"
| "oi_exec idx (DelRef a b) = obj_index_del_ref idx a b"
| "oi_exec idx (DelIdFrom a) = obj_index_del_id_from idx a"
| "oi_exec idx (DelIdTo b) = obj_index_del_id_to idx b"

fun oi_run :: "obj_index \<Rightarrow> oi_op list \<Rightarrow> obj_index result" where
  "oi_run idx [] = Inr idx"
| "oi_run idx (op # ops) = bind_result (oi_exec idx op) (\<lambda>(idx, _). oi_run idx ops)"

fun pairs_exec :: "(u64 \<times> u64) multiset \<Rightarrow> oi_op \<Rightarrow> (u64 \<times> u64) multiset" where
  "pairs_exec M (AddRef a b) = add_mset (a, b) M"
| "pairs_exec M (DelRef a b) = M - {#(a, b)#}"
| "pairs_exec M (DelIdFrom a) = filter_mset (\<lambda>p. fst p \<noteq> a) M"
| "pairs_exec M (DelIdTo b) = filter_mset (\<lambda>p. snd p \<noteq> b) M"

lemma oi_init_rel: "oi_rel obj_index_init {#}"
  by (simp add: oi_rel_def obj_index_init_def refs_ok_def refs_def eh_init_inv)

lemma oi_add: "oi_rel idx M \<Longrightarrow> \<exists>idx'. obj_index_add_ref idx a b = Inr (idx', 0) \<and> oi_rel idx' (add_mset (a, b) M)"
proof -
  assume r: "oi_rel idx M"
  from r process_add [of "from_to idx" a b] obtain ft where "elems_hash_process ref_create_callback (from_to idx) a (Some add_ref_callback) b 0 = Inr (ft, b, 0)"
    "refs_ok ft" "refs ft = (refs (from_to idx))(a := add_mset b (refs (from_to idx) a))" by (auto simp: oi_rel_def)
  moreover from r process_add [of "to_from idx" b a] obtain tf where "elems_hash_process ref_create_callback (to_from idx) b (Some add_ref_callback) a 0 = Inr (tf, a, 0)"
    "refs_ok tf" "refs tf = (refs (to_from idx))(b := add_mset a (refs (to_from idx) b))" by (auto simp: oi_rel_def)
  ultimately show ?thesis using r by (auto simp: obj_index_add_ref_def index_both_def oi_rel_def)
qed

lemma oi_del: "oi_rel idx M \<Longrightarrow> \<exists>idx'. obj_index_del_ref idx a b = Inr (idx', 0) \<and> oi_rel idx' (M - {#(a, b)#})"
proof -
  assume r: "oi_rel idx M"
  from r process_del [of "from_to idx" a b] obtain ft x where "elems_hash_process ref_create_callback (from_to idx) a (Some del_ref_callback) b 1 = Inr (ft, b, x)"
    "refs_ok ft" "refs ft = (refs (from_to idx))(a := refs (from_to idx) a - {#b#})" by (auto simp: oi_rel_def)
  moreover from r process_del [of "to_from idx" b a] obtain tf y where "elems_hash_process ref_create_callback (to_from idx) b (Some del_ref_callback) a 1 = Inr (tf, a, y)"
    "refs_ok tf" "refs tf = (refs (to_from idx))(b := refs (to_from idx) b - {#a#})" by (auto simp: oi_rel_def)
  ultimately show ?thesis using r by (auto simp: obj_index_del_ref_def index_both_def oi_rel_def)
qed

text \<open>Deleting an id on one side: its references are read and each is removed once on the other side.\<close>

lemma del_side:
  assumes "refs_ok s" "refs_ok t" and sym: "\<And>b. count (refs t b) i = count (refs s i) b"
  shows "\<exists>s1 ids r t' s' r'. elems_hash_process ref_create_callback s i (Some get_refs_callback) zbx_vector_create 1 = Inr (s1, ids, r)
    \<and> del_back_refs t (vec_values ids) i = Inr t' \<and> elems_hash_delete 0 s1 i = Inr (s', r')
    \<and> refs_ok s' \<and> refs_ok t' \<and> refs s' = (refs s)(i := {#}) \<and> refs t' = (\<lambda>b. filter_mset (\<lambda>x. x \<noteq> i) (refs t b))"
proof -
  from process_get [OF assms(1) vec_create_inv, of i] obtain s1 ids r where g:
    "elems_hash_process ref_create_callback s i (Some get_refs_callback) zbx_vector_create 1 = Inr (s1, ids, r)"
    "eh_inv s1" "eh_abs s1 = eh_abs s" "vec_values ids = sorted_list_of_multiset (refs s i)"
    by (auto simp: zbx_vector_create_def)
  note s1 = refs_ok_same [OF assms(1) g(2,3)]
  from del_back_refs_spec [OF assms(2), of "vec_values ids" i] obtain t' where t':
    "del_back_refs t (vec_values ids) i = Inr t'" "refs_ok t'"
    "refs t' = (\<lambda>b. refs t b - replicate_mset (count (mset (vec_values ids)) b) i)" by blast
  have "refs t' = (\<lambda>b. filter_mset (\<lambda>x. x \<noteq> i) (refs t b))"
    unfolding t'(3) by (auto simp: fun_eq_iff multiset_eq_iff g(4) sym)
  with refs_delete [of s1 i] s1 g(1) t'(1,2) show ?thesis by auto
qed

lemma oi_del_from: "oi_rel idx M \<Longrightarrow> \<exists>idx'. obj_index_del_id_from idx a = Inr (idx', 0) \<and> oi_rel idx' (filter_mset (\<lambda>p. fst p \<noteq> a) M)"
proof -
  assume r: "oi_rel idx M"
  then have "refs_ok (from_to idx)" "refs_ok (to_from idx)" "count (refs (to_from idx) b) a = count (refs (from_to idx) a) b" for b
    by (simp_all add: oi_rel_def)
  from del_side [OF this] r show ?thesis by (fastforce simp: obj_index_del_id_from_def oi_rel_def)
qed

lemma oi_del_to: "oi_rel idx M \<Longrightarrow> \<exists>idx'. obj_index_del_id_to idx b = Inr (idx', 0) \<and> oi_rel idx' (filter_mset (\<lambda>p. snd p \<noteq> b) M)"
proof -
  assume r: "oi_rel idx M"
  then have "refs_ok (to_from idx)" "refs_ok (from_to idx)" "count (refs (from_to idx) a) b = count (refs (to_from idx) b) a" for a
    by (simp_all add: oi_rel_def)
  from del_side [OF this] r show ?thesis by (fastforce simp: obj_index_del_id_to_def oi_rel_def)
qed

lemma oi_run_rel: "oi_rel idx M \<Longrightarrow> \<exists>idx'. oi_run idx ops = Inr idx' \<and> oi_rel idx' (foldl pairs_exec M ops)"
proof (induction ops arbitrary: idx M)
  case (Cons op ops)
  have "\<exists>idx'. oi_exec idx op = Inr (idx', 0) \<and> oi_rel idx' (pairs_exec M op)"
    using oi_add [OF Cons.prems] oi_del [OF Cons.prems] oi_del_from [OF Cons.prems] oi_del_to [OF Cons.prems]
    by (cases op) auto
  with Cons.IH show ?case by fastforce
qed simp

lemma count_partners:
  "count (image_mset snd (filter_mset (\<lambda>p. fst p = a) M)) b = count M (a, b)"
  "count (image_mset fst (filter_mset (\<lambda>p. snd p = b) M)) a = count M (a, b)"
  by (induction M) auto

section \<open>Properties\<close>

text \<open>
  C15. After any sequence of adding and deleting references and deleting ids on either side, the two
  tables agree with one multiset of pairs: reading the references of an id, in either direction, gives
  exactly the partners of the id, in ascending order and with multiplicity.
\<close>

theorem obj_index_refines_pairs:
  "\<exists>idx. oi_run obj_index_init ops = Inr idx
    \<and> (\<forall>a. \<exists>idx' out ret. obj_index_get_refs_to idx a zbx_vector_create = Inr (idx', out, ret)
         \<and> vec_values out = sorted_list_of_multiset (image_mset snd (filter_mset (\<lambda>p. fst p = a) (foldl pairs_exec {#} ops))))
    \<and> (\<forall>b. \<exists>idx' out ret. obj_index_get_refs_from idx b zbx_vector_create = Inr (idx', out, ret)
         \<and> vec_values out = sorted_list_of_multiset (image_mset fst (filter_mset (\<lambda>p. snd p = b) (foldl pairs_exec {#} ops))))"
proof -
  let ?M = "foldl pairs_exec {#} ops"
  from oi_run_rel [OF oi_init_rel, of ops] obtain idx where idx: "oi_run obj_index_init ops = Inr idx" "oi_rel idx ?M" by blast
  have r: "refs_ok (from_to idx)" "refs_ok (to_from idx)" using idx(2) by (simp_all add: oi_rel_def)
  have ft: "refs (from_to idx) a = image_mset snd (filter_mset (\<lambda>p. fst p = a) ?M)" for a
    using idx(2) by (simp add: multiset_eq_iff oi_rel_def count_partners)
  have tf: "refs (to_from idx) b = image_mset fst (filter_mset (\<lambda>p. snd p = b) ?M)" for b
    using idx(2) by (simp add: multiset_eq_iff oi_rel_def count_partners)
  have e: "vec_values zbx_vector_create = []" by (simp add: zbx_vector_create_def)
  have "\<exists>idx' out ret. obj_index_get_refs_to idx a zbx_vector_create = Inr (idx', out, ret)
      \<and> vec_values out = sorted_list_of_multiset (refs (from_to idx) a)" for a
    using process_get [OF r(1) vec_create_inv, of a] by (fastforce simp: obj_index_get_refs_to_def e)
  moreover have "\<exists>idx' out ret. obj_index_get_refs_from idx b zbx_vector_create = Inr (idx', out, ret)
      \<and> vec_values out = sorted_list_of_multiset (refs (to_from idx) b)" for b
    using process_get [OF r(2) vec_create_inv, of b] by (fastforce simp: obj_index_get_refs_from_def e)
  ultimately show ?thesis using idx(1) unfolding ft tf by blast
qed

end
