(* ===== verification/Strpool.thy ===== *)
theory Strpool
  imports Elems_Hash
begin

text \<open>
  \<open>src/libs/zbxalgo/strpool.c\<close>: the reference-counted string pool.

  A pool record is the pair of its 32-bit reference counter and its string; the pointer that a caller
  gets is the address of the record (behind the counter).  NULL is \<open>None\<close>.  The probe of a search is
  the caller's string with whatever lies in front of it where the counter would be; the hash and the
  comparison read the string only.
\<close>

section \<open>State and operations\<close>

type_synonym sp_record = "u32 \<times> string"

record strpool =
  sp_strs :: "sp_record zbx_hashset"
  sp_next :: nat
  sp_lock :: mutex

definition strpool_hash :: "sp_record \<Rightarrow> zbx_hash_t" where
  "strpool_hash d = zbx_default_string_hash_func (map of_char (snd d))"

fun strcmp :: "string \<Rightarrow> string \<Rightarrow> int" where
  "strcmp [] [] = 0"
| "strcmp [] (c # cs) = -1"
| "strcmp (c # cs) [] = 1"
| "strcmp (c # cs) (d # ds) =
     (if (of_char c :: nat) < of_char d then -1 else if (of_char d :: nat) < of_char c then 1 else strcmp cs ds)"

definition strpool_compare :: "sp_record \<Rightarrow> sp_record \<Rightarrow> int" where
  "strpool_compare d1 d2 = strcmp (snd d1) (snd d2)"

text \<open>The record at an address, for the reads and writes of the counter through a string pointer.\<close>

definition sp_at :: "sp_record zbx_hashset \<Rightarrow> nat \<Rightarrow> sp_record hs_entry option" where
  "sp_at strs a = find (\<lambda>e. hse_addr e = a) (concat (hs_slots strs))"

text \<open>
  \<open>__strpool_intern_n\<close>: a length shorter than the string would store a record that is not terminated.
\<close>

definition strpool_intern_n ::
  "nat \<Rightarrow> sp_record zbx_hashset \<Rightarrow> string option \<Rightarrow> nat \<Rightarrow> (sp_record zbx_hashset \<times> nat option) result" where
  "strpool_intern_n next strs str len =
     (case str of
        None \<Rightarrow> Inr (strs, None)
      | Some s \<Rightarrow>
          bind_result (zbx_hashset_search strs (0, s)) (\<lambda>found.
          bind_result
            (case found of
               Some r \<Rightarrow> Inr (strs, Some r)
             | None \<Rightarrow>
                 (if len < length s then Inl BadIndex
                  else zbx_hashset_insert_ext \<lparr>mem_slots_ok = True, mem_entry = Some next\<rparr>
                         (\<lambda>(_, s). (0, s)) strs (0, s)))
            (\<lambda>(strs, r).
               case r of
                 None \<Rightarrow> Inl NullDeref
               | Some r \<Rightarrow>
                   Inr (hs_poke (hse_addr r) (fst (hse_data r) + 1, snd (hse_data r)) strs, Some (hse_addr r)))))"

definition strpool_intern ::
  "nat \<Rightarrow> sp_record zbx_hashset \<Rightarrow> string option \<Rightarrow> (sp_record zbx_hashset \<times> nat option) result" where
  "strpool_intern next strs str =
     (case str of None \<Rightarrow> Inr (strs, None) | Some s \<Rightarrow> strpool_intern_n next strs str (length s))"

text \<open>The test \<open>0 == refcount\<close> compares the pointer, which is not null, and never fires.\<close>

definition strpool_release :: "sp_record zbx_hashset \<Rightarrow> nat option \<Rightarrow> sp_record zbx_hashset result" where
  "strpool_release strs str =
     (case str of
        None \<Rightarrow> Inr strs
      | Some a \<Rightarrow>
          (case sp_at strs a of
             None \<Rightarrow> Inl NullDeref
           | Some r \<Rightarrow>
               (let d = (fst (hse_data r) - 1, snd (hse_data r)); strs = hs_poke a d strs in
                if fst d = 0 then zbx_hashset_remove strs d else Inr strs)))"

definition strpool_acquire :: "sp_record zbx_hashset \<Rightarrow> nat \<Rightarrow> (sp_record zbx_hashset \<times> nat) result" where
  "strpool_acquire strs a =
     (case sp_at strs a of
        None \<Rightarrow> Inl NullDeref
      | Some r \<Rightarrow> Inr (hs_poke a (fst (hse_data r) + 1, snd (hse_data r)) strs, a))"

definition strpool_init :: strpool where
  "strpool_init = \<lparr>sp_strs = zbx_hashset_create_ext True 100 strpool_hash strpool_compare,
     sp_next = 0, sp_lock = glb_lock_init\<rparr>"

definition strpool_destroy :: "strpool \<Rightarrow> strpool result" where
  "strpool_destroy pool =
     bind_result (glb_lock_block (sp_lock pool)) (\<lambda>l.
       Inr (pool\<lparr>sp_lock := l, sp_strs := zbx_hashset_destroy (sp_strs pool)\<rparr>))"

definition strpool_add :: "strpool \<Rightarrow> string option \<Rightarrow> (strpool \<times> nat option) result" where
  "strpool_add pool str =
     bind_result (glb_lock_block (sp_lock pool)) (\<lambda>l.
     bind_result (strpool_intern (sp_next pool) (sp_strs pool) str) (\<lambda>(strs, ret).
       Inr (pool\<lparr>sp_strs := strs, sp_next := Suc (sp_next pool), sp_lock := glb_lock_unlock l\<rparr>, ret)))"

definition strpool_add_n :: "strpool \<Rightarrow> string option \<Rightarrow> nat \<Rightarrow> (strpool \<times> nat option) result" where
  "strpool_add_n pool str len =
     bind_result (glb_lock_block (sp_lock pool)) (\<lambda>l.
     bind_result (strpool_intern_n (sp_next pool) (sp_strs pool) str len) (\<lambda>(strs, ret).
       Inr (pool\<lparr>sp_strs := strs, sp_next := Suc (sp_next pool), sp_lock := glb_lock_unlock l\<rparr>, ret)))"

definition strpool_free :: "strpool \<Rightarrow> nat option \<Rightarrow> strpool result" where
  "strpool_free pool str =
     bind_result (glb_lock_block (sp_lock pool)) (\<lambda>l.
     bind_result (strpool_release (sp_strs pool) str) (\<lambda>strs.
       Inr (pool\<lparr>sp_strs := strs, sp_lock := glb_lock_unlock l\<rparr>)))"

definition strpool_replace :: "strpool \<Rightarrow> nat option \<Rightarrow> string option \<Rightarrow> (strpool \<times> nat option) result" where
  "strpool_replace pool old_str new_str =
     bind_result (glb_lock_block (sp_lock pool)) (\<lambda>l.
     bind_result (strpool_release (sp_strs pool) old_str) (\<lambda>strs.
     bind_result (strpool_intern (sp_next pool) strs new_str) (\<lambda>(strs, ret).
       Inr (pool\<lparr>sp_strs := strs, sp_next := Suc (sp_next pool), sp_lock := glb_lock_unlock l\<rparr>, ret))))"

definition strpool_copy :: "strpool \<Rightarrow> nat \<Rightarrow> (strpool \<times> nat) result" where
  "strpool_copy pool a =
     bind_result (strpool_acquire (sp_strs pool) a) (\<lambda>(strs, a). Inr (pool\<lparr>sp_strs := strs\<rparr>, a))"

section \<open>The pool as a multiset of strings\<close>

declare set_concat [simp del]

lemma strcmp_zero: "strcmp xs ys = 0 \<longleftrightarrow> xs = ys"
  by (induction xs ys rule: strcmp.induct) (auto simp: not_less dest: le_antisym)

interpretation pooled: keyed strpool_hash strpool_compare snd
  by unfold_locales (simp_all add: strpool_compare_def strcmp_zero strpool_hash_def)

text \<open>A stored record counts its references; a string that is not stored has none.\<close>

fun sp_cell :: "sp_record hs_entry option \<Rightarrow> nat \<Rightarrow> bool" where
  "sp_cell None c \<longleftrightarrow> c = 0"
| "sp_cell (Some e) c \<longleftrightarrow> 0 < c \<and> unat (fst (hse_data e)) = c"

definition sp_rel :: "sp_record zbx_hashset \<Rightarrow> nat \<Rightarrow> string multiset \<Rightarrow> bool" where
  "sp_rel strs next M \<longleftrightarrow> hs_inv snd strs \<and> (\<forall>e \<in> set (hs_all strs). hse_addr e < next)
     \<and> (\<forall>s. sp_cell (hs_abs snd strs s) (count M s))"

definition sp_ptr :: "sp_record zbx_hashset \<Rightarrow> string \<Rightarrow> nat option" where
  "sp_ptr strs s = map_option hse_addr (hs_abs snd strs s)"

lemma sp_rel_Some:
  assumes "sp_rel strs next M" "hs_abs snd strs s = Some e"
  shows "e \<in> set (hs_all strs) \<and> snd (hse_data e) = s \<and> 0 < count M s \<and> unat (fst (hse_data e)) = count M s"
proof -
  have "sp_cell (Some e) (count M s)" using assms unfolding sp_rel_def by metis
  moreover have "e \<in> set (hs_all strs) \<and> snd (hse_data e) = s"
    using assms hs_abs_Some_iff [of snd strs] by (simp add: sp_rel_def)
  ultimately show ?thesis by simp
qed

lemma sp_rel_None:
  assumes "sp_rel strs next M"
  shows "hs_abs snd strs s = None \<longleftrightarrow> count M s = 0"
proof -
  have "sp_cell (hs_abs snd strs s) (count M s)" using assms unfolding sp_rel_def by metis
  then show ?thesis by (cases "hs_abs snd strs s") auto
qed

lemma find_addr: "distinct (map hse_addr es) \<Longrightarrow> e \<in> set es \<Longrightarrow> find (\<lambda>x. hse_addr x = hse_addr e) es = Some e"
  by (induction es) (auto simp: image_iff)

lemma sp_at_spec:
  assumes "hs_inv key strs" "e \<in> set (hs_all strs)"
  shows "sp_at strs (hse_addr e) = Some e"
proof -
  have "distinct (map hse_addr (hs_all strs))" using assms(1) by (simp add: hs_inv_def)
  with assms(2) show ?thesis unfolding sp_at_def by (rule find_addr [rotated])
qed

text \<open>Counting a reference up, on a record that may be new.\<close>

lemma sp_count_up:
  assumes inv: "hs_inv snd strs" and e: "e \<in> set (hs_all strs)" "snd (hse_data e) = s"
    and a: "\<forall>e \<in> set (hs_all strs). hse_addr e < next"
    and c: "unat (fst (hse_data e)) = count M s" "count M s + 1 < 2 ^ 32"
    and others: "\<And>t. t \<noteq> s \<Longrightarrow> sp_cell (hs_abs snd strs t) (count M t)"
    and strs': "strs' = hs_poke (hse_addr e) (fst (hse_data e) + 1, s) strs"
  shows "sp_rel strs' next (add_mset s M) \<and> sp_ptr strs' = (sp_ptr strs)(s \<mapsto> hse_addr e)"
proof -
  have k: "snd (fst (hse_data e) + 1, s) = snd (hse_data e)" using e by simp
  note p = hs_poke_spec [OF inv e(1) k, folded strs']
  have "unat (fst (hse_data e) + 1) = count M s + 1"
    using c by (simp add: unat_word_ariths)
  moreover have "\<forall>x \<in> set (hs_all strs'). hse_addr x < next" using a by (auto simp: strs' hs_all_poke)
  moreover have "sp_cell (hs_abs snd strs' t) (count (add_mset s M) t)" for t
    using p(2) others [of t] calculation(1) by (cases "t = s") simp_all
  ultimately show ?thesis using p by (auto simp: sp_rel_def sp_ptr_def fun_eq_iff)
qed

lemma intern_spec:
  assumes rel: "sp_rel strs next M" and c: "count M s + 1 < 2 ^ 32"
  shows "\<exists>strs' a. strpool_intern next strs (Some s) = Inr (strs', Some a) \<and> sp_rel strs' (Suc next) (add_mset s M)
    \<and> sp_ptr strs' = (sp_ptr strs)(s \<mapsto> a) \<and> (s \<in># M \<longrightarrow> sp_ptr strs s = Some a)"
proof -
  have inv: "hs_inv snd strs" and a: "\<forall>e \<in> set (hs_all strs). hse_addr e < Suc next"
    and all: "\<And>t. sp_cell (hs_abs snd strs t) (count M t)"
    using rel by (auto simp: sp_rel_def less_SucI)
  have se: "zbx_hashset_search strs (0, s) = Inr (hs_abs snd strs s)" using hs_search_abs [OF inv, of "(0, s)"] by simp
  show ?thesis
  proof (cases "hs_abs snd strs s")
    case (Some e)
    note e = sp_rel_Some [OF rel Some]
    then have e': "e \<in> set (hs_all strs)" "snd (hse_data e) = s" "unat (fst (hse_data e)) = count M s" by auto
    have "strpool_intern next strs (Some s) = Inr (hs_poke (hse_addr e) (fst (hse_data e) + 1, s) strs, Some (hse_addr e))"
      using se Some e by (simp add: strpool_intern_def strpool_intern_n_def)
    with sp_count_up [OF inv e'(1,2) a e'(3) c all refl] Some show ?thesis by (auto simp: sp_ptr_def)
  next
    case None
    let ?m = "\<lparr>mem_slots_ok = True, mem_entry = Some next\<rparr>"
    let ?cpy = "\<lambda>(_, s). (0, s) :: sp_record"
    obtain hs' r where i: "zbx_hashset_insert_ext ?m ?cpy strs (0, s) = Inr (hs', r)" "hs_inv snd hs'" "r \<noteq> None"
      "hs_abs snd strs (snd (0 :: u32, s)) = None \<Longrightarrow> r \<noteq> None \<Longrightarrow>
         r = Some \<lparr>hse_addr = the (mem_entry ?m), hse_hash = hs_hash_func strs (0, s), hse_data = ?cpy (0, s)\<rparr>"
      "hs_abs snd hs' = (case r of None \<Rightarrow> hs_abs snd strs | Some e \<Rightarrow> (hs_abs snd strs)(snd (0 :: u32, s) \<mapsto> e))"
      "set (hs_all hs') = (case r of None \<Rightarrow> set (hs_all strs) | Some e \<Rightarrow> insert e (set (hs_all strs)))"
      by (rule hs_insert_ext_spec [OF inv, where cpy = ?cpy and d = "(0, s)" and mem = ?m])
         (use rel in \<open>auto simp: sp_rel_def\<close>)
    define e where "e = \<lparr>hse_addr = next, hse_hash = hs_hash_func strs (0, s), hse_data = (0, s) :: sp_record\<rparr>"
    have r: "r = Some e" using i(3,4) None by (simp add: e_def)
    have ci: "strpool_intern next strs (Some s) = Inr (hs_poke (hse_addr e) (fst (hse_data e) + 1, s) hs', Some (hse_addr e))"
      using se None i(1) r by (simp add: strpool_intern_def strpool_intern_n_def e_def)
    have "count M s = 0" using sp_rel_None [OF rel] None by simp
    moreover have "e \<in> set (hs_all hs')" "\<forall>x \<in> set (hs_all hs'). hse_addr x < Suc next"
      using i(6) r a by (auto simp: e_def)
    moreover have "sp_cell (hs_abs snd hs' t) (count M t)"
      if "t \<noteq> s" for t using i(5) r that all [of t] by simp
    ultimately have "sp_rel (hs_poke (hse_addr e) (fst (hse_data e) + 1, s) hs') (Suc next) (add_mset s M)
        \<and> sp_ptr (hs_poke (hse_addr e) (fst (hse_data e) + 1, s) hs') = (sp_ptr hs')(s \<mapsto> hse_addr e)"
      using c by (intro sp_count_up [OF i(2)]) (simp_all add: e_def)
    moreover have "(sp_ptr hs')(s \<mapsto> hse_addr e) = (sp_ptr strs)(s \<mapsto> hse_addr e)"
      using i(5) r by (auto simp: sp_ptr_def fun_eq_iff)
    ultimately show ?thesis using ci \<open>count M s = 0\<close> by (simp add: count_eq_zero_iff)
  qed
qed

lemma release_spec:
  assumes rel: "sp_rel strs next M" and p: "sp_ptr strs s = Some a"
  shows "\<exists>strs'. strpool_release strs (Some a) = Inr strs' \<and> sp_rel strs' next (M - {#s#})
    \<and> sp_ptr strs' = (if count M s = 1 then (sp_ptr strs)(s := None) else sp_ptr strs)"
proof -
  obtain e where ab: "hs_abs snd strs s = Some e" "hse_addr e = a" using p by (auto simp: sp_ptr_def)
  note e = sp_rel_Some [OF rel ab(1)]
  have inv: "hs_inv snd strs" and ad: "\<forall>e \<in> set (hs_all strs). hse_addr e < next"
    and all: "\<And>t. sp_cell (hs_abs snd strs t) (count M t)"
    using rel by (auto simp: sp_rel_def)
  define d where "d = (fst (hse_data e) - 1, s)"
  define strs1 where "strs1 = hs_poke a d strs"
  have k: "snd d = snd (hse_data e)" using e by (simp add: d_def)
  note pk = hs_poke_spec [OF inv conjunct1 [OF e] k, unfolded ab(2), folded strs1_def]
  have ad1: "\<forall>x \<in> set (hs_all strs1). hse_addr x < next" using ad by (auto simp: strs1_def hs_all_poke)
  have un: "unat (fst d) = count M s - 1" using e by (simp add: d_def unat_sub_if')
  have rl: "strpool_release strs (Some a) = (if fst d = 0 then zbx_hashset_remove strs1 d else Inr strs1)"
    using sp_at_spec [OF inv conjunct1 [OF e]] ab(2) e
    by (simp add: strpool_release_def Let_def d_def strs1_def)
  show ?thesis
  proof (cases "count M s = 1")
    case True
    with un have z: "fst d = 0" by (simp add: unat_eq_0)
    obtain hs' where r: "zbx_hashset_remove strs1 d = Inr hs'" "hs_inv snd hs'"
      "hs_abs snd hs' = (hs_abs snd strs1)(snd d := None)" "set (hs_all hs') \<subseteq> set (hs_all strs1)"
      using hs_remove_spec [OF pk(1)] by metis
    have ab': "hs_abs snd hs' = (hs_abs snd strs)(s := None)" using r(3) pk(2) k e by (auto simp: fun_eq_iff d_def)
    have "sp_cell (hs_abs snd hs' t) (count (M - {#s#}) t)" for t
      using all [of t] True by (cases "t = s") (simp_all add: ab')
    moreover have "\<forall>x \<in> set (hs_all hs'). hse_addr x < next" using r(4) ad1 by blast
    ultimately have "sp_rel hs' next (M - {#s#})" using r(2) by (simp add: sp_rel_def)
    moreover have "sp_ptr hs' = (sp_ptr strs)(s := None)" by (simp add: sp_ptr_def fun_eq_iff ab')
    ultimately show ?thesis using rl z r(1) True by simp
  next
    case False
    with un e have z: "fst d \<noteq> 0" by (metis One_nat_def Suc_pred neq0_conv unat_0)
    have ab1: "hs_abs snd strs1 = (hs_abs snd strs)(s \<mapsto> e\<lparr>hse_data := d\<rparr>)" using pk(2) k e by simp
    have "sp_cell (hs_abs snd strs1 t) (count (M - {#s#}) t)" for t
    proof (cases "t = s")
      case True
      have "1 < count M s" using e False by linarith
      with True un show ?thesis by (simp add: ab1)
    next
      case False
      with all [of t] show ?thesis by (simp add: ab1)
    qed
    then have "sp_rel strs1 next (M - {#s#})" using pk(1) ad1 by (simp add: sp_rel_def)
    moreover have "sp_ptr strs1 = sp_ptr strs" using ab by (auto simp: sp_ptr_def ab1 fun_eq_iff)
    ultimately show ?thesis using rl z False by simp
  qed
qed

section \<open>Properties\<close>

text \<open>
  A client of the pool that adds strings, copies references and frees only references it holds;
  \<open>sp_valid\<close> is that discipline, on the multiset of references held.
\<close>

datatype sp_op = SpAdd string | SpFree string | SpReplace string string

fun sp_exec :: "strpool \<Rightarrow> sp_op \<Rightarrow> (strpool \<times> nat option) result" where
  "sp_exec pool (SpAdd s) = strpool_add pool (Some s)"
| "sp_exec pool (SpFree s) = bind_result (strpool_free pool (sp_ptr (sp_strs pool) s)) (\<lambda>pool. Inr (pool, None))"
| "sp_exec pool (SpReplace s t) = strpool_replace pool (sp_ptr (sp_strs pool) s) (Some t)"

fun sp_run :: "strpool \<Rightarrow> sp_op list \<Rightarrow> strpool result" where
  "sp_run pool [] = Inr pool"
| "sp_run pool (op # ops) = bind_result (sp_exec pool op) (\<lambda>(pool, _). sp_run pool ops)"

fun held :: "string multiset \<Rightarrow> sp_op \<Rightarrow> string multiset" where
  "held M (SpAdd s) = add_mset s M"
| "held M (SpFree s) = M - {#s#}"
| "held M (SpReplace s t) = add_mset t (M - {#s#})"

fun sp_valid :: "string multiset \<Rightarrow> sp_op list \<Rightarrow> bool" where
  "sp_valid M [] \<longleftrightarrow> True"
| "sp_valid M (SpAdd s # ops) \<longleftrightarrow> count M s + 1 < 2 ^ 32 \<and> sp_valid (held M (SpAdd s)) ops"
| "sp_valid M (SpFree s # ops) \<longleftrightarrow> s \<in># M \<and> sp_valid (held M (SpFree s)) ops"
| "sp_valid M (SpReplace s t # ops) \<longleftrightarrow> s \<in># M \<and> count M t + 1 < 2 ^ 32 \<and> sp_valid (held M (SpReplace s t)) ops"

definition sp_inv :: "strpool \<Rightarrow> string multiset \<Rightarrow> bool" where
  "sp_inv pool M \<longleftrightarrow> sp_rel (sp_strs pool) (sp_next pool) M \<and> sp_lock pool = MFree"

lemma sp_rel_ptr: "sp_rel strs next M \<Longrightarrow> s \<in># M \<Longrightarrow> \<exists>a. sp_ptr strs s = Some a"
  using sp_rel_None [of strs "next" M s] by (auto simp: sp_ptr_def count_eq_zero_iff)

lemma sp_exec_spec:
  assumes "sp_inv pool M" "sp_valid M (op # ops)"
  shows "\<exists>pool' r. sp_exec pool op = Inr (pool', r) \<and> sp_inv pool' (held M op)
    \<and> (\<forall>t. t \<in># M \<and> (case op of SpAdd s \<Rightarrow> True | SpFree s \<Rightarrow> t \<noteq> s | SpReplace s _ \<Rightarrow> t \<noteq> s) \<longrightarrow>
          sp_ptr (sp_strs pool') t = sp_ptr (sp_strs pool) t)"
proof -
  have rel: "sp_rel (sp_strs pool) (sp_next pool) M" and l: "sp_lock pool = MFree" using assms(1) by (simp_all add: sp_inv_def)
  show ?thesis
  proof (cases op)
    case (SpAdd s)
    with assms(2) have "count M s + 1 < 2 ^ 32" by simp
    from intern_spec [OF rel this] l SpAdd show ?thesis by (fastforce simp: strpool_add_def sp_inv_def)
  next
    case (SpFree s)
    with assms(2) sp_rel_ptr [OF rel] obtain a where a: "sp_ptr (sp_strs pool) s = Some a" by auto
    from release_spec [OF rel a] a l SpFree show ?thesis
      by (fastforce simp: strpool_free_def sp_inv_def split: if_splits)
  next
    case (SpReplace s t)
    with assms(2) sp_rel_ptr [OF rel] obtain a where a: "sp_ptr (sp_strs pool) s = Some a" by auto
    from release_spec [OF rel a] obtain strs' where r: "strpool_release (sp_strs pool) (Some a) = Inr strs'"
      "sp_rel strs' (sp_next pool) (M - {#s#})"
      "sp_ptr strs' = (if count M s = 1 then (sp_ptr (sp_strs pool))(s := None) else sp_ptr (sp_strs pool))" by blast
    have "count (M - {#s#}) t + 1 < 2 ^ 32" using assms(2) SpReplace by (auto intro: le_less_trans [rotated])
    from intern_spec [OF r(2) this] obtain strs2 b where i: "strpool_intern (sp_next pool) strs' (Some t) = Inr (strs2, Some b)"
      "sp_rel strs2 (Suc (sp_next pool)) (add_mset t (M - {#s#}))" "sp_ptr strs2 = (sp_ptr strs')(t \<mapsto> b)"
      "t \<in># M - {#s#} \<longrightarrow> sp_ptr strs' t = Some b" by blast
    have "sp_ptr strs2 u = sp_ptr (sp_strs pool) u" if "u \<in># M" "u \<noteq> s" for u
      using i(3,4) r(3) that by (cases "u = t") (auto simp: in_diff_count split: if_splits)
    moreover have "sp_exec pool op = Inr (pool\<lparr>sp_strs := strs2, sp_next := Suc (sp_next pool), sp_lock := MFree\<rparr>, Some b)"
      using r i(1) a l SpReplace by (simp add: strpool_replace_def)
    ultimately show ?thesis using i(2) SpReplace by (simp add: sp_inv_def)
  qed
qed

lemma sp_run_inv:
  assumes "sp_inv pool M" "sp_valid M ops"
  shows "\<exists>pool'. sp_run pool ops = Inr pool' \<and> sp_inv pool' (foldl held M ops)"
  using assms
proof (induction ops arbitrary: pool M)
  case (Cons op ops)
  from sp_exec_spec [OF Cons.prems] obtain pool' r where "sp_exec pool op = Inr (pool', r)" "sp_inv pool' (held M op)" by blast
  moreover have "sp_valid (held M op) ops" using Cons.prems(2) by (cases op) auto
  ultimately show ?case using Cons.IH by fastforce
qed simp

lemma sp_init_inv: "sp_inv strpool_init {#}"
  using pooled.created [of 100]
  by (auto simp: sp_inv_def sp_rel_def strpool_init_def glb_lock_init_def simp del: concat_eq_Nil_conv)

text \<open>
  C14. A client that frees only references it holds never breaks the pool: the run ends without an
  error and with the lock free, exactly the strings with a held reference are stored, each once, and
  the counter of each is the number of references to it.
\<close>

theorem strpool_counts_references:
  assumes "sp_valid {#} ops"
  shows "\<exists>pool. sp_run strpool_init ops = Inr pool \<and> sp_lock pool = MFree
    \<and> (\<forall>s. case hs_abs snd (sp_strs pool) s of
           None \<Rightarrow> s \<notin># foldl held {#} ops
         | Some e \<Rightarrow> s \<in># foldl held {#} ops \<and> unat (fst (hse_data e)) = count (foldl held {#} ops) s)"
proof -
  from sp_run_inv [OF sp_init_inv assms] obtain pool where p: "sp_run strpool_init ops = Inr pool"
    "sp_inv pool (foldl held {#} ops)" by blast
  have "sp_cell (hs_abs snd (sp_strs pool) s) (count (foldl held {#} ops) s)" for s
    using p(2) by (simp add: sp_inv_def sp_rel_def)
  then have c: "sp_cell (hs_abs snd (sp_strs pool) s) (count (foldl held {#} ops) s)" for s .
  have "case hs_abs snd (sp_strs pool) s of
           None \<Rightarrow> s \<notin># foldl held {#} ops
         | Some e \<Rightarrow> s \<in># foldl held {#} ops \<and> unat (fst (hse_data e)) = count (foldl held {#} ops) s" for s
    using c [of s] by (cases "hs_abs snd (sp_strs pool) s") (simp_all add: count_eq_zero_iff)
  with p show ?thesis by (auto simp: sp_inv_def)
qed

theorem strpool_counts_references_witness:
  "\<exists>pool. sp_run strpool_init [SpAdd ''cpu'', SpAdd ''cpu'', SpAdd ''mem'', SpFree ''cpu'', SpReplace ''mem'' ''net''] = Inr pool
    \<and> hs_abs snd (sp_strs pool) ''mem'' = None"
proof -
  let ?ops = "[SpAdd ''cpu'', SpAdd ''cpu'', SpAdd ''mem'', SpFree ''cpu'', SpReplace ''mem'' ''net'']"
  have "sp_valid {#} ?ops" by simp
  from strpool_counts_references [OF this] obtain pool where "sp_run strpool_init ?ops = Inr pool"
    "case hs_abs snd (sp_strs pool) ''mem'' of
           None \<Rightarrow> ''mem'' \<notin># foldl held {#} ?ops
         | Some e \<Rightarrow> ''mem'' \<in># foldl held {#} ?ops \<and> unat (fst (hse_data e)) = count (foldl held {#} ?ops) ''mem''" by blast
  then show ?thesis by (auto split: option.splits)
qed

end
