(* ===== verification/Queue.thy ===== *)
theory Queue
  imports Vector
begin

text \<open>
  \<open>src/libs/zbxalgo/queue.c\<close>: the circular buffer of pointers under the job queues, and the contract
  of a first-in first-out queue, which the linked list provides too.

  \<open>q_values\<close> is the whole allocated array, so \<open>alloc_num\<close> is its length; a pointer is an \<open>'a option\<close>,
  \<open>None\<close> for NULL; memory that \<open>realloc\<close> adds reads as NULL until it is written.
\<close>

section \<open>The contract of a queue\<close>

locale fifo =
  fixes inv :: "'s \<Rightarrow> bool" and elems :: "'s \<Rightarrow> 'e list"
    and push :: "'s \<Rightarrow> 'e \<Rightarrow> 's result" and pop :: "'s \<Rightarrow> ('s \<times> 'e option) result"
  assumes push_spec: "inv q \<Longrightarrow> \<exists>q'. push q x = Inr q' \<and> inv q' \<and> elems q' = elems q @ [x]"
    and pop_empty: "inv q \<Longrightarrow> elems q = [] \<Longrightarrow> \<exists>q'. pop q = Inr (q', None) \<and> inv q' \<and> elems q' = []"
    and pop_first: "inv q \<Longrightarrow> elems q = x # xs \<Longrightarrow> \<exists>q'. pop q = Inr (q', Some x) \<and> inv q' \<and> elems q' = xs"
begin

text \<open>A run of pushes (\<open>Some\<close>) and pops (\<open>None\<close>), with what the pops return.\<close>

fun run_queue :: "'s \<Rightarrow> 'e option list \<Rightarrow> 'e option list result" where
  "run_queue q [] = Inr []"
| "run_queue q (Some x # ops) = bind_result (push q x) (\<lambda>q. run_queue q ops)"
| "run_queue q (None # ops) = bind_result (pop q) (\<lambda>(q, r). bind_result (run_queue q ops) (\<lambda>rs. Inr (r # rs)))"

fun run_list :: "'e list \<Rightarrow> 'e option list \<Rightarrow> 'e option list" where
  "run_list xs [] = []"
| "run_list xs (Some x # ops) = run_list (xs @ [x]) ops"
| "run_list [] (None # ops) = None # run_list [] ops"
| "run_list (x # xs) (None # ops) = Some x # run_list xs ops"

lemma run_queue_list: "inv q \<Longrightarrow> run_queue q ops = Inr (run_list (elems q) ops)"
proof (induction q ops rule: run_queue.induct)
  case (2 q x ops)
  from push_spec [OF 2(2), of x] obtain q' where "push q x = Inr q'" "inv q'" "elems q' = elems q @ [x]" by blast
  with 2(1) show ?case by simp
next
  case (3 q ops)
  show ?case
  proof (cases "elems q")
    case Nil
    from pop_empty [OF 3(2) Nil] obtain q' where "pop q = Inr (q', None)" "inv q'" "elems q' = []" by blast
    with 3(1) Nil show ?thesis by simp
  next
    case (Cons x xs)
    from pop_first [OF 3(2) Cons] obtain q' where "pop q = Inr (q', Some x)" "inv q'" "elems q' = xs" by blast
    with 3(1) Cons show ?thesis by simp
  qed
qed simp

end

section \<open>State and operations\<close>

record 'a zbx_queue_ptr =
  q_values :: "'a option list"
  head_pos :: nat
  tail_pos :: nat

abbreviation q_alloc :: "'a zbx_queue_ptr \<Rightarrow> nat" where
  "q_alloc q \<equiv> length (q_values q)"

definition zbx_queue_ptr_values_num :: "'a zbx_queue_ptr \<Rightarrow> int" where
  "zbx_queue_ptr_values_num q =
     (let values_num = int (head_pos q) - int (tail_pos q) in
      if 0 > values_num then values_num + int (q_alloc q) else values_num)"

definition realloc :: "'a option list \<Rightarrow> nat \<Rightarrow> 'a option list" where
  "realloc xs n = take n xs @ replicate (n - length xs) None"

definition zbx_queue_ptr_reserve :: "'a zbx_queue_ptr \<Rightarrow> nat \<Rightarrow> 'a zbx_queue_ptr" where
  "zbx_queue_ptr_reserve q num =
     (if zbx_queue_ptr_values_num q + int num + 1 \<le> int (q_alloc q) then q
      else
        (let alloc_num = q_alloc q + max (num + 1) (q_alloc q div 2);
             values = realloc (q_values q) alloc_num
         in if tail_pos q > head_pos q then
              (let resize_num = alloc_num - q_alloc q
               in q\<lparr>q_values := memmove values (tail_pos q + resize_num) (tail_pos q) (q_alloc q - tail_pos q),
                    tail_pos := tail_pos q + resize_num\<rparr>)
            else q\<lparr>q_values := values\<rparr>))"

definition zbx_queue_ptr_compact :: "'a zbx_queue_ptr \<Rightarrow> 'a zbx_queue_ptr" where
  "zbx_queue_ptr_compact q =
     (let values_num = nat (zbx_queue_ptr_values_num q); alloc_num = values_num + 1 in
      if alloc_num = q_alloc q then q
      else
        (let q = (if tail_pos q \<noteq> 0 then
                    (if tail_pos q > head_pos q
                     then q\<lparr>q_values := memmove (q_values q) (head_pos q + 1) (tail_pos q) (q_alloc q - tail_pos q),
                            tail_pos := head_pos q + 1\<rparr>
                     else q\<lparr>q_values := memmove (q_values q) 0 (tail_pos q) values_num,
                            tail_pos := 0, head_pos := values_num\<rparr>)
                  else q)
         in q\<lparr>q_values := realloc (q_values q) alloc_num\<rparr>))"

definition zbx_queue_ptr_create :: "'a zbx_queue_ptr" where
  "zbx_queue_ptr_create = \<lparr>q_values = [], head_pos = 0, tail_pos = 0\<rparr>"

definition zbx_queue_ptr_push :: "'a zbx_queue_ptr \<Rightarrow> 'a option \<Rightarrow> 'a zbx_queue_ptr result" where
  "zbx_queue_ptr_push q v =
     (let q = zbx_queue_ptr_reserve q 1 in
      if \<not> head_pos q < q_alloc q then Inl BadIndex
      else
        (let q = q\<lparr>q_values := (q_values q)[head_pos q := v], head_pos := head_pos q + 1\<rparr>
         in Inr (if head_pos q = q_alloc q then q\<lparr>head_pos := 0\<rparr> else q)))"

definition zbx_queue_ptr_pop :: "'a zbx_queue_ptr \<Rightarrow> ('a zbx_queue_ptr \<times> 'a option) result" where
  "zbx_queue_ptr_pop q =
     (if tail_pos q \<noteq> head_pos q then
        (if \<not> tail_pos q < q_alloc q then Inl BadIndex
         else
           (let v = q_values q ! tail_pos q; q = q\<lparr>tail_pos := tail_pos q + 1\<rparr>;
                q = (if tail_pos q = q_alloc q then q\<lparr>tail_pos := 0\<rparr> else q);
                q = (if head_pos q = q_alloc q then q\<lparr>head_pos := 0\<rparr> else q)
            in Inr (q, v)))
      else Inr (q, None))"

text \<open>
  \<open>zbx_queue_ptr_remove_value\<close>: the two searches (\<open>i\<close> upwards, then downwards) and the two loops that
  close the gap.
\<close>

fun first_eq :: "'a option list \<Rightarrow> 'a option \<Rightarrow> nat list \<Rightarrow> nat option" where
  "first_eq xs v [] = None"
| "first_eq xs v (i # is) = (if xs ! i = v then Some i else first_eq xs v is)"

fun shift_left :: "'a list \<Rightarrow> nat list \<Rightarrow> 'a list" where
  "shift_left xs [] = xs"
| "shift_left xs (i # is) = shift_left (xs[i := xs ! (i + 1)]) is"

fun shift_right :: "'a list \<Rightarrow> nat list \<Rightarrow> 'a list" where
  "shift_right xs [] = xs"
| "shift_right xs (i # is) = shift_right (xs[i := xs ! (i - 1)]) is"

definition zbx_queue_ptr_remove_value :: "'a zbx_queue_ptr \<Rightarrow> 'a option \<Rightarrow> 'a zbx_queue_ptr" where
  "zbx_queue_ptr_remove_value q v =
     (if tail_pos q = head_pos q then q
      else
        (let start_pos = (if tail_pos q < head_pos q then tail_pos q else 0) in
         case first_eq (q_values q) v [start_pos..<head_pos q] of
           Some i \<Rightarrow> q\<lparr>q_values := shift_left (q_values q) [i..<head_pos q - 1], head_pos := head_pos q - 1\<rparr>
         | None \<Rightarrow>
             (if tail_pos q \<le> head_pos q then q
              else case first_eq (q_values q) v (rev [tail_pos q..<q_alloc q]) of
                     None \<Rightarrow> q
                   | Some i \<Rightarrow>
                       (let q = q\<lparr>q_values := shift_right (q_values q) (rev [tail_pos q + 1..<i + 1]),
                                  tail_pos := tail_pos q + 1\<rparr>
                        in if tail_pos q = q_alloc q then q\<lparr>tail_pos := 0\<rparr> else q))))"

section \<open>Invariant and abstraction\<close>

definition q_inv :: "'a zbx_queue_ptr \<Rightarrow> bool" where
  "q_inv q \<longleftrightarrow> (head_pos q = 0 \<and> tail_pos q = 0 \<and> q_values q = []) \<or> (head_pos q < q_alloc q \<and> tail_pos q < q_alloc q)"

definition q_abs :: "'a zbx_queue_ptr \<Rightarrow> 'a option list" where
  "q_abs q = (if tail_pos q \<le> head_pos q then drop (tail_pos q) (take (head_pos q) (q_values q))
              else drop (tail_pos q) (q_values q) @ take (head_pos q) (q_values q))"

lemma q_values_num: "q_inv q \<Longrightarrow> zbx_queue_ptr_values_num q = int (length (q_abs q))"
  by (auto simp: q_inv_def zbx_queue_ptr_values_num_def q_abs_def Let_def)

lemma q_create: "q_inv zbx_queue_ptr_create" "q_abs zbx_queue_ptr_create = []"
  by (simp_all add: q_inv_def q_abs_def zbx_queue_ptr_create_def)

lemma q_reserve:
  assumes "q_inv q"
  shows "q_inv (zbx_queue_ptr_reserve q num)" "q_abs (zbx_queue_ptr_reserve q num) = q_abs q"
    "length (q_abs q) + num + 1 \<le> q_alloc (zbx_queue_ptr_reserve q num)"
proof -
  have "q_inv (zbx_queue_ptr_reserve q num) \<and> q_abs (zbx_queue_ptr_reserve q num) = q_abs q
    \<and> length (q_abs q) + num + 1 \<le> q_alloc (zbx_queue_ptr_reserve q num)"
  proof (cases "length (q_abs q) + num + 1 \<le> q_alloc q")
    case True
    then show ?thesis using assms by (simp add: zbx_queue_ptr_reserve_def q_values_num)
  next
    case False
    define r where "r = max (num + 1) (q_alloc q div 2)"
    define vs where "vs = realloc (q_values q) (q_alloc q + r)"
    have vs: "vs = q_values q @ replicate r None" by (simp add: vs_def realloc_def)
    show ?thesis
    proof (cases "tail_pos q > head_pos q")
      case True
      then have t: "head_pos q < q_alloc q" "tail_pos q < q_alloc q" using assms by (auto simp: q_inv_def)
      let ?m = "memmove vs (tail_pos q + r) (tail_pos q) (q_alloc q - tail_pos q)"
      have e: "zbx_queue_ptr_reserve q num = q\<lparr>q_values := ?m, tail_pos := tail_pos q + r\<rparr>"
        using False True assms by (simp add: zbx_queue_ptr_reserve_def q_values_num Let_def r_def vs_def)
      have m: "?m = take (tail_pos q + r) vs @ drop (tail_pos q) (q_values q)"
        using t by (simp add: memmove_def vs)
      have "length ?m = q_alloc q + r" unfolding m using t by (simp add: vs)
      moreover have "drop (tail_pos q + r) ?m = drop (tail_pos q) (q_values q)" unfolding m using t by (simp add: vs)
      moreover have "take (head_pos q) ?m = take (head_pos q) (q_values q)" unfolding m using t True by (simp add: vs)
      ultimately show ?thesis
        using e t True False assms by (auto simp: q_inv_def q_abs_def r_def)
    next
      case nt: False
      have e: "zbx_queue_ptr_reserve q num = q\<lparr>q_values := vs\<rparr>"
        using False nt assms by (simp add: zbx_queue_ptr_reserve_def q_values_num Let_def r_def vs_def)
      show ?thesis using nt assms by (auto simp: e q_inv_def q_abs_def vs r_def)
    qed
  qed
  then show "q_inv (zbx_queue_ptr_reserve q num)" "q_abs (zbx_queue_ptr_reserve q num) = q_abs q"
    "length (q_abs q) + num + 1 \<le> q_alloc (zbx_queue_ptr_reserve q num)" by simp_all
qed

lemma q_push:
  assumes "q_inv q"
  shows "\<exists>q'. zbx_queue_ptr_push q v = Inr q' \<and> q_inv q' \<and> q_abs q' = q_abs q @ [v]"
proof -
  define r where "r = zbx_queue_ptr_reserve q 1"
  note res = q_reserve [OF assms, of 1, folded r_def]
  have h: "head_pos r < q_alloc r" "tail_pos r < q_alloc r" using res(1,3) by (auto simp: q_inv_def)
  define q1 where "q1 = r\<lparr>q_values := (q_values r)[head_pos r := v], head_pos := head_pos r + 1\<rparr>"
  define q' where "q' = (if head_pos q1 = q_alloc q1 then q1\<lparr>head_pos := 0\<rparr> else q1)"
  have "zbx_queue_ptr_push q v = Inr q'"
    unfolding zbx_queue_ptr_push_def Let_def r_def [symmetric] q'_def q1_def using h by simp
  moreover have "length (q_abs r) + 2 \<le> q_alloc r" using res(2,3) by simp
  then have "q_inv q' \<and> q_abs q' = q_abs r @ [v]"
    using h
  proof (cases "tail_pos r \<le> head_pos r")
    case True
    with h \<open>length (q_abs r) + 2 \<le> q_alloc r\<close> show ?thesis
      by (auto simp: q'_def q1_def q_inv_def q_abs_def upd_conv_take_nth_drop split: if_splits)
  next
    case False
    with h \<open>length (q_abs r) + 2 \<le> q_alloc r\<close> show ?thesis
      by (auto simp: q'_def q1_def q_inv_def q_abs_def take_Suc_conv_app_nth split: if_splits)
  qed
  ultimately show ?thesis using res(2) by simp
qed

lemma q_pop:
  assumes "q_inv q"
  shows "\<exists>q'. zbx_queue_ptr_pop q = Inr (q', case q_abs q of [] \<Rightarrow> None | x # _ \<Rightarrow> x)
    \<and> q_inv q' \<and> q_abs q' = tl (q_abs q)"
proof (cases "tail_pos q = head_pos q")
  case True
  with assms show ?thesis by (simp add: zbx_queue_ptr_pop_def q_abs_def)
next
  case False
  then have h: "head_pos q < q_alloc q" "tail_pos q < q_alloc q" using assms by (auto simp: q_inv_def)
  define q' where "q' = q\<lparr>tail_pos := if tail_pos q + 1 = q_alloc q then 0 else tail_pos q + 1\<rparr>"
  have p: "zbx_queue_ptr_pop q = Inr (q', q_values q ! tail_pos q)"
    using False h by (auto simp: zbx_queue_ptr_pop_def q'_def Let_def)
  have "q_abs q = q_values q ! tail_pos q # q_abs q' \<and> q_inv q'"
  proof (cases "tail_pos q < head_pos q")
    case True
    then have "drop (tail_pos q) (take (head_pos q) (q_values q))
        = q_values q ! tail_pos q # drop (Suc (tail_pos q)) (take (head_pos q) (q_values q))"
      using h by (subst Cons_nth_drop_Suc [symmetric]) auto
    with True h show ?thesis by (auto simp: q'_def q_abs_def q_inv_def)
  next
    case False
    have "drop (tail_pos q) (q_values q) = q_values q ! tail_pos q # drop (Suc (tail_pos q)) (q_values q)"
      using h by (subst Cons_nth_drop_Suc) auto
    with False h \<open>tail_pos q \<noteq> head_pos q\<close> show ?thesis by (auto simp: q'_def q_abs_def q_inv_def)
  qed
  with p show ?thesis by auto
qed

lemma q_compact:
  assumes "q_inv q"
  shows "q_abs (zbx_queue_ptr_compact q) = q_abs q \<and> q_inv (zbx_queue_ptr_compact q)
    \<and> q_alloc (zbx_queue_ptr_compact q) = length (q_abs q) + 1"
proof (cases "length (q_abs q) + 1 = q_alloc q")
  case True
  then show ?thesis using assms by (simp add: zbx_queue_ptr_compact_def q_values_num Let_def)
next
  case False
  show ?thesis
  proof (cases "tail_pos q > head_pos q")
    case True
    then have h: "head_pos q < q_alloc q" "tail_pos q < q_alloc q" using assms by (auto simp: q_inv_def)
    have n: "length (q_abs q) = q_alloc q - tail_pos q + head_pos q" using True h by (simp add: q_abs_def)
    have m: "memmove (q_values q) (head_pos q + 1) (tail_pos q) (q_alloc q - tail_pos q)
        = take (head_pos q + 1) (q_values q) @ drop (tail_pos q) (q_values q) @ drop (head_pos q + 1 + (q_alloc q - tail_pos q)) (q_values q)"
      by (simp add: memmove_def)
    have "zbx_queue_ptr_compact q = q\<lparr>q_values := realloc (memmove (q_values q) (head_pos q + 1) (tail_pos q) (q_alloc q - tail_pos q)) (length (q_abs q) + 1),
        tail_pos := head_pos q + 1\<rparr>"
      using False True assms by (simp add: zbx_queue_ptr_compact_def q_values_num Let_def)
    moreover have "realloc (memmove (q_values q) (head_pos q + 1) (tail_pos q) (q_alloc q - tail_pos q)) (length (q_abs q) + 1)
      = take (head_pos q + 1) (q_values q) @ drop (tail_pos q) (q_values q)"
      unfolding m n using h True by (simp add: realloc_def)
    ultimately show ?thesis using h True n by (auto simp: q_abs_def q_inv_def)
  next
    case nt: False
    then have t: "tail_pos q \<le> head_pos q" "head_pos q \<le> q_alloc q" using assms by (auto simp: q_inv_def)
    have n: "length (q_abs q) = head_pos q - tail_pos q" using t by (simp add: q_abs_def)
    have e: "zbx_queue_ptr_compact q = q\<lparr>q_values := realloc (memmove (q_values q) 0 (tail_pos q) (length (q_abs q))) (length (q_abs q) + 1),
        tail_pos := 0, head_pos := length (q_abs q)\<rparr>"
    proof -
      have "nat (zbx_queue_ptr_values_num q) = length (q_abs q)" using assms by (simp add: q_values_num)
      with False nt n show ?thesis
        by (cases q) (auto simp: zbx_queue_ptr_compact_def Let_def memmove_def)
    qed
    have "take (length (q_abs q)) (realloc (memmove (q_values q) 0 (tail_pos q) (length (q_abs q))) (length (q_abs q) + 1)) = q_abs q"
      using t nt by (simp add: realloc_def memmove_def q_abs_def drop_take)
    moreover have "length (realloc (memmove (q_values q) 0 (tail_pos q) (length (q_abs q))) (length (q_abs q) + 1)) = length (q_abs q) + 1"
      using t n by (auto simp: realloc_def memmove_def)
    ultimately show ?thesis unfolding e by (simp add: q_inv_def) (simp add: q_abs_def)
  qed
qed

text \<open>A queue that holds no NULL pointer is a first-in first-out queue.\<close>

interpretation qptr: fifo "\<lambda>q. q_inv q \<and> None \<notin> set (q_abs q)" "\<lambda>q. map the (q_abs q)"
  "\<lambda>q x. zbx_queue_ptr_push q (Some x)" zbx_queue_ptr_pop
proof (unfold_locales, goal_cases)
  case (1 q x)
  then show ?case using q_push [of q "Some x"] by auto
next
  case (2 q)
  then show ?case using q_pop [of q] by auto
next
  case (3 q x xs)
  then show ?case using q_pop [of q] by (cases "q_abs q") auto
qed

lemma first_eq_Some: "first_eq xs v is = Some i \<Longrightarrow> i \<in> set is \<and> xs ! i = v"
  by (induction "is") (auto split: if_splits)

lemma first_eq_None: "first_eq xs v is = None \<longleftrightarrow> (\<forall>i \<in> set is. xs ! i \<noteq> v)"
  by (induction "is") auto

lemma length_shift_left [simp]: "length (shift_left xs is) = length xs"
  by (induction xs "is" rule: shift_left.induct) simp_all

lemma length_shift_right [simp]: "length (shift_right xs is) = length xs"
  by (induction xs "is" rule: shift_right.induct) simp_all

lemma nth_shift_left:
  "b < length xs \<Longrightarrow> k < length xs \<Longrightarrow>
   shift_left xs [a..<b] ! k = (if a \<le> k \<and> k < b then xs ! (k + 1) else xs ! k)"
proof (induction "b - a" arbitrary: a xs)
  case 0
  then show ?case by auto
next
  case (Suc n)
  then have "shift_left xs [a..<b] = shift_left (xs[a := xs ! (a + 1)]) [Suc a..<b]" by (simp add: upt_conv_Cons)
  moreover have "shift_left (xs[a := xs ! (a + 1)]) [Suc a..<b] ! k
      = (if Suc a \<le> k \<and> k < b then xs[a := xs ! (a + 1)] ! (k + 1) else xs[a := xs ! (a + 1)] ! k)"
    using Suc by simp
  ultimately show ?case using Suc.hyps(2) Suc.prems by (auto simp: nth_list_update le_Suc_eq)
qed

lemma nth_shift_right:
  "b \<le> length xs \<Longrightarrow> 1 \<le> a \<Longrightarrow> k < length xs \<Longrightarrow>
   shift_right xs (rev [a..<b]) ! k = (if a \<le> k \<and> k < b then xs ! (k - 1) else xs ! k)"
proof (induction "b - a" arbitrary: b xs)
  case 0
  then show ?case by auto
next
  case (Suc n)
  then obtain c where c: "b = Suc c" "a \<le> c" by (cases b) auto
  then have "shift_right xs (rev [a..<b]) = shift_right (xs[c := xs ! (c - 1)]) (rev [a..<c])" by simp
  moreover have "shift_right (xs[c := xs ! (c - 1)]) (rev [a..<c]) ! k
      = (if a \<le> k \<and> k < c then xs[c := xs ! (c - 1)] ! (k - 1) else xs[c := xs ! (c - 1)] ! k)"
    using Suc c by simp
  ultimately show ?case using c Suc.prems by (auto simp: nth_list_update)
qed

lemma remove_value_front:
  assumes h: "h < length xs" and i: "s \<le> i" "i < h"
  shows "drop s (take (h - 1) (shift_left xs [i..<h - 1])) = drop s (take i xs) @ drop (i + 1) (take h xs)"
proof (rule nth_equalityI)
  show "length (drop s (take (h - 1) (shift_left xs [i..<h - 1]))) = length (drop s (take i xs) @ drop (i + 1) (take h xs))"
    using assms by auto
  fix k
  assume "k < length (drop s (take (h - 1) (shift_left xs [i..<h - 1])))"
  then show "drop s (take (h - 1) (shift_left xs [i..<h - 1])) ! k = (drop s (take i xs) @ drop (i + 1) (take h xs)) ! k"
    using assms by (auto simp: nth_append nth_shift_left add.commute min_def split: if_splits)
qed

lemma remove_value_back:
  assumes i: "t \<le> i" "i < length xs"
  shows "drop (t + 1) (shift_right xs (rev [t + 1..<i + 1])) = drop t (take i xs) @ drop (i + 1) xs"
proof (rule nth_equalityI)
  show "length (drop (t + 1) (shift_right xs (rev [t + 1..<i + 1]))) = length (drop t (take i xs) @ drop (i + 1) xs)"
    using assms by auto
  fix k
  assume "k < length (drop (t + 1) (shift_right xs (rev [t + 1..<i + 1])))"
  then show "drop (t + 1) (shift_right xs (rev [t + 1..<i + 1])) ! k = (drop t (take i xs) @ drop (i + 1) xs) ! k"
    using assms by (auto simp: nth_append min_def nth_shift_right add.commute simp del: upt_Suc)
qed

lemma drop_split_at:
  assumes "t \<le> i" "i < length xs"
  shows "drop t xs = drop t (take i xs) @ xs ! i # drop (Suc i) xs"
proof -
  have "drop t xs = drop t (take i xs @ xs ! i # drop (Suc i) xs)" using id_take_nth_drop [OF assms(2)] by (rule arg_cong)
  then show ?thesis using assms by (simp only: drop_append length_take) simp
qed

lemma removed_oneI:
  "zs = xs @ v # ys \<Longrightarrow> zs' = xs @ ys \<Longrightarrow>
   if v \<in> set zs then \<exists>xs ys. zs = xs @ v # ys \<and> zs' = xs @ ys else R"
  by (simp, blast)

lemma q_remove_value:
  assumes inv: "q_inv q"
  shows "q_inv (zbx_queue_ptr_remove_value q v) \<and>
    (if v \<in> set (q_abs q)
     then \<exists>xs ys. q_abs q = xs @ v # ys \<and> q_abs (zbx_queue_ptr_remove_value q v) = xs @ ys
     else zbx_queue_ptr_remove_value q v = q)"
proof -
  let ?h = "head_pos q" and ?t = "tail_pos q" and ?vs = "q_values q"
  consider (e) "?t = ?h" | (f) "?t < ?h" "?h < q_alloc q" | (w) "?h < ?t" "?t < q_alloc q"
    using inv unfolding q_inv_def by linarith
  then show ?thesis
  proof cases
    case e
    with inv show ?thesis by (simp add: zbx_queue_ptr_remove_value_def q_abs_def)
  next
    case f
    have ab: "q_abs q = drop ?t (take ?h ?vs)" using f by (simp add: q_abs_def)
    show ?thesis
    proof (cases "first_eq ?vs v [?t..<?h]")
      case None
      then have "v \<notin> set (q_abs q)" using f unfolding ab by (auto simp: first_eq_None in_set_conv_nth)
      moreover have "zbx_queue_ptr_remove_value q v = q" using None f by (simp add: zbx_queue_ptr_remove_value_def)
      ultimately show ?thesis using inv by simp
    next
      case (Some i)
      then have i: "?t \<le> i" "i < ?h" "?vs ! i = v" using first_eq_Some [OF Some] by auto
      let ?q = "q\<lparr>q_values := shift_left ?vs [i..<?h - 1], head_pos := ?h - 1\<rparr>"
      have e: "zbx_queue_ptr_remove_value q v = ?q" using Some f by (simp add: zbx_queue_ptr_remove_value_def)
      have "q_abs q = drop ?t (take i ?vs) @ v # drop (i + 1) (take ?h ?vs)"
        using i f drop_split_at [of ?t i "take ?h ?vs"] unfolding ab by (simp add: min_def)
      moreover have "q_abs ?q = drop ?t (take i ?vs) @ drop (i + 1) (take ?h ?vs)"
        using remove_value_front [OF f(2) i(1,2)] i by (simp add: q_abs_def)
      moreover have "q_inv ?q" using f i by (auto simp: q_inv_def)
      ultimately show ?thesis unfolding e by (blast intro: removed_oneI)
    qed
  next
    case w
    have ab: "q_abs q = drop ?t ?vs @ take ?h ?vs" using w by (simp add: q_abs_def)
    show ?thesis
    proof (cases "first_eq ?vs v [0..<?h]")
      case (Some i)
      then have i: "i < ?h" "?vs ! i = v" using first_eq_Some [OF Some] by auto
      let ?q = "q\<lparr>q_values := shift_left ?vs [i..<?h - 1], head_pos := ?h - 1\<rparr>"
      have e: "zbx_queue_ptr_remove_value q v = ?q" using Some w by (simp add: zbx_queue_ptr_remove_value_def)
      have "take ?h ?vs = take i ?vs @ v # drop (i + 1) (take ?h ?vs)"
        using i w id_take_nth_drop [of i "take ?h ?vs"] by (simp add: min_def)
      then have "q_abs q = (drop ?t ?vs @ take i ?vs) @ v # drop (i + 1) (take ?h ?vs)" unfolding ab by simp
      moreover have "drop ?t (shift_left ?vs [i..<?h - 1]) = drop ?t ?vs"
        using w by (intro nth_equalityI) (auto simp: nth_shift_left)
      then have "q_abs ?q = (drop ?t ?vs @ take i ?vs) @ drop (i + 1) (take ?h ?vs)"
        using remove_value_front [of ?h ?vs 0 i] i w by (auto simp: q_abs_def)
      moreover have "q_inv ?q" using w i by (auto simp: q_inv_def)
      ultimately show ?thesis unfolding e by (blast intro: removed_oneI)
    next
      case None
      then have nf: "v \<notin> set (take ?h ?vs)" using w by (auto simp: first_eq_None in_set_conv_nth)
      show ?thesis
      proof (cases "first_eq ?vs v (rev [?t..<q_alloc q])")
        case n2: None
        then have "v \<notin> set (drop ?t ?vs)" using w by (auto simp: first_eq_None in_set_conv_nth)
        moreover have "zbx_queue_ptr_remove_value q v = q" using None n2 w by (simp add: zbx_queue_ptr_remove_value_def)
        ultimately show ?thesis using inv nf ab by simp
      next
        case (Some i)
        then have i: "?t \<le> i" "i < q_alloc q" "?vs ! i = v" using first_eq_Some [OF Some] by auto
        let ?vs' = "shift_right ?vs (rev [?t + 1..<i + 1])"
        let ?q = "q\<lparr>q_values := ?vs', tail_pos := if ?t + 1 = q_alloc q then 0 else ?t + 1\<rparr>"
        have e: "zbx_queue_ptr_remove_value q v = ?q"
          using Some None w by (simp add: zbx_queue_ptr_remove_value_def Let_def del: upt_Suc)
        have "drop ?t ?vs = drop ?t (take i ?vs) @ v # drop (i + 1) ?vs"
          using i drop_split_at [of ?t i ?vs] by simp
        then have "q_abs q = drop ?t (take i ?vs) @ v # (drop (i + 1) ?vs @ take ?h ?vs)" unfolding ab by simp
        moreover have "take ?h ?vs' = take ?h ?vs"
          using w i by (intro nth_equalityI) (auto simp: nth_shift_right simp del: upt_Suc)
        then have "q_abs ?q = drop ?t (take i ?vs) @ (drop (i + 1) ?vs @ take ?h ?vs)"
          using remove_value_back [of ?t i ?vs] i w by (auto simp: q_abs_def simp del: upt_Suc)
        moreover have "q_inv ?q" using w i by (auto simp: q_inv_def)
        ultimately show ?thesis unfolding e by (blast intro: removed_oneI)
      qed
    qed
  qed
qed

section \<open>Properties\<close>

fun q_client :: "'a zbx_queue_ptr \<Rightarrow> 'a option list \<Rightarrow> 'a option list result" where
  "q_client q [] = Inr []"
| "q_client q (Some x # ops) = bind_result (zbx_queue_ptr_push q (Some x)) (\<lambda>q. q_client q ops)"
| "q_client q (None # ops) =
     bind_result (zbx_queue_ptr_pop q) (\<lambda>(q, r). bind_result (q_client q ops) (\<lambda>rs. Inr (r # rs)))"

fun fifo_spec :: "'a list \<Rightarrow> 'a option list \<Rightarrow> 'a option list" where
  "fifo_spec xs [] = []"
| "fifo_spec xs (Some x # ops) = fifo_spec (xs @ [x]) ops"
| "fifo_spec [] (None # ops) = None # fifo_spec [] ops"
| "fifo_spec (x # xs) (None # ops) = Some x # fifo_spec xs ops"

lemma q_client_run: "q_client q ops = qptr.run_queue q ops"
  by (induction q ops rule: q_client.induct) (simp_all add: bind_result_def split: sum.split)

lemma fifo_spec_run: "fifo_spec xs ops = qptr.run_list xs ops"
  by (induction xs ops rule: fifo_spec.induct) simp_all

text \<open>
  C24. Any sequence of pushes and pops on a new queue, through every growth and wrap-around of the
  circular buffer, returns the pushed pointers in order, and NULL whenever the queue is empty.
\<close>

theorem queue_ptr_fifo: "q_client zbx_queue_ptr_create ops = Inr (fifo_spec [] ops)"
  unfolding q_client_run fifo_spec_run
  using qptr.run_queue_list [of zbx_queue_ptr_create ops] by (simp add: q_create)

text \<open>
  Removing a value takes out one occurrence of it and keeps the order of the others, wherever it
  is in the circular buffer; without an occurrence the queue is unchanged; compacting keeps the
  contents and leaves one free place.
\<close>

theorem queue_ptr_remove_compact:
  assumes "q_inv q"
  shows "q_inv (zbx_queue_ptr_remove_value q v)
    \<and> (if v \<in> set (q_abs q)
       then \<exists>xs ys. q_abs q = xs @ v # ys \<and> q_abs (zbx_queue_ptr_remove_value q v) = xs @ ys
       else zbx_queue_ptr_remove_value q v = q)
    \<and> q_abs (zbx_queue_ptr_compact q) = q_abs q \<and> q_inv (zbx_queue_ptr_compact q)
    \<and> length (q_values (zbx_queue_ptr_compact q)) = length (q_abs q) + 1"
  using q_remove_value [OF assms, of v] q_compact [OF assms] by simp

theorem queue_ptr_remove_compact_witness:
  "q_abs (zbx_queue_ptr_remove_value \<lparr>q_values = [Some 3, Some 4, None, Some 1, Some (2 :: nat)], head_pos = 2, tail_pos = 3\<rparr> (Some 1))
     = [Some 2, Some 3, Some 4]"
proof -
  let ?q = "\<lparr>q_values = [Some 3, Some 4, None, Some 1, Some (2 :: nat)], head_pos = 2, tail_pos = 3\<rparr>"
  have "q_inv ?q" "q_abs ?q = [Some 1, Some 2, Some 3, Some 4]" by (simp_all add: q_inv_def q_abs_def)
  with queue_ptr_remove_compact [of ?q "Some 1"] obtain xs ys where
    "[Some 1, Some 2, Some 3, Some 4] = xs @ Some 1 # ys" "q_abs (zbx_queue_ptr_remove_value ?q (Some 1)) = xs @ ys" by auto
  then show ?thesis by (auto simp: Cons_eq_append_conv)
qed

end
