(* ===== verification/Linked_List.thy ===== *)
theory Linked_List
  imports Queue
begin

text \<open>
  \<open>src/libs/zbxalgo/linked_list.c\<close>: the singly linked list with head and tail pointers under the
  preprocessing queues, over an explicit store of list items, since the iterators and the caller hold
  pointers into it.  \<open>l_items\<close> maps the address of every live item to its contents, \<open>l_fresh\<close> is the
  address the allocator hands out next (it does not return NULL); reading an item that is not live is
  \<open>NullDeref\<close>.
\<close>

section \<open>State and operations\<close>

record 'a list_item =
  li_next :: "nat option"
  li_data :: 'a

record 'a zbx_list =
  l_items :: "nat \<rightharpoonup> 'a list_item"
  l_head :: "nat option"
  l_tail :: "nat option"
  l_fresh :: nat

definition zbx_list_create :: "'a zbx_list" where
  "zbx_list_create = \<lparr>l_items = Map.empty, l_head = None, l_tail = None, l_fresh = 0\<rparr>"

definition item_at :: "'a zbx_list \<Rightarrow> nat option \<Rightarrow> 'a list_item result" where
  "item_at l p = (case p of None \<Rightarrow> Inl NullDeref
     | Some a \<Rightarrow> (case l_items l a of None \<Rightarrow> Inl NullDeref | Some it \<Rightarrow> Inr it))"

definition list_create_item :: "'a zbx_list \<Rightarrow> 'a \<Rightarrow> 'a zbx_list \<times> nat" where
  "list_create_item l v =
     (l\<lparr>l_items := (l_items l)(l_fresh l \<mapsto> \<lparr>li_next = None, li_data = v\<rparr>), l_fresh := Suc (l_fresh l)\<rparr>, l_fresh l)"

definition set_item :: "'a zbx_list \<Rightarrow> nat \<Rightarrow> 'a list_item \<Rightarrow> 'a zbx_list" where
  "set_item l a it = l\<lparr>l_items := (l_items l)(a \<mapsto> it)\<rparr>"

definition zbx_list_insert_after :: "'a zbx_list \<Rightarrow> nat option \<Rightarrow> 'a \<Rightarrow> ('a zbx_list \<times> nat) result" where
  "zbx_list_insert_after l after v =
     (let (l, item) = list_create_item l v;
          after = (if after = None then l_tail l else after)
      in bind_result
           (case after of
              Some a \<Rightarrow>
                bind_result (item_at l (Some a)) (\<lambda>ai.
                  Inr (set_item (set_item l item \<lparr>li_next = li_next ai, li_data = v\<rparr>) a (ai\<lparr>li_next := Some item\<rparr>)))
            | None \<Rightarrow> Inr (l\<lparr>l_head := Some item\<rparr>))
           (\<lambda>l. Inr (if after = l_tail l then l\<lparr>l_tail := Some item\<rparr> else l, item)))"

definition zbx_list_append :: "'a zbx_list \<Rightarrow> 'a \<Rightarrow> ('a zbx_list \<times> nat) result" where
  "zbx_list_append l v = zbx_list_insert_after l None v"

definition zbx_list_prepend :: "'a zbx_list \<Rightarrow> 'a \<Rightarrow> 'a zbx_list \<times> nat" where
  "zbx_list_prepend l v =
     (let (l, item) = list_create_item l v;
          l = set_item l item \<lparr>li_next = l_head l, li_data = v\<rparr>;
          l = l\<lparr>l_head := Some item\<rparr>
      in (if l_tail l = None then l\<lparr>l_tail := Some item\<rparr> else l, item))"

definition zbx_list_pop :: "'a zbx_list \<Rightarrow> ('a zbx_list \<times> 'a option) result" where
  "zbx_list_pop l =
     (case l_head l of
        None \<Rightarrow> Inr (l, None)
      | Some head \<Rightarrow>
          bind_result (item_at l (Some head)) (\<lambda>it.
            let l = l\<lparr>l_head := li_next it\<rparr>;
                l = l\<lparr>l_items := (l_items l)(head := None)\<rparr>;
                l = (if l_head l = None then l\<lparr>l_tail := None\<rparr> else l)
            in Inr (l, Some (li_data it))))"

definition zbx_list_peek :: "'a zbx_list \<Rightarrow> 'a option result" where
  "zbx_list_peek l =
     (case l_head l of
        None \<Rightarrow> Inr None
      | Some a \<Rightarrow> bind_result (item_at l (Some a)) (\<lambda>it. Inr (Some (li_data it))))"

text \<open>\<open>zbx_list_destroy\<close>: pops until the list is empty.\<close>

fun list_destroy_loop :: "nat \<Rightarrow> 'a zbx_list \<Rightarrow> 'a zbx_list result option" where
  "list_destroy_loop 0 l = None"
| "list_destroy_loop (Suc n) l =
     (case zbx_list_pop l of
        Inl e \<Rightarrow> Some (Inl e)
      | Inr (l, None) \<Rightarrow> Some (Inr l)
      | Inr (l, Some _) \<Rightarrow> list_destroy_loop n l)"

record list_iterator =
  lit_current :: "nat option"
  lit_next :: "nat option"

definition zbx_list_iterator_init :: "'a zbx_list \<Rightarrow> list_iterator" where
  "zbx_list_iterator_init l = \<lparr>lit_current = None, lit_next = l_head l\<rparr>"

definition zbx_list_iterator_next :: "'a zbx_list \<Rightarrow> list_iterator \<Rightarrow> (list_iterator \<times> int) result" where
  "zbx_list_iterator_next l it =
     (case lit_next it of
        None \<Rightarrow> Inr (it, FAIL)
      | Some a \<Rightarrow>
          bind_result (item_at l (Some a)) (\<lambda>i. Inr (\<lparr>lit_current = Some a, lit_next = li_next i\<rparr>, SUCCEED)))"

definition zbx_list_iterator_peek :: "'a zbx_list \<Rightarrow> list_iterator \<Rightarrow> 'a option result" where
  "zbx_list_iterator_peek l it =
     (case lit_current it of
        None \<Rightarrow> Inr None
      | Some a \<Rightarrow> bind_result (item_at l (Some a)) (\<lambda>i. Inr (Some (li_data i))))"

definition zbx_list_iterator_update :: "'a zbx_list \<Rightarrow> list_iterator \<Rightarrow> list_iterator result" where
  "zbx_list_iterator_update l it =
     (case lit_current it of
        None \<Rightarrow> Inr it
      | Some a \<Rightarrow> bind_result (item_at l (Some a)) (\<lambda>i. Inr (it\<lparr>lit_next := li_next i\<rparr>)))"

definition zbx_list_iterator_remove_next ::
  "'a zbx_list \<Rightarrow> list_iterator \<Rightarrow> ('a zbx_list \<times> list_iterator \<times> 'a option) result" where
  "zbx_list_iterator_remove_next l it =
     (case (lit_current it, lit_next it) of
        (Some c, Some n) \<Rightarrow>
          bind_result (item_at l (Some n)) (\<lambda>ni.
            let l = (if l_tail l = Some n then l\<lparr>l_tail := Some c\<rparr> else l)
            in bind_result (item_at l (Some c)) (\<lambda>ci.
                 let l = set_item l c (ci\<lparr>li_next := li_next ni\<rparr>);
                     it = it\<lparr>lit_next := li_next ni\<rparr>;
                     l = l\<lparr>l_items := (l_items l)(n := None)\<rparr>
                 in Inr (l, it, Some (li_data ni))))
      | _ \<Rightarrow> Inr (l, it, None))"

section \<open>Invariant and abstraction\<close>

text \<open>\<open>lpath h p as\<close>: following the next pointers from \<open>p\<close> visits the items \<open>as\<close> and ends.\<close>

fun lpath :: "(nat \<rightharpoonup> 'a list_item) \<Rightarrow> nat option \<Rightarrow> nat list \<Rightarrow> bool" where
  "lpath h p [] \<longleftrightarrow> p = None"
| "lpath h p (a # as) \<longleftrightarrow> p = Some a \<and> (\<exists>it. h a = Some it \<and> lpath h (li_next it) as)"

definition l_ok :: "'a zbx_list \<Rightarrow> nat list \<Rightarrow> bool" where
  "l_ok l as \<longleftrightarrow> lpath (l_items l) (l_head l) as \<and> distinct as
     \<and> l_tail l = (if as = [] then None else Some (last as)) \<and> dom (l_items l) = set as
     \<and> (\<forall>a \<in> set as. a < l_fresh l)"

definition l_inv :: "'a zbx_list \<Rightarrow> bool" where
  "l_inv l \<longleftrightarrow> (\<exists>as. l_ok l as)"

definition l_data :: "'a zbx_list \<Rightarrow> nat list \<Rightarrow> 'a list" where
  "l_data l as = map (\<lambda>a. li_data (the (l_items l a))) as"

lemma lpath_unique: "lpath h p as \<Longrightarrow> lpath h p bs \<Longrightarrow> as = bs"
proof (induction as arbitrary: p bs)
  case (Cons a as)
  then show ?case by (cases bs) auto
next
  case Nil
  then show ?case by (cases bs) auto
qed

definition l_addrs :: "'a zbx_list \<Rightarrow> nat list" where
  "l_addrs l = (THE as. lpath (l_items l) (l_head l) as)"

definition l_abs :: "'a zbx_list \<Rightarrow> 'a list" where
  "l_abs l = l_data l (l_addrs l)"

lemma l_addrs_eq: "l_ok l as \<Longrightarrow> l_addrs l = as"
  unfolding l_addrs_def l_ok_def by (blast intro: the_equality lpath_unique)

lemma l_abs_eq: "l_ok l as \<Longrightarrow> l_abs l = l_data l as"
  by (simp add: l_abs_def l_addrs_eq)

lemma lpath_cong: "(\<And>a. a \<in> set as \<Longrightarrow> h' a = h a) \<Longrightarrow> lpath h' p as = lpath h p as"
  by (induction as arbitrary: p) auto


lemma lpath_insert:
  assumes "lpath h p (xs @ a # ys)" "distinct (xs @ a # ys)" "n \<notin> set (xs @ a # ys)" "h a = Some ai"
  shows "lpath (h(n \<mapsto> \<lparr>li_next = li_next ai, li_data = v\<rparr>, a \<mapsto> ai\<lparr>li_next := Some n\<rparr>)) p (xs @ a # n # ys)"
  using assms
proof (induction xs arbitrary: p)
  case Nil
  define h' where "h' = h(n \<mapsto> \<lparr>li_next = li_next ai, li_data = v\<rparr>, a \<mapsto> ai\<lparr>li_next := Some n\<rparr>)"
  have "h' a = Some (ai\<lparr>li_next := Some n\<rparr>)" "h' n = Some \<lparr>li_next = li_next ai, li_data = v\<rparr>"
    using Nil by (auto simp: h'_def)
  moreover have "lpath h' (li_next ai) ys = lpath h (li_next ai) ys" using Nil by (intro lpath_cong) (auto simp: h'_def)
  ultimately show ?case unfolding h'_def [symmetric] using Nil by auto
qed auto

lemma lpath_remove:
  assumes "lpath h p (xs @ a # n # ys)" "distinct (xs @ a # n # ys)" "h a = Some ai" "h n = Some ni"
  shows "lpath (h(a \<mapsto> ai\<lparr>li_next := li_next ni\<rparr>, n := None)) p (xs @ a # ys)"
  using assms
proof (induction xs arbitrary: p)
  case Nil
  define h' where "h' = h(a \<mapsto> ai\<lparr>li_next := li_next ni\<rparr>, n := None)"
  have "h' a = Some (ai\<lparr>li_next := li_next ni\<rparr>)" using Nil by (auto simp: h'_def)
  moreover have "lpath h' (li_next ni) ys = lpath h (li_next ni) ys" using Nil by (intro lpath_cong) (auto simp: h'_def)
  ultimately show ?case unfolding h'_def [symmetric] using Nil by auto
qed auto

lemma l_ok_item: "l_ok l as \<Longrightarrow> a \<in> set as \<Longrightarrow> \<exists>it. l_items l a = Some it"
  unfolding l_ok_def by blast

lemma l_insert_after:
  assumes ok: "l_ok l (xs @ a # ys)"
  shows "\<exists>l'. zbx_list_insert_after l (Some a) v = Inr (l', l_fresh l) \<and> l_ok l' (xs @ a # l_fresh l # ys)
    \<and> l_data l' (xs @ a # l_fresh l # ys) = l_data l (xs @ [a]) @ v # l_data l ys"
proof -
  let ?n = "l_fresh l"
  obtain ai where ai: "l_items l a = Some ai" using l_ok_item [OF ok, of a] by auto
  have n: "?n \<notin> set (xs @ a # ys)" and d: "distinct (xs @ a # ys)" using ok by (auto simp: l_ok_def)
  let ?h = "(l_items l)(?n \<mapsto> \<lparr>li_next = li_next ai, li_data = v\<rparr>, a \<mapsto> ai\<lparr>li_next := Some ?n\<rparr>)"
  have an: "a \<noteq> ?n" using n by auto
  define l' where "l' = l\<lparr>l_items := ?h, l_fresh := Suc ?n, l_tail := if l_tail l = Some a then Some ?n else l_tail l\<rparr>"
  have e: "zbx_list_insert_after l (Some a) v = Inr (l', ?n)"
    using ai an by (auto simp: zbx_list_insert_after_def list_create_item_def item_at_def set_item_def l'_def Let_def fun_upd_twist)
  have t: "l_tail l = Some a \<longleftrightarrow> ys = []" using ok d by (auto simp: l_ok_def)
  have "lpath ?h (l_head l) (xs @ a # ?n # ys)"
    using ok d n ai by (intro lpath_insert) (simp_all add: l_ok_def)
  then have "l_ok l' (xs @ a # ?n # ys)"
    using ok n d t by (auto simp: l_ok_def l'_def less_SucI)
  moreover have "l_data l' (xs @ a # ?n # ys) = l_data l (xs @ [a]) @ v # l_data l ys"
    using n d ai an by (auto simp: l_data_def l'_def)
  ultimately show ?thesis using e by blast
qed

lemma l_append:
  assumes ok: "l_ok l as"
  shows "\<exists>l'. zbx_list_append l v = Inr (l', l_fresh l) \<and> l_ok l' (as @ [l_fresh l])
    \<and> l_data l' (as @ [l_fresh l]) = l_data l as @ [v]"
proof (cases as rule: rev_cases)
  case Nil
  with ok have "l_items l = Map.empty" "l_tail l = None" by (auto simp: l_ok_def)
  with Nil ok show ?thesis
    by (auto simp: zbx_list_append_def zbx_list_insert_after_def list_create_item_def l_ok_def l_data_def Let_def)
next
  case (snoc xs a)
  then have "l_tail l = Some a" using ok by (simp add: l_ok_def)
  then have "zbx_list_append l v = zbx_list_insert_after l (Some a) v"
    by (simp add: zbx_list_append_def zbx_list_insert_after_def list_create_item_def)
  with l_insert_after [of l xs a "[]" v] ok snoc show ?thesis by (simp add: l_data_def)
qed

lemma l_prepend:
  assumes ok: "l_ok l as"
  shows "l_ok (fst (zbx_list_prepend l v)) (l_fresh l # as)
    \<and> l_data (fst (zbx_list_prepend l v)) (l_fresh l # as) = v # l_data l as"
proof -
  have n: "l_fresh l \<notin> set as" using ok by (auto simp: l_ok_def)
  have "lpath ((l_items l)(l_fresh l \<mapsto> i)) (l_head l) as = lpath (l_items l) (l_head l) as" for i
    using n by (intro lpath_cong) auto
  with ok n show ?thesis
    by (auto simp: zbx_list_prepend_def list_create_item_def set_item_def l_ok_def l_data_def less_SucI Let_def split: if_splits)
qed

lemma l_pop:
  assumes ok: "l_ok l as"
  shows "\<exists>l'. zbx_list_pop l = Inr (l', case as of [] \<Rightarrow> None | a # _ \<Rightarrow> Some (li_data (the (l_items l a))))
    \<and> l_ok l' (tl as) \<and> l_data l' (tl as) = tl (l_data l as)"
proof (cases as)
  case Nil
  with ok show ?thesis by (auto simp: zbx_list_pop_def l_ok_def l_data_def)
next
  case (Cons a bs)
  then obtain it where it: "l_items l a = Some it" "lpath (l_items l) (li_next it) bs" "l_head l = Some a"
    using ok by (auto simp: l_ok_def)
  define l' where "l' = l\<lparr>l_head := li_next it, l_items := (l_items l)(a := None), l_tail := if li_next it = None then None else l_tail l\<rparr>"
  have "zbx_list_pop l = Inr (l', Some (li_data it))"
    using it by (auto simp: zbx_list_pop_def item_at_def l'_def Let_def)
  moreover have "lpath ((l_items l)(a := None)) (li_next it) bs = lpath (l_items l) (li_next it) bs"
    using ok Cons by (intro lpath_cong) (auto simp: l_ok_def)
  then have "l_ok l' bs"
    using ok Cons it by (cases bs) (auto simp: l_ok_def l'_def)
  moreover have "l_data l' bs = l_data l bs" using ok Cons by (auto simp: l_data_def l'_def l_ok_def)
  ultimately show ?thesis using it Cons by (auto simp: l_data_def)
qed

definition list_push :: "'a zbx_list \<Rightarrow> 'a \<Rightarrow> 'a zbx_list result" where
  "list_push l v = bind_result (zbx_list_append l v) (\<lambda>(l, _). Inr l)"

interpretation llist: fifo l_inv l_abs list_push zbx_list_pop
proof (unfold_locales, goal_cases)
  case (1 q x)
  then obtain as where as: "l_ok q as" by (auto simp: l_inv_def)
  from l_append [OF as, of x] obtain l' where "zbx_list_append q x = Inr (l', l_fresh q)"
    "l_ok l' (as @ [l_fresh q])" "l_data l' (as @ [l_fresh q]) = l_data q as @ [x]" by blast
  with as show ?case by (auto simp: l_inv_def l_abs_eq list_push_def)
next
  case (2 q)
  then obtain as where as: "l_ok q as" by (auto simp: l_inv_def)
  with 2 have "as = []" by (simp add: l_abs_eq l_data_def)
  with l_pop [OF as] show ?case by (auto simp: l_inv_def l_abs_eq l_data_def)
next
  case (3 q x xs)
  then obtain as where as: "l_ok q as" by (auto simp: l_inv_def)
  with 3 obtain a bs where ab: "as = a # bs" "li_data (the (l_items q a)) = x" "l_data q bs = xs"
    by (auto simp: l_abs_eq l_data_def)
  with l_pop [OF as] show ?case by (auto simp: l_inv_def l_abs_eq l_data_def)
qed

section \<open>Iterators\<close>

text \<open>\<open>lit_at it xs ys\<close>: the iterator has passed \<open>xs\<close> and has \<open>ys\<close> before it.\<close>

definition lit_at :: "list_iterator \<Rightarrow> nat list \<Rightarrow> nat list \<Rightarrow> bool" where
  "lit_at it xs ys \<longleftrightarrow> lit_current it = (if xs = [] then None else Some (last xs))
     \<and> lit_next it = (if ys = [] then None else Some (hd ys))"

lemma lpath_hd: "lpath h p as \<Longrightarrow> p = (if as = [] then None else Some (hd as))"
  by (cases as) auto

lemma lpath_suffix: "lpath h p (xs @ a # ys) \<Longrightarrow> h a = Some i \<Longrightarrow> lpath h (li_next i) ys"
  by (induction xs arbitrary: p) auto

lemma lit_init: "l_ok l as \<Longrightarrow> lit_at (zbx_list_iterator_init l) [] as"
  using lpath_hd [of "l_items l" "l_head l" as] by (simp add: lit_at_def zbx_list_iterator_init_def l_ok_def)

lemma lit_next_step:
  assumes ok: "l_ok l (xs @ a # ys)" and at: "lit_at it xs (a # ys)"
  shows "\<exists>it'. zbx_list_iterator_next l it = Inr (it', 0) \<and> lit_at it' (xs @ [a]) ys
    \<and> zbx_list_iterator_peek l it' = Inr (Some (li_data (the (l_items l a))))"
proof -
  obtain i where i: "l_items l a = Some i" using l_ok_item [OF ok, of a] by auto
  have "lpath (l_items l) (li_next i) ys" using ok i by (auto simp: l_ok_def intro: lpath_suffix)
  from lpath_hd [OF this] i at show ?thesis
    by (auto simp: zbx_list_iterator_next_def zbx_list_iterator_peek_def item_at_def lit_at_def)
qed

lemma lit_remove_next:
  assumes ok: "l_ok l (xs @ a # n # ys)" and at: "lit_at it (xs @ [a]) (n # ys)"
  shows "\<exists>l' it'. zbx_list_iterator_remove_next l it = Inr (l', it', Some (li_data (the (l_items l n))))
    \<and> l_ok l' (xs @ a # ys) \<and> lit_at it' (xs @ [a]) ys \<and> l_data l' (xs @ a # ys) = l_data l (xs @ a # ys)"
proof -
  obtain ai ni where ai: "l_items l a = Some ai" and ni: "l_items l n = Some ni"
    using l_ok_item [OF ok, of a] l_ok_item [OF ok, of n] by auto
  have d: "distinct (xs @ a # n # ys)" using ok by (simp add: l_ok_def)
  let ?h = "(l_items l)(a \<mapsto> ai\<lparr>li_next := li_next ni\<rparr>, n := None)"
  define l' where "l' = l\<lparr>l_items := ?h, l_tail := if l_tail l = Some n then Some a else l_tail l\<rparr>"
  have c: "lit_current it = Some a" "lit_next it = Some n" using at by (simp_all add: lit_at_def)
  have e: "zbx_list_iterator_remove_next l it = Inr (l', it\<lparr>lit_next := li_next ni\<rparr>, Some (li_data ni))"
    using c ai ni d by (auto simp: zbx_list_iterator_remove_next_def item_at_def set_item_def l'_def Let_def)
  have "lpath (l_items l) (li_next ni) ys"
    using ok ni lpath_suffix [of "l_items l" "l_head l" "xs @ [a]" n ys ni] by (simp add: l_ok_def)
  from lpath_hd [OF this] have at': "lit_at (it\<lparr>lit_next := li_next ni\<rparr>) (xs @ [a]) ys" using at by (simp add: lit_at_def)
  have "lpath ?h (l_head l) (xs @ a # ys)" using ok d ai ni by (intro lpath_remove) (simp_all add: l_ok_def)
  moreover have "l_tail l = Some n \<longleftrightarrow> ys = []" using ok d by (auto simp: l_ok_def)
  ultimately have "l_ok l' (xs @ a # ys)" using ok d by (auto simp: l_ok_def l'_def)
  moreover have "l_data l' (xs @ a # ys) = l_data l (xs @ a # ys)" using d ai ni by (auto simp: l_data_def l'_def)
  ultimately show ?thesis using e at' ni by auto
qed

section \<open>Properties\<close>

fun l_client :: "'a zbx_list \<Rightarrow> 'a option list \<Rightarrow> 'a option list result" where
  "l_client l [] = Inr []"
| "l_client l (Some x # ops) = bind_result (zbx_list_append l x) (\<lambda>(l, _). l_client l ops)"
| "l_client l (None # ops) =
     bind_result (zbx_list_pop l) (\<lambda>(l, r). bind_result (l_client l ops) (\<lambda>rs. Inr (r # rs)))"

lemma l_client_run: "l_client l ops = llist.run_queue l ops"
proof (induction l ops rule: l_client.induct)
  case (2 l x ops)
  then show ?case by (cases "zbx_list_append l x") (auto simp: list_push_def [of l x])
next
  case (3 l ops)
  then show ?case by (cases "zbx_list_pop l") auto
qed simp

lemma l_create_ok: "l_ok zbx_list_create []"
  by (simp add: l_ok_def zbx_list_create_def)

text \<open>
  C25. Appending to and popping from a new list is a first-in first-out queue: the pops return the
  appended values in order, and fail exactly when the list is empty.
\<close>

theorem list_fifo: "l_client zbx_list_create ops = Inr (fifo_spec [] ops)"
proof -
  have "fifo_spec xs ops = llist.run_list xs ops" for xs :: "'a list" and ops
    by (induction xs ops rule: fifo_spec.induct) simp_all
  moreover have "l_inv zbx_list_create" unfolding l_inv_def by (intro exI) (rule l_create_ok)
  ultimately show ?thesis
    using llist.run_queue_list [of zbx_list_create ops]
    by (simp add: l_client_run l_abs_eq [OF l_create_ok] l_data_def)
qed

text \<open>
  With an iterator on an item, inserting after the item puts the value right behind it and
  removing the next item takes out exactly that one, at the end of the list too: the tail pointer
  follows, the list stays well formed and all other values stay in their order.
\<close>

theorem list_iterator_edit:
  assumes "l_ok l (xs @ a # ys)" "lit_at it (xs @ [a]) ys"
  shows "(\<exists>l' n. zbx_list_insert_after l (lit_current it) v = Inr (l', n) \<and> l_ok l' (xs @ a # n # ys)
      \<and> l_data l' (xs @ a # n # ys) = l_data l (xs @ [a]) @ v # l_data l ys)
    \<and> (case ys of
       [] \<Rightarrow> zbx_list_iterator_remove_next l it = Inr (l, it, None)
     | b # bs \<Rightarrow> \<exists>l' it'. zbx_list_iterator_remove_next l it = Inr (l', it', Some (li_data (the (l_items l b))))
         \<and> l_ok l' (xs @ a # bs) \<and> lit_at it' (xs @ [a]) bs \<and> l_data l' (xs @ a # bs) = l_data l (xs @ a # bs))"
proof -
  have c: "lit_current it = Some a" using assms(2) by (simp add: lit_at_def)
  have "case ys of
       [] \<Rightarrow> zbx_list_iterator_remove_next l it = Inr (l, it, None)
     | b # bs \<Rightarrow> \<exists>l' it'. zbx_list_iterator_remove_next l it = Inr (l', it', Some (li_data (the (l_items l b))))
         \<and> l_ok l' (xs @ a # bs) \<and> lit_at it' (xs @ [a]) bs \<and> l_data l' (xs @ a # bs) = l_data l (xs @ a # bs)"
  proof (cases ys)
    case Nil
    then have "lit_next it = None" using assms(2) by (simp add: lit_at_def)
    with Nil c show ?thesis by (simp add: zbx_list_iterator_remove_next_def)
  next
    case (Cons b bs)
    with lit_remove_next [of l xs a b bs it] assms show ?thesis by simp
  qed
  with l_insert_after [OF assms(1), of v] c show ?thesis by auto
qed

theorem list_iterator_edit_witness:
  "let l = \<lparr>l_items = [0 \<mapsto> \<lparr>li_next = Some 1, li_data = ''a''\<rparr>, 1 \<mapsto> \<lparr>li_next = None, li_data = ''b''\<rparr>],
            l_head = Some 0, l_tail = Some 1, l_fresh = 2\<rparr>
   in \<exists>l' it'. zbx_list_iterator_remove_next l \<lparr>lit_current = Some 0, lit_next = Some 1\<rparr> = Inr (l', it', Some ''b'')
      \<and> l_tail l' = Some 0"
proof -
  let ?l = "\<lparr>l_items = [0 \<mapsto> \<lparr>li_next = Some 1, li_data = ''a''\<rparr>, 1 \<mapsto> \<lparr>li_next = None, li_data = ''b''\<rparr>],
            l_head = Some 0, l_tail = Some 1, l_fresh = 2\<rparr>"
  have "l_ok ?l ([] @ 0 # [1])" "lit_at \<lparr>lit_current = Some 0, lit_next = Some 1\<rparr> ([] @ [0]) [1]"
    by (auto simp: l_ok_def lit_at_def)
  from list_iterator_edit [OF this, of "''c''"] show ?thesis by (auto simp: Let_def l_ok_def)
qed

end
