(* ===== verification/Ring_Buffer.thy ===== *)
theory Ring_Buffer
  imports Prelude
begin

text \<open>
  \<open>src/libs/zbxalgo/ring_buffer.c\<close>: the ring buffer of values in time order under the value cache of
  the items.

  A cell holds the time that the buffer itself writes and reads and the rest of the value, which
  belongs to the caller (\<open>None\<close>: zeroed memory).  Indices are \<open>int\<close>, -1 in an empty buffer.  Memory
  functions do not return NULL.
\<close>

section \<open>State and operations\<close>

type_synonym 'v ts_cell = "int \<times> 'v option"

record 'v tsbuff =
  ts_data :: "'v ts_cell list"
  ts_head :: int
  ts_tail :: int
  ts_count :: int
  ts_size :: int

text \<open>
  \<open>BUFF_IDX\<close>: the code never passes an index below minus the size, so the remainder of C agrees with
  \<open>mod\<close>.
\<close>

definition buff_idx :: "'v tsbuff \<Rightarrow> int \<Rightarrow> int" where
  "buff_idx b i = (i + ts_size b) mod ts_size b"

definition glb_tsbuff_init :: "nat \<Rightarrow> 'v tsbuff option" where
  "glb_tsbuff_init sz =
     (if sz = 0 then None
      else Some \<lparr>ts_data = replicate sz (0, None), ts_head = -1, ts_tail = -1, ts_count = 0, ts_size = int sz\<rparr>)"

definition glb_tsbuff_get_value_ptr :: "'v tsbuff \<Rightarrow> int \<Rightarrow> 'v ts_cell result" where
  "glb_tsbuff_get_value_ptr b idx =
     (if 0 > idx \<or> idx \<ge> ts_size b then Inl AssertFail else Inr (ts_data b ! nat idx))"

definition glb_tsbuff_get_value_head :: "'v tsbuff \<Rightarrow> 'v ts_cell result" where
  "glb_tsbuff_get_value_head b = glb_tsbuff_get_value_ptr b (ts_head b)"

definition glb_tsbuff_get_value_tail :: "'v tsbuff \<Rightarrow> 'v ts_cell option result" where
  "glb_tsbuff_get_value_tail b =
     (if ts_count b = 0 then Inr None
      else bind_result (glb_tsbuff_get_value_ptr b (ts_tail b)) (\<lambda>v. Inr (Some v)))"

definition glb_tsbuff_destroy :: "'v tsbuff \<Rightarrow> unit result" where
  "glb_tsbuff_destroy b = (if ts_count b > 0 then Inl AssertFail else Inr ())"

definition glb_tsbuff_free_tail :: "'v tsbuff \<Rightarrow> 'v tsbuff \<times> int" where
  "glb_tsbuff_free_tail b =
     (if ts_count b = 0 then (b, FAIL)
      else
        (let b = b\<lparr>ts_count := ts_count b - 1\<rparr> in
         if ts_count b = 0 then (b\<lparr>ts_tail := -1, ts_head := -1\<rparr>, SUCCEED)
         else (b\<lparr>ts_tail := buff_idx b (ts_tail b + 1)\<rparr>, SUCCEED)))"

definition glb_tsbuff_get_time_tail :: "'v tsbuff \<Rightarrow> int result" where
  "glb_tsbuff_get_time_tail b =
     (if ts_count b = 0 then Inr (-1)
      else bind_result (glb_tsbuff_get_value_ptr b (ts_tail b)) (\<lambda>v. Inr (fst v)))"

definition glb_tsbuff_get_time_head :: "'v tsbuff \<Rightarrow> int result" where
  "glb_tsbuff_get_time_head b =
     (if ts_count b = 0 then Inr (-1)
      else bind_result (glb_tsbuff_get_value_ptr b (ts_head b)) (\<lambda>v. Inr (fst v)))"

definition glb_tsbuf_get_oldest_time :: "'v tsbuff \<Rightarrow> int result" where
  "glb_tsbuf_get_oldest_time b =
     (if ts_tail b > -1 then bind_result (glb_tsbuff_get_value_ptr b (ts_tail b)) (\<lambda>v. Inr (fst v)) else Inr 0)"

abbreviation (input) ZBX_JAN_2038 :: int where "ZBX_JAN_2038 \<equiv> 2145916800"

text \<open>\<open>val->time = time\<close>; the result of an addition is the index of the cell for the caller to fill.\<close>

definition set_time :: "'v tsbuff \<Rightarrow> int \<Rightarrow> int \<Rightarrow> 'v tsbuff" where
  "set_time b idx tm = b\<lparr>ts_data := (ts_data b)[nat idx := (tm, snd (ts_data b ! nat idx))]\<rparr>"

definition glb_tsbuff_add_to_head :: "'v tsbuff \<Rightarrow> int \<Rightarrow> ('v tsbuff \<times> int option) result" where
  "glb_tsbuff_add_to_head b tm =
     bind_result (glb_tsbuff_get_time_head b) (\<lambda>old_time.
     if ts_count b > 0 \<and> old_time \<noteq> ZBX_JAN_2038 \<and> old_time > tm then Inr (b, None)
     else
       (let new_head = (if ts_count b > 0 then buff_idx b (ts_head b + 1) else 0) in
        if new_head = ts_tail b \<and> ts_size b > 1 then Inr (b, None)
        else
          (let b = b\<lparr>ts_head := new_head\<rparr> in
           bind_result (glb_tsbuff_get_value_ptr b (ts_head b)) (\<lambda>_.
           let b = set_time b (ts_head b) tm; b = b\<lparr>ts_count := ts_count b + 1\<rparr>;
               b = (if ts_count b = 1 then b\<lparr>ts_tail := ts_head b\<rparr> else b)
           in Inr (b, Some (ts_head b))))))"

definition glb_tsbuff_add_to_tail :: "'v tsbuff \<Rightarrow> int \<Rightarrow> ('v tsbuff \<times> int option) result" where
  "glb_tsbuff_add_to_tail b tm =
     bind_result (glb_tsbuff_get_time_tail b) (\<lambda>old_time.
     if ts_count b > 0 \<and> old_time > 0 \<and> old_time < tm then Inr (b, None)
     else if ts_count b > 0 \<and> buff_idx b (ts_tail b - 1) = ts_head b then Inr (b, None)
     else
       (let b = (if ts_count b > 0 then b\<lparr>ts_tail := buff_idx b (ts_tail b - 1)\<rparr>
                 else b\<lparr>ts_head := 0, ts_tail := 0\<rparr>) in
        bind_result (glb_tsbuff_get_value_ptr b (ts_tail b)) (\<lambda>_.
        let b = set_time b (ts_tail b) tm; b = b\<lparr>ts_count := ts_count b + 1\<rparr>
        in Inr (b, Some (ts_tail b)))))"

definition glb_tsbuff_is_full :: "'v tsbuff \<Rightarrow> int" where
  "glb_tsbuff_is_full b = (if ts_count b = ts_size b then SUCCEED else FAIL)"

text \<open>
  The bisection of \<open>glb_tsbuff_find_time_idx\<close> on the index range from \<open>tail_idx\<close> to \<open>head_idx\<close>; \<open>None\<close>
  is a loop that outlasts its fuel.
\<close>

fun find_time_loop :: "nat \<Rightarrow> 'v tsbuff \<Rightarrow> int \<Rightarrow> int \<Rightarrow> int \<Rightarrow> int result option" where
  "find_time_loop 0 b tm tail_idx head_idx = None"
| "find_time_loop (Suc fuel) b tm tail_idx head_idx =
     (let guess_idx = (if head_idx < tail_idx then (tail_idx + head_idx + ts_size b) div 2
                       else buff_idx b ((tail_idx + head_idx) div 2 + ts_size b));
          guess = buff_idx b guess_idx
      in case (glb_tsbuff_get_value_ptr b guess, glb_tsbuff_get_value_ptr b head_idx) of
           (Inr guess_val, Inr head_val) \<Rightarrow>
             (if tm = fst guess_val then Some (Inr guess)
              else if tm = fst head_val then Some (Inr head_idx)
              else if guess = tail_idx then Some (Inr tail_idx)
              else if tm > fst guess_val then
                (if buff_idx b (guess_idx + 1) = head_idx then Some (Inr guess)
                 else find_time_loop fuel b tm guess head_idx)
              else
                (if buff_idx b (guess_idx - 1) = tail_idx then Some (Inr tail_idx)
                 else find_time_loop fuel b tm tail_idx guess))
         | _ \<Rightarrow> Some (Inl AssertFail))"

definition glb_tsbuff_find_time_idx :: "nat \<Rightarrow> 'v tsbuff \<Rightarrow> int \<Rightarrow> int result option" where
  "glb_tsbuff_find_time_idx fuel b tm_sec =
     (if ts_count b = 0 then Some (Inr FAIL)
      else case (glb_tsbuff_get_time_head b, glb_tsbuff_get_time_tail b) of
             (Inr head_time, Inr tail_time) \<Rightarrow>
               (if tail_time > tm_sec \<or> head_time < tm_sec then Some (Inr FAIL)
                else find_time_loop fuel b tm_sec (ts_tail b) (ts_head b))
           | _ \<Rightarrow> Some (Inl AssertFail))"

definition tsbuff_upsize :: "'v tsbuff \<Rightarrow> nat \<Rightarrow> 'v tsbuff \<times> int" where
  "tsbuff_upsize b new_size =
     (let pad = (\<lambda>xs. xs @ replicate (new_size - length xs) (0, None));
          b = (if ts_head b > -1 then
                 (if ts_head b \<ge> ts_tail b then b\<lparr>ts_data := pad (take (nat (ts_count b)) (ts_data b))\<rparr>
                  else b\<lparr>ts_data := pad (drop (nat (ts_tail b)) (ts_data b) @ take (nat (ts_head b + 1)) (ts_data b)),
                         ts_tail := 0, ts_head := ts_count b - 1\<rparr>)
               else b\<lparr>ts_data := pad []\<rparr>)
      in (b\<lparr>ts_size := int new_size\<rparr>, int new_size))"

text \<open>
  The two loops of \<open>tsbuff_downsize\<close>: values before the last \<open>new_size\<close> ones are freed with an index
  that is not wrapped, then the cells up to the head are copied.
\<close>

fun downsize_free :: "nat \<Rightarrow> 'v tsbuff \<Rightarrow> nat \<Rightarrow> int \<Rightarrow> 'v ts_cell list result option" where
  "downsize_free 0 b new_size i = None"
| "downsize_free (Suc fuel) b new_size i =
     (if buff_idx b i \<noteq> buff_idx b (ts_head b - int new_size + 1) then
        (case glb_tsbuff_get_value_ptr b i of
           Inl e \<Rightarrow> Some (Inl e)
         | Inr v \<Rightarrow> (case downsize_free fuel b new_size (i + 1) of
                       Some (Inr vs) \<Rightarrow> Some (Inr (v # vs)) | r \<Rightarrow> r))
      else Some (Inr []))"

fun downsize_copy :: "nat \<Rightarrow> 'v tsbuff \<Rightarrow> int \<Rightarrow> 'v ts_cell list result option" where
  "downsize_copy 0 b i = None"
| "downsize_copy (Suc fuel) b i =
     (if i \<noteq> buff_idx b (ts_head b + 1) then
        (case glb_tsbuff_get_value_ptr b i of
           Inl e \<Rightarrow> Some (Inl e)
         | Inr v \<Rightarrow> (case downsize_copy fuel b (buff_idx b (i + 1)) of
                       Some (Inr vs) \<Rightarrow> Some (Inr (v # vs)) | r \<Rightarrow> r))
      else Some (Inr []))"

text \<open>The result: the buffer, the freed values and the return value.\<close>

definition tsbuff_downsize ::
  "nat \<Rightarrow> 'v tsbuff \<Rightarrow> nat \<Rightarrow> bool \<Rightarrow> ('v tsbuff \<times> 'v ts_cell list \<times> int) result option" where
  "tsbuff_downsize fuel b new_size has_free =
     (case (if has_free then downsize_free fuel b new_size (ts_tail b) else Some (Inr [])) of
        None \<Rightarrow> None
      | Some (Inl e) \<Rightarrow> Some (Inl e)
      | Some (Inr freed) \<Rightarrow>
          (case downsize_copy fuel b (buff_idx b (ts_head b - int new_size + 1)) of
             None \<Rightarrow> None
           | Some (Inl e) \<Rightarrow> Some (Inl e)
           | Some (Inr new_data) \<Rightarrow>
               (let j = int (length new_data)
                in Some (Inr (b\<lparr>ts_count := j, ts_size := int new_size, ts_tail := 0, ts_head := j - 1,
                                ts_data := new_data\<rparr>, freed, j)))))"

definition glb_tsbuff_resize ::
  "nat \<Rightarrow> 'v tsbuff \<Rightarrow> int \<Rightarrow> bool \<Rightarrow> ('v tsbuff \<times> 'v ts_cell list \<times> int) result option" where
  "glb_tsbuff_resize fuel b new_size has_free =
     (if new_size > 1000000 \<or> new_size < 1 \<or> new_size = ts_size b then Some (Inr (b, [], FAIL))
      else if new_size < ts_size b then tsbuff_downsize fuel b (nat new_size) has_free
      else (let (b, r) = tsbuff_upsize b (nat new_size) in Some (Inr (b, [], r))))"

definition glb_tsbuff_check_has_enough_count_data_idx :: "'v tsbuff \<Rightarrow> int \<Rightarrow> int \<Rightarrow> int" where
  "glb_tsbuff_check_has_enough_count_data_idx b need_count head_idx =
     (if need_count = 0 then FAIL
      else if ts_tail b > head_idx then
        (if ts_tail b \<le> head_idx + ts_size b - need_count + 1 then SUCCEED else FAIL)
      else if head_idx - need_count + 1 \<ge> ts_tail b then SUCCEED else FAIL)"

definition glb_tsbuff_check_has_enough_count_data_time :: "nat \<Rightarrow> 'v tsbuff \<Rightarrow> int \<Rightarrow> int \<Rightarrow> int result option" where
  "glb_tsbuff_check_has_enough_count_data_time fuel b need_count tm =
     (case (glb_tsbuff_get_time_head b, glb_tsbuff_get_time_tail b) of
        (Inr head_time, Inr tail_time) \<Rightarrow>
          (if tm < 0 \<or> tm > head_time \<or> tm < tail_time \<or> need_count = 0 then Some (Inr FAIL)
           else (case glb_tsbuff_find_time_idx fuel b tm of
                   None \<Rightarrow> None
                 | Some (Inl e) \<Rightarrow> Some (Inl e)
                 | Some (Inr idx) \<Rightarrow> Some (Inr (glb_tsbuff_check_has_enough_count_data_idx b need_count idx))))
      | _ \<Rightarrow> Some (Inl AssertFail))"

section \<open>Invariant and contents\<close>

definition ts_inv :: "'v tsbuff \<Rightarrow> bool" where
  "ts_inv b \<longleftrightarrow> ts_size b = int (length (ts_data b)) \<and> 0 < ts_size b \<and> 0 \<le> ts_count b \<and> ts_count b \<le> ts_size b
     \<and> (if ts_count b = 0 then ts_head b = -1 \<and> ts_tail b = -1
        else 0 \<le> ts_tail b \<and> ts_tail b < ts_size b \<and> ts_head b = (ts_tail b + ts_count b - 1) mod ts_size b)"

definition ts_pos :: "'v tsbuff \<Rightarrow> nat \<Rightarrow> nat" where
  "ts_pos b i = nat ((ts_tail b + int i) mod ts_size b)"

definition ts_list :: "'v tsbuff \<Rightarrow> 'v ts_cell list" where
  "ts_list b = map (\<lambda>i. ts_data b ! ts_pos b i) [0..<nat (ts_count b)]"

lemma wrap_mod: "0 \<le> t \<Longrightarrow> t < s \<Longrightarrow> 0 \<le> k \<Longrightarrow> k \<le> s \<Longrightarrow> (t + k) mod s = (if t + k < s then t + k else t + k - s)" for t s k :: int
  by (auto simp: mod_pos_pos_trivial) (metis add_diff_cancel_right' diff_add_cancel minus_mod_self2 mod_pos_pos_trivial not_le_imp_less add_less_le_mono diff_ge_0_iff_ge diff_less_eq not_less)

lemma buff_idx_mod [simp]: "buff_idx b i = i mod ts_size b"
  by (simp add: buff_idx_def)

lemma ts_inv_head:
  assumes "ts_inv b" "0 < ts_count b"
  shows "0 \<le> ts_head b" "ts_head b < ts_size b" "ts_head b = int (ts_pos b (nat (ts_count b) - 1))"
  using assms by (auto simp: ts_inv_def ts_pos_def of_nat_diff add_diff_eq)

lemma ts_pos_less: "ts_inv b \<Longrightarrow> ts_pos b i < length (ts_data b)"
  by (auto simp: ts_inv_def ts_pos_def nat_less_iff)

lemma ts_pos_inj:
  assumes "ts_inv b" "i < nat (ts_size b)" "j < nat (ts_size b)" "ts_pos b i = ts_pos b j"
  shows "i = j"
proof -
  have "(ts_tail b + int i) mod ts_size b = (ts_tail b + int j) mod ts_size b"
    using assms by (auto simp: ts_pos_def ts_inv_def eq_nat_nat_iff)
  then have "int i mod ts_size b = int j mod ts_size b"
    by (metis add.commute add_diff_cancel_right' mod_diff_left_eq)
  with assms(2,3) show ?thesis by (simp add: mod_pos_pos_trivial zless_nat_eq_int_zless)
qed

lemma ts_get:
  assumes "ts_inv b" "i < nat (ts_count b)"
  shows "glb_tsbuff_get_value_ptr b (int (ts_pos b i)) = Inr (ts_list b ! i)"
  using assms ts_pos_less [OF assms(1), of i] by (auto simp: glb_tsbuff_get_value_ptr_def ts_list_def ts_inv_def)

lemma ts_times:
  assumes "ts_inv b" "0 < ts_count b"
  shows "glb_tsbuff_get_time_head b = Inr (fst (last (ts_list b)))"
    "glb_tsbuff_get_time_tail b = Inr (fst (hd (ts_list b)))"
proof -
  have n: "ts_list b \<noteq> []" "nat (ts_count b) - 1 < nat (ts_count b)" using assms(2) by (simp_all add: ts_list_def)
  have "ts_tail b = int (ts_pos b 0)" using assms by (simp add: ts_inv_def ts_pos_def)
  then show "glb_tsbuff_get_time_tail b = Inr (fst (hd (ts_list b)))"
    using assms n ts_get [OF assms(1), of 0] by (simp add: glb_tsbuff_get_time_tail_def hd_conv_nth)
  have "length (ts_list b) = nat (ts_count b)" by (simp add: ts_list_def)
  then show "glb_tsbuff_get_time_head b = Inr (fst (last (ts_list b)))"
    using assms n ts_get [OF assms(1) n(2)] ts_inv_head(3) [OF assms]
    by (simp add: glb_tsbuff_get_time_head_def last_conv_nth)
qed

lemma ts_init: "0 < n \<Longrightarrow> \<exists>b. glb_tsbuff_init n = Some b \<and> ts_inv b \<and> ts_list b = []"
  by (simp add: glb_tsbuff_init_def ts_inv_def ts_list_def)

lemma ts_free_tail:
  assumes inv: "ts_inv b"
  shows "ts_inv (fst (glb_tsbuff_free_tail b)) \<and> ts_list (fst (glb_tsbuff_free_tail b)) = tl (ts_list b)
    \<and> snd (glb_tsbuff_free_tail b) = (if ts_list b = [] then -1 else 0)"
proof (cases "ts_count b \<le> 1")
  case True
  then consider "ts_count b = 0" | "ts_count b = 1" using inv unfolding ts_inv_def by linarith
  then show ?thesis by cases (use inv in \<open>auto simp: glb_tsbuff_free_tail_def ts_inv_def ts_list_def\<close>)
next
  case False
  let ?b = "b\<lparr>ts_count := ts_count b - 1, ts_tail := (ts_tail b + 1) mod ts_size b\<rparr>"
  have e: "glb_tsbuff_free_tail b = (?b, 0)" using False by (simp add: glb_tsbuff_free_tail_def)
  have "((ts_tail b + 1) mod ts_size b + (ts_count b - 1) - 1) mod ts_size b = (ts_tail b + ts_count b - 1) mod ts_size b"
    using mod_add_left_eq [of "ts_tail b + 1" "ts_size b" "ts_count b - 2"] by (simp add: algebra_simps)
  with inv False have inv': "ts_inv ?b" by (auto simp: ts_inv_def)
  have pos: "ts_pos ?b i = ts_pos b (Suc i)" for i by (simp add: ts_pos_def mod_simps add.assoc)
  have "nat (ts_count b) = Suc (nat (ts_count b - 1))" using False by simp
  then have "ts_list ?b = tl (ts_list b)" by (simp add: ts_list_def pos map_upt_Suc del: upt_Suc)
  with e inv' False show ?thesis by (simp add: ts_list_def)
qed

text \<open>The list of the cells when one is added at either end.\<close>

lemma ts_list_add_head:
  assumes "ts_inv b" "ts_count b < ts_size b"
    and b': "ts_tail b' = (if ts_count b = 0 then 0 else ts_tail b)" "ts_size b' = ts_size b" "ts_count b' = ts_count b + 1"
      "ts_data b' = (ts_data b)[ts_pos b' (nat (ts_count b)) := c]"
      "ts_head b' = (ts_tail b' + ts_count b) mod ts_size b"
  shows "ts_inv b' \<and> ts_list b' = ts_list b @ [c]"
proof -
  have inv': "ts_inv b'" using assms by (auto simp: ts_inv_def)
  have n: "nat (ts_count b') = Suc (nat (ts_count b))" using assms(1) b'(3) by (auto simp: ts_inv_def)
  have "ts_data b' ! ts_pos b' i = ts_data b ! ts_pos b i" if "i < nat (ts_count b)" for i
  proof -
    have "ts_pos b' i = ts_pos b i" using that b' by (auto simp: ts_pos_def)
    moreover have "ts_pos b' i \<noteq> ts_pos b' (nat (ts_count b))"
    proof -
      have "i < nat (ts_size b')" "nat (ts_count b) < nat (ts_size b')" using that assms(2) b'(2) by linarith+
      from ts_pos_inj [OF inv' this] that show ?thesis by auto
    qed
    ultimately show ?thesis using b'(4) by simp
  qed
  moreover have "ts_data b' ! ts_pos b' (nat (ts_count b)) = c"
    using b'(4) ts_pos_less [OF inv', of "nat (ts_count b)"] by simp
  ultimately show ?thesis using inv' by (simp add: ts_list_def n)
qed

lemma ts_list_add_tail:
  assumes "ts_inv b" "ts_count b < ts_size b" "ts_count b \<noteq> 0"
    and b': "ts_tail b' = (ts_tail b - 1) mod ts_size b" "ts_size b' = ts_size b" "ts_count b' = ts_count b + 1"
      "ts_data b' = (ts_data b)[ts_pos b' 0 := c]" "ts_head b' = ts_head b"
  shows "ts_inv b' \<and> ts_list b' = c # ts_list b"
proof -
  have "((ts_tail b - 1) mod ts_size b + (ts_count b + 1) - 1) mod ts_size b = (ts_tail b + ts_count b - 1) mod ts_size b"
    using mod_add_left_eq [of "ts_tail b - 1" "ts_size b" "ts_count b"] by (simp add: algebra_simps)
  with assms have inv': "ts_inv b'" by (auto simp: ts_inv_def)
  have n: "nat (ts_count b') = Suc (nat (ts_count b))" using assms(1) b'(3) by (auto simp: ts_inv_def)
  have "ts_data b' ! ts_pos b' (Suc i) = ts_data b ! ts_pos b i" if "i < nat (ts_count b)" for i
  proof -
    have "ts_pos b' (Suc i) = ts_pos b i" using b' by (simp add: ts_pos_def mod_simps)
    moreover have "ts_pos b' (Suc i) \<noteq> ts_pos b' 0"
    proof -
      have "Suc i < nat (ts_size b')" "0 < nat (ts_size b')" using that assms(2) b'(2) by linarith+
      from ts_pos_inj [OF inv' this] show ?thesis by auto
    qed
    ultimately show ?thesis using b'(4) by simp
  qed
  moreover have "ts_data b' ! ts_pos b' 0 = c" using b'(4) ts_pos_less [OF inv', of 0] by simp
  ultimately show ?thesis using inv' by (simp add: ts_list_def n map_upt_Suc del: upt_Suc)
qed

lemma ts_full_iff:
  assumes "ts_inv b" "0 < ts_count b"
  shows "(ts_head b + 1) mod ts_size b = ts_tail b \<longleftrightarrow> ts_count b = ts_size b"
    "(ts_tail b - 1) mod ts_size b = ts_head b \<longleftrightarrow> ts_count b = ts_size b"
proof -
  have t: "0 \<le> ts_tail b" "ts_tail b < ts_size b" "0 \<le> ts_count b" "ts_count b \<le> ts_size b"
    and h: "ts_head b = (ts_tail b + ts_count b - 1) mod ts_size b"
    using assms by (auto simp: ts_inv_def)
  have "(ts_head b + 1) mod ts_size b = (ts_tail b + ts_count b) mod ts_size b" by (simp add: h mod_simps)
  then show *: "(ts_head b + 1) mod ts_size b = ts_tail b \<longleftrightarrow> ts_count b = ts_size b"
    using wrap_mod [OF t] t assms(2) by auto
  have "(ts_tail b - 1) mod ts_size b = ts_head b \<longleftrightarrow> (ts_head b + 1) mod ts_size b = ts_tail b"
  proof
    assume "(ts_tail b - 1) mod ts_size b = ts_head b"
    then have "(ts_head b + 1) mod ts_size b = (ts_tail b - 1 + 1) mod ts_size b" by (metis mod_add_left_eq)
    then show "(ts_head b + 1) mod ts_size b = ts_tail b" using t by simp
  next
    assume "(ts_head b + 1) mod ts_size b = ts_tail b"
    then have "(ts_tail b - 1) mod ts_size b = (ts_head b + 1 - 1) mod ts_size b" by (metis mod_diff_left_eq)
    then show "(ts_tail b - 1) mod ts_size b = ts_head b" using ts_inv_head [OF assms] by simp
  qed
  with * show "(ts_tail b - 1) mod ts_size b = ts_head b \<longleftrightarrow> ts_count b = ts_size b" by simp
qed

lemma ts_add_head:
  assumes inv: "ts_inv b" and size: "1 < ts_size b"
  shows "if (ts_list b \<noteq> [] \<and> fst (last (ts_list b)) \<noteq> ZBX_JAN_2038 \<and> fst (last (ts_list b)) > tm) \<or> ts_count b = ts_size b
    then glb_tsbuff_add_to_head b tm = Inr (b, None)
    else \<exists>b' i c. glb_tsbuff_add_to_head b tm = Inr (b', Some i) \<and> ts_inv b' \<and> ts_list b' = ts_list b @ [(tm, c)] \<and> i = ts_head b'"
proof (cases "ts_count b = 0")
  case True
  define b' where "b' = b\<lparr>ts_head := 0, ts_tail := 0, ts_count := 1, ts_data := (ts_data b)[0 := (tm, snd (ts_data b ! 0))]\<rparr>"
  have "glb_tsbuff_add_to_head b tm = Inr (b', Some 0)"
    using True inv size by (auto simp: glb_tsbuff_add_to_head_def glb_tsbuff_get_time_head_def glb_tsbuff_get_value_ptr_def
        set_time_def ts_inv_def b'_def Let_def)
  moreover have "ts_inv b' \<and> ts_list b' = ts_list b @ [(tm, snd (ts_data b ! 0))]"
    using True inv size by (intro ts_list_add_head) (auto simp: b'_def ts_pos_def)
  moreover have "ts_list b = []" using True by (simp add: ts_list_def)
  ultimately show ?thesis using True inv size by (auto simp: b'_def)
next
  case False
  then have p: "0 < ts_count b" using inv by (simp add: ts_inv_def)
  have ne: "ts_list b \<noteq> []" using p by (simp add: ts_list_def)
  define c where "c = (tm, snd (ts_data b ! nat ((ts_head b + 1) mod ts_size b)))"
  define b' where "b' = b\<lparr>ts_head := (ts_head b + 1) mod ts_size b, ts_count := ts_count b + 1,
      ts_data := (ts_data b)[nat ((ts_head b + 1) mod ts_size b) := c]\<rparr>"
  have hd: "(ts_head b + 1) mod ts_size b = (ts_tail b + ts_count b) mod ts_size b"
    using inv p by (simp add: ts_inv_def mod_simps)
  have g: "\<not> (ts_head b + 1) mod ts_size b < 0" "\<not> ts_size b \<le> (ts_head b + 1) mod ts_size b"
    using size by (simp_all add: not_less not_le)
  have e: "glb_tsbuff_add_to_head b tm = (if fst (last (ts_list b)) \<noteq> 2145916800 \<and> fst (last (ts_list b)) > tm \<or> ts_count b = ts_size b
      then Inr (b, None) else Inr (b', Some (ts_head b')))"
    using ts_times(1) [OF inv p] ts_full_iff(1) [OF inv p] p size
    by (auto simp: g glb_tsbuff_add_to_head_def glb_tsbuff_get_value_ptr_def set_time_def b'_def c_def Let_def)
  have "ts_count b \<noteq> ts_size b \<Longrightarrow> ts_inv b' \<and> ts_list b' = ts_list b @ [c]"
    using inv p hd by (intro ts_list_add_head) (auto simp: b'_def ts_pos_def ts_inv_def)
  with e ne show ?thesis unfolding c_def by auto
qed

lemma ts_add_tail:
  assumes inv: "ts_inv b"
  shows "if (ts_list b \<noteq> [] \<and> 0 < fst (hd (ts_list b)) \<and> fst (hd (ts_list b)) < tm) \<or> ts_count b = ts_size b
    then glb_tsbuff_add_to_tail b tm = Inr (b, None)
    else \<exists>b' i c. glb_tsbuff_add_to_tail b tm = Inr (b', Some i) \<and> ts_inv b' \<and> ts_list b' = (tm, c) # ts_list b \<and> i = ts_tail b'"
proof (cases "ts_count b = 0")
  case True
  define b' where "b' = b\<lparr>ts_head := 0, ts_tail := 0, ts_count := 1, ts_data := (ts_data b)[0 := (tm, snd (ts_data b ! 0))]\<rparr>"
  have "glb_tsbuff_add_to_tail b tm = Inr (b', Some 0)"
    using True inv by (auto simp: glb_tsbuff_add_to_tail_def glb_tsbuff_get_time_tail_def glb_tsbuff_get_value_ptr_def
        set_time_def ts_inv_def b'_def Let_def)
  moreover have "ts_inv b' \<and> ts_list b' = ts_list b @ [(tm, snd (ts_data b ! 0))]"
    using True inv by (intro ts_list_add_head) (auto simp: b'_def ts_pos_def ts_inv_def)
  moreover have "ts_list b = []" "ts_count b \<noteq> ts_size b" using True inv by (auto simp: ts_list_def ts_inv_def)
  ultimately show ?thesis by (auto simp: b'_def)
next
  case False
  then have p: "0 < ts_count b" using inv by (simp add: ts_inv_def)
  have ne: "ts_list b \<noteq> []" using p by (simp add: ts_list_def)
  define c where "c = (tm, snd (ts_data b ! nat ((ts_tail b - 1) mod ts_size b)))"
  define b' where "b' = b\<lparr>ts_tail := (ts_tail b - 1) mod ts_size b, ts_count := ts_count b + 1,
      ts_data := (ts_data b)[nat ((ts_tail b - 1) mod ts_size b) := c]\<rparr>"
  have g: "\<not> (ts_tail b - 1) mod ts_size b < 0" "\<not> ts_size b \<le> (ts_tail b - 1) mod ts_size b"
    using inv by (auto simp: ts_inv_def not_less not_le)
  have e: "glb_tsbuff_add_to_tail b tm = (if 0 < fst (hd (ts_list b)) \<and> fst (hd (ts_list b)) < tm \<or> ts_count b = ts_size b
      then Inr (b, None) else Inr (b', Some (ts_tail b')))"
    using ts_times(2) [OF inv p] ts_full_iff(2) [OF inv p] p
    by (auto simp: g glb_tsbuff_add_to_tail_def glb_tsbuff_get_value_ptr_def set_time_def b'_def c_def Let_def)
  have "ts_count b \<noteq> ts_size b \<Longrightarrow> ts_inv b' \<and> ts_list b' = c # ts_list b"
    using inv p by (intro ts_list_add_tail) (auto simp: b'_def ts_pos_def ts_inv_def)
  with e ne show ?thesis unfolding c_def by auto
qed

section \<open>Search by time\<close>

text \<open>The middle of an index range, wrapped around the end of the array or not.\<close>

lemma guess_pos:
  assumes inv: "ts_inv b" and r: "lo \<le> hi" "hi < nat (ts_count b)"
  defines "T \<equiv> int (ts_pos b lo)" and "H \<equiv> int (ts_pos b hi)" and "g \<equiv> lo + (hi - lo) div 2"
  defines "G \<equiv> (if H < T then (T + H + ts_size b) div 2 else buff_idx b ((T + H) div 2 + ts_size b))"
  shows "buff_idx b G = int (ts_pos b g)" "buff_idx b (G + 1) = int (ts_pos b (g + 1))"
    "1 \<le> g \<Longrightarrow> buff_idx b (G - 1) = int (ts_pos b (g - 1))"
proof -
  let ?s = "ts_size b" and ?k = "int (hi - lo)"
  have s: "0 < ts_size b" "ts_count b \<le> ts_size b" using inv by (auto simp: ts_inv_def)
  have T: "T = (ts_tail b + int lo) mod ?s" and H: "H = (ts_tail b + int hi) mod ?s"
    using s by (simp_all add: T_def H_def ts_pos_def)
  have t: "0 \<le> T" "T < ?s" using s by (simp_all add: T)
  have k: "0 \<le> ?k" "?k \<le> ?s" using r s by linarith+
  have "(ts_tail b + int hi) mod ?s = (T + ?k) mod ?s" unfolding T using r by (simp add: mod_simps of_nat_diff)
  with wrap_mod [OF t k] have Hw: "H = (if T + ?k < ?s then T + ?k else T + ?k - ?s)" by (simp add: H)
  have "G mod ?s = (T + ?k div 2) mod ?s"
  proof (cases "H < T")
    case True
    then have "T + H + ?s = ?k + 2 * T" using Hw t k by (auto split: if_splits)
    then have "(T + H + ?s) div 2 = T + ?k div 2" by simp
    with True show ?thesis by (simp add: G_def)
  next
    case False
    then have "H = T + ?k \<or> ?k = ?s" using Hw t k by (auto split: if_splits)
    moreover have "?k < ?s" using r s by linarith
    ultimately have "T + H = ?k + 2 * T" by simp
    then have "(T + H) div 2 = T + ?k div 2" by simp
    with False show ?thesis by (simp add: G_def)
  qed
  moreover have "(T + ?k div 2) mod ?s = (ts_tail b + int g) mod ?s"
    unfolding T g_def by (simp add: mod_simps zdiv_int add.assoc)
  ultimately have G: "G mod ?s = (ts_tail b + int g) mod ?s" by simp
  then show "buff_idx b G = int (ts_pos b g)" using s by (simp add: ts_pos_def)
  have "(G + 1) mod ?s = (ts_tail b + int g + 1) mod ?s" using G by (metis mod_add_left_eq)
  then show "buff_idx b (G + 1) = int (ts_pos b (g + 1))" using s by (simp add: ts_pos_def ac_simps)
  have "(G - 1) mod ?s = (ts_tail b + int g - 1) mod ?s" using G by (metis mod_diff_left_eq)
  then show "buff_idx b (G - 1) = int (ts_pos b (g - 1))" if "1 \<le> g"
    using s that by (simp add: ts_pos_def of_nat_diff add_diff_eq)
qed

lemma find_time_loop_spec:
  assumes inv: "ts_inv b"
  shows "lo \<le> hi \<Longrightarrow> hi < nat (ts_count b) \<Longrightarrow> fst (ts_list b ! lo) \<le> tm \<Longrightarrow> tm \<le> fst (ts_list b ! hi) \<Longrightarrow> hi - lo < fuel \<Longrightarrow>
    \<exists>k. find_time_loop fuel b tm (int (ts_pos b lo)) (int (ts_pos b hi)) = Some (Inr (int (ts_pos b k)))
      \<and> lo \<le> k \<and> k \<le> hi \<and> fst (ts_list b ! k) \<le> tm \<and> (fst (ts_list b ! k) = tm \<or> k < hi \<and> tm < fst (ts_list b ! (k + 1)))"
proof (induction fuel arbitrary: lo hi)
  case 0
  then show ?case by simp
next
  case (Suc fuel)
  note prems = Suc.prems
  define g where "g = lo + (hi - lo) div 2"
  have g: "lo \<le> g" "g \<le> hi" "g < nat (ts_count b)" using prems by (auto simp: g_def)
  note gp = guess_pos [OF inv prems(1,2), folded g_def]
  have cs: "nat (ts_count b) \<le> nat (ts_size b)" using inv by (auto simp: ts_inv_def)
  have eq: "ts_pos b i = ts_pos b j \<longleftrightarrow> i = j" if "i < nat (ts_count b)" "j < nat (ts_count b)" for i j
    using ts_pos_inj [OF inv, of i j] that cs by auto
  note get = ts_get [OF inv g(3)] ts_get [OF inv prems(2)]
  let ?L = "ts_list b" and ?r = "find_time_loop (Suc fuel) b tm (int (ts_pos b lo)) (int (ts_pos b hi))"
  consider (eqg) "tm = fst (?L ! g)" | (eqh) "tm \<noteq> fst (?L ! g)" "tm = fst (?L ! hi)"
    | (two) "tm \<noteq> fst (?L ! g)" "tm \<noteq> fst (?L ! hi)" "g = lo"
    | (up) "tm > fst (?L ! g)" "tm \<noteq> fst (?L ! hi)" "g \<noteq> lo" | (down) "tm < fst (?L ! g)" "tm \<noteq> fst (?L ! hi)" "g \<noteq> lo"
    by linarith
  then show ?case
  proof cases
    case eqg
    then have "?r = Some (Inr (int (ts_pos b g)))" using get gp by (simp add: Let_def del: buff_idx_mod)
    with eqg g show ?thesis by auto
  next
    case eqh
    then have "?r = Some (Inr (int (ts_pos b hi)))" using get gp by (simp add: Let_def del: buff_idx_mod)
    with eqh prems show ?thesis by auto
  next
    case two
    then have "?r = Some (Inr (int (ts_pos b lo)))" using get gp by (simp add: Let_def del: buff_idx_mod)
    moreover have "hi = lo \<or> hi = lo + 1" using two prems by (auto simp: g_def div_eq_0_iff)
    with two prems have "hi = lo + 1" by auto
    ultimately show ?thesis using two prems by auto
  next
    case up
    have gh: "g < hi" using up g prems by (metis le_neq_implies_less not_less)
    have ng: "int (ts_pos b g) \<noteq> int (ts_pos b lo)" using eq [of g lo] up g prems by auto
    have nh: "int (ts_pos b (g + 1)) = int (ts_pos b hi) \<longleftrightarrow> g + 1 = hi" using eq [of "g + 1" hi] gh prems by auto
    have "?r = (if g + 1 = hi then Some (Inr (int (ts_pos b g))) else find_time_loop fuel b tm (int (ts_pos b g)) (int (ts_pos b hi)))"
      using up get gp ng nh by (simp add: Let_def del: buff_idx_mod)
    moreover have "hi - g < fuel" using up g prems by linarith
    ultimately have r: "?r = (if g + 1 = hi then Some (Inr (int (ts_pos b g))) else find_time_loop fuel b tm (int (ts_pos b g)) (int (ts_pos b hi)))"
      and f: "hi - g < fuel" by simp_all
    show ?thesis
    proof (cases "g + 1 = hi")
      case True
      then show ?thesis using r up g gh prems by (intro exI [of _ g]) auto
    next
      case False
      from Suc.IH [of g hi] f up g prems obtain k where
        "find_time_loop fuel b tm (int (ts_pos b g)) (int (ts_pos b hi)) = Some (Inr (int (ts_pos b k)))" "g \<le> k" "k \<le> hi"
        "fst (?L ! k) \<le> tm" "fst (?L ! k) = tm \<or> k < hi \<and> tm < fst (?L ! (k + 1))" by auto
      with False r g show ?thesis by (intro exI [of _ k]) auto
    qed
  next
    case down
    have g1: "1 \<le> g" "lo \<le> g - 1" using down g by auto
    have ng: "int (ts_pos b g) \<noteq> int (ts_pos b lo)" using eq [of g lo] down g prems by auto
    have nl: "int (ts_pos b (g - 1)) = int (ts_pos b lo) \<longleftrightarrow> g - 1 = lo" using eq [of "g - 1" lo] g prems by auto
    have "?r = (if g - 1 = lo then Some (Inr (int (ts_pos b lo))) else find_time_loop fuel b tm (int (ts_pos b lo)) (int (ts_pos b g)))"
      using down get gp(1,2) gp(3) [OF g1(1)] ng nl by (simp add: Let_def del: buff_idx_mod)
    moreover have "g < hi" using down(3) prems(1) unfolding g_def by presburger
    then have "g - lo < fuel" using down prems g by linarith
    ultimately have r: "?r = (if g - 1 = lo then Some (Inr (int (ts_pos b lo))) else find_time_loop fuel b tm (int (ts_pos b lo)) (int (ts_pos b g)))"
      and f: "g - lo < fuel" by simp_all
    show ?thesis
    proof (cases "g - 1 = lo")
      case True
      then have "lo + 1 = g" using g1 by simp
      then show ?thesis using r True down g prems by (intro exI [of _ lo]) auto
    next
      case False
      from Suc.IH [of lo g] f down g prems obtain k where
        "find_time_loop fuel b tm (int (ts_pos b lo)) (int (ts_pos b g)) = Some (Inr (int (ts_pos b k)))" "lo \<le> k" "k \<le> g"
        "fst (?L ! k) \<le> tm" "fst (?L ! k) = tm \<or> k < g \<and> tm < fst (?L ! (k + 1))" by auto
      with False r g show ?thesis by (intro exI [of _ k]) auto
    qed
  qed
qed

section \<open>Resizing\<close>

lemma ts_pos_neq:
  assumes "ts_inv b" "i < j" "int j < int i + ts_size b"
  shows "ts_pos b i \<noteq> ts_pos b j"
proof
  assume "ts_pos b i = ts_pos b j"
  then have "(ts_tail b + int i) mod ts_size b = (ts_tail b + int j) mod ts_size b"
    using assms(1) by (auto simp: ts_pos_def ts_inv_def eq_nat_nat_iff)
  then have "(int j - int i) mod ts_size b = 0"
    by (metis add_diff_cancel_left mod_diff_cong diff_self mod_0)
  moreover have "(int j - int i) mod ts_size b = int j - int i" using assms by (simp add: mod_pos_pos_trivial)
  ultimately show False using assms(2) by simp
qed

lemma downsize_copy_spec:
  assumes inv: "ts_inv b" and c: "0 < ts_count b"
  shows "k \<le> nat (ts_count b) \<Longrightarrow> int (nat (ts_count b) - k) < ts_size b \<Longrightarrow> nat (ts_count b) - k < fuel \<Longrightarrow>
    downsize_copy fuel b (int (ts_pos b k)) = Some (Inr (drop k (ts_list b)))"
proof (induction fuel arbitrary: k)
  case 0
  then show ?case by simp
next
  case (Suc fuel)
  let ?n = "nat (ts_count b)"
  have s: "0 < ts_size b" using inv unfolding ts_inv_def by blast
  have len: "length (ts_list b) = ?n" by (simp add: ts_list_def)
  have e: "buff_idx b (ts_head b + 1) = int (ts_pos b ?n)"
    using inv c by (auto simp: ts_inv_def ts_pos_def mod_simps)
  show ?case
  proof (cases "k = ?n")
    case True
    with e len show ?thesis by (simp del: buff_idx_mod)
  next
    case False
    then have k: "k < ?n" using Suc.prems(1) by simp
    have ne: "int (ts_pos b k) \<noteq> int (ts_pos b ?n)" using ts_pos_neq [OF inv k] Suc.prems k by (simp add: of_nat_diff)
    have nx: "buff_idx b (int (ts_pos b k) + 1) = int (ts_pos b (Suc k))"
      using s by (simp add: ts_pos_def mod_simps ac_simps)
    have "downsize_copy fuel b (int (ts_pos b (Suc k))) = Some (Inr (drop (Suc k) (ts_list b)))"
      using Suc.prems k by (intro Suc.IH) auto
    moreover have "drop k (ts_list b) = ts_list b ! k # drop (Suc k) (ts_list b)" using k len by (simp add: Cons_nth_drop_Suc)
    ultimately show ?thesis using ne nx e ts_get [OF inv k] by (simp del: buff_idx_mod)
  qed
qed

lemma ts_downsize:
  assumes inv: "ts_inv b" and m: "0 < m" "int m \<le> ts_count b" "int m < ts_size b" and f: "m < fuel"
  shows "\<exists>b'. tsbuff_downsize fuel b m False = Some (Inr (b', [], int m)) \<and> ts_inv b'
    \<and> ts_list b' = drop (nat (ts_count b) - m) (ts_list b) \<and> ts_size b' = int m"
proof -
  let ?k = "nat (ts_count b) - m"
  have c: "0 < ts_count b" using m by linarith
  have s: "0 < ts_size b" using inv unfolding ts_inv_def by blast
  have h: "ts_head b = (ts_tail b + ts_count b - 1) mod ts_size b" using inv c by (auto simp: ts_inv_def)
  have "(ts_head b - int m + 1) mod ts_size b = (ts_tail b + ts_count b - int m) mod ts_size b"
    using mod_add_left_eq [of "ts_tail b + ts_count b - 1" "ts_size b" "1 - int m"] by (simp add: h algebra_simps)
  moreover have "int ?k = ts_count b - int m" using m c by (simp add: of_nat_diff)
  ultimately have st: "buff_idx b (ts_head b - int m + 1) = int (ts_pos b ?k)"
    using s by (simp add: ts_pos_def add_diff_eq)
  have "downsize_copy fuel b (int (ts_pos b ?k)) = Some (Inr (drop ?k (ts_list b)))"
    using m f c by (intro downsize_copy_spec [OF inv c]) auto
  moreover have len: "length (drop ?k (ts_list b)) = m" using m by (simp add: ts_list_def)
  moreover define b' where "b' = b\<lparr>ts_count := int m, ts_size := int m, ts_tail := 0, ts_head := int m - 1, ts_data := drop ?k (ts_list b)\<rparr>"
  ultimately have "tsbuff_downsize fuel b m False = Some (Inr (b', [], int m))"
    unfolding tsbuff_downsize_def st by (simp add: Let_def)
  moreover have "(-1) mod int m = int m - 1" using m(1) by (simp add: zmod_minus1)
  then have "ts_inv b'" using m len by (simp add: b'_def ts_inv_def)
  moreover have "ts_pos b' i = i" if "i < m" for i using that by (simp add: ts_pos_def b'_def)
  then have "ts_list b' = drop ?k (ts_list b)" unfolding ts_list_def [of b']
    using len by (intro nth_equalityI) (simp_all add: b'_def)
  ultimately show ?thesis by (auto simp: b'_def)
qed

lemma ts_list_from_zero:
  assumes "ts_tail b = 0" "ts_count b \<le> ts_size b"
  shows "ts_list b = map (\<lambda>i. ts_data b ! i) [0..<nat (ts_count b)]"
  using assms by (auto simp: ts_list_def ts_pos_def mod_pos_pos_trivial)

lemma ts_upsize:
  assumes inv: "ts_inv b" and n: "ts_size b < int n" and t: "ts_tail b \<le> 0 \<or> ts_head b < ts_tail b"
  shows "ts_inv (fst (tsbuff_upsize b n)) \<and> ts_list (fst (tsbuff_upsize b n)) = ts_list b \<and> ts_size (fst (tsbuff_upsize b n)) = int n"
proof -
  let ?c = "nat (ts_count b)" and ?b = "fst (tsbuff_upsize b n)"
  have s: "0 < ts_size b" "ts_size b = int (length (ts_data b))" "0 \<le> ts_count b" "ts_count b \<le> ts_size b"
    using inv unfolding ts_inv_def by blast+
  consider (e) "ts_count b = 0" | (z) "0 < ts_count b" "ts_tail b = 0" "ts_head b = ts_count b - 1"
    | (w) "0 < ts_count b" "0 \<le> ts_tail b" "ts_tail b < ts_size b" "ts_head b < ts_tail b" "ts_head b = (ts_tail b + ts_count b - 1) mod ts_size b"
    using inv t s by (cases "ts_count b = 0"; cases "ts_tail b = 0") (auto simp: ts_inv_def mod_pos_pos_trivial)
  then show ?thesis
  proof cases
    case e
    with inv s n show ?thesis by (auto simp: tsbuff_upsize_def ts_inv_def ts_list_def Let_def)
  next
    case z
    have b: "ts_data ?b = take ?c (ts_data b) @ replicate (n - ?c) (0, None)" "ts_tail ?b = 0" "ts_count ?b = ts_count b"
      "ts_size ?b = int n" "ts_head ?b = ts_count b - 1"
      using z s by (auto simp: tsbuff_upsize_def Let_def min_def)
    have "ts_inv ?b" using b s n z by (auto simp: ts_inv_def mod_pos_pos_trivial)
    moreover have "ts_list ?b = ts_list b" using b s n z by (auto simp: ts_list_from_zero nth_append)
    ultimately show ?thesis using b by simp
  next
    case w
    let ?x = "drop (nat (ts_tail b)) (ts_data b) @ take (nat (ts_head b + 1)) (ts_data b)"
    have c1: "0 \<le> ts_count b - 1" "ts_count b - 1 \<le> ts_size b" using w s by simp_all
    have h: "ts_head b = ts_tail b + ts_count b - 1 - ts_size b"
      using wrap_mod [OF w(2,3) c1] w(1,4,5) by (auto simp: add_diff_eq split: if_splits)
    have h0: "0 \<le> ts_head b" unfolding w(5) using s by simp
    have "length ?x = (length (ts_data b) - nat (ts_tail b)) + nat (ts_head b + 1)"
      using w(2-4) h0 s(2) by (auto simp: min_def)
    then have lx: "length ?x = ?c" using w(2-4) h h0 s by linarith
    have b: "ts_data ?b = ?x @ replicate (n - length ?x) (0, None)" "ts_tail ?b = 0" "ts_count ?b = ts_count b"
      "ts_size ?b = int n" "ts_head ?b = ts_count b - 1"
      using w h0 by (simp_all add: tsbuff_upsize_def Let_def)
    have "ts_inv ?b" using b lx s n w by (auto simp: ts_inv_def mod_pos_pos_trivial)
    moreover have "ts_data ?b ! i = ts_data b ! ts_pos b i" if "i < ?c" for i
    proof -
      have "ts_pos b i = (if nat (ts_tail b) + i < length (ts_data b) then nat (ts_tail b) + i else nat (ts_tail b) + i - length (ts_data b))"
        using wrap_mod [OF w(2,3), of "int i"] that s w by (auto simp: ts_pos_def nat_add_distrib nat_diff_distrib')
      moreover have "i < length ?x" using that unfolding lx .
      then have "ts_data ?b ! i = ?x ! i" unfolding b(1) nth_append [of ?x] by (simp only: if_True)
      moreover have "?x ! i = (if nat (ts_tail b) + i < length (ts_data b) then ts_data b ! (nat (ts_tail b) + i)
          else ts_data b ! (nat (ts_tail b) + i - length (ts_data b)))"
      proof (cases "nat (ts_tail b) + i < length (ts_data b)")
        case True
        then have "i < length (ts_data b) - nat (ts_tail b)" by linarith
        then show ?thesis using True by (simp add: nth_append)
      next
        case False
        then have "i - (length (ts_data b) - nat (ts_tail b)) < nat (ts_head b + 1)"
          "i - (length (ts_data b) - nat (ts_tail b)) = nat (ts_tail b) + i - length (ts_data b)"
          "\<not> i < length (ts_data b) - nat (ts_tail b)"
          using that s w h h0 by linarith+
        then show ?thesis using False by (simp add: nth_append)
      qed
      ultimately show ?thesis by simp
    qed
    then have "ts_list ?b = ts_list b" using b s n ts_list_from_zero [of ?b] by (simp add: ts_list_def [of b])
    ultimately show ?thesis using b by simp
  qed
qed

lemma ts_find_time:
  assumes "ts_inv b" "nat (ts_count b) < fuel"
  shows "if ts_list b = [] \<or> tm < fst (hd (ts_list b)) \<or> fst (last (ts_list b)) < tm
    then glb_tsbuff_find_time_idx fuel b tm = Some (Inr FAIL)
    else \<exists>k < length (ts_list b). glb_tsbuff_find_time_idx fuel b tm = Some (Inr (int (ts_pos b k)))
      \<and> glb_tsbuff_get_value_ptr b (int (ts_pos b k)) = Inr (ts_list b ! k)
      \<and> fst (ts_list b ! k) \<le> tm
      \<and> (fst (ts_list b ! k) = tm \<or> Suc k < length (ts_list b) \<and> tm < fst (ts_list b ! Suc k))"
proof (cases "ts_count b = 0")
  case True
  then show ?thesis by (simp add: glb_tsbuff_find_time_idx_def ts_list_def)
next
  case False
  then have c: "0 < ts_count b" using assms(1) unfolding ts_inv_def by linarith
  let ?n = "nat (ts_count b)"
  have len: "length (ts_list b) = ?n" by (simp add: ts_list_def)
  have ne: "ts_list b \<noteq> []" using c by (simp add: ts_list_def)
  have t0: "ts_tail b = int (ts_pos b 0)" using assms(1) c by (auto simp: ts_inv_def ts_pos_def)
  have e: "glb_tsbuff_find_time_idx fuel b tm = (if tm < fst (hd (ts_list b)) \<or> fst (last (ts_list b)) < tm then Some (Inr (-1))
      else find_time_loop fuel b tm (int (ts_pos b 0)) (int (ts_pos b (?n - 1))))"
    using False ts_times [OF assms(1) c] t0 ts_inv_head(3) [OF assms(1) c] by (simp add: glb_tsbuff_find_time_idx_def)
  show ?thesis
  proof (cases "tm < fst (hd (ts_list b)) \<or> fst (last (ts_list b)) < tm")
    case True
    with e show ?thesis by simp
  next
    case F: False
    then have "\<exists>k. find_time_loop fuel b tm (int (ts_pos b 0)) (int (ts_pos b (?n - 1))) = Some (Inr (int (ts_pos b k)))
      \<and> 0 \<le> k \<and> k \<le> ?n - 1 \<and> fst (ts_list b ! k) \<le> tm \<and> (fst (ts_list b ! k) = tm \<or> k < ?n - 1 \<and> tm < fst (ts_list b ! (k + 1)))"
      using c ne len assms(2) by (intro find_time_loop_spec [OF assms(1)]) (auto simp: hd_conv_nth last_conv_nth)
    then obtain k where k: "find_time_loop fuel b tm (int (ts_pos b 0)) (int (ts_pos b (?n - 1))) = Some (Inr (int (ts_pos b k)))"
      "k \<le> ?n - 1" "fst (ts_list b ! k) \<le> tm" "fst (ts_list b ! k) = tm \<or> k < ?n - 1 \<and> tm < fst (ts_list b ! (k + 1))" by blast
    have kn: "k < ?n" using k(2) c by linarith
    with k F e ne len ts_get [OF assms(1) kn] show ?thesis by (auto intro!: exI [of _ k])
  qed
qed

definition ts_wrapped :: "nat tsbuff" where
  "ts_wrapped = \<lparr>ts_data = [(30, Some 3), (40, Some 4), (10, Some 1), (20, Some 2)], ts_head = 1, ts_tail = 2, ts_count = 4, ts_size = 4\<rparr>"

lemma ts_wrapped_ok: "ts_inv ts_wrapped" "ts_list ts_wrapped = [(10, Some 1), (20, Some 2), (30, Some 3), (40, Some 4)]"
  by (simp_all add: ts_inv_def ts_list_def ts_pos_def ts_wrapped_def upt_rec)

lemma ts_enough_idx:
  assumes inv: "ts_inv b" and k: "k < nat (ts_count b)"
  shows "glb_tsbuff_check_has_enough_count_data_idx b need (int (ts_pos b k)) = (if need \<noteq> 0 \<and> need \<le> int k + 1 then SUCCEED else FAIL)"
proof -
  have t: "0 \<le> ts_tail b" "ts_tail b < ts_size b" "ts_count b \<le> ts_size b" using inv k by (auto simp: ts_inv_def split: if_splits)
  have "int (ts_pos b k) = (if ts_tail b + int k < ts_size b then ts_tail b + int k else ts_tail b + int k - ts_size b)"
    using wrap_mod [of "ts_tail b" "ts_size b" "int k"] t k by (auto simp: ts_pos_def)
  then show ?thesis using t k by (auto simp: glb_tsbuff_check_has_enough_count_data_idx_def split: if_splits)
qed

lemma filter_le_sorted:
  assumes "sorted_wrt (<) (map fst xs)" "k < length xs" "fst (xs ! k) \<le> tm"
    "fst (xs ! k) = tm \<or> Suc k < length xs \<and> tm < fst (xs ! Suc k)"
  shows "length (filter (\<lambda>c. fst c \<le> (tm::int)) xs) = Suc k"
proof -
  have lt: "fst (xs ! i) < fst (xs ! j)" if "i < j" "j < length xs" for i j
    using sorted_wrt_nth_less [OF assms(1), of i j] that by simp
  have "fst (xs ! i) \<le> tm \<longleftrightarrow> i < Suc k" if i: "i < length xs" for i
  proof (cases "i \<le> k")
    case True
    then have "fst (xs ! i) \<le> fst (xs ! k)" using lt [of i k] assms(2) by (cases "i = k") auto
    with True assms(3) show ?thesis by auto
  next
    case False
    then have "k < i" "Suc k \<le> i" by simp_all
    then have "tm < fst (xs ! i)" using assms(4) lt [of k i] lt [of "Suc k" i] i by (cases "Suc k = i") auto
    with False show ?thesis by auto
  qed
  then have "{i. i < length xs \<and> fst (xs ! i) \<le> tm} = {..<Suc k}" using assms(2) by auto
  then show ?thesis by (simp add: length_filter_conv_card)
qed

section \<open>Properties\<close>

text \<open>
  C12. The search by time ends, and its answer is right: outside the time span of the buffer it returns
  FAIL, inside it the index of a cell whose time is the wanted one, or is earlier while the next cell's
  is later.  When several cells have the wanted time, it is one of them, not always the newest.  A bisection over the wrapped indices needs no more rounds than the buffer has values.
\<close>

theorem tsbuff_find_time_idx:
  assumes "ts_inv b" "nat (ts_count b) < fuel"
  shows "if ts_list b = [] \<or> tm < fst (hd (ts_list b)) \<or> fst (last (ts_list b)) < tm
    then glb_tsbuff_find_time_idx fuel b tm = Some (Inr FAIL)
    else \<exists>k < length (ts_list b). glb_tsbuff_find_time_idx fuel b tm = Some (Inr (int (ts_pos b k)))
      \<and> glb_tsbuff_get_value_ptr b (int (ts_pos b k)) = Inr (ts_list b ! k)
      \<and> fst (ts_list b ! k) \<le> tm
      \<and> (fst (ts_list b ! k) = tm \<or> Suc k < length (ts_list b) \<and> tm < fst (ts_list b ! Suc k))"
  using assms by (rule ts_find_time)

theorem tsbuff_find_time_idx_witness:
  "\<exists>k < length (ts_list ts_wrapped). glb_tsbuff_find_time_idx 5 ts_wrapped 35 = Some (Inr (int (ts_pos ts_wrapped k)))
     \<and> fst (ts_list ts_wrapped ! k) \<le> 35"
proof -
  have "nat (ts_count ts_wrapped) < 5" by (simp add: ts_wrapped_def)
  moreover have "\<not> (ts_list ts_wrapped = [] \<or> 35 < fst (hd (ts_list ts_wrapped)) \<or> fst (last (ts_list ts_wrapped)) < 35)"
    by (simp add: ts_wrapped_ok)
  ultimately show ?thesis using tsbuff_find_time_idx [OF ts_wrapped_ok(1), of 5 35] by (simp only: if_False) blast
qed

text \<open>
  The check for enough history at a time counts right: in a buffer with ascending times, for a time
  within its span, it succeeds exactly if the buffer holds at least the wanted number of values up to
  that time, wherever the ring wraps.
\<close>

theorem tsbuff_enough_data:
  assumes "ts_inv b" "sorted_wrt (<) (map fst (ts_list b))" "ts_list b \<noteq> []" "0 \<le> tm"
    "fst (hd (ts_list b)) \<le> tm" "tm \<le> fst (last (ts_list b))" "nat (ts_count b) < fuel"
  shows "glb_tsbuff_check_has_enough_count_data_time fuel b need tm = Some (Inr
    (if need \<noteq> 0 \<and> need \<le> int (length (filter (\<lambda>c. fst c \<le> tm) (ts_list b))) then SUCCEED else FAIL))"
proof -
  have c: "0 < ts_count b" using assms(3) by (simp add: ts_list_def)
  have len: "length (ts_list b) = nat (ts_count b)" by (simp add: ts_list_def)
  from ts_find_time [OF assms(1,7), of tm] assms(3,5,6) obtain k where k: "k < length (ts_list b)"
    "glb_tsbuff_find_time_idx fuel b tm = Some (Inr (int (ts_pos b k)))" "fst (ts_list b ! k) \<le> tm"
    "fst (ts_list b ! k) = tm \<or> Suc k < length (ts_list b) \<and> tm < fst (ts_list b ! Suc k)"
    by (auto split: if_splits)
  have "length (filter (\<lambda>c. fst c \<le> tm) (ts_list b)) = Suc k" using assms(2) k(1,3,4) by (rule filter_le_sorted)
  with k(1,2) ts_enough_idx [OF assms(1), of k need] ts_times [OF assms(1) c] assms(4-6) len show ?thesis
    by (simp add: glb_tsbuff_check_has_enough_count_data_time_def add.commute)
qed

theorem tsbuff_enough_data_witness:
  "glb_tsbuff_check_has_enough_count_data_time 5 ts_wrapped 3 35 = Some (Inr SUCCEED)
   \<and> glb_tsbuff_check_has_enough_count_data_time 5 ts_wrapped 4 35 = Some (Inr FAIL)"
proof -
  have "nat (ts_count ts_wrapped) < 5" by (simp add: ts_wrapped_def)
  with tsbuff_enough_data [OF ts_wrapped_ok(1), of 35 5] show ?thesis by (simp add: ts_wrapped_ok(2))
qed

text \<open>
  A buffer of more than one cell is a double-ended list in time order: adding at the head appends a
  cell unless the buffer is full or the time is before the newest one, adding at the tail prepends a
  cell unless it is full or the time is after the oldest one, freeing drops the oldest cell.  Refused
  additions change nothing, and indices and counter stay consistent.
\<close>

theorem tsbuff_ends:
  assumes "ts_inv b" "1 < ts_size b"
  shows "(if (ts_list b \<noteq> [] \<and> fst (last (ts_list b)) \<noteq> ZBX_JAN_2038 \<and> fst (last (ts_list b)) > tm) \<or> glb_tsbuff_is_full b = SUCCEED
      then glb_tsbuff_add_to_head b tm = Inr (b, None)
      else \<exists>b' i c. glb_tsbuff_add_to_head b tm = Inr (b', Some i) \<and> ts_inv b' \<and> ts_list b' = ts_list b @ [(tm, c)] \<and> i = ts_head b')
    \<and> (if (ts_list b \<noteq> [] \<and> 0 < fst (hd (ts_list b)) \<and> fst (hd (ts_list b)) < tm) \<or> glb_tsbuff_is_full b = SUCCEED
      then glb_tsbuff_add_to_tail b tm = Inr (b, None)
      else \<exists>b' i c. glb_tsbuff_add_to_tail b tm = Inr (b', Some i) \<and> ts_inv b' \<and> ts_list b' = (tm, c) # ts_list b \<and> i = ts_tail b')
    \<and> ts_inv (fst (glb_tsbuff_free_tail b)) \<and> ts_list (fst (glb_tsbuff_free_tail b)) = tl (ts_list b)"
proof -
  have "glb_tsbuff_is_full b = SUCCEED \<longleftrightarrow> ts_count b = ts_size b" by (simp add: glb_tsbuff_is_full_def)
  then show ?thesis
    using ts_add_head [OF assms, of tm] ts_add_tail [OF assms(1), of tm] ts_free_tail [OF assms(1)] by (elim conjE) (intro conjI; simp only:)
qed

theorem tsbuff_ends_witness: "ts_list (fst (glb_tsbuff_free_tail ts_wrapped)) = [(20, Some 2), (30, Some 3), (40, Some 4)]"
proof -
  have "1 < ts_size ts_wrapped" by (simp add: ts_wrapped_def)
  from tsbuff_ends [OF ts_wrapped_ok(1) this] show ?thesis by (simp add: ts_wrapped_ok)
qed

text \<open>
  Resizing keeps the values that fit: growing keeps all of them when the buffer starts at its first
  cell or is wrapped around, and shrinking below the number of values keeps the newest ones.
\<close>

theorem tsbuff_resize_keeps:
  assumes "ts_inv b" "1 \<le> n" "n \<le> 1000000" "nat n < fuel"
    and "if n < ts_size b then n \<le> ts_count b else ts_size b < n \<and> (ts_tail b \<le> 0 \<or> ts_head b < ts_tail b)"
  shows "\<exists>b'. glb_tsbuff_resize fuel b n False = Some (Inr (b', [], n)) \<and> ts_inv b' \<and> ts_size b' = n
    \<and> ts_list b' = drop (length (ts_list b) - nat n) (ts_list b)"
proof (cases "n < ts_size b")
  case True
  with assms ts_downsize [of b "nat n" fuel] show ?thesis
    by (auto simp: glb_tsbuff_resize_def ts_list_def)
next
  case False
  then have "ts_size b < int (nat n)" using assms(5) by simp
  moreover have "ts_count b \<le> n" using assms(1,5) False by (auto simp: ts_inv_def)
  ultimately show ?thesis using assms False ts_upsize [of b "nat n"]
    by (auto simp: glb_tsbuff_resize_def split_beta ts_list_def [of b] tsbuff_upsize_def Let_def)
qed

theorem tsbuff_resize_keeps_witness:
  "\<exists>b'. glb_tsbuff_resize 3 ts_wrapped 2 False = Some (Inr (b', [], 2)) \<and> ts_list b' = [(30, Some 3), (40, Some 4)]"
proof -
  have "if 2 < ts_size ts_wrapped then 2 \<le> ts_count ts_wrapped
      else ts_size ts_wrapped < 2 \<and> (ts_tail ts_wrapped \<le> 0 \<or> ts_head ts_wrapped < ts_tail ts_wrapped)"
    by (simp add: ts_wrapped_def)
  from tsbuff_resize_keeps [OF ts_wrapped_ok(1) _ _ _ this, of 3] show ?thesis by (auto simp: ts_wrapped_ok)
qed

text \<open>
  Growing a buffer whose oldest value is not in its first cell and that is not wrapped loses values:
  the code copies the first \<open>count\<close> cells of the array instead of the cells from the tail on, so the
  newest values, which are in the last cells, read as zeroed memory afterwards.
\<close>

theorem tsbuff_upsize_loses:
  assumes "ts_inv b" "0 < ts_tail b" "ts_tail b \<le> ts_head b" "ts_size b < int n"
  shows "ts_inv (fst (tsbuff_upsize b n)) \<and> last (ts_list (fst (tsbuff_upsize b n))) = (0, None)"
proof -
  let ?b = "fst (tsbuff_upsize b n)" and ?c = "nat (ts_count b)"
  have s: "0 < ts_size b" "ts_size b = int (length (ts_data b))" "0 \<le> ts_count b" "ts_count b \<le> ts_size b"
    using assms(1) unfolding ts_inv_def by blast+
  have c: "0 < ts_count b" using assms(1-3) unfolding ts_inv_def by (metis less_le not_less order.trans zero_less_one neg_0_less_iff_less less_trans)
  have t: "ts_tail b < ts_size b" "ts_head b = (ts_tail b + ts_count b - 1) mod ts_size b"
    using assms(1) c by (auto simp: ts_inv_def)
  have h: "ts_head b = ts_tail b + (ts_count b - 1)"
    using wrap_mod [of "ts_tail b" "ts_size b" "ts_count b - 1"] assms(2,3) t s c by (auto simp: add_diff_eq split: if_splits)
  have hs: "ts_head b < ts_size b" unfolding t(2) using s by simp
  have b: "ts_data ?b = take ?c (ts_data b) @ replicate (n - ?c) (0, None)" "ts_tail ?b = ts_tail b" "ts_count ?b = ts_count b"
    "ts_size ?b = int n" "ts_head ?b = ts_head b"
    using assms(2,3) s by (auto simp: tsbuff_upsize_def Let_def min_def)
  have m: "(ts_tail b + ts_count b - 1) mod int n = ts_head b" using h hs assms(2,4) c by (simp add: add_diff_eq mod_pos_pos_trivial)
  then have inv': "ts_inv ?b" using b s c assms t by (auto simp: ts_inv_def)
  have "last (ts_list ?b) = ts_data ?b ! nat (ts_head b)"
    using b c m by (simp add: ts_list_def last_map ts_pos_def of_nat_diff add_diff_eq)
  moreover have l: "length (take ?c (ts_data b)) = ?c" using s by simp
  have r: "\<not> nat (ts_head b) < ?c" "nat (ts_head b) - ?c < n - ?c" using h hs assms(2,4) c by linarith+
  have "ts_data ?b ! nat (ts_head b) = (0, None)" unfolding b(1) nth_append l if_not_P [OF r(1)] using r(2) by simp
  ultimately have "last (ts_list ?b) = (0, None)" by simp
  with inv' show ?thesis by simp
qed

theorem tsbuff_upsize_loses_witness:
  "let b = \<lparr>ts_data = [(0, None), (0, None), (10, Some (1::nat))], ts_head = 2, ts_tail = 2, ts_count = 1, ts_size = 3\<rparr>
   in ts_list b = [(10, Some 1)] \<and> ts_list (fst (tsbuff_upsize b 4)) = [(0, None)]"
proof -
  let ?b = "\<lparr>ts_data = [(0, None), (0, None), (10, Some (1::nat))], ts_head = 2, ts_tail = 2, ts_count = 1, ts_size = 3\<rparr>"
  have "ts_inv ?b" "0 < ts_tail ?b" "ts_tail ?b \<le> ts_head ?b" "ts_size ?b < int 4" by (simp_all add: ts_inv_def)
  from tsbuff_upsize_loses [OF this] show ?thesis
    by (simp add: Let_def ts_list_def ts_pos_def tsbuff_upsize_def)
qed

text \<open>
  A buffer of one cell has no full state for additions at the head: adding to the full buffer
  overwrites its only value and leaves a counter above the size, outside the invariant.
\<close>

theorem tsbuff_single_cell_overflow:
  assumes "ts_inv b" "ts_size b = 1" "ts_count b = 1" "fst (ts_data b ! 0) \<le> tm"
  shows "\<exists>b'. glb_tsbuff_add_to_head b tm = Inr (b', Some 0) \<and> ts_count b' = 2 \<and> \<not> ts_inv b'"
proof -
  have "ts_head b = 0" "ts_tail b = 0" using assms(1-3) by (auto simp: ts_inv_def)
  then show ?thesis using assms(2-4)
    by (simp add: glb_tsbuff_add_to_head_def glb_tsbuff_get_time_head_def glb_tsbuff_get_value_ptr_def set_time_def Let_def ts_inv_def)
qed

theorem tsbuff_single_cell_overflow_witness:
  "\<exists>b'. glb_tsbuff_add_to_head \<lparr>ts_data = [(10, Some ''a'')], ts_head = 0, ts_tail = 0, ts_count = 1, ts_size = 1\<rparr> 20 = Inr (b', Some 0)
     \<and> ts_count b' = 2"
  using tsbuff_single_cell_overflow [of "\<lparr>ts_data = [(10, Some ''a'')], ts_head = 0, ts_tail = 0, ts_count = 1, ts_size = 1\<rparr>" 20]
  by (auto simp: ts_inv_def)

end
