(* ===== verification/Base64.thy ===== *)
theory Base64
  imports Prelude
begin

text \<open>
  \<open>src/libs/zbxcrypto/base64.c\<close>: the base64 coder of the server's web and script interfaces.

  Bytes are 8-bit words.  The input of the encoder is the list of its \<open>in_size\<close> bytes, a C string is
  the list of its bytes before the NUL.  The buffer of the dynamic encoder is a list of cells, \<open>None\<close>
  where the fresh memory is not written yet, and a write past its end is an error.  \<open>in_size\<close> and the sizes computed from it are
  \<open>int\<close> in the code and unbounded here, which agrees for inputs below about 1.6 GB.
\<close>

section \<open>Coding of characters\<close>

definition chr :: "char \<Rightarrow> u8" where "chr c = of_nat (of_char c)"

definition is_base64 :: "u8 \<Rightarrow> int" where
  "is_base64 c =
     (if chr CHR ''A'' \<le> c \<and> c \<le> chr CHR ''Z'' \<or> chr CHR ''a'' \<le> c \<and> c \<le> chr CHR ''z''
         \<or> chr CHR ''0'' \<le> c \<and> c \<le> chr CHR ''9'' \<or> c = chr CHR ''+'' \<or> c = chr CHR ''/'' \<or> c = chr CHR ''=''
      then SUCCEED else FAIL)"

definition base64_set :: "u8 list" where
  "base64_set = map chr ''ABCDEFGHIJKLMNOPQRSTUVWXYZabcdefghijklmnopqrstuvwxyz0123456789+/''"

definition char_base64_encode :: "u8 \<Rightarrow> u8" where
  "char_base64_encode uc = base64_set ! unat uc"

definition char_base64_decode :: "u8 \<Rightarrow> u8" where
  "char_base64_decode c =
     (if chr CHR ''A'' \<le> c \<and> c \<le> chr CHR ''Z'' then c - chr CHR ''A''
      else if chr CHR ''a'' \<le> c \<and> c \<le> chr CHR ''z'' then c - chr CHR ''a'' + 26
      else if chr CHR ''0'' \<le> c \<and> c \<le> chr CHR ''9'' then c - chr CHR ''0'' + 52
      else if c = chr CHR ''+'' then 62
      else 63)"

section \<open>Encoding\<close>

definition ZBX_MAX_B64_LEN :: nat where "ZBX_MAX_B64_LEN = 16 * 1024"

text \<open>One round of the loop on three bytes; \<open>has2\<close> and \<open>has3\<close> are the tests \<open>i + 1 < in_size\<close> and \<open>i + 2 < in_size\<close>.\<close>

definition encode_block :: "u8 \<Rightarrow> u8 \<Rightarrow> u8 \<Rightarrow> bool \<Rightarrow> bool \<Rightarrow> u8 list" where
  "encode_block from1 from2 from3 has2 has3 =
     (let to1 = drop_bit 2 from1 AND 0x3f;
          to2 = push_bit 4 (from1 AND 0x3) OR drop_bit 4 from2;
          to3 = push_bit 2 (from2 AND 0xf) OR drop_bit 6 from3;
          to4 = from3 AND 0x3f
      in [char_base64_encode to1, char_base64_encode to2,
          if has2 then char_base64_encode to3 else chr CHR ''='',
          if has3 then char_base64_encode to4 else chr CHR ''=''])"

text \<open>\<open>written\<close> is \<open>p - p_b64str\<close>, the number of characters written so far.\<close>

fun encode_loop :: "nat \<Rightarrow> u8 list \<Rightarrow> u8 list" where
  "encode_loop written [] = []"
| "encode_loop written (a # rest) =
     (if written > ZBX_MAX_B64_LEN - 5 then []
      else
        (case rest of
           [] \<Rightarrow> encode_block a 0 0 False False
         | [b] \<Rightarrow> encode_block a b 0 True False
         | b # c # rest \<Rightarrow> encode_block a b c True True @ encode_loop (written + 4) rest))"

text \<open>The bytes written to the output, NUL included; with no input the output is not touched.\<close>

definition str_base64_encode :: "u8 list \<Rightarrow> u8 list" where
  "str_base64_encode p_str = (if p_str = [] then [] else encode_loop 0 p_str @ [0])"

definition write_at :: "u8 option list \<Rightarrow> nat \<Rightarrow> u8 list \<Rightarrow> u8 option list result" where
  "write_at buf pos bs =
     (if pos + length bs \<le> length buf then Inr (take pos buf @ map Some bs @ drop (pos + length bs) buf) else Inl BadIndex)"

fun encode_blocks :: "nat \<Rightarrow> nat \<Rightarrow> nat \<Rightarrow> u8 list \<Rightarrow> u8 option list \<Rightarrow> nat \<Rightarrow> (u8 list \<times> u8 option list \<times> nat) result" where
  "encode_blocks 0 c_per_block b_per_block pc buf pc_r = Inr (pc, buf, pc_r)"
| "encode_blocks (Suc full_block_num) c_per_block b_per_block pc buf pc_r =
     bind_result (write_at buf pc_r (str_base64_encode (take c_per_block pc))) (\<lambda>buf.
     encode_blocks full_block_num c_per_block b_per_block (drop c_per_block pc) buf (pc_r + b_per_block))"

definition str_base64_encode_dyn :: "u8 list \<Rightarrow> u8 option list result" where
  "str_base64_encode_dyn p_str =
     (let in_size = length p_str;
          buf = replicate ((in_size + 2) div 3 * 4 + 1) None;
          c_per_block = (ZBX_MAX_B64_LEN - 1) div 4 * 3;
          b_per_block = c_per_block div 3 * 4;
          full_block_num = in_size div c_per_block;
          bytes_left = in_size mod c_per_block;
          bytes_for_left = (bytes_left + 2) div 3 * 4
      in bind_result (encode_blocks full_block_num c_per_block b_per_block p_str buf 0) (\<lambda>(pc, buf, pc_r).
         if bytes_left \<noteq> 0 then
           bind_result (write_at buf pc_r (str_base64_encode (take bytes_left pc))) (\<lambda>buf.
           write_at buf (pc_r + bytes_for_left) [0])
         else write_at buf pc_r [0]))"

section \<open>Decoding\<close>

text \<open>The bytes that a block of collected characters decodes to; \<open>lasti\<close> is one less than their number.\<close>

definition decode_block :: "u8 list \<Rightarrow> u8 list" where
  "decode_block collected =
     (let n = length collected;
          from = collected @ replicate (4 - n) (chr CHR ''A'');
          to0 = char_base64_decode (from ! 0); to1 = char_base64_decode (from ! 1);
          to2 = char_base64_decode (from ! 2); to3 = char_base64_decode (from ! 3)
      in (if 2 \<le> n then [push_bit 2 to0 OR drop_bit 4 to1] else [])
         @ (if 3 \<le> n \<and> from ! 2 \<noteq> chr CHR ''='' then [push_bit 4 (to1 AND 0xf) OR drop_bit 2 to2] else [])
         @ (if n = 4 \<and> from ! 3 \<noteq> chr CHR ''='' then [push_bit 6 (to2 AND 0x3) OR to3] else []))"

text \<open>The output is written byte by byte and the function ends when \<open>maxsize\<close> bytes are out.\<close>

fun emit :: "nat \<Rightarrow> u8 list \<Rightarrow> u8 list \<Rightarrow> u8 list \<times> bool" where
  "emit maxsize out [] = (out, False)"
| "emit maxsize out (b # bs) =
     (if length out + 1 = maxsize then (out @ [b], True) else emit maxsize (out @ [b]) bs)"

fun decode_loop :: "nat \<Rightarrow> u8 list \<Rightarrow> u8 list \<Rightarrow> u8 list \<Rightarrow> u8 list" where
  "decode_loop maxsize from out [] = (if from \<noteq> [] then fst (emit maxsize out (decode_block from)) else out)"
| "decode_loop maxsize from out (c # p) =
     (if is_base64 c = FAIL then decode_loop maxsize from out p
      else if length from < 3 then decode_loop maxsize (from @ [c]) out p
      else
        (let (out, brk) = emit maxsize out (decode_block (from @ [c]))
         in if brk then out else decode_loop maxsize [] out p))"

definition str_base64_decode :: "u8 list \<Rightarrow> int \<Rightarrow> u8 list result" where
  "str_base64_decode p_b64str maxsize =
     (if maxsize \<le> 0 then Inl AssertFail else Inr (decode_loop (nat maxsize) [] [] p_b64str))"

section \<open>Blocks\<close>

lemma u8_bitI:
  assumes "\<And>n. n < 8 \<Longrightarrow> bit v n \<longleftrightarrow> bit w n"
  shows "v = (w :: u8)"
  by (rule bit_word_eqI) (use assms in simp)

lemma less_8_cases:
  fixes n :: nat
  shows "n < 8 \<Longrightarrow> n = 0 \<or> n = 1 \<or> n = 2 \<or> n = 3 \<or> n = 4 \<or> n = 5 \<or> n = 6 \<or> n = 7"
  by linarith

lemma chr_simps [simp]:
  "chr CHR ''A'' = 65" "chr CHR ''Z'' = 90" "chr CHR ''a'' = 97" "chr CHR ''z'' = 122" "chr CHR ''0'' = 48" "chr CHR ''9'' = 57"
  "chr CHR ''+'' = 43" "chr CHR ''/'' = 47" "chr CHR ''='' = 61"
  by (simp_all add: chr_def)

lemma base64_set_eq: "base64_set = [65, 66, 67, 68, 69, 70, 71, 72, 73, 74, 75, 76, 77, 78, 79, 80, 81, 82, 83, 84, 85, 86, 87, 88, 89, 90, 97, 98, 99, 100, 101, 102, 103, 104, 105, 106, 107, 108, 109, 110, 111, 112, 113, 114, 115, 116, 117, 118, 119, 120, 121, 122, 48, 49, 50, 51, 52, 53, 54, 55, 56, 57, 43, 47]"
  by (simp add: base64_set_def chr_def)

lemma upt_64: "map (of_nat :: nat \<Rightarrow> u8) [0..<64] = [0, 1, 2, 3, 4, 5, 6, 7, 8, 9, 10, 11, 12, 13, 14, 15, 16, 17, 18, 19, 20, 21, 22, 23, 24, 25, 26, 27, 28, 29, 30, 31, 32, 33, 34, 35, 36, 37, 38, 39, 40, 41, 42, 43, 44, 45, 46, 47, 48, 49, 50, 51, 52, 53, 54, 55, 56, 57, 58, 59, 60, 61, 62, 63]"
  by (simp add: upt_conv_Cons)

lemma base64_set_chars:
  "list_all (\<lambda>(n, c). char_base64_decode c = n \<and> is_base64 c = SUCCEED \<and> c \<noteq> 61 \<and> c \<noteq> 0) (zip (map of_nat [0..<64]) base64_set)"
  unfolding upt_64 base64_set_eq by (simp add: char_base64_decode_def is_base64_def)

lemma code_char:
  assumes "uc < 64"
  shows "char_base64_decode (char_base64_encode uc) = uc" "is_base64 (char_base64_encode uc) = SUCCEED"
    "char_base64_encode uc \<noteq> 61" "char_base64_encode uc \<noteq> 0"
proof -
  have n: "unat uc < 64" using assms by (simp add: word_less_nat_alt)
  have "length base64_set = 64" by (simp add: base64_set_eq)
  then have "char_base64_decode c = uc \<and> is_base64 c = SUCCEED \<and> c \<noteq> 61 \<and> c \<noteq> 0" if "c = base64_set ! unat uc" for c
    using base64_set_chars n that unfolding list_all_length by (force dest: spec [of _ "unat uc"])
  then show "char_base64_decode (char_base64_encode uc) = uc" "is_base64 (char_base64_encode uc) = SUCCEED"
    "char_base64_encode uc \<noteq> 61" "char_base64_encode uc \<noteq> 0" by (simp_all add: char_base64_encode_def)
qed

lemma block_bits:
  fixes a b c :: u8
  shows "push_bit 2 (drop_bit 2 a AND 0x3f) OR drop_bit 4 (push_bit 4 (a AND 0x3) OR drop_bit 4 b) = a"
    "push_bit 4 ((push_bit 4 (a AND 0x3) OR drop_bit 4 b) AND 0xf) OR drop_bit 2 (push_bit 2 (b AND 0xf) OR drop_bit 6 c) = b"
    "push_bit 6 ((push_bit 2 (b AND 0xf) OR drop_bit 6 c) AND 0x3) OR (c AND 0x3f) = c"
  by (rule u8_bitI; drule less_8_cases; elim disjE; simp add: bit_simps impossible_bit)+

lemma u8_less_64: "take_bit 6 w = w \<Longrightarrow> w < 64" for w :: u8
  using and_mask_less' [of 6 w] by (simp add: take_bit_eq_mask)

lemma block_less_64:
  fixes a b c :: u8
  shows "drop_bit 2 a AND 0x3f < 64" "push_bit 4 (a AND 0x3) OR drop_bit 4 b < 64"
    "push_bit 2 (b AND 0xf) OR drop_bit 6 c < 64" "c AND 0x3f < 64"
  by (rule u8_less_64; rule u8_bitI; drule less_8_cases; elim disjE; simp add: bit_simps impossible_bit)+

lemmas block_chars = code_char [OF block_less_64(1)] code_char [OF block_less_64(2)]
  code_char [OF block_less_64(3)] code_char [OF block_less_64(4)]

lemma length_encode_block [simp]: "length (encode_block a b c h2 h3) = 4"
  by (simp add: encode_block_def)

lemma is_base64_pad: "is_base64 61 = SUCCEED"
  by (simp add: is_base64_def)

lemma encode_block_chars:
  assumes "c \<in> set (encode_block x y z h2 h3)"
  shows "is_base64 c = SUCCEED \<and> c \<noteq> 0"
proof -
  from assms consider "c = 61" | t where "t < 64" "c = char_base64_encode t"
    unfolding encode_block_def Let_def chr_simps
    using block_less_64(1) [of x] block_less_64(2) [of x y] block_less_64(3) [of y z] block_less_64(4) [of z]
    by (simp split: if_split_asm) blast+
  then show ?thesis by cases (simp_all add: is_base64_pad code_char)
qed

lemma decode_block_code:
  assumes "t1 < 64" "t2 < 64" "t3 < 64" "t4 < 64"
  shows "decode_block (map char_base64_encode [t1, t2, t3, t4]) =
      [push_bit 2 t1 OR drop_bit 4 t2, push_bit 4 (t2 AND 0xf) OR drop_bit 2 t3, push_bit 6 (t3 AND 0x3) OR t4]"
    "decode_block [char_base64_encode t1, char_base64_encode t2, char_base64_encode t3, 61] =
      [push_bit 2 t1 OR drop_bit 4 t2, push_bit 4 (t2 AND 0xf) OR drop_bit 2 t3]"
    "decode_block [char_base64_encode t1, char_base64_encode t2, 61, 61] = [push_bit 2 t1 OR drop_bit 4 t2]"
  using assms by (simp_all add: decode_block_def Let_def code_char)

lemma decode_encode_block:
  "decode_block (encode_block a b c True True) = [a, b, c]"
  "decode_block (encode_block a b 0 True False) = [a, b]"
  "decode_block (encode_block a 0 0 False False) = [a]"
proof -
  let ?t1 = "drop_bit 2 a AND 0x3f" and ?t2 = "\<lambda>b. push_bit 4 (a AND 0x3) OR drop_bit 4 b"
  let ?t3 = "\<lambda>c. push_bit 2 (b AND 0xf) OR drop_bit 6 c" and ?t4 = "c AND 0x3f"
  note l = block_less_64(1) [of a] block_less_64(2) [of a b] block_less_64(3) [of b c] block_less_64(4) [of c]
  have "encode_block a b c True True = map char_base64_encode [?t1, ?t2 b, ?t3 c, ?t4]" by (simp add: encode_block_def Let_def)
  then show "decode_block (encode_block a b c True True) = [a, b, c]"
    using decode_block_code(1) [OF l] unfolding block_bits by (simp only:)
  have "encode_block a b 0 True False = [char_base64_encode ?t1, char_base64_encode (?t2 b), char_base64_encode (?t3 0), 61]"
    by (simp only: encode_block_def Let_def if_True if_False chr_simps)
  then show "decode_block (encode_block a b 0 True False) = [a, b]"
    using decode_block_code(2) [OF l(1,2) block_less_64(3) [of b 0] l(4)] unfolding block_bits by (simp only:)
  have "encode_block a 0 0 False False = [char_base64_encode ?t1, char_base64_encode (?t2 0), 61, 61]"
    by (simp only: encode_block_def Let_def if_False chr_simps)
  then show "decode_block (encode_block a 0 0 False False) = [a]"
    using decode_block_code(3) [OF l(1) block_less_64(2) [of a 0] l(3,4)] unfolding block_bits by (simp only:)
qed

section \<open>Strings\<close>

text \<open>The encoding without the limit on its length.\<close>

fun b64 :: "u8 list \<Rightarrow> u8 list" where
  "b64 [] = []"
| "b64 [a] = encode_block a 0 0 False False"
| "b64 [a, b] = encode_block a b 0 True False"
| "b64 (a # b # c # rest) = encode_block a b c True True @ b64 rest"

lemma length_b64: "length (b64 xs) = (length xs + 2) div 3 * 4"
proof (induction xs rule: b64.induct)
  case (4 a b c rest)
  have "(length (a # b # c # rest) + 2) div 3 = (length rest + 2) div 3 + 1" by simp
  with 4 show ?case by simp
qed simp_all

lemma b64_chars: "c \<in> set (b64 xs) \<Longrightarrow> is_base64 c = SUCCEED \<and> c \<noteq> 0"
  by (induction xs rule: b64.induct) (auto dest: encode_block_chars)

lemma b64_append: "3 dvd length xs \<Longrightarrow> b64 (xs @ ys) = b64 xs @ b64 ys"
proof (induction xs rule: b64.induct)
  case (4 a b c rest)
  then have "3 dvd length rest" using dvd_add_left_iff [of 3 3 "length rest"] by (simp add: numeral_3_eq_3)
  with 4 show ?case by simp
qed (auto dest: dvd_imp_le)

lemma encode_loop_b64: "written + length (b64 xs) \<le> ZBX_MAX_B64_LEN - 1 \<Longrightarrow> encode_loop written xs = b64 xs"
  by (induction xs arbitrary: written rule: b64.induct) (auto simp: ZBX_MAX_B64_LEN_def)

lemma decode_collect:
  assumes "\<And>c. c \<in> set cs \<Longrightarrow> is_base64 c = SUCCEED" "length from + length cs = 4" "cs \<noteq> []"
  shows "decode_loop maxsize from out (cs @ rest) =
    (let (out, brk) = emit maxsize out (decode_block (from @ cs)) in if brk then out else decode_loop maxsize [] out rest)"
  using assms
proof (induction cs arbitrary: "from")
  case Nil
  then show ?case by simp
next
  case (Cons c cs)
  show ?case
  proof (cases "cs = []")
    case True
    with Cons.prems show ?thesis by simp
  next
    case False
    then have "length from < 3" using Cons.prems by (cases cs) simp_all
    moreover have "is_base64 c = SUCCEED" using Cons.prems by simp
    ultimately show ?thesis using False Cons.prems Cons.IH [of "from @ [c]"] by simp
  qed
qed

lemma emit_take:
  "length out < maxsize \<Longrightarrow>
   emit maxsize out bs = (if length out + length bs < maxsize then (out @ bs, False) else (out @ take (maxsize - length out) bs, True))"
proof (induction bs arbitrary: out)
  case Nil
  then show ?case by simp
next
  case (Cons b bs)
  then show ?case by (auto simp: take_Cons' not_less)
qed

lemma decode_b64:
  assumes "length out < maxsize"
  shows "decode_loop maxsize [] out (b64 xs) = out @ take (maxsize - length out) xs"
  using assms
proof (induction xs arbitrary: out rule: b64.induct)
  case 1
  then show ?case by simp
next
  case (2 a)
  have "encode_block a 0 0 False False \<noteq> []" by (simp add: encode_block_def)
  with 2 decode_collect [of "encode_block a 0 0 False False" "[]" maxsize out "[]"] show ?case
    by (auto simp: encode_block_chars decode_encode_block)
next
  case (3 a b)
  have "encode_block a b 0 True False \<noteq> []" by (simp add: encode_block_def)
  with 3 decode_collect [of "encode_block a b 0 True False" "[]" maxsize out "[]"] show ?case
    by (auto simp: encode_block_chars decode_encode_block emit_take take_Cons')
next
  case (4 a b c rest)
  have "encode_block a b c True True \<noteq> []" by (simp add: encode_block_def)
  with 4 decode_collect [of "encode_block a b c True True" "[]" maxsize out "b64 rest"] show ?case
    by (auto simp: encode_block_chars emit_take decode_encode_block take_Cons')
qed

lemma decode_skips: "decode_loop maxsize from out (filter (\<lambda>c. is_base64 c = SUCCEED) s) = decode_loop maxsize from out s"
proof (induction s arbitrary: "from" out)
  case (Cons c s)
  have "is_base64 c = SUCCEED \<or> is_base64 c = FAIL" by (simp add: is_base64_def)
  with Cons show ?case by (auto split: prod.split)
qed simp

section \<open>The dynamic encoder\<close>

lemma encode_blocks_spec:
  assumes "c = 3 * q" "4 * q \<le> ZBX_MAX_B64_LEN - 1" "0 < q"
  shows "k * c \<le> length pc \<Longrightarrow> r + k * (4 * q) + 1 \<le> length buf \<Longrightarrow>
    \<exists>buf'. encode_blocks k c (4 * q) pc buf r = Inr (drop (k * c) pc, buf', r + k * (4 * q)) \<and> length buf' = length buf
      \<and> take (r + k * (4 * q)) buf' = take r buf @ map Some (b64 (take (k * c) pc))"
proof (induction k arbitrary: pc buf r)
  case 0
  then show ?case by simp
next
  case (Suc k)
  let ?x = "take c pc"
  have lx: "length ?x = 3 * q" using Suc.prems assms(1) by simp
  have lb: "length (b64 ?x) = 4 * q" unfolding length_b64 lx by simp
  have e: "str_base64_encode ?x = b64 ?x @ [0]"
    using lx assms lb by (auto simp: str_base64_encode_def encode_loop_b64)
  let ?buf = "take r buf @ map Some (b64 ?x @ [0]) @ drop (r + (4 * q + 1)) buf"
  have w: "write_at buf r (str_base64_encode ?x) = Inr ?buf" using Suc.prems lb unfolding e by (simp add: write_at_def)
  have l: "length ?buf = length buf" "r + 4 * q + k * (4 * q) + 1 \<le> length ?buf" using Suc.prems lb by auto
  have d: "k * c \<le> length (drop c pc)" using Suc.prems by simp
  obtain buf' where b': "encode_blocks k c (4 * q) (drop c pc) ?buf (r + 4 * q) = Inr (drop (k * c) (drop c pc), buf', r + 4 * q + k * (4 * q))"
    "length buf' = length ?buf"
    "take (r + 4 * q + k * (4 * q)) buf' = take (r + 4 * q) ?buf @ map Some (b64 (take (k * c) (drop c pc)))"
    using Suc.IH [OF d l(2)] by blast
  have "take (r + 4 * q) ?buf = take r buf @ map Some (b64 ?x)" using Suc.prems lb by simp
  moreover have "b64 (take (Suc k * c) pc) = b64 ?x @ b64 (take (k * c) (drop c pc))"
  proof -
    have "take (Suc k * c) pc = ?x @ take (k * c) (drop c pc)" by (simp add: take_add)
    then show ?thesis using lx by (simp add: b64_append)
  qed
  ultimately show ?case using b' w l(1) by (simp add: add.assoc add.commute [of "k * c"])
qed

lemma encode_dyn_b64: "str_base64_encode_dyn xs = Inr (map Some (b64 xs @ [0]))"
proof -
  let ?n = "length xs" and ?k = "length xs div 12285" and ?l = "length xs mod 12285"
  let ?N = "(length xs + 2) div 3 * 4 + 1"
  have n: "?n = ?k * 12285 + ?l" by simp
  have "(?k * 4095 * 3 + (?l + 2)) div 3 = ?k * 4095 + (?l + 2) div 3" by (rule div_mult_self3) simp
  moreover have "?k * 4095 * 3 + (?l + 2) = ?n + 2" by (subst n) simp
  ultimately have N: "?N = ?k * 16380 + (?l + 2) div 3 * 4 + 1" by simp
  obtain buf where buf: "encode_blocks ?k 12285 16380 xs (replicate ?N None) 0 = Inr (drop (?k * 12285) xs, buf, ?k * 16380)"
    "length buf = ?N" "take (?k * 16380) buf = map Some (b64 (take (?k * 12285) xs))"
    using encode_blocks_spec [of 12285 4095 ?k xs 0 "replicate ?N None"] N by (auto simp: ZBX_MAX_B64_LEN_def)
  let ?d = "drop (?k * 12285) xs"
  have ld: "length ?d = ?l" using n by (simp add: minus_mult_div_eq_mod [symmetric] mult.commute)
  have "length (take (?k * 12285) xs) = 3 * (?k * 4095)" 
    unfolding length_take using n by (subst min_absorb2) linarith+
  then have b: "b64 xs = b64 (take (?k * 12285) xs) @ b64 ?d"
    using b64_append [of "take (?k * 12285) xs" ?d] by simp
  have lb: "length (b64 ?d) = (?l + 2) div 3 * 4" unfolding length_b64 ld ..
  have c: "(ZBX_MAX_B64_LEN - 1) div 4 * 3 = 12285" by (simp add: ZBX_MAX_B64_LEN_def)
  have q: "12285 div 3 * 4 = (16380 :: nat)" by simp
  have e: "str_base64_encode_dyn xs = (if ?l \<noteq> 0 then
      bind_result (write_at buf (?k * 16380) (str_base64_encode (take ?l ?d))) (\<lambda>buf. write_at buf (?k * 16380 + (?l + 2) div 3 * 4) [0])
      else write_at buf (?k * 16380) [0])"
    unfolding str_base64_encode_dyn_def Let_def c q buf(1) by simp
  show ?thesis
  proof (cases "?l = 0")
    case True
    then have "?d = []" using ld by (metis length_0_conv)
    moreover have "(?l + 2) div 3 * 4 = 0" using True by simp
    ultimately show ?thesis unfolding e using True buf(2,3) N b by (simp add: write_at_def)
  next
    case False
    have "?l < 12285" by simp
    then have "(?l + 2) div 3 \<le> 12286 div 3" by (intro div_le_mono) linarith
    then have "(?l + 2) div 3 * 4 \<le> 16380" by simp
    then have "str_base64_encode (take ?l ?d) = b64 ?d @ [0]"
      using False ld lb by (auto simp: str_base64_encode_def encode_loop_b64 ZBX_MAX_B64_LEN_def)
    moreover have "write_at buf (?k * 16380) (b64 ?d @ [0]) = Inr (map Some (b64 xs @ [0]))"
      using buf(2,3) N b lb by (simp add: write_at_def)
    moreover have "length (b64 xs) = ?k * 16380 + (?l + 2) div 3 * 4" using N unfolding length_b64 by linarith
    ultimately show ?thesis unfolding e using False by (simp add: write_at_def)
  qed
qed

section \<open>Properties\<close>

text \<open>
  C17. Every byte string survives base64: the dynamic encoder fills its buffer exactly, without writing
  past it, with a NUL-terminated text of base64 characters, and decoding that text returns the bytes,
  up to the size of the output buffer; characters outside the alphabet in between are skipped.
\<close>

theorem base64_roundtrip:
  "\<exists>text. str_base64_encode_dyn bytes = Inr (map Some (text @ [0])) \<and> 0 \<notin> set text
    \<and> str_base64_decode text (int (Suc m)) = Inr (take (Suc m) bytes)
    \<and> str_base64_decode junk maxsize = str_base64_decode (filter (\<lambda>c. is_base64 c = SUCCEED) junk) maxsize"
proof -
  have "0 \<notin> set (b64 bytes)" using b64_chars by blast
  moreover have "str_base64_decode (b64 bytes) (int (Suc m)) = Inr (take (Suc m) bytes)"
    using decode_b64 [of "[]" "Suc m" bytes] unfolding str_base64_decode_def nat_int by simp
  ultimately show ?thesis using encode_dyn_b64 [of bytes] by (auto simp: str_base64_decode_def decode_skips)
qed

end
