(* ===== verification/Serialize.thy ===== *)
theory Serialize
  imports Prelude
begin

text \<open>
  \<open>src/libs/zbxserialize/serialize.c\<close>: the compact form of 31-bit numbers in the messages between the
  processes, a byte sequence like UTF-8.  The output is the list of bytes written, the input the rest of
  the byte stream; reading past its end and running off the scratch array are errors.
\<close>

section \<open>Operations\<close>

text \<open>
  The loop over the scratch array \<open>buf\<close> of six bytes, filled from its end: \<open>bytes\<close> are the cells behind
  \<open>pos\<close>.
\<close>

fun serialize_loop :: "nat \<Rightarrow> u32 \<Rightarrow> u8 list \<Rightarrow> u8 list result" where
  "serialize_loop pos val bytes =
     (if val > drop_bit (6 - pos) 0x7f then
        (let bytes = ucast (0x80 OR (val AND 0x3f)) # bytes; val = drop_bit 6 val
         in case pos of 0 \<Rightarrow> Inl BadIndex | Suc pos \<Rightarrow> serialize_loop pos val bytes)
      else Inr (ucast (val OR push_bit (pos + 1) 0xfe) # bytes))"

declare serialize_loop.simps [simp del]

definition zbx_serialize_uint31_compact :: "u32 \<Rightarrow> u8 list result" where
  "zbx_serialize_uint31_compact val = (if 0x7f \<ge> val then Inr [ucast val] else serialize_loop 5 val [])"

lemma bit_0x80: "bit (0x80 :: u8) k \<longleftrightarrow> k = 7"
proof (cases "k < 8")
  case True
  then consider "k = 0" | "k = 1" | "k = 2" | "k = 3" | "k = 4" | "k = 5" | "k = 6" | "k = 7" by linarith
  then show ?thesis by cases simp_all
next
  case False
  then show ?thesis by (auto simp: impossible_bit)
qed

lemma drop_bit_0x80: "drop_bit pos (0x80 :: u8) = (if pos < 8 then 2 ^ (7 - pos) else 0)"
  by (rule bit_word_eqI) (simp only: bit_drop_bit_eq comp_def bit_0x80, auto simp: bit_simps)

function header_len :: "u8 \<Rightarrow> nat \<Rightarrow> nat" where
  "header_len h pos = (if h AND drop_bit pos 0x80 \<noteq> 0 then header_len h (pos + 1) else pos)"
  by auto
termination by (relation "measure (\<lambda>(h, pos). 8 - pos)") (auto simp: drop_bit_0x80 split: if_splits)

declare header_len.simps [simp del]

fun read_tail :: "nat \<Rightarrow> u32 \<Rightarrow> u8 list \<Rightarrow> u32 result" where
  "read_tail 0 val bs = Inr val"
| "read_tail (Suc n) val [] = Inl BadIndex"
| "read_tail (Suc n) val (b # bs) = read_tail n (push_bit 6 val OR ucast (b AND 0x3f)) bs"

definition zbx_deserialize_uint31_compact :: "u8 list \<Rightarrow> (u32 \<times> nat) result" where
  "zbx_deserialize_uint31_compact ptr =
     (case ptr of
        [] \<Rightarrow> Inl BadIndex
      | h # bs \<Rightarrow>
          (if h AND 0x80 = 0 then Inr (ucast h, 1)
           else (let pos = header_len h 2
                 in bind_result (read_tail (pos - 1) (ucast (h AND drop_bit (pos + 1) 0xff)) bs) (\<lambda>val. Inr (val, pos)))))"

section \<open>Bits of the bytes\<close>

lemma below_bit: "v < 2 ^ n \<Longrightarrow> n \<le> k \<Longrightarrow> \<not> bit v k" for v :: u32
  using less_mask_eq [of v n] by (metis bit_and_iff bit_mask_iff not_less)

lemma header_len_step: "header_len h pos = (if pos < 8 \<and> bit h (7 - pos) then header_len h (pos + 1) else pos)"
  by (subst header_len.simps) (simp add: drop_bit_0x80 and_exp_eq_0_iff_not_bit)

lemmas serialize_unroll = serialize_loop.simps [of 5] serialize_loop.simps [of 4] serialize_loop.simps [of 3]
  serialize_loop.simps [of 2] serialize_loop.simps [of 1] serialize_loop.simps [of 0]

lemma u32_bitI:
  assumes "\<And>n. n < 32 \<Longrightarrow> bit v n \<longleftrightarrow> bit w n"
  shows "v = (w :: u32)"
  by (rule bit_word_eqI) (use assms in simp)

text \<open>The bytes of a number with \<open>k\<close> bytes after the first.\<close>

definition utf_tail :: "nat \<Rightarrow> u32 \<Rightarrow> u8 list" where
  "utf_tail k v = map (\<lambda>i. ucast (0x80 OR (drop_bit (6 * i) v AND 0x3f))) (rev [0..<k])"

lemma utf_tail_Suc: "utf_tail (Suc k) v = ucast (0x80 OR (drop_bit (6 * k) v AND 0x3f)) # utf_tail k v"
  by (simp add: utf_tail_def)

lemma low6: "ucast (ucast (0x80 OR (x AND 0x3f)) AND (0x3f :: u8)) = take_bit 6 x" for x :: u32
proof -
  have "(0x3f :: u8) = mask 6" "(0x3f :: u32) = mask 6" by (simp_all add: mask_numeral)
  then have "ucast (ucast (0x80 OR (x AND 0x3f)) AND (0x3f :: u8)) = (ucast (take_bit 6 (ucast (0x80 OR take_bit 6 x) :: u8)) :: u32)"
    by (simp only: take_bit_eq_mask)
  also have "\<dots> = take_bit 6 x"
  proof (rule u32_bitI)
    fix n :: nat
    consider "n = 0" | "n = 1" | "n = 2" | "n = 3" | "n = 4" | "n = 5" | "6 \<le> n" by linarith
    then show "bit (ucast (take_bit 6 (ucast (0x80 OR take_bit 6 x) :: u8)) :: u32) n = bit (take_bit 6 x) n"
      by cases (simp_all add: bit_simps)
  qed
  finally show ?thesis .
qed

lemma read_tail_utf:
  "read_tail k w (utf_tail k v @ rest) = Inr (push_bit (6 * k) w OR take_bit (6 * k) v)"
proof (induction k arbitrary: w)
  case 0
  then show ?case by (simp add: utf_tail_def)
next
  case (Suc k)
  have "push_bit (6 * k) (push_bit 6 w OR take_bit 6 (drop_bit (6 * k) v)) OR take_bit (6 * k) v
      = push_bit (6 * Suc k) w OR take_bit (6 * Suc k) v"
    by (rule u32_bitI) (auto simp: bit_simps add.commute)
  with Suc show ?case by (simp add: utf_tail_Suc low6)
qed

text \<open>The first byte: its upper bits tell the number of bytes, its lower bits are the upper bits of the number.\<close>

lemma header:
  fixes x :: u32
  assumes "x < 2 ^ (6 - k)" "1 \<le> k" "k \<le> 5"
  defines "h \<equiv> ucast (x OR push_bit (6 - k) 0xfe) :: u8"
  shows "h AND 0x80 \<noteq> 0" "header_len h 2 = Suc k" "ucast (h AND drop_bit (k + 2) 0xff) = x"
proof -
  have "(0xfe :: u32) = push_bit 1 (mask 7)" by (simp add: mask_numeral)
  then have fe: "bit (0xfe :: u32) j \<longleftrightarrow> 1 \<le> j \<and> j < 8" for j
    by (simp only: bit_push_bit_iff bit_mask_iff) auto
  have "(0xff :: u8) = mask 8" by (simp add: mask_numeral)
  then have ff: "bit (0xff :: u8) j \<longleftrightarrow> j < 8" for j by (simp only: bit_mask_iff) auto
  have b: "bit h j \<longleftrightarrow> j < 8 \<and> (bit x j \<or> 7 - k \<le> j)" for j
    unfolding h_def bit_unsigned_iff bit_or_iff bit_push_bit_iff fe using assms(2,3) by auto
  have z: "\<not> bit x j" if "6 - k \<le> j" for j using below_bit assms(1) that by blast
  show "h AND 0x80 \<noteq> 0" using and_exp_eq_0_iff_not_bit [of h 7] b [of 7] assms(2) by simp
  have hb: "bit h (7 - pos) \<longleftrightarrow> pos \<le> k" if "pos < 8" "2 \<le> pos" "pos \<le> Suc k" for pos
    using that b z assms(2,3) by auto
  have "header_len h pos = Suc k" if "2 \<le> pos" "pos \<le> Suc k" for pos
    using that
  proof (induction "Suc k - pos" arbitrary: pos)
    case 0
    then show ?case using hb [of pos] assms(3) by (subst header_len_step) simp
  next
    case (Suc n)
    then show ?case using hb [of pos] assms(3) by (subst header_len_step) simp
  qed
  then show "header_len h 2 = Suc k" using assms(2) by simp
  show "ucast (h AND drop_bit (k + 2) 0xff) = x"
  proof (rule u32_bitI)
    fix n :: nat
    show "bit (ucast (h AND drop_bit (k + 2) 0xff) :: u32) n = bit x n"
      unfolding bit_unsigned_iff bit_and_iff bit_drop_bit_eq comp_def ff b
      using z [of n] assms(2,3) by (cases "6 - k \<le> n") (auto simp: not_le)
  qed
qed

lemma threshold: "j \<le> 5 \<Longrightarrow> x \<le> drop_bit (j + 1) 0x7f \<longleftrightarrow> x < 2 ^ (6 - j)" for x :: u32
proof -
  assume "j \<le> 5"
  then consider "j = 0" | "j = 1" | "j = 2" | "j = 3" | "j = 4" | "j = 5" by linarith
  then show ?thesis by cases (auto simp: word_le_nat_alt word_less_nat_alt)
qed

lemma serialize_loop_utf:
  assumes "v < 2 ^ 31"
  shows "j \<le> 5 \<Longrightarrow> \<exists>k. j \<le> k \<and> k \<le> 5 \<and> (drop_bit (6 * j) v < 2 ^ (6 - j) \<or> j < k) \<and> drop_bit (6 * k) v < 2 ^ (6 - k)
    \<and> serialize_loop (5 - j) (drop_bit (6 * j) v) (utf_tail j v) = Inr (ucast (drop_bit (6 * k) v OR push_bit (6 - k) 0xfe) # utf_tail k v)"
proof (induction "5 - j" arbitrary: j)
  case 0
  then have j: "j = 5" by simp
  have "drop_bit 30 v < 2"
  proof -
    have "unat v div 2 ^ 30 < 2" using assms by (simp add: word_less_nat_alt less_mult_imp_div_less)
    then have "drop_bit 30 (unat v) < 2" by (simp add: drop_bit_eq_div)
    then show ?thesis unfolding word_less_nat_alt unat_drop_bit_eq by simp
  qed
  with j threshold [of 5 "drop_bit 30 v"] show ?case
    by (intro exI [of _ 5]) (simp add: serialize_loop.simps not_less)
next
  case (Suc n)
  then have j: "j \<le> 4" "n = 5 - Suc j" by simp_all
  show ?case
  proof (cases "drop_bit (6 * j) v < 2 ^ (6 - j)")
    case True
    then have "\<not> drop_bit (6 * j) v > drop_bit (6 - (5 - j)) 0x7f" using threshold [of j] j by (simp add: not_less Suc_diff_le)
    moreover have "5 - j + 1 = 6 - j" using j by simp
    ultimately have "serialize_loop (5 - j) (drop_bit (6 * j) v) (utf_tail j v) = Inr (ucast (drop_bit (6 * j) v OR push_bit (6 - j) 0xfe) # utf_tail j v)"
      by (subst serialize_loop.simps) (simp only: if_False)
    then show ?thesis using True j by (intro exI [of _ j]) simp
  next
    case False
    then have c: "drop_bit (6 * j) v > drop_bit (6 - (5 - j)) 0x7f" using threshold [of j] j by (simp add: not_le [symmetric] Suc_diff_le)
    have "5 - j = Suc (5 - Suc j)" using j by simp
    then have e: "serialize_loop (5 - j) (drop_bit (6 * j) v) (utf_tail j v) = serialize_loop (5 - Suc j) (drop_bit (6 * Suc j) v) (utf_tail (Suc j) v)"
      using c by (subst serialize_loop.simps) (simp add: utf_tail_Suc add.commute)
    obtain k where "Suc j \<le> k" "k \<le> 5" "drop_bit (6 * k) v < 2 ^ (6 - k)"
      "serialize_loop (5 - Suc j) (drop_bit (6 * Suc j) v) (utf_tail (Suc j) v) = Inr (ucast (drop_bit (6 * k) v OR push_bit (6 - k) 0xfe) # utf_tail k v)"
      using Suc.hyps(1) [OF j(2)] j(1) by auto
    with e show ?thesis by (intro exI [of _ k]) auto
  qed
qed

section \<open>Properties\<close>

text \<open>
  C33. Every 31-bit number survives serialization: it takes one to six bytes, and reading the number from
  any stream that starts with them returns it together with the number of bytes.
\<close>

theorem serialize_roundtrip:
  assumes "v < 2 ^ 31"
  shows "\<exists>bytes. zbx_serialize_uint31_compact v = Inr bytes \<and> 1 \<le> length bytes \<and> length bytes \<le> 6
    \<and> zbx_deserialize_uint31_compact (bytes @ rest) = Inr (v, length bytes)"
proof (cases "v \<le> 0x7f")
  case True
  then have l: "v < 2 ^ 7" using order.strict_trans1 by fastforce
  have "bit (ucast v :: u8) j \<longleftrightarrow> bit v j" for j
    using below_bit [OF l, of j] by (cases "j < 7") (auto simp: bit_simps)
  then have "ucast v AND (0x80 :: u8) = 0" "ucast (ucast v :: u8) = v"
    using and_exp_eq_0_iff_not_bit [of "ucast v :: u8" 7] below_bit [OF l, of 7]
    by (simp, intro u32_bitI) (simp add: bit_unsigned_iff)
  with True show ?thesis by (simp add: zbx_serialize_uint31_compact_def zbx_deserialize_uint31_compact_def)
next
  case False
  from serialize_loop_utf [OF assms, of 0] obtain k where k: "k \<le> 5" "v < 2 ^ 6 \<or> 0 < k" "drop_bit (6 * k) v < 2 ^ (6 - k)"
    "serialize_loop 5 v [] = Inr (ucast (drop_bit (6 * k) v OR push_bit (6 - k) 0xfe) # utf_tail k v)"
    by (auto simp: utf_tail_def)
  have "\<not> v < 2 ^ 6"
  proof
    assume "v < 2 ^ 6"
    then have "v \<le> 0x7f" by (simp add: word_less_nat_alt word_le_nat_alt)
    with False show False by simp
  qed
  with k have k1: "1 \<le> k" by auto
  note h = header [OF k(3) k1 k(1)]
  have "push_bit (6 * k) (drop_bit (6 * k) v) OR take_bit (6 * k) v = v" by (rule u32_bitI) (auto simp: bit_simps)
  then have "zbx_deserialize_uint31_compact ((ucast (drop_bit (6 * k) v OR push_bit (6 - k) 0xfe) # utf_tail k v) @ rest) = Inr (v, Suc k)"
    using h read_tail_utf [of k "drop_bit (6 * k) v" v rest] by (simp add: zbx_deserialize_uint31_compact_def Let_def del: read_tail.simps)
  moreover have "length (utf_tail k v) = k" by (simp add: utf_tail_def)
  ultimately show ?thesis using k False by (simp add: zbx_serialize_uint31_compact_def)
qed

theorem serialize_roundtrip_witness:
  "\<exists>bytes. zbx_serialize_uint31_compact 300 = Inr bytes \<and> zbx_deserialize_uint31_compact (bytes @ [7]) = Inr (300, length bytes)"
  using serialize_roundtrip [of 300 "[7]"] by auto

text \<open>
  A number that needs its 32nd bit does not fit: the loop leaves the scratch array instead of
  reporting an error.
\<close>

theorem serialize_32_bits:
  assumes "2 ^ 31 \<le> v"
  shows "zbx_serialize_uint31_compact v = Inl BadIndex"
proof -
  have v: "2147483648 \<le> unat v" using assms by (simp add: word_le_nat_alt)
  have c: "drop_bit (6 * j) v > drop_bit (j + 1) 0x7f" if "j \<le> 5" for j
  proof -
    have "2 ^ (6 - j) \<le> unat v div 2 ^ (6 * j)"
    proof -
      have "(2 :: nat) ^ (6 - j + 6 * j) \<le> 2 ^ 31" using that by (intro power_increasing) simp_all
      also have "\<dots> \<le> unat v" using v by simp
      finally show ?thesis by (simp only: less_eq_div_iff_mult_less_eq power_add zero_less_power zero_less_numeral)
    qed
    then have "2 ^ (6 - j) \<le> drop_bit (6 * j) (unat v)" by (simp add: drop_bit_eq_div)
    moreover have "unat ((2 :: u32) ^ (6 - j)) = 2 ^ (6 - j)"
    proof -
      have "j = 0 \<or> j = 1 \<or> j = 2 \<or> j = 3 \<or> j = 4 \<or> j = 5" using that by linarith
      then show ?thesis by (elim disjE) simp_all
    qed
    ultimately have "\<not> drop_bit (6 * j) v < 2 ^ (6 - j)" unfolding word_less_nat_alt unat_drop_bit_eq by simp
    then show ?thesis using threshold [OF that] by (simp add: not_le [symmetric])
  qed
  have r: "serialize_loop (5 - j) (drop_bit (6 * j) v) bytes = Inl BadIndex" if "j \<le> 5" for j bytes
    using that
  proof (induction "5 - j" arbitrary: j bytes)
    case 0
    then show ?case using c [of 5] by (simp add: serialize_loop.simps)
  next
    case (Suc n)
    then have j: "j \<le> 4" "n = 5 - Suc j" "5 - j = Suc (5 - Suc j)" "6 - (5 - j) = j + 1" by simp_all
    then show ?case using Suc.hyps(1) [of "Suc j"] c [of j] by (subst serialize_loop.simps) (simp add: add.commute Let_def)
  qed
  have "\<not> v \<le> 0x7f" using v by (simp add: word_le_nat_alt)
  then show ?thesis using r [of 0] by (simp add: zbx_serialize_uint31_compact_def)
qed

theorem serialize_32_bits_witness: "zbx_serialize_uint31_compact 0x80000000 = Inl BadIndex"
  using serialize_32_bits [of "0x80000000"] by simp

end
