(* ===== verification/Int128.thy ===== *)
theory Int128
  imports Prelude
begin

text \<open>
  \<open>src/libs/zbxalgo/int128.c\<close>: 128-bit arithmetic on two 64-bit words, under the sums and averages of
  the history statistics.  A number is a record of its high and low word, every step wraps as on
  \<open>zbx_uint64_t\<close>, and \<open>val128\<close> is the number it stands for.
\<close>

section \<open>Operations\<close>

record zbx_uint128 =
  hi :: u64
  lo :: u64

definition udec128_128 :: "zbx_uint128 \<Rightarrow> zbx_uint128 \<Rightarrow> zbx_uint128" where
  "udec128_128 base v =
     (let low = lo base; base = base\<lparr>lo := lo base - lo v\<rparr>;
          base = (if low < lo base then base\<lparr>hi := hi base - 1\<rparr> else base)
      in base\<lparr>hi := hi base - hi v\<rparr>)"

definition ushiftr128 :: "zbx_uint128 \<Rightarrow> nat \<Rightarrow> zbx_uint128" where
  "ushiftr128 base bits =
     (if bits = 0 then base
      else if 64 \<le> bits then base\<lparr>lo := drop_bit (bits - 64) (hi base), hi := 0\<rparr>
      else \<lparr>hi = drop_bit bits (hi base), lo = drop_bit bits (lo base) OR push_bit (64 - bits) (hi base)\<rparr>)"

definition ushiftl128 :: "zbx_uint128 \<Rightarrow> nat \<Rightarrow> zbx_uint128" where
  "ushiftl128 base bits =
     (if bits = 0 then base
      else if 64 \<le> bits then base\<lparr>hi := push_bit (bits - 64) (lo base), lo := 0\<rparr>
      else \<lparr>hi = push_bit bits (hi base) OR drop_bit (64 - bits) (lo base), lo = push_bit bits (lo base)\<rparr>)"

definition ucmp128_128 :: "zbx_uint128 \<Rightarrow> zbx_uint128 \<Rightarrow> int" where
  "ucmp128_128 v1 v2 =
     (if hi v1 \<noteq> hi v2 then (if hi v1 < hi v2 then -1 else 1)
      else if lo v1 = lo v2 then 0
      else if lo v1 < lo v2 then -1 else 1)"

definition zbx_uinc128_64 :: "zbx_uint128 \<Rightarrow> u64 \<Rightarrow> zbx_uint128" where
  "zbx_uinc128_64 base v =
     (let low = lo base; base = base\<lparr>lo := lo base + v\<rparr>
      in if low > lo base then base\<lparr>hi := hi base + 1\<rparr> else base)"

definition zbx_uinc128_128 :: "zbx_uint128 \<Rightarrow> zbx_uint128 \<Rightarrow> zbx_uint128" where
  "zbx_uinc128_128 base v =
     (let low = lo base; base = base\<lparr>lo := lo base + lo v\<rparr>;
          base = (if low > lo base then base\<lparr>hi := hi base + 1\<rparr> else base)
      in base\<lparr>hi := hi base + hi v\<rparr>)"

definition umul64_32_shift :: "zbx_uint128 \<Rightarrow> u64 \<Rightarrow> u64 \<Rightarrow> nat \<Rightarrow> zbx_uint128" where
  "umul64_32_shift base v factor shift =
     (let buffer = ushiftl128 \<lparr>hi = 0, lo = (v AND mask 32) * factor\<rparr> shift;
          base = zbx_uinc128_128 base buffer;
          buffer = ushiftl128 \<lparr>hi = 0, lo = drop_bit 32 v * factor\<rparr> (32 + shift)
      in zbx_uinc128_128 base buffer)"

definition zbx_umul64_64 :: "u64 \<Rightarrow> u64 \<Rightarrow> zbx_uint128" where
  "zbx_umul64_64 v factor =
     (let r = umul64_32_shift \<lparr>hi = 0, lo = 0\<rparr> v (factor AND mask 32) 0
      in umul64_32_shift r v (drop_bit 32 factor) 32)"

text \<open>
  The two loops of the division.  The inner one shifts the divisor until it is not above the remainder;
  \<open>None\<close> is a loop that outlasts its fuel.
\<close>

fun shift_divisor :: "nat \<Rightarrow> zbx_uint128 \<Rightarrow> zbx_uint128 \<Rightarrow> u64 \<Rightarrow> (zbx_uint128 \<times> u64) option" where
  "shift_divisor 0 reminder divisor result_mask = None"
| "shift_divisor (Suc fuel) reminder divisor result_mask =
     (if ucmp128_128 reminder divisor < 0 then shift_divisor fuel reminder (ushiftr128 divisor 1) (drop_bit 1 result_mask)
      else Some (divisor, result_mask))"

fun divide_loop :: "nat \<Rightarrow> zbx_uint128 \<Rightarrow> zbx_uint128 \<Rightarrow> u64 \<Rightarrow> u64 \<Rightarrow> (zbx_uint128 \<times> u64) option" where
  "divide_loop 0 reminder divisor result_mask result_lo = None"
| "divide_loop (Suc fuel) reminder divisor result_mask result_lo =
     (if hi reminder \<noteq> 0 then
        (case shift_divisor (Suc fuel) reminder divisor result_mask of
           None \<Rightarrow> None
         | Some (divisor, result_mask) \<Rightarrow>
             divide_loop fuel (udec128_128 reminder divisor) divisor result_mask (result_lo OR result_mask))
      else Some (reminder, result_lo))"

text \<open>A division by zero ends the process; fuel for the bits of the quotient is enough.\<close>

definition zbx_udiv128_64 :: "zbx_uint128 \<Rightarrow> u64 \<Rightarrow> zbx_uint128 option result" where
  "zbx_udiv128_64 dividend v =
     (if v = 0 then Inl ExitFailure
      else if hi dividend = 0 then Inr (Some \<lparr>hi = 0, lo = lo dividend div v\<rparr>)
      else
        (let (result_hi, reminder) =
               (if hi dividend \<ge> v then (hi dividend div v, dividend\<lparr>hi := hi dividend - (hi dividend div v) * v\<rparr>)
                else (0, dividend));
             divisor = ushiftr128 \<lparr>hi = v, lo = 0\<rparr> 1
         in (case divide_loop 66 reminder divisor (push_bit 63 1) 0 of
               None \<Rightarrow> Inr None
             | Some (reminder, result_lo) \<Rightarrow> Inr (Some \<lparr>hi = result_hi, lo = result_lo OR (lo reminder div v)\<rparr>))))"

section \<open>The numbers\<close>

definition val128 :: "zbx_uint128 \<Rightarrow> nat" where
  "val128 a = unat (hi a) * 2 ^ 64 + unat (lo a)"

lemma unat_u64: "unat x < 2 ^ 64" for x :: u64
  using unsigned_less [of x, where ?'a = nat] by simp

lemma val128_less: "val128 a < 2 ^ 128"
  using unat_u64 [of "hi a"] unat_u64 [of "lo a"] by (simp add: val128_def)

lemma ucmp_less: "ucmp128_128 a b < 0 \<longleftrightarrow> val128 a < val128 b"
proof (cases "hi a = hi b")
  case True
  then show ?thesis by (auto simp: ucmp128_128_def val128_def word_less_nat_alt)
next
  case False
  then have "unat (hi a) \<noteq> unat (hi b)" by (simp add: word_unat_eq_iff)
  then show ?thesis using False unat_u64 [of "lo a"] unat_u64 [of "lo b"] by (auto simp: ucmp128_128_def val128_def word_less_nat_alt)
qed

lemma len64: "LENGTH(64) = 64"
  by simp

lemma carry_nat: "(a + b) mod m + (if a > (a + b) mod m then m else 0) = a + b" if "a < m" "b < m" for a b m :: nat
proof (cases "a + b < m")
  case True
  then show ?thesis by simp
next
  case False
  then have "(a + b) mod m = a + b - m" using that by (simp add: le_mod_geq)
  then show ?thesis using that False by auto
qed

lemma carry: "unat (x + y) + (if x > x + y then 2 ^ 64 else 0) = unat x + unat y" for x y :: u64
  using carry_nat [OF unat_u64 unat_u64, of x y] unfolding word_less_nat_alt unat_word_ariths(1) by simp

lemma mod_split: "x mod m * m + r = (x * m + r) mod (m * m)" if "r < m" for x m r :: nat
proof -
  have "(x * m + r) mod (m * m) = m * ((x * m + r) div m mod m) + (x * m + r) mod m" by (rule mod_mult2_eq)
  with that show ?thesis by simp
qed

lemma two_64: "(2 :: nat) ^ 64 * 2 ^ 64 = 2 ^ 128"
  by simp

lemma val128_split: "x mod 2 ^ 64 * 2 ^ 64 + unat r = (x * 2 ^ 64 + unat r) mod 2 ^ 128" for r :: u64
  using mod_split [OF unat_u64, of x r] unfolding two_64 .

lemma uinc128_128: "val128 (zbx_uinc128_128 a b) = (val128 a + val128 b) mod 2 ^ 128"
proof -
  define c where "c = (if lo a > lo a + lo b then 1 else 0 :: nat)"
  have l: "unat (lo a + lo b) + c * 2 ^ 64 = unat (lo a) + unat (lo b)" using carry [of "lo a" "lo b"] by (auto simp: c_def)
  have "val128 (zbx_uinc128_128 a b) = (unat (hi a) + unat (hi b) + c) mod 2 ^ 64 * 2 ^ 64 + unat (lo a + lo b)"
  proof -
    have "hi (zbx_uinc128_128 a b) = of_nat (unat (hi a) + unat (hi b) + c)" "lo (zbx_uinc128_128 a b) = lo a + lo b"
      by (simp_all add: zbx_uinc128_128_def c_def Let_def)
    then show ?thesis unfolding val128_def by (simp only: unat_of_nat len64)
  qed
  also have "\<dots> = ((unat (hi a) + unat (hi b) + c) * 2 ^ 64 + unat (lo a + lo b)) mod 2 ^ 128"
    by (rule val128_split)
  also have "(unat (hi a) + unat (hi b) + c) * 2 ^ 64 + unat (lo a + lo b) = val128 a + val128 b"
    using l by (simp add: val128_def algebra_simps)
  finally show ?thesis .
qed


lemma uinc128_64: "val128 (zbx_uinc128_64 a v) = (val128 a + unat v) mod 2 ^ 128"
proof -
  have "zbx_uinc128_64 a v = zbx_uinc128_128 a \<lparr>hi = 0, lo = v\<rparr>"
    by (simp add: zbx_uinc128_64_def zbx_uinc128_128_def Let_def)
  moreover have "val128 \<lparr>hi = 0, lo = v\<rparr> = unat v" by (simp add: val128_def)
  ultimately show ?thesis by (simp only: uinc128_128)
qed

lemma mod_sub: "(r + b) mod m = a \<Longrightarrow> r < m \<Longrightarrow> b < m \<Longrightarrow> b \<le> a \<Longrightarrow> r = a - b" for a b m r :: nat
  by (cases "r + b < m") (auto simp: le_mod_geq not_less)

lemma udec128_128:
  assumes "val128 b \<le> val128 a"
  shows "val128 (udec128_128 a b) = val128 a - val128 b"
proof -
  let ?r = "udec128_128 a b"
  have "zbx_uinc128_128 ?r b = a" by (simp add: udec128_128_def zbx_uinc128_128_def Let_def)
  then have "(val128 ?r + val128 b) mod 2 ^ 128 = val128 a" using uinc128_128 [of ?r b] by simp
  then show ?thesis using val128_less val128_less assms by (rule mod_sub)
qed

section \<open>Shifts\<close>

lemma or_disjoint: "unat (x OR y) = unat x + unat y" if "x AND y = 0" for x y :: u64
proof -
  have "unat x AND unat y = unat (x AND y)" by (simp only: unsigned_and_eq)
  then have "unat x + unat y = unat x OR unat y" using that by (intro disjunctive_add_eq_or) simp
  then show ?thesis by (simp only: unsigned_or_eq)
qed

lemma val_shiftl:
  assumes "s \<le> 64"
  shows "val128 (ushiftl128 \<lparr>hi = 0, lo = l\<rparr> s) = unat l * 2 ^ s"
proof -
  consider "s = 0" | "s = 64" | "0 < s" "s < 64" using assms by linarith
  then show ?thesis
  proof cases
    case 3
    have p: "(2 :: nat) ^ 64 = 2 ^ s * 2 ^ (64 - s)" using 3 by (simp flip: power_add)
    have "unat (push_bit s l) = (unat l * 2 ^ s) mod 2 ^ 64"
      unfolding unsigned_push_bit_eq len64 by (simp only: push_bit_eq_mult take_bit_eq_mod)
    moreover have "unat (drop_bit (64 - s) l) = (unat l * 2 ^ s) div 2 ^ 64"
      unfolding unat_drop_bit_eq unfolding drop_bit_eq_div p by (simp add: mult.commute)
    ultimately show ?thesis using 3 unfolding val128_def ushiftl128_def by (simp add: div_mult_mod_eq del: power_numeral)
  qed (simp_all add: ushiftl128_def val128_def)
qed

lemma val_shiftr1: "val128 (ushiftr128 a 1) = val128 a div 2"
proof -
  have "drop_bit 1 (lo a) AND push_bit 63 (hi a) = 0" by (rule bit_word_eqI) (auto simp: bit_simps dest: bit_imp_le_length)
  moreover have "unat (push_bit 63 (hi a)) = (unat (hi a) mod 2) * 2 ^ 63"
    unfolding unsigned_push_bit_eq len64
    using mult_mod_left [of "unat (hi a)" 2 "2 ^ 63"] by (simp add: push_bit_eq_mult take_bit_eq_mod)
  moreover have "unat (drop_bit 1 x) = unat x div 2" for x :: u64 unfolding unat_drop_bit_eq by (simp add: drop_bit_eq_div)
  ultimately have "val128 (ushiftr128 a 1) = unat (hi a) div 2 * 2 ^ 64 + (unat (lo a) div 2 + (unat (hi a) mod 2) * 2 ^ 63)"
    by (simp add: ushiftr128_def val128_def or_disjoint)
  then show ?thesis unfolding val128_def by (cases "even (unat (hi a))") (auto elim!: evenE oddE)
qed

section \<open>Multiplication\<close>

lemma unat_halves: "unat (v AND mask 32) = unat v mod 2 ^ 32" "unat (drop_bit 32 v) = unat v div 2 ^ 32" for v :: u64
proof -
  have "v AND mask 32 = take_bit 32 v" by (simp only: take_bit_eq_mask)
  then show "unat (v AND mask 32) = unat v mod 2 ^ 32" unfolding unsigned_take_bit_eq by (simp only: unsigned_take_bit_eq) (simp only: take_bit_eq_mod)
  show "unat (drop_bit 32 v) = unat v div 2 ^ 32" unfolding unat_drop_bit_eq by (simp only: drop_bit_eq_div)
qed

lemma unat_mul32:
  fixes x y :: u64
  assumes "unat x < 2 ^ 32" "unat y < 2 ^ 32"
  shows "unat (x * y) = unat x * unat y"
proof -
  have "unat x * unat y < 2 ^ 32 * 2 ^ 32" using assms by (rule mult_strict_mono) simp_all
  then show ?thesis by (simp add: unat_word_ariths)
qed

lemma umul64_32_shift:
  assumes "unat f < 2 ^ 32" "s \<le> 32"
  shows "val128 (umul64_32_shift base v f s) = (val128 base + unat v * unat f * 2 ^ s) mod 2 ^ 128"
proof -
  let ?l = "unat v mod 2 ^ 32" and ?h = "unat v div 2 ^ 32"
  have "?h < 2 ^ 32" using unat_u64 [of v] by (simp add: less_mult_imp_div_less)
  then have m: "unat ((v AND mask 32) * f) = ?l * unat f" "unat (drop_bit 32 v * f) = ?h * unat f"
    using assms(1) unat_mul32 [of "v AND mask 32" f] unat_mul32 [of "drop_bit 32 v" f] by (simp_all only: unat_halves mod_less_divisor zero_less_power zero_less_numeral)
  have "val128 (umul64_32_shift base v f s) = (val128 base + ?l * unat f * 2 ^ s + ?h * unat f * 2 ^ (32 + s)) mod 2 ^ 128"
    using assms(2) by (simp only: umul64_32_shift_def Let_def uinc128_128 val_shiftl m mod_add_left_eq)
  also have "val128 base + ?l * unat f * 2 ^ s + ?h * unat f * 2 ^ (32 + s) = val128 base + (?h * 2 ^ 32 + ?l) * unat f * 2 ^ s"
    by (simp only: power_add algebra_simps)
  also have "?h * 2 ^ 32 + ?l = unat v" by (rule div_mult_mod_eq)
  finally show ?thesis .
qed

lemma umul64_64: "val128 (zbx_umul64_64 v f) = unat v * unat f"
proof -
  let ?l = "unat f mod 2 ^ 32" and ?h = "unat f div 2 ^ 32"
  have f: "unat (f AND mask 32) < 2 ^ 32" "unat (drop_bit 32 f) < 2 ^ 32"
    using unat_u64 [of f] unfolding unat_halves by (simp_all add: less_mult_imp_div_less)
  have "val128 (zbx_umul64_64 v f) = (unat v * ?l * 2 ^ 0 + unat v * ?h * 2 ^ 32) mod 2 ^ 128"
    using umul64_32_shift [OF f(1), of 0] umul64_32_shift [OF f(2), of 32]
    by (simp only: zbx_umul64_64_def Let_def unat_halves mod_add_left_eq) (simp add: val128_def mod_simps)
  also have "unat v * ?l * 2 ^ 0 + unat v * ?h * 2 ^ 32 = unat v * (?h * 2 ^ 32 + ?l)" by (simp only: algebra_simps power_0)
  also have "?h * 2 ^ 32 + ?l = unat f" by (rule div_mult_mod_eq)
  also have "unat v * unat f < 2 ^ 64 * 2 ^ 64" using unat_u64 unat_u64 by (rule mult_strict_mono) simp_all
  then have "unat v * unat f mod 2 ^ 128 = unat v * unat f" unfolding two_64 by (rule mod_less)
  finally show ?thesis .
qed

section \<open>Division\<close>

lemma and_disjoint:
  fixes x y :: u64
  assumes "2 ^ t dvd unat x" "unat y < 2 ^ t"
  shows "x AND y = 0"
proof -
  obtain k where "unat x = push_bit t k" using assms(1) by (auto simp: dvd_def push_bit_eq_mult mult.commute)
  moreover have "unat y = take_bit t (unat y)" using assms(2) by (simp add: take_bit_nat_eq_self)
  ultimately have "unat x AND unat y = push_bit t k AND take_bit t (unat y)" by simp
  also have "\<dots> = 0" by (rule bit_eqI) (auto simp: bit_simps)
  finally show ?thesis by (simp only: unsigned_and_eq [symmetric] unsigned_eq_0_iff)
qed

lemma shift_divisor_spec:
  assumes "2 ^ 64 \<le> val128 r" "V < 2 ^ 64"
  shows "e \<le> 63 \<Longrightarrow> e < fuel \<Longrightarrow> val128 d = V * 2 ^ e \<Longrightarrow> unat m = 2 ^ e \<Longrightarrow> val128 r < V * 2 ^ Suc e \<Longrightarrow>
    \<exists>e' d' m'. shift_divisor fuel r d m = Some (d', m') \<and> e' \<le> e \<and> val128 d' = V * 2 ^ e' \<and> unat m' = 2 ^ e'
      \<and> V * 2 ^ e' \<le> val128 r \<and> val128 r < V * 2 ^ Suc e'"
proof (induction fuel arbitrary: d m e)
  case 0
  then show ?case by simp
next
  case (Suc fuel)
  show ?case
  proof (cases "val128 r < val128 d")
    case False
    then have "shift_divisor (Suc fuel) r d m = Some (d, m)" by (simp add: ucmp_less)
    with False Suc.prems show ?thesis by (intro exI [of _ e] exI [of _ d] exI [of _ m]) simp
  next
    case True
    have "e \<noteq> 0"
    proof
      assume "e = 0"
      with True Suc.prems(3) have "val128 r < V" by simp
      with assms show False by linarith
    qed
    then obtain e1 where e1: "e = Suc e1" by (cases e) auto
    have "val128 (ushiftr128 d 1) = V * 2 ^ e1" using Suc.prems(3) by (simp only: val_shiftr1 e1) simp
    moreover have "unat (drop_bit 1 m) = 2 ^ e1"
      using Suc.prems(4) unfolding unat_drop_bit_eq e1 by (simp add: drop_bit_eq_div)
    moreover have "val128 r < V * 2 ^ Suc e1" using True Suc.prems(3) e1 by simp
    moreover have "e1 \<le> 63" "e1 < fuel" using Suc.prems(1,2) e1 by simp_all
    ultimately obtain e' d' m' where "shift_divisor fuel r (ushiftr128 d 1) (drop_bit 1 m) = Some (d', m')" "e' \<le> e1"
      "val128 d' = V * 2 ^ e'" "unat m' = 2 ^ e'" "V * 2 ^ e' \<le> val128 r" "val128 r < V * 2 ^ Suc e'"
      using Suc.IH [of e1 "ushiftr128 d 1" "drop_bit 1 m"] by blast
    with True e1 show ?thesis by (intro exI [of _ e'] exI [of _ d'] exI [of _ m']) (simp add: ucmp_less)
  qed
qed

lemma divide_loop_spec:
  assumes "V < 2 ^ 64"
  shows "e \<le> 63 \<Longrightarrow> e \<le> t \<Longrightarrow> t \<le> Suc e \<Longrightarrow> t < fuel \<Longrightarrow> val128 d = V * 2 ^ e \<Longrightarrow> unat m = 2 ^ e \<Longrightarrow> val128 r < V * 2 ^ t \<Longrightarrow>
    2 ^ t dvd unat q \<Longrightarrow>
    \<exists>t' r' q'. divide_loop fuel r d m q = Some (r', q') \<and> hi r' = 0 \<and> val128 r' < V * 2 ^ t' \<and> 2 ^ t' dvd unat q'
      \<and> V * unat q + val128 r = V * unat q' + val128 r'"
proof (induction fuel arbitrary: r d m q e t)
  case 0
  then show ?case by simp
next
  case (Suc fuel)
  show ?case
  proof (cases "hi r = 0")
    case True
    with Suc.prems show ?thesis by (intro exI [of _ t] exI [of _ r] exI [of _ q]) simp
  next
    case False
    then have "0 < unat (hi r)" by (simp add: unat_gt_0)
    then have big: "2 ^ 64 \<le> val128 r" unfolding val128_def by (cases "unat (hi r)") simp_all
    have "val128 r < V * 2 ^ Suc e"
    proof -
      have "(2 :: nat) ^ t \<le> 2 ^ Suc e" using Suc.prems(3) by (intro power_increasing) simp_all
      then have "V * 2 ^ t \<le> V * 2 ^ Suc e" by (rule mult_le_mono2)
      with Suc.prems(7) show ?thesis by (rule order.strict_trans2)
    qed
    then obtain e' d' m' where s: "shift_divisor (Suc fuel) r d m = Some (d', m')" "e' \<le> e" "val128 d' = V * 2 ^ e'" "unat m' = 2 ^ e'"
      "V * 2 ^ e' \<le> val128 r" "val128 r < V * 2 ^ Suc e'"
      using shift_divisor_spec [OF big assms, of e "Suc fuel" d m] Suc.prems by auto
    have "V * 2 ^ e' < V * 2 ^ t" using s(5) Suc.prems(7) by linarith
    then have et: "e' < t" by (simp add: power_less_imp_less_exp)
    let ?r = "udec128_128 r d'" and ?q = "q OR m'"
    have vr: "val128 ?r = val128 r - V * 2 ^ e'" using s(3,5) udec128_128 [of d' r] by simp
    have "unat m' < 2 ^ t" unfolding s(4) using et by (intro power_strict_increasing) simp_all
    then have uq: "unat ?q = unat q + 2 ^ e'" using or_disjoint [OF and_disjoint [OF Suc.prems(8)]] s(4) by simp
    have "(2 :: nat) ^ e' dvd 2 ^ t" using et by (simp add: le_imp_power_dvd)
    then have "2 ^ e' dvd unat ?q" unfolding uq using Suc.prems(8) by (meson dvd_add dvd_refl dvd_trans)
    moreover have "val128 ?r < V * 2 ^ e'" using vr s(6) by simp
    ultimately obtain t' r' q' where "divide_loop fuel ?r d' m' ?q = Some (r', q')" "hi r' = 0" "val128 r' < V * 2 ^ t'"
      "2 ^ t' dvd unat q'" "V * unat ?q + val128 ?r = V * unat q' + val128 r'"
      using Suc.IH [of e' e' d' m' ?r ?q] s et Suc.prems(1,4) by auto
    with False s(1,5) vr uq show ?thesis
      by (intro exI [of _ t'] exI [of _ r'] exI [of _ q']) (simp add: algebra_simps)
  qed
qed

lemma udiv128_64:
  assumes "v \<noteq> 0"
  shows "\<exists>q. zbx_udiv128_64 d v = Inr (Some q) \<and> val128 q = val128 d div unat v"
proof (cases "hi d = 0")
  case True
  with assms show ?thesis by (simp add: zbx_udiv128_64_def val128_def unat_div)
next
  case False
  let ?V = "unat v" and ?h = "hi d div v"
  have V: "0 < ?V" "?V < 2 ^ 64" using assms unat_u64 by (simp_all add: unat_gt_0)
  define r where "r = (if hi d \<ge> v then d\<lparr>hi := hi d - ?h * v\<rparr> else d)"
  have uh: "unat ?h = unat (hi d) div ?V" by (simp add: unat_div)
  have hm: "unat (?h * v) = unat (hi d) div ?V * ?V"
  proof -
    have "unat (hi d) div ?V * ?V < 2 ^ 64"
      using unat_u64 [of "hi d"] div_times_less_eq_dividend [of "unat (hi d)" ?V] by (rule order.strict_trans1 [rotated])
    then show ?thesis unfolding unat_word_ariths(2) uh len64 by (rule mod_less)
  qed
  have hr: "unat (hi r) = unat (hi d) mod ?V"
  proof (cases "hi d \<ge> v")
    case True
    have "?h * v \<le> hi d" unfolding word_le_nat_alt hm by simp
    then have "unat (hi d - ?h * v) = unat (hi d) - unat (hi d) div ?V * ?V" unfolding hm [symmetric] by (rule unat_sub)
    then show ?thesis using True unfolding r_def by (simp only: minus_div_mult_eq_mod) simp
  next
    case False
    then show ?thesis unfolding r_def by (simp add: word_le_nat_alt not_le)
  qed
  have "lo r = lo d" by (simp add: r_def)
  then have split: "val128 d = unat (hi d) div ?V * ?V * 2 ^ 64 + val128 r"
    unfolding val128_def hr by (simp only: add.assoc [symmetric] add_mult_distrib [symmetric] div_mult_mod_eq)
  have "unat (hi r) + 1 \<le> ?V" using hr V by (simp add: Suc_leI)
  then have "(unat (hi r) + 1) * 2 ^ 64 \<le> ?V * 2 ^ 64" by (rule mult_le_mono1)
  then have rb: "val128 r < ?V * 2 ^ 64" using unat_u64 [of "lo r"] unfolding val128_def by (simp only: add_mult_distrib)
  have dv: "val128 (ushiftr128 \<lparr>hi = v, lo = 0\<rparr> 1) = ?V * 2 ^ 63" unfolding val_shiftr1 by (simp add: val128_def)
  have m: "unat (push_bit 63 1 :: u64) = 2 ^ 63" by simp
  obtain t' r' q where q: "divide_loop 66 r (ushiftr128 \<lparr>hi = v, lo = 0\<rparr> 1) (push_bit 63 1) 0 = Some (r', q)" "hi r' = 0"
    "val128 r' < ?V * 2 ^ t'" "2 ^ t' dvd unat q" "val128 r = ?V * unat q + val128 r'"
    using divide_loop_spec [OF V(2), of 63 64 66, OF _ _ _ _ dv m rb, of 0] by auto
  have lr: "val128 r' = unat (lo r')" using q(2) by (simp add: val128_def)
  then have "unat (lo r' div v) < 2 ^ t'" using q(3) by (simp add: unat_div less_mult_imp_div_less mult.commute)
  then have "unat (q OR (lo r' div v)) = unat q + val128 r' div ?V"
    using or_disjoint [OF and_disjoint [OF q(4)]] lr by (simp add: unat_div)
  also have "\<dots> = val128 r div ?V" using q(5) V by simp
  finally have "val128 \<lparr>hi = if hi d \<ge> v then ?h else 0, lo = q OR (lo r' div v)\<rparr> = unat (hi d) div ?V * 2 ^ 64 + val128 r div ?V"
    by (auto simp: val128_def uh word_le_nat_alt)
  also have "\<dots> = val128 d div ?V" unfolding split using V by (simp add: mult.assoc mult.left_commute)
  finally show ?thesis using assms False q(1) unfolding zbx_udiv128_64_def r_def by (auto simp: Let_def split: if_splits)
qed

section \<open>Properties\<close>

text \<open>
  Multiplying two 64-bit numbers gives their exact product, and the increments are addition modulo
  two to the power 128, the carry between the words included.
\<close>

theorem uint128_mul_inc:
  "val128 (zbx_umul64_64 v f) = unat v * unat f
   \<and> val128 (zbx_uinc128_64 a v) = (val128 a + unat v) mod 2 ^ 128
   \<and> val128 (zbx_uinc128_128 a b) = (val128 a + val128 b) mod 2 ^ 128"
  by (intro conjI umul64_64 uinc128_64 uinc128_128)

text \<open>
  C37. The shift-and-subtract division of a 128-bit number by a 64-bit one ends for every divisor but zero
  and gives the exact quotient; each of its loops runs at most once per bit of the quotient's low word.
\<close>

theorem uint128_div:
  assumes "v \<noteq> 0"
  shows "\<exists>q. zbx_udiv128_64 d v = Inr (Some q) \<and> val128 q = val128 d div unat v"
  using assms by (rule udiv128_64)

theorem uint128_div_witness:
  "\<exists>q. zbx_udiv128_64 \<lparr>hi = 5, lo = 7\<rparr> 3 = Inr (Some q) \<and> val128 q = (5 * 2 ^ 64 + 7) div 3"
  using uint128_div [of 3 "\<lparr>hi = 5, lo = 7\<rparr>"] by (simp add: val128_def)

end
