(* ===== verification/Poller_Sessions.thy ===== *)
theory Poller_Sessions
  imports Elems_Hash
begin

text \<open>
  \<open>src/zabbix_server/glb_poller/poller_sessions.c\<close> and \<open>poller_contention.c\<close>: the registers of the
  asynchronous poller, one of the requests in flight by their random id, one of the number of
  requests per polled resource.

  The clock and the values of \<open>rand()\<close> are arguments, the latter as the list of the coming ones.  The
  allocator hands out the addresses in order.
  The total of the contention register is an \<open>int\<close> in the code and unbounded here.
\<close>

section \<open>Sessions\<close>

record poll_sess =
  ps_sess_id :: u32
  ps_itemid :: u64
  ps_time_added :: int

record poller_session_conf =
  ps_sessions :: "poll_sess zbx_hashset"
  ps_next :: nat

definition sess_hash :: "poll_sess \<Rightarrow> zbx_hash_t" where
  "sess_hash d = ps_sess_id d"

definition sess_compare_func :: "poll_sess \<Rightarrow> poll_sess \<Rightarrow> int" where
  "sess_compare_func d1 d2 = return_if_not_equal (ps_sess_id d1) (ps_sess_id d2) 0"

definition poller_sessions_init :: poller_session_conf where
  "poller_sessions_init = \<lparr>ps_sessions = zbx_hashset_create 1000 sess_hash sess_compare_func, ps_next = 0\<rparr>"

text \<open>The probe of a search is a session of which only the id is read.\<close>

definition sess_probe :: "u32 \<Rightarrow> poll_sess" where
  "sess_probe i = \<lparr>ps_sess_id = i, ps_itemid = 0, ps_time_added = 0\<rparr>"

text \<open>The loop that draws an id until it is free; \<open>None\<close> if the coming random numbers give no free one.\<close>

fun draw_sess_id :: "poll_sess zbx_hashset \<Rightarrow> u32 list \<Rightarrow> (u32 \<times> u32 list) result option" where
  "draw_sess_id hs [] = None"
| "draw_sess_id hs (x # rnd) =
     (case zbx_hashset_search hs (sess_probe x) of
        Inl e \<Rightarrow> Some (Inl e)
      | Inr (Some _) \<Rightarrow> draw_sess_id hs rnd
      | Inr None \<Rightarrow> Some (Inr (x, rnd)))"

definition poller_sessions_create_session ::
  "u32 list \<Rightarrow> int \<Rightarrow> poller_session_conf \<Rightarrow> u64 \<Rightarrow> (poller_session_conf \<times> u32 \<times> u32 list) result option" where
  "poller_sessions_create_session rnd now conf itemid =
     (case draw_sess_id (ps_sessions conf) rnd of
        None \<Rightarrow> None
      | Some (Inl e) \<Rightarrow> Some (Inl e)
      | Some (Inr (sess_id, rnd)) \<Rightarrow>
          Some (bind_result (zbx_hashset_insert \<lparr>mem_slots_ok = True, mem_entry = Some (ps_next conf)\<rparr> (ps_sessions conf)
                   \<lparr>ps_sess_id = sess_id, ps_itemid = itemid, ps_time_added = now\<rparr>) (\<lambda>(hs, _).
                Inr (conf\<lparr>ps_sessions := hs, ps_next := Suc (ps_next conf)\<rparr>, sess_id, rnd))))"

definition poller_sessions_close_session :: "poller_session_conf \<Rightarrow> u32 \<Rightarrow> (poller_session_conf \<times> u64) result" where
  "poller_sessions_close_session conf sess_id =
     bind_result (zbx_hashset_search (ps_sessions conf) (sess_probe sess_id)) (\<lambda>found.
     case found of
       None \<Rightarrow> Inr (conf, 0)
     | Some sess \<Rightarrow>
         bind_result (zbx_hashset_remove_direct (ps_sessions conf) sess) (\<lambda>hs.
         Inr (conf\<lparr>ps_sessions := hs\<rparr>, ps_itemid (hse_data sess))))"

definition poller_sessions_count :: "poller_session_conf \<Rightarrow> int" where
  "poller_sessions_count conf = hs_num_data (ps_sessions conf)"

definition poller_sessions_destroy :: "poller_session_conf \<Rightarrow> poller_session_conf" where
  "poller_sessions_destroy conf = conf\<lparr>ps_sessions := zbx_hashset_destroy (ps_sessions conf)\<rparr>"

section \<open>Contention\<close>

text \<open>Resource names are pointers into a string pool; their hash is the one of the pointer.\<close>

record cont_sess =
  cs_resource_name :: u64
  cs_sess_count :: u32
  cs_last_added_time :: int

record poller_contention_conf =
  cc_conf :: "cont_sess zbx_hashset"
  cc_sessions :: int
  cc_last_housekeep :: int
  cc_next :: nat

definition cont_hash :: "cont_sess \<Rightarrow> zbx_hash_t" where
  "cont_hash d = zbx_hash_splittable64 (cs_resource_name d)"

definition cont_compare :: "cont_sess \<Rightarrow> cont_sess \<Rightarrow> int" where
  "cont_compare d1 d2 = zbx_default_uint64_compare_func (cs_resource_name d1) (cs_resource_name d2)"

definition cont_probe :: "u64 \<Rightarrow> cont_sess" where
  "cont_probe r = \<lparr>cs_resource_name = r, cs_sess_count = 0, cs_last_added_time = 0\<rparr>"

definition poller_contention_init :: poller_contention_conf where
  "poller_contention_init =
     \<lparr>cc_conf = zbx_hashset_create 1000 cont_hash cont_compare, cc_sessions = 0, cc_last_housekeep = 0, cc_next = 0\<rparr>"

definition poller_contention_add_session :: "int \<Rightarrow> poller_contention_conf \<Rightarrow> u64 \<Rightarrow> poller_contention_conf result" where
  "poller_contention_add_session now conf resource_name =
     (let conf = conf\<lparr>cc_sessions := cc_sessions conf + 1\<rparr> in
      bind_result (zbx_hashset_search (cc_conf conf) (cont_probe resource_name)) (\<lambda>found.
      case found of
        Some session \<Rightarrow>
          (let d = (hse_data session)\<lparr>cs_sess_count := cs_sess_count (hse_data session) + 1, cs_last_added_time := now\<rparr>
           in Inr (conf\<lparr>cc_conf := hs_poke (hse_addr session) d (cc_conf conf)\<rparr>))
      | None \<Rightarrow>
          bind_result (zbx_hashset_insert \<lparr>mem_slots_ok = True, mem_entry = Some (cc_next conf)\<rparr> (cc_conf conf)
            \<lparr>cs_resource_name = resource_name, cs_sess_count = 1, cs_last_added_time = now\<rparr>) (\<lambda>(hs, _).
          Inr (conf\<lparr>cc_conf := hs, cc_next := Suc (cc_next conf)\<rparr>))))"

definition poller_contention_remove_session :: "poller_contention_conf \<Rightarrow> u64 \<Rightarrow> poller_contention_conf result" where
  "poller_contention_remove_session conf resource_name =
     (if resource_name = 0 then Inr conf
      else
        bind_result (zbx_hashset_search (cc_conf conf) (cont_probe resource_name)) (\<lambda>found.
        case found of
          None \<Rightarrow> Inr conf
        | Some sess \<Rightarrow>
            (let d = (if cs_sess_count (hse_data sess) > 0
                      then (hse_data sess)\<lparr>cs_sess_count := cs_sess_count (hse_data sess) - 1\<rparr> else hse_data sess);
                 conf = conf\<lparr>cc_conf := hs_poke (hse_addr sess) d (cc_conf conf), cc_sessions := cc_sessions conf - 1\<rparr>
             in if cs_sess_count d = 0
                then bind_result (zbx_hashset_remove_direct (cc_conf conf) (sess\<lparr>hse_data := d\<rparr>)) (\<lambda>hs. Inr (conf\<lparr>cc_conf := hs\<rparr>))
                else Inr conf)))"

definition poller_contention_get_sessions ::
  "int \<Rightarrow> int \<Rightarrow> poller_contention_conf \<Rightarrow> u64 \<Rightarrow> (poller_contention_conf \<times> int) result" where
  "poller_contention_get_sessions unreachable_delay now conf resource_name =
     bind_result (zbx_hashset_search (cc_conf conf) (cont_probe resource_name)) (\<lambda>found.
     case found of
       None \<Rightarrow> Inr (conf, 0)
     | Some sess \<Rightarrow>
         (if cs_last_added_time (hse_data sess) + unreachable_delay < now then
            bind_result (zbx_hashset_remove_direct (cc_conf conf) sess) (\<lambda>hs.
            Inr (conf\<lparr>cc_sessions := cc_sessions conf - int (unat (cs_sess_count (hse_data sess))), cc_conf := hs\<rparr>, 0))
          else Inr (conf, int (unat (cs_sess_count (hse_data sess))))))"

definition poller_contention_destroy :: "nat \<Rightarrow> hs_iter \<Rightarrow> poller_contention_conf \<Rightarrow> poller_contention_conf result option" where
  "poller_contention_destroy fuel iter conf =
     (case hs_sweep fuel (\<lambda>_. True) (cc_conf conf) (zbx_hashset_iter_reset iter) of
        None \<Rightarrow> None
      | Some (Inl e) \<Rightarrow> Some (Inl e)
      | Some (Inr (hs, _)) \<Rightarrow> Some (Inr (conf\<lparr>cc_conf := hs\<rparr>)))"

text \<open>
  The housekeeping sweep adds up the counter of every visited session, also of one that it has just
  removed and freed; \<open>stale\<close> is what its counter reads then.
\<close>

definition poller_contention_housekeep ::
  "nat \<Rightarrow> (cont_sess \<Rightarrow> u32) \<Rightarrow> hs_iter \<Rightarrow> int \<Rightarrow> int \<Rightarrow> poller_contention_conf \<Rightarrow> poller_contention_conf result option" where
  "poller_contention_housekeep fuel stale iter unreachable_delay now conf =
     (if now - cc_last_housekeep conf < unreachable_delay div 4 then Some (Inr conf)
      else
        (let conf = conf\<lparr>cc_last_housekeep := now\<rparr>;
             expired = (\<lambda>sess. cs_last_added_time (hse_data sess) + unreachable_delay < now)
         in case hs_sweep fuel expired (cc_conf conf) (zbx_hashset_iter_reset iter) of
              None \<Rightarrow> None
            | Some (Inl e) \<Rightarrow> Some (Inl e)
            | Some (Inr (hs, seen)) \<Rightarrow>
                Some (Inr (conf\<lparr>cc_conf := hs,
                  cc_sessions := sum_list (map (\<lambda>sess. int (unat (if expired sess then stale (hse_data sess)
                                                            else cs_sess_count (hse_data sess)))) seen)\<rparr>))))"

section \<open>A table and its allocator\<close>

declare set_concat [simp del]

definition tab_ok :: "('d \<Rightarrow> 'k) \<Rightarrow> 'd zbx_hashset \<Rightarrow> nat \<Rightarrow> bool" where
  "tab_ok key hs nx \<longleftrightarrow> hs_inv key hs \<and> (\<forall>e \<in> set (hs_all hs). hse_addr e < nx)"

lemma tab_create: "keyed hash cmp key \<Longrightarrow> tab_ok key (zbx_hashset_create n hash cmp) nx \<and> hs_data_abs key (zbx_hashset_create n hash cmp) = Map.empty"
  using keyed.created [of hash cmp key n] by (auto simp: tab_ok_def hs_data_abs_def zbx_hashset_create_def fun_eq_iff simp del: concat_eq_Nil_conv)

lemma tab_mem: "tab_ok key hs nx \<Longrightarrow> hs_abs key hs k = Some e \<Longrightarrow> e \<in> set (hs_all hs) \<and> key (hse_data e) = k"
  by (simp add: tab_ok_def hs_abs_Some_iff)

lemma tab_insert:
  assumes t: "tab_ok key hs nx" and none: "hs_abs key hs (key d) = None"
  shows "\<exists>hs' e. zbx_hashset_insert \<lparr>mem_slots_ok = True, mem_entry = Some nx\<rparr> hs d = Inr (hs', Some e) \<and> tab_ok key hs' (Suc nx)
    \<and> hs_data_abs key hs' = (hs_data_abs key hs)(key d \<mapsto> d)"
proof -
  let ?m = "\<lparr>mem_slots_ok = True, mem_entry = Some nx\<rparr>"
  have "\<forall>e \<in> set (hs_all hs). hse_addr e \<noteq> a" if "mem_entry ?m = Some a" for a using t that by (auto simp: tab_ok_def)
  then obtain hs' r where r: "zbx_hashset_insert_ext ?m id hs d = Inr (hs', r)" "hs_inv key hs'" "r \<noteq> None"
    "r \<noteq> None \<Longrightarrow> r = Some \<lparr>hse_addr = nx, hse_hash = hs_hash_func hs d, hse_data = d\<rparr>"
    "hs_abs key hs' = (case r of None \<Rightarrow> hs_abs key hs | Some e \<Rightarrow> (hs_abs key hs)(key d \<mapsto> e))"
    "set (hs_all hs') = (case r of None \<Rightarrow> set (hs_all hs) | Some e \<Rightarrow> insert e (set (hs_all hs)))"
    using hs_insert_ext_spec [of key hs id d ?m] t none unfolding tab_ok_def by (simp add: id_def) metis
  then show ?thesis using t
    by (auto simp: zbx_hashset_insert_def tab_ok_def hs_data_abs_def fun_eq_iff less_Suc_eq)
qed

lemma tab_remove_direct:
  assumes t: "tab_ok key hs nx" and e: "hs_abs key hs k = Some e"
  shows "\<exists>hs'. zbx_hashset_remove_direct hs e = Inr hs' \<and> tab_ok key hs' nx \<and> hs_data_abs key hs' = (hs_data_abs key hs)(k := None)"
proof -
  have m: "e \<in> set (hs_all hs)" "key (hse_data e) = k" using tab_mem [OF t e] by simp_all
  have "hs_inv key hs" using t by (simp add: tab_ok_def)
  from hs_remove_direct_spec [OF this m(1)] obtain hs' where "zbx_hashset_remove_direct hs e = Inr hs'" "hs_inv key hs'"
    "hs_abs key hs' = (hs_abs key hs)(k := None)" "set (hs_all hs') = set (hs_all hs) - {e}" using m(2) by metis
  then show ?thesis using t by (auto simp: tab_ok_def hs_data_abs_def fun_eq_iff)
qed

lemma tab_poke:
  assumes t: "tab_ok key hs nx" and e: "hs_abs key hs k = Some e" and d: "key d = k"
  shows "tab_ok key (hs_poke (hse_addr e) d hs) nx \<and> hs_data_abs key (hs_poke (hse_addr e) d hs) = (hs_data_abs key hs)(k \<mapsto> d)
    \<and> hs_abs key (hs_poke (hse_addr e) d hs) k = Some (e\<lparr>hse_data := d\<rparr>)"
proof -
  have m: "e \<in> set (hs_all hs)" "key d = key (hse_data e)" using tab_mem [OF t e] d by simp_all
  have "hs_inv key hs" using t by (simp add: tab_ok_def)
  from hs_poke_spec [OF this m] have "hs_inv key (hs_poke (hse_addr e) d hs)"
    "hs_abs key (hs_poke (hse_addr e) d hs) = (hs_abs key hs)(k \<mapsto> e\<lparr>hse_data := d\<rparr>)" using d by simp_all
  then show ?thesis using t by (auto simp: tab_ok_def hs_data_abs_def fun_eq_iff hs_all_poke)
qed

section \<open>Sessions by id\<close>

interpretation sess: keyed sess_hash sess_compare_func ps_sess_id
  by unfold_locales (simp_all add: sess_compare_func_def return_if_not_equal_zero sess_hash_def)

definition ps_inv :: "poller_session_conf \<Rightarrow> bool" where
  "ps_inv conf \<longleftrightarrow> tab_ok ps_sess_id (ps_sessions conf) (ps_next conf)"

definition ps_look :: "poller_session_conf \<Rightarrow> u32 \<rightharpoonup> u64" where
  "ps_look conf i = map_option ps_itemid (hs_data_abs ps_sess_id (ps_sessions conf) i)"

lemma ps_init: "ps_inv poller_sessions_init" "ps_look poller_sessions_init = Map.empty"
  using tab_create [OF sess.keyed_axioms, of 1000 0] by (auto simp: ps_inv_def ps_look_def poller_sessions_init_def fun_eq_iff)

lemma ps_look_abs: "ps_look conf i = map_option (\<lambda>e. ps_itemid (hse_data e)) (hs_abs ps_sess_id (ps_sessions conf) i)"
  by (simp add: ps_look_def hs_data_abs_def option.map_comp comp_def)

lemma draw_sess_id_spec:
  assumes "hs_inv ps_sess_id hs"
  shows "draw_sess_id hs rnd = (case dropWhile (\<lambda>x. hs_abs ps_sess_id hs x \<noteq> None) rnd of [] \<Rightarrow> None | x # rest \<Rightarrow> Some (Inr (x, rest)))"
  by (induction rnd) (auto simp: hs_search_abs [OF assms] sess_probe_def split: option.split)

lemma ps_create:
  assumes inv: "ps_inv conf" and free: "x \<in> set rnd" "ps_look conf x = None"
  shows "\<exists>conf' i rest. poller_sessions_create_session rnd now conf itemid = Some (Inr (conf', i, rest)) \<and> ps_inv conf'
    \<and> ps_look conf i = None \<and> i \<in> set rnd \<and> ps_look conf' = (ps_look conf)(i \<mapsto> itemid)"
proof -
  let ?hs = "ps_sessions conf"
  have t: "tab_ok ps_sess_id ?hs (ps_next conf)" "hs_inv ps_sess_id ?hs" using inv by (simp_all add: ps_inv_def tab_ok_def)
  have n: "ps_look conf y = None \<longleftrightarrow> hs_abs ps_sess_id ?hs y = None" for y by (simp add: ps_look_abs)
  have "dropWhile (\<lambda>x. hs_abs ps_sess_id ?hs x \<noteq> None) rnd \<noteq> []" using free n by auto
  then obtain i rest where i: "dropWhile (\<lambda>x. hs_abs ps_sess_id ?hs x \<noteq> None) rnd = i # rest" by (meson neq_Nil_conv)
  then have i0: "hs_abs ps_sess_id ?hs i = None" "i \<in> set rnd"
    using hd_dropWhile [of "\<lambda>x. hs_abs ps_sess_id ?hs x \<noteq> None" rnd] by (auto dest!: arg_cong [where f = set] dest: set_dropWhileD)
  let ?d = "\<lparr>ps_sess_id = i, ps_itemid = itemid, ps_time_added = now\<rparr>"
  obtain hs' e where "zbx_hashset_insert \<lparr>mem_slots_ok = True, mem_entry = Some (ps_next conf)\<rparr> ?hs ?d = Inr (hs', Some e)"
    "tab_ok ps_sess_id hs' (Suc (ps_next conf))" "hs_data_abs ps_sess_id hs' = (hs_data_abs ps_sess_id ?hs)(i \<mapsto> ?d)"
    using tab_insert [OF t(1), of ?d] i0 by auto
  then show ?thesis using i i0 n
    by (auto simp: poller_sessions_create_session_def draw_sess_id_spec [OF t(2)] ps_inv_def ps_look_def fun_eq_iff)
qed

lemma ps_close:
  assumes inv: "ps_inv conf"
  shows "\<exists>conf'. poller_sessions_close_session conf i = Inr (conf', case ps_look conf i of None \<Rightarrow> 0 | Some itemid \<Rightarrow> itemid)
    \<and> ps_inv conf' \<and> ps_look conf' = (ps_look conf)(i := None)"
proof -
  have t: "tab_ok ps_sess_id (ps_sessions conf) (ps_next conf)" using inv by (simp add: ps_inv_def)
  have s: "zbx_hashset_search (ps_sessions conf) (sess_probe i) = Inr (hs_abs ps_sess_id (ps_sessions conf) i)"
    using t hs_search_abs [of ps_sess_id "ps_sessions conf" "sess_probe i"] by (simp add: tab_ok_def sess_probe_def)
  show ?thesis
  proof (cases "hs_abs ps_sess_id (ps_sessions conf) i")
    case None
    with s inv show ?thesis by (auto simp: poller_sessions_close_session_def ps_look_abs fun_eq_iff)
  next
    case (Some e)
    from tab_remove_direct [OF t this] obtain hs' where "zbx_hashset_remove_direct (ps_sessions conf) e = Inr hs'"
      "tab_ok ps_sess_id hs' (ps_next conf)" "hs_data_abs ps_sess_id hs' = (hs_data_abs ps_sess_id (ps_sessions conf))(i := None)" by blast
    with s Some show ?thesis
      by (auto simp: poller_sessions_close_session_def ps_inv_def fun_eq_iff) (auto simp: ps_look_def hs_data_abs_def)
  qed
qed

section \<open>Counters of a table\<close>

definition msum :: "('d \<Rightarrow> int) \<Rightarrow> ('k \<rightharpoonup> 'd) \<Rightarrow> int" where
  "msum f m = (\<Sum>k \<in> dom m. f (the (m k)))"

lemma msum_insert:
  assumes "finite (dom m)" "m k = None"
  shows "msum f (m(k \<mapsto> v)) = msum f m + f v"
proof -
  have "(\<Sum>x \<in> dom m. f (the ((m(k \<mapsto> v)) x))) = (\<Sum>x \<in> dom m. f (the (m x)))" using assms(2) by (intro sum.cong) auto
  then show ?thesis using assms by (simp add: msum_def domIff)
qed

lemma msum_del:
  assumes "finite (dom m)" "m k = Some u"
  shows "msum f (m(k := None)) = msum f m - f u"
proof -
  have "(m(k := None))(k \<mapsto> u) = m" using assms(2) by auto
  then show ?thesis using msum_insert [of "m(k := None)" k f u] assms(1) by simp
qed

lemma msum_upd:
  assumes "finite (dom m)"
  shows "msum f (m(k := v)) = msum f m - (case m k of None \<Rightarrow> 0 | Some u \<Rightarrow> f u) + (case v of None \<Rightarrow> 0 | Some u \<Rightarrow> f u)"
proof (cases "m k")
  case None
  then show ?thesis using msum_insert [OF assms None, of f] by (cases v) (simp_all add: fun_upd_idem)
next
  case (Some u)
  then show ?thesis using msum_del [OF assms Some, of f] msum_insert [of "m(k := None)" k f] assms by (cases v) simp_all
qed

lemma msum_ge:
  assumes "finite (dom m)" "m k = Some u" "\<And>d. 0 \<le> f d"
  shows "f u \<le> msum f m"
  using member_le_sum [of k "dom m" "\<lambda>k. f (the (m k))"] assms by (simp add: msum_def domI)

lemma finite_data_abs [simp]: "finite (dom (hs_data_abs key hs))"
  by (rule finite_subset [of _ "dom (hs_abs key hs)"]) (auto simp: hs_data_abs_def hs_abs_def finite_dom_map_of)

lemma hs_sum:
  assumes "hs_inv key hs"
  shows "sum_list (map (\<lambda>e. f (hse_data e)) (hs_all hs)) = msum f (hs_data_abs key hs)"
proof -
  let ?k = "\<lambda>e. key (hse_data e)"
  have d: "distinct (hs_all hs)" "inj_on ?k (set (hs_all hs))" using assms by (auto simp: hs_inv_def distinct_map)
  have e: "hs_data_abs key hs (?k e) = Some (hse_data e)" if "e \<in> set (hs_all hs)" for e
    using hs_abs_Some_iff [OF assms, of "?k e" e] that by (simp add: hs_data_abs_def)
  have "dom (hs_data_abs key hs) = ?k ` set (hs_all hs)"
    by (auto simp: hs_data_abs_def hs_abs_def dom_map_of_conv_image_fst image_image)
  then have "msum f (hs_data_abs key hs) = (\<Sum>e \<in> set (hs_all hs). f (the (hs_data_abs key hs (?k e))))"
    unfolding msum_def by (simp add: sum.reindex [OF d(2)])
  also have "\<dots> = (\<Sum>e \<in> set (hs_all hs). f (hse_data e))" using e by (intro sum.cong) auto
  also have "\<dots> = sum_list (map (\<lambda>e. f (hse_data e)) (hs_all hs))" using d(1) by (simp add: sum_list_distinct_conv_sum_set)
  finally show ?thesis by simp
qed

section \<open>Sessions per resource\<close>

interpretation cont: keyed cont_hash cont_compare cs_resource_name
  by unfold_locales (simp_all add: cont_compare_def zbx_default_uint64_compare_func_def return_if_not_equal_zero cont_hash_def)

abbreviation cc_tab :: "poller_contention_conf \<Rightarrow> u64 \<rightharpoonup> cont_sess" where
  "cc_tab conf \<equiv> hs_data_abs cs_resource_name (cc_conf conf)"

abbreviation cs_num :: "cont_sess \<Rightarrow> int" where
  "cs_num d \<equiv> uint (cs_sess_count d)"

definition cc_inv :: "poller_contention_conf \<Rightarrow> bool" where
  "cc_inv conf \<longleftrightarrow> tab_ok cs_resource_name (cc_conf conf) (cc_next conf) \<and> (\<forall>d \<in> ran (cc_tab conf). cs_sess_count d \<noteq> 0)
     \<and> cc_sessions conf = msum cs_num (cc_tab conf)"

definition cc_count :: "poller_contention_conf \<Rightarrow> u64 \<Rightarrow> nat" where
  "cc_count conf r = (case cc_tab conf r of None \<Rightarrow> 0 | Some d \<Rightarrow> unat (cs_sess_count d))"

lemma cc_init: "cc_inv poller_contention_init"
  using tab_create [OF cont.keyed_axioms, of 1000 0] by (simp add: cc_inv_def poller_contention_init_def msum_def)

lemma cc_search:
  assumes "cc_inv conf"
  shows "zbx_hashset_search (cc_conf conf) (cont_probe r) = Inr (hs_abs cs_resource_name (cc_conf conf) r)"
  using assms hs_search_abs [of cs_resource_name "cc_conf conf" "cont_probe r"] by (simp add: cc_inv_def tab_ok_def cont_probe_def)

lemma cc_tab_Some: "hs_abs cs_resource_name (cc_conf conf) r = Some e \<Longrightarrow> cc_tab conf r = Some (hse_data e)"
  by (simp add: hs_data_abs_def)

text \<open>A step that changes the entry of one resource and the total alike.\<close>

lemma cc_update:
  assumes inv: "cc_inv conf" and t: "tab_ok cs_resource_name (cc_conf conf') (cc_next conf')" "cc_tab conf' = (cc_tab conf)(r := v)"
    and v: "\<And>d. v = Some d \<Longrightarrow> cs_sess_count d \<noteq> 0"
    and s: "cc_sessions conf' = cc_sessions conf - int (cc_count conf r) + (case v of None \<Rightarrow> 0 | Some d \<Rightarrow> cs_num d)"
  shows "cc_inv conf' \<and> cc_count conf' = (cc_count conf)(r := case v of None \<Rightarrow> 0 | Some d \<Rightarrow> unat (cs_sess_count d))"
proof
  have "int (cc_count conf r) = (case cc_tab conf r of None \<Rightarrow> 0 | Some d \<Rightarrow> cs_num d)" by (simp add: cc_count_def split: option.split)
  moreover have "\<forall>d \<in> ran ((cc_tab conf)(r := v)). cs_sess_count d \<noteq> 0"
    using inv v by (auto simp: cc_inv_def ran_def split: if_splits)
  ultimately show "cc_inv conf'" using inv t s by (simp add: cc_inv_def msum_upd)
  show "cc_count conf' = (cc_count conf)(r := case v of None \<Rightarrow> 0 | Some d \<Rightarrow> unat (cs_sess_count d))"
    by (rule ext) (simp add: cc_count_def t(2))
qed

lemma cc_add:
  assumes inv: "cc_inv conf" and b: "cc_sessions conf < 2 ^ 32 - 1"
  shows "\<exists>conf'. poller_contention_add_session now conf r = Inr conf' \<and> cc_inv conf' \<and> cc_count conf' = (cc_count conf)(r := cc_count conf r + 1)"
proof (cases "hs_abs cs_resource_name (cc_conf conf) r")
  case None
  let ?d = "\<lparr>cs_resource_name = r, cs_sess_count = 1, cs_last_added_time = now\<rparr>"
  have n: "cc_count conf r = 0" using None by (simp add: hs_data_abs_def cc_count_def)
  have t: "tab_ok cs_resource_name (cc_conf conf) (cc_next conf)" using inv by (simp add: cc_inv_def)
  obtain hs' e where h: "zbx_hashset_insert \<lparr>mem_slots_ok = True, mem_entry = Some (cc_next conf)\<rparr> (cc_conf conf) ?d = Inr (hs', Some e)"
    "tab_ok cs_resource_name hs' (Suc (cc_next conf))" "hs_data_abs cs_resource_name hs' = (cc_tab conf)(r \<mapsto> ?d)"
    using tab_insert [OF t, of ?d] None by auto
  let ?c = "conf\<lparr>cc_sessions := cc_sessions conf + 1, cc_conf := hs', cc_next := Suc (cc_next conf)\<rparr>"
  have "poller_contention_add_session now conf r = Inr ?c"
    using h(1) None cc_search [OF inv, of r] by (simp add: poller_contention_add_session_def Let_def)
  with cc_update [OF inv, of ?c r "Some ?d"] h(2,3) n show ?thesis by auto
next
  case (Some e)
  let ?d = "(hse_data e)\<lparr>cs_sess_count := cs_sess_count (hse_data e) + 1, cs_last_added_time := now\<rparr>"
  note S = cc_tab_Some [OF Some]
  have t: "tab_ok cs_resource_name (cc_conf conf) (cc_next conf)" using inv by (simp add: cc_inv_def)
  have "cs_resource_name ?d = r" using tab_mem [OF t Some] by simp
  note p = tab_poke [OF t Some this]
  have "cs_num (hse_data e) \<le> cc_sessions conf" using msum_ge [OF finite_data_abs S, of cs_num] inv by (simp add: cc_inv_def)
  then have "int (unat (cs_sess_count (hse_data e))) < 4294967295" using b by simp
  then have "unat (cs_sess_count (hse_data e)) < 4294967295" by (simp only: of_nat_less_numeral_iff)
  then have u: "unat (cs_sess_count (hse_data e) + 1) = unat (cs_sess_count (hse_data e)) + 1" by (simp add: unat_word_ariths)
  then have nz: "cs_sess_count ?d \<noteq> 0" by (auto simp: word_unat_eq_iff)
  let ?c = "conf\<lparr>cc_sessions := cc_sessions conf + 1, cc_conf := hs_poke (hse_addr e) ?d (cc_conf conf)\<rparr>"
  have "poller_contention_add_session now conf r = Inr ?c"
    using Some cc_search [OF inv, of r] by (simp add: poller_contention_add_session_def Let_def)
  moreover have "cs_num ?d = int (cc_count conf r) + 1" using u S by (simp add: cc_count_def uint_nat del: of_nat_unat)
  then have "cc_inv ?c \<and> cc_count ?c = (cc_count conf)(r := case Some ?d of None \<Rightarrow> 0 | Some d \<Rightarrow> unat (cs_sess_count d))"
    using p nz by (intro cc_update [OF inv]) auto
  moreover have "unat (cs_sess_count ?d) = cc_count conf r + 1" using u S by (simp add: cc_count_def)
  ultimately show ?thesis by auto
qed

lemma cc_remove:
  assumes inv: "cc_inv conf"
  shows "\<exists>conf'. poller_contention_remove_session conf r = Inr conf' \<and> cc_inv conf'
    \<and> cc_count conf' = (if r = 0 then cc_count conf else (cc_count conf)(r := cc_count conf r - 1))"
proof (cases "r = 0 \<or> hs_abs cs_resource_name (cc_conf conf) r = None")
  case True
  then have "poller_contention_remove_session conf r = Inr conf" "r \<noteq> 0 \<Longrightarrow> cc_count conf r = 0"
    using cc_search [OF inv, of r] by (auto simp: poller_contention_remove_session_def cc_count_def hs_data_abs_def)
  with inv show ?thesis by (auto simp: fun_eq_iff)
next
  case False
  then obtain e where e: "hs_abs cs_resource_name (cc_conf conf) r = Some e" and r: "r \<noteq> 0" by auto
  note S = cc_tab_Some [OF e]
  have t: "tab_ok cs_resource_name (cc_conf conf) (cc_next conf)" using inv by (simp add: cc_inv_def)
  have "hse_data e \<in> ran (cc_tab conf)" using S by (rule ranI)
  then have nz: "cs_sess_count (hse_data e) \<noteq> 0" using inv by (simp add: cc_inv_def)
  then have pos: "0 < cs_sess_count (hse_data e)" by (simp add: word_neq_0_conv)
  let ?d = "(hse_data e)\<lparr>cs_sess_count := cs_sess_count (hse_data e) - 1\<rparr>"
  have u: "unat (cs_sess_count ?d) = unat (cs_sess_count (hse_data e)) - 1" "1 \<le> unat (cs_sess_count (hse_data e))"
    using nz by (simp_all add: unat_minus_one unat_gt_0 Suc_leI)
  have "cs_resource_name ?d = r" using tab_mem [OF t e] by simp
  note p = tab_poke [OF t e this]
  let ?hs = "hs_poke (hse_addr e) ?d (cc_conf conf)"
  let ?c = "conf\<lparr>cc_conf := ?hs, cc_sessions := cc_sessions conf - 1\<rparr>"
  show ?thesis
  proof (cases "cs_sess_count ?d = 0")
    case True
    from p have p': "tab_ok cs_resource_name ?hs (cc_next conf)" "hs_data_abs cs_resource_name ?hs = (cc_tab conf)(r \<mapsto> ?d)"
      "hs_abs cs_resource_name ?hs r = Some (e\<lparr>hse_data := ?d\<rparr>)" by blast+
    from tab_remove_direct [OF p'(1,3)] p'(2) obtain hs' where h: "zbx_hashset_remove_direct ?hs (e\<lparr>hse_data := ?d\<rparr>) = Inr hs'"
      "tab_ok cs_resource_name hs' (cc_next conf)" "hs_data_abs cs_resource_name hs' = (cc_tab conf)(r := None)" by auto
    have "poller_contention_remove_session conf r = Inr (?c\<lparr>cc_conf := hs'\<rparr>)"
      using e r True h(1) pos cc_search [OF inv, of r] by (simp add: poller_contention_remove_session_def Let_def)
    moreover have "unat (cs_sess_count (hse_data e)) = 1" using True u by simp
    ultimately show ?thesis using cc_update [OF inv, of "?c\<lparr>cc_conf := hs'\<rparr>" r None] h r S by (auto simp: cc_count_def)
  next
    case False
    have "poller_contention_remove_session conf r = Inr ?c"
      using e r False pos cc_search [OF inv, of r] by (simp add: poller_contention_remove_session_def Let_def)
    moreover have n: "unat (cs_sess_count ?d) = cc_count conf r - 1" "1 \<le> cc_count conf r" using u S by (simp_all add: cc_count_def)
    then have "cs_num ?d = int (cc_count conf r) - 1" by (simp add: of_nat_diff uint_nat del: of_nat_unat)
    then have "cc_inv ?c \<and> cc_count ?c = (cc_count conf)(r := case Some ?d of None \<Rightarrow> 0 | Some d \<Rightarrow> unat (cs_sess_count d))"
      using p False by (intro cc_update [OF inv]) auto
    ultimately show ?thesis using n(1) r by auto
  qed
qed

lemma cc_get:
  assumes inv: "cc_inv conf"
  shows "\<exists>conf' n. poller_contention_get_sessions delay now conf r = Inr (conf', int n) \<and> cc_inv conf' \<and> cc_count conf' = (cc_count conf)(r := n)"
proof (cases "hs_abs cs_resource_name (cc_conf conf) r")
  case None
  then have "poller_contention_get_sessions delay now conf r = Inr (conf, int 0)" "cc_count conf r = 0"
    using cc_search [OF inv, of r] by (simp_all add: poller_contention_get_sessions_def cc_count_def hs_data_abs_def)
  moreover from this(2) have "cc_count conf = (cc_count conf)(r := 0)" by auto
  ultimately show ?thesis using inv by blast
next
  case (Some e)
  note S = cc_tab_Some [OF Some]
  have t: "tab_ok cs_resource_name (cc_conf conf) (cc_next conf)" using inv by (simp add: cc_inv_def)
  have c: "cc_count conf r = unat (cs_sess_count (hse_data e))" using S by (simp add: cc_count_def)
  show ?thesis
  proof (cases "cs_last_added_time (hse_data e) + delay < now")
    case True
    from tab_remove_direct [OF t Some] obtain hs' where h: "zbx_hashset_remove_direct (cc_conf conf) e = Inr hs'"
      "tab_ok cs_resource_name hs' (cc_next conf)" "hs_data_abs cs_resource_name hs' = (cc_tab conf)(r := None)" by blast
    let ?c = "conf\<lparr>cc_sessions := cc_sessions conf - int (cc_count conf r), cc_conf := hs'\<rparr>"
    have "poller_contention_get_sessions delay now conf r = Inr (?c, int 0)"
      using True Some h(1) c cc_search [OF inv, of r] by (simp add: poller_contention_get_sessions_def)
    moreover have "cc_inv ?c \<and> cc_count ?c = (cc_count conf)(r := 0)" using cc_update [OF inv, of ?c r None] h by auto
    ultimately show ?thesis by blast
  next
    case False
    then have "poller_contention_get_sessions delay now conf r = Inr (conf, int (cc_count conf r))"
      using Some c cc_search [OF inv, of r] by (simp add: poller_contention_get_sessions_def)
    with inv show ?thesis by (intro exI [of _ conf] exI [of _ "cc_count conf r"]) simp
  qed
qed

lemma sum_list_partition: "(\<Sum>x\<leftarrow>xs. if P x then f x else g x) = (\<Sum>x\<leftarrow>filter (\<lambda>x. \<not> P x) xs. g x) + (\<Sum>x\<leftarrow>filter P xs. f x)"
  for f g :: "'a \<Rightarrow> int"
  by (induction xs) auto

section \<open>Properties\<close>

text \<open>
  C29. No two requests in flight share an id: opening a session draws an id that no live session has and
  registers its item, closing it returns that item and forgets the id, closing an unknown id returns 0,
  and all other sessions are untouched.
\<close>

theorem poller_session_lifecycle:
  assumes "ps_inv conf" "x \<in> set rnd" "ps_look conf x = None"
  shows "(\<exists>conf' i rest. poller_sessions_create_session rnd now conf itemid = Some (Inr (conf', i, rest)) \<and> ps_inv conf'
      \<and> ps_look conf i = None \<and> ps_look conf' = (ps_look conf)(i \<mapsto> itemid)
      \<and> (\<exists>conf''. poller_sessions_close_session conf' i = Inr (conf'', itemid) \<and> ps_inv conf'' \<and> ps_look conf'' = ps_look conf))
    \<and> (\<exists>conf'. poller_sessions_close_session conf j = Inr (conf', case ps_look conf j of None \<Rightarrow> 0 | Some itemid \<Rightarrow> itemid)
      \<and> ps_inv conf' \<and> ps_look conf' = (ps_look conf)(j := None))"
proof -
  obtain conf' i rest where c: "poller_sessions_create_session rnd now conf itemid = Some (Inr (conf', i, rest))" "ps_inv conf'"
    "ps_look conf i = None" "ps_look conf' = (ps_look conf)(i \<mapsto> itemid)" using ps_create [OF assms] by blast
  from ps_close [OF c(2), of i] c(3,4)
  have "\<exists>conf''. poller_sessions_close_session conf' i = Inr (conf'', itemid) \<and> ps_inv conf'' \<and> ps_look conf'' = ps_look conf"
    by (auto simp: fun_upd_idem)
  with c ps_close [OF assms(1), of j] show ?thesis by blast
qed

theorem poller_session_lifecycle_witness:
  "\<exists>conf' i rest. poller_sessions_create_session [7] 100 poller_sessions_init 42 = Some (Inr (conf', i, rest)) \<and> ps_look conf' i = Some 42"
proof -
  have "7 \<in> set [7 :: u32]" "ps_look poller_sessions_init 7 = None" by (simp_all add: ps_init)
  from poller_session_lifecycle [OF ps_init(1) this] obtain conf' i rest where
    "poller_sessions_create_session [7] 100 poller_sessions_init 42 = Some (Inr (conf', i, rest))" "ps_look conf' = (ps_look poller_sessions_init)(i \<mapsto> 42)"
    by blast
  then show ?thesis by auto
qed

text \<open>
  C30. The contention register counts: opening a session of a resource adds one to the resource's counter,
  closing takes one off, asking for the counter reports it and drops it when the resource has been silent
  too long, and the total is the sum of the counters after each of these steps.
\<close>

theorem poller_contention_counts:
  assumes "cc_inv conf" "cc_sessions conf < 2 ^ 32 - 1"
  shows "(\<exists>conf'. poller_contention_add_session now conf r = Inr conf' \<and> cc_inv conf' \<and> cc_count conf' = (cc_count conf)(r := cc_count conf r + 1))
    \<and> (\<exists>conf'. poller_contention_remove_session conf r = Inr conf' \<and> cc_inv conf'
      \<and> cc_count conf' = (if r = 0 then cc_count conf else (cc_count conf)(r := cc_count conf r - 1)))
    \<and> (\<exists>conf' n. poller_contention_get_sessions delay now conf r = Inr (conf', int n) \<and> cc_inv conf' \<and> cc_count conf' = (cc_count conf)(r := n))"
  using cc_add [OF assms] cc_remove [OF assms(1)] cc_get [OF assms(1)] by blast

theorem poller_contention_counts_witness:
  "\<exists>conf'. poller_contention_add_session 100 poller_contention_init 9 = Inr conf' \<and> cc_inv conf'"
  using poller_contention_counts [of poller_contention_init 100 9] cc_init by (auto simp: poller_contention_init_def)

text \<open>
  A housekeeping sweep that is due removes exactly the silent resources, but it leaves a total that is
  too high by what the freed counters still read: the total is right only if they all read zero.
\<close>

theorem poller_contention_housekeep_total:
  assumes "cc_inv conf" "delay div 4 \<le> now - cc_last_housekeep conf" "length (concat (hs_slots (cc_conf conf))) < fuel"
  defines "expired \<equiv> \<lambda>e. cs_last_added_time (hse_data e) + delay < now"
  shows "\<exists>conf'. poller_contention_housekeep fuel stale it delay now conf = Some (Inr conf')
    \<and> concat (hs_slots (cc_conf conf')) = filter (\<lambda>e. \<not> expired e) (concat (hs_slots (cc_conf conf)))
    \<and> cc_sessions conf' = msum (\<lambda>d. uint (cs_sess_count d)) (hs_data_abs cs_resource_name (cc_conf conf'))
        + (\<Sum>e\<leftarrow>filter expired (concat (hs_slots (cc_conf conf))). uint (stale (hse_data e)))"
proof -
  have inv: "hs_inv cs_resource_name (cc_conf conf)" using assms(1) by (simp add: cc_inv_def tab_ok_def)
  from hs_sweep_spec [OF inv iter_at_reset _ assms(3), of expired it] obtain hs' where
    h: "hs_sweep fuel expired (cc_conf conf) (zbx_hashset_iter_reset it) = Some (Inr (hs', hs_all (cc_conf conf)))" "hs_inv cs_resource_name hs'"
      "hs_all hs' = filter (\<lambda>e. \<not> expired e) (hs_all (cc_conf conf))" by auto
  have "(\<Sum>e\<leftarrow>hs_all (cc_conf conf). int (unat (if expired e then stale (hse_data e) else cs_sess_count (hse_data e))))
      = (\<Sum>e\<leftarrow>hs_all (cc_conf conf). if expired e then uint (stale (hse_data e)) else uint (cs_sess_count (hse_data e)))"
    by (intro arg_cong [where f = sum_list] map_cong) auto
  also have "\<dots> = (\<Sum>e\<leftarrow>hs_all hs'. uint (cs_sess_count (hse_data e))) + (\<Sum>e\<leftarrow>filter expired (hs_all (cc_conf conf)). uint (stale (hse_data e)))"
    unfolding h(3) by (rule sum_list_partition)
  finally show ?thesis using assms(2) h hs_sum [OF h(2), of "\<lambda>d. uint (cs_sess_count d)"]
    by (simp add: poller_contention_housekeep_def Let_def expired_def not_less)
qed

text \<open>One silent resource with three sessions; its freed memory still reads three.\<close>

definition cont_example :: poller_contention_conf where
  "cont_example =
     (let d = \<lparr>cs_resource_name = 9, cs_sess_count = 3, cs_last_added_time = 10\<rparr> in
      \<lparr>cc_conf = \<lparr>hs_slots = [[\<lparr>hse_addr = 0, hse_hash = cont_hash d, hse_data = d\<rparr>]], hs_num_slots = 1, hs_num_data = 1,
         hs_hash_func = cont_hash, hs_compare_func = cont_compare, hs_freed = []\<rparr>,
       cc_sessions = 3, cc_last_housekeep = 0, cc_next = 1\<rparr>)"

lemma cont_example_inv: "cc_inv cont_example"
  using cont.keyed_axioms
  by (simp add: cc_inv_def tab_ok_def hs_inv_def hs_placed_def cont_example_def Let_def msum_def hs_data_abs_def hs_abs_def ran_def)

theorem poller_contention_housekeep_total_witness:
  "\<exists>conf'. poller_contention_housekeep 9 cs_sess_count \<lparr>it_slot = 0, it_entry = None\<rparr> 5 100 cont_example = Some (Inr conf')
     \<and> concat (hs_slots (cc_conf conf')) = [] \<and> cc_sessions conf' = 3"
proof -
  have "5 div 4 \<le> 100 - cc_last_housekeep cont_example" "length (concat (hs_slots (cc_conf cont_example))) < 9"
    by (simp_all add: cont_example_def Let_def)
  from poller_contention_housekeep_total [OF cont_example_inv this, of cs_sess_count "\<lparr>it_slot = 0, it_entry = None\<rparr>"] obtain conf' where
    "poller_contention_housekeep 9 cs_sess_count \<lparr>it_slot = 0, it_entry = None\<rparr> 5 100 cont_example = Some (Inr conf')"
    and e: "hs_all (cc_conf conf') = []" "cc_sessions conf' = msum (\<lambda>d. uint (cs_sess_count d)) (cc_tab conf') + 3"
    by (auto simp: cont_example_def Let_def simp del: concat_eq_Nil_conv)
  moreover have "cc_tab conf' = Map.empty" unfolding hs_data_abs_def hs_abs_def e(1) by (simp add: fun_eq_iff)
  ultimately show ?thesis by (auto simp: msum_def simp del: concat_eq_Nil_conv)
qed

end
