(* ===== verification/Num_Parse.thy ===== *)
theory Num_Parse
  imports Prelude
begin

text \<open>
  \<open>src/libs/zbxnum/num.c\<close>: the checks and conversions of numbers in text that every agent, trapper and
  configuration value passes through.

  A C string is the list of its characters before the NUL.  A conversion returns its code and what it
  stored through the value pointer, \<open>None\<close> if nothing; \<open>sz\<close> is the size of that buffer in bytes, 0 with
  a NULL pointer; the call with size 0 and a pointer, which the code refuses, has no counterpart here.
\<close>

section \<open>Numbers\<close>

abbreviation (input) ord :: "char \<Rightarrow> nat" where "ord \<equiv> of_char"

definition isdigit :: "char \<Rightarrow> bool" where
  "isdigit c \<longleftrightarrow> 48 \<le> ord c \<and> ord c \<le> 57"

definition isxdigit :: "char \<Rightarrow> bool" where
  "isxdigit c \<longleftrightarrow> isdigit c \<or> 97 \<le> ord c \<and> ord c \<le> 102 \<or> 65 \<le> ord c \<and> ord c \<le> 70"

fun uint_loop :: "string \<Rightarrow> nat \<Rightarrow> u64 \<Rightarrow> u64 option" where
  "uint_loop [] n val = Some val"
| "uint_loop (ch # str) n val =
     (if 0 < n then
        (if \<not> isdigit ch then None
         else
           (let c = of_nat (ord ch - 48)
            in if (- 1 - c) div 10 < val then None else uint_loop str (n - 1) (val * 10 + c)))
      else Some val)"

text \<open>\<open>memcpy\<close> of the low \<open>size\<close> bytes.\<close>

definition store_uint :: "nat \<Rightarrow> u64 \<Rightarrow> u64 option" where
  "store_uint sz val = (if sz = 0 then None else Some (take_bit (8 * sz) val))"

definition zbx_is_uint_n_range :: "string \<Rightarrow> nat \<Rightarrow> nat \<Rightarrow> u64 \<Rightarrow> u64 \<Rightarrow> int \<times> u64 option" where
  "zbx_is_uint_n_range str n sz lo hi =
     (if str = [] \<or> n = 0 \<or> 8 < sz then (FAIL, None)
      else (case uint_loop str n 0 of
              None \<Rightarrow> (FAIL, None)
            | Some val \<Rightarrow> (if lo > val \<or> val > hi then (FAIL, None) else (SUCCEED, store_uint sz val))))"

definition hex_digit :: "char \<Rightarrow> u64 option" where
  "hex_digit ch =
     (if 48 \<le> ord ch \<and> ord ch \<le> 57 then Some (of_nat (ord ch - 48))
      else if 97 \<le> ord ch \<and> ord ch \<le> 102 then Some (10 + of_nat (ord ch - 97))
      else if 65 \<le> ord ch \<and> ord ch \<le> 70 then Some (10 + of_nat (ord ch - 65))
      else None)"

fun hex_loop :: "string \<Rightarrow> nat \<Rightarrow> nat \<Rightarrow> u64 \<Rightarrow> u64 option" where
  "hex_loop [] n len val = Some val"
| "hex_loop (ch # str) n len val =
     (if 0 < n then
        (case hex_digit ch of
           None \<Rightarrow> None
         | Some c \<Rightarrow>
             (let len = len + 1
              in if 16 < len \<and> drop_bit 4 (- 1) < val then None else hex_loop str (n - 1) len (push_bit 4 val + c)))
      else Some val)"

definition zbx_is_hex_n_range :: "string \<Rightarrow> nat \<Rightarrow> nat \<Rightarrow> u64 \<Rightarrow> u64 \<Rightarrow> int \<times> u64 option" where
  "zbx_is_hex_n_range str n sz lo hi =
     (if str = [] \<or> n = 0 \<or> 8 < sz then (FAIL, None)
      else (case hex_loop str n 0 0 of
              None \<Rightarrow> (FAIL, None)
            | Some val \<Rightarrow> (if lo > val \<or> val > hi then (FAIL, None) else (SUCCEED, store_uint sz val))))"

text \<open>The macros of \<open>zbxnum.h\<close>; the length \<open>ZBX_SIZE_T_MAX\<close> is any number above the length of the string.\<close>

definition zbx_is_uint31 :: "string \<Rightarrow> int \<times> u64 option" where
  "zbx_is_uint31 str = zbx_is_uint_n_range str (Suc (length str)) 4 0 0x7FFFFFFF"

definition zbx_is_uint64_n :: "string \<Rightarrow> nat \<Rightarrow> int \<times> u64 option" where
  "zbx_is_uint64_n str n = zbx_is_uint_n_range str n 8 0 0xFFFFFFFFFFFFFFFF"

definition zbx_is_int :: "string \<Rightarrow> int \<times> int option" where
  "zbx_is_int str =
     (let (ptr, sign) = (if str \<noteq> [] \<and> hd str = CHR ''-'' then (tl str, -1) else (str, 1))
      in case zbx_is_uint31 ptr of
           (ret, Some val) \<Rightarrow> if ret = SUCCEED then (SUCCEED, Some (int (unat val) * sign)) else (FAIL, None)
         | _ \<Rightarrow> (FAIL, None))"

definition suffix2factor :: "char \<Rightarrow> u64" where
  "suffix2factor c =
     (if c = CHR ''K'' then 1024 else if c = CHR ''M'' then 1048576 else if c = CHR ''G'' then 1073741824
      else if c = CHR ''T'' then 1099511627776 else if c = CHR ''s'' then 1 else if c = CHR ''m'' then 60
      else if c = CHR ''h'' then 3600 else if c = CHR ''d'' then 86400 else if c = CHR ''w'' then 604800 else 1)"

text \<open>
  \<open>zbx_str2uint64\<close>: the empty string makes the code read the character in front of it.  The product wraps.
\<close>

definition zbx_str2uint64 :: "string \<Rightarrow> string \<Rightarrow> (int \<times> u64 option) result" where
  "zbx_str2uint64 str suffixes =
     (if str = [] then Inl BadIndex
      else
        (let (sz, factor) = (if last str \<in> set suffixes then (length str - 1, suffix2factor (last str)) else (length str, 1))
         in case zbx_is_uint64_n str sz of (ret, val) \<Rightarrow> Inr (ret, map_option (\<lambda>v. v * factor) val)))"

section \<open>Trimming\<close>

text \<open>\<open>*p\<close> at an index, NUL at the end of the string.\<close>

definition char_at :: "string \<Rightarrow> int \<Rightarrow> char" where
  "char_at str i = (if 0 \<le> i \<and> i < int (length str) then str ! nat i else CHR 0x00)"

function trim_left :: "string \<Rightarrow> int \<Rightarrow> int" where
  "trim_left str left = (if char_at str left = CHR '' '' then trim_left str (left + 1) else left)"
  by auto
termination by (relation "measure (\<lambda>(str, left). nat (int (length str) - left))") (auto simp: char_at_def split: if_splits)

function trim_right :: "string \<Rightarrow> int \<Rightarrow> int \<Rightarrow> int" where
  "trim_right str left right = (if char_at str right = CHR '' '' \<and> left < right then trim_right str left (right - 1) else right)"
  by auto
termination by (relation "measure (\<lambda>(str, left, right). nat (right - left))") auto

declare trim_left.simps [simp del] trim_right.simps [simp del]

definition zbx_trim_number :: "string \<Rightarrow> bool \<Rightarrow> string" where
  "zbx_trim_number str strip_plus_sign =
     (let left = 0; right = int (length str) - 1
      in if left > right then str
         else
           (let left = trim_left str left;
                right = trim_right str left right;
                (left, right) = (if char_at str left = CHR 0x22 \<and> char_at str right = CHR 0x22 \<and> left < right
                                 then (left + 1, right - 1) else (left, right));
                left = (if strip_plus_sign \<and> char_at str left = CHR ''+'' then left + 1 else left)
            in if left > right then [] else take (nat (right - left + 1)) (drop (nat left) str)))"

definition zbx_trim_integer :: "string \<Rightarrow> string" where
  "zbx_trim_integer str = zbx_trim_number str True"

definition zbx_trim_float :: "string \<Rightarrow> string" where
  "zbx_trim_float str = zbx_trim_number str False"

fun zbx_is_hex_string_loop :: "string \<Rightarrow> int" where
  "zbx_is_hex_string_loop [] = SUCCEED"
| "zbx_is_hex_string_loop (a # str) =
     (if \<not> isxdigit a then FAIL
      else case str of
             [] \<Rightarrow> FAIL
           | b # str \<Rightarrow>
               (if \<not> isxdigit b then FAIL
                else case str of
                       [] \<Rightarrow> SUCCEED
                     | c # str \<Rightarrow> (if c \<noteq> CHR '' '' \<and> c \<noteq> CHR 0x0A then FAIL else zbx_is_hex_string_loop str)))"

definition zbx_is_hex_string :: "string \<Rightarrow> int" where
  "zbx_is_hex_string str = (if str = [] then FAIL else zbx_is_hex_string_loop str)"

section \<open>Decimal and hexadecimal values\<close>

definition digits_val :: "nat \<Rightarrow> (char \<Rightarrow> nat) \<Rightarrow> string \<Rightarrow> nat" where
  "digits_val base dig s = foldl (\<lambda>v c. v * base + dig c) 0 s"

definition dec_digit :: "char \<Rightarrow> nat" where "dec_digit c = ord c - 48"

lemma foldl_digits_ge: "1 \<le> base \<Longrightarrow> v \<le> foldl (\<lambda>v c. v * base + dig c) v s" for v base :: nat
proof (induction s arbitrary: v)
  case (Cons c s)
  have "v \<le> v * base + dig c" using Cons.prems by (cases base) auto
  also have "\<dots> \<le> foldl (\<lambda>v c. v * base + dig c) (v * base + dig c) s" by (rule Cons.IH [OF Cons.prems])
  finally show ?case by simp
qed simp

lemma u64_of_nat: "x < 2 ^ 64 \<Longrightarrow> unat (of_nat x :: u64) = x"
  by (simp add: unat_of_nat)

lemma uint_overflow:
  fixes val :: u64
  assumes "c \<le> 9"
  shows "(- 1 - of_nat c) div 10 < val \<longleftrightarrow> 2 ^ 64 \<le> unat val * 10 + c"
proof -
  have c: "unat (of_nat c :: u64) = c" using assms by (intro u64_of_nat) simp
  have m: "unat (- 1 :: u64) = 2 ^ 64 - 1" by (simp add: unsigned_minus_1_eq_mask mask_eq_exp_minus_1)
  have "unat (- 1 - of_nat c :: u64) = 2 ^ 64 - 1 - c" using unat_sub [of "of_nat c :: u64" "- 1"] by (simp add: c m)
  then have "(- 1 - of_nat c) div 10 < val \<longleftrightarrow> (2 ^ 64 - 1 - c) div 10 < unat val" by (simp add: word_less_nat_alt unat_div)
  also have "\<dots> \<longleftrightarrow> 2 ^ 64 - 1 - c < unat val * 10" by (rule div_less_iff_less_mult) simp
  finally show ?thesis using assms by auto
qed

lemma uint_loop_spec:
  "uint_loop str n val =
     (let v = foldl (\<lambda>v c. v * 10 + dec_digit c) (unat val) (take n str)
      in if list_all isdigit (take n str) \<and> v < 2 ^ 64 then Some (of_nat v) else None)"
proof (induction str n val rule: uint_loop.induct)
  case (1 n val)
  then show ?case using unsigned_less [of val, where ?'a = nat] by simp
next
  case (2 ch str n val)
  show ?case
  proof (cases "0 < n \<and> isdigit ch")
    case False
    then show ?thesis using unsigned_less [of val, where ?'a = nat] by (auto simp: take_Cons' Let_def)
  next
    case True
    then obtain m where m: "n = Suc m" by (cases n) auto
    have d: "dec_digit ch \<le> 9" using True unfolding isdigit_def dec_digit_def by linarith
    let ?v = "unat val * 10 + dec_digit ch"
    have o: "(- 1 - of_nat (dec_digit ch)) div 10 < val \<longleftrightarrow> 2 ^ 64 \<le> ?v" by (rule uint_overflow [OF d])
    show ?thesis
    proof (cases "2 ^ 64 \<le> ?v")
      case True
      then have "2 ^ 64 \<le> foldl (\<lambda>v c. v * 10 + dec_digit c) ?v (take m str)"
        using foldl_digits_ge [of 10 ?v dec_digit "take m str"] by simp
      with True o \<open>0 < n \<and> isdigit ch\<close> m show ?thesis by (simp add: Let_def not_less dec_digit_def)
    next
      case False
      then have "unat (val * 10 + of_nat (dec_digit ch)) = ?v"
        using u64_of_nat [of ?v] by (simp add: not_le)
      with False o 2 \<open>0 < n \<and> isdigit ch\<close> m show ?thesis by (simp add: Let_def dec_digit_def)
    qed
  qed
qed

definition hex_val :: "char \<Rightarrow> nat" where
  "hex_val c = (if ord c \<le> 57 then ord c - 48 else if 97 \<le> ord c then 10 + (ord c - 97) else 10 + (ord c - 65))"

lemma hex_digit_spec: "hex_digit c = (if isxdigit c then Some (of_nat (hex_val c)) else None)"
  by (auto simp: hex_digit_def isxdigit_def isdigit_def hex_val_def)

lemma hex_val_le: "isxdigit c \<Longrightarrow> hex_val c \<le> 15"
  unfolding isxdigit_def isdigit_def hex_val_def by (auto split: if_splits)

lemma hex_overflow:
  fixes val :: u64
  assumes "unat val < 16 ^ len" "c \<le> 15"
  shows "16 < len + 1 \<and> drop_bit 4 (- 1) < val \<longleftrightarrow> 2 ^ 64 \<le> unat val * 16 + c"
proof -
  have "unat (drop_bit 4 (- 1) :: u64) = 2 ^ 60 - 1"
    unfolding unat_drop_bit_eq by (simp add: unsigned_minus_1_eq_mask mask_eq_exp_minus_1 drop_bit_eq_div)
  then have m: "drop_bit 4 (- 1) < val \<longleftrightarrow> 2 ^ 60 \<le> unat val" by (auto simp: word_less_nat_alt)
  have "unat val < 2 ^ 60" if "\<not> 16 < len + 1"
  proof -
    have "(16 :: nat) ^ len \<le> 16 ^ 15" using that by (intro power_increasing) simp_all
    then show ?thesis using assms(1) by simp
  qed
  with m assms(2) show ?thesis by (cases "16 < len + 1") auto
qed

lemma hex_loop_spec:
  "unat val < 16 ^ len \<Longrightarrow> hex_loop str n len val =
     (let v = foldl (\<lambda>v c. v * 16 + hex_val c) (unat val) (take n str)
      in if list_all isxdigit (take n str) \<and> v < 2 ^ 64 then Some (of_nat v) else None)"
proof (induction str n len val rule: hex_loop.induct)
  case (1 n len val)
  then show ?case using unsigned_less [of val, where ?'a = nat] by simp
next
  case (2 ch str n len val)
  show ?case
  proof (cases "0 < n \<and> isxdigit ch")
    case False
    then show ?thesis using unsigned_less [of val, where ?'a = nat] by (auto simp: take_Cons' Let_def hex_digit_spec)
  next
    case True
    then obtain m where m: "n = Suc m" by (cases n) auto
    note d = hex_val_le [of ch]
    let ?v = "unat val * 16 + hex_val ch"
    have o: "16 < len + 1 \<and> drop_bit 4 (- 1) < val \<longleftrightarrow> 2 ^ 64 \<le> ?v" using True d by (intro hex_overflow 2(2)) simp
    have s: "hex_loop (ch # str) n len val = (if 2 ^ 64 \<le> ?v then None else hex_loop str m (len + 1) (push_bit 4 val + of_nat (hex_val ch)))"
      using True m o by (auto simp: hex_digit_spec Let_def)
    show ?thesis
    proof (cases "2 ^ 64 \<le> ?v")
      case True
      then have "2 ^ 64 \<le> foldl (\<lambda>v c. v * 16 + hex_val c) ?v (take m str)"
        using foldl_digits_ge [of 16 ?v hex_val "take m str"] by simp
      with True s m show ?thesis by (simp add: Let_def not_less)
    next
      case False
      have "push_bit 4 val + of_nat (hex_val ch) = of_nat ?v" by (simp add: push_bit_eq_mult mult.commute)
      then have u: "unat (push_bit 4 val + of_nat (hex_val ch)) = ?v" using False u64_of_nat [of ?v] by (simp add: not_le)
      have b: "unat (push_bit 4 val + of_nat (hex_val ch)) < 16 ^ (len + 1)"
      proof -
        have "unat val + 1 \<le> 16 ^ len" using 2(2) by simp
        then have "(unat val + 1) * 16 \<le> 16 ^ len * 16" by (rule mult_le_mono1)
        then show ?thesis unfolding u using True d by simp
      qed
      have "\<not> (16 < len + 1 \<and> drop_bit 4 (- 1) < val)" using o False by blast
      with 2(1) [of "of_nat (hex_val ch)" "len + 1"] True m b
      have "hex_loop str m (len + 1) (push_bit 4 val + of_nat (hex_val ch)) =
          (let v = foldl (\<lambda>v c. v * 16 + hex_val c) ?v (take m str) in if list_all isxdigit (take m str) \<and> v < 2 ^ 64 then Some (of_nat v) else None)"
        by (simp add: hex_digit_spec u)
      with False s True m show ?thesis by simp
    qed
  qed
qed

lemma u64_of_nat_le: "x < 2 ^ 64 \<Longrightarrow> lo \<le> (of_nat x :: u64) \<longleftrightarrow> unat lo \<le> x" "x < 2 ^ 64 \<Longrightarrow> (of_nat x :: u64) \<le> hi \<longleftrightarrow> x \<le> unat hi"
  by (simp_all add: word_le_nat_alt u64_of_nat)

lemma range_result:
  "(case (if P \<and> v < 2 ^ 64 then Some (of_nat v) else None) of
      None \<Rightarrow> (FAIL, None)
    | Some val \<Rightarrow> (if lo > val \<or> val > hi then (FAIL, None) else (SUCCEED, store_uint sz val)))
   = (if P \<and> unat lo \<le> v \<and> v \<le> unat hi then (SUCCEED, store_uint sz (of_nat v)) else (FAIL, None))"
proof (cases "P \<and> v < 2 ^ 64")
  case True
  then have "lo > of_nat v \<or> of_nat v > hi \<longleftrightarrow> \<not> (unat lo \<le> v \<and> v \<le> unat hi)"
    using u64_of_nat_le [of v] by (simp only: not_le [symmetric]) blast
  with True show ?thesis by simp
next
  case False
  then have "\<not> (P \<and> v \<le> unat hi)" using unsigned_less [of hi, where ?'a = nat] by auto
  with False show ?thesis by auto
qed

section \<open>Trimming as list functions\<close>

definition strip_spaces :: "string \<Rightarrow> string" where
  "strip_spaces s = rev (dropWhile (\<lambda>c. c = CHR '' '') (rev (dropWhile (\<lambda>c. c = CHR '' '') s)))"

definition unquote :: "string \<Rightarrow> string" where
  "unquote s = (if 2 \<le> length s \<and> hd s = CHR 0x22 \<and> last s = CHR 0x22 then butlast (tl s) else s)"

definition strip_plus :: "string \<Rightarrow> string" where
  "strip_plus s = (if s \<noteq> [] \<and> hd s = CHR ''+'' then tl s else s)"

text \<open>The characters from index \<open>l\<close> to index \<open>r\<close>.\<close>

definition seg :: "string \<Rightarrow> int \<Rightarrow> int \<Rightarrow> string" where
  "seg s l r = take (nat (r - l + 1)) (drop (nat l) s)"

lemma length_seg: "0 \<le> l \<Longrightarrow> r < int (length s) \<Longrightarrow> length (seg s l r) = nat (r - l + 1)"
  by (simp add: seg_def)

lemma seg_Cons: "0 \<le> l \<Longrightarrow> l \<le> r \<Longrightarrow> r < int (length s) \<Longrightarrow> seg s l r = char_at s l # seg s (l + 1) r"
proof -
  assume *: "0 \<le> l" "l \<le> r" "r < int (length s)"
  then have "nat l < length s" "nat (r - l + 1) = Suc (nat (r - l))" "nat (l + 1) = Suc (nat l)" by simp_all
  then show ?thesis using * by (simp add: seg_def char_at_def flip: Cons_nth_drop_Suc)
qed

lemma seg_snoc: "0 \<le> l \<Longrightarrow> l \<le> r \<Longrightarrow> r < int (length s) \<Longrightarrow> seg s l r = seg s l (r - 1) @ [char_at s r]"
proof -
  assume *: "0 \<le> l" "l \<le> r" "r < int (length s)"
  then have "nat (r - l + 1) = Suc (nat (r - l))" "nat (r - l) < length (drop (nat l) s)" "nat l + nat (r - l) = nat r" by simp_all
  then show ?thesis using * by (simp add: seg_def char_at_def take_Suc_conv_app_nth)
qed

lemma seg_Nil: "r < l \<Longrightarrow> seg s l r = []"
  by (simp add: seg_def)

lemma seg_if: "(if r < l then [] else take (nat (r - l + 1)) (drop (nat l) s)) = seg s l r"
  by (simp add: seg_def)

lemma trim_left_spec:
  "0 \<le> l \<Longrightarrow> l \<le> int (length s) \<Longrightarrow> l \<le> trim_left s l \<and> trim_left s l \<le> int (length s)
     \<and> char_at s (trim_left s l) \<noteq> CHR '' ''
     \<and> seg s (trim_left s l) (int (length s) - 1) = dropWhile (\<lambda>c. c = CHR '' '') (seg s l (int (length s) - 1))"
proof (induction s l rule: trim_left.induct)
  case (1 s l)
  show ?case
  proof (cases "char_at s l = CHR '' ''")
    case True
    then have l: "l < int (length s)" by (auto simp: char_at_def split: if_splits)
    with True 1 seg_Cons [of l "int (length s) - 1" s] show ?thesis by (subst (1 2 3 4) trim_left.simps) auto
  next
    case False
    have "seg s l (int (length s) - 1) = dropWhile (\<lambda>c. c = CHR '' '') (seg s l (int (length s) - 1))"
    proof (cases "l < int (length s)")
      case True
      then show ?thesis using False 1(2) seg_Cons [of l "int (length s) - 1" s] by simp
    qed (simp add: seg_Nil)
    with False 1(2,3) show ?thesis by (subst (1 2 3 4) trim_left.simps) simp
  qed
qed

lemma trim_right_spec:
  "0 \<le> l \<Longrightarrow> l \<le> r \<Longrightarrow> r < int (length s) \<Longrightarrow> char_at s l \<noteq> CHR '' '' \<Longrightarrow> l \<le> trim_right s l r \<and> trim_right s l r \<le> r
     \<and> seg s l (trim_right s l r) = rev (dropWhile (\<lambda>c. c = CHR '' '') (rev (seg s l r)))"
proof (induction s l r rule: trim_right.induct)
  case (1 s l r)
  show ?case
  proof (cases "char_at s r = CHR '' ''")
    case True
    then have "l < r" using 1(3,5) by (cases "l = r") auto
    with True 1 seg_snoc [of l r s] show ?thesis by (subst (1 2 3) trim_right.simps) auto
  next
    case False
    with 1 seg_snoc [of l r s] show ?thesis by (subst (1 2 3) trim_right.simps) auto
  qed
qed

lemma unquote_seg:
  assumes "0 \<le> l" "l \<le> r" "r < int (length s)"
  shows "unquote (seg s l r) = (if char_at s l = CHR 0x22 \<and> char_at s r = CHR 0x22 \<and> l < r then seg s (l + 1) (r - 1) else seg s l r)"
proof (cases "l < r")
  case True
  have e: "seg s l r = char_at s l # seg s (l + 1) (r - 1) @ [char_at s r]"
    using assms True seg_Cons [of l r s] seg_snoc [of "l + 1" r s] by simp
  show ?thesis unfolding unquote_def e using True by (simp add: butlast_append)
next
  case False
  then have "length (seg s l r) = 1" using assms by (simp add: length_seg)
  with False show ?thesis by (simp add: unquote_def)
qed

lemma strip_plus_seg:
  assumes "0 \<le> l" "r < int (length s)" "r < l \<Longrightarrow> char_at s l \<noteq> CHR ''+''"
  shows "strip_plus (seg s l r) = seg s (if char_at s l = CHR ''+'' then l + 1 else l) r"
proof (cases "l \<le> r")
  case True
  with assms seg_Cons [of l r s] show ?thesis by (simp add: strip_plus_def)
next
  case False
  with assms show ?thesis by (simp add: strip_plus_def seg_Nil)
qed

lemma is_uint_range:
  "zbx_is_uint_n_range str n sz lo hi =
     (let v = digits_val 10 dec_digit (take n str)
      in if str \<noteq> [] \<and> n \<noteq> 0 \<and> sz \<le> 8 \<and> list_all isdigit (take n str) \<and> unat lo \<le> v \<and> v \<le> unat hi
         then (SUCCEED, store_uint sz (of_nat v)) else (FAIL, None))"
proof -
  have "uint_loop str n 0 = (let v = digits_val 10 dec_digit (take n str) in if list_all isdigit (take n str) \<and> v < 2 ^ 64 then Some (of_nat v) else None)"
    using uint_loop_spec [of str n 0] by (simp add: digits_val_def)
  then show ?thesis
    unfolding zbx_is_uint_n_range_def Let_def by (cases "str = [] \<or> n = 0 \<or> 8 < sz") (simp_all only: range_result, auto)
qed

lemma is_hex_range:
  "zbx_is_hex_n_range str n sz lo hi =
     (let v = digits_val 16 hex_val (take n str)
      in if str \<noteq> [] \<and> n \<noteq> 0 \<and> sz \<le> 8 \<and> list_all isxdigit (take n str) \<and> unat lo \<le> v \<and> v \<le> unat hi
         then (SUCCEED, store_uint sz (of_nat v)) else (FAIL, None))"
proof -
  have "hex_loop str n 0 0 = (let v = digits_val 16 hex_val (take n str) in if list_all isxdigit (take n str) \<and> v < 2 ^ 64 then Some (of_nat v) else None)"
    using hex_loop_spec [of 0 0 str n] by (simp add: digits_val_def)
  then show ?thesis
    unfolding zbx_is_hex_n_range_def Let_def by (cases "str = [] \<or> n = 0 \<or> 8 < sz") (simp_all only: range_result, auto)
qed

lemma is_uint31:
  "zbx_is_uint31 s = (let v = digits_val 10 dec_digit s
     in if s \<noteq> [] \<and> list_all isdigit s \<and> v \<le> 2147483647 then (SUCCEED, Some (of_nat v)) else (FAIL, None))"
proof -
  have t: "take_bit 32 (of_nat v :: u64) = of_nat v" if "v \<le> 2147483647" for v
  proof -
    have "take_bit 32 v = v" using that by (simp add: take_bit_nat_eq_self)
    then show ?thesis by (simp add: take_bit_of_nat flip: of_nat_take_bit)
  qed
  show ?thesis unfolding zbx_is_uint31_def is_uint_range Let_def by (auto simp: store_uint_def t)
qed

section \<open>Properties\<close>

text \<open>
  C28. Conversion of unsigned numbers is exact: decimal and hexadecimal strings of at most \<open>n\<close> characters are
  accepted exactly if they are non-empty, have digits only and a value within the range, and what is stored
  is that value, cut to the size of the buffer; no string is accepted through a wrap-around.
\<close>

theorem is_uint_n_range_exact:
  "zbx_is_uint_n_range str n sz lo hi =
     (let v = digits_val 10 dec_digit (take n str)
      in if str \<noteq> [] \<and> n \<noteq> 0 \<and> sz \<le> 8 \<and> list_all isdigit (take n str) \<and> unat lo \<le> v \<and> v \<le> unat hi
         then (SUCCEED, store_uint sz (of_nat v)) else (FAIL, None))
   \<and> zbx_is_hex_n_range str n sz lo hi =
     (let v = digits_val 16 hex_val (take n str)
      in if str \<noteq> [] \<and> n \<noteq> 0 \<and> sz \<le> 8 \<and> list_all isxdigit (take n str) \<and> unat lo \<le> v \<and> v \<le> unat hi
         then (SUCCEED, store_uint sz (of_nat v)) else (FAIL, None))"
  by (intro conjI is_uint_range is_hex_range)

definition trim_ends :: "string \<Rightarrow> int \<Rightarrow> int \<Rightarrow> int \<times> int" where
  "trim_ends str l r = (if char_at str l = CHR 0x22 \<and> char_at str r = CHR 0x22 \<and> l < r then (l + 1, r - 1) else (l, r))"

lemma trim_number_seg:
  assumes "str \<noteq> []" and l: "l = trim_left str 0" and r: "r = trim_right str l (int (length str) - 1)"
    and e: "trim_ends str l r = (l', r')"
  shows "zbx_trim_number str b = seg str (if b \<and> char_at str l' = CHR ''+'' then l' + 1 else l') r'"
proof -
  have n: "0 < int (length str)" using assms(1) by simp
  show ?thesis
    using n unfolding zbx_trim_number_def Let_def l [symmetric] r [symmetric] e [unfolded trim_ends_def] prod.case by (simp add: seg_if)
qed

lemma trim_ends_unquote:
  assumes "str \<noteq> []" and l: "l = trim_left str 0" and r: "r = trim_right str l (int (length str) - 1)"
    and e: "trim_ends str l r = (l', r')"
  shows "unquote (strip_spaces str) = seg str l' r' \<and> 0 \<le> l' \<and> r' < int (length str) \<and> (r' < l' \<longrightarrow> char_at str l' \<noteq> CHR ''+'')"
proof -
  let ?n = "int (length str)"
  have "seg str 0 (?n - 1) = str" by (simp add: seg_def)
  then have L: "0 \<le> l" "l \<le> ?n" "char_at str l \<noteq> CHR '' ''" "seg str l (?n - 1) = dropWhile (\<lambda>c. c = CHR '' '') str"
    using trim_left_spec [of 0 str] assms(1) by (simp_all add: l)
  show ?thesis
  proof (cases "l < ?n")
    case True
    then have R: "l \<le> r" "r \<le> ?n - 1" "seg str l r = strip_spaces str"
      using trim_right_spec [of l "?n - 1" str] L by (simp_all add: r strip_spaces_def)
    have "char_at str (l + 1) \<noteq> CHR ''+''" if "char_at str r = CHR 0x22" "l < r" "r - 1 < l + 1"
    proof -
      have "r = l + 1" using that by linarith
      with that(1) show ?thesis by auto
    qed
    then show ?thesis using unquote_seg [of l r str] R L(1) e by (auto simp: trim_ends_def split: if_splits)
  next
    case False
    then have "l = ?n" "r = ?n - 1" using L(2) by (simp_all add: r trim_right.simps)
    then show ?thesis using L(4) e by (auto simp: trim_ends_def strip_spaces_def unquote_def seg_Nil char_at_def)
  qed
qed

text \<open>
  Trimming a number is what its description says: strip the spaces at both ends, take off one pair of
  double quotes, and for integers one leading plus sign.
\<close>

theorem trim_number_spec:
  "zbx_trim_integer str = strip_plus (unquote (strip_spaces str)) \<and> zbx_trim_float str = unquote (strip_spaces str)"
proof (cases "str = []")
  case True
  then show ?thesis by (simp add: zbx_trim_integer_def zbx_trim_float_def zbx_trim_number_def strip_plus_def unquote_def strip_spaces_def)
next
  case False
  define l where "l = trim_left str 0"
  define r where "r = trim_right str l (int (length str) - 1)"
  obtain l' r' where e: "trim_ends str l r = (l', r')" by (cases "trim_ends str l r")
  note u = trim_ends_unquote [OF False l_def r_def e] and s = trim_number_seg [OF False l_def r_def e]
  show ?thesis unfolding zbx_trim_integer_def zbx_trim_float_def s using strip_plus_seg [of l' r' str] u by simp
qed

text \<open>
  A signed number is accepted exactly as an optional minus sign and digits of value at most
  2147483647; the smallest 32-bit integer is therefore refused.
\<close>

theorem is_int_exact:
  "zbx_is_int str =
     (let neg = str \<noteq> [] \<and> hd str = CHR ''-''; ds = (if neg then tl str else str); v = digits_val 10 dec_digit ds
      in if ds \<noteq> [] \<and> list_all isdigit ds \<and> v \<le> 2147483647 then (SUCCEED, Some (if neg then - int v else int v)) else (FAIL, None))"
proof -
  have u: "int (unat (of_nat v :: u64)) = int v" if "v \<le> 2147483647" for v
    using u64_of_nat [of v] that by (simp del: of_nat_unat)
  have e: "zbx_is_int str = (let neg = str \<noteq> [] \<and> hd str = CHR ''-''; ds = (if neg then tl str else str)
      in case zbx_is_uint31 ds of (ret, Some val) \<Rightarrow> if ret = SUCCEED then (SUCCEED, Some (int (unat val) * (if neg then -1 else 1))) else (FAIL, None) | _ \<Rightarrow> (FAIL, None))"
    by (simp add: zbx_is_int_def Let_def)
  show ?thesis unfolding e is_uint31 Let_def by (auto simp: u simp del: of_nat_unat)
qed

text \<open>
  A number with a unit suffix is multiplied without a check: the result is the product modulo two to
  the power 64, so a large value turns into a small one and is still reported as valid.
\<close>

theorem str2uint64_wraps:
  assumes "ds \<noteq> []" "list_all isdigit ds" "digits_val 10 dec_digit ds < 2 ^ 64" "c \<in> set suffixes"
  shows "zbx_str2uint64 (ds @ [c]) suffixes = Inr (SUCCEED, Some (of_nat (digits_val 10 dec_digit ds * unat (suffix2factor c))))"
proof -
  let ?v = "digits_val 10 dec_digit ds"
  have t: "take_bit 64 (of_nat ?v :: u64) = of_nat ?v" by (rule take_bit_word_eq_self) simp
  have "unat (0xFFFFFFFFFFFFFFFF :: u64) = 2 ^ 64 - 1" by simp
  then have "zbx_is_uint64_n (ds @ [c]) (length ds) = (SUCCEED, Some (of_nat ?v))"
    using assms(1-3) unfolding zbx_is_uint64_n_def is_uint_range Let_def by (simp add: store_uint_def t)
  then show ?thesis using assms(4) by (simp add: zbx_str2uint64_def)
qed

theorem str2uint64_wraps_witness: "zbx_str2uint64 ''17179869184G'' ''KMGT'' = Inr (SUCCEED, Some 0)"
  using str2uint64_wraps [of "''17179869184''" "CHR ''G''" "''KMGT''"]
  by (simp add: isdigit_def digits_val_def dec_digit_def suffix2factor_def)

end
