(* ===== verification/Ip_Range.thy ===== *)
theory Ip_Range
  imports Num_Parse
begin

text \<open>
  \<open>src/libs/zbxip/iprange.c\<close> and \<open>ip.c\<close>: ranges of IP addresses, as discovery rules, allowed hosts and
  filters give them, and the lists of such ranges.

  A position in the parsed text is its distance from the first character; a read behind the
  terminating NUL and a write behind the eighth group are the value \<open>Inl BadIndex\<close>.  An address is the
  array of its groups, at least eight long.  After \<open>FAIL\<close> the callers never look at the range again, so
  a failed parse returns no range.
\<close>

section \<open>Data\<close>

datatype iprange_type = ZBX_IPRANGE_V4 | ZBX_IPRANGE_V6

record zbx_range =
  from_of :: int
  to_of :: int

record zbx_iprange =
  range_of :: "zbx_range list"
  type_of :: iprange_type
  mask_of :: int

definition mk_range :: "int \<Rightarrow> int \<Rightarrow> zbx_range" where
  "mk_range f t = \<lparr>from_of = f, to_of = t\<rparr>"

definition iprange_groups :: "zbx_iprange \<Rightarrow> nat" where
  "iprange_groups r = (case type_of r of ZBX_IPRANGE_V4 \<Rightarrow> 4 | ZBX_IPRANGE_V6 \<Rightarrow> 8)"

section \<open>Parsing\<close>

definition iprange_is_whitespace_character :: "char \<Rightarrow> bool" where
  "iprange_is_whitespace_character c \<longleftrightarrow> c = CHR '' '' \<or> c = CHR 0x0D \<or> c = CHR 0x0A \<or> c = CHR 0x09"

definition iprange_address_length :: "string \<Rightarrow> nat" where
  "iprange_address_length address = length (dropWhile iprange_is_whitespace_character (rev address))"

text \<open>\<open>strchr\<close> from a position on.\<close>

definition strchr :: "string \<Rightarrow> nat \<Rightarrow> char \<Rightarrow> nat option" where
  "strchr s i c = (let k = i + length (takeWhile (\<lambda>x. x \<noteq> c) (drop i s)) in if k < length s then Some k else None)"

text \<open>What a conversion stored in a four byte integer.\<close>

definition stored_int :: "int \<times> u64 option \<Rightarrow> int option" where
  "stored_int r = (case r of (ret, val) \<Rightarrow> if ret = FAIL then None else map_option (\<lambda>v. int (unat v)) val)"

text \<open>The loop of \<open>iprange_apply_mask\<close>; the groups are combined with unsigned masks of 32 bits.\<close>

definition mask_empty :: "nat \<Rightarrow> u32" where "mask_empty mask_bits = push_bit mask_bits (- 1)"
definition mask_fill :: "nat \<Rightarrow> u32" where "mask_fill mask_bits = drop_bit (32 - mask_bits) (- 1)"

definition mask_group :: "nat \<Rightarrow> zbx_range \<Rightarrow> zbx_range" where
  "mask_group mask_bits g =
     mk_range (sint (word_of_int (from_of g) AND mask_empty mask_bits)) (sint (word_of_int (to_of g) OR mask_fill mask_bits))"

function apply_mask_loop :: "nat \<Rightarrow> zbx_range list \<Rightarrow> nat \<Rightarrow> nat \<Rightarrow> zbx_range list" where
  "apply_mask_loop group_bits rs i bits =
     (if 0 < bits \<and> 0 < group_bits
      then apply_mask_loop group_bits (rs[i := mask_group (min bits group_bits) (rs ! i)]) (i - 1) (bits - group_bits)
      else rs)"
  by auto
termination by (relation "measure (\<lambda>(group_bits, rs, i, bits). bits)") auto

declare apply_mask_loop.simps [simp del]

definition iprange_apply_mask :: "zbx_iprange \<Rightarrow> int \<Rightarrow> zbx_iprange" where
  "iprange_apply_mask iprange bits =
     (let (groups, group_bits) = (case type_of iprange of ZBX_IPRANGE_V4 \<Rightarrow> (4, 8) | ZBX_IPRANGE_V6 \<Rightarrow> (8, 16))
      in iprange\<lparr>range_of := apply_mask_loop group_bits (range_of iprange) (groups - 1) (nat (int (groups * group_bits) - bits))\<rparr>)"

text \<open>
  One group of an address: its end and its range, or \<open>None\<close> where the code returns \<open>FAIL\<close>.  The two
  address families differ in the delimiter and in the conversion.
\<close>

definition parse_group ::
  "char \<Rightarrow> (string \<Rightarrow> nat \<Rightarrow> int option) \<Rightarrow> string \<Rightarrow> nat \<Rightarrow> int \<Rightarrow> nat \<Rightarrow> (nat \<times> zbx_range) option" where
  "parse_group delim conv s fin bits address =
     (let ptr = (case strchr s address delim of None \<Rightarrow> fin | Some p \<Rightarrow> p);
          dash = strchr s address CHR ''-''
      in if dash \<noteq> None \<and> bits \<noteq> -1 then None
         else
           (let dash = (case dash of None \<Rightarrow> None | Some d \<Rightarrow> if d > ptr then None else Some d);
                len = (case dash of None \<Rightarrow> ptr | Some d \<Rightarrow> d) - address
            in case conv (drop address s) len of
                 None \<Rightarrow> None
               | Some f \<Rightarrow>
                   (case dash of
                      None \<Rightarrow> Some (ptr, mk_range f f)
                    | Some d \<Rightarrow>
                        (case conv (drop (d + 1) s) (ptr - (d + 1)) of
                           None \<Rightarrow> None
                         | Some t \<Rightarrow> if t < f then None else Some (ptr, mk_range f t)))))"

definition v4_conv :: "string \<Rightarrow> nat \<Rightarrow> int option" where
  "v4_conv s n = stored_int (zbx_is_uint_n_range s n 4 0 255)"

definition v6_conv :: "string \<Rightarrow> nat \<Rightarrow> int option" where
  "v6_conv s n = stored_int (zbx_is_hex_n_range s n 4 0 65535)"

text \<open>The loop over the groups of an IPv4 address: the number of groups read and the array.\<close>

function iprangev4_loop :: "string \<Rightarrow> nat \<Rightarrow> int \<Rightarrow> nat \<Rightarrow> nat \<Rightarrow> nat \<Rightarrow> zbx_range list \<Rightarrow> (nat \<times> zbx_range list) option" where
  "iprangev4_loop s fin bits index ptr address rs =
     (if ptr < fin \<and> index < 4
      then (case parse_group CHR ''.'' v4_conv s fin bits address of
              None \<Rightarrow> None
            | Some (ptr, g) \<Rightarrow> iprangev4_loop s fin bits (index + 1) ptr (ptr + 1) (rs[index := g]))
      else Some (index, rs))"
  by auto
termination by (relation "measure (\<lambda>(s, fin, bits, index, ptr, address, rs). 4 - index)") auto

declare iprangev4_loop.simps [simp del]

text \<open>The part behind the slash: the position where the address ends and the bits, -1 without mask.\<close>

definition parse_mask :: "string \<Rightarrow> u64 \<Rightarrow> (nat \<times> int \<times> int) option" where
  "parse_mask s hi =
     (let len = iprange_address_length s
      in case strchr s 0 CHR ''/'' of
           None \<Rightarrow> Some (len, -1, 0)
         | Some fin \<Rightarrow>
             map_option (\<lambda>bits. (fin, bits, 1)) (stored_int (zbx_is_uint_n_range (drop (fin + 1) s) (len - (fin + 1)) 4 0 hi)))"

definition iprangev4_parse :: "zbx_iprange \<Rightarrow> string \<Rightarrow> zbx_iprange option" where
  "iprangev4_parse iprange s =
     (case parse_mask s 30 of
        None \<Rightarrow> None
      | Some (fin, bits, msk) \<Rightarrow>
          (case iprangev4_loop s fin bits 0 0 0 (range_of iprange) of
             None \<Rightarrow> None
           | Some (index, rs) \<Rightarrow>
               if index \<noteq> 4 then None
               else
                 (let iprange = iprange\<lparr>range_of := rs, type_of := ZBX_IPRANGE_V4, mask_of := msk\<rparr>
                  in Some (if bits \<noteq> -1 then iprange_apply_mask iprange bits else iprange))))"

text \<open>
  IPv6.  After each group the code looks for a double colon; an address that starts with one jumps to
  that test at once.  The result of one turn: failure, the end of the loop, or the next turn.
\<close>

datatype v6_step = V6_fail | V6_stop nat int "zbx_range list" | V6_next nat int nat "zbx_range list"

definition v6_check_fill :: "string \<Rightarrow> nat \<Rightarrow> nat \<Rightarrow> int \<Rightarrow> nat \<Rightarrow> zbx_range list \<Rightarrow> v6_step result" where
  "v6_check_fill s fin index fill ptr rs =
     (if ptr < length s \<and> ptr + 1 < length s \<and> s ! (ptr + 1) = CHR '':''
      then
        (if fill \<noteq> -1 then Inr V6_fail
         else if length rs \<le> index then Inl BadIndex
         else
           (let rs = rs[index := mk_range 0 0]; fill = int index; index = index + 1; ptr = ptr + 1
            in Inr (if ptr + 1 = fin then V6_stop index fill rs else V6_next index fill ptr rs)))
      else Inr (V6_next index fill ptr rs))"

definition v6_turn :: "string \<Rightarrow> nat \<Rightarrow> int \<Rightarrow> nat \<Rightarrow> int \<Rightarrow> nat \<Rightarrow> zbx_range list \<Rightarrow> v6_step result" where
  "v6_turn s fin bits index fill address rs =
     (let ptr = (case strchr s address CHR '':'' of None \<Rightarrow> fin | Some p \<Rightarrow> p)
      in if ptr = address
         then
           (if length s < ptr + 1 then Inl BadIndex
            else if ptr + 1 = length s \<or> s ! (ptr + 1) \<noteq> CHR '':'' then Inr V6_fail
            else v6_check_fill s fin index fill ptr rs)
         else
           (case parse_group CHR '':'' v6_conv s fin bits address of
              None \<Rightarrow> Inr V6_fail
            | Some (ptr, g) \<Rightarrow> v6_check_fill s fin (index + 1) fill ptr (rs[index := g])))"

lemma v6_turn_progress:
  "v6_turn s fin bits index fill address rs = Inr (V6_next index' fill' ptr' rs') \<Longrightarrow> index < index'"
  by (auto simp: v6_turn_def v6_check_fill_def Let_def split: if_splits option.splits)

function iprangev6_loop ::
  "string \<Rightarrow> nat \<Rightarrow> int \<Rightarrow> nat \<Rightarrow> int \<Rightarrow> nat \<Rightarrow> nat \<Rightarrow> zbx_range list \<Rightarrow> (nat \<times> int \<times> zbx_range list) option result" where
  "iprangev6_loop s fin bits index fill ptr address rs =
     (if ptr < fin \<and> index < 8
      then (case v6_turn s fin bits index fill address rs of
              Inl e \<Rightarrow> Inl e
            | Inr V6_fail \<Rightarrow> Inr None
            | Inr (V6_stop index fill rs) \<Rightarrow> Inr (Some (index, fill, rs))
            | Inr (V6_next index fill ptr rs) \<Rightarrow> iprangev6_loop s fin bits index fill ptr (ptr + 1) rs)
      else Inr (Some (index, fill, rs)))"
  by auto
termination
  by (relation "measure (\<lambda>(s, fin, bits, index, fill, ptr, address, rs). 8 - index)") (auto dest!: v6_turn_progress)

declare iprangev6_loop.simps [simp del]

text \<open>The two loops that expand a double colon: the second part moves to the end, zeros fill the middle.\<close>

fun shift_groups :: "zbx_range list \<Rightarrow> nat \<Rightarrow> nat \<Rightarrow> nat \<Rightarrow> zbx_range list \<times> nat" where
  "shift_groups rs fill 0 target = (rs, target)"
| "shift_groups rs fill (Suc index) target =
     (if fill < index then shift_groups (rs[target := rs ! index]) fill index (target - 1) else (rs, target))"

fun zero_groups :: "zbx_range list \<Rightarrow> nat \<Rightarrow> nat \<Rightarrow> zbx_range list" where
  "zero_groups rs fill 0 = rs"
| "zero_groups rs fill (Suc target) =
     (if fill < Suc target then zero_groups (rs[Suc target := mk_range 0 0]) fill target else rs)"

definition v6_expand :: "nat \<Rightarrow> int \<Rightarrow> zbx_range list \<Rightarrow> zbx_range list" where
  "v6_expand index fill rs =
     (if index < 8 then (case shift_groups rs (nat fill) index 7 of (rs, target) \<Rightarrow> zero_groups rs (nat fill) target) else rs)"

definition iprangev6_parse :: "zbx_iprange \<Rightarrow> string \<Rightarrow> zbx_iprange option result" where
  "iprangev6_parse iprange s =
     (case parse_mask s 128 of
        None \<Rightarrow> Inr None
      | Some (fin, bits, msk) \<Rightarrow>
          bind_result (iprangev6_loop s fin bits 0 (-1) 0 0 (range_of iprange))
            (\<lambda>res. case res of
               None \<Rightarrow> Inr None
             | Some (index, fill, rs) \<Rightarrow>
                 if 8 < index then Inr None
                 else if index < 8 \<and> fill = -1 then Inr None
                 else
                   (let iprange = iprange\<lparr>range_of := v6_expand index fill rs, type_of := ZBX_IPRANGE_V6, mask_of := msk\<rparr>
                    in Inr (Some (if bits \<noteq> -1 then iprange_apply_mask iprange bits else iprange)))))"

definition zbx_iprange_parse :: "zbx_iprange \<Rightarrow> string \<Rightarrow> zbx_iprange option result" where
  "zbx_iprange_parse iprange address =
     (let address = dropWhile iprange_is_whitespace_character address
      in if CHR ''.'' \<in> set address then Inr (iprangev4_parse iprange address) else iprangev6_parse iprange address)"

section \<open>Walking through a range\<close>

definition zbx_iprange_first :: "zbx_iprange \<Rightarrow> int list \<Rightarrow> int list" where
  "zbx_iprange_first iprange address =
     (let groups = iprange_groups iprange;
          address = map from_of (take groups (range_of iprange)) @ drop groups address
      in if type_of iprange = ZBX_IPRANGE_V4 \<and> mask_of iprange \<noteq> 0
         then address[groups - 1 := address ! (groups - 1) + 1] else address)"

text \<open>The inner loop of \<open>zbx_iprange_next\<close>: is some group not yet at its end?\<close>

fun differs_from_end :: "zbx_iprange \<Rightarrow> int list \<Rightarrow> nat \<Rightarrow> bool" where
  "differs_from_end iprange address 0 = False"
| "differs_from_end iprange address (Suc i) =
     (if address ! i \<noteq> to_of (range_of iprange ! i) then True else differs_from_end iprange address i)"

fun iprange_next_loop :: "zbx_iprange \<Rightarrow> int list \<Rightarrow> nat \<Rightarrow> int \<times> int list" where
  "iprange_next_loop iprange address 0 = (FAIL, address)"
| "iprange_next_loop iprange address (Suc i) =
     (let g = range_of iprange ! i
      in if address ! i < to_of g
         then
           (let address = address[i := address ! i + 1]
            in if type_of iprange = ZBX_IPRANGE_V4 \<and> mask_of iprange \<noteq> 0
               then (if differs_from_end iprange address (iprange_groups iprange) then (SUCCEED, address) else (FAIL, address))
               else (SUCCEED, address))
         else iprange_next_loop iprange (if from_of g < to_of g then address[i := from_of g] else address) i)"

definition zbx_iprange_next :: "zbx_iprange \<Rightarrow> int list \<Rightarrow> int \<times> int list" where
  "zbx_iprange_next iprange address = iprange_next_loop iprange address (iprange_groups iprange)"

definition zbx_iprange_validate :: "zbx_iprange \<Rightarrow> int list \<Rightarrow> int" where
  "zbx_iprange_validate iprange address =
     (if list_all (\<lambda>i. \<not> (address ! i < from_of (range_of iprange ! i) \<or> address ! i > to_of (range_of iprange ! i)))
           [0..<iprange_groups iprange]
      then SUCCEED else FAIL)"

fun volume_loop :: "zbx_range list \<Rightarrow> u64 \<Rightarrow> u64 option result" where
  "volume_loop [] volume = Inr (Some volume)"
| "volume_loop (g # gs) volume =
     (let n = word_of_int (to_of g - from_of g + 1)
      in if n = 0 then Inl DivByZero
         else if - 1 div n < volume then Inr None
         else volume_loop gs (volume * n))"

definition zbx_iprange_volume :: "zbx_iprange \<Rightarrow> u64 result" where
  "zbx_iprange_volume iprange =
     bind_result (volume_loop (take (iprange_groups iprange) (range_of iprange)) 1)
       (\<lambda>v. case v of
          None \<Rightarrow> Inr (- 1)
        | Some volume \<Rightarrow>
            Inr (if type_of iprange = ZBX_IPRANGE_V4 \<and> mask_of iprange \<noteq> 0 then volume - 2 else volume))"

text \<open>
  The loop of \<open>process_rule\<close> in \<open>discoverer.c\<close> over the addresses of a range: \<open>do ... while (SUCCEED == zbx_iprange_next(...))\<close>.
\<close>

fun iprange_walk :: "nat \<Rightarrow> zbx_iprange \<Rightarrow> int list \<Rightarrow> int list list option" where
  "iprange_walk 0 iprange address = None"
| "iprange_walk (Suc fuel) iprange address =
     (case zbx_iprange_next iprange address of
        (ret, address') \<Rightarrow>
          if ret = SUCCEED then map_option ((#) address) (iprange_walk fuel iprange address') else Some [address])"

section \<open>Addresses and lists of ranges\<close>

text \<open>
  The loop of \<open>zbx_is_ip4\<close>: digits of the current octet, dots, value of the octet.  The octet is an
  unbounded integer; more than three digits are refused whatever their value.
\<close>

fun is_ip4_loop :: "string \<Rightarrow> nat \<Rightarrow> nat \<Rightarrow> nat \<Rightarrow> nat \<times> nat \<times> nat" where
  "is_ip4_loop [] digits dots octet = (digits, dots, octet)"
| "is_ip4_loop (c # p) digits dots octet =
     (if isdigit c then is_ip4_loop p (digits + 1) dots (octet * 10 + (ord c - 48))
      else if c = CHR ''.'' then
        (if digits = 0 \<or> 3 < digits \<or> 255 < octet then (digits, dots, octet) else is_ip4_loop p 0 (dots + 1) 0)
      else (0, dots, octet))"

definition zbx_is_ip4 :: "string \<Rightarrow> int" where
  "zbx_is_ip4 ip =
     (case is_ip4_loop ip 0 0 0 of
        (digits, dots, octet) \<Rightarrow> if dots = 3 \<and> 1 \<le> digits \<and> digits \<le> 3 \<and> octet \<le> 255 then SUCCEED else FAIL)"

text \<open>The loop of \<open>zbx_is_ip6\<close>, with the text that is left when it stops.\<close>

fun is_ip6_loop :: "string \<Rightarrow> nat \<Rightarrow> nat \<Rightarrow> nat \<Rightarrow> nat \<Rightarrow> nat \<times> nat \<times> nat \<times> nat \<times> string" where
  "is_ip6_loop [] xdigits only_xdigits colons dbl_colons = (xdigits, only_xdigits, colons, dbl_colons, [])"
| "is_ip6_loop (c # p) xdigits only_xdigits colons dbl_colons =
     (if isxdigit c then is_ip6_loop p (xdigits + 1) 1 colons dbl_colons
      else if c = CHR '':'' then
        (let (only_xdigits, dbl_colons) =
               (if xdigits = 0 \<and> 0 < colons then (1, dbl_colons + 1) else (only_xdigits, dbl_colons))
         in if 4 < xdigits \<or> 1 < dbl_colons then (xdigits, only_xdigits, colons, dbl_colons, c # p)
            else is_ip6_loop p 0 only_xdigits (colons + 1) dbl_colons)
      else (xdigits, 0, colons, dbl_colons, c # p))"

text \<open>Behind the last colon, \<open>strrchr (ip, ':') + 1\<close>.\<close>

definition after_last_colon :: "string \<Rightarrow> string" where
  "after_last_colon ip = rev (takeWhile (\<lambda>c. c \<noteq> CHR '':'') (rev ip))"

definition zbx_is_ip6 :: "string \<Rightarrow> int" where
  "zbx_is_ip6 ip =
     (case is_ip6_loop ip 0 0 0 0 of
        (xdigits, only_xdigits, colons, dbl_colons, p) \<Rightarrow>
          if colons < 2 \<or> 7 < colons \<or> 1 < dbl_colons \<or> 4 < xdigits then FAIL
          else if only_xdigits = 1 then SUCCEED
          else if colons < 7 \<and> length p \<le> length (after_last_colon ip) then zbx_is_ip4 (after_last_colon ip)
          else FAIL)"

definition zbx_is_supported_ip :: "string \<Rightarrow> int" where
  "zbx_is_supported_ip ip =
     (if zbx_is_ip4 ip = SUCCEED then SUCCEED else if zbx_is_ip6 ip = SUCCEED then SUCCEED else FAIL)"

definition zbx_is_ip :: "string \<Rightarrow> int" where
  "zbx_is_ip ip = (if zbx_is_ip4 ip = SUCCEED then SUCCEED else zbx_is_ip6 ip)"

text \<open>
  \<open>zbx_ip_in_list\<close> in a build with IPv6.  \<open>iprange\<close> and \<open>ipaddress\<close> are the uninitialised local variables;
  a parse that succeeds writes every group that is read later, so the loop may start each parse from
  the same contents.
\<close>

function ip_in_list_loop :: "zbx_iprange \<Rightarrow> int list \<Rightarrow> string \<Rightarrow> int result" where
  "ip_in_list_loop iprange ipaddress list =
     (let address = takeWhile (\<lambda>c. c \<noteq> CHR '','') list; ptr = dropWhile (\<lambda>c. c \<noteq> CHR '','') list
      in case zbx_iprange_parse iprange address of
           Inl e \<Rightarrow> Inl e
         | Inr res \<Rightarrow>
             if (case res of None \<Rightarrow> False | Some r \<Rightarrow> zbx_iprange_validate r ipaddress = SUCCEED) then Inr SUCCEED
             else if ptr = [] then Inr FAIL
             else ip_in_list_loop iprange ipaddress (tl ptr))"
  by auto
termination
proof (relation "measure (\<lambda>(iprange, ipaddress, list). length list)")
  fix list :: string and ptr and iprange :: zbx_iprange and ipaddress :: "int list"
  assume ptr: "ptr = dropWhile (\<lambda>c. c \<noteq> CHR '','') list" "ptr \<noteq> []"
  have "length (tl ptr) < length ptr" using ptr(2) by (cases ptr) auto
  also have "\<dots> \<le> length list" unfolding ptr(1) by (rule length_dropWhile_le)
  finally show "((iprange, ipaddress, tl ptr), iprange, ipaddress, list) \<in> measure (\<lambda>(iprange, ipaddress, list). length list)"
    by simp
qed simp

declare ip_in_list_loop.simps [simp del]

definition zbx_ip_in_list :: "zbx_iprange \<Rightarrow> int list \<Rightarrow> string \<Rightarrow> string \<Rightarrow> int result" where
  "zbx_ip_in_list iprange ipaddress list ip =
     bind_result (zbx_iprange_parse iprange ip)
       (\<lambda>res. case res of
          None \<Rightarrow> Inr FAIL
        | Some r \<Rightarrow> if list = [] then Inr FAIL else ip_in_list_loop iprange (zbx_iprange_first r ipaddress) list)"

section \<open>Addresses as numbers\<close>

text \<open>
  An address inside a range is a number in a mixed radix system whose digits are the distances from the
  starts of the groups.  \<open>range_rank\<close> is that number for the first groups and \<open>range_vol\<close> the number of
  addresses of the first groups.
\<close>

definition group_width :: "zbx_range \<Rightarrow> int" where
  "group_width g = to_of g - from_of g + 1"

fun range_vol :: "zbx_range list \<Rightarrow> nat \<Rightarrow> int" where
  "range_vol rs 0 = 1"
| "range_vol rs (Suc i) = range_vol rs i * group_width (rs ! i)"

fun range_rank :: "zbx_range list \<Rightarrow> int list \<Rightarrow> nat \<Rightarrow> int" where
  "range_rank rs a 0 = 0"
| "range_rank rs a (Suc i) = range_rank rs a i * group_width (rs ! i) + (a ! i - from_of (rs ! i))"

definition in_groups :: "zbx_range list \<Rightarrow> int list \<Rightarrow> nat \<Rightarrow> bool" where
  "in_groups rs a n \<longleftrightarrow> n \<le> length a \<and> (\<forall>i<n. from_of (rs ! i) \<le> a ! i \<and> a ! i \<le> to_of (rs ! i))"

definition wf_iprange :: "zbx_iprange \<Rightarrow> bool" where
  "wf_iprange r \<longleftrightarrow>
     length (range_of r) = 8 \<and>
     (\<forall>i<iprange_groups r. 0 \<le> from_of (range_of r ! i) \<and> from_of (range_of r ! i) \<le> to_of (range_of r ! i)
        \<and> to_of (range_of r ! i) < (case type_of r of ZBX_IPRANGE_V4 \<Rightarrow> 256 | ZBX_IPRANGE_V6 \<Rightarrow> 65536)) \<and>
     (type_of r = ZBX_IPRANGE_V4 \<and> mask_of r \<noteq> 0 \<longrightarrow> from_of (range_of r ! 3) + 3 \<le> to_of (range_of r ! 3))"

lemma in_groups_Suc: "in_groups rs a (Suc n) \<longleftrightarrow> in_groups rs a n \<and> n < length a \<and> from_of (rs ! n) \<le> a ! n \<and> a ! n \<le> to_of (rs ! n)"
  by (auto simp: in_groups_def less_Suc_eq)

lemma range_rank_cong: "(\<And>j. j < i \<Longrightarrow> a ! j = b ! j) \<Longrightarrow> range_rank rs a i = range_rank rs b i"
  by (induction i) auto

lemma range_rank_update [simp]: "i \<le> k \<Longrightarrow> range_rank rs (a[k := x]) i = range_rank rs a i"
  by (rule range_rank_cong) simp

lemma in_groups_update [simp]: "i \<le> k \<Longrightarrow> in_groups rs (a[k := x]) i = in_groups rs a i"
  by (auto simp: in_groups_def)

lemma in_groups_iff_validate:
  "iprange_groups r \<le> length a \<Longrightarrow> zbx_iprange_validate r a = SUCCEED \<longleftrightarrow> in_groups (range_of r) a (iprange_groups r)"
  by (auto simp: zbx_iprange_validate_def in_groups_def list_all_iff not_less)

lemma range_vol_pos: "\<forall>i<n. from_of (rs ! i) \<le> to_of (rs ! i) \<Longrightarrow> 0 < range_vol rs n"
  by (induction n) (simp_all add: group_width_def zero_less_mult_iff)

lemma range_rank_bounds: "in_groups rs a n \<Longrightarrow> 0 \<le> range_rank rs a n \<and> range_rank rs a n < range_vol rs n"
proof (induction n)
  case (Suc n)
  let ?w = "group_width (rs ! n)" and ?d = "a ! n - from_of (rs ! n)"
  have *: "0 \<le> ?d" "?d < ?w" using Suc.prems by (simp_all add: in_groups_Suc group_width_def)
  moreover have "0 \<le> range_rank rs a n" "range_rank rs a n + 1 \<le> range_vol rs n" using Suc by (auto simp: in_groups_Suc)
  moreover from * this(2) have "(range_rank rs a n + 1) * ?w \<le> range_vol rs n * ?w" by (intro mult_right_mono) auto
  moreover have "0 \<le> range_rank rs a n * ?w" using * calculation(3) by (intro mult_nonneg_nonneg) auto
  ultimately show ?case by (simp add: distrib_right)
qed simp

text \<open>Different addresses have different numbers.\<close>

lemma radix_eq:
  fixes x y w d e :: int
  assumes "x * w + d = y * w + e" "0 \<le> d" "d < w" "0 \<le> e" "e < w"
  shows "x = y \<and> d = e"
proof -
  have "(d + x * w) div w = x" "(e + y * w) div w = y" using assms(2-5) by simp_all
  with assms(1) show ?thesis by (simp add: add.commute)
qed

lemma range_rank_inj:
  "in_groups rs a n \<Longrightarrow> in_groups rs b n \<Longrightarrow> range_rank rs a n = range_rank rs b n \<Longrightarrow> i < n \<Longrightarrow> a ! i = b ! i"
proof (induction n)
  case (Suc n)
  have "range_rank rs a n = range_rank rs b n \<and> a ! n - from_of (rs ! n) = b ! n - from_of (rs ! n)"
    using Suc.prems(1-3) by (intro radix_eq [of _ "group_width (rs ! n)"]) (simp_all add: in_groups_Suc group_width_def)
  then show ?case using Suc by (auto simp: in_groups_Suc less_Suc_eq)
qed simp

section \<open>One step through a range\<close>

definition masked :: "zbx_iprange \<Rightarrow> bool" where
  "masked r \<longleftrightarrow> type_of r = ZBX_IPRANGE_V4 \<and> mask_of r \<noteq> 0"

lemma differs_from_end: "differs_from_end r a n \<longleftrightarrow> (\<exists>i<n. a ! i \<noteq> to_of (range_of r ! i))"
  by (induction n) (auto simp: less_Suc_eq)

lemma range_rank_end: "(\<And>i. i < n \<Longrightarrow> a ! i = to_of (rs ! i)) \<Longrightarrow> range_rank rs a n = range_vol rs n - 1"
  by (induction n) (auto simp: group_width_def left_diff_distrib)

text \<open>
  One pass of the loop over the first groups: unless all of them are at their ends, their number grows by
  one and the other groups stay.
\<close>

definition step_ok :: "zbx_iprange \<Rightarrow> int list \<Rightarrow> nat \<Rightarrow> int \<times> int list \<Rightarrow> bool" where
  "step_ok r a n res \<longleftrightarrow>
     (let rk = range_rank (range_of r); v = range_vol (range_of r) n; (ret, b) = res
      in length b = length a \<and>
         (rk a n + 1 < v \<longrightarrow> in_groups (range_of r) b n \<and> rk b n = rk a n + 1 \<and> drop n b = drop n a \<and>
            ret = (if masked r \<and> \<not> differs_from_end r b (iprange_groups r) then FAIL else SUCCEED)) \<and>
         (rk a n + 1 = v \<longrightarrow> ret = FAIL))"

lemma step_ok_inc:
  assumes "in_groups (range_of r) a (Suc n)" "a ! n < to_of (range_of r ! n)" "b = a[n := a ! n + 1]"
  shows "step_ok r a (Suc n) (if masked r \<and> \<not> differs_from_end r b (iprange_groups r) then FAIL else SUCCEED, b)"
proof -
  have n: "n < length a" using assms(1) by (simp add: in_groups_Suc)
  have b: "in_groups (range_of r) b (Suc n)" using assms n by (simp add: in_groups_Suc)
  have "range_rank (range_of r) b (Suc n) = range_rank (range_of r) a (Suc n) + 1" using n by (simp add: assms(3))
  with range_rank_bounds [OF b] n b show ?thesis by (auto simp: step_ok_def Let_def assms(3))
qed

lemma step_ok_carry:
  assumes a: "in_groups (range_of r) a (Suc n)" "a ! n = to_of (range_of r ! n)"
    and c: "c = a[n := from_of (range_of r ! n)]" "step_ok r c n (ret, b)"
  shows "step_ok r a (Suc n) (ret, b)"
proof -
  let ?g = "range_of r ! n" and ?rk = "range_rank (range_of r)" and ?v = "range_vol (range_of r)"
  have n: "n < length a" and g: "from_of ?g \<le> to_of ?g" using a by (auto simp: in_groups_Suc)
  have w: "?rk a (Suc n) + 1 = (?rk a n + 1) * group_width ?g" "0 < group_width ?g"
    using a(2) g by (simp_all add: group_width_def algebra_simps)
  then have lt: "?rk a (Suc n) + 1 < ?v (Suc n) \<longleftrightarrow> ?rk c n + 1 < ?v n" and eq: "?rk a (Suc n) + 1 = ?v (Suc n) \<longleftrightarrow> ?rk c n + 1 = ?v n"
    by (simp_all add: c(1))
  have len: "length b = length a" using c by (simp add: step_ok_def Let_def)
  have bn: "b ! n = from_of ?g" "drop (Suc n) b = drop (Suc n) a" if "drop n b = drop n c"
  proof -
    have "b ! n # drop (Suc n) b = c ! n # drop (Suc n) c" using that n len c(1) Cons_nth_drop_Suc [of n b] Cons_nth_drop_Suc [of n c] by (metis length_list_update)
    then show "b ! n = from_of ?g" "drop (Suc n) b = drop (Suc n) a" using n by (simp_all add: c(1))
  qed
  have "?rk c n = ?rk a n" by (simp add: c(1))
  then show ?thesis using c(2) lt eq w bn g n len unfolding step_ok_def Let_def prod.case by (auto simp: in_groups_Suc)
qed

lemma iprange_next_loop_step:
  "in_groups (range_of r) a n \<Longrightarrow> step_ok r a n (iprange_next_loop r a n)"
proof (induction n arbitrary: a)
  case (Suc n)
  let ?g = "range_of r ! n"
  show ?case
  proof (cases "a ! n < to_of ?g")
    case True
    then show ?thesis using step_ok_inc [OF Suc.prems True refl] by (auto simp: masked_def Let_def)
  next
    case False
    then have an: "a ! n = to_of ?g" and i: "in_groups (range_of r) a n" "from_of ?g \<le> a ! n" using Suc.prems by (auto simp: in_groups_Suc)
    let ?c = "a[n := from_of ?g]"
    have "(if from_of ?g < to_of ?g then ?c else a) = ?c" using an i(2) list_update_id [of a n] by (auto simp: not_less)
    moreover have "step_ok r ?c n (iprange_next_loop r ?c n)" using i by (intro Suc.IH) simp
    ultimately show ?thesis using step_ok_carry [OF Suc.prems an refl] False by (cases "iprange_next_loop r ?c n") (simp add: Let_def)
  qed
qed (simp add: step_ok_def)

section \<open>The whole walk\<close>

text \<open>The number behind the last address that the walk visits.\<close>

definition walk_end :: "zbx_iprange \<Rightarrow> int" where
  "walk_end r = range_vol (range_of r) (iprange_groups r) - (if masked r then 1 else 0)"

lemma differs_from_end_rank:
  assumes "in_groups (range_of r) b (iprange_groups r)"
  shows "differs_from_end r b (iprange_groups r) \<longleftrightarrow> range_rank (range_of r) b (iprange_groups r) \<noteq> range_vol (range_of r) (iprange_groups r) - 1"
proof -
  let ?G = "iprange_groups r"
  let ?e = "map (\<lambda>i. to_of (range_of r ! i)) [0..<?G]"
  have "in_groups (range_of r) ?e ?G" using assms by (fastforce simp: in_groups_def)
  then have "(\<forall>i<?G. b ! i = to_of (range_of r ! i))" if "range_rank (range_of r) b ?G = range_vol (range_of r) ?G - 1"
    using range_rank_inj [OF assms, of ?e] that range_rank_end [of ?G ?e "range_of r"] by simp
  then show ?thesis using range_rank_end [of ?G b "range_of r"] by (auto simp: differs_from_end)
qed

lemma zbx_iprange_next_step:
  assumes "in_groups (range_of r) a (iprange_groups r)" "zbx_iprange_next r a = (ret, b)"
  shows "range_rank (range_of r) a (iprange_groups r) + 1 < walk_end r \<Longrightarrow>
           ret = SUCCEED \<and> in_groups (range_of r) b (iprange_groups r) \<and> length b = length a \<and>
           drop (iprange_groups r) b = drop (iprange_groups r) a \<and>
           range_rank (range_of r) b (iprange_groups r) = range_rank (range_of r) a (iprange_groups r) + 1"
    and "range_rank (range_of r) a (iprange_groups r) + 1 = walk_end r \<Longrightarrow> ret = FAIL"
  using iprange_next_loop_step [OF assms(1)] assms(2) differs_from_end_rank [of r b]
  by (auto simp: step_ok_def Let_def zbx_iprange_next_def walk_end_def split: if_splits)

lemma iprange_walk_ranks:
  assumes "in_groups (range_of r) a (iprange_groups r)" "range_rank (range_of r) a (iprange_groups r) + int (Suc k) = walk_end r" "k < fuel"
  shows "\<exists>as. iprange_walk fuel r a = Some as \<and> length as = Suc k \<and>
           (\<forall>j<Suc k. in_groups (range_of r) (as ! j) (iprange_groups r) \<and> length (as ! j) = length a \<and>
              drop (iprange_groups r) (as ! j) = drop (iprange_groups r) a \<and>
              range_rank (range_of r) (as ! j) (iprange_groups r) = range_rank (range_of r) a (iprange_groups r) + int j)"
  using assms
proof (induction k arbitrary: a fuel)
  case 0
  then obtain f where "fuel = Suc f" by (cases fuel) auto
  with 0 show ?case using zbx_iprange_next_step(2) [OF 0(1)] by (cases "zbx_iprange_next r a") auto
next
  case (Suc k)
  then obtain f where f: "fuel = Suc f" "k < f" by (cases fuel) auto
  obtain ret b where e: "zbx_iprange_next r a = (ret, b)" by fastforce
  note st = zbx_iprange_next_step(1) [OF Suc.prems(1) e]
  with Suc.prems(2) Suc.IH [of b f] f obtain as where as: "iprange_walk f r b = Some as" "length as = Suc k"
    "\<forall>j<Suc k. in_groups (range_of r) (as ! j) (iprange_groups r) \<and> length (as ! j) = length b \<and>
       drop (iprange_groups r) (as ! j) = drop (iprange_groups r) b \<and>
       range_rank (range_of r) (as ! j) (iprange_groups r) = range_rank (range_of r) b (iprange_groups r) + int j"
    by auto
  have "iprange_walk fuel r a = Some (a # as)" using st Suc.prems(2) e as(1) f by simp
  then show ?case using as st Suc.prems by (auto simp: nth_Cons' less_Suc_eq_0_disj)
qed

lemma first_in_groups:
  assumes "wf_iprange r" "iprange_groups r \<le> length buf"
  shows "in_groups (range_of r) (zbx_iprange_first r buf) (iprange_groups r)"
    and "length (zbx_iprange_first r buf) = length buf"
    and "drop (iprange_groups r) (zbx_iprange_first r buf) = drop (iprange_groups r) buf"
    and "range_rank (range_of r) (zbx_iprange_first r buf) (iprange_groups r) = (if masked r then 1 else 0)"
proof -
  let ?G = "iprange_groups r" and ?f = "map from_of (take (iprange_groups r) (range_of r)) @ drop (iprange_groups r) buf"
  have G: "?G \<le> length (range_of r)" "0 < ?G" using assms(1) by (auto simp: wf_iprange_def iprange_groups_def split: iprange_type.splits)
  have fi: "?f ! i = from_of (range_of r ! i)" if "i < ?G" for i using that G by (simp add: nth_append)
  have rk0: "range_rank (range_of r) ?f n = 0" if "n \<le> ?G" for n using that fi by (induction n) auto
  have b: "from_of (range_of r ! i) \<le> to_of (range_of r ! i)" if "i < ?G" for i using assms(1) that by (auto simp: wf_iprange_def)
  have in0: "in_groups (range_of r) ?f ?G" using fi b G assms(2) by (auto simp: in_groups_def)
  have m: "from_of (range_of r ! (?G - 1)) + 3 \<le> to_of (range_of r ! (?G - 1))" if "masked r"
    using assms(1) that by (auto simp: wf_iprange_def masked_def iprange_groups_def)
  have e: "zbx_iprange_first r buf = (if masked r then ?f[?G - 1 := ?f ! (?G - 1) + 1] else ?f)"
    by (simp add: zbx_iprange_first_def masked_def Let_def)
  obtain g where g: "?G = Suc g" using G by (cases ?G) auto
  show "in_groups (range_of r) (zbx_iprange_first r buf) ?G"
    using in0 m fi [of g] unfolding e g by (auto simp: in_groups_Suc)
  show "length (zbx_iprange_first r buf) = length buf" using G assms(2) by (simp add: e)
  show "drop ?G (zbx_iprange_first r buf) = drop ?G buf" using G by (simp add: e)
  show "range_rank (range_of r) (zbx_iprange_first r buf) ?G = (if masked r then 1 else 0)"
    using rk0 [of g] rk0 [of ?G] fi [of g] G assms(2) unfolding e g by simp
qed

lemma walk_end_bound:
  assumes "wf_iprange r"
  shows "(if masked r then 1 else 0) < walk_end r"
proof -
  have p: "0 < range_vol (range_of r) n" if "n \<le> iprange_groups r" for n
    using assms that by (intro range_vol_pos) (auto simp: wf_iprange_def)
  have "4 \<le> range_vol (range_of r) (iprange_groups r)" if "masked r"
  proof -
    have G: "iprange_groups r = Suc 3" using that by (simp add: masked_def iprange_groups_def)
    have "4 \<le> group_width (range_of r ! 3)" using assms that by (simp add: wf_iprange_def masked_def group_width_def)
    then have "1 * 4 \<le> range_vol (range_of r) 3 * group_width (range_of r ! 3)" using p [of 3] G by (intro mult_mono) auto
    then show ?thesis by (simp only: G range_vol.simps)
  qed
  then show ?thesis using p [of "iprange_groups r"] by (auto simp: walk_end_def)
qed

text \<open>The addresses that a range stands for, in a buffer with the given contents behind the groups.\<close>

definition iprange_set :: "zbx_iprange \<Rightarrow> int list \<Rightarrow> int list set" where
  "iprange_set r buf =
     {a. length a = length buf \<and> drop (iprange_groups r) a = drop (iprange_groups r) buf \<and> zbx_iprange_validate r a = SUCCEED
       \<and> (masked r \<longrightarrow> take 4 a \<noteq> map from_of (take 4 (range_of r)) \<and> take 4 a \<noteq> map to_of (take 4 (range_of r)))}"

lemma masked_ends:
  assumes "wf_iprange r" "masked r" "in_groups (range_of r) a 4"
  shows "take 4 a = map from_of (take 4 (range_of r)) \<longleftrightarrow> range_rank (range_of r) a 4 = 0"
    and "take 4 a = map to_of (take 4 (range_of r)) \<longleftrightarrow> range_rank (range_of r) a 4 = range_vol (range_of r) 4 - 1"
proof -
  let ?f = "map from_of (take 4 (range_of r))" and ?t = "map to_of (take 4 (range_of r))"
  have l: "length (range_of r) = 8" "4 \<le> length a" and G: "iprange_groups r = 4"
    using assms by (auto simp: wf_iprange_def masked_def iprange_groups_def in_groups_def)
  have b: "from_of (range_of r ! i) \<le> to_of (range_of r ! i)" if "i < 4" for i using assms(1) that G by (auto simp: wf_iprange_def)
  have f: "in_groups (range_of r) ?f 4" and t: "in_groups (range_of r) ?t 4" using l b by (auto simp: in_groups_def)
  have r: "range_rank (range_of r) ?f n = 0" if "n \<le> 4" for n using that l by (induction n) auto
  have e: "take 4 a = xs \<longleftrightarrow> range_rank (range_of r) a 4 = range_rank (range_of r) xs 4"
    if "in_groups (range_of r) xs 4" "length xs = 4" for xs
    using range_rank_inj [OF assms(3) that(1)] range_rank_cong [of 4 a xs] that l by (auto simp: list_eq_iff_nth_eq)
  show "take 4 a = ?f \<longleftrightarrow> range_rank (range_of r) a 4 = 0" using e [OF f] r [of 4] l by simp
  show "take 4 a = ?t \<longleftrightarrow> range_rank (range_of r) a 4 = range_vol (range_of r) 4 - 1"
    using e [OF t] l range_rank_end [of 4 ?t "range_of r"] by simp
qed

lemma iprange_set_iff:
  assumes "wf_iprange r" "iprange_groups r \<le> length buf"
  shows "a \<in> iprange_set r buf \<longleftrightarrow>
           length a = length buf \<and> drop (iprange_groups r) a = drop (iprange_groups r) buf \<and> in_groups (range_of r) a (iprange_groups r)
             \<and> (if masked r then 1 else 0) \<le> range_rank (range_of r) a (iprange_groups r)
             \<and> range_rank (range_of r) a (iprange_groups r) < walk_end r"
proof (cases "length a = length buf \<and> in_groups (range_of r) a (iprange_groups r)")
  case True
  have "iprange_groups r = 4" if "masked r" using that by (simp add: masked_def iprange_groups_def)
  then show ?thesis
    using True assms range_rank_bounds [of "range_of r" a "iprange_groups r"] masked_ends [OF assms(1), of a]
    by (auto simp: iprange_set_def in_groups_iff_validate walk_end_def)
next
  case False
  then show ?thesis using assms(2) by (auto simp: iprange_set_def in_groups_iff_validate)
qed

section \<open>The number of addresses\<close>

lemma u64_mult_overflow:
  fixes v n :: u64
  assumes "n \<noteq> 0"
  shows "- 1 div n < v \<longleftrightarrow> 2 ^ 64 \<le> unat v * unat n"
proof -
  have n: "0 < unat n" using assms by (simp add: unat_gt_0)
  have m: "unat (- 1 :: u64) = 2 ^ 64 - 1" by (simp add: unsigned_minus_1_eq_mask mask_eq_exp_minus_1)
  have "- 1 div n < v \<longleftrightarrow> (2 ^ 64 - 1) div unat n < unat v" by (simp only: word_less_nat_alt unat_div m)
  also have "\<dots> \<longleftrightarrow> 2 ^ 64 - 1 < unat v * unat n" by (rule div_less_iff_less_mult [OF n])
  also have "\<dots> \<longleftrightarrow> 2 ^ 64 \<le> unat v * unat n" by auto
  finally show ?thesis .
qed

definition width_prod :: "zbx_range list \<Rightarrow> int" where
  "width_prod gs = foldl (\<lambda>v g. v * group_width g) 1 gs"

lemma foldl_widths: "foldl (\<lambda>v g. v * group_width g) x gs = x * width_prod gs"
proof (induction gs arbitrary: x)
  case (Cons g gs)
  show ?case using Cons [of "x * group_width g"] Cons [of "group_width g"] by (simp add: width_prod_def [of "g # gs"])
qed (simp add: width_prod_def)

lemma width_prod_Cons: "width_prod (g # gs) = group_width g * width_prod gs"
  using foldl_widths [of "group_width g" gs] by (simp add: width_prod_def)

lemma range_vol_take: "n \<le> length rs \<Longrightarrow> range_vol rs n = width_prod (take n rs)"
  by (induction n) (simp_all add: take_Suc_conv_app_nth width_prod_def)

lemma width_prod_ge: "\<forall>g\<in>set gs. 1 \<le> group_width g \<Longrightarrow> 1 \<le> width_prod gs"
proof (induction gs)
  case (Cons g gs)
  then have "1 * 1 \<le> group_width g * width_prod gs" by (intro mult_mono) auto
  then show ?case by (simp add: width_prod_Cons)
qed (simp add: width_prod_def)

lemma volume_loop_spec:
  assumes "\<forall>g\<in>set gs. 1 \<le> group_width g \<and> group_width g \<le> 65536" "v \<noteq> 0"
  shows "volume_loop gs v = Inr (if uint v * width_prod gs < 2 ^ 64 then Some (of_int (uint v * width_prod gs)) else None)"
  using assms
proof (induction gs arbitrary: v)
  case Nil
  have "uint v < 2 ^ 64" using uint_lt2p [of v] by simp
  then show ?case by (simp add: width_prod_def)
next
  case (Cons g gs)
  define w where "w = group_width g"
  have w: "1 \<le> w" "w \<le> 65536" using Cons.prems by (auto simp: w_def)
  define n :: u64 where "n = word_of_int w"
  have un: "uint n = w" using w by (simp add: n_def uint_word_of_int)
  then have n0: "n \<noteq> 0" using w by auto
  have p1: "1 \<le> width_prod gs" using Cons.prems by (intro width_prod_ge) auto
  have v0: "1 \<le> uint v" using Cons.prems(2) by (metis uint_ge_0 uint_0_iff int_one_le_iff_zero_less order_le_less)
  have ov: "- 1 div n < v \<longleftrightarrow> 2 ^ 64 \<le> uint v * w"
  proof -
    have "2 ^ 64 \<le> unat v * unat n \<longleftrightarrow> int (2 ^ 64) \<le> int (unat v * unat n)" by (rule of_nat_le_iff [symmetric])
    then show ?thesis using u64_mult_overflow [OF n0, of v] un by simp
  qed
  have step: "volume_loop (g # gs) v = (if 2 ^ 64 \<le> uint v * w then Inr None else volume_loop gs (v * n))"
    using n0 ov by (simp add: Let_def n_def w_def group_width_def)
  show ?case
  proof (cases "2 ^ 64 \<le> uint v * w")
    case True
    have "uint v * w * 1 \<le> uint v * w * width_prod gs" using p1 v0 w by (intro mult_left_mono) auto
    with True have "\<not> uint v * width_prod (g # gs) < 2 ^ 64" by (simp add: width_prod_Cons w_def mult.assoc)
    then show ?thesis using True step by simp
  next
    case False
    then have u: "uint (v * n) = uint v * w" using v0 w by (simp add: uint_word_ariths un)
    moreover have "v * n \<noteq> 0"
    proof
      assume "v * n = 0"
      then have "uint v * w = 0" using u by simp
      then show False using v0 w by auto
    qed
    ultimately show ?thesis using False step Cons.IH [of "v * n"] Cons.prems(1) by (simp add: width_prod_Cons w_def mult.assoc)
  qed
qed

lemma wf_group:
  assumes "wf_iprange r" "i < iprange_groups r"
  shows "0 \<le> from_of (range_of r ! i)" "from_of (range_of r ! i) \<le> to_of (range_of r ! i)"
    "to_of (range_of r ! i) < (case type_of r of ZBX_IPRANGE_V4 \<Rightarrow> 256 | ZBX_IPRANGE_V6 \<Rightarrow> 65536)"
  using assms unfolding wf_iprange_def by blast+

lemma masked_volume:
  assumes "wf_iprange r" "masked r"
  shows "range_vol (range_of r) (iprange_groups r) < 2 ^ 64"
proof -
  have G: "iprange_groups r = 4" "type_of r = ZBX_IPRANGE_V4" using assms(2) by (simp_all add: masked_def iprange_groups_def)
  have "0 \<le> range_vol (range_of r) n \<and> range_vol (range_of r) n \<le> 256 ^ n" if "n \<le> 4" for n
    using that
  proof (induction n)
    case (Suc n)
    then have "0 \<le> group_width (range_of r ! n)" "group_width (range_of r ! n) \<le> 256"
      using wf_group [OF assms(1), of n] G by (simp_all add: group_width_def)
    then have "range_vol (range_of r) n * group_width (range_of r ! n) \<le> 256 ^ n * 256" using Suc by (intro mult_mono) auto
    with Suc \<open>0 \<le> group_width _\<close> show ?case by (simp add: mult.commute)
  qed simp
  from this [of 4] show ?thesis by (simp add: G)
qed

lemma zbx_iprange_volume:
  assumes "wf_iprange r"
  shows "zbx_iprange_volume r =
    (let v = range_vol (range_of r) (iprange_groups r)
     in Inr (if v < 2 ^ 64 then of_int (v - (if masked r then 2 else 0)) else - 1))"
proof -
  let ?G = "iprange_groups r"
  have l: "?G \<le> length (range_of r)" using assms by (auto simp: wf_iprange_def iprange_groups_def split: iprange_type.splits)
  have "\<forall>g\<in>set (take ?G (range_of r)). 1 \<le> group_width g \<and> group_width g \<le> 65536"
  proof
    fix g assume "g \<in> set (take ?G (range_of r))"
    then obtain i where "i < ?G" "g = range_of r ! i" using l by (auto simp: in_set_conv_nth)
    then show "1 \<le> group_width g \<and> group_width g \<le> 65536"
      using wf_group [OF assms, of i] by (simp add: group_width_def split: iprange_type.splits)
  qed
  then show ?thesis
    using volume_loop_spec [of "take ?G (range_of r)" 1] range_vol_take [OF l] masked_volume [OF assms]
    by (auto simp: zbx_iprange_volume_def masked_def Let_def)
qed

lemma zbx_iprange_volume_length:
  assumes "wf_iprange r" "range_vol (range_of r) (iprange_groups r) = int l + (if masked r then 2 else 0)"
  shows "zbx_iprange_volume r = Inr (if l < 2 ^ 64 then of_nat l else - 1)"
proof -
  have l: "int l < 2 ^ 64 \<longleftrightarrow> l < 2 ^ 64" using of_nat_less_iff [of l "2 ^ 64", where ?'a = int] by simp
  show ?thesis
  proof (cases "masked r")
    case True
    then have "int l < 2 ^ 64" "int l + 2 < 2 ^ 64" using masked_volume [OF assms(1) True] assms(2) by simp_all
    then show ?thesis using True zbx_iprange_volume [OF assms(1)] l unfolding assms(2) Let_def by simp
  next
    case False
    then show ?thesis using zbx_iprange_volume [OF assms(1)] l unfolding assms(2) Let_def by simp
  qed
qed

lemma walk_set:
  assumes "wf_iprange r" "iprange_groups r \<le> length buf" and m: "m = (if masked r then 1 else 0)"
    and k: "m + int (Suc k) = walk_end r" "length as = Suc k"
    and as: "\<And>j. j < Suc k \<Longrightarrow> in_groups (range_of r) (as ! j) (iprange_groups r) \<and> length (as ! j) = length buf \<and>
      drop (iprange_groups r) (as ! j) = drop (iprange_groups r) buf \<and> range_rank (range_of r) (as ! j) (iprange_groups r) = m + int j"
  shows "distinct as \<and> set as = iprange_set r buf"
proof -
  let ?G = "iprange_groups r" and ?rk = "\<lambda>a. range_rank (range_of r) a (iprange_groups r)"
  note set_iff = iprange_set_iff [OF assms(1,2), folded m]
  have "i = j" if "i < Suc k" "j < Suc k" "as ! i = as ! j" for i j
  proof -
    have "?rk (as ! i) = m + int i" "?rk (as ! j) = m + int j" using as that(1,2) by blast+
    then show ?thesis unfolding that(3) by linarith
  qed
  then have "distinct as" unfolding distinct_conv_nth k(2) by blast
  moreover have "set as = iprange_set r buf"
  proof (intro set_eqI iffI)
    fix a assume "a \<in> set as"
    then obtain j where "j < Suc k" "a = as ! j" using k(2) by (auto simp: in_set_conv_nth)
    then show "a \<in> iprange_set r buf" using as [of j] k by (simp add: set_iff)
  next
    fix a assume "a \<in> iprange_set r buf"
    then have a: "length a = length buf" "drop ?G a = drop ?G buf" "in_groups (range_of r) a ?G" "m \<le> ?rk a" "?rk a < walk_end r"
      by (simp_all add: set_iff)
    let ?j = "nat (?rk a - m)"
    have j: "?j < Suc k" "?rk (as ! ?j) = ?rk a" using a k as [of ?j] by auto
    have "take ?G a = take ?G (as ! ?j)"
      using range_rank_inj [OF a(3), of "as ! ?j"] as [OF j(1)] a j assms(2) by (auto simp: list_eq_iff_nth_eq)
    then have "a = as ! ?j" using a(2) as [OF j(1)] by (metis append_take_drop_id)
    then show "a \<in> set as" using j(1) k(2) nth_mem [of ?j as] by metis
  qed
  ultimately show ?thesis ..
qed

section \<open>Properties\<close>

definition any_range :: zbx_iprange where
  "any_range = \<lparr>range_of = replicate 8 (mk_range 0 0), type_of = ZBX_IPRANGE_V4, mask_of = 0\<rparr>"

text \<open>
  C26. The walk that discovery makes through a range, from \<open>zbx_iprange_first\<close> by \<open>zbx_iprange_next\<close> until it
  fails, ends and visits every address of the range exactly once, without the network and the broadcast
  address of an IPv4 network; \<open>zbx_iprange_volume\<close> is the number of addresses visited, or the largest
  64-bit number where that does not fit.
\<close>

theorem iprange_walk_complete:
  assumes "wf_iprange r" "iprange_groups r \<le> length buf" "nat (range_vol (range_of r) (iprange_groups r)) \<le> fuel"
  shows "\<exists>as. iprange_walk fuel r (zbx_iprange_first r buf) = Some as \<and> distinct as \<and> set as = iprange_set r buf \<and>
           zbx_iprange_volume r = Inr (if length as < 2 ^ 64 then of_nat (length as) else - 1)"
proof -
  define m :: int where "m = (if masked r then 1 else 0)"
  note f = first_in_groups [OF assms(1,2), folded m_def]
  define k where "k = nat (walk_end r - m - 1)"
  have k: "m + int (Suc k) = walk_end r" using walk_end_bound [OF assms(1), folded m_def] by (simp add: k_def)
  have "k < fuel" using k assms(3) by (auto simp: walk_end_def m_def split: if_splits)
  from iprange_walk_ranks [OF f(1) _ this] k obtain as
    where as: "iprange_walk fuel r (zbx_iprange_first r buf) = Some as" "length as = Suc k"
    and j: "\<And>j. j < Suc k \<Longrightarrow> in_groups (range_of r) (as ! j) (iprange_groups r) \<and> length (as ! j) = length buf \<and>
      drop (iprange_groups r) (as ! j) = drop (iprange_groups r) buf \<and> range_rank (range_of r) (as ! j) (iprange_groups r) = m + int j"
    unfolding f(2-4) by blast
  have "range_vol (range_of r) (iprange_groups r) = int (length as) + (if masked r then 2 else 0)"
    using k as(2) by (auto simp: walk_end_def m_def)
  from zbx_iprange_volume_length [OF assms(1) this]
  have "zbx_iprange_volume r = Inr (if length as < 2 ^ 64 then of_nat (length as) else - 1)" .
  with walk_set [OF assms(1,2) m_def k as(2) j] as(1) show ?thesis by blast
qed

definition two_addresses :: zbx_iprange where
  "two_addresses = any_range\<lparr>range_of := mk_range 3 3 # mk_range 0 1 # replicate 6 (mk_range 0 0)\<rparr>"

theorem iprange_walk_complete_witness:
  "\<exists>as. iprange_walk 2 two_addresses (zbx_iprange_first two_addresses (replicate 8 0)) = Some as \<and> distinct as
      \<and> set as = iprange_set two_addresses (replicate 8 0)"
proof -
  have "wf_iprange two_addresses" "iprange_groups two_addresses \<le> length (replicate 8 0)"
    "nat (range_vol (range_of two_addresses) (iprange_groups two_addresses)) \<le> 2" by code_simp+
  from iprange_walk_complete [OF this] show ?thesis by blast
qed

end
