(* ===== verification/Ip_Parse.thy ===== *)
theory Ip_Parse
  imports Ip_Range
begin

text \<open>
  \<open>src/libs/zbxip/iprange.c\<close> and \<open>ip.c\<close>, second part: what the parsers leave in a range, what a network mask
  means, and the lists of ranges.
\<close>

section \<open>Network masks\<close>

lemma sint_u32: "uint w < 2 ^ 31 \<Longrightarrow> sint w = uint w" for w :: u32
proof -
  assume "uint w < 2 ^ 31"
  moreover have "- (2 ^ 31) \<le> uint w" by (rule order_trans [of _ 0]) simp_all
  ultimately show ?thesis by (simp add: sint_uint signed_take_bit_int_eq_self_iff)
qed

lemma u32_bit_high: "0 \<le> x \<Longrightarrow> x < 65536 \<Longrightarrow> bit x n \<Longrightarrow> n < 32" for x :: int
proof -
  assume "0 \<le> x" "x < 65536" "bit x n"
  then have "take_bit 32 x = x" by (simp add: take_bit_int_eq_self_iff)
  with \<open>bit x n\<close> show "n < 32" by (metis bit_take_bit_iff)
qed

lemma mask_group_from:
  assumes "0 \<le> x" "x < 65536" "mb \<le> 16"
  shows "sint (word_of_int x AND mask_empty mb) = x div 2 ^ mb * 2 ^ mb"
proof -
  have ux: "uint (word_of_int x :: u32) = x" using assms by (simp add: uint_word_of_int)
  have "uint (word_of_int x AND mask_empty mb) = push_bit mb (drop_bit mb x)"
    unfolding unsigned_and_eq ux mask_empty_def unsigned_push_bit_eq
    by (rule bit_eqI) (use u32_bit_high [OF assms(1,2)] in \<open>auto simp: bit_simps intro: less_imp_diff_less\<close>)
  also have "\<dots> = x div 2 ^ mb * 2 ^ mb" by (simp add: push_bit_eq_mult drop_bit_eq_div)
  finally have u: "uint (word_of_int x AND mask_empty mb) = x div 2 ^ mb * 2 ^ mb" .
  have "x div 2 ^ mb * 2 ^ mb \<le> x" by (simp add: minus_mod_eq_div_mult [symmetric])
  then show ?thesis using sint_u32 [of "word_of_int x AND mask_empty mb"] u assms by simp
qed

lemma mask_group_to:
  assumes "0 \<le> x" "x < 65536" "mb \<le> 16"
  shows "sint (word_of_int x OR mask_fill mb) = x div 2 ^ mb * 2 ^ mb + (2 ^ mb - 1)"
proof -
  have ux: "uint (word_of_int x :: u32) = x" using assms by (simp add: uint_word_of_int)
  have um: "uint (mask_fill mb) = mask mb"
    unfolding mask_fill_def unsigned_drop_bit_eq unsigned_minus_1_eq_mask
    by (rule bit_eqI) (use assms(3) in \<open>auto simp: bit_simps\<close>)
  have "uint (word_of_int x OR mask_fill mb) = push_bit mb (drop_bit mb x) OR mask mb"
    unfolding unsigned_or_eq ux um by (rule bit_eqI) (auto simp: bit_simps)
  also have "\<dots> = push_bit mb (drop_bit mb x) + mask mb"
    by (rule disjunctive_add [symmetric]) (auto simp: bit_simps)
  also have "\<dots> = x div 2 ^ mb * 2 ^ mb + (2 ^ mb - 1)" by (simp add: push_bit_eq_mult drop_bit_eq_div mask_eq_exp_minus_1)
  finally have u: "uint (word_of_int x OR mask_fill mb) = x div 2 ^ mb * 2 ^ mb + (2 ^ mb - 1)" .
  have "x div 2 ^ mb * 2 ^ mb \<le> x" "(2 :: int) ^ mb \<le> 2 ^ 16" using assms(3) power_increasing [of mb 16 "2 :: int"] by (simp_all add: minus_mod_eq_div_mult [symmetric])
  then show ?thesis using sint_u32 [of "word_of_int x OR mask_fill mb"] u assms by simp
qed

lemma div_interval: "y div (2 ^ b) = x div 2 ^ b \<longleftrightarrow> x div 2 ^ b * 2 ^ b \<le> y \<and> y \<le> x div 2 ^ b * 2 ^ b + (2 ^ b - 1)" for x y :: int
proof
  assume e: "y div 2 ^ b = x div 2 ^ b"
  have "y = y div 2 ^ b * 2 ^ b + y mod 2 ^ b" by (simp only: div_mult_mod_eq)
  moreover have "0 \<le> y mod 2 ^ b" "y mod 2 ^ b < 2 ^ b" by simp_all
  ultimately show "x div 2 ^ b * 2 ^ b \<le> y \<and> y \<le> x div 2 ^ b * 2 ^ b + (2 ^ b - 1)" unfolding e by linarith
next
  assume *: "x div 2 ^ b * 2 ^ b \<le> y \<and> y \<le> x div 2 ^ b * 2 ^ b + (2 ^ b - 1)"
  define q where "q = x div 2 ^ b"
  define d where "d = y - q * 2 ^ b"
  have "y = d + q * 2 ^ b" "0 \<le> d" "d < 2 ^ b" using * by (auto simp: d_def q_def)
  then show "y div 2 ^ b = x div 2 ^ b" by (simp add: q_def)
qed

text \<open>The number that the first groups of an address are in base \<open>2 ^ gb\<close>.\<close>

fun addr_val :: "nat \<Rightarrow> int list \<Rightarrow> nat \<Rightarrow> int" where
  "addr_val gb a 0 = 0"
| "addr_val gb a (Suc i) = addr_val gb a i * 2 ^ gb + a ! i"

definition addr_ok :: "nat \<Rightarrow> int list \<Rightarrow> nat \<Rightarrow> bool" where
  "addr_ok gb a n \<longleftrightarrow> (\<forall>i<n. 0 \<le> a ! i \<and> a ! i < 2 ^ gb)"

lemma addr_val_inj:
  "addr_ok gb a n \<Longrightarrow> addr_ok gb b n \<Longrightarrow> addr_val gb a n = addr_val gb b n \<longleftrightarrow> (\<forall>i<n. a ! i = b ! i)"
proof (induction n)
  case (Suc n)
  have ok: "addr_ok gb a n" "addr_ok gb b n" and l: "0 \<le> a ! n" "a ! n < 2 ^ gb" "0 \<le> b ! n" "b ! n < 2 ^ gb"
    using Suc.prems by (auto simp: addr_ok_def)
  have "addr_val gb a (Suc n) = addr_val gb b (Suc n) \<longleftrightarrow> addr_val gb a n = addr_val gb b n \<and> a ! n = b ! n"
    using radix_eq [of "addr_val gb a n" "2 ^ gb" "a ! n" "addr_val gb b n" "b ! n"] l by auto
  then show ?case using Suc.IH [OF ok] by (auto simp: less_Suc_eq)
qed simp

lemma addr_val_div:
  assumes "b \<le> gb" "addr_ok gb a (Suc n)"
  shows "addr_val gb a (Suc n) div 2 ^ b = addr_val gb a n * 2 ^ (gb - b) + a ! n div 2 ^ b"
    and "0 \<le> a ! n div 2 ^ b" "a ! n div 2 ^ b < 2 ^ (gb - b)"
proof -
  have e: "(2 :: int) ^ gb = 2 ^ (gb - b) * 2 ^ b" using assms(1) by (simp flip: power_add)
  have "addr_val gb a (Suc n) = a ! n + addr_val gb a n * 2 ^ (gb - b) * 2 ^ b" by (simp only: e addr_val.simps mult.assoc add.commute)
  then show "addr_val gb a (Suc n) div 2 ^ b = addr_val gb a n * 2 ^ (gb - b) + a ! n div 2 ^ b"
    by (simp only: div_mult_self1 [of "2 ^ b"] power_not_zero) simp
  have l: "0 \<le> a ! n" "a ! n < 2 ^ gb" using assms(2) by (auto simp: addr_ok_def)
  show "0 \<le> a ! n div 2 ^ b" using l by (simp add: pos_imp_zdiv_nonneg_iff)
  have "a ! n div 2 ^ b * 2 ^ b \<le> a ! n" by (simp add: minus_mod_eq_div_mult [symmetric])
  with l(2) e have "a ! n div 2 ^ b * 2 ^ b < 2 ^ (gb - b) * 2 ^ b" by linarith
  then show "a ! n div 2 ^ b < 2 ^ (gb - b)" by (simp add: mult_less_cancel_right)
qed


definition point_groups :: "zbx_range list \<Rightarrow> int list \<Rightarrow> nat \<Rightarrow> bool" where
  "point_groups rs x n \<longleftrightarrow> n \<le> length rs \<and> (\<forall>i<n. rs ! i = mk_range (x ! i) (x ! i))"

lemma mk_range_sel [simp]: "from_of (mk_range f t) = f" "to_of (mk_range f t) = t"
  by (simp_all add: mk_range_def)

lemma addr_val_mask:
  assumes "addr_ok gb a (Suc n)" "addr_ok gb x (Suc n)"
  shows "addr_val gb a (Suc n) div 2 ^ bits = addr_val gb x (Suc n) div 2 ^ bits \<longleftrightarrow>
     addr_val gb a n div 2 ^ (bits - gb) = addr_val gb x n div 2 ^ (bits - gb) \<and> a ! n div 2 ^ min bits gb = x ! n div 2 ^ min bits gb"
proof (cases "bits \<le> gb")
  case True
  then show ?thesis
    using addr_val_div [OF True assms(1)] addr_val_div [OF True assms(2)]
      radix_eq [of "addr_val gb a n" "2 ^ (gb - bits)" "a ! n div 2 ^ bits" "addr_val gb x n" "x ! n div 2 ^ bits"] by auto
next
  case False
  have e: "addr_val gb y (Suc n) div 2 ^ bits = addr_val gb y n div 2 ^ (bits - gb)" "y ! n div 2 ^ gb = 0" if "addr_ok gb y (Suc n)" for y
  proof -
    have z: "y ! n div 2 ^ gb = 0" using addr_val_div(2,3) [OF order_refl that] by simp
    have "(2 :: int) ^ bits = 2 ^ gb * 2 ^ (bits - gb)" using False by (simp flip: power_add)
    then have "addr_val gb y (Suc n) div 2 ^ bits = addr_val gb y (Suc n) div 2 ^ gb div 2 ^ (bits - gb)"
      by (simp only: zdiv_zmult2_eq [of "2 ^ (bits - gb)"] zero_le_power zero_le_numeral)
    also have "addr_val gb y (Suc n) div 2 ^ gb = addr_val gb y n" using addr_val_div(1) [OF order_refl that] z by simp
    finally show "addr_val gb y (Suc n) div 2 ^ bits = addr_val gb y n div 2 ^ (bits - gb)" .
    show "y ! n div 2 ^ gb = 0" by (rule z)
  qed
  show ?thesis using False by (simp only: e [OF assms(1)] e [OF assms(2)]) (simp add: min_def e [OF assms(1)] e [OF assms(2)])
qed

text \<open>The loop changes the groups up to its index only, and the group at the index once.\<close>

lemma apply_mask_loop_frame:
  "length (apply_mask_loop gb rs i bits) = length rs \<and> drop (Suc i) (apply_mask_loop gb rs i bits) = drop (Suc i) rs"
proof (induction gb rs i bits rule: apply_mask_loop.induct)
  case (1 gb rs i bits)
  show ?case
  proof (cases "0 < bits \<and> 0 < gb")
    case True
    let ?rs = "rs[i := mask_group (min bits gb) (rs ! i)]"
    let ?r = "apply_mask_loop gb ?rs (i - 1) (bits - gb)"
    have e: "apply_mask_loop gb rs i bits = ?r" using True by (subst apply_mask_loop.simps) simp
    have IH: "length ?r = length ?rs" "drop (Suc (i - 1)) ?r = drop (Suc (i - 1)) ?rs" using 1 [OF True] by auto
    have "drop (Suc i) ?r = drop (Suc i) ?rs" using arg_cong [OF IH(2), of "drop (Suc i - Suc (i - 1))"] by simp
    then show ?thesis using IH(1) by (simp add: e)
  next
    case False
    then have "apply_mask_loop gb rs i bits = rs" by (subst apply_mask_loop.simps) auto
    then show ?thesis by simp
  qed
qed

lemma apply_mask_loop_Suc:
  assumes "0 < bits" "0 < gb" "n < length rs" "bits \<le> Suc n * gb"
    and "g = mask_group (min bits gb) (rs ! n)" "r' = apply_mask_loop gb (rs[n := g]) (n - 1) (bits - gb)"
  shows "apply_mask_loop gb rs (Suc n - 1) bits = r'" "r' ! n = g" "length r' = length rs" "drop (Suc n) r' = drop (Suc n) rs"
proof -
  show e: "apply_mask_loop gb rs (Suc n - 1) bits = r'" using assms by (subst apply_mask_loop.simps) simp
  show "length r' = length rs" "drop (Suc n) r' = drop (Suc n) rs" using apply_mask_loop_frame [of gb rs n bits] e by simp_all
  show "r' ! n = g"
  proof (cases n)
    case 0
    then show ?thesis using assms by (simp add: apply_mask_loop.simps)
  next
    case (Suc m)
    then have "drop n r' = drop n (rs[n := g])" using apply_mask_loop_frame [of gb "rs[n := g]" m "bits - gb"] assms(6) by simp
    then show ?thesis using assms(3) \<open>length r' = length rs\<close> by (metis hd_drop_conv_nth length_list_update nth_list_update_eq)
  qed
qed

lemma apply_mask_loop_spec:
  assumes "gb = 8 \<or> gb = 16" "bits \<le> k * gb" "point_groups rs x k" "addr_ok gb x k" "addr_ok gb a k"
  shows "(\<forall>i<k. from_of (apply_mask_loop gb rs (k - 1) bits ! i) \<le> a ! i \<and> a ! i \<le> to_of (apply_mask_loop gb rs (k - 1) bits ! i))
        \<longleftrightarrow> addr_val gb a k div 2 ^ bits = addr_val gb x k div 2 ^ bits"
  using assms
proof (induction k arbitrary: rs bits)
  case (Suc n)
  have ok: "addr_ok gb x n" "addr_ok gb a n" using Suc.prems by (auto simp: addr_ok_def)
  have gx: "0 \<le> x ! n" "x ! n < 65536" "0 < gb" "gb \<le> 16" using Suc.prems(1,4) by (auto simp: addr_ok_def)
  show ?case
  proof (cases "bits = 0")
    case True
    have "from_of (rs ! i) \<le> a ! i \<and> a ! i \<le> to_of (rs ! i) \<longleftrightarrow> a ! i = x ! i" if "i < Suc n" for i
      using Suc.prems(3) that by (auto simp: point_groups_def)
    then show ?thesis using True addr_val_inj [OF Suc.prems(5,4)] by (simp add: apply_mask_loop.simps del: addr_val.simps)
  next
    case False
    define g where "g = mask_group (min bits gb) (rs ! n)"
    define r' where "r' = apply_mask_loop gb (rs[n := g]) (n - 1) (bits - gb)"
    have n: "n < length rs" "rs ! n = mk_range (x ! n) (x ! n)" using Suc.prems(3) by (simp_all add: point_groups_def)
    note r' = apply_mask_loop_Suc [OF _ gx(3) n(1) Suc.prems(2) g_def r'_def]
    have IH: "bits - gb \<le> n * gb" "point_groups (rs[n := g]) x n" using Suc.prems(2,3) by (auto simp: point_groups_def)
    have "min bits gb \<le> 16" using gx(4) by simp
    then have "from_of g \<le> a ! n \<and> a ! n \<le> to_of g \<longleftrightarrow> a ! n div 2 ^ min bits gb = x ! n div 2 ^ min bits gb"
      using mask_group_from [OF gx(1,2)] mask_group_to [OF gx(1,2)] by (simp add: g_def mask_group_def n(2) div_interval)
    then show ?thesis
      using r' False Suc.IH [OF Suc.prems(1) IH ok, folded r'_def] addr_val_mask [OF Suc.prems(5,4), of bits]
      by (auto simp: less_Suc_eq simp del: addr_val.simps)
  qed
qed simp

section \<open>What a successful parse leaves\<close>

text \<open>A group that the parser has written: inside its bounds, and a single value when there is a mask.\<close>

definition group_ok :: "nat \<Rightarrow> int \<Rightarrow> zbx_range \<Rightarrow> bool" where
  "group_ok gb bits g \<longleftrightarrow> 0 \<le> from_of g \<and> from_of g \<le> to_of g \<and> to_of g < 2 ^ gb \<and> (bits \<noteq> -1 \<longrightarrow> from_of g = to_of g)"

definition groups_ok :: "nat \<Rightarrow> int \<Rightarrow> zbx_range list \<Rightarrow> nat \<Rightarrow> bool" where
  "groups_ok gb bits rs n \<longleftrightarrow> (\<forall>i<n. group_ok gb bits (rs ! i))"

lemma groups_ok_update:
  "groups_ok gb bits rs n \<Longrightarrow> group_ok gb bits g \<Longrightarrow> n < length rs \<Longrightarrow> groups_ok gb bits (rs[n := g]) (Suc n)"
  by (auto simp: groups_ok_def nth_list_update less_Suc_eq)

lemma group_ok_zero [simp]: "group_ok gb bits (mk_range 0 0)"
  by (simp add: group_ok_def)

lemma stored_int_bound:
  "stored_int (zbx_is_uint_n_range s n 4 0 hi) = Some v \<Longrightarrow> 0 \<le> v \<and> v \<le> uint hi"
  "stored_int (zbx_is_hex_n_range s n 4 0 hi) = Some v \<Longrightarrow> 0 \<le> v \<and> v \<le> uint hi"
proof -
  have t: "unat (take_bit 32 (of_nat d :: u64)) \<le> unat hi" if "d \<le> unat hi" for d
  proof -
    have "unat (take_bit 32 (of_nat d :: u64)) \<le> unat (of_nat d :: u64)" by (simp add: unsigned_take_bit_eq)
    also have "\<dots> \<le> d" by (simp add: unat_of_nat)
    finally show ?thesis using that by simp
  qed
  have u: "int (unat (take_bit 32 (of_nat d :: u64))) \<le> uint hi" if "d \<le> unat hi" for d
    using t [OF that] by (metis of_nat_le_iff of_nat_unat)
  show "stored_int (zbx_is_uint_n_range s n 4 0 hi) = Some v \<Longrightarrow> 0 \<le> v \<and> v \<le> uint hi"
    unfolding is_uint_range stored_int_def store_uint_def Let_def using u by (auto split: if_splits simp del: of_nat_unat)
  show "stored_int (zbx_is_hex_n_range s n 4 0 hi) = Some v \<Longrightarrow> 0 \<le> v \<and> v \<le> uint hi"
    unfolding is_hex_range stored_int_def store_uint_def Let_def using u by (auto split: if_splits simp del: of_nat_unat)
qed

definition conv_ok :: "nat \<Rightarrow> (string \<Rightarrow> nat \<Rightarrow> int option) \<Rightarrow> bool" where
  "conv_ok gb conv \<longleftrightarrow> (\<forall>s n v. conv s n = Some v \<longrightarrow> 0 \<le> v \<and> v < 2 ^ gb)"

lemma conv_ok: "conv_ok 8 v4_conv" "conv_ok 16 v6_conv"
  using stored_int_bound(1) [where hi = 255] stored_int_bound(2) [where hi = 65535]
  by (fastforce simp: conv_ok_def v4_conv_def v6_conv_def)+

lemma parse_group_ok:
  assumes "conv_ok gb conv" "parse_group delim conv s fin bits address = Some (ptr, g)"
  shows "group_ok gb bits g"
  using assms unfolding parse_group_def conv_ok_def group_ok_def Let_def
  by (auto split: option.splits if_splits)

lemma iprangev4_loop_ok:
  assumes "iprangev4_loop s fin bits index ptr address rs = Some (n, rs')" "index \<le> 4" "length rs = 8" "groups_ok 8 bits rs index"
  shows "n \<le> 4 \<and> length rs' = 8 \<and> groups_ok 8 bits rs' n"
  using assms
proof (induction s fin bits index ptr address rs rule: iprangev4_loop.induct)
  case (1 s fin bits index ptr address rs)
  show ?case
  proof (cases "ptr < fin \<and> index < 4")
    case True
    with "1.prems"(1) obtain ptr' g where g: "parse_group CHR ''.'' v4_conv s fin bits address = Some (ptr', g)"
      "iprangev4_loop s fin bits (index + 1) ptr' (ptr' + 1) (rs[index := g]) = Some (n, rs')"
      by (subst (asm) iprangev4_loop.simps) (auto split: option.splits)
    then show ?thesis
      using "1.IH" [OF True g(1) refl g(2)] groups_ok_update [OF "1.prems"(4), of g] parse_group_ok [OF conv_ok(1) g(1)] True "1.prems"(3)
      by simp
  next
    case False
    then show ?thesis using "1.prems" by (subst (asm) iprangev4_loop.simps) auto
  qed
qed

text \<open>IPv6: what one turn of the loop leaves, and the loop.\<close>

definition v6_inv :: "int \<Rightarrow> nat \<Rightarrow> int \<Rightarrow> zbx_range list \<Rightarrow> bool" where
  "v6_inv bits index fill rs \<longleftrightarrow> length rs = 8 \<and> index \<le> 8 \<and> groups_ok 16 bits rs index \<and> -1 \<le> fill \<and> fill < int index"

fun v6_step_inv :: "int \<Rightarrow> v6_step \<Rightarrow> bool" where
  "v6_step_inv bits V6_fail = True"
| "v6_step_inv bits (V6_stop index fill rs) = v6_inv bits index fill rs"
| "v6_step_inv bits (V6_next index fill ptr rs) = v6_inv bits index fill rs"

lemma v6_inv_update:
  assumes "v6_inv bits index fill rs" "index < 8" "group_ok 16 bits g" "fill' = fill \<or> fill' = int index"
  shows "v6_inv bits (Suc index) fill' (rs[index := g])"
  using assms groups_ok_update [of 16 bits rs index g] unfolding v6_inv_def by auto

lemma v6_check_fill_inv:
  assumes "v6_inv bits index fill rs" "v6_check_fill s fin index fill ptr rs = Inr st"
  shows "v6_step_inv bits st"
proof -
  have "index < 8 \<Longrightarrow> v6_inv bits (Suc index) (int index) (rs[index := mk_range 0 0])"
    using v6_inv_update [OF assms(1), of "mk_range 0 0"] by simp
  moreover have "length rs = 8" using assms(1) by (simp add: v6_inv_def)
  ultimately show ?thesis using assms by (auto simp: v6_check_fill_def Let_def split: if_splits)
qed

lemma v6_turn_inv:
  assumes "v6_inv bits index fill rs" "index < 8" "v6_turn s fin bits index fill address rs = Inr st"
  shows "v6_step_inv bits st"
proof (cases "(case strchr s address CHR '':'' of None \<Rightarrow> fin | Some p \<Rightarrow> p) = address")
  case True
  then show ?thesis using assms(3) v6_check_fill_inv [OF assms(1)] by (auto simp: v6_turn_def Let_def split: if_splits)
next
  case False
  show ?thesis
  proof (cases "parse_group CHR '':'' v6_conv s fin bits address")
    case None
    then show ?thesis using assms(3) False by (auto simp: v6_turn_def Let_def)
  next
    case (Some pg)
    obtain ptr g where pg: "pg = (ptr, g)" by (cases pg)
    have "v6_inv bits (Suc index) fill (rs[index := g])"
      using v6_inv_update [OF assms(1,2)] parse_group_ok [OF conv_ok(2) Some [unfolded pg]] by simp
    then show ?thesis using v6_check_fill_inv assms(3) False Some pg by (simp add: v6_turn_def Let_def)
  qed
qed

lemma iprangev6_loop_inv:
  assumes "iprangev6_loop s fin bits index fill ptr address rs = Inr (Some (n, f, rs'))" "v6_inv bits index fill rs"
  shows "v6_inv bits n f rs'"
  using assms
proof (induction s fin bits index fill ptr address rs rule: iprangev6_loop.induct)
  case (1 s fin bits index fill ptr address rs)
  note loop = "1.prems"(1) [unfolded iprangev6_loop.simps [of s fin bits index fill ptr address rs]]
  show ?case
  proof (cases "ptr < fin \<and> index < 8")
    case True
    then have i: "index < 8" ..
    from loop True obtain st where st: "v6_turn s fin bits index fill address rs = Inr st" by (auto split: sum.splits)
    have inv: "v6_step_inv bits st" by (rule v6_turn_inv [OF "1.prems"(2) i st])
    show ?thesis
    proof (cases st)
      case (V6_next index' fill' ptr' rs'')
      then show ?thesis using "1.IH" [OF True st V6_next] inv loop True st by simp
    qed (use loop True st inv in simp_all)
  next
    case False
    then show ?thesis using loop "1.prems"(2) by auto
  qed
qed

text \<open>The expansion of a double colon.\<close>

lemma shift_groups_ok:
  assumes "shift_groups rs fill index target = (rs', target')" "groups_ok 16 bits rs index" "index \<le> Suc target" "target < length rs"
    "\<forall>i. target < i \<and> i < length rs \<longrightarrow> group_ok 16 bits (rs ! i)" "fill < index"
  shows "length rs' = length rs \<and> target' < length rs \<and> fill \<le> target' \<and> groups_ok 16 bits rs' (Suc fill)
    \<and> (\<forall>i. target' < i \<and> i < length rs \<longrightarrow> group_ok 16 bits (rs' ! i))"
  using assms
proof (induction rs fill index target rule: shift_groups.induct)
  case (2 rs fill index target)
  show ?case
  proof (cases "fill < index")
    case True
    have g: "group_ok 16 bits (rs ! index)" using "2.prems"(2) by (simp add: groups_ok_def)
    have "groups_ok 16 bits (rs[target := rs ! index]) index" using "2.prems"(2,3) by (auto simp: groups_ok_def nth_list_update)
    moreover have "\<forall>i. target - 1 < i \<and> i < length rs \<longrightarrow> group_ok 16 bits (rs[target := rs ! index] ! i)"
      using "2.prems"(5) g by (auto simp: nth_list_update)
    ultimately show ?thesis using "2.IH" [OF True] "2.prems" True by auto
  next
    case False
    then show ?thesis using "2.prems" by (auto simp: groups_ok_def less_Suc_eq)
  qed
qed simp

lemma zero_groups_ok:
  assumes "fill \<le> target" "target < length rs" "groups_ok 16 bits rs (Suc fill)" "\<forall>i. target < i \<and> i < length rs \<longrightarrow> group_ok 16 bits (rs ! i)"
  shows "length (zero_groups rs fill target) = length rs \<and> groups_ok 16 bits (zero_groups rs fill target) (length rs)"
  using assms
proof (induction rs fill target rule: zero_groups.induct)
  case (1 rs fill)
  then show ?case by (auto simp: groups_ok_def less_Suc_eq) (metis neq0_conv)
next
  case (2 rs fill target)
  show ?case
  proof (cases "fill < Suc target")
    case True
    have "\<forall>i. target < i \<and> i < length rs \<longrightarrow> group_ok 16 bits (rs[Suc target := mk_range 0 0] ! i)"
      using "2.prems"(4) by (auto simp: nth_list_update)
    moreover have "groups_ok 16 bits (rs[Suc target := mk_range 0 0]) (Suc fill)"
      using "2.prems"(3) True by (auto simp: groups_ok_def nth_list_update)
    ultimately show ?thesis using "2.IH" [OF True] "2.prems" True by simp
  next
    case False
    then have "fill = Suc target" using "2.prems"(1) by simp
    then show ?thesis using "2.prems" by (auto simp: groups_ok_def) (metis not_less_eq)
  qed
qed

lemma mask_group_ok:
  assumes "0 \<le> x" "x < 2 ^ gb" "gb \<le> 16" "mb \<le> gb"
  shows "group_ok gb (-1) (mask_group mb (mk_range x x)) \<and> from_of (mask_group mb (mk_range x x)) + (2 ^ mb - 1) = to_of (mask_group mb (mk_range x x))"
proof -
  have "(2 :: int) ^ gb \<le> 2 ^ 16" by (rule power_increasing) (use assms(3) in simp_all)
  then have x: "x < 65536" "mb \<le> 16" using assms by simp_all
  have "addr_ok gb [x] (Suc 0)" using assms by (simp add: addr_ok_def)
  note d = addr_val_div(2,3) [OF assms(4) this]
  have "(x div 2 ^ mb + 1) * 2 ^ mb \<le> 2 ^ (gb - mb) * 2 ^ mb" using d by (intro mult_right_mono) auto
  also have "\<dots> = 2 ^ gb" using assms(4) by (simp flip: power_add)
  finally have "x div 2 ^ mb * 2 ^ mb + 2 ^ mb \<le> 2 ^ gb" by (simp add: distrib_right)
  moreover have "0 \<le> x div 2 ^ mb * 2 ^ mb" using d(1) by simp
  moreover have "(1 :: int) \<le> 2 ^ mb" by simp
  ultimately show ?thesis
    using mask_group_from [OF assms(1) x] mask_group_to [OF assms(1) x] by (simp add: group_ok_def mask_group_def)
qed

lemma apply_mask_loop_ok:
  assumes "0 < gb" "gb \<le> 16" "bits \<le> k * gb" "k \<le> length rs" "groups_ok gb m rs k" "m \<noteq> -1"
  shows "groups_ok gb (-1) (apply_mask_loop gb rs (k - 1) bits) k \<and>
     (0 < k \<longrightarrow> from_of (apply_mask_loop gb rs (k - 1) bits ! (k - 1)) + (2 ^ min bits gb - 1) = to_of (apply_mask_loop gb rs (k - 1) bits ! (k - 1)))"
  using assms
proof (induction k arbitrary: rs bits)
  case (Suc n)
  show ?case
  proof (cases "bits = 0")
    case True
    then show ?thesis using Suc.prems by (auto simp: apply_mask_loop.simps groups_ok_def group_ok_def)
  next
    case False
    define g where "g = mask_group (min bits gb) (rs ! n)"
    define r' where "r' = apply_mask_loop gb (rs[n := g]) (n - 1) (bits - gb)"
    have n: "n < length rs" using Suc.prems(4) by simp
    note r' = apply_mask_loop_Suc [OF _ Suc.prems(1) n Suc.prems(3) g_def r'_def]
    obtain x where "rs ! n = mk_range x x" using Suc.prems(5,6) by (cases "rs ! n") (auto simp: groups_ok_def group_ok_def mk_range_def)
    moreover from this have "0 \<le> x" "x < 2 ^ gb" using Suc.prems(5) by (auto simp: groups_ok_def group_ok_def)
    ultimately have g: "group_ok gb (-1) g" "from_of g + (2 ^ min bits gb - 1) = to_of g"
      using mask_group_ok [of x gb "min bits gb"] Suc.prems(2) by (simp_all add: g_def)
    have IH: "bits - gb \<le> n * gb" "n \<le> length (rs[n := g])" "groups_ok gb m (rs[n := g]) n"
      using Suc.prems(3-5) by (auto simp: groups_ok_def)
    show ?thesis
      using r' g False Suc.IH [OF Suc.prems(1,2) IH Suc.prems(6), folded r'_def] by (auto simp: groups_ok_def less_Suc_eq)
  qed
qed (simp add: groups_ok_def)



lemma parse_mask_bound:
  "parse_mask s hi = Some (fin, bits, msk) \<Longrightarrow> bits = -1 \<and> msk = 0 \<or> 0 \<le> bits \<and> bits \<le> uint hi \<and> msk = 1"
  using stored_int_bound(1) by (auto simp: parse_mask_def Let_def split: option.splits)

definition group_bits :: "iprange_type \<Rightarrow> nat" where
  "group_bits t = (case t of ZBX_IPRANGE_V4 \<Rightarrow> 8 | ZBX_IPRANGE_V6 \<Rightarrow> 16)"

lemma iprange_apply_mask_eq:
  "iprange_apply_mask r bits =
     r\<lparr>range_of := apply_mask_loop (group_bits (type_of r)) (range_of r) (iprange_groups r - 1)
                     (nat (int (iprange_groups r * group_bits (type_of r)) - bits))\<rparr>"
  by (simp add: iprange_apply_mask_def iprange_groups_def group_bits_def split: iprange_type.splits)

lemma wf_iprangeI:
  assumes "length (range_of r) = 8" "groups_ok (group_bits (type_of r)) (-1) (range_of r) (iprange_groups r)"
    "type_of r = ZBX_IPRANGE_V4 \<and> mask_of r \<noteq> 0 \<longrightarrow> from_of (range_of r ! 3) + 3 \<le> to_of (range_of r ! 3)"
  shows "wf_iprange r"
  using assms by (auto simp: wf_iprange_def groups_ok_def group_ok_def group_bits_def split: iprange_type.splits)

lemma groups_ok_weaken: "groups_ok gb bits rs n \<Longrightarrow> groups_ok gb (-1) rs n"
  by (auto simp: groups_ok_def group_ok_def)

text \<open>The last step of both parsers.\<close>

lemma parse_mask_wf:
  assumes r: "length (range_of r) = 8" "groups_ok (group_bits (type_of r)) bits (range_of r) (iprange_groups r)"
    and m: "bits = -1 \<and> mask_of r = 0 \<or> 0 \<le> bits \<and> bits \<le> (case type_of r of ZBX_IPRANGE_V4 \<Rightarrow> 30 | ZBX_IPRANGE_V6 \<Rightarrow> 128)"
  shows "wf_iprange (if bits \<noteq> -1 then iprange_apply_mask r bits else r)"
proof (cases "bits = -1")
  case True
  then show ?thesis using r m by (auto intro: wf_iprangeI)
next
  case False
  let ?gb = "group_bits (type_of r)" and ?G = "iprange_groups r"
  define b where "b = nat (int (?G * ?gb) - bits)"
  define r' where "r' = apply_mask_loop ?gb (range_of r) (?G - 1) b"
  have e: "iprange_apply_mask r bits = r\<lparr>range_of := r'\<rparr>" by (simp add: iprange_apply_mask_eq r'_def b_def)
  have gb: "0 < ?gb" "?gb \<le> 16" "?G \<le> 8" "0 < ?G" by (simp_all add: group_bits_def iprange_groups_def split: iprange_type.splits)
  have bG: "b \<le> ?G * ?gb" using False m by (auto simp: b_def nat_le_iff)
  have "groups_ok ?gb (-1) r' ?G \<and> from_of (r' ! (?G - 1)) + (2 ^ min b ?gb - 1) = to_of (r' ! (?G - 1))"
    using apply_mask_loop_ok [OF gb(1,2) bG _ r(2) False] r(1) gb by (simp add: r'_def)
  moreover have "(4 :: int) \<le> 2 ^ min b ?gb" if "type_of r = ZBX_IPRANGE_V4"
  proof -
    have "2 \<le> min b ?gb" using False m that by (auto simp: b_def group_bits_def iprange_groups_def)
    then show ?thesis using power_increasing [of 2 "min b ?gb" "2 :: int"] by simp
  qed
  moreover have "length r' = 8" using r(1) apply_mask_loop_frame by (simp add: r'_def)
  ultimately show ?thesis
    using False by (auto simp: e iprange_groups_def intro!: wf_iprangeI split: iprange_type.splits)
qed

lemma iprangev4_parse_wf:
  assumes "iprangev4_parse r0 s = Some r" "length (range_of r0) = 8"
  shows "wf_iprange r"
proof -
  from assms(1) obtain fin bits msk rs where p: "parse_mask s 30 = Some (fin, bits, msk)"
    "iprangev4_loop s fin bits 0 0 0 (range_of r0) = Some (4, rs)"
    "r = (let r = r0\<lparr>range_of := rs, type_of := ZBX_IPRANGE_V4, mask_of := msk\<rparr> in if bits \<noteq> -1 then iprange_apply_mask r bits else r)"
    by (auto simp: iprangev4_parse_def Let_def split: option.splits if_splits prod.splits)
  have "length rs = 8 \<and> groups_ok 8 bits rs 4" using iprangev4_loop_ok [OF p(2)] assms(2) by (simp add: groups_ok_def)
  then show ?thesis
    using parse_mask_wf [of "r0\<lparr>range_of := rs, type_of := ZBX_IPRANGE_V4, mask_of := msk\<rparr>" bits] parse_mask_bound [OF p(1)]
    unfolding p(3) Let_def by (auto simp: group_bits_def iprange_groups_def)
qed

lemma iprangev6_parse_wf:
  assumes "iprangev6_parse r0 s = Inr (Some r)" "length (range_of r0) = 8"
  shows "wf_iprange r"
proof -
  from assms(1) obtain fin bits msk where p: "parse_mask s 128 = Some (fin, bits, msk)"
    by (auto simp: iprangev6_parse_def split: option.splits)
  from assms(1) p obtain index fill rs where l: "iprangev6_loop s fin bits 0 (-1) 0 0 (range_of r0) = Inr (Some (index, fill, rs))"
    by (auto simp: iprangev6_parse_def bind_result_Inr_iff split: option.splits)
  define rs' where "rs' = v6_expand index fill rs"
  have i: "index \<le> 8" "index < 8 \<Longrightarrow> fill \<noteq> -1"
    and r: "r = (let r = r0\<lparr>range_of := rs', type_of := ZBX_IPRANGE_V6, mask_of := msk\<rparr> in if bits \<noteq> -1 then iprange_apply_mask r bits else r)"
    using assms(1) p l by (auto simp: iprangev6_parse_def rs'_def Let_def split: if_splits)
  have inv: "v6_inv bits index fill rs" by (rule iprangev6_loop_inv [OF l]) (simp add: v6_inv_def groups_ok_def assms(2))
  have "length rs' = 8 \<and> groups_ok 16 bits rs' 8"
  proof (cases "index < 8")
    case False
    then show ?thesis using i(1) inv by (auto simp: v6_inv_def rs'_def v6_expand_def)
  next
    case True
    obtain rs1 target where sh: "shift_groups rs (nat fill) index 7 = (rs1, target)" by fastforce
    have f: "nat fill < index" "length rs = 8" "groups_ok 16 bits rs index" using inv i(2) [OF True] by (auto simp: v6_inv_def)
    have "\<forall>i. 7 < i \<and> i < length rs \<longrightarrow> group_ok 16 bits (rs ! i)" using f(2) by auto
    from shift_groups_ok [OF sh f(3) _ _ this f(1)] True f(2)
    have "length rs1 = 8 \<and> target < 8 \<and> nat fill \<le> target \<and> groups_ok 16 bits rs1 (Suc (nat fill)) \<and> (\<forall>i. target < i \<and> i < 8 \<longrightarrow> group_ok 16 bits (rs1 ! i))"
      by simp
    then show ?thesis using zero_groups_ok [of "nat fill" target rs1 bits] True sh by (auto simp: rs'_def v6_expand_def)
  qed
  then show ?thesis
    using parse_mask_wf [of "r0\<lparr>range_of := rs', type_of := ZBX_IPRANGE_V6, mask_of := msk\<rparr>" bits] parse_mask_bound [OF p]
    unfolding r Let_def by (auto simp: group_bits_def iprange_groups_def)
qed

lemma iprange_parse_wf:
  assumes "zbx_iprange_parse r0 s = Inr (Some r)" "length (range_of r0) = 8"
  shows "wf_iprange r"
  using assms iprangev4_parse_wf iprangev6_parse_wf by (auto simp: zbx_iprange_parse_def Let_def split: if_splits)


section \<open>Text of an IPv4 network\<close>

lemma strchr_found: "c \<notin> set w \<Longrightarrow> strchr (pre @ w @ c # post) (length pre) c = Some (length pre + length w)"
proof -
  assume "c \<notin> set w"
  then have "takeWhile (\<lambda>x. x \<noteq> c) (w @ c # post) = w" by (induction w) auto
  then show ?thesis by (simp add: strchr_def)
qed

lemma strchr_none: "c \<notin> set (drop i s) \<Longrightarrow> i \<le> length s \<Longrightarrow> strchr s i c = None"
proof -
  assume "c \<notin> set (drop i s)" "i \<le> length s"
  then have e: "takeWhile (\<lambda>x. x \<noteq> c) (drop i s) = drop i s" unfolding takeWhile_eq_all_conv by blast
  show ?thesis unfolding strchr_def e using \<open>i \<le> length s\<close> by simp
qed

definition dec_text :: "string \<Rightarrow> nat \<Rightarrow> bool" where
  "dec_text d v \<longleftrightarrow> d \<noteq> [] \<and> list_all isdigit d \<and> digits_val 10 dec_digit d = v"

lemma dec_text_chars: "dec_text d v \<Longrightarrow> CHR ''.'' \<notin> set d \<and> CHR ''-'' \<notin> set d \<and> CHR ''/'' \<notin> set d"
  by (auto simp: dec_text_def list_all_iff isdigit_def)

lemma whitespace_chars:
  "list_all iprange_is_whitespace_character ws \<Longrightarrow> CHR ''.'' \<notin> set ws \<and> CHR ''-'' \<notin> set ws \<and> CHR ''/'' \<notin> set ws"
  by (induction ws) (auto simp: iprange_is_whitespace_character_def)

lemma stored_dec_text:
  assumes "dec_text d v" "v \<le> unat hi" "v < 2 ^ 32"
  shows "stored_int (zbx_is_uint_n_range (d @ post) (length d) 4 0 hi) = Some (int v)"
proof -
  have "unat (take_bit 32 (of_nat v :: u64)) = v"
    using assms(3) by (simp add: unsigned_take_bit_eq unat_of_nat take_bit_nat_eq_self)
  then show ?thesis using assms by (simp add: is_uint_range Let_def stored_int_def store_uint_def dec_text_def del: of_nat_unat)
qed

definition point_range :: "nat \<Rightarrow> zbx_range" where
  "point_range v = mk_range (int v) (int v)"

lemma iprangev4_loop_step:
  assumes "ptr < fin" "index < 4" "parse_group CHR ''.'' v4_conv s fin bits address = Some (ptr', g)"
  shows "iprangev4_loop s fin bits index ptr address rs = iprangev4_loop s fin bits (Suc index) ptr' (ptr' + 1) (rs[index := g])"
  using assms by (subst iprangev4_loop.simps) simp

lemma parse_group_text:
  assumes "dec_text d v" "v \<le> 255" "CHR ''-'' \<notin> set post"
    and "(\<exists>q. post = CHR ''.'' # q) \<or> fin = length pre + length d \<and> CHR ''.'' \<notin> set post"
  shows "parse_group CHR ''.'' v4_conv (pre @ d @ post) fin bits (length pre) = Some (length pre + length d, point_range v)"
proof -
  note ch = dec_text_chars [OF assms(1)]
  let ?s = "pre @ d @ post"
  have p: "(case strchr ?s (length pre) CHR ''.'' of None \<Rightarrow> fin | Some p \<Rightarrow> p) = length pre + length d"
    using assms(4) strchr_found [of "CHR ''.''" d pre] strchr_none [of "CHR ''.''" "length pre" ?s] ch by auto
  have n: "strchr ?s (length pre) CHR ''-'' = None" using assms(3) ch by (intro strchr_none) auto
  have "v4_conv (d @ post) (length d) = Some (int v)"
    using assms(1,2) unfolding v4_conv_def by (intro stored_dec_text) simp_all
  then show ?thesis unfolding parse_group_def n p by (simp add: Let_def point_range_def)
qed

definition dotted :: "string list \<Rightarrow> string" where
  "dotted ds = ds ! 0 @ ''.'' @ ds ! 1 @ ''.'' @ ds ! 2 @ ''.'' @ ds ! 3"

text \<open>The decimal texts of the four numbers of an address.\<close>

definition octets :: "string list \<Rightarrow> nat list \<Rightarrow> bool" where
  "octets ds vs \<longleftrightarrow> length ds = 4 \<and> list_all2 dec_text ds vs \<and> (\<forall>v\<in>set vs. v \<le> 255)"

lemma octetsD:
  assumes "octets ds vs"
  shows "length vs = 4" "i < 4 \<Longrightarrow> dec_text (ds ! i) (vs ! i)" "i < 4 \<Longrightarrow> vs ! i \<le> 255" "addr_ok 8 (map int vs) 4"
proof -
  show l: "length vs = 4" using assms list_all2_lengthD [of dec_text ds vs] by (simp add: octets_def)
  show "i < 4 \<Longrightarrow> dec_text (ds ! i) (vs ! i)" using assms by (auto simp: octets_def dest: list_all2_nthD)
  show v: "i < 4 \<Longrightarrow> vs ! i \<le> 255" for i using assms l by (simp add: octets_def)
  then have "i < 4 \<Longrightarrow> vs ! i < 256" for i by (simp add: less_Suc_eq_le [of _ 255, symmetric])
  then show "addr_ok 8 (map int vs) 4" using l by (simp add: addr_ok_def)
qed

lemma dotted_chars: "octets ds vs \<Longrightarrow> c \<in> set (dotted ds) \<Longrightarrow> isdigit c \<or> c = CHR ''.''"
  using octetsD(2) [of ds vs 0] octetsD(2) [of ds vs 1] octetsD(2) [of ds vs 2] octetsD(2) [of ds vs 3]
  by (auto simp: dotted_def dec_text_def list_all_iff)

lemma dotted_ends:
  assumes "octets ds vs"
  shows "dotted ds \<noteq> []" "isdigit (hd (dotted ds))" "isdigit (last (dotted ds))"
  using octetsD(2) [OF assms, of 0] octetsD(2) [OF assms, of 3] by (auto simp: dotted_def dec_text_def list_all_iff)

lemma dotted_loop:
  assumes o: "octets ds vs" and t: "CHR ''-'' \<notin> set t" "CHR ''.'' \<notin> set t"
    and s: "s = dotted ds @ t" and fin: "fin = length (dotted ds)"
  shows "iprangev4_loop s fin bits 0 0 0 rs = Some (4, rs[0 := point_range (vs ! 0), 1 := point_range (vs ! 1),
           2 := point_range (vs ! 2), 3 := point_range (vs ! 3)])"
proof -
  note d = octetsD(2,3) [OF o]
  let ?p0 = "ds ! 0" and ?p1 = "ds ! 0 @ ''.'' @ ds ! 1" and ?p2 = "ds ! 0 @ ''.'' @ ds ! 1 @ ''.'' @ ds ! 2"
  let ?q2 = "CHR ''.'' # ds ! 3 @ t" let ?q1 = "CHR ''.'' # ds ! 2 @ ?q2" let ?q0 = "CHR ''.'' # ds ! 1 @ ?q1"
  have ch: "CHR ''-'' \<notin> set (ds ! i)" if "i < 4" for i using dec_text_chars [OF d(1) [OF that]] by simp
  have q: "CHR ''-'' \<notin> set ?q2" "CHR ''-'' \<notin> set ?q1" "CHR ''-'' \<notin> set ?q0" using t(1) ch [of 1] ch [of 2] ch [of 3] by simp_all
  have f: "length (ds ! 0) + length (ds ! 1) + length (ds ! 2) + length (ds ! 3) + 3 = fin" by (simp add: fin dotted_def)
  have f3: "length (?p2 @ ''.'') + length (ds ! 3) = fin" using f by simp
  have g0: "parse_group CHR ''.'' v4_conv s fin bits 0 = Some (length ?p0, point_range (vs ! 0))"
    using parse_group_text [OF d [of 0] q(3), where fin = fin and pre = "[]"] by (simp add: s dotted_def)
  have g1: "parse_group CHR ''.'' v4_conv s fin bits (length ?p0 + 1) = Some (length ?p1, point_range (vs ! 1))"
    using parse_group_text [OF d [of 1] q(2), where fin = fin and pre = "?p0 @ ''.''"] by (simp add: s dotted_def)
  have g2: "parse_group CHR ''.'' v4_conv s fin bits (length ?p1 + 1) = Some (length ?p2, point_range (vs ! 2))"
    using parse_group_text [OF d [of 2] q(1), where fin = fin and pre = "?p1 @ ''.''"] by (simp add: s dotted_def)
  have g3: "parse_group CHR ''.'' v4_conv s fin bits (length ?p2 + 1) = Some (fin, point_range (vs ! 3))"
    using parse_group_text [OF d [of 3] t(1) disjI2 [OF conjI [OF f3 [symmetric] t(2)]]] f3 by (simp add: s dotted_def)
  have lt: "0 < fin" "length ?p0 < fin" "length ?p1 < fin" "length ?p2 < fin" using f by simp_all
  note step = iprangev4_loop_step [where bits = bits and s = s]
  have "iprangev4_loop s fin bits 0 0 0 rs = iprangev4_loop s fin bits 1 (length ?p0) (length ?p0 + 1) (rs[0 := point_range (vs ! 0)])"
    using step [OF lt(1) _ g0] by simp
  also have "\<dots> = iprangev4_loop s fin bits 2 (length ?p1) (length ?p1 + 1) (rs[0 := point_range (vs ! 0), 1 := point_range (vs ! 1)])"
    by (subst step [OF lt(2) _ g1]) (simp_all add: numeral_2_eq_2)
  also have "\<dots> = iprangev4_loop s fin bits 3 (length ?p2) (length ?p2 + 1)
      (rs[0 := point_range (vs ! 0), 1 := point_range (vs ! 1), 2 := point_range (vs ! 2)])"
    by (subst step [OF lt(3) _ g2]) (simp_all add: numeral_3_eq_3)
  also have "\<dots> = iprangev4_loop s fin bits 4 fin (fin + 1)
      (rs[0 := point_range (vs ! 0), 1 := point_range (vs ! 1), 2 := point_range (vs ! 2), 3 := point_range (vs ! 3)])"
    by (subst step [OF lt(4) _ g3]) simp_all
  finally show ?thesis by (simp add: iprangev4_loop.simps)
qed

lemma address_length_text:
  assumes "list_all iprange_is_whitespace_character ws" "s \<noteq> []" "\<not> iprange_is_whitespace_character (last s)"
  shows "iprange_address_length (s @ ws) = length s"
proof -
  have "dropWhile iprange_is_whitespace_character (rev ws @ rev s) = dropWhile iprange_is_whitespace_character (rev s)"
    using assms(1) by (intro dropWhile_append2) (simp add: list_all_iff)
  also have "\<dots> = rev s" using assms(2,3) by (cases s rule: rev_cases) auto
  finally show ?thesis by (simp add: iprange_address_length_def)
qed

lemma digit_not_whitespace: "isdigit c \<Longrightarrow> \<not> iprange_is_whitespace_character c"
  by (auto simp: isdigit_def iprange_is_whitespace_character_def)

lemma too_large_dec_text:
  "dec_text d v \<Longrightarrow> unat hi < v \<Longrightarrow> stored_int (zbx_is_uint_n_range (d @ post) (length d) 4 0 hi) = None"
  by (simp add: is_uint_range Let_def stored_int_def dec_text_def)

text \<open>The part behind the address: nothing, or a slash and the number of mask bits.\<close>

definition mask_text :: "string \<Rightarrow> nat option \<Rightarrow> bool" where
  "mask_text m b \<longleftrightarrow> (case b of None \<Rightarrow> m = [] | Some b \<Rightarrow> m \<noteq> [] \<and> hd m = CHR ''/'' \<and> dec_text (tl m) b)"

lemma mask_text_parse:
  assumes "octets ds vs" "mask_text m b" "list_all iprange_is_whitespace_character ws"
  shows "parse_mask (dotted ds @ m @ ws) 30 =
    (case b of None \<Rightarrow> Some (length (dotted ds), -1, 0)
     | Some b \<Rightarrow> if b \<le> 30 then Some (length (dotted ds), int b, 1) else None)"
proof -
  have ch: "CHR ''/'' \<notin> set (dotted ds)" using dotted_chars [OF assms(1), of "CHR ''/''"] by (auto simp: isdigit_def)
  show ?thesis
  proof (cases b)
    case None
    then have m: "m = []" using assms(2) by (simp add: mask_text_def)
    have "iprange_address_length (dotted ds @ ws) = length (dotted ds)"
      using dotted_ends [OF assms(1)] digit_not_whitespace by (intro address_length_text [OF assms(3)]) simp_all
    moreover have "strchr (dotted ds @ ws) 0 CHR ''/'' = None"
      using ch whitespace_chars [OF assms(3)] by (intro strchr_none) simp_all
    ultimately show ?thesis by (simp add: parse_mask_def m None)
  next
    case (Some v)
    then obtain k where k: "m = CHR ''/'' # k" "dec_text k v" using assms(2) by (cases m) (auto simp: mask_text_def)
    have c: "strchr (dotted ds @ m @ ws) 0 CHR ''/'' = Some (length (dotted ds))"
      using strchr_found [of "CHR ''/''" "dotted ds" "[]" "k @ ws"] ch by (simp add: k(1))
    have "k \<noteq> []" "isdigit (last k)" using k(2) by (auto simp: dec_text_def list_all_iff)
    then have l: "iprange_address_length (dotted ds @ m @ ws) = length (dotted ds) + 1 + length k"
      using address_length_text [OF assms(3), of "dotted ds @ m"] digit_not_whitespace by (simp add: k(1))
    have d: "drop (length (dotted ds) + 1) (dotted ds @ m @ ws) = k @ ws" by (simp add: k(1))
    show ?thesis
      using stored_dec_text [OF k(2), of 30 ws] too_large_dec_text [OF k(2), of 30 ws]
      unfolding parse_mask_def c Let_def l option.case d Some by (cases "v \<le> 30") simp_all
  qed
qed

text \<open>What the parser makes of an address or a network: nothing of a mask with more than 30 bits.\<close>

definition network :: "zbx_iprange \<Rightarrow> nat list \<Rightarrow> nat option \<Rightarrow> zbx_iprange option" where
  "network r0 vs b =
     (let r = r0\<lparr>range_of := (range_of r0)[0 := point_range (vs ! 0), 1 := point_range (vs ! 1), 2 := point_range (vs ! 2), 3 := point_range (vs ! 3)],
                 type_of := ZBX_IPRANGE_V4, mask_of := (if b = None then 0 else 1)\<rparr>
      in case b of None \<Rightarrow> Some r | Some b \<Rightarrow> if b \<le> 30 then Some (iprange_apply_mask r (int b)) else None)"

lemma network_parsed:
  assumes o: "octets ds vs" and m: "mask_text m b"
    and ws: "list_all iprange_is_whitespace_character lead" "list_all iprange_is_whitespace_character trail"
  shows "zbx_iprange_parse r0 (lead @ dotted ds @ m @ trail) = Inr (network r0 vs b)"
proof -
  let ?s = "dotted ds @ m @ trail"
  have "\<forall>c\<in>set lead. iprange_is_whitespace_character c" using ws(1) by (simp add: list_all_iff)
  then have "dropWhile iprange_is_whitespace_character (lead @ ?s) = ?s"
    using dotted_ends [OF o] digit_not_whitespace by (cases "dotted ds") (auto simp: dropWhile_append2)
  moreover have "CHR ''.'' \<in> set ?s" by (simp add: dotted_def)
  moreover have "CHR ''-'' \<notin> set (m @ trail)" "CHR ''.'' \<notin> set (m @ trail)"
    using m dec_text_chars [of "tl m"] whitespace_chars [OF ws(2)] by (cases m; auto simp: mask_text_def split: option.splits)+
  note dotted_loop [OF o this refl refl]
  ultimately show ?thesis
    using mask_text_parse [OF o m ws(2)]
    by (simp add: zbx_iprange_parse_def iprangev4_parse_def network_def Let_def split: option.splits)
qed

definition host_bits :: "nat option \<Rightarrow> nat" where
  "host_bits b = (case b of None \<Rightarrow> 0 | Some b \<Rightarrow> 32 - b)"

lemma network_validate:
  assumes "octets ds vs" "length (range_of r0) = 8" "network r0 vs b = Some r" "4 \<le> length a" "addr_ok 8 a 4"
  shows "zbx_iprange_validate r a = SUCCEED \<longleftrightarrow> addr_val 8 a 4 div 2 ^ host_bits b = addr_val 8 (map int vs) 4 div 2 ^ host_bits b"
proof -
  define rs where "rs = (range_of r0)[0 := point_range (vs ! 0), 1 := point_range (vs ! 1), 2 := point_range (vs ! 2), 3 := point_range (vs ! 3)]"
  have pt: "point_groups rs (map int vs) 4"
    using assms(2) octetsD(1) [OF assms(1)] by (auto simp: point_groups_def rs_def point_range_def nth_list_update eval_nat_numeral less_Suc_eq)
  have bits: "host_bits b \<le> 4 * 8" by (simp add: host_bits_def split: option.splits)
  have r: "range_of r = apply_mask_loop 8 rs 3 (host_bits b)" "type_of r = ZBX_IPRANGE_V4"
  proof -
    have "nat (32 - int v) = 32 - v" for v by simp
    moreover have "apply_mask_loop 8 rs 3 0 = rs" by (simp add: apply_mask_loop.simps)
    ultimately show "range_of r = apply_mask_loop 8 rs 3 (host_bits b)" "type_of r = ZBX_IPRANGE_V4"
      using assms(3) by (auto simp: network_def Let_def rs_def host_bits_def iprange_apply_mask_def iprange_groups_def split: option.splits if_splits)
  qed
  show ?thesis
    using apply_mask_loop_spec [OF _ bits pt octetsD(4) [OF assms(1)] assms(5)] assms(4)
    by (subst in_groups_iff_validate) (simp_all add: iprange_groups_def in_groups_def r)
qed

section \<open>Lists of ranges\<close>

fun join_commas :: "string list \<Rightarrow> string" where
  "join_commas [] = []"
| "join_commas [t] = t"
| "join_commas (t # ts) = t @ CHR '','' # join_commas ts"

lemma ip_in_list_loop_join:
  assumes "\<forall>t\<in>set ts. CHR '','' \<notin> set t" "\<forall>t\<in>set ts. \<exists>res. zbx_iprange_parse r0 t = Inr res" "ts \<noteq> []"
  shows "ip_in_list_loop r0 a (join_commas ts) =
    Inr (if \<exists>t\<in>set ts. \<exists>r. zbx_iprange_parse r0 t = Inr (Some r) \<and> zbx_iprange_validate r a = SUCCEED then SUCCEED else FAIL)"
  using assms
proof (induction ts rule: join_commas.induct)
  case (2 t)
  have tw: "takeWhile (\<lambda>c. c \<noteq> CHR '','') t = t" "dropWhile (\<lambda>c. c \<noteq> CHR '','') t = []" using 2 by auto
  obtain res where "zbx_iprange_parse r0 t = Inr res" using 2 by auto
  then show ?case
    unfolding join_commas.simps by (subst ip_in_list_loop.simps) (simp only: tw Let_def, auto split: option.splits)
next
  case (3 t u ts)
  let ?rest = "join_commas (u # ts)"
  have tw: "takeWhile (\<lambda>c. c \<noteq> CHR '','') (t @ CHR '','' # ?rest) = t"
      "dropWhile (\<lambda>c. c \<noteq> CHR '','') (t @ CHR '','' # ?rest) = CHR '','' # ?rest"
    using 3 by (auto simp: takeWhile_append dropWhile_append)
  obtain res where res: "zbx_iprange_parse r0 t = Inr res" using 3 by auto
  have "ip_in_list_loop r0 a (t @ CHR '','' # ?rest) =
      (if (case res of None \<Rightarrow> False | Some r \<Rightarrow> zbx_iprange_validate r a = SUCCEED) then Inr SUCCEED else ip_in_list_loop r0 a ?rest)"
    by (subst ip_in_list_loop.simps) (simp only: tw Let_def res sum.case list.sel list.simps if_False)
  moreover have "ip_in_list_loop r0 a ?rest =
      Inr (if \<exists>t\<in>set (u # ts). \<exists>r. zbx_iprange_parse r0 t = Inr (Some r) \<and> zbx_iprange_validate r a = SUCCEED then SUCCEED else FAIL)"
    using 3 by simp
  ultimately show ?case using res unfolding join_commas.simps by (simp only: list.set) (auto split: option.splits)
qed simp

text \<open>The text of one part of a list: an address or a network with white space around it.\<close>

definition entry_text :: "string \<Rightarrow> nat list \<times> nat option \<Rightarrow> bool" where
  "entry_text t e \<longleftrightarrow>
     (\<exists>lead ds m trail. t = lead @ dotted ds @ m @ trail \<and> octets ds (fst e) \<and> mask_text m (snd e) \<and>
        list_all iprange_is_whitespace_character lead \<and> list_all iprange_is_whitespace_character trail)"

definition in_network :: "nat list \<Rightarrow> nat list \<times> nat option \<Rightarrow> bool" where
  "in_network a e \<longleftrightarrow> (case e of (vs, b) \<Rightarrow> (case b of None \<Rightarrow> True | Some n \<Rightarrow> n \<le> 30) \<and>
     addr_val 8 (map int a) 4 div 2 ^ host_bits b = addr_val 8 (map int vs) 4 div 2 ^ host_bits b)"

lemma entry_parsed:
  assumes "entry_text t (vs, b)"
  shows "zbx_iprange_parse r0 t = Inr (network r0 vs b)" "CHR '','' \<notin> set t" "t \<noteq> []" "\<exists>ds. octets ds vs"
proof -
  obtain lead ds m trail where t: "t = lead @ dotted ds @ m @ trail" "octets ds vs" "mask_text m b"
    "list_all iprange_is_whitespace_character lead" "list_all iprange_is_whitespace_character trail"
    using assms by (auto simp: entry_text_def)
  show "zbx_iprange_parse r0 t = Inr (network r0 vs b)" using network_parsed [OF t(2-5)] t(1) by simp
  have "CHR '','' \<notin> set (dotted ds)" using dotted_chars [OF t(2), of "CHR '',''"] by (auto simp: isdigit_def)
  moreover have "CHR '','' \<notin> set m"
    using t(3) by (cases m) (auto simp: mask_text_def dec_text_def list_all_iff isdigit_def split: option.splits)
  moreover have "CHR '','' \<notin> set ws" if "list_all iprange_is_whitespace_character ws" for ws
    using that by (induction ws) (auto simp: iprange_is_whitespace_character_def)
  ultimately show "CHR '','' \<notin> set t" using t(1,4,5) by simp
  show "t \<noteq> []" using t(1) dotted_ends(1) [OF t(2)] by simp
  show "\<exists>ds. octets ds vs" using t(2) by blast
qed

lemma entry_matches:
  assumes "entry_text t e" "length (range_of r0) = 8" "octets ads a" "map int a = take 4 ad" "4 \<le> length ad"
  shows "(\<exists>r. zbx_iprange_parse r0 t = Inr (Some r) \<and> zbx_iprange_validate r ad = SUCCEED) \<longleftrightarrow> in_network a e"
proof -
  obtain vs b where e: "e = (vs, b)" by (cases e)
  note p = entry_parsed [OF assms(1) [unfolded e]]
  obtain ds where ds: "octets ds vs" using p(4) by blast
  have "ad ! i = map int a ! i" if "i < 4" for i using that by (simp add: assms(4))
  then have ad: "addr_ok 8 ad 4" "addr_val 8 ad 4 = addr_val 8 (map int a) 4"
    using octetsD(4) [OF assms(3)] by (simp_all add: addr_ok_def numeral_eq_Suc del: nth_map)
  have n: "network r0 vs b = None \<longleftrightarrow> (\<exists>n. b = Some n \<and> 30 < n)" by (auto simp: network_def Let_def split: option.splits)
  show ?thesis
  proof (cases "network r0 vs b")
    case None
    then show ?thesis using n by (auto simp: p(1) e in_network_def)
  next
    case (Some r)
    then have "case b of None \<Rightarrow> True | Some n \<Rightarrow> n \<le> 30" using n by (auto simp: not_less split: option.split)
    then show ?thesis
      using network_validate [OF ds assms(2) Some assms(5) ad(1)] Some ad(2) by (simp add: p(1) e in_network_def)
  qed
qed

section \<open>Dotted addresses\<close>

fun split_dots :: "string \<Rightarrow> string \<Rightarrow> string list" where
  "split_dots cur [] = [cur]"
| "split_dots cur (c # p) = (if c = CHR ''.'' then cur # split_dots [] p else split_dots (cur @ [c]) p)"

definition is_octet :: "string \<Rightarrow> bool" where
  "is_octet w \<longleftrightarrow> 1 \<le> length w \<and> length w \<le> 3 \<and> list_all isdigit w \<and> digits_val 10 dec_digit w \<le> 255"

lemma split_dots_hd: "\<exists>w ws. split_dots cur p = (cur @ w) # ws"
proof (induction p arbitrary: cur)
  case (Cons c p)
  then show ?case using Cons [of "cur @ [c]"] by (cases "c = CHR ''.''") auto
qed simp

lemma is_ip4_loop_spec:
  assumes "list_all isdigit cur" "is_ip4_loop p (length cur) dots (digits_val 10 dec_digit cur) = (digits, dots', octet)"
  shows "dots' = 3 \<and> 1 \<le> digits \<and> digits \<le> 3 \<and> octet \<le> 255 \<longleftrightarrow> dots + length (split_dots cur p) = 4 \<and> list_all is_octet (split_dots cur p)"
  using assms
proof (induction p arbitrary: cur dots)
  case Nil
  then show ?case by (auto simp: is_octet_def)
next
  case (Cons c p)
  show ?case
  proof (cases "isdigit c")
    case True
    then have "c \<noteq> CHR ''.''" by (auto simp: isdigit_def)
    moreover have "digits_val 10 dec_digit (cur @ [c]) = digits_val 10 dec_digit cur * 10 + (ord c - 48)"
      by (simp add: digits_val_def dec_digit_def)
    ultimately show ?thesis using Cons.IH [of "cur @ [c]" dots] Cons.prems True by simp
  next
    case nd: False
    show ?thesis
    proof (cases "c = CHR ''.''")
      case dot: True
      show ?thesis
      proof (cases "length cur = 0 \<or> 3 < length cur \<or> 255 < digits_val 10 dec_digit cur")
        case True
        then show ?thesis using Cons.prems nd dot by (auto simp: is_octet_def)
      next
        case False
        then have "is_octet cur" using Cons.prems(1) by (auto simp: is_octet_def Suc_le_eq)
        then show ?thesis using Cons.IH [of "[]" "dots + 1"] Cons.prems nd dot False by (simp add: digits_val_def)
      qed
    next
      case False
      obtain w ws where "split_dots (cur @ [c]) p = ((cur @ [c]) @ w) # ws" using split_dots_hd by blast
      then show ?thesis using Cons.prems nd False by (auto simp: is_octet_def)
    qed
  qed
qed

lemma is_ip4_iff: "zbx_is_ip4 ip = SUCCEED \<longleftrightarrow> length (split_dots [] ip) = 4 \<and> list_all is_octet (split_dots [] ip)"
proof -
  obtain digits dots octet where "is_ip4_loop ip 0 0 0 = (digits, dots, octet)" by (metis prod_cases3)
  then show ?thesis using is_ip4_loop_spec [of "[]" ip 0 digits dots octet] by (simp add: zbx_is_ip4_def digits_val_def)
qed

section \<open>Inputs that the code mishandles\<close>

text \<open>
  A double colon behind eight groups is written behind the array; a colon at the end of an address reads
  behind the terminating NUL; further groups behind a complete address are ignored; an IPv6 address is
  compared with an IPv4 range group by group; three hexadecimal groups are an IPv6 address.
\<close>

lemma iprangev6_write_overflow: "zbx_iprange_parse any_range ''1:2:3:4:5:6:7:8::'' = Inl BadIndex"
  by code_simp

lemma iprangev6_read_overflow: "zbx_iprange_parse any_range ''1::2:'' = Inl BadIndex"
  by code_simp

lemma iprange_ignores_groups:
  "zbx_iprange_parse any_range ''1.2.3.4.x'' = zbx_iprange_parse any_range ''1.2.3.4''"
  "zbx_iprange_parse any_range ''1:2:3:4:5:6:7:8:9'' = zbx_iprange_parse any_range ''1:2:3:4:5:6:7:8''"
  by code_simp+

lemma ip_in_list_mixes_families: "zbx_ip_in_list any_range (replicate 8 0) ''0.0.0.0/0'' ''::1'' = Inr SUCCEED"
  by code_simp

lemma is_ip6_incomplete: "zbx_is_ip6 ''1:2:3'' = SUCCEED"
  by code_simp

section \<open>Properties\<close>

text \<open>
  C31. Every range that the parser accepts, IPv4 or IPv6, is well formed: eight groups, each inside the bounds of
  its address family with its start not above its end, and an IPv4 network of at least four addresses.
  So the walk through an accepted range always ends.
\<close>

theorem iprange_parse_result:
  assumes "zbx_iprange_parse r0 s = Inr (Some r)" "length (range_of r0) = 8"
  shows "wf_iprange r"
  by (rule iprange_parse_wf [OF assms])

theorem iprange_parse_result_witness: "\<exists>r. zbx_iprange_parse any_range ''::'' = Inr (Some r) \<and> wf_iprange r"
proof -
  have e: "zbx_iprange_parse any_range ''::'' = Inr (Some (any_range\<lparr>type_of := ZBX_IPRANGE_V6\<rparr>))" by code_simp
  have "wf_iprange (any_range\<lparr>type_of := ZBX_IPRANGE_V6\<rparr>)" by (rule iprange_parse_result [OF e]) (simp add: any_range_def)
  with e show ?thesis by blast
qed

text \<open>
  C27. The text of an IPv4 network, four decimal numbers of at most 255 and the number of mask bits with white space around it,
  is accepted if the mask has at most 30 bits, and an address belongs to the resulting range exactly if its leading bits are those of
  the network.  With more bits, also with 31 and 32, the text is refused: the limit of the parser is 30.
\<close>

theorem iprange_network_text:
  assumes "octets ds vs" "dec_text m b"
    and "list_all iprange_is_whitespace_character lead" "list_all iprange_is_whitespace_character trail" "length (range_of r0) = 8"
  shows "if b \<le> 30
    then \<exists>r. zbx_iprange_parse r0 (lead @ dotted ds @ (''/'' @ m) @ trail) = Inr (Some r) \<and> type_of r = ZBX_IPRANGE_V4 \<and> mask_of r = 1 \<and>
           (\<forall>a. 4 \<le> length a \<and> addr_ok 8 a 4 \<longrightarrow>
              (zbx_iprange_validate r a = SUCCEED \<longleftrightarrow> addr_val 8 a 4 div 2 ^ (32 - b) = addr_val 8 (map int vs) 4 div 2 ^ (32 - b)))
    else zbx_iprange_parse r0 (lead @ dotted ds @ (''/'' @ m) @ trail) = Inr None"
proof -
  have "mask_text (''/'' @ m) (Some b)" using assms(2) by (simp add: mask_text_def)
  note p = network_parsed [OF assms(1) this assms(3,4), of r0]
  show ?thesis
  proof (cases "b \<le> 30")
    case True
    then obtain r where r: "network r0 vs (Some b) = Some r" "type_of r = ZBX_IPRANGE_V4" "mask_of r = 1"
      by (auto simp: network_def Let_def iprange_apply_mask_def)
    then show ?thesis using True p network_validate [OF assms(1,5) r(1)] by (auto simp: host_bits_def)
  next
    case False
    then show ?thesis using p by (simp add: network_def)
  qed
qed

theorem iprange_network_text_witness:
  "(\<exists>r. zbx_iprange_parse any_range '' 10.1.2.3/8'' = Inr (Some r) \<and> type_of r = ZBX_IPRANGE_V4) \<and>
   zbx_iprange_parse any_range '' 10.1.2.3/32'' = Inr None"
proof -
  have d: "octets [''10'', ''1'', ''2'', ''3''] [10, 1, 2, 3]" "dec_text ''8'' 8" "dec_text ''32'' 32"
    by (simp_all add: octets_def dec_text_def isdigit_def digits_val_def dec_digit_def)
  show ?thesis
    using iprange_network_text [OF d(1,2), of "'' ''" "[]" any_range] iprange_network_text [OF d(1,3), of "'' ''" "[]" any_range]
    by (auto simp: any_range_def iprange_is_whitespace_character_def dotted_def)
qed

text \<open>
  C38. The lookup of an IPv4 address in a comma separated list of IPv4 addresses and networks, each with white space around it,
  succeeds exactly if the address is one of the addresses or has the leading bits of one of the networks; it depends neither on
  the initial contents of its buffers nor on the order of the list.  A network with more than 30 mask bits is skipped, as the
  parser refuses it.  The list holds no ranges with a dash and no IPv6 addresses.
\<close>

theorem ip_in_list_spec:
  assumes "entry_text ip (a, None)" "list_all2 entry_text ts es" "ts \<noteq> []"
    and "length (range_of r0) = 8" "length buf = 8"
  shows "zbx_ip_in_list r0 buf (join_commas ts) ip = Inr (if \<exists>e\<in>set es. in_network a e then SUCCEED else FAIL)"
proof -
  note ip = entry_parsed [OF assms(1)]
  obtain ads where ads: "octets ads a" using ip(4) by blast
  obtain r where r: "network r0 a None = Some r" by (simp add: network_def)
  define ad where "ad = zbx_iprange_first r buf"
  have l: "length a = 4" by (rule octetsD(1) [OF ads])
  have ad: "map int a = take 4 ad" "4 \<le> length ad"
    using r assms(4,5) l
    by (auto simp: ad_def zbx_iprange_first_def network_def iprange_groups_def point_range_def eval_nat_numeral length_Suc_conv take_Suc_conv_app_nth Let_def)
  have "join_commas ts \<noteq> []"
    using assms(2,3) entry_parsed(3) by (cases ts rule: join_commas.cases) (auto simp: list_all2_Cons1)
  then have "zbx_ip_in_list r0 buf (join_commas ts) ip = ip_in_list_loop r0 ad (join_commas ts)"
    by (simp add: zbx_ip_in_list_def ip(1) r ad_def)
  also have "\<dots> = Inr (if \<exists>t\<in>set ts. \<exists>r. zbx_iprange_parse r0 t = Inr (Some r) \<and> zbx_iprange_validate r ad = SUCCEED then SUCCEED else FAIL)"
  proof (rule ip_in_list_loop_join [OF _ _ assms(3)])
    have *: "\<exists>e. entry_text t e" if "t \<in> set ts" for t
      using assms(2) that by (metis in_set_conv_nth list_all2_nthD)
    show "\<forall>t\<in>set ts. CHR '','' \<notin> set t" "\<forall>t\<in>set ts. \<exists>res. zbx_iprange_parse r0 t = Inr res"
      using * entry_parsed(1,2) by (metis prod.exhaust_sel)+
  qed
  also have "(\<exists>t\<in>set ts. \<exists>r. zbx_iprange_parse r0 t = Inr (Some r) \<and> zbx_iprange_validate r ad = SUCCEED) \<longleftrightarrow> (\<exists>e\<in>set es. in_network a e)"
    using assms(2)
  proof (induction rule: list_all2_induct)
    case (Cons t ts e es)
    then show ?case using entry_matches [OF Cons.hyps(1) assms(4) ads ad] by simp
  qed simp
  finally show ?thesis .
qed

theorem ip_in_list_spec_witness:
  "zbx_ip_in_list any_range (replicate 8 7) ''192.168.0.0/16, 10.1.0.0/16'' ''10.1.2.3'' = Inr SUCCEED"
proof -
  let ?o = "\<lambda>ds vs m b. octets ds vs \<and> mask_text m b"
  have d: "?o [''10'', ''1'', ''2'', ''3''] [10, 1, 2, 3] [] None" "?o [''192'', ''168'', ''0'', ''0''] [192, 168, 0, 0] ''/16'' (Some 16)"
    "?o [''10'', ''1'', ''0'', ''0''] [10, 1, 0, 0] ''/16'' (Some 16)"
    by (simp_all add: octets_def mask_text_def dec_text_def isdigit_def digits_val_def dec_digit_def)
  have w: "list_all iprange_is_whitespace_character '' ''" by (simp add: iprange_is_whitespace_character_def)
  have "entry_text ''10.1.2.3'' ([10, 1, 2, 3], None)"
    unfolding entry_text_def using d(1) by (intro exI [of _ "[]"] exI [of _ "[''10'', ''1'', ''2'', ''3'']"]) (simp add: dotted_def)
  moreover have "entry_text ''192.168.0.0/16'' ([192, 168, 0, 0], Some 16)"
    unfolding entry_text_def using d(2)
    by (intro exI [of _ "[]"] exI [of _ "[''192'', ''168'', ''0'', ''0'']"] exI [of _ "''/16''"]) (simp add: dotted_def)
  moreover have "entry_text '' 10.1.0.0/16'' ([10, 1, 0, 0], Some 16)"
    unfolding entry_text_def using d(3) w
    by (intro exI [of _ "'' ''"] exI [of _ "[''10'', ''1'', ''0'', ''0'']"] exI [of _ "''/16''"] exI [of _ "[]"]) (simp add: dotted_def)
  moreover have "in_network [10, 1, 2, 3] ([10, 1, 0, 0], Some 16)" by code_simp
  ultimately show ?thesis
    using ip_in_list_spec [of "''10.1.2.3''" "[10, 1, 2, 3]" "[''192.168.0.0/16'', '' 10.1.0.0/16'']"
      "[([192, 168, 0, 0], Some 16), ([10, 1, 0, 0], Some 16)]" any_range "replicate 8 7"]
    by (simp add: any_range_def)
qed

text \<open>
  \<open>zbx_is_ip4\<close> accepts exactly the texts of four parts between dots, each of one to three decimal digits with
  a value of at most 255.
\<close>

theorem is_ip4_exact: "zbx_is_ip4 ip = SUCCEED \<longleftrightarrow> length (split_dots [] ip) = 4 \<and> list_all is_octet (split_dots [] ip)"
  by (rule is_ip4_iff)

end
