(* ===== verification/Json_Text.thy ===== *)
theory Json_Text
  imports Num_Parse
begin

text \<open>
  \<open>src/libs/zbxjson/json.c\<close>, strings: the escaping that the builder applies, the decoding of escape
  sequences into UTF-8, and the copy of a quoted string into a buffer.

  A C string is the list of its characters before the NUL.  A pointer into the text is the list from that
  position on; a function that moves a pointer returns the list from the new position on, and where the
  code returns 0 or NULL for an error the result is \<open>None\<close>.
\<close>

section \<open>Types\<close>

datatype zbx_json_type =
    ZBX_JSON_TYPE_UNKNOWN | ZBX_JSON_TYPE_STRING | ZBX_JSON_TYPE_INT | ZBX_JSON_TYPE_ARRAY | ZBX_JSON_TYPE_OBJECT
  | ZBX_JSON_TYPE_NULL | ZBX_JSON_TYPE_TRUE | ZBX_JSON_TYPE_FALSE | ZBX_JSON_TYPE_NUMBER

section \<open>Escaping\<close>

text \<open>The characters with an escape of two characters, and the letter of the escape.\<close>

definition escape_letter :: "char \<Rightarrow> char option" where
  "escape_letter c =
     (if c = CHR 0x22 then Some (CHR 0x22) else if c = CHR 0x5C then Some (CHR 0x5C)
      else if c = CHR 0x08 then Some CHR ''b'' else if c = CHR 0x0C then Some CHR ''f''
      else if c = CHR 0x0A then Some CHR ''n'' else if c = CHR 0x0D then Some CHR ''r''
      else if c = CHR 0x09 then Some CHR ''t'' else None)"

definition zbx_num2hex :: "nat \<Rightarrow> char" where
  "zbx_num2hex c = (if 10 \<le> c then char_of (c + 0x57) else char_of (c + 0x30))"

text \<open>What \<open>__zbx_json_insstring\<close> writes for one character, and \<open>__zbx_json_stringsize\<close> counts.\<close>

definition escape_char :: "char \<Rightarrow> string" where
  "escape_char c =
     (case escape_letter c of
        Some e \<Rightarrow> [CHR 0x5C, e]
      | None \<Rightarrow>
          if ord c \<le> 0x1F
          then [CHR 0x5C, CHR ''u'', CHR ''0'', CHR ''0'', zbx_num2hex (ord c div 16 mod 16), zbx_num2hex (ord c mod 16)]
          else [c])"

definition escape_size :: "char \<Rightarrow> nat" where
  "escape_size c = (if escape_letter c \<noteq> None then 2 else if ord c \<le> 0x1F then 6 else 1)"

text \<open>A NULL string stands for the text \<open>null\<close>, without quotes.\<close>

definition zbx_json_stringsize :: "string option \<Rightarrow> zbx_json_type \<Rightarrow> nat" where
  "zbx_json_stringsize str type =
     sum_list (map escape_size (case str of None \<Rightarrow> ''null'' | Some s \<Rightarrow> s)) +
     (if str \<noteq> None \<and> type = ZBX_JSON_TYPE_STRING then 2 else 0)"

definition zbx_json_insstring :: "string option \<Rightarrow> zbx_json_type \<Rightarrow> string" where
  "zbx_json_insstring str type =
     (let quote = (if str \<noteq> None \<and> type = ZBX_JSON_TYPE_STRING then [CHR 0x22] else [])
      in quote @ concat (map escape_char (case str of None \<Rightarrow> ''null'' | Some s \<Rightarrow> s)) @ quote)"

definition zbx_json_escape :: "string \<Rightarrow> string" where
  "zbx_json_escape str =
     (if zbx_json_stringsize (Some str) ZBX_JSON_TYPE_UNKNOWN = 0 then str
      else zbx_json_insstring (Some str) ZBX_JSON_TYPE_UNKNOWN)"

section \<open>Decoding\<close>

definition zbx_is_valid_json_hex :: "string \<Rightarrow> bool" where
  "zbx_is_valid_json_hex p \<longleftrightarrow> 4 \<le> length p \<and> list_all isxdigit (take 4 p)"

definition zbx_hex2num :: "char \<Rightarrow> nat" where
  "zbx_hex2num c =
     (if ord c \<ge> 97 then ord c - 97 + 10 else if ord c \<ge> 65 then ord c - 65 + 10 else ord c - 48)"

definition hex4 :: "string \<Rightarrow> nat" where
  "hex4 p = zbx_hex2num (p ! 0) * 2 ^ 12 + zbx_hex2num (p ! 1) * 2 ^ 8 + zbx_hex2num (p ! 2) * 2 ^ 4 + zbx_hex2num (p ! 3)"

definition byte :: "nat \<Rightarrow> char" where "byte n = char_of n"

text \<open>The escapes of one letter.\<close>

definition unescape_letter :: "char \<Rightarrow> char option" where
  "unescape_letter c =
     (if c = CHR 0x22 then Some (CHR 0x22) else if c = CHR 0x5C then Some (CHR 0x5C) else if c = CHR ''/'' then Some CHR ''/''
      else if c = CHR ''b'' then Some (CHR 0x08) else if c = CHR ''f'' then Some (CHR 0x0C)
      else if c = CHR ''n'' then Some (CHR 0x0A) else if c = CHR ''r'' then Some (CHR 0x0D)
      else if c = CHR ''t'' then Some (CHR 0x09) else None)"

text \<open>The bytes of a code point; the shifts and masks of the code are divisions and remainders.\<close>

definition utf8_2 :: "nat \<Rightarrow> string" where
  "utf8_2 num = [byte (0xC0 + num div 2 ^ 6 mod 2 ^ 5), byte (0x80 + num mod 2 ^ 6)]"

definition utf8_3 :: "nat \<Rightarrow> string" where
  "utf8_3 num = [byte (0xE0 + num div 2 ^ 12 mod 2 ^ 4), byte (0x80 + num div 2 ^ 6 mod 2 ^ 6), byte (0x80 + num mod 2 ^ 6)]"

definition utf8_4 :: "nat \<Rightarrow> string" where
  "utf8_4 uc =
     [byte (0xF0 + uc div 2 ^ 18 mod 2 ^ 3), byte (0x80 + uc div 2 ^ 12 mod 2 ^ 6), byte (0x80 + uc div 2 ^ 6 mod 2 ^ 6),
      byte (0x80 + uc mod 2 ^ 6)]"

text \<open>\<open>zbx_json_decode_character\<close>: the bytes and the text behind the escape; the pointer is behind the backslash.\<close>

definition zbx_json_decode_character :: "string \<Rightarrow> (string \<times> string) option" where
  "zbx_json_decode_character p =
     (case p of
        [] \<Rightarrow> None
      | c # q \<Rightarrow>
          (case unescape_letter c of
             Some b \<Rightarrow> Some ([b], q)
           | None \<Rightarrow>
               if c \<noteq> CHR ''u'' \<or> \<not> zbx_is_valid_json_hex q then None
               else
                 (let num = hex4 q; q = drop 4 q
                  in if num \<le> 0x7F then Some ([byte num], q)
                     else if num \<le> 0x7FF then Some (utf8_2 num, q)
                     else if num \<le> 0xD7FF \<or> 0xE000 \<le> num then Some (utf8_3 num, q)
                     else if num \<le> 0xDBFF then
                       (if length q < 2 \<or> q ! 0 \<noteq> CHR 0x5C \<or> q ! 1 \<noteq> CHR ''u'' \<or> \<not> zbx_is_valid_json_hex (drop 2 q) then None
                        else
                          (let num_lo = hex4 (drop 2 q); q = drop 6 q
                           in if num_lo < 0xDC00 \<or> 0xDFFF < num_lo then None
                              else Some (utf8_4 (0x10000 + num mod 2 ^ 10 * 2 ^ 10 + num_lo mod 2 ^ 10), q)))
                     else None)))"

lemma decode_character_shorter: "zbx_json_decode_character p = Some (bytes, q) \<Longrightarrow> length q < length p \<and> 0 < length bytes"
  unfolding zbx_json_decode_character_def
  by (auto simp: Let_def utf8_2_def utf8_3_def utf8_4_def split: list.splits option.splits if_splits)

text \<open>
  The loop of \<open>json_copy_string\<close>: the text written so far is \<open>out\<close>, the buffer has \<open>sz\<close> bytes; the result is the
  string in the buffer and the text behind the closing quote.
\<close>

function copy_string_loop :: "string \<Rightarrow> string \<Rightarrow> nat \<Rightarrow> (string \<times> string) option" where
  "copy_string_loop p out sz =
     (case p of
        [] \<Rightarrow> None
      | c # q \<Rightarrow>
          if c = CHR 0x5C then
            (case zbx_json_decode_character q of
               None \<Rightarrow> None
             | Some (bytes, q') \<Rightarrow>
                 if length out + length bytes \<ge> sz then None
                 else if length (out @ bytes) = sz then None
                 else copy_string_loop q' (out @ bytes) sz)
          else if c = CHR 0x22 then Some (out, q)
          else if length (out @ [c]) = sz then None
          else copy_string_loop q (out @ [c]) sz)"
  by pat_completeness auto
termination
  by (relation "measure (\<lambda>(p, out, sz). length p)") (auto dest!: decode_character_shorter)

declare copy_string_loop.simps [simp del]

definition json_copy_string :: "string \<Rightarrow> nat \<Rightarrow> (string \<times> string) option" where
  "json_copy_string p sz = (if sz = 0 then None else copy_string_loop (tl p) [] sz)"

section \<open>Round trip of strings\<close>

lemma length_escape_char: "length (escape_char c) = escape_size c"
  by (simp add: escape_char_def escape_size_def split: option.splits)

lemma length_insstring: "length (zbx_json_insstring str type) = zbx_json_stringsize str type"
  by (simp add: zbx_json_insstring_def zbx_json_stringsize_def length_concat comp_def length_escape_char)

lemma unescape_escape_letter: "escape_letter c = Some e \<Longrightarrow> unescape_letter e = Some c"
  by (auto simp: escape_letter_def unescape_letter_def split: if_splits)

lemma hex2num_num2hex: "n < 16 \<Longrightarrow> zbx_hex2num (zbx_num2hex n) = n \<and> isxdigit (zbx_num2hex n)"
  by (simp add: zbx_hex2num_def zbx_num2hex_def isxdigit_def isdigit_def)

lemma decode_control:
  assumes "ord c \<le> 0x1F" "escape_letter c = None"
  shows "zbx_json_decode_character (tl (escape_char c) @ rest) = Some ([c], rest)"
proof -
  let ?h = "zbx_num2hex (ord c div 16 mod 16)" and ?l = "zbx_num2hex (ord c mod 16)"
  have e: "tl (escape_char c) @ rest = CHR ''u'' # [CHR ''0'', CHR ''0'', ?h, ?l] @ rest" using assms by (simp add: escape_char_def)
  have h: "zbx_hex2num ?h = ord c div 16 mod 16" "isxdigit ?h" "zbx_hex2num ?l = ord c mod 16" "isxdigit ?l"
    using hex2num_num2hex by simp_all
  have z: "zbx_hex2num CHR ''0'' = 0" "isxdigit CHR ''0''" by (simp_all add: zbx_hex2num_def isxdigit_def isdigit_def)
  have "hex4 ([CHR ''0'', CHR ''0'', ?h, ?l] @ rest) = ord c div 16 mod 16 * 16 + ord c mod 16"
    by (simp add: hex4_def h z nth_Cons')
  also have "\<dots> = ord c" using assms(1) by simp
  finally have n: "hex4 ([CHR ''0'', CHR ''0'', ?h, ?l] @ rest) = ord c" .
  have v: "zbx_is_valid_json_hex ([CHR ''0'', CHR ''0'', ?h, ?l] @ rest)" by (simp add: zbx_is_valid_json_hex_def h z)
  show ?thesis
    unfolding zbx_json_decode_character_def e list.case Let_def n using v assms(1)
    by (simp add: unescape_letter_def byte_def)
qed

lemma decode_escape:
  assumes "escape_char c = CHR 0x5C # e"
  shows "zbx_json_decode_character (e @ rest) = Some ([c], rest)"
proof (cases "escape_letter c")
  case (Some l)
  then have "e = [l]" using assms by (simp add: escape_char_def)
  then show ?thesis using unescape_escape_letter [OF Some] by (simp add: zbx_json_decode_character_def)
next
  case None
  show ?thesis
  proof (cases "ord c \<le> 0x1F")
    case True
    then show ?thesis using decode_control [OF True None] assms by simp
  next
    case False
    then have "c = CHR 0x5C" using None assms by (simp add: escape_char_def)
    then show ?thesis using None by (simp add: escape_letter_def)
  qed
qed

lemma escape_char_cases:
  obtains (esc) e where "escape_char c = CHR 0x5C # e" | (plain) "escape_char c = [c]" "c \<noteq> CHR 0x5C" "c \<noteq> CHR 0x22" "0x1F < ord c"
  by (cases "escape_letter c"; cases "ord c \<le> 0x1F") (auto simp: escape_char_def escape_letter_def split: if_splits)

lemma copy_string_loop_escaped:
  assumes "length out < sz"
  shows "copy_string_loop (concat (map escape_char s) @ CHR 0x22 # rest) out sz = (if length out + length s < sz then Some (out @ s, rest) else None)"
  using assms
proof (induction s arbitrary: out)
  case Nil
  then show ?case by (simp add: copy_string_loop.simps)
next
  case (Cons c s)
  let ?t = "concat (map escape_char s) @ CHR 0x22 # rest"
  have step: "copy_string_loop (escape_char c @ ?t) out sz = (if length out + 1 < sz then copy_string_loop ?t (out @ [c]) sz else None)"
  proof (cases c rule: escape_char_cases)
    case (esc e)
    then show ?thesis using decode_escape [OF esc, of ?t] Cons.prems by (subst copy_string_loop.simps) auto
  next
    case plain
    then show ?thesis using Cons.prems by (subst copy_string_loop.simps) auto
  qed
  show ?case using step Cons.IH [of "out @ [c]"] by (auto simp del: append.simps)
qed

end
