(* ===== verification/Json_Parse.thy ===== *)
theory Json_Parse
  imports Json_Text
begin

text \<open>
  \<open>src/libs/zbxjson/json_parser.c\<close>: the recursive descent parser that validates every JSON message and builds
  the trees that JSON paths are evaluated on.

  A parsing function of the code returns the number of characters parsed, 0 after an error; the model
  returns the text behind them, or the error.  The flag \<open>build\<close> tells whether an object is built; without one
  the tree that the model returns is meaningless.  A number is the text that \<open>atof\<close> converts.  The recursion is bounded by
  fuel, which counts the nesting of values and the turns of the loops; \<open>json_parse_total\<close> shows that more
  units than characters are enough.
\<close>

section \<open>Errors and trees\<close>

text \<open>The message and the text it points at; \<open>json_error\<close> puts them together.\<close>

datatype json_err = Json_error string "string option"

definition squoted :: "char \<Rightarrow> string" where "squoted c = [CHR 0x27, c, CHR 0x27]"

datatype jsonobj =
    Json_unknown
  | Json_string string
  | Json_number string
  | Json_true
  | Json_false
  | Json_null
  | Json_array "jsonobj list"
  | Json_object "(string \<times> jsonobj) list"

text \<open>\<open>zbx_hashset_insert\<close> into the members of an object; a name that is already there gets the new value.  Names are
  compared with \<open>strcmp\<close>, as those that \<open>json_parse_string\<close> returns hold no NUL.\<close>

fun object_insert :: "(string \<times> jsonobj) list \<Rightarrow> string \<Rightarrow> jsonobj \<Rightarrow> (string \<times> jsonobj) list" where
  "object_insert [] name val = [(name, val)]"
| "object_insert ((n, v) # els) name val = (if n = name then (name, val) # els else (n, v) # object_insert els name val)"

section \<open>Tokens\<close>

definition is_json_space :: "char \<Rightarrow> bool" where
  "is_json_space c \<longleftrightarrow> c = CHR '' '' \<or> c = CHR 0x09 \<or> c = CHR 0x0D \<or> c = CHR 0x0A"

definition skip_whitespace :: "string \<Rightarrow> string" where
  "skip_whitespace p = dropWhile is_json_space p"

text \<open>The character that a pointer points at, NUL at the end of the text.\<close>

definition peek :: "string \<Rightarrow> char" where
  "peek p = (case p of [] \<Rightarrow> CHR 0x00 | c # _ \<Rightarrow> c)"

text \<open>The loop of \<open>json_parse_string\<close>: the text from the closing quote on.\<close>

function string_loop :: "string \<Rightarrow> json_err + string" where
  "string_loop ptr =
     (case ptr of
        [] \<Rightarrow> Inl (Json_error ''unexpected end of string data'' None)
      | c # p \<Rightarrow>
          if c = CHR 0x22 then Inr ptr
          else if c = CHR 0x5C then
            (case p of
               [] \<Rightarrow> Inl (Json_error ''invalid escape sequence in string'' (Some ptr))
             | e # q \<Rightarrow>
                 if e = CHR ''u'' then
                   (case zbx_json_decode_character p of
                      None \<Rightarrow> Inl (Json_error ''invalid escape sequence in string'' (Some ptr))
                    | Some (_, q') \<Rightarrow> string_loop q')
                 else if unescape_letter e \<noteq> None then string_loop q
                 else Inl (Json_error ''invalid escape sequence in string data'' (Some ptr)))
          else if ord c \<le> 0x1F then Inl (Json_error ''invalid control character in string data'' (Some ptr))
          else string_loop p)"
  by pat_completeness auto
termination
  by (relation "measure length") (auto dest!: decode_character_shorter)

declare string_loop.simps [simp del]

text \<open>
  The string that is built is a C string: readers of it, such as the comparison of member names with \<open>strcmp\<close>, see
  nothing behind a NUL, which the escape for U+0000 can produce.
\<close>

definition c_string :: "string \<Rightarrow> string" where
  "c_string s = takeWhile (\<lambda>c. c \<noteq> CHR 0x00) s"

definition json_parse_string :: "bool \<Rightarrow> string \<Rightarrow> json_err + (string \<times> string)" where
  "json_parse_string build start =
     (case string_loop (tl start) of
        Inl e \<Rightarrow> Inl e
      | Inr ptr \<Rightarrow>
          if build
          then (case json_copy_string start (length start - length ptr) of
                  None \<Rightarrow> Inl (Json_error ''invalid string data'' (Some start))
                | Some (str, _) \<Rightarrow> Inr (c_string str, tl ptr))
          else Inr ([], tl ptr))"

text \<open>The loop over the digits of a number: where it stops and the digits in front of the point.\<close>

fun number_loop :: "string \<Rightarrow> bool \<Rightarrow> nat \<Rightarrow> string \<times> nat" where
  "number_loop [] point digit = ([], digit)"
| "number_loop (c # p) point digit =
     (if c = CHR ''.'' then (if point then (c # p, digit) else number_loop p True digit)
      else if \<not> isdigit c then (c # p, digit)
      else number_loop p point (if point then digit else digit + 1))"

text \<open>The part of a number behind its digits: an exponent or nothing.\<close>

definition number_tail :: "string \<Rightarrow> string \<Rightarrow> json_err + (string \<times> string)" where
  "number_tail start ptr =
     (let finish = (\<lambda>ptr. Inr (take (length start - length ptr) start, ptr))
      in if peek ptr = CHR ''e'' \<or> peek ptr = CHR ''E'' then
           (let ptr = tl ptr
            in if ptr = [] then Inl (Json_error ''unexpected end of numeric value'' None)
               else
                 (let signed = (peek ptr = CHR ''+'' \<or> peek ptr = CHR ''-''); ptr = (if signed then tl ptr else ptr)
                  in if signed \<and> ptr = [] then Inl (Json_error ''unexpected end of numeric value'' None)
                     else if \<not> isdigit (peek ptr)
                     then Inl (Json_error ''invalid power value of number in E notation'' (Some ptr))
                     else finish (dropWhile isdigit (tl ptr))))
         else finish ptr)"

definition json_parse_number :: "string \<Rightarrow> json_err + (string \<times> string)" where
  "json_parse_number start =
     (let ptr = (if peek start = CHR ''-'' then tl start else start);
          first_digit = peek ptr;
          (ptr, digit) = number_loop ptr False 0
      in if digit = 0 then Inl (Json_error ''invalid numeric value format'' (Some start))
         else if first_digit = CHR ''0'' \<and> 1 < digit then Inl (Json_error ''invalid numeric value format'' (Some start))
         else number_tail start ptr)"

fun literal_loop :: "string \<Rightarrow> string \<Rightarrow> string option" where
  "literal_loop ptr [] = Some ptr"
| "literal_loop ptr (t # text) = (case ptr of [] \<Rightarrow> None | c # p \<Rightarrow> if c \<noteq> t then None else literal_loop p text)"

definition json_parse_literal :: "string \<Rightarrow> string \<Rightarrow> json_err + string" where
  "json_parse_literal start text =
     (case literal_loop start text of
        None \<Rightarrow> Inl (Json_error ''invalid literal value'' (Some start))
      | Some ptr \<Rightarrow> Inr ptr)"

section \<open>Values, arrays and objects\<close>

type_synonym json_result = "(json_err + jsonobj \<times> string) option"

text \<open>
  The bodies of the mutually recursive functions, with the calls they make as arguments: the switch of
  \<open>json_parse_value\<close>, and one turn of the loops of \<open>json_parse_array\<close> and \<open>json_parse_object\<close>.
\<close>

definition value_body :: "(string \<Rightarrow> json_result) \<Rightarrow> (string \<Rightarrow> json_result) \<Rightarrow> bool \<Rightarrow> string \<Rightarrow> json_result" where
  "value_body parse_object parse_array build start =
     (let ptr = skip_whitespace start; c = peek ptr
      in if ptr = [] then Some (Inl (Json_error ''unexpected end of object value'' None))
         else if c = CHR 0x22 then
           Some (case json_parse_string build ptr of Inl e \<Rightarrow> Inl e | Inr (str, p) \<Rightarrow> Inr (Json_string str, p))
         else if c = CHR 0x7B then parse_object ptr
         else if c = CHR 0x5B then parse_array ptr
         else if c = CHR ''t'' then
           Some (case json_parse_literal ptr ''true'' of Inl e \<Rightarrow> Inl e | Inr p \<Rightarrow> Inr (Json_true, p))
         else if c = CHR ''f'' then
           Some (case json_parse_literal ptr ''false'' of Inl e \<Rightarrow> Inl e | Inr p \<Rightarrow> Inr (Json_false, p))
         else if c = CHR ''n'' then
           Some (case json_parse_literal ptr ''null'' of Inl e \<Rightarrow> Inl e | Inr p \<Rightarrow> Inr (Json_null, p))
         else if isdigit c \<or> c = CHR ''-'' then
           Some (case json_parse_number ptr of Inl e \<Rightarrow> Inl e | Inr (number, p) \<Rightarrow> Inr (Json_number number, p))
         else Some (Inl (Json_error ''invalid JSON object value starting character'' (Some ptr))))"

definition array_body ::
  "(string \<Rightarrow> json_result) \<Rightarrow> (string \<Rightarrow> jsonobj list \<Rightarrow> json_result) \<Rightarrow> string \<Rightarrow> jsonobj list \<Rightarrow> json_result" where
  "array_body parse_value loop ptr vals =
     (case parse_value ptr of
        None \<Rightarrow> None
      | Some (Inl e) \<Rightarrow> Some (Inl e)
      | Some (Inr (val, p)) \<Rightarrow>
          (let ptr = skip_whitespace p; vals = vals @ [val]
           in if peek ptr = CHR '','' then loop (tl ptr) vals
              else if peek ptr \<noteq> CHR 0x5D
              then Some (Inl (Json_error (''invalid array format, expected closing character '' @ squoted (CHR 0x5D)) (Some ptr)))
              else Some (Inr (Json_array vals, tl ptr))))"

definition object_body ::
  "(string \<Rightarrow> json_result) \<Rightarrow> (string \<Rightarrow> (string \<times> jsonobj) list \<Rightarrow> json_result) \<Rightarrow> bool \<Rightarrow> string
     \<Rightarrow> (string \<times> jsonobj) list \<Rightarrow> json_result" where
  "object_body parse_value loop build ptr els =
     (if peek ptr \<noteq> CHR 0x22 then Some (Inl (Json_error ''invalid object name'' (Some ptr)))
      else
        (case json_parse_string build ptr of
           Inl e \<Rightarrow> Some (Inl e)
         | Inr (name, p) \<Rightarrow>
             (let ptr = skip_whitespace p
              in if peek ptr \<noteq> CHR '':'' then Some (Inl (Json_error ''invalid object name/value separator'' (Some ptr)))
                 else
                   (case parse_value (tl ptr) of
                      None \<Rightarrow> None
                    | Some (Inl e) \<Rightarrow> Some (Inl e)
                    | Some (Inr (val, p)) \<Rightarrow>
                        (let ptr = skip_whitespace p; els = object_insert els name val
                         in if peek ptr = CHR '','' then loop (skip_whitespace (tl ptr)) els
                            else if peek ptr \<noteq> CHR 0x7D
                            then Some (Inl (Json_error (''invalid object format, expected closing character '' @ squoted (CHR 0x7D)) (Some ptr)))
                            else Some (Inr (Json_object els, tl ptr)))))))"

fun array_loop :: "nat \<Rightarrow> (string \<Rightarrow> json_result) \<Rightarrow> string \<Rightarrow> jsonobj list \<Rightarrow> json_result" where
  "array_loop 0 parse_value ptr vals = None"
| "array_loop (Suc fuel) parse_value ptr vals =
     array_body parse_value (\<lambda>p vals. array_loop fuel parse_value p vals) ptr vals"

fun object_loop :: "nat \<Rightarrow> (string \<Rightarrow> json_result) \<Rightarrow> bool \<Rightarrow> string \<Rightarrow> (string \<times> jsonobj) list \<Rightarrow> json_result" where
  "object_loop 0 parse_value build ptr els = None"
| "object_loop (Suc fuel) parse_value build ptr els =
     object_body parse_value (\<lambda>p els. object_loop fuel parse_value build p els) build ptr els"

text \<open>\<open>json_parse_array\<close> and \<open>json_parse_object\<close> over the parser of the values inside.\<close>

definition parse_array :: "nat \<Rightarrow> (string \<Rightarrow> json_result) \<Rightarrow> string \<Rightarrow> json_result" where
  "parse_array fuel parse_value start =
     (let ptr = skip_whitespace (tl start)
      in if peek ptr \<noteq> CHR 0x5D then array_loop fuel parse_value ptr [] else Some (Inr (Json_array [], tl ptr)))"

definition parse_object :: "nat \<Rightarrow> (string \<Rightarrow> json_result) \<Rightarrow> bool \<Rightarrow> string \<Rightarrow> json_result" where
  "parse_object fuel parse_value build start =
     (let ptr = skip_whitespace (tl (skip_whitespace start))
      in if peek ptr \<noteq> CHR 0x7D then object_loop fuel parse_value build ptr [] else Some (Inr (Json_object [], tl ptr)))"

fun json_parse_value :: "nat \<Rightarrow> bool \<Rightarrow> string \<Rightarrow> json_result" where
  "json_parse_value 0 build start = None"
| "json_parse_value (Suc fuel) build start =
     value_body (parse_object fuel (\<lambda>p. json_parse_value fuel build p) build)
       (parse_array fuel (\<lambda>p. json_parse_value fuel build p)) build start"

definition json_parse_array :: "nat \<Rightarrow> bool \<Rightarrow> string \<Rightarrow> json_result" where
  "json_parse_array fuel build start = parse_array fuel (json_parse_value fuel build) start"

definition json_parse_object :: "nat \<Rightarrow> bool \<Rightarrow> string \<Rightarrow> json_result" where
  "json_parse_object fuel build start = parse_object fuel (json_parse_value fuel build) build start"

text \<open>The number of characters parsed.\<close>

definition zbx_json_validate :: "nat \<Rightarrow> string \<Rightarrow> (json_err + nat) option" where
  "zbx_json_validate fuel start =
     (let start = skip_whitespace start;
          r = (if peek start = CHR 0x7B then json_parse_object fuel False start
               else if peek start = CHR 0x5B then json_parse_array fuel False start
               else Some (Inl (Json_error (''invalid object format, expected opening character '' @ squoted (CHR 0x7B) @ '' or '' @ squoted (CHR 0x5B)) (Some start))))
      in case r of
           None \<Rightarrow> None
         | Some (Inl e) \<Rightarrow> Some (Inl e)
         | Some (Inr (_, p)) \<Rightarrow>
             (let ptr = skip_whitespace p
              in if ptr \<noteq> [] then Some (Inl (Json_error ''invalid character following JSON object'' (Some ptr)))
                 else Some (Inr (length start - length p))))"

text \<open>\<open>zbx_jsonobj_open\<close>: the tree; unlike the validation it does not look at what follows the value.\<close>

definition zbx_jsonobj_open :: "nat \<Rightarrow> string \<Rightarrow> (json_err + jsonobj) option" where
  "zbx_jsonobj_open fuel text =
     (let text = skip_whitespace text;
          r = (if peek text = CHR 0x7B then json_parse_object fuel True text
               else if peek text = CHR 0x5B then json_parse_array fuel True text
               else Some (Inl (Json_error (''invalid object format, expected opening character '' @ squoted (CHR 0x7B) @ '' or '' @ squoted (CHR 0x5B)) (Some text))))
      in map_option (\<lambda>r. case r of Inl e \<Rightarrow> Inl e | Inr (obj, _) \<Rightarrow> Inr obj) r)"

section \<open>The parser always returns\<close>

lemma skip_whitespace_shorter: "length (skip_whitespace p) \<le> length p"
  by (simp add: skip_whitespace_def length_dropWhile_le)

lemma peek_neq_Nil: "peek p = c \<Longrightarrow> c \<noteq> CHR 0x00 \<Longrightarrow> \<exists>q. p = c # q"
  by (cases p) (auto simp: peek_def)

text \<open>The turns of the loop, one rule per kind of character.\<close>

lemma string_loop_quote: "string_loop (CHR 0x22 # p) = Inr (CHR 0x22 # p)"
  by (simp add: string_loop.simps)

lemma string_loop_plain: "c \<noteq> CHR 0x22 \<Longrightarrow> c \<noteq> CHR 0x5C \<Longrightarrow> 0x1F < ord c \<Longrightarrow> string_loop (c # p) = string_loop p"
  by (subst string_loop.simps) simp

lemma decode_letter: "unescape_letter e = Some b \<Longrightarrow> zbx_json_decode_character (e # p) = Some ([b], p)"
  by (simp add: zbx_json_decode_character_def)

lemma decode_None: "unescape_letter e = None \<Longrightarrow> e \<noteq> CHR ''u'' \<Longrightarrow> zbx_json_decode_character (e # p) = None"
  by (simp add: zbx_json_decode_character_def)

lemma string_loop_escape:
  "string_loop (CHR 0x5C # p) = Inr q \<longleftrightarrow> (\<exists>bytes r. zbx_json_decode_character p = Some (bytes, r) \<and> string_loop r = Inr q)"
proof (cases p)
  case Nil
  then show ?thesis by (simp add: string_loop.simps zbx_json_decode_character_def)
next
  case (Cons e r)
  have u: "unescape_letter CHR ''u'' = None" by (simp add: unescape_letter_def)
  show ?thesis
    unfolding Cons by (subst string_loop.simps) (auto simp: u decode_None decode_letter split: option.splits)
qed

lemma string_loop_shorter: "string_loop p = Inr q \<Longrightarrow> length q \<le> length p \<and> q \<noteq> []"
proof (induction "length p" arbitrary: p rule: less_induct)
  case less
  show ?case
  proof (cases p)
    case Nil
    then show ?thesis using less.prems by (simp add: string_loop.simps)
  next
    case (Cons c r)
    consider "c = CHR 0x22" | "c = CHR 0x5C" | "c \<noteq> CHR 0x22" "c \<noteq> CHR 0x5C" "0x1F < ord c"
      using less.prems Cons by (fastforce simp: string_loop.simps split: if_splits)
    then show ?thesis
    proof cases
      case 1
      then show ?thesis using less.prems Cons by (auto simp: string_loop_quote)
    next
      case 2
      then obtain bytes r' where "zbx_json_decode_character r = Some (bytes, r')" "string_loop r' = Inr q"
        using less.prems Cons by (auto simp: string_loop_escape)
      then show ?thesis using less.hyps [of r'] decode_character_shorter [of r bytes r'] Cons by simp
    next
      case 3
      then show ?thesis using less.prems less.hyps [of r] Cons by (simp add: string_loop_plain)
    qed
  qed
qed

lemma parse_string_shorter: "json_parse_string build s = Inr (str, p) \<Longrightarrow> s \<noteq> [] \<Longrightarrow> length p < length s"
  by (cases s) (auto simp: json_parse_string_def dest!: string_loop_shorter split: sum.splits if_splits option.splits)

lemma number_loop_shorter: "number_loop p point digit = (q, d) \<Longrightarrow> length q + (d - digit) \<le> length p \<and> digit \<le> d"
  by (induction p point digit rule: number_loop.induct) (fastforce split: if_splits)+

lemma parse_number_shorter:
  assumes "json_parse_number s = Inr (t, p)"
  shows "length p < length s"
proof -
  let ?s = "if peek s = CHR ''-'' then tl s else s"
  obtain q d where q: "number_loop ?s False 0 = (q, d)" by fastforce
  have "length q + d \<le> length ?s" using number_loop_shorter [OF q] by simp
  also have "\<dots> \<le> length s" by simp
  finally have l: "length q + d \<le> length s" .
  have w: "length (dropWhile isdigit (tl (tl q))) \<le> length q" "length (dropWhile isdigit (tl (tl (tl q)))) \<le> length q"
    using length_dropWhile_le [of isdigit "tl (tl q)"] length_dropWhile_le [of isdigit "tl (tl (tl q))"] by simp_all
  have "d \<noteq> 0 \<and> (p = q \<or> p = dropWhile isdigit (tl (tl q)) \<or> p = dropWhile isdigit (tl (tl (tl q))))"
    using assms unfolding json_parse_number_def number_tail_def Let_def q prod.case by (auto split: if_splits)
  then show ?thesis using l w by auto
qed

lemma literal_loop_length: "literal_loop s lit = Some p \<Longrightarrow> length p + length lit = length s"
  by (induction s lit rule: literal_loop.induct) (auto split: list.splits if_splits)

lemma parse_literal_shorter: "json_parse_literal s lit = Inr p \<Longrightarrow> lit \<noteq> [] \<Longrightarrow> length p < length s"
  using literal_loop_length [of s lit p] by (cases lit) (auto simp: json_parse_literal_def split: option.splits)

text \<open>A result that is an error or a value with a shorter text behind it.\<close>

definition returns :: "json_result \<Rightarrow> nat \<Rightarrow> bool" where
  "returns r n \<longleftrightarrow> (case r of None \<Rightarrow> False | Some (Inl e) \<Rightarrow> True | Some (Inr (v, p)) \<Rightarrow> length p < n)"

lemma returns_simps [simp]:
  "\<not> returns None n" "returns (Some (Inl e)) n" "returns (Some (Inr (v, p))) n \<longleftrightarrow> length p < n"
  by (simp_all add: returns_def)

lemma returns_cases:
  assumes "returns r n"
  obtains (err) e where "r = Some (Inl e)" | (val) v p where "r = Some (Inr (v, p))" "length p < n"
  using assms by (auto simp: returns_def split: option.splits sum.splits)

lemma returns_mono: "returns r m \<Longrightarrow> m \<le> n \<Longrightarrow> returns r n"
  by (erule returns_cases) auto

lemma array_loop_returns:
  assumes "\<And>q. length q \<le> length ptr \<Longrightarrow> returns (parse_value q) (length q)" "length ptr < fuel"
  shows "returns (array_loop fuel parse_value ptr vals) (length ptr)"
  using assms
proof (induction fuel arbitrary: ptr vals)
  case (Suc fuel)
  from Suc.prems(1) [of ptr] have "returns (parse_value ptr) (length ptr)" by simp
  then show ?case
  proof (cases rule: returns_cases)
    case (err e)
    then show ?thesis by (simp add: array_body_def)
  next
    case (val v p)
    let ?p = "skip_whitespace p"
    have l: "length ?p < length ptr" using val(2) skip_whitespace_shorter [of p] by simp
    have "returns (array_loop fuel parse_value (tl ?p) (vals @ [v])) (length (tl ?p))"
      using Suc.prems l by (intro Suc.IH) auto
    then have "returns (array_loop fuel parse_value (tl ?p) (vals @ [v])) (length ptr)" by (rule returns_mono) (use l in simp)
    then show ?thesis using val(1) l by (auto simp: array_body_def Let_def)
  qed
qed simp

lemma object_loop_returns:
  assumes "\<And>q. length q \<le> length ptr \<Longrightarrow> returns (parse_value q) (length q)" "length ptr < fuel"
  shows "returns (object_loop fuel parse_value build ptr els) (length ptr)"
  using assms
proof (induction fuel arbitrary: ptr els)
  case (Suc fuel)
  show ?case
  proof (cases "peek ptr = CHR 0x22")
    case True
    then have ne: "ptr \<noteq> []" by (auto simp: peek_def)
    show ?thesis
    proof (cases "json_parse_string build ptr")
      case (Inl e)
      then show ?thesis using True by (simp add: object_body_def)
    next
      case (Inr np)
      obtain name p where np: "np = (name, p)" by (cases np)
      let ?q = "tl (skip_whitespace p)"
      have q: "length ?q < length ptr"
        using parse_string_shorter [OF Inr [unfolded np] ne] skip_whitespace_shorter [of p] by simp
      have "returns (parse_value ?q) (length ?q)" using Suc.prems(1) [of ?q] q by simp
      then show ?thesis
      proof (cases rule: returns_cases)
        case (err e)
        then show ?thesis using True Inr np by (simp add: object_body_def Let_def)
      next
        case (val v r)
        let ?r = "skip_whitespace r" and ?els = "object_insert els name v"
        have l: "length ?r < length ptr" using val(2) q skip_whitespace_shorter [of r] by simp
        have "returns (object_loop fuel parse_value build (skip_whitespace (tl ?r)) ?els) (length (skip_whitespace (tl ?r)))"
          using Suc.prems l skip_whitespace_shorter [of "tl ?r"] by (intro Suc.IH) auto
        then have "returns (object_loop fuel parse_value build (skip_whitespace (tl ?r)) ?els) (length ptr)"
          by (rule returns_mono) (use l skip_whitespace_shorter [of "tl ?r"] in simp)
        then show ?thesis using val(1) l True Inr np by (auto simp: object_body_def Let_def)
      qed
    qed
  qed (simp add: object_body_def)
qed simp

lemma parse_array_returns:
  assumes "\<And>q. length q < length s \<Longrightarrow> returns (parse_value q) (length q)" "s \<noteq> []" "length s \<le> fuel"
  shows "returns (parse_array fuel parse_value s) (length s)"
proof -
  have l: "length (skip_whitespace (tl s)) < length s" using assms(2) skip_whitespace_shorter [of "tl s"] by (cases s) auto
  have "returns (array_loop fuel parse_value (skip_whitespace (tl s)) []) (length (skip_whitespace (tl s)))"
    using assms l by (intro array_loop_returns) auto
  then have "returns (array_loop fuel parse_value (skip_whitespace (tl s)) []) (length s)" by (rule returns_mono) (use l in simp)
  then show ?thesis using l by (auto simp: parse_array_def Let_def)
qed

lemma parse_object_returns:
  assumes "\<And>q. length q < length s \<Longrightarrow> returns (parse_value q) (length q)" "s \<noteq> []" "length s \<le> fuel"
  shows "returns (parse_object fuel parse_value build s) (length s)"
proof -
  let ?p = "skip_whitespace (tl (skip_whitespace s))"
  have "length (tl (skip_whitespace s)) < length s" using assms(2) skip_whitespace_shorter [of s] by (cases "skip_whitespace s") auto
  then have l: "length ?p < length s" using skip_whitespace_shorter [of "tl (skip_whitespace s)"] by simp
  have "returns (object_loop fuel parse_value build ?p []) (length ?p)"
    using assms l by (intro object_loop_returns) auto
  then have "returns (object_loop fuel parse_value build ?p []) (length s)" by (rule returns_mono) (use l in simp)
  then show ?thesis using l by (auto simp: parse_object_def Let_def)
qed

lemma json_parse_value_returns: "length s < fuel \<Longrightarrow> returns (json_parse_value fuel build s) (length s)"
proof (induction fuel arbitrary: s)
  case (Suc fuel)
  define ptr where "ptr = skip_whitespace s"
  have l: "length ptr \<le> length s" by (simp add: ptr_def skip_whitespace_shorter)
  show ?case
  proof (cases "ptr = []")
    case True
    then show ?thesis by (simp add: value_body_def ptr_def [symmetric])
  next
    case ne: False
    have IH: "returns (json_parse_value fuel build q) (length q)" if "length q < length ptr" for q using Suc that l by simp
    have "returns (parse_object fuel (json_parse_value fuel build) build ptr) (length ptr)"
      using IH ne l Suc.prems by (intro parse_object_returns) auto
    then have o: "returns (parse_object fuel (json_parse_value fuel build) build ptr) (length s)" using l by (rule returns_mono)
    have "returns (parse_array fuel (json_parse_value fuel build) ptr) (length ptr)"
      using IH ne l Suc.prems by (intro parse_array_returns) auto
    then have a: "returns (parse_array fuel (json_parse_value fuel build) ptr) (length s)" using l by (rule returns_mono)
    have st: "json_parse_string build ptr = Inr (str, p) \<Longrightarrow> length p < length s" for str p using parse_string_shorter [of build ptr str p] ne l by simp
    have nu: "json_parse_number ptr = Inr (t, p) \<Longrightarrow> length p < length s" for t p using parse_number_shorter [of ptr t p] l by simp
    have li: "json_parse_literal ptr lit = Inr p \<Longrightarrow> lit \<noteq> [] \<Longrightarrow> length p < length s" for lit p using parse_literal_shorter [of ptr lit p] l by simp
    show ?thesis
      unfolding json_parse_value.simps value_body_def ptr_def [symmetric] Let_def
      using o a by (auto dest: st nu li split: sum.splits)
  qed
qed simp

section \<open>Properties\<close>

text \<open>
  C32. Validating a text and opening it as a tree always return, whatever the text: fuel of one unit more
  than the text has characters is never used up.
\<close>

theorem json_parse_total:
  "(\<exists>r. zbx_json_validate (Suc (length s)) s = Some r) \<and> (\<exists>r. zbx_jsonobj_open (Suc (length s)) s = Some r)"
proof -
  define p where "p = skip_whitespace s"
  have "p \<noteq> [] \<Longrightarrow> returns (json_parse_object (Suc (length s)) build p) (length p)"
    and "p \<noteq> [] \<Longrightarrow> returns (json_parse_array (Suc (length s)) build p) (length p)" for build
    using skip_whitespace_shorter [of s] unfolding json_parse_object_def json_parse_array_def
    by (auto simp: p_def intro!: parse_object_returns parse_array_returns json_parse_value_returns)
  then have "\<exists>r. json_parse_object (Suc (length s)) build p = Some r" if "peek p = CHR 0x7B" for build
    using peek_neq_Nil [OF that] by (force simp: returns_def split: option.splits)
  moreover have "\<exists>r. json_parse_array (Suc (length s)) build p = Some r" if "peek p = CHR 0x5B" for build
    using peek_neq_Nil [OF that] \<open>\<And>build. p \<noteq> [] \<Longrightarrow> returns (json_parse_array _ build p) _\<close>
    by (force simp: returns_def split: option.splits)
  ultimately have ex: "\<exists>r. (if peek p = CHR 0x7B then json_parse_object (Suc (length s)) build p
      else if peek p = CHR 0x5B then json_parse_array (Suc (length s)) build p else Some (Inl e)) = Some r" for build e by simp
  let ?e = "Json_error (''invalid object format, expected opening character '' @ squoted (CHR 0x7B) @ '' or '' @ squoted (CHR 0x5B)) (Some p)"
  obtain r1 r2 where r: "(if peek p = CHR 0x7B then json_parse_object (Suc (length s)) False p
      else if peek p = CHR 0x5B then json_parse_array (Suc (length s)) False p else Some (Inl ?e)) = Some r1"
    "(if peek p = CHR 0x7B then json_parse_object (Suc (length s)) True p
      else if peek p = CHR 0x5B then json_parse_array (Suc (length s)) True p else Some (Inl ?e)) = Some r2"
    using ex [of False ?e] ex [of True ?e] by blast
  show ?thesis
    unfolding zbx_json_validate_def zbx_jsonobj_open_def p_def [symmetric] Let_def r by (cases r1) auto
qed

end
