(* ===== verification/Json_Doc.thy ===== *)
theory Json_Doc
  imports Json_Parse
begin

text \<open>
  JSON documents as trees, their text in the form in which the builder of \<open>json.c\<close> writes it, and the proof that
  the parser of \<open>json_parser.c\<close> reads every such text back.  Nothing here models code; the theory is the
  specification that the builder refines.
\<close>

section \<open>Documents\<close>

datatype json_doc =
    Doc_string string
  | Doc_token string        \<comment> \<open>a number, \<open>true\<close>, \<open>false\<close> or \<open>null\<close>\<close>
  | Doc_array "json_doc list"
  | Doc_object "(string \<times> json_doc) list"

definition quote :: "string \<Rightarrow> string" where
  "quote s = zbx_json_insstring (Some s) ZBX_JSON_TYPE_STRING"

lemma quote_eq: "quote s = CHR 0x22 # concat (map escape_char s) @ [CHR 0x22]"
  by (simp add: quote_def zbx_json_insstring_def)

fun commas :: "string list \<Rightarrow> string" where
  "commas [] = []"
| "commas [t] = t"
| "commas (t # ts) = t @ CHR '','' # commas ts"

lemma commas_Cons: "commas (t # ts) = t @ concat (map ((#) CHR '','') ts)"
  by (induction ts arbitrary: t) auto

fun render :: "json_doc \<Rightarrow> string" where
  "render (Doc_string s) = quote s"
| "render (Doc_token t) = t"
| "render (Doc_array ds) = CHR 0x5B # commas (map render ds) @ [CHR 0x5D]"
| "render (Doc_object els) = CHR 0x7B # commas (map (\<lambda>(n, d). quote n @ CHR '':'' # render d) els) @ [CHR 0x7D]"

definition token_tree :: "string \<Rightarrow> jsonobj" where
  "token_tree t = (if t = ''true'' then Json_true else if t = ''false'' then Json_false else if t = ''null'' then Json_null else Json_number t)"

text \<open>
  The grammar of numbers, in which the digits behind a point may be missing: an optional minus, digits without a leading
  zero, an optional point with digits, an optional exponent with an optional sign.
\<close>

definition number_exponent :: "string \<Rightarrow> bool" where
  "number_exponent t \<longleftrightarrow>
     (case t of
        [] \<Rightarrow> True
      | c # p \<Rightarrow>
          (let ds = (case p of [] \<Rightarrow> [] | g # q \<Rightarrow> if g = CHR ''+'' \<or> g = CHR ''-'' then q else p)
           in (c = CHR ''e'' \<or> c = CHR ''E'') \<and> ds \<noteq> [] \<and> list_all isdigit ds))"

definition number_fraction :: "string \<Rightarrow> bool" where
  "number_fraction t \<longleftrightarrow> number_exponent (case t of [] \<Rightarrow> [] | c # p \<Rightarrow> if c = CHR ''.'' then dropWhile isdigit p else t)"

definition number_unsigned :: "string \<Rightarrow> bool" where
  "number_unsigned t \<longleftrightarrow>
     (let ds = takeWhile isdigit t
      in ds \<noteq> [] \<and> (hd ds = CHR ''0'' \<longrightarrow> length ds = 1) \<and> number_fraction (dropWhile isdigit t))"

definition number_text :: "string \<Rightarrow> bool" where
  "number_text t \<longleftrightarrow> number_unsigned (case t of [] \<Rightarrow> [] | c # p \<Rightarrow> if c = CHR ''-'' then p else t)"

definition token_ok :: "string \<Rightarrow> bool" where
  "token_ok t \<longleftrightarrow> t = ''true'' \<or> t = ''false'' \<or> t = ''null'' \<or> number_text t"

fun doc_ok :: "json_doc \<Rightarrow> bool" where
  "doc_ok (Doc_string s) = True"
| "doc_ok (Doc_token t) = token_ok t"
| "doc_ok (Doc_array ds) = list_all doc_ok ds"
| "doc_ok (Doc_object els) = list_all (\<lambda>(n, d). doc_ok d) els"

text \<open>
  The tree that the parser builds.  Its strings and names are C strings, which end at the first NUL, and a later member of
  an object replaces an earlier one of the same name.
\<close>

fun tree :: "json_doc \<Rightarrow> jsonobj" where
  "tree (Doc_string s) = Json_string (c_string s)"
| "tree (Doc_token t) = token_tree t"
| "tree (Doc_array ds) = Json_array (map tree ds)"
| "tree (Doc_object els) = Json_object (fold (\<lambda>(n, v) acc. object_insert acc n v) (map (\<lambda>(n, d). (c_string n, tree d)) els) [])"

section \<open>Strings\<close>

lemma string_loop_escaped: "string_loop (concat (map escape_char s) @ CHR 0x22 # rest) = Inr (CHR 0x22 # rest)"
proof (induction s)
  case (Cons c s)
  let ?t = "concat (map escape_char s) @ CHR 0x22 # rest"
  show ?case
  proof (cases c rule: escape_char_cases)
    case (esc e)
    then show ?thesis using decode_escape [OF esc, of ?t] Cons by (simp add: string_loop_escape)
  next
    case plain
    then show ?thesis using Cons by (simp add: string_loop_plain)
  qed
qed (simp add: string_loop_quote)

lemma escape_char_length: "1 \<le> length (escape_char c)"
  by (simp add: length_escape_char escape_size_def)

lemma escaped_length: "length s \<le> length (concat (map escape_char s))"
proof (induction s)
  case (Cons c s)
  then show ?case using escape_char_length [of c] by simp
qed simp

lemma parse_string_quote: "json_parse_string build (quote s @ rest) = Inr (if build then c_string s else [], rest)"
proof -
  let ?e = "concat (map escape_char s)"
  have "length (quote s @ rest) - length (CHR 0x22 # rest) = Suc (length ?e)" by (simp add: quote_eq)
  moreover have "json_copy_string (quote s @ rest) (Suc (length ?e)) = Some (s, rest)"
    using copy_string_loop_escaped [of "[]" "Suc (length ?e)" s rest] escaped_length [of s]
    by (simp add: json_copy_string_def quote_eq)
  ultimately show ?thesis
    using string_loop_escaped [of s rest] by (simp add: json_parse_string_def quote_eq)
qed

section \<open>Tokens\<close>

text \<open>What may stand behind a value in a rendered document.\<close>

definition delim :: "string \<Rightarrow> bool" where
  "delim rest \<longleftrightarrow> rest = [] \<or> hd rest = CHR '','' \<or> hd rest = CHR 0x5D \<or> hd rest = CHR 0x7D"

lemma delim_simps [simp]: "delim []" "delim (CHR '','' # p)" "delim (CHR 0x5D # p)" "delim (CHR 0x7D # p)"
  by (simp_all add: delim_def)

lemma delim_peek: "delim rest \<Longrightarrow> \<not> isdigit (peek rest) \<and> peek rest \<noteq> CHR ''.'' \<and> peek rest \<noteq> CHR ''e'' \<and> peek rest \<noteq> CHR ''E''"
  by (cases rest) (auto simp: delim_def peek_def isdigit_def)

lemma number_loop_append:
  "delim rest \<Longrightarrow> number_loop p point digit = (q, d) \<Longrightarrow> number_loop (p @ rest) point digit = (q @ rest, d)"
proof (induction p point digit rule: number_loop.induct)
  case (1 point digit)
  then show ?case using delim_peek [of rest] by (cases rest) (auto simp: peek_def)
qed (auto split: if_splits)

lemma dropWhile_digits_append:
  assumes "dropWhile isdigit q = []" "delim rest"
  shows "dropWhile isdigit (q @ rest) = rest"
proof -
  have "dropWhile isdigit (q @ rest) = dropWhile isdigit rest" using assms(1) by (intro dropWhile_append2) simp
  also have "\<dots> = rest" using delim_peek [OF assms(2)] by (cases rest) (auto simp: peek_def)
  finally show ?thesis .
qed

lemma peek_append: "p \<noteq> [] \<Longrightarrow> peek (p @ q) = peek p" "p \<noteq> [] \<Longrightarrow> tl (p @ q) = tl p @ q"
  by (simp_all add: peek_def split: list.splits)

lemma json_parse_number_tail:
  "json_parse_number start =
     (let ptr = (if peek start = CHR ''-'' then tl start else start); (q, digit) = number_loop ptr False 0
      in if digit = 0 \<or> peek ptr = CHR ''0'' \<and> 1 < digit then Inl (Json_error ''invalid numeric value format'' (Some start))
         else number_tail start q)"
  by (simp add: json_parse_number_def Let_def split: prod.splits)

lemma number_tail_append:
  assumes "number_tail start ptr = Inr (t, [])" "delim rest"
  shows "number_tail (start @ rest) (ptr @ rest) = Inr (start, rest)"
proof (cases "peek ptr = CHR ''e'' \<or> peek ptr = CHR ''E''")
  case True
  then have ne: "ptr \<noteq> []" by (auto simp: peek_def)
  define p1 where "p1 = tl ptr"
  define p2 where "p2 = (if peek p1 = CHR ''+'' \<or> peek p1 = CHR ''-'' then tl p1 else p1)"
  have n: "p1 \<noteq> []" "p2 \<noteq> []" "isdigit (peek p2)" "dropWhile isdigit (tl p2) = []"
    using assms(1) True unfolding number_tail_def Let_def p1_def [symmetric] p2_def [symmetric]
    by (auto split: if_splits simp: p2_def isdigit_def peek_def)
  have a: "peek (ptr @ rest) = peek ptr" "tl (ptr @ rest) = p1 @ rest" using ne by (simp_all add: peek_append p1_def)
  have b: "peek (p1 @ rest) = peek p1" "(if peek p1 = CHR ''+'' \<or> peek p1 = CHR ''-'' then tl (p1 @ rest) else p1 @ rest) = p2 @ rest"
    using n(1) by (simp_all add: peek_append p2_def)
  have c: "peek (p2 @ rest) = peek p2" "dropWhile isdigit (tl (p2 @ rest)) = rest"
    using n dropWhile_digits_append [OF n(4) assms(2)] by (simp_all add: peek_append)
  show ?thesis unfolding number_tail_def Let_def a b c using True n by simp
next
  case False
  then have "ptr = []" using assms(1) by (simp add: number_tail_def)
  then show ?thesis using delim_peek [OF assms(2)] by (simp add: number_tail_def Let_def)
qed

lemma number_loop_eq:
  "number_loop p True d = (dropWhile isdigit p, d)"
  "number_loop p False d =
     ((case dropWhile isdigit p of [] \<Rightarrow> [] | c # q \<Rightarrow> if c = CHR ''.'' then dropWhile isdigit q else c # q),
      d + length (takeWhile isdigit p))"
proof -
  show t: "number_loop p True d = (dropWhile isdigit p, d)" for p d
    by (induction p arbitrary: d) (auto simp: isdigit_def)
  show "number_loop p False d =
     ((case dropWhile isdigit p of [] \<Rightarrow> [] | c # q \<Rightarrow> if c = CHR ''.'' then dropWhile isdigit q else c # q),
      d + length (takeWhile isdigit p))"
    by (induction p arbitrary: d) (auto simp: isdigit_def t)
qed

lemma digits_read: "isdigit (peek ds) \<and> dropWhile isdigit (tl ds) = [] \<longleftrightarrow> ds \<noteq> [] \<and> list_all isdigit ds"
  by (cases ds) (auto simp: peek_def isdigit_def list_all_iff dropWhile_eq_Nil_conv)

lemma number_tail_exponent: "number_tail start ptr = Inr (start, []) \<longleftrightarrow> number_exponent ptr"
proof (cases ptr)
  case Nil
  then show ?thesis by (simp add: number_tail_def number_exponent_def peek_def)
next
  case (Cons c p)
  define ds where "ds = (case p of [] \<Rightarrow> [] | g # q \<Rightarrow> if g = CHR ''+'' \<or> g = CHR ''-'' then q else p)"
  have ds: "(if peek p = CHR ''+'' \<or> peek p = CHR ''-'' then tl p else p) = ds" by (cases p) (auto simp: ds_def peek_def)
  have "ds \<noteq> [] \<Longrightarrow> p \<noteq> []" by (auto simp: ds_def)
  moreover have "peek (c # p) = c" by (simp add: peek_def)
  moreover have "\<not> isdigit (peek [])" by (simp add: peek_def isdigit_def)
  ultimately have "number_tail start (c # p) = Inr (start, []) \<longleftrightarrow>
      (c = CHR ''e'' \<or> c = CHR ''E'') \<and> isdigit (peek ds) \<and> dropWhile isdigit (tl ds) = []"
    unfolding number_tail_def Let_def list.sel ds by (cases "ds = []") (auto simp del: dropWhile_eq_Nil_conv)
  then show ?thesis unfolding Cons number_exponent_def list.case Let_def ds_def [symmetric] digits_read by simp
qed

text \<open>The parser of numbers accepts a text as a whole exactly when it is in the grammar.\<close>

lemma number_text_parsed: "number_text t \<longleftrightarrow> json_parse_number t = Inr (t, [])"
proof -
  define u where "u = (case t of [] \<Rightarrow> [] | c # p \<Rightarrow> if c = CHR ''-'' then p else t)"
  define ds where "ds = takeWhile isdigit u"
  define x where "x = (case dropWhile isdigit u of [] \<Rightarrow> [] | c # q \<Rightarrow> if c = CHR ''.'' then dropWhile isdigit q else c # q)"
  have u: "(if peek t = CHR ''-'' then tl t else t) = u" by (cases t) (auto simp: u_def peek_def)
  have h: "ds \<noteq> [] \<Longrightarrow> peek u = hd ds" by (cases u) (auto simp: peek_def ds_def)
  have "number_fraction (dropWhile isdigit u) \<longleftrightarrow> number_exponent x"
    unfolding number_fraction_def x_def by (cases "dropWhile isdigit u") (simp_all del: dropWhile_eq_Nil_conv)
  then have "number_text t \<longleftrightarrow> ds \<noteq> [] \<and> (hd ds = CHR ''0'' \<longrightarrow> length ds = 1) \<and> number_exponent x"
    unfolding number_text_def u_def [symmetric] number_unsigned_def ds_def [symmetric] Let_def by simp
  moreover have "json_parse_number t = Inr (t, []) \<longleftrightarrow> \<not> (length ds = 0 \<or> peek u = CHR ''0'' \<and> 1 < length ds) \<and> number_tail t x = Inr (t, [])"
    unfolding json_parse_number_tail u number_loop_eq Let_def prod.case x_def [symmetric] ds_def [symmetric] by simp
  moreover have "length ds = 1 \<longleftrightarrow> \<not> 1 < length ds" if "ds \<noteq> []" using that by (cases ds) auto
  ultimately show ?thesis unfolding number_tail_exponent using h by auto
qed

lemma number_text_first: "number_text t \<Longrightarrow> t \<noteq> [] \<and> (isdigit (hd t) \<or> hd t = CHR ''-'')"
  by (auto simp: number_text_def number_unsigned_def Let_def split: list.splits if_splits)

lemma json_parse_number_append:
  assumes "number_text t" "delim rest"
  shows "json_parse_number (t @ rest) = Inr (t, rest)"
proof -
  define s where "s = (if peek t = CHR ''-'' then tl t else t)"
  obtain q d where q: "number_loop s False 0 = (q, d)" by fastforce
  have t: "t \<noteq> []" "json_parse_number t = Inr (t, [])" using assms(1) number_text_first number_text_parsed by auto
  then have d: "d \<noteq> 0" "\<not> (peek s = CHR ''0'' \<and> 1 < d)" "number_tail t q = Inr (t, [])"
    using q unfolding json_parse_number_tail s_def [symmetric] Let_def by (auto split: if_splits)
  then have ne: "s \<noteq> []" using q by auto
  have e: "(if peek (t @ rest) = CHR ''-'' then tl (t @ rest) else t @ rest) = s @ rest" using t(1) by (simp add: peek_append s_def)
  show ?thesis
    unfolding json_parse_number_tail e Let_def number_loop_append [OF assms(2) q] prod.case
    using d ne number_tail_append [OF d(3) assms(2)] by (simp add: peek_append)
qed

lemma json_parse_literal_append: "json_parse_literal (lit @ rest) lit = Inr rest"
proof -
  have "literal_loop (lit @ rest) lit = Some rest" by (induction lit) auto
  then show ?thesis by (simp add: json_parse_literal_def)
qed

section \<open>First characters\<close>

text \<open>No rendered value starts with white space, a closing bracket or a comma.\<close>

definition starts_value :: "char \<Rightarrow> bool" where
  "starts_value c \<longleftrightarrow> c = CHR 0x22 \<or> c = CHR 0x5B \<or> c = CHR 0x7B \<or> c = CHR ''t'' \<or> c = CHR ''f'' \<or> c = CHR ''n'' \<or> c = CHR ''-'' \<or> isdigit c"

lemma starts_value_not: "starts_value c \<Longrightarrow> \<not> is_json_space c \<and> c \<noteq> CHR 0x5D \<and> c \<noteq> CHR 0x7D \<and> c \<noteq> CHR 0x00"
  by (auto simp: starts_value_def is_json_space_def isdigit_def)

lemma render_first: "doc_ok d \<Longrightarrow> \<exists>c p. render d = c # p \<and> starts_value c"
proof (cases d)
  case (Doc_token t)
  moreover assume "doc_ok d"
  ultimately show ?thesis using number_text_first [of t] by (cases t) (auto simp: token_ok_def starts_value_def)
qed (auto simp: quote_eq starts_value_def)

lemma skip_whitespace_render: "doc_ok d \<Longrightarrow> skip_whitespace (render d @ p) = render d @ p"
  using render_first [of d] starts_value_not by (force simp: skip_whitespace_def)

lemma skip_whitespace_delim: "delim p \<Longrightarrow> skip_whitespace p = p"
  by (cases p) (auto simp: skip_whitespace_def delim_def is_json_space_def)

lemma skip_whitespace_quote: "skip_whitespace (quote s @ p) = quote s @ p" "peek (quote s @ p) = CHR 0x22"
  by (simp_all add: quote_eq skip_whitespace_def is_json_space_def peek_def)

section \<open>The parser reads what is rendered\<close>

text \<open>A parser of values that reads a document whatever delimiter follows.\<close>

definition reads :: "bool \<Rightarrow> (string \<Rightarrow> json_result) \<Rightarrow> json_doc \<Rightarrow> bool" where
  "reads build parse_value d \<longleftrightarrow>
     (\<forall>rest. delim rest \<longrightarrow> (\<exists>v. parse_value (render d @ rest) = Some (Inr (v, rest)) \<and> (build \<longrightarrow> v = tree d)))"

lemma length_commas: "t \<in> set ts \<Longrightarrow> length t \<le> length (commas ts)" "length ts \<le> Suc (length (commas ts))"
  by (induction ts rule: commas.induct) auto

lemma commas_first: "commas (t # ts) @ p = t @ (if ts = [] then p else CHR '','' # commas ts @ p)"
  by (cases ts) auto

lemma array_loop_render:
  assumes "list_all (reads build parse_value) ds" "ds \<noteq> []" "length ds \<le> fuel"
  shows "\<exists>vs. array_loop fuel parse_value (commas (map render ds) @ CHR 0x5D # rest) vals = Some (Inr (Json_array (vals @ vs), rest))
           \<and> (build \<longrightarrow> vs = map tree ds)"
  using assms
proof (induction ds arbitrary: fuel vals)
  case (Cons d ds)
  obtain f where f: "fuel = Suc f" "length ds \<le> f" using Cons.prems(3) by (cases fuel) auto
  let ?r = "if map render ds = [] then CHR 0x5D # rest else CHR '','' # commas (map render ds) @ CHR 0x5D # rest"
  have r: "delim ?r" by simp
  then obtain v where v: "parse_value (render d @ ?r) = Some (Inr (v, ?r))" "build \<longrightarrow> v = tree d"
    using Cons.prems(1) by (force simp: reads_def)
  have e: "commas (map render (d # ds)) @ CHR 0x5D # rest = render d @ ?r" by (simp only: list.map commas_first)
  show ?case
  proof (cases "ds = []")
    case True
    then show ?thesis using v f unfolding e by (simp add: array_body_def skip_whitespace_delim peek_def)
  next
    case False
    from Cons.IH [OF _ False f(2), of "vals @ [v]"] Cons.prems(1) obtain vs
      where "array_loop f parse_value (commas (map render ds) @ CHR 0x5D # rest) (vals @ [v]) = Some (Inr (Json_array ((vals @ [v]) @ vs), rest))"
        "build \<longrightarrow> vs = map tree ds" by auto
    then show ?thesis
      using v f False unfolding e by (intro exI [of _ "v # vs"]) (simp add: array_body_def skip_whitespace_delim peek_def Let_def)
  qed
qed simp

definition member_text :: "string \<times> json_doc \<Rightarrow> string" where
  "member_text el = (case el of (n, d) \<Rightarrow> quote n @ CHR '':'' # render d)"

lemma skip_whitespace_member: "skip_whitespace (member_text el @ p) = member_text el @ p" "peek (member_text el @ p) = CHR 0x22"
  by (simp_all add: member_text_def skip_whitespace_quote split: prod.splits)

lemma object_loop_render:
  assumes "list_all (\<lambda>(n, d). reads build parse_value d) els" "els \<noteq> []" "length els \<le> fuel"
  shows "\<exists>acc'. object_loop fuel parse_value build (commas (map member_text els) @ CHR 0x7D # rest) acc = Some (Inr (Json_object acc', rest))
           \<and> (build \<longrightarrow> acc' = fold (\<lambda>(n, v) acc. object_insert acc n v) (map (\<lambda>(n, d). (c_string n, tree d)) els) acc)"
  using assms
proof (induction els arbitrary: fuel acc)
  case (Cons el els)
  obtain n d where el: "el = (n, d)" by (cases el)
  obtain f where f: "fuel = Suc f" "length els \<le> f" using Cons.prems(3) by (cases fuel) auto
  let ?r = "if map member_text els = [] then CHR 0x7D # rest else CHR '','' # commas (map member_text els) @ CHR 0x7D # rest"
  have r: "delim ?r" by simp
  then obtain v where v: "parse_value (render d @ ?r) = Some (Inr (v, ?r))" "build \<longrightarrow> v = tree d"
    using Cons.prems(1) by (force simp: reads_def el)
  define name where "name = (if build then c_string n else [])"
  have e: "commas (map member_text (el # els)) @ CHR 0x7D # rest = quote n @ CHR '':'' # render d @ ?r"
    by (simp only: list.map commas_first) (simp add: member_text_def el)
  have q: "json_parse_string build (quote n @ CHR '':'' # render d @ ?r) = Inr (name, CHR '':'' # render d @ ?r)"
    by (simp add: parse_string_quote name_def)
  have c: "skip_whitespace (CHR '':'' # p) = CHR '':'' # p" for p by (simp add: skip_whitespace_def is_json_space_def)
  show ?case
  proof (cases "els = []")
    case True
    then show ?thesis
      using v f q unfolding e by (simp add: object_body_def skip_whitespace_quote skip_whitespace_delim c peek_def [of "_ # _"] name_def el)
  next
    case False
    have sk: "skip_whitespace (commas (map member_text els) @ p) = commas (map member_text els) @ p" for p
      using False by (cases els) (simp_all add: commas_Cons skip_whitespace_member)
    from Cons.IH [OF _ False f(2), of "object_insert acc name v"] Cons.prems(1) obtain acc'
      where a: "object_loop f parse_value build (commas (map member_text els) @ CHR 0x7D # rest) (object_insert acc name v) = Some (Inr (Json_object acc', rest))"
        "build \<longrightarrow> acc' = fold (\<lambda>(n, v) acc. object_insert acc n v) (map (\<lambda>(n, d). (c_string n, tree d)) els) (object_insert acc name v)" by auto
    show ?thesis
      using v f q a False sk unfolding e
      by (simp add: object_body_def skip_whitespace_quote skip_whitespace_delim c peek_def [of "_ # _"] Let_def name_def el)
  qed
qed simp

lemma render_object: "render (Doc_object els) = CHR 0x7B # commas (map member_text els) @ [CHR 0x7D]"
  by (simp add: member_text_def fun_eq_iff cong: map_cong)

lemma parse_array_render:
  assumes "list_all (reads build parse_value) ds" "list_all doc_ok ds" "length ds \<le> fuel"
  shows "\<exists>vs. parse_array fuel parse_value (render (Doc_array ds) @ rest) = Some (Inr (Json_array vs, rest)) \<and> (build \<longrightarrow> vs = map tree ds)"
proof (cases ds)
  case Nil
  then show ?thesis by (simp add: parse_array_def skip_whitespace_delim peek_def)
next
  case (Cons d ds')
  let ?t = "commas (map render ds) @ CHR 0x5D # rest"
  obtain c p where c: "render d = c # p" "starts_value c" using render_first [of d] assms(2) Cons by auto
  then obtain p' where t: "?t = c # p'" using Cons by (simp add: commas_Cons)
  have "skip_whitespace ?t = ?t" "peek ?t \<noteq> CHR 0x5D" using starts_value_not [OF c(2)] by (simp_all add: t skip_whitespace_def peek_def)
  then have "parse_array fuel parse_value (render (Doc_array ds) @ rest) = array_loop fuel parse_value ?t []"
    by (simp add: parse_array_def)
  moreover obtain vs where "array_loop fuel parse_value ?t [] = Some (Inr (Json_array ([] @ vs), rest))" "build \<longrightarrow> vs = map tree ds"
    using array_loop_render [OF assms(1) _ assms(3)] Cons by blast
  ultimately show ?thesis by simp
qed

lemma parse_object_render:
  assumes "list_all (\<lambda>(n, d). reads build parse_value d) els" "length els \<le> fuel"
  shows "\<exists>acc. parse_object fuel parse_value build (render (Doc_object els) @ rest) = Some (Inr (Json_object acc, rest))
           \<and> (build \<longrightarrow> Json_object acc = tree (Doc_object els))"
proof (cases els)
  case Nil
  then show ?thesis by (simp add: parse_object_def skip_whitespace_def is_json_space_def peek_def)
next
  case (Cons el els')
  let ?t = "commas (map member_text els) @ CHR 0x7D # rest"
  have "skip_whitespace ?t = ?t" "peek ?t \<noteq> CHR 0x7D" using Cons by (simp_all add: commas_Cons skip_whitespace_member)
  moreover have "skip_whitespace (CHR 0x7B # p) = CHR 0x7B # p" for p by (simp add: skip_whitespace_def is_json_space_def)
  ultimately have "parse_object fuel parse_value build (render (Doc_object els) @ rest) = object_loop fuel parse_value build ?t []"
    by (simp add: parse_object_def render_object del: render.simps)
  moreover obtain acc where "object_loop fuel parse_value build ?t [] = Some (Inr (Json_object acc, rest))"
    "build \<longrightarrow> acc = fold (\<lambda>(n, v) acc. object_insert acc n v) (map (\<lambda>(n, d). (c_string n, tree d)) els) []"
    using object_loop_render [OF assms(1) _ assms(2)] Cons by blast
  ultimately show ?thesis by simp
qed

lemma reads_token:
  assumes "token_ok t"
  shows "reads build (json_parse_value (Suc fuel) build) (Doc_token t)"
  unfolding reads_def
proof (intro allI impI)
  fix rest assume rest: "delim rest"
  have sk: "skip_whitespace (t @ rest) = t @ rest" using skip_whitespace_render [of "Doc_token t" rest] assms by simp
  consider "t = ''true''" | "t = ''false''" | "t = ''null''" | "number_text t" using assms by (auto simp: token_ok_def)
  then show "\<exists>v. json_parse_value (Suc fuel) build (render (Doc_token t) @ rest) = Some (Inr (v, rest)) \<and> (build \<longrightarrow> v = tree (Doc_token t))"
  proof cases
    case 4
    then obtain c p where t: "t = c # p" "isdigit c \<or> c = CHR ''-''" using number_text_first [of t] by (cases t) auto
    then have c: "c \<noteq> CHR 0x22" "c \<noteq> CHR 0x7B" "c \<noteq> CHR 0x5B" "c \<noteq> CHR ''t''" "c \<noteq> CHR ''f''" "c \<noteq> CHR ''n''" by (auto simp: isdigit_def)
    moreover have "json_parse_number (c # p @ rest) = Inr (t, rest)" using json_parse_number_append [OF 4 rest] t by simp
    moreover have "token_tree t = Json_number t" using c t by (auto simp: token_tree_def)
    ultimately show ?thesis using t(2) sk by (simp add: t(1) value_body_def peek_def)
  qed (use sk json_parse_literal_append [of t rest] in \<open>simp_all add: value_body_def peek_def token_tree_def\<close>)
qed

lemma json_parse_value_brackets:
  assumes "skip_whitespace s = s"
  shows "peek s = CHR 0x7B \<Longrightarrow> json_parse_value (Suc fuel) build s = json_parse_object fuel build s"
    and "peek s = CHR 0x5B \<Longrightarrow> json_parse_value (Suc fuel) build s = json_parse_array fuel build s"
  using assms by (auto simp: value_body_def Let_def json_parse_object_def json_parse_array_def peek_def split: list.splits)

lemma member_length: "(n, d) \<in> set els \<Longrightarrow> length (render d) \<le> length (member_text (n, d)) \<and> member_text (n, d) \<in> set (map member_text els)"
  by (force simp: member_text_def)

lemma reads_render: "doc_ok d \<Longrightarrow> length (render d) \<le> fuel \<Longrightarrow> reads build (json_parse_value fuel build) d"
proof (induction d arbitrary: fuel)
  case (Doc_string s)
  then obtain f where "fuel = Suc f" by (cases fuel) (auto simp: quote_eq)
  then show ?case
    using skip_whitespace_quote [of s] by (auto simp: reads_def value_body_def Let_def parse_string_quote) (simp add: quote_eq)
next
  case (Doc_token t)
  then obtain f where "fuel = Suc f" using render_first [of "Doc_token t"] by (cases fuel) auto
  then show ?case using reads_token [of t build f] Doc_token.prems(1) by (simp del: json_parse_value.simps)
next
  case (Doc_array ds)
  then obtain f where f: "fuel = Suc f" by (cases fuel) auto
  have l: "length (commas (map render ds)) < f" using Doc_array.prems(2) f by simp
  have "list_all (reads build (json_parse_value f build)) ds"
  proof (unfold list_all_iff, rule ballI)
    fix d assume d: "d \<in> set ds"
    then have "length (render d) \<le> f" using length_commas(1) [of "render d" "map render ds"] l by simp
    then show "reads build (json_parse_value f build) d" using Doc_array.IH [OF d] Doc_array.prems(1) d by (simp add: list_all_iff)
  qed
  moreover have "length ds \<le> f" using length_commas(2) [of "map render ds"] l by simp
  ultimately have "\<exists>vs. parse_array f (json_parse_value f build) (render (Doc_array ds) @ rest) = Some (Inr (Json_array vs, rest)) \<and> (build \<longrightarrow> vs = map tree ds)" for rest
    using parse_array_render Doc_array.prems(1) by simp
  moreover have "skip_whitespace (CHR 0x5B # p) = CHR 0x5B # p" for p by (simp add: skip_whitespace_def is_json_space_def)
  ultimately show ?case by (auto simp: reads_def f value_body_def peek_def Let_def)
next
  case (Doc_object els)
  then obtain f where f: "fuel = Suc f" by (cases fuel) auto
  have l: "length (commas (map member_text els)) < f" using Doc_object.prems(2) f unfolding render_object by simp
  have "list_all (\<lambda>(n, d). reads build (json_parse_value f build) d) els"
  proof (unfold list_all_iff, rule ballI, clarify)
    fix n d assume nd: "(n, d) \<in> set els"
    then have "length (render d) \<le> f" using length_commas(1) [of "member_text (n, d)" "map member_text els"] member_length [OF nd] l by simp
    moreover have "doc_ok d" using Doc_object.prems(1) nd by (auto simp: list_all_iff)
    ultimately show "reads build (json_parse_value f build) d" using Doc_object.IH [OF nd, of d] by simp
  qed
  moreover have "length els \<le> f" using length_commas(2) [of "map member_text els"] l by simp
  ultimately have "\<exists>acc. parse_object f (json_parse_value f build) build (render (Doc_object els) @ rest) = Some (Inr (Json_object acc, rest))
      \<and> (build \<longrightarrow> Json_object acc = tree (Doc_object els))" for rest
    by (rule parse_object_render)
  moreover have "skip_whitespace (render (Doc_object els) @ p) = render (Doc_object els) @ p" "peek (render (Doc_object els) @ p) = CHR 0x7B" for p
    by (simp_all add: skip_whitespace_def is_json_space_def peek_def)
  ultimately show ?case
    unfolding reads_def f using json_parse_value_brackets(1) [of "render (Doc_object els) @ rest" for rest]
    by (metis (no_types, lifting) json_parse_object_def)
qed

text \<open>A rendered object or array is valid as a whole, and opening it gives its tree.\<close>

fun is_container :: "json_doc \<Rightarrow> bool" where
  "is_container (Doc_array ds) = True"
| "is_container (Doc_object els) = True"
| "is_container d = False"

lemma json_parse_container:
  assumes "doc_ok d" "is_container d" "length (render d) \<le> fuel" "delim rest"
  shows "\<exists>v. (if peek (render d @ rest) = CHR 0x7B then json_parse_object fuel build (render d @ rest) else json_parse_array fuel build (render d @ rest)) = Some (Inr (v, rest))
    \<and> (build \<longrightarrow> v = tree d) \<and> (peek (render d @ rest) = CHR 0x7B \<or> peek (render d @ rest) = CHR 0x5B)"
proof -
  have "reads build (json_parse_value (Suc fuel) build) d" using assms by (intro reads_render) auto
  then obtain v where v: "json_parse_value (Suc fuel) build (render d @ rest) = Some (Inr (v, rest))" "build \<longrightarrow> v = tree d"
    using assms(4) by (auto simp: reads_def)
  have p: "peek (render d @ rest) = CHR 0x7B \<or> peek (render d @ rest) = CHR 0x5B" using assms(2) by (cases d) (auto simp: peek_def)
  have "json_parse_value (Suc fuel) build (render d @ rest) =
    (if peek (render d @ rest) = CHR 0x7B then json_parse_object fuel build (render d @ rest) else json_parse_array fuel build (render d @ rest))"
    using p json_parse_value_brackets [OF skip_whitespace_render [OF assms(1), of rest], of fuel build] by auto
  then show ?thesis using v p by metis
qed

lemma skip_whitespace_Nil [simp]: "skip_whitespace [] = []"
  by (simp add: skip_whitespace_def)

lemma render_valid:
  assumes "doc_ok d" "is_container d" "length (render d) \<le> fuel"
  shows "zbx_json_validate fuel (render d) = Some (Inr (length (render d)))" "zbx_jsonobj_open fuel (render d) = Some (Inr (tree d))"
proof -
  have sk: "skip_whitespace (render d) = render d" using skip_whitespace_render [OF assms(1), of "[]"] by simp
  note c = json_parse_container [OF assms delim_simps(1), simplified]
  show "zbx_json_validate fuel (render d) = Some (Inr (length (render d)))"
    using c [of False] by (auto simp: zbx_json_validate_def sk Let_def split: if_splits)
  show "zbx_jsonobj_open fuel (render d) = Some (Inr (tree d))"
    using c [of True] by (auto simp: zbx_jsonobj_open_def sk Let_def split: if_splits)
qed

section \<open>Properties\<close>

text \<open>
  A string that is escaped and quoted is read back unchanged, control characters, quotes and backslashes
  included, exactly when the buffer has room for it and its terminating NUL; the space reserved for the
  escaped text is its length.
\<close>

theorem json_string_roundtrip:
  "json_copy_string (zbx_json_insstring (Some s) ZBX_JSON_TYPE_STRING @ rest) sz = (if length s < sz then Some (s, rest) else None) \<and>
   length (zbx_json_insstring str type) = zbx_json_stringsize str type"
proof -
  have "json_copy_string (quote s @ rest) sz = (if length s < sz then Some (s, rest) else None)"
    using copy_string_loop_escaped [of "[]" sz s rest] by (cases "sz = 0") (simp_all add: json_copy_string_def quote_eq)
  then show ?thesis by (simp add: quote_def length_insstring)
qed

text \<open>Two members whose names differ only behind a NUL: the parser keeps one, with the value of the second.\<close>

lemma json_nul_names:
  "zbx_jsonobj_open 99 (render (Doc_object [([CHR ''a'', CHR 0x00, CHR ''b''], Doc_token ''1''), ([CHR ''a'', CHR 0x00, CHR ''c''], Doc_token ''2'')])) =
     Some (Inr (Json_object [(''a'', Json_number ''2'')]))"
  by code_simp

text \<open>
  C11. The text of every JSON document, an object or an array of strings, numbers, literals and further documents to any
  depth, is valid JSON of its full length, and opening it gives the tree of the document.  Numbers are the texts of a grammar
  (\<open>number_text\<close>), and the strings and names of the tree are C strings: what follows a NUL is lost, so that names which
  agree up to a NUL become one member.
\<close>

theorem json_render_parse:
  assumes "doc_ok d" "is_container d" "length (render d) \<le> fuel"
  shows "zbx_json_validate fuel (render d) = Some (Inr (length (render d))) \<and> zbx_jsonobj_open fuel (render d) = Some (Inr (tree d))"
  using render_valid [OF assms] by simp

theorem json_render_parse_witness:
  "zbx_jsonobj_open 99 (render (Doc_object [(''a'', Doc_array [Doc_token ''-12'', Doc_string [CHR 0x22]])])) =
     Some (Inr (Json_object [(''a'', Json_array [Json_number ''-12'', Json_string [CHR 0x22]])]))"
proof -
  let ?d = "Doc_object [(''a'', Doc_array [Doc_token ''-12'', Doc_string [CHR 0x22]])]"
  have "doc_ok ?d" "is_container ?d" "length (render ?d) \<le> 99" by code_simp+
  from json_render_parse [OF this] show ?thesis by (simp add: token_tree_def c_string_def)
qed

end
