(* ===== verification/Json_Build.thy ===== *)
theory Json_Build
  imports Json_Doc
begin

text \<open>
  \<open>src/libs/zbxjson/json.c\<close>, the builder: every message that the server, the proxy and the agent send is put
  together by these functions.  The text is kept complete at all times; the next element is inserted in front of
  the closing brackets, which are moved up.

  The buffer is the list of all its bytes, the ones behind the text included, so a write outside it is visible as
  \<open>Inl BadIndex\<close>; \<open>buffer_allocated\<close> is its length.  The static buffer of the structure and the heap buffer that
  replaces it differ in their addresses only.
\<close>

section \<open>The structure\<close>

datatype zbx_json_status = ZBX_JSON_EMPTY | ZBX_JSON_COMMA

record zbx_json =
  buffer :: string
  buffer_offset :: nat
  buffer_size :: nat
  status :: zbx_json_status
  level :: int

text \<open>
  \<open>__zbx_json_realloc\<close>: the first allocation takes the static buffer of 4096 bytes if that is enough, later
  ones double the size.  The contents of new memory are never read; the model has NUL there.
\<close>

function grow_alloc :: "nat \<Rightarrow> nat \<Rightarrow> nat" where
  "grow_alloc need allocated =
     (if need > allocated then grow_alloc need (if allocated = 0 then 1024 else allocated * 2) else allocated)"
  by auto
termination by (relation "measure (\<lambda>(need, allocated). need - allocated)") auto

declare grow_alloc.simps [simp del]

definition first_alloc :: "nat \<Rightarrow> string" where
  "first_alloc need = replicate (if need > 4096 then need else 4096) (CHR 0x00)"

definition zbx_json_realloc :: "zbx_json \<Rightarrow> nat \<Rightarrow> zbx_json" where
  "zbx_json_realloc j need =
     j\<lparr>buffer := buffer j @ replicate (grow_alloc need (length (buffer j)) - length (buffer j)) (CHR 0x00)\<rparr>"

text \<open>A write of some bytes.\<close>

definition write_at :: "string \<Rightarrow> nat \<Rightarrow> string \<Rightarrow> string result" where
  "write_at mem off cs =
     (if off + length cs \<le> length mem then Inr (take off mem @ cs @ drop (off + length cs) mem) else Inl BadIndex)"

text \<open>
  The steps that all insertions share: make room, move the closing brackets and the NUL up by \<open>len\<close> bytes, write
  the new text into the gap.
\<close>

definition json_insert :: "zbx_json \<Rightarrow> nat \<Rightarrow> string \<Rightarrow> zbx_json result" where
  "json_insert j len new =
     (let j = zbx_json_realloc j (buffer_size j + len + 1);
          moved = take (buffer_size j - buffer_offset j + 1) (drop (buffer_offset j) (buffer j))
      in if buffer_size j + 1 > length (buffer j) then Inl BadIndex
         else
           bind_result (write_at (buffer j) (buffer_offset j + len) moved)
             (\<lambda>b. bind_result (write_at b (buffer_offset j) new) (\<lambda>b. Inr (j\<lparr>buffer := b\<rparr>))))"

text \<open>The comma and the name in front of a new element, and the space they need.\<close>

definition json_prefix :: "zbx_json \<Rightarrow> string option \<Rightarrow> string" where
  "json_prefix j name =
     (if status j = ZBX_JSON_COMMA then [CHR '','' ] else []) @
     (case name of None \<Rightarrow> [] | Some n \<Rightarrow> zbx_json_insstring (Some n) ZBX_JSON_TYPE_STRING @ [CHR '':''])"

definition json_prefix_size :: "zbx_json \<Rightarrow> string option \<Rightarrow> nat" where
  "json_prefix_size j name =
     (if status j = ZBX_JSON_COMMA then 1 else 0) +
     (case name of None \<Rightarrow> 0 | Some n \<Rightarrow> zbx_json_stringsize (Some n) ZBX_JSON_TYPE_STRING + 1)"

section \<open>Operations\<close>

definition json_addobject :: "zbx_json \<Rightarrow> string option \<Rightarrow> bool \<Rightarrow> zbx_json result" where
  "json_addobject j name object =
     (let len = 2 + json_prefix_size j name;
          new = json_prefix j name @ (if object then [CHR 0x7B, CHR 0x7D] else [CHR 0x5B, CHR 0x5D])
      in bind_result (json_insert j len new)
           (\<lambda>j'. Inr (j'\<lparr>buffer_offset := buffer_offset j' + length new - 1, buffer_size := buffer_size j' + len,
                        level := level j' + 1, status := ZBX_JSON_EMPTY\<rparr>)))"

definition zbx_json_addobject :: "zbx_json \<Rightarrow> string option \<Rightarrow> zbx_json result" where
  "zbx_json_addobject j name = json_addobject j name True"

definition zbx_json_addarray :: "zbx_json \<Rightarrow> string option \<Rightarrow> zbx_json result" where
  "zbx_json_addarray j name = json_addobject j name False"

definition zbx_json_addstring :: "zbx_json \<Rightarrow> string option \<Rightarrow> string option \<Rightarrow> zbx_json_type \<Rightarrow> zbx_json result" where
  "zbx_json_addstring j name str type =
     (let len = json_prefix_size j name + zbx_json_stringsize str type;
          new = json_prefix j name @ zbx_json_insstring str type
      in bind_result (json_insert j len new)
           (\<lambda>j'. Inr (j'\<lparr>buffer_offset := buffer_offset j' + length new, buffer_size := buffer_size j' + len, status := ZBX_JSON_COMMA\<rparr>)))"

definition zbx_json_addraw :: "zbx_json \<Rightarrow> string option \<Rightarrow> string \<Rightarrow> zbx_json result" where
  "zbx_json_addraw j name raw =
     (let len = json_prefix_size j name + length raw; new = json_prefix j name @ raw
      in bind_result (json_insert j len new)
           (\<lambda>j'. Inr (j'\<lparr>buffer_offset := buffer_offset j' + length new, buffer_size := buffer_size j' + len, status := ZBX_JSON_COMMA\<rparr>)))"

text \<open>The decimal text that \<open>zbx_snprintf\<close> writes for a number.\<close>

fun dec_string :: "nat \<Rightarrow> string" where
  "dec_string n = (if n < 10 then [char_of (48 + n)] else dec_string (n div 10) @ [char_of (48 + n mod 10)])"

declare dec_string.simps [simp del]

definition int_string :: "int \<Rightarrow> string" where
  "int_string i = (if i < 0 then CHR ''-'' # dec_string (nat (- i)) else dec_string (nat i))"

definition zbx_json_adduint64 :: "zbx_json \<Rightarrow> string option \<Rightarrow> u64 \<Rightarrow> zbx_json result" where
  "zbx_json_adduint64 j name val = zbx_json_addstring j name (Some (dec_string (unat val))) ZBX_JSON_TYPE_INT"

definition zbx_json_adduint64string :: "zbx_json \<Rightarrow> string option \<Rightarrow> u64 \<Rightarrow> zbx_json result" where
  "zbx_json_adduint64string j name val = zbx_json_addstring j name (Some (dec_string (unat val))) ZBX_JSON_TYPE_STRING"

definition zbx_json_addint64 :: "zbx_json \<Rightarrow> string option \<Rightarrow> u64 \<Rightarrow> zbx_json result" where
  "zbx_json_addint64 j name val = zbx_json_addstring j name (Some (int_string (sint val))) ZBX_JSON_TYPE_INT"

definition zbx_json_addint64string :: "zbx_json \<Rightarrow> string option \<Rightarrow> u64 \<Rightarrow> zbx_json result" where
  "zbx_json_addint64string j name val = zbx_json_addstring j name (Some (int_string (sint val))) ZBX_JSON_TYPE_STRING"

definition zbx_json_close :: "zbx_json \<Rightarrow> int \<times> zbx_json" where
  "zbx_json_close j =
     (if level j = 1 then (FAIL, j)
      else (SUCCEED, j\<lparr>level := level j - 1, buffer_offset := buffer_offset j + 1, status := ZBX_JSON_COMMA\<rparr>))"

definition empty_json :: "string \<Rightarrow> zbx_json" where
  "empty_json mem = \<lparr>buffer = mem[0 := CHR 0x00], buffer_offset = 0, buffer_size = 0, status = ZBX_JSON_EMPTY, level = 0\<rparr>"

definition zbx_json_init :: "nat \<Rightarrow> zbx_json result" where
  "zbx_json_init allocate = zbx_json_addobject (empty_json (first_alloc allocate)) None"

definition zbx_json_initarray :: "nat \<Rightarrow> zbx_json result" where
  "zbx_json_initarray allocate = zbx_json_addarray (empty_json (first_alloc allocate)) None"

definition zbx_json_setempty :: "zbx_json \<Rightarrow> zbx_json" where
  "zbx_json_setempty j = empty_json (buffer j)"

definition zbx_json_clean :: "zbx_json \<Rightarrow> zbx_json result" where
  "zbx_json_clean j = zbx_json_addobject (zbx_json_setempty j) None"

section \<open>Memory\<close>

definition json_text :: "zbx_json \<Rightarrow> string" where
  "json_text j = take (buffer_size j) (buffer j)"

text \<open>The text and its NUL are inside the buffer, the offset is inside the text.\<close>

definition json_wf :: "zbx_json \<Rightarrow> bool" where
  "json_wf j \<longleftrightarrow> buffer_size j < length (buffer j) \<and> buffer j ! buffer_size j = CHR 0x00 \<and> buffer_offset j \<le> buffer_size j"

lemma json_wfE:
  assumes "json_wf j"
  obtains rest where "buffer j = take (buffer_offset j) (json_text j) @ drop (buffer_offset j) (json_text j) @ CHR 0x00 # rest"
    "length (json_text j) = buffer_size j"
proof
  let ?rest = "drop (Suc (buffer_size j)) (buffer j)"
  have "buffer j = json_text j @ CHR 0x00 # ?rest" using assms id_take_nth_drop [of "buffer_size j" "buffer j"] by (simp add: json_wf_def json_text_def)
  then show "buffer j = take (buffer_offset j) (json_text j) @ drop (buffer_offset j) (json_text j) @ CHR 0x00 # ?rest"
    by (metis append_assoc append_take_drop_id)
  show "length (json_text j) = buffer_size j" using assms by (simp add: json_wf_def json_text_def)
qed

lemma grow_alloc_ge: "need \<le> grow_alloc need allocated \<and> allocated \<le> grow_alloc need allocated"
proof (induction need allocated rule: grow_alloc.induct)
  case (1 need allocated)
  show ?case
  proof (cases "need > allocated")
    case True
    then show ?thesis using 1 by (subst (1 2) grow_alloc.simps) (auto split: if_splits)
  next
    case False
    then show ?thesis by (subst (1 2) grow_alloc.simps) simp
  qed
qed

lemma write_at_app: "length a = off \<Longrightarrow> length cs = length b \<Longrightarrow> write_at (a @ b @ c) off cs = Inr (a @ cs @ c)"
  by (simp add: write_at_def)

lemma json_insert_spec:
  assumes "json_wf j" "length new = len"
  obtains rest where "json_insert j len new =
    Inr (j\<lparr>buffer := take (buffer_offset j) (json_text j) @ new @ drop (buffer_offset j) (json_text j) @ CHR 0x00 # rest\<rparr>)"
proof -
  obtain r0 where b: "buffer j = take (buffer_offset j) (json_text j) @ drop (buffer_offset j) (json_text j) @ CHR 0x00 # r0"
    and l: "length (json_text j) = buffer_size j" by (rule json_wfE [OF assms(1)])
  have off: "buffer_offset j \<le> buffer_size j" using assms(1) by (simp add: json_wf_def)
  let ?pre = "take (buffer_offset j) (json_text j)" and ?post = "drop (buffer_offset j) (json_text j) @ [CHR 0x00]"
  define R where "R = buffer (zbx_json_realloc j (buffer_size j + len + 1))"
  have "buffer_size j + len + 1 \<le> length R"
    using grow_alloc_ge [of "buffer_size j + len + 1" "length (buffer j)"] by (simp add: R_def zbx_json_realloc_def)
  moreover obtain r1 where R: "R = ?pre @ ?post @ r1" using b by (simp add: R_def zbx_json_realloc_def)
  ultimately have "len \<le> length r1" using l off by simp
  then obtain c d where r1: "?post @ r1 = c @ d" "length c = len + length ?post" by (metis append_take_drop_id length_append length_take min.absorb2 add.commute add_le_mono1)
  let ?g = "take len c" and ?h = "drop len c"
  have R': "R = (?pre @ ?g) @ ?h @ d" using R r1 by simp
  have "write_at R (buffer_offset j + len) ?post = Inr ((?pre @ ?g) @ ?post @ d)"
    unfolding R' using r1(2) l off by (intro write_at_app) simp_all
  moreover have "write_at ((?pre @ ?g) @ ?post @ d) (buffer_offset j) new = Inr (?pre @ new @ ?post @ d)"
    using write_at_app [of ?pre "buffer_offset j" new ?g "?post @ d"] assms(2) r1(2) l off by simp
  moreover have "take (buffer_size j - buffer_offset j + 1) (drop (buffer_offset j) R) = ?post" using R l off by simp
  moreover have "buffer_size j + 1 \<le> length R" using R l off by simp
  moreover define jr where "jr = zbx_json_realloc j (buffer_size j + len + 1)"
  moreover have "buffer jr = R" "buffer_size jr = buffer_size j" "buffer_offset jr = buffer_offset j" "jr\<lparr>buffer := x\<rparr> = j\<lparr>buffer := x\<rparr>" for x
    by (simp_all add: jr_def R_def zbx_json_realloc_def)
  ultimately have "json_insert j len new = Inr (j\<lparr>buffer := ?pre @ new @ ?post @ d\<rparr>)"
    by (simp add: json_insert_def Let_def)
  then show thesis using that [of d] by simp
qed

text \<open>What an insertion of a text and a new offset leaves.\<close>

lemma json_wfI:
  assumes "buffer i = a @ CHR 0x00 # rest" "buffer_size i = length a" "buffer_offset i \<le> length a"
  shows "json_wf i" "json_text i = a"
  using assms by (simp_all add: json_wf_def json_text_def nth_append)

lemma json_insert_text:
  assumes "json_wf j" "length new = len" "k \<le> len"
  obtains j' where "json_insert j len new = Inr j'" "buffer_offset j' = buffer_offset j" "buffer_size j' = buffer_size j" "level j' = level j"
    "\<And>i. buffer i = buffer j' \<Longrightarrow> buffer_size i = buffer_size j + len \<Longrightarrow> buffer_offset i = buffer_offset j + k \<Longrightarrow>
      json_wf i \<and> json_text i = take (buffer_offset j) (json_text j) @ new @ drop (buffer_offset j) (json_text j)"
proof -
  let ?a = "take (buffer_offset j) (json_text j) @ new @ drop (buffer_offset j) (json_text j)"
  obtain rest where r: "json_insert j len new = Inr (j\<lparr>buffer := ?a @ CHR 0x00 # rest\<rparr>)" using json_insert_spec [OF assms(1,2)] by auto
  have l: "length (json_text j) = buffer_size j" "buffer_offset j \<le> buffer_size j" using json_wfE [OF assms(1)] assms(1) by (auto simp: json_wf_def)
  show thesis
  proof (rule that [OF r])
    fix i :: zbx_json
    assume "buffer i = buffer (j\<lparr>buffer := ?a @ CHR 0x00 # rest\<rparr>)" "buffer_size i = buffer_size j + len" "buffer_offset i = buffer_offset j + k"
    then show "json_wf i \<and> json_text i = ?a" using json_wfI [of i ?a rest] l assms(2,3) by simp
  qed simp_all
qed

section \<open>Documents under construction\<close>

text \<open>
  The containers that are open, the innermost first: object or array, the name under which the container stands in
  the one around it, and the elements it has so far.  Arrays ignore names.
\<close>

record frame =
  is_object :: bool
  key :: string
  els :: "(string \<times> json_doc) list"

definition frame_doc :: "frame \<Rightarrow> json_doc" where
  "frame_doc f = (if is_object f then Doc_object (els f) else Doc_array (map snd (els f)))"

definition key_text :: "frame \<Rightarrow> string \<Rightarrow> string" where
  "key_text f n = (if is_object f then quote n @ [CHR '':''] else [])"

definition el_text :: "frame \<Rightarrow> string \<times> json_doc \<Rightarrow> string" where
  "el_text f el = key_text f (fst el) @ render (snd el)"

definition frame_open :: "frame \<Rightarrow> string" where
  "frame_open f = (if is_object f then CHR 0x7B else CHR 0x5B) # commas (map (el_text f) (els f))"

definition frame_close :: "frame \<Rightarrow> char" where
  "frame_close f = (if is_object f then CHR 0x7D else CHR 0x5D)"

definition sep_text :: "frame \<Rightarrow> string" where
  "sep_text f = (if els f = [] then [] else [CHR '',''])"

definition add_el :: "frame \<Rightarrow> string \<Rightarrow> json_doc \<Rightarrow> frame" where
  "add_el f n d = f\<lparr>els := els f @ [(n, d)]\<rparr>"

fun before :: "frame list \<Rightarrow> string" where
  "before [] = []"
| "before [f] = frame_open f"
| "before (f # g # st) = before (g # st) @ sep_text g @ key_text g (key f) @ frame_open f"

definition after :: "frame list \<Rightarrow> string" where
  "after st = map frame_close st"

fun whole :: "frame list \<Rightarrow> json_doc" where
  "whole [] = Doc_array []"
| "whole [f] = frame_doc f"
| "whole (f # g # st) = whole (add_el g (key f) (frame_doc f) # st)"

lemma commas_snoc: "commas (ts @ [t]) = (if ts = [] then t else commas ts @ CHR '','' # t)"
  by (induction ts rule: commas.induct) auto

lemma el_text_update [simp]: "el_text (f\<lparr>els := es\<rparr>) = el_text f"
  by (simp add: fun_eq_iff el_text_def key_text_def)

lemma frame_open_add: "frame_open (add_el f n d) = frame_open f @ sep_text f @ key_text f n @ render d"
  by (simp add: frame_open_def add_el_def sep_text_def el_text_def key_text_def commas_snoc)

lemma render_frame: "render (frame_doc f) = frame_open f @ [frame_close f]"
proof (cases "is_object f")
  case True
  then have e: "el_text f = member_text" by (auto simp: fun_eq_iff el_text_def key_text_def member_text_def)
  show ?thesis using True unfolding frame_doc_def frame_open_def e by (simp add: render_object frame_close_def del: render.simps)
next
  case False
  then have "el_text f = render \<circ> snd" by (auto simp: el_text_def key_text_def)
  then show ?thesis using False by (simp add: frame_doc_def frame_open_def frame_close_def)
qed

lemma before_Cons: "st \<noteq> [] \<Longrightarrow> before (f # st) = before st @ sep_text (hd st) @ key_text (hd st) (key f) @ frame_open f"
  by (cases st) auto

lemma before_add: "before (add_el f n d # st) = before (f # st) @ sep_text f @ key_text f n @ render d"
  by (cases st) (simp_all add: frame_open_add, simp add: add_el_def)

lemma render_whole: "st \<noteq> [] \<Longrightarrow> render (whole st) = before st @ after st"
proof (induction st rule: whole.induct)
  case (3 f g st)
  then show ?case by (simp add: before_add render_frame after_def) (simp add: add_el_def frame_close_def)
qed (simp_all add: render_frame after_def)

text \<open>Names go with objects.\<close>

definition name_ok :: "frame \<Rightarrow> string option \<Rightarrow> bool" where
  "name_ok f name \<longleftrightarrow> (name \<noteq> None) = is_object f"

definition name_of :: "string option \<Rightarrow> string" where
  "name_of name = (case name of None \<Rightarrow> [] | Some n \<Rightarrow> n)"

section \<open>The builder refines documents under construction\<close>

definition builds :: "zbx_json \<Rightarrow> frame list \<Rightarrow> bool" where
  "builds j st \<longleftrightarrow>
     json_wf j \<and> st \<noteq> [] \<and> json_text j = before st @ after st \<and> buffer_offset j = length (before st) \<and>
     level j = int (length st) \<and> (status j = ZBX_JSON_COMMA \<longleftrightarrow> els (hd st) \<noteq> [])"

lemma builds_prefix:
  assumes "builds j (f # st)" "name_ok f name"
  shows "json_prefix j name = sep_text f @ key_text f (name_of name)" "length (json_prefix j name) = json_prefix_size j name"
proof -
  have "status j = ZBX_JSON_COMMA \<longleftrightarrow> els f \<noteq> []" using assms(1) by (simp add: builds_def)
  then show "json_prefix j name = sep_text f @ key_text f (name_of name)"
    using assms(2) by (auto simp: json_prefix_def sep_text_def key_text_def name_ok_def name_of_def quote_def split: option.splits)
  show "length (json_prefix j name) = json_prefix_size j name"
    by (simp add: json_prefix_def json_prefix_size_def length_insstring split: option.splits)
qed

lemma json_addobject_builds:
  assumes "builds j (f # st)" "name_ok f name"
  shows "\<exists>j'. json_addobject j name object = Inr j' \<and> builds j' (\<lparr>is_object = object, key = name_of name, els = []\<rparr> # f # st)"
proof -
  let ?g = "\<lparr>is_object = object, key = name_of name, els = []\<rparr>"
  let ?new = "json_prefix j name @ (if object then [CHR 0x7B, CHR 0x7D] else [CHR 0x5B, CHR 0x5D])"
  let ?len = "2 + json_prefix_size j name"
  note p = builds_prefix [OF assms]
  have wf: "json_wf j" and b: "json_text j = before (f # st) @ after (f # st)" "buffer_offset j = length (before (f # st))" "level j = int (Suc (length st))"
    using assms(1) by (simp_all add: builds_def)
  have n: "length ?new = ?len" using p(2) by simp
  obtain j1 where j1: "json_insert j ?len ?new = Inr j1" "buffer_offset j1 = buffer_offset j" "buffer_size j1 = buffer_size j" "level j1 = level j"
    and i: "\<And>i. buffer i = buffer j1 \<Longrightarrow> buffer_size i = buffer_size j + ?len \<Longrightarrow> buffer_offset i = buffer_offset j + (?len - 1) \<Longrightarrow>
      json_wf i \<and> json_text i = take (buffer_offset j) (json_text j) @ ?new @ drop (buffer_offset j) (json_text j)"
    using json_insert_text [OF wf n, of "?len - 1"] by auto
  let ?j = "j1\<lparr>buffer_offset := buffer_offset j1 + length ?new - 1, buffer_size := buffer_size j1 + ?len, level := level j1 + 1, status := ZBX_JSON_EMPTY\<rparr>"
  have e: "json_addobject j name object = Inr ?j" using j1(1) by (simp add: json_addobject_def Let_def)
  have w: "json_wf ?j \<and> json_text ?j = before (f # st) @ ?new @ after (f # st)" using i [of ?j] j1(2,3) b n by simp
  have "?new = sep_text f @ key_text f (name_of name) @ frame_open ?g @ [frame_close ?g]"
    by (simp add: p(1) frame_open_def frame_close_def)
  moreover have "length ?new - 1 = length (sep_text f @ key_text f (name_of name) @ frame_open ?g)" by (simp add: p(1) frame_open_def)
  ultimately have "builds ?j (?g # f # st)" using w j1 b p n by (simp add: builds_def after_def)
  then show ?thesis using e by blast
qed

text \<open>Insertion of a complete element.\<close>

lemma add_element_builds:
  assumes "builds j (f # st)" "name_ok f name"
    and add: "add = (let len = json_prefix_size j name + length raw; new = json_prefix j name @ raw
      in bind_result (json_insert j len new)
           (\<lambda>j'. Inr (j'\<lparr>buffer_offset := buffer_offset j' + length new, buffer_size := buffer_size j' + len, status := ZBX_JSON_COMMA\<rparr>)))"
    and "raw = render d"
  shows "\<exists>j'. add = Inr j' \<and> builds j' (add_el f (name_of name) d # st)"
proof -
  let ?new = "json_prefix j name @ raw"
  let ?len = "json_prefix_size j name + length raw"
  note p = builds_prefix [OF assms(1,2)]
  have wf: "json_wf j" and b: "json_text j = before (f # st) @ after (f # st)" "buffer_offset j = length (before (f # st))" "level j = int (Suc (length st))"
    using assms(1) by (simp_all add: builds_def)
  have n: "length ?new = ?len" using p(2) by simp
  obtain j1 where j1: "json_insert j ?len ?new = Inr j1" "buffer_offset j1 = buffer_offset j" "buffer_size j1 = buffer_size j" "level j1 = level j"
    and i: "\<And>i. buffer i = buffer j1 \<Longrightarrow> buffer_size i = buffer_size j + ?len \<Longrightarrow> buffer_offset i = buffer_offset j + ?len \<Longrightarrow>
      json_wf i \<and> json_text i = take (buffer_offset j) (json_text j) @ ?new @ drop (buffer_offset j) (json_text j)"
    using json_insert_text [OF wf n, of ?len] by auto
  let ?j = "j1\<lparr>buffer_offset := buffer_offset j1 + length ?new, buffer_size := buffer_size j1 + ?len, status := ZBX_JSON_COMMA\<rparr>"
  have e: "add = Inr ?j" using j1(1) by (simp add: add Let_def)
  have w: "json_wf ?j \<and> json_text ?j = before (f # st) @ ?new @ after (f # st)" using i [of ?j] j1(2,3) b n by simp
  have "before (add_el f (name_of name) d # st) = before (f # st) @ ?new" by (simp add: before_add p(1) assms(4))
  moreover have "after (add_el f (name_of name) d # st) = after (f # st)" "els (add_el f (name_of name) d) \<noteq> []"
    by (simp_all add: after_def frame_close_def add_el_def)
  ultimately have "builds ?j (add_el f (name_of name) d # st)" using w j1 b by (simp add: builds_def)
  then show ?thesis using e by blast
qed

lemma zbx_json_addstring_builds:
  assumes "builds j (f # st)" "name_ok f name" "zbx_json_insstring str type = render d"
  shows "\<exists>j'. zbx_json_addstring j name str type = Inr j' \<and> builds j' (add_el f (name_of name) d # st)"
  by (rule add_element_builds [OF assms(1,2) _ assms(3)]) (simp add: zbx_json_addstring_def length_insstring)

lemma zbx_json_addraw_builds:
  assumes "builds j (f # st)" "name_ok f name" "raw = render d"
  shows "\<exists>j'. zbx_json_addraw j name raw = Inr j' \<and> builds j' (add_el f (name_of name) d # st)"
  by (rule add_element_builds [OF assms(1,2) _ assms(3)]) (simp add: zbx_json_addraw_def)

lemma zbx_json_close_builds:
  assumes "builds j (f # g # st)"
  shows "\<exists>j'. zbx_json_close j = (SUCCEED, j') \<and> builds j' (add_el g (key f) (frame_doc f) # st)"
proof -
  let ?j = "j\<lparr>level := level j - 1, buffer_offset := buffer_offset j + 1, status := ZBX_JSON_COMMA\<rparr>"
  have b: "json_wf j" "json_text j = before (f # g # st) @ after (f # g # st)" "buffer_offset j = length (before (f # g # st))" "level j = int (Suc (Suc (length st)))"
    using assms by (simp_all add: builds_def)
  have "before (add_el g (key f) (frame_doc f) # st) = before (f # g # st) @ [frame_close f]" by (simp add: before_add render_frame)
  moreover have a: "after (f # g # st) = frame_close f # after (add_el g (key f) (frame_doc f) # st)" by (simp add: after_def frame_close_def add_el_def)
  moreover have "buffer_offset j + 1 \<le> buffer_size j"
  proof -
    obtain rest where "length (json_text j) = buffer_size j" by (rule json_wfE [OF b(1)])
    then have "buffer_size j = length (before (f # g # st)) + length (after (f # g # st))" unfolding b(2) by simp
    then show ?thesis using a b(3) by simp
  qed
  ultimately have "builds ?j (add_el g (key f) (frame_doc f) # st)"
    using b by (simp add: builds_def json_wf_def json_text_def) (simp add: add_el_def)
  moreover have "zbx_json_close j = (SUCCEED, ?j)" using b(4) by (simp add: zbx_json_close_def)
  ultimately show ?thesis by blast
qed

lemma zbx_json_close_top: "builds j [f] \<Longrightarrow> zbx_json_close j = (FAIL, j)"
  by (simp add: builds_def zbx_json_close_def)

text \<open>The outermost container.\<close>

lemma empty_json_addobject:
  assumes "0 < length mem"
  shows "\<exists>j. json_addobject (empty_json mem) None object = Inr j \<and> builds j [\<lparr>is_object = object, key = [], els = []\<rparr>]"
proof -
  let ?e = "empty_json mem" and ?f = "\<lparr>is_object = object, key = [], els = []\<rparr>"
  let ?new = "[if object then CHR 0x7B else CHR 0x5B, if object then CHR 0x7D else CHR 0x5D]"
  have wf: "json_wf ?e" and t: "json_text ?e = []" using assms by (simp_all add: json_wf_def json_text_def empty_json_def)
  have e0: "buffer_offset ?e = 0" "buffer_size ?e = 0" "level ?e = 0" by (simp_all add: empty_json_def)
  obtain j1 where j1: "json_insert ?e 2 ?new = Inr j1" "buffer_offset j1 = 0" "buffer_size j1 = 0" "level j1 = 0"
    and i: "\<And>i. buffer i = buffer j1 \<Longrightarrow> buffer_size i = 0 + 2 \<Longrightarrow> buffer_offset i = 0 + 1 \<Longrightarrow> json_wf i \<and> json_text i = take 0 [] @ ?new @ drop 0 []"
    using json_insert_text [OF wf, of ?new 2 1] unfolding e0 t by auto
  let ?j = "j1\<lparr>buffer_offset := 1, buffer_size := 2, level := 1, status := ZBX_JSON_EMPTY\<rparr>"
  have "json_addobject ?e None object = Inr ?j"
    using j1 by (cases object) (simp_all add: json_addobject_def Let_def json_prefix_def json_prefix_size_def empty_json_def)
  moreover have "builds ?j [?f]" using i [of ?j] by (simp add: builds_def frame_open_def after_def frame_close_def)
  ultimately show ?thesis by blast
qed

section \<open>Numbers\<close>

lemma dec_string_digits: "list_all isdigit (dec_string n) \<and> dec_string n \<noteq> []"
proof (induction n rule: dec_string.induct)
  case (1 n)
  have d: "isdigit (char_of (48 + k))" if "k < 10" for k :: nat using that by (simp add: isdigit_def)
  show ?case by (subst (1 2) dec_string.simps) (use 1 d [of n] d [of "n mod 10"] in simp)
qed

lemma dec_string_no_leading_zero: "hd (dec_string n) = CHR ''0'' \<Longrightarrow> length (dec_string n) = 1"
proof (induction n rule: dec_string.induct)
  case (1 n)
  show ?case
  proof (cases "n < 10")
    case True
    then show ?thesis by (subst dec_string.simps) simp
  next
    case False
    then have e: "dec_string n = dec_string (n div 10) @ [char_of (48 + n mod 10)]" by (subst dec_string.simps) simp
    have "hd (dec_string (n div 10)) = CHR ''0''" using "1.prems" dec_string_digits [of "n div 10"] by (simp add: e)
    with "1.IH" [OF False] have "length (dec_string (n div 10)) = 1" by simp
    then have l: "n div 10 < 10" using dec_string_digits [of "n div 10 div 10"] by (subst (asm) dec_string.simps) (auto split: if_splits)
    then have "dec_string (n div 10) = [char_of (48 + n div 10)]" by (subst dec_string.simps) simp
    then have "(of_char (char_of (48 + n div 10) :: char) :: nat) = of_char CHR ''0''" using \<open>hd (dec_string (n div 10)) = CHR ''0''\<close> by simp
    then have "n div 10 = 0" using l by simp
    then show ?thesis using False by simp
  qed
qed

lemma digits_number_text:
  assumes "list_all isdigit ds" "ds \<noteq> []" "hd ds = CHR ''0'' \<Longrightarrow> length ds = 1"
  shows "number_text ds" "number_text (CHR ''-'' # ds)"
proof -
  have e: "takeWhile isdigit ds = ds" "dropWhile isdigit ds = []" using assms(1) by (simp_all add: list_all_iff)
  have u: "number_unsigned ds"
    unfolding number_unsigned_def e Let_def using assms(2,3) by (simp add: number_fraction_def number_exponent_def)
  have "hd ds \<noteq> CHR ''-''" using assms(1,2) by (cases ds) (auto simp: isdigit_def)
  then show "number_text ds" "number_text (CHR ''-'' # ds)" using u assms(2) by (auto simp: number_text_def split: list.split)
qed

lemma int_string_token: "token_ok (dec_string n)" "token_ok (int_string i)"
  using digits_number_text [OF dec_string_digits [THEN conjunct1] dec_string_digits [THEN conjunct2] dec_string_no_leading_zero]
  by (auto simp: token_ok_def int_string_def)

text \<open>Nothing in a number or literal needs an escape.\<close>

lemma insstring_plain: "list_all (\<lambda>c. escape_char c = [c]) t \<Longrightarrow> zbx_json_insstring (Some t) ZBX_JSON_TYPE_INT = t"
  by (induction t) (auto simp: zbx_json_insstring_def)

lemma digit_plain: "isdigit c \<Longrightarrow> escape_char c = [c]" "escape_char CHR ''-'' = [CHR ''-'']"
proof -
  assume d: "isdigit c"
  have n: "c \<noteq> x" if "ord x < 48 \<or> 57 < ord x" for x using d that unfolding isdigit_def by fastforce
  have "escape_letter c = None" by (simp add: escape_letter_def n)
  moreover have "\<not> ord c \<le> 0x1F" using d unfolding isdigit_def by linarith
  ultimately show "escape_char c = [c]" unfolding escape_char_def by simp
qed (simp add: escape_char_def escape_letter_def)

lemma dec_string_plain: "list_all (\<lambda>c. escape_char c = [c]) (dec_string n)"
  by (rule list.pred_mono_strong [OF dec_string_digits [THEN conjunct1]]) (simp add: digit_plain)

lemma insstring_int: "zbx_json_insstring (Some (dec_string n)) ZBX_JSON_TYPE_INT = dec_string n"
  "zbx_json_insstring (Some (int_string i)) ZBX_JSON_TYPE_INT = int_string i"
  by (rule insstring_plain, simp add: int_string_def dec_string_plain digit_plain)+

lemma insstring_null: "zbx_json_insstring None type = ''null''"
  by (simp add: zbx_json_insstring_def escape_char_def escape_letter_def)

section \<open>Programs of builder calls\<close>

datatype json_op =
    Add_object "string option"
  | Add_array "string option"
  | Add_string "string option" "string option"
  | Add_uint64 "string option" u64
  | Add_int64 "string option" u64
  | Add_raw "string option" string
  | Close

fun json_step :: "json_op \<Rightarrow> zbx_json \<Rightarrow> zbx_json result" where
  "json_step (Add_object name) j = zbx_json_addobject j name"
| "json_step (Add_array name) j = zbx_json_addarray j name"
| "json_step (Add_string name str) j = zbx_json_addstring j name str ZBX_JSON_TYPE_STRING"
| "json_step (Add_uint64 name val) j = zbx_json_adduint64 j name val"
| "json_step (Add_int64 name val) j = zbx_json_addint64 j name val"
| "json_step (Add_raw name raw) j = zbx_json_addraw j name raw"
| "json_step Close j = Inr (snd (zbx_json_close j))"

fun json_run :: "json_op list \<Rightarrow> zbx_json \<Rightarrow> zbx_json result" where
  "json_run [] j = Inr j"
| "json_run (op # ops) j = bind_result (json_step op j) (json_run ops)"

text \<open>
  The same on documents.  The caller has to give a name exactly inside objects, and raw data that is a JSON
  token; closing the outermost container has no effect.
\<close>

fun op_el :: "json_op \<Rightarrow> (string option \<times> json_doc) option" where
  "op_el (Add_string name (Some str)) = Some (name, Doc_string str)"
| "op_el (Add_string name None) = Some (name, Doc_token ''null'')"
| "op_el (Add_uint64 name val) = Some (name, Doc_token (dec_string (unat val)))"
| "op_el (Add_int64 name val) = Some (name, Doc_token (int_string (sint val)))"
| "op_el (Add_raw name raw) = Some (name, Doc_token raw)"
| "op_el op = None"

fun abs_step :: "json_op \<Rightarrow> frame list \<Rightarrow> frame list option" where
  "abs_step op [] = None"
| "abs_step Close [f] = Some [f]"
| "abs_step Close (f # g # st) = Some (add_el g (key f) (frame_doc f) # st)"
| "abs_step (Add_object name) (f # st) = (if name_ok f name then Some (\<lparr>is_object = True, key = name_of name, els = []\<rparr> # f # st) else None)"
| "abs_step (Add_array name) (f # st) = (if name_ok f name then Some (\<lparr>is_object = False, key = name_of name, els = []\<rparr> # f # st) else None)"
| "abs_step op (f # st) =
     (case op_el op of
        Some (name, d) \<Rightarrow> if name_ok f name \<and> doc_ok d then Some (add_el f (name_of name) d # st) else None
      | None \<Rightarrow> None)"

fun abs_run :: "json_op list \<Rightarrow> frame list \<Rightarrow> frame list option" where
  "abs_run [] st = Some st"
| "abs_run (op # ops) st = (case abs_step op st of None \<Rightarrow> None | Some st \<Rightarrow> abs_run ops st)"

definition frames_ok :: "frame list \<Rightarrow> bool" where
  "frames_ok st \<longleftrightarrow> st \<noteq> [] \<and> list_all (\<lambda>f. list_all (\<lambda>(n, d). doc_ok d) (els f)) st"

lemma frame_doc_ok: "list_all (\<lambda>(n, d). doc_ok d) (els f) \<Longrightarrow> doc_ok (frame_doc f) \<and> is_container (frame_doc f)"
  by (auto simp: frame_doc_def list_all_iff)

lemma frames_ok_add: "frames_ok (f # st) \<Longrightarrow> doc_ok d \<Longrightarrow> frames_ok (add_el f n d # st)"
  by (simp add: frames_ok_def add_el_def)

lemma abs_step_ok:
  assumes "frames_ok st" "abs_step op st = Some st'"
  shows "frames_ok st'"
  using assms(2,1)
proof (induction op st rule: abs_step.induct)
  case (3 f g st)
  then show ?case using frame_doc_ok [of f] by (auto simp: frames_ok_def add_el_def)
qed (auto simp: frames_ok_def add_el_def split: if_splits option.splits)

lemma whole_ok: "frames_ok st \<Longrightarrow> doc_ok (whole st) \<and> is_container (whole st)"
proof (induction st rule: whole.induct)
  case (2 f)
  then show ?case using frame_doc_ok [of f] by (simp add: frames_ok_def)
next
  case (3 f g st)
  then show ?case using frame_doc_ok [of f] by (simp add: frames_ok_def add_el_def)
qed (simp add: frames_ok_def)

text \<open>Every call is simulated.\<close>

lemma json_step_builds:
  assumes "builds j st" "abs_step op st = Some st'"
  shows "\<exists>j'. json_step op j = Inr j' \<and> builds j' st'"
proof -
  obtain f fs where st: "st = f # fs" using assms(1) by (cases st) (auto simp: builds_def)
  note b = assms(1) [unfolded st]
  show ?thesis
  proof (cases op)
    case (Add_object name)
    then show ?thesis using assms(2) json_addobject_builds [OF b, of name True] by (auto simp: st zbx_json_addobject_def split: if_splits)
  next
    case (Add_array name)
    then show ?thesis using assms(2) json_addobject_builds [OF b, of name False] by (auto simp: st zbx_json_addarray_def split: if_splits)
  next
    case (Add_string name str)
    then show ?thesis
      using assms(2) zbx_json_addstring_builds [OF b, of name str] by (cases str) (auto simp: st quote_def insstring_null split: if_splits)
  next
    case (Add_uint64 name val)
    then show ?thesis
      using assms(2) zbx_json_addstring_builds [OF b, of name _ ZBX_JSON_TYPE_INT] by (auto simp: st zbx_json_adduint64_def insstring_int split: if_splits)
  next
    case (Add_int64 name val)
    then show ?thesis
      using assms(2) zbx_json_addstring_builds [OF b, of name _ ZBX_JSON_TYPE_INT] by (auto simp: st zbx_json_addint64_def insstring_int split: if_splits)
  next
    case (Add_raw name raw)
    then show ?thesis using assms(2) zbx_json_addraw_builds [OF b, of name raw "Doc_token raw"] by (auto simp: st split: if_splits)
  next
    case Close
    then show ?thesis
      using assms(2) b zbx_json_close_builds zbx_json_close_top by (cases fs) (fastforce simp: st)+
  qed
qed

lemma json_run_builds:
  "builds j st \<Longrightarrow> frames_ok st \<Longrightarrow> abs_run ops st = Some st' \<Longrightarrow> \<exists>j'. json_run ops j = Inr j' \<and> builds j' st' \<and> frames_ok st'"
proof (induction ops arbitrary: j st)
  case (Cons op ops)
  then obtain st1 where s: "abs_step op st = Some st1" "abs_run ops st1 = Some st'" by (auto split: option.splits)
  obtain j1 where j1: "json_step op j = Inr j1" "builds j1 st1" using json_step_builds [OF Cons.prems(1) s(1)] by blast
  then show ?case using Cons.IH [OF j1(2) abs_step_ok [OF Cons.prems(2) s(1)] s(2)] by simp
qed simp

lemma builds_text: "builds j st \<Longrightarrow> json_text j = render (whole st) \<and> buffer_size j = length (json_text j) \<and> json_wf j"
  using render_whole [of st] by (auto simp: builds_def elim!: json_wfE)

section \<open>Properties\<close>

text \<open>
  C10. After any sequence of builder calls in which names are given exactly inside objects, on a new object of any initial
  size, no byte outside the buffer was written, the buffer holds the text of the document under construction
  with all open containers closed, that text is valid JSON, and opening it gives the tree of the document.
\<close>

theorem json_builder_valid:
  assumes "abs_run ops [\<lparr>is_object = True, key = [], els = []\<rparr>] = Some st" "length (render (whole st)) \<le> fuel"
  shows "\<exists>j. bind_result (zbx_json_init allocate) (json_run ops) = Inr j \<and> json_wf j \<and> json_text j = render (whole st) \<and>
           zbx_json_validate fuel (json_text j) = Some (Inr (buffer_size j)) \<and> zbx_jsonobj_open fuel (json_text j) = Some (Inr (tree (whole st)))"
proof -
  have "0 < length (first_alloc allocate)" by (simp add: first_alloc_def)
  from empty_json_addobject [OF this, of True] obtain j0
    where j0: "zbx_json_init allocate = Inr j0" "builds j0 [\<lparr>is_object = True, key = [], els = []\<rparr>]"
    by (auto simp: zbx_json_init_def zbx_json_addobject_def)
  have "frames_ok [\<lparr>is_object = True, key = [], els = []\<rparr>]" by (simp add: frames_ok_def)
  from json_run_builds [OF j0(2) this assms(1)] obtain j
    where j: "json_run ops j0 = Inr j" "builds j st" "frames_ok st" by blast
  have "doc_ok (whole st)" "is_container (whole st)" using whole_ok [OF j(3)] by simp_all
  from render_valid [OF this assms(2)] show ?thesis using j j0(1) builds_text [OF j(2)] by auto
qed

theorem json_builder_valid_witness:
  "\<exists>j. bind_result (zbx_json_init 0) (json_run [Add_string (Some ''k'') (Some ''v''), Add_array (Some ''a''), Add_uint64 None 7, Close]) = Inr j \<and>
       json_text j = [CHR 0x7B] @ quote ''k'' @ '':'' @ quote ''v'' @ '','' @ quote ''a'' @ '':[7]'' @ [CHR 0x7D]"
proof -
  let ?ops = "[Add_string (Some ''k'') (Some ''v''), Add_array (Some ''a''), Add_uint64 None 7, Close]"
  let ?st = "[\<lparr>is_object = True, key = [], els = [(''k'', Doc_string ''v''), (''a'', Doc_array [Doc_token ''7''])]\<rparr>]"
  have a: "abs_run ?ops [\<lparr>is_object = True, key = [], els = []\<rparr>] = Some ?st" "length (render (whole ?st)) \<le> 99" by code_simp+
  show ?thesis using json_builder_valid [OF a, of 0] by (auto simp: frame_doc_def)
qed

end
