(* ===== verification/Shmem.thy ===== *)
theory Shmem
  imports Glb_Lock "HOL-Library.Monad_Syntax"
begin

text \<open>
  \<open>src/libs/zbxshmem/memalloc.c\<close>: the allocator of the shared memory segments in which the configuration, value
  and state caches live, on a machine with 8-byte pointers.

  The segment is a function from addresses to 64-bit cells; all the fields that the allocator itself reads and
  writes are aligned cells.  Addresses and sizes are natural numbers (a segment has at most 64 GB), the counters
  are 64-bit words.  The first-fit search follows pointers in the segment and is a partial function: \<open>None\<close> is a
  search that does not end.  Allocation failures are logged by the code; the statistics gathered for the
  log messages are left out.
\<close>

abbreviation (input) SHMEM_SIZE_FIELD :: nat where "SHMEM_SIZE_FIELD \<equiv> 8"
abbreviation (input) ZBX_PTR_SIZE :: nat where "ZBX_PTR_SIZE \<equiv> 8"
abbreviation (input) SHMEM_MIN_ALLOC :: nat where "SHMEM_MIN_ALLOC \<equiv> 24"
abbreviation (input) SHMEM_MAX_BUCKET_SIZE :: nat where "SHMEM_MAX_BUCKET_SIZE \<equiv> 256"
abbreviation (input) ZBX_SHMEM_BUCKET_COUNT :: nat where "ZBX_SHMEM_BUCKET_COUNT \<equiv> 30"
abbreviation (input) SHMEM_FLG_USED :: u64 where "SHMEM_FLG_USED \<equiv> 0x8000000000000000"
abbreviation (input) SHMEM_MIN_SIZE :: nat where "SHMEM_MIN_SIZE \<equiv> 128"
abbreviation (input) SHMEM_MAX_SIZE :: nat where "SHMEM_MAX_SIZE \<equiv> 0x1000000000"
abbreviation (input) NULL :: nat where "NULL \<equiv> 0"

type_synonym memory = "nat \<Rightarrow> u64"

record zbx_shmem_info =
  mem :: memory
  buckets :: "nat list"
  lo_bound :: nat
  hi_bound :: nat
  free_size :: u64
  used_size :: u64
  total_size :: u64
  allow_oom :: bool
  lock :: mutex

section \<open>Chunks\<close>

definition FREE_CHUNK :: "memory \<Rightarrow> nat \<Rightarrow> bool" where
  "FREE_CHUNK m ptr \<longleftrightarrow> m ptr AND SHMEM_FLG_USED = 0"

definition CHUNK_SIZE :: "memory \<Rightarrow> nat \<Rightarrow> nat" where
  "CHUNK_SIZE m ptr = unat (m ptr AND NOT SHMEM_FLG_USED)"

definition mem_proper_alloc_size :: "nat \<Rightarrow> nat" where
  "mem_proper_alloc_size sz =
     (if SHMEM_MIN_ALLOC \<le> sz then sz + ((8 - (sz AND 7)) AND 7) else SHMEM_MIN_ALLOC)"

definition mem_bucket_by_size :: "nat \<Rightarrow> nat" where
  "mem_bucket_by_size sz =
     (if sz < SHMEM_MIN_ALLOC then 0
      else if sz < SHMEM_MAX_BUCKET_SIZE then drop_bit 3 (sz - SHMEM_MIN_ALLOC)
      else ZBX_SHMEM_BUCKET_COUNT - 1)"

definition mem_set_chunk_size :: "memory \<Rightarrow> nat \<Rightarrow> nat \<Rightarrow> memory" where
  "mem_set_chunk_size m chunk sz = m(chunk := of_nat sz, chunk + SHMEM_SIZE_FIELD + sz := of_nat sz)"

definition mem_set_used_chunk_size :: "memory \<Rightarrow> nat \<Rightarrow> nat \<Rightarrow> memory" where
  "mem_set_used_chunk_size m chunk sz =
     m(chunk := SHMEM_FLG_USED OR of_nat sz, chunk + SHMEM_SIZE_FIELD + sz := SHMEM_FLG_USED OR of_nat sz)"

definition mem_get_prev_chunk :: "memory \<Rightarrow> nat \<Rightarrow> nat" where
  "mem_get_prev_chunk m chunk = unat (m (chunk + SHMEM_SIZE_FIELD))"

definition mem_set_prev_chunk :: "memory \<Rightarrow> nat \<Rightarrow> nat \<Rightarrow> memory" where
  "mem_set_prev_chunk m chunk prev = m(chunk + SHMEM_SIZE_FIELD := of_nat prev)"

definition mem_get_next_chunk :: "memory \<Rightarrow> nat \<Rightarrow> nat" where
  "mem_get_next_chunk m chunk = unat (m (chunk + SHMEM_SIZE_FIELD + ZBX_PTR_SIZE))"

definition mem_set_next_chunk :: "memory \<Rightarrow> nat \<Rightarrow> nat \<Rightarrow> memory" where
  "mem_set_next_chunk m chunk nxt = m(chunk + SHMEM_SIZE_FIELD + ZBX_PTR_SIZE := of_nat nxt)"

definition mem_link_chunk :: "zbx_shmem_info \<Rightarrow> nat \<Rightarrow> zbx_shmem_info" where
  "mem_link_chunk info chunk =
     (let index = mem_bucket_by_size (CHUNK_SIZE (mem info) chunk);
          head = buckets info ! index;
          m = (if head \<noteq> NULL then mem_set_prev_chunk (mem info) head chunk else mem info);
          m = mem_set_prev_chunk m chunk NULL;
          m = mem_set_next_chunk m chunk head
      in info\<lparr>mem := m, buckets := (buckets info)[index := chunk]\<rparr>)"

text \<open>
  The C code takes the addresses of the two fields to change first: the next field of the previous chunk, or
  the bucket itself when there is none, and the previous field of the next chunk.
\<close>

definition mem_unlink_chunk :: "zbx_shmem_info \<Rightarrow> nat \<Rightarrow> zbx_shmem_info" where
  "mem_unlink_chunk info chunk =
     (let index = mem_bucket_by_size (CHUNK_SIZE (mem info) chunk);
          prev_chunk = mem_get_prev_chunk (mem info) chunk;
          next_chunk = mem_get_next_chunk (mem info) chunk;
          info = (if prev_chunk \<noteq> NULL then info\<lparr>mem := mem_set_next_chunk (mem info) prev_chunk next_chunk\<rparr>
                  else info\<lparr>buckets := (buckets info)[index := next_chunk]\<rparr>)
      in if next_chunk \<noteq> NULL then info\<lparr>mem := mem_set_prev_chunk (mem info) next_chunk prev_chunk\<rparr> else info)"

section \<open>Private operations\<close>

function find_bucket :: "nat list \<Rightarrow> nat \<Rightarrow> nat" where
  "find_bucket bs index =
     (if index < ZBX_SHMEM_BUCKET_COUNT - 1 \<and> bs ! index = NULL then find_bucket bs (index + 1) else index)"
  by auto
termination by (relation "measure (\<lambda>(bs, index). ZBX_SHMEM_BUCKET_COUNT - index)") auto

declare find_bucket.simps [simp del]

partial_function (option) first_fit :: "memory \<Rightarrow> nat \<Rightarrow> nat \<Rightarrow> nat option" where
  "first_fit m sz chunk =
     (if chunk \<noteq> NULL \<and> CHUNK_SIZE m chunk < sz then first_fit m sz (mem_get_next_chunk m chunk) else Some chunk)"

text \<open>The end of an allocation, shared by \<open>__mem_malloc\<close> and \<open>__mem_realloc\<close>: use the whole chunk or split it.\<close>

definition use_or_split :: "zbx_shmem_info \<Rightarrow> nat \<Rightarrow> nat \<Rightarrow> nat \<Rightarrow> zbx_shmem_info" where
  "use_or_split info chunk chunk_size sz =
     (if chunk_size < sz + 2 * SHMEM_SIZE_FIELD + SHMEM_MIN_ALLOC then
        info\<lparr>used_size := used_size info + of_nat chunk_size, free_size := free_size info - of_nat chunk_size,
          mem := mem_set_used_chunk_size (mem info) chunk chunk_size\<rparr>
      else
        (let new_chunk = chunk + SHMEM_SIZE_FIELD + sz + SHMEM_SIZE_FIELD;
             new_chunk_size = chunk_size - sz - 2 * SHMEM_SIZE_FIELD;
             info = mem_link_chunk (info\<lparr>mem := mem_set_chunk_size (mem info) new_chunk new_chunk_size\<rparr>) new_chunk
         in info\<lparr>used_size := used_size info + of_nat sz,
              free_size := free_size info - of_nat chunk_size + of_nat new_chunk_size,
              mem := mem_set_used_chunk_size (mem info) chunk sz\<rparr>))"

definition mem_malloc :: "zbx_shmem_info \<Rightarrow> nat \<Rightarrow> (zbx_shmem_info \<times> nat) option" where
  "mem_malloc info sz =
     (let sz = mem_proper_alloc_size sz;
          index = find_bucket (buckets info) (mem_bucket_by_size sz)
      in do {
        chunk \<leftarrow> (if index = ZBX_SHMEM_BUCKET_COUNT - 1 then first_fit (mem info) sz (buckets info ! index)
                  else Some (buckets info ! index));
        if chunk = NULL then Some (info, NULL)
        else
          (let chunk_size = CHUNK_SIZE (mem info) chunk
           in Some (use_or_split (mem_unlink_chunk info chunk) chunk chunk_size sz, chunk))
      })"

definition mem_free :: "zbx_shmem_info \<Rightarrow> nat \<Rightarrow> zbx_shmem_info" where
  "mem_free info ptr =
     (let chunk = ptr - SHMEM_SIZE_FIELD;
          chunk_size = CHUNK_SIZE (mem info) chunk;
          info = info\<lparr>used_size := used_size info - of_nat chunk_size, free_size := free_size info + of_nat chunk_size\<rparr>;
          next_chunk = chunk + SHMEM_SIZE_FIELD + chunk_size + SHMEM_SIZE_FIELD;
          prev_free = (lo_bound info < chunk \<and> FREE_CHUNK (mem info) (chunk - SHMEM_SIZE_FIELD));
          next_free = (next_chunk < hi_bound info \<and> FREE_CHUNK (mem info) next_chunk);
          prev_chunk = chunk - SHMEM_SIZE_FIELD - CHUNK_SIZE (mem info) (chunk - SHMEM_SIZE_FIELD) - SHMEM_SIZE_FIELD
      in if prev_free \<and> next_free then
           (let info = info\<lparr>free_size := free_size info + of_nat (4 * SHMEM_SIZE_FIELD)\<rparr>;
                chunk_size = chunk_size + 4 * SHMEM_SIZE_FIELD + CHUNK_SIZE (mem info) prev_chunk + CHUNK_SIZE (mem info) next_chunk;
                info = mem_unlink_chunk (mem_unlink_chunk info prev_chunk) next_chunk
            in mem_link_chunk (info\<lparr>mem := mem_set_chunk_size (mem info) prev_chunk chunk_size\<rparr>) prev_chunk)
         else if prev_free then
           (let info = info\<lparr>free_size := free_size info + of_nat (2 * SHMEM_SIZE_FIELD)\<rparr>;
                chunk_size = chunk_size + 2 * SHMEM_SIZE_FIELD + CHUNK_SIZE (mem info) prev_chunk;
                info = mem_unlink_chunk info prev_chunk
            in mem_link_chunk (info\<lparr>mem := mem_set_chunk_size (mem info) prev_chunk chunk_size\<rparr>) prev_chunk)
         else if next_free then
           (let info = info\<lparr>free_size := free_size info + of_nat (2 * SHMEM_SIZE_FIELD)\<rparr>;
                chunk_size = chunk_size + 2 * SHMEM_SIZE_FIELD + CHUNK_SIZE (mem info) next_chunk;
                info = mem_unlink_chunk info next_chunk
            in mem_link_chunk (info\<lparr>mem := mem_set_chunk_size (mem info) chunk chunk_size\<rparr>) chunk)
         else mem_link_chunk (info\<lparr>mem := mem_set_chunk_size (mem info) chunk chunk_size\<rparr>) chunk)"

text \<open>\<open>memcpy\<close> of a multiple of eight bytes between regions that do not overlap.\<close>

definition mem_copy :: "memory \<Rightarrow> nat \<Rightarrow> memory \<Rightarrow> nat \<Rightarrow> nat \<Rightarrow> memory" where
  "mem_copy m dst m' src n = (\<lambda>a. if dst \<le> a \<and> a < dst + n then m' (src + (a - dst)) else m a)"

text \<open>The branches of \<open>__mem_realloc\<close>: shrink in place, grow into the next chunk, move.\<close>

definition realloc_shrink :: "zbx_shmem_info \<Rightarrow> nat \<Rightarrow> nat \<Rightarrow> nat \<Rightarrow> bool \<Rightarrow> nat \<Rightarrow> zbx_shmem_info" where
  "realloc_shrink info chunk chunk_size next_chunk next_free sz =
     (let new_chunk = chunk + SHMEM_SIZE_FIELD + sz + SHMEM_SIZE_FIELD
      in if next_free then
           (let info = info\<lparr>used_size := used_size info - of_nat (chunk_size - sz),
                  free_size := free_size info + of_nat (chunk_size - sz)\<rparr>;
                new_chunk_size = CHUNK_SIZE (mem info) next_chunk + (chunk_size - sz);
                info = mem_unlink_chunk info next_chunk;
                info = mem_link_chunk (info\<lparr>mem := mem_set_chunk_size (mem info) new_chunk new_chunk_size\<rparr>) new_chunk
            in info\<lparr>mem := mem_set_used_chunk_size (mem info) chunk sz\<rparr>)
         else
           (let info = info\<lparr>used_size := used_size info - of_nat (chunk_size - sz),
                  free_size := free_size info + of_nat (chunk_size - sz - 2 * SHMEM_SIZE_FIELD)\<rparr>;
                new_chunk_size = chunk_size - sz - 2 * SHMEM_SIZE_FIELD;
                info = mem_link_chunk (info\<lparr>mem := mem_set_chunk_size (mem info) new_chunk new_chunk_size\<rparr>) new_chunk
            in info\<lparr>mem := mem_set_used_chunk_size (mem info) chunk sz\<rparr>))"

definition realloc_grow :: "zbx_shmem_info \<Rightarrow> nat \<Rightarrow> nat \<Rightarrow> nat \<Rightarrow> nat \<Rightarrow> zbx_shmem_info" where
  "realloc_grow info chunk chunk_size next_chunk sz =
     (let info = info\<lparr>used_size := used_size info - of_nat chunk_size,
            free_size := free_size info + of_nat (chunk_size + 2 * SHMEM_SIZE_FIELD)\<rparr>;
          chunk_size = chunk_size + 2 * SHMEM_SIZE_FIELD + CHUNK_SIZE (mem info) next_chunk
      in use_or_split (mem_unlink_chunk info next_chunk) chunk chunk_size sz)"

definition realloc_room :: "zbx_shmem_info \<Rightarrow> nat \<Rightarrow> nat \<Rightarrow> nat \<Rightarrow> bool \<Rightarrow> nat" where
  "realloc_room info chunk chunk_size next_chunk next_free =
     chunk_size + (if next_free then CHUNK_SIZE (mem info) next_chunk + 2 * SHMEM_SIZE_FIELD else 0)
     + (if lo_bound info < chunk \<and> FREE_CHUNK (mem info) (chunk - SHMEM_SIZE_FIELD)
        then CHUNK_SIZE (mem info) (chunk - SHMEM_SIZE_FIELD) + 2 * SHMEM_SIZE_FIELD else 0)"

definition mem_realloc :: "zbx_shmem_info \<Rightarrow> nat \<Rightarrow> nat \<Rightarrow> (zbx_shmem_info \<times> nat) result option" where
  "mem_realloc info old sz =
     (let sz = mem_proper_alloc_size sz;
          chunk = old - SHMEM_SIZE_FIELD;
          chunk_size = CHUNK_SIZE (mem info) chunk;
          next_chunk = chunk + SHMEM_SIZE_FIELD + chunk_size + SHMEM_SIZE_FIELD;
          next_free = (next_chunk < hi_bound info \<and> FREE_CHUNK (mem info) next_chunk)
      in if sz \<le> chunk_size then
           (if chunk_size div 4 < sz then Some (Inr (info, chunk))
            else Some (Inr (realloc_shrink info chunk chunk_size next_chunk next_free sz, chunk)))
         else if next_free \<and> sz \<le> chunk_size + 2 * SHMEM_SIZE_FIELD + CHUNK_SIZE (mem info) next_chunk then
           Some (Inr (realloc_grow info chunk chunk_size next_chunk sz, chunk))
         else do {
           (info, new_chunk) \<leftarrow> mem_malloc info sz;
           if new_chunk \<noteq> NULL then
             (let info = info\<lparr>mem := mem_copy (mem info) (new_chunk + SHMEM_SIZE_FIELD) (mem info) (chunk + SHMEM_SIZE_FIELD) chunk_size\<rparr>
              in Some (Inr (mem_free info old, new_chunk)))
           else if realloc_room info chunk chunk_size next_chunk next_free < sz then Some (Inr (info, NULL))
           else
             (let tmp = mem info
              in do {
                (info, new_chunk) \<leftarrow> mem_malloc (mem_free info old) sz;
                if new_chunk = NULL then Some (Inl ExitFailure)
                else Some (Inr (info\<lparr>mem := mem_copy (mem info) (new_chunk + SHMEM_SIZE_FIELD) tmp (chunk + SHMEM_SIZE_FIELD) chunk_size\<rparr>, new_chunk))
              })
         })"

section \<open>Public operations\<close>

text \<open>A result of 0 is the NULL pointer, which is only returned when the segment allows to run out of memory.\<close>

definition locked :: "zbx_shmem_info \<Rightarrow> (zbx_shmem_info \<Rightarrow> (zbx_shmem_info \<times> 'a) result option) \<Rightarrow> (zbx_shmem_info \<times> 'a) result option" where
  "locked info f =
     (case glb_lock_block (lock info) of
        Inl e \<Rightarrow> Some (Inl e)
      | Inr l \<Rightarrow> do {
          r \<leftarrow> f (info\<lparr>lock := l\<rparr>);
          Some (bind_result r (\<lambda>(info, x). Inr (info\<lparr>lock := glb_lock_unlock (lock info)\<rparr>, x)))
        })"

definition check_chunk :: "(zbx_shmem_info \<times> nat) result option \<Rightarrow> (zbx_shmem_info \<times> nat) result option" where
  "check_chunk r = do {
     r \<leftarrow> r;
     Some (bind_result r (\<lambda>(info, chunk).
       if chunk = NULL then (if allow_oom info then Inr (info, NULL) else Inl ExitFailure)
       else Inr (info, chunk + SHMEM_SIZE_FIELD)))
   }"

definition zbx_shmem_malloc :: "zbx_shmem_info \<Rightarrow> nat \<Rightarrow> nat \<Rightarrow> (zbx_shmem_info \<times> nat) result option" where
  "zbx_shmem_malloc info old sz =
     (if old \<noteq> NULL then Some (Inl ExitFailure)
      else if sz = 0 \<or> SHMEM_MAX_SIZE < sz then Some (Inl ExitFailure)
      else check_chunk (locked info (\<lambda>info. map_option Inr (mem_malloc info sz))))"

definition zbx_shmem_realloc :: "zbx_shmem_info \<Rightarrow> nat \<Rightarrow> nat \<Rightarrow> (zbx_shmem_info \<times> nat) result option" where
  "zbx_shmem_realloc info old sz =
     (if sz = 0 \<or> SHMEM_MAX_SIZE < sz then Some (Inl ExitFailure)
      else check_chunk (locked info (\<lambda>info.
        if old = NULL then map_option Inr (mem_malloc info sz) else mem_realloc info old sz)))"

definition zbx_shmem_free :: "zbx_shmem_info \<Rightarrow> nat \<Rightarrow> (zbx_shmem_info \<times> unit) result option" where
  "zbx_shmem_free info ptr =
     (if ptr = NULL then Some (Inl ExitFailure)
      else locked info (\<lambda>info. Some (Inr (mem_free info ptr, ()))))"

text \<open>One big chunk, as \<open>zbx_shmem_create\<close> and \<open>zbx_shmem_clear\<close> leave it.\<close>

definition one_chunk :: "zbx_shmem_info \<Rightarrow> zbx_shmem_info" where
  "one_chunk info =
     (let total = unat (total_size info);
          m = mem_set_chunk_size (mem info) (lo_bound info) total;
          m = mem_set_prev_chunk m (lo_bound info) NULL;
          m = mem_set_next_chunk m (lo_bound info) NULL
      in info\<lparr>buckets := (replicate ZBX_SHMEM_BUCKET_COUNT NULL)[mem_bucket_by_size total := lo_bound info],
           mem := m, used_size := 0, free_size := total_size info\<rparr>)"

definition zbx_shmem_clear :: "zbx_shmem_info \<Rightarrow> (zbx_shmem_info \<times> unit) result option" where
  "zbx_shmem_clear info = locked info (\<lambda>info. Some (Inr (one_chunk info, ())))"

text \<open>
  The system calls that reserve and attach the segment are an argument: the address at which the segment is
  attached, or \<open>None\<close> when one of them fails.  The size of \<open>zbx_shmem_info_t\<close> depends on the platform and is an
  argument too.  The arithmetic is that of 64-bit addresses and sizes.  The copies of the description and of the
  parameter name stand before \<open>lo_bound\<close> and are not part of the modelled memory.
\<close>

definition ALIGN8 :: "u64 \<Rightarrow> u64" where
  "ALIGN8 ptr = (ptr + 7) AND NOT 7"

definition zbx_shmem_create ::
  "nat \<Rightarrow> u64 option \<Rightarrow> memory \<Rightarrow> u64 \<Rightarrow> string \<Rightarrow> string \<Rightarrow> bool \<Rightarrow> int \<times> zbx_shmem_info option" where
  "zbx_shmem_create info_size attached m sz descr param oom =
     (if \<not> (of_nat SHMEM_MIN_SIZE \<le> sz \<and> sz \<le> of_nat SHMEM_MAX_SIZE) then (FAIL, None)
      else
        (case attached of
           None \<Rightarrow> (FAIL, None)
         | Some base \<Rightarrow>
             (let info = ALIGN8 base;
                  sz = sz - (info + of_nat info_size - base);
                  base = info + of_nat info_size;
                  bucket_array = ALIGN8 base;
                  sz = sz - (bucket_array + of_nat (ZBX_SHMEM_BUCKET_COUNT * ZBX_PTR_SIZE) - base);
                  base = bucket_array + of_nat (ZBX_SHMEM_BUCKET_COUNT * ZBX_PTR_SIZE);
                  sz = sz - of_nat (length descr + 1);
                  base = base + of_nat (length descr + 1);
                  sz = sz - of_nat (length param + 1);
                  base = base + of_nat (length param + 1);
                  lo = ALIGN8 base;
                  hi = ALIGN8 (base + sz - 8)
              in (SUCCEED, Some (one_chunk
                   \<lparr>mem = m, buckets = replicate ZBX_SHMEM_BUCKET_COUNT NULL, lo_bound = unat lo, hi_bound = unat hi,
                    free_size = 0, used_size = 0, total_size = hi - lo - of_nat (2 * SHMEM_SIZE_FIELD),
                    allow_oom = oom, lock = glb_lock_init\<rparr>)))))"

definition create_min_size :: "nat \<Rightarrow> u64 \<Rightarrow> string \<Rightarrow> string \<Rightarrow> u64" where
  "create_min_size info_size sz descr param =
     (let base = ALIGN8 (of_nat info_size) + of_nat (ZBX_SHMEM_BUCKET_COUNT * ZBX_PTR_SIZE);
          base = ALIGN8 (base + of_nat (length descr + 1) + of_nat (length param + 1))
      in sz + base + 8 + of_nat (2 * SHMEM_SIZE_FIELD))"

definition zbx_shmem_create_min ::
  "nat \<Rightarrow> u64 option \<Rightarrow> memory \<Rightarrow> u64 \<Rightarrow> string \<Rightarrow> string \<Rightarrow> bool \<Rightarrow> int \<times> zbx_shmem_info option" where
  "zbx_shmem_create_min info_size attached m sz descr param oom =
     zbx_shmem_create info_size attached m (create_min_size info_size sz descr param) descr param oom"

definition zbx_shmem_required_size :: "nat \<Rightarrow> int \<Rightarrow> string \<Rightarrow> string \<Rightarrow> u64" where
  "zbx_shmem_required_size info_size chunks_num descr param =
     7 + of_nat info_size + of_nat (ZBX_PTR_SIZE - 1) + of_nat (ZBX_PTR_SIZE * ZBX_SHMEM_BUCKET_COUNT)
     + of_nat (length descr + 1) + of_nat (length param + 1)
     + of_nat ((SHMEM_SIZE_FIELD - 1) + 8) + of_nat ((SHMEM_SIZE_FIELD - 1) + 8)
     + of_int (chunks_num - 1) * of_nat SHMEM_SIZE_FIELD * 2 + of_int chunks_num * of_nat (SHMEM_MIN_ALLOC - 1)"

definition zbx_shmem_required_chunk_size :: "nat \<Rightarrow> nat" where
  "zbx_shmem_required_chunk_size sz = (if sz = 0 then 0 else mem_proper_alloc_size sz + SHMEM_SIZE_FIELD * 2)"

section \<open>Statistics\<close>

record zbx_shmem_stats =
  st_free_size :: u64
  st_used_size :: u64
  st_min_chunk_size :: u64
  st_max_chunk_size :: u64
  st_overhead :: u64
  st_chunks_num :: "u32 list"
  st_free_chunks :: u32
  st_used_chunks :: u32

text \<open>The walk through one bucket: the counter, the least and the greatest size so far.\<close>

partial_function (option) bucket_walk :: "memory \<Rightarrow> nat \<Rightarrow> u64 \<Rightarrow> u64 \<Rightarrow> u64 \<Rightarrow> (u64 \<times> u64 \<times> u64) option" where
  "bucket_walk m chunk counter lo hi =
     (if chunk = NULL then Some (counter, lo, hi)
      else
        (let sz = of_nat (CHUNK_SIZE m chunk)
         in bucket_walk m (mem_get_next_chunk m chunk) (counter + 1) (min lo sz) (max hi sz)))"

fun bucket_loop :: "memory \<Rightarrow> nat list \<Rightarrow> zbx_shmem_stats \<Rightarrow> zbx_shmem_stats option" where
  "bucket_loop m [] stats = Some stats"
| "bucket_loop m (chunk # bs) stats = do {
     (counter, lo, hi) \<leftarrow> bucket_walk m chunk 0 (st_min_chunk_size stats) (st_max_chunk_size stats);
     bucket_loop m bs (stats\<lparr>st_min_chunk_size := lo, st_max_chunk_size := hi,
       st_free_chunks := st_free_chunks stats + ucast counter, st_chunks_num := st_chunks_num stats @ [ucast counter]\<rparr>)
   }"

definition zbx_shmem_get_stats :: "zbx_shmem_info \<Rightarrow> zbx_shmem_stats result option" where
  "zbx_shmem_get_stats info =
     map_option (\<lambda>r. bind_result r (\<lambda>(info, stats). Inr stats))
       (locked info (\<lambda>info. do {
          stats \<leftarrow> bucket_loop (mem info) (buckets info)
            \<lparr>st_free_size = 0, st_used_size = 0, st_min_chunk_size = - 1, st_max_chunk_size = 0, st_overhead = 0,
             st_chunks_num = [], st_free_chunks = 0, st_used_chunks = 0\<rparr>;
          (let overhead = total_size info - used_size info - free_size info
           in Some (Inr (info, stats\<lparr>st_overhead := overhead,
                st_used_chunks := ucast (overhead div of_nat (2 * SHMEM_SIZE_FIELD) + 1 - ucast (st_free_chunks stats)),
                st_free_size := free_size info, st_used_size := used_size info\<rparr>)))
        }))"

end
