(* ===== verification/Shmem_Heap.thy ===== *)
theory Shmem_Heap
  imports Shmem
begin

text \<open>
  The structure of the shared memory segment: chunks that carry their size and state at both ends, and free
  chunks in doubly linked lists, one list per bucket.  The facts are about sets of chunks, so that an
  operation is a sequence of steps that take a chunk out, write into the hole and put chunks in.
\<close>

section \<open>Size fields\<close>

definition chunk_tag :: "bool \<Rightarrow> nat \<Rightarrow> u64" where
  "chunk_tag u s = (if u then SHMEM_FLG_USED OR of_nat s else of_nat s)"

lemma flag_bit:
  obtains f :: u64 where "SHMEM_FLG_USED = f" "\<And>n. bit f n \<longleftrightarrow> n = 63"
proof
  show "SHMEM_FLG_USED = (2 :: u64) ^ 63" by simp
  show "bit ((2 :: u64) ^ 63) n \<longleftrightarrow> n = 63" for n by (simp only: bit_exp_iff possible_bit_word len_num0 len_bit0 len_num1 len_bit1) auto
qed

lemma small_bit: "s < 2 ^ 63 \<Longrightarrow> \<not> bit (of_nat s :: u64) 63"
proof
  assume s: "s < 2 ^ 63" and "bit (of_nat s :: u64) 63"
  then have "bit (unat (of_nat s :: u64)) 63" by (simp add: bit_unsigned_iff)
  then have "bit s 63" using s by (simp add: unat_of_nat)
  then show False using s by (simp add: bit_iff_odd)
qed

lemma chunk_tag_simps:
  assumes "s < 2 ^ 63"
  shows "unat (chunk_tag u s AND NOT SHMEM_FLG_USED) = s" "chunk_tag u s AND SHMEM_FLG_USED = 0 \<longleftrightarrow> \<not> u"
proof -
  obtain f :: u64 where f: "SHMEM_FLG_USED = f" "\<And>n. bit f n \<longleftrightarrow> n = 63" using flag_bit by blast
  note b = small_bit [OF assms] f(2)
  have "chunk_tag u s AND NOT f = of_nat s"
    by (rule bit_word_eqI) (use b in \<open>auto simp: chunk_tag_def f(1) bit_and_iff bit_or_iff bit_not_iff\<close>)
  then show "unat (chunk_tag u s AND NOT SHMEM_FLG_USED) = s" unfolding f(1) using assms by (simp add: unat_of_nat)
  have "chunk_tag u s AND f = (if u then f else 0)"
    by (rule bit_word_eqI) (use b in \<open>auto simp: chunk_tag_def f(1) bit_and_iff bit_or_iff\<close>)
  moreover have "f \<noteq> 0" using f(1) by force
  ultimately show "chunk_tag u s AND SHMEM_FLG_USED = 0 \<longleftrightarrow> \<not> u" unfolding f(1) by simp
qed

section \<open>Doubly linked lists\<close>

fun chain :: "memory \<Rightarrow> nat \<Rightarrow> nat \<Rightarrow> nat list \<Rightarrow> nat \<Rightarrow> nat \<Rightarrow> bool" where
  "chain m prev p [] l r \<longleftrightarrow> l = prev \<and> r = p"
| "chain m prev p (q # qs) l r \<longleftrightarrow>
     p = q \<and> q \<noteq> NULL \<and> mem_get_prev_chunk m q = prev \<and> chain m q (mem_get_next_chunk m q) qs l r"

definition free_list :: "memory \<Rightarrow> nat \<Rightarrow> nat list \<Rightarrow> bool" where
  "free_list m h ps \<longleftrightarrow> (\<exists>l. chain m NULL h ps l NULL)"

lemma link_fields:
  "mem_get_prev_chunk m p = unat (m (p + 8))" "mem_get_next_chunk m p = unat (m (p + 16))"
  "mem_set_prev_chunk m p q = m(p + 8 := of_nat q)" "mem_set_next_chunk m p q = m(p + 16 := of_nat q)"
  by (simp_all add: mem_get_prev_chunk_def mem_get_next_chunk_def mem_set_prev_chunk_def mem_set_next_chunk_def add.assoc)

lemma chain_append: "chain m prev p (xs @ ys) l r \<longleftrightarrow> (\<exists>b q. chain m prev p xs b q \<and> chain m b q ys l r)"
  by (induction xs arbitrary: prev p) auto

lemma chain_last: "chain m prev p xs l r \<Longrightarrow> l = (if xs = [] then prev else last xs)"
  by (induction xs arbitrary: prev p) auto

lemma chain_head: "chain m prev p xs l r \<Longrightarrow> p = (if xs = [] then r else hd xs)"
  by (induction xs arbitrary: prev p) auto

lemma chain_nonnull: "chain m prev p xs l r \<Longrightarrow> NULL \<notin> set xs"
  by (induction xs arbitrary: prev p) auto

lemma chain_frame:
  "chain m prev p xs l r \<Longrightarrow> \<forall>q \<in> set xs. m' (q + 8) = m (q + 8) \<and> m' (q + 16) = m (q + 16) \<Longrightarrow> chain m' prev p xs l r"
  by (induction xs arbitrary: prev p) (auto simp: link_fields)

lemma mem_set_get [simp]:
  "q < 2 ^ 64 \<Longrightarrow> mem_get_prev_chunk (mem_set_prev_chunk m p q) p = q"
  "q < 2 ^ 64 \<Longrightarrow> mem_get_next_chunk (mem_set_next_chunk m p q) p = q"
  "mem_get_prev_chunk (mem_set_next_chunk m p r) p = mem_get_prev_chunk m p"
  "mem_get_next_chunk (mem_set_prev_chunk m p r) p = mem_get_next_chunk m p"
  by (simp_all add: link_fields unat_of_nat)

definition spaced :: "nat set \<Rightarrow> bool" where
  "spaced A \<longleftrightarrow> (\<forall>p \<in> A. p < 2 ^ 64 \<and> (\<forall>q \<in> A. p = q \<or> p + 40 \<le> q \<or> q + 40 \<le> p))"

lemma spacedD: "spaced A \<Longrightarrow> p \<in> A \<Longrightarrow> q \<in> A \<Longrightarrow> p \<noteq> q \<Longrightarrow> p + 40 \<le> q \<or> q + 40 \<le> p"
  by (auto simp: spaced_def)

lemma spaced_less: "spaced A \<Longrightarrow> p \<in> A \<Longrightarrow> p < 2 ^ 64"
  by (auto simp: spaced_def)

lemma spaced_links:
  assumes "spaced A" "p \<in> A" "q \<in> A" "p \<noteq> q"
  shows "mem_set_next_chunk m p r (q + 8) = m (q + 8)" "mem_set_next_chunk m p r (q + 16) = m (q + 16)"
    "mem_set_prev_chunk m p r (q + 8) = m (q + 8)" "mem_set_prev_chunk m p r (q + 16) = m (q + 16)"
  using spacedD [OF assms] by (auto simp: link_fields)

lemma chain_set_next:
  assumes "chain m prev p (xs @ [x]) x r" "distinct (xs @ [x])" "spaced (set (xs @ [x]))" "n < 2 ^ 64"
  shows "chain (mem_set_next_chunk m x n) prev p (xs @ [x]) x n"
proof -
  from assms(1) obtain b where "chain m prev p xs b x" "x \<noteq> NULL" "mem_get_prev_chunk m x = b" by (auto simp: chain_append)
  moreover have "chain (mem_set_next_chunk m x n) prev p xs b x"
    by (rule chain_frame [OF \<open>chain m prev p xs b x\<close>]) (use assms(2) in \<open>auto intro!: spaced_links [OF assms(3)]\<close>)
  ultimately show ?thesis using assms(4) by (auto simp: chain_append)
qed

lemma chain_set_prev:
  assumes "chain m prev p (x # xs) l r" "distinct (x # xs)" "spaced (set (x # xs))" "n < 2 ^ 64"
  shows "chain (mem_set_prev_chunk m x n) n p (x # xs) l r"
proof -
  from assms(1) have "p = x" "x \<noteq> NULL" "chain m x (mem_get_next_chunk m x) xs l r" by auto
  moreover have "chain (mem_set_prev_chunk m x n) x (mem_get_next_chunk m x) xs l r"
    by (rule chain_frame [OF \<open>chain m x (mem_get_next_chunk m x) xs l r\<close>]) (use assms(2) in \<open>auto intro!: spaced_links [OF assms(3)]\<close>)
  ultimately show ?thesis using assms(4) by simp
qed

lemma free_list_remove:
  assumes "free_list m h (xs @ p # ys)" "distinct (xs @ p # ys)" "spaced (set (xs @ p # ys))"
  defines "a \<equiv> mem_get_prev_chunk m p" and "b \<equiv> mem_get_next_chunk m p"
  defines "m1 \<equiv> (if a \<noteq> NULL then mem_set_next_chunk m a b else m)"
  shows "a = (if xs = [] then NULL else last xs)" "b = (if ys = [] then NULL else hd ys)"
    "free_list (if b \<noteq> NULL then mem_set_prev_chunk m1 b a else m1) (if a \<noteq> NULL then h else b) (xs @ ys)"
proof -
  from assms(1) obtain l where c: "chain m NULL h xs a p" "chain m p b ys l NULL" "p \<noteq> NULL"
    by (auto simp: free_list_def chain_append a_def b_def)
  show a: "a = (if xs = [] then NULL else last xs)" using chain_last [OF c(1)] by simp
  show b: "b = (if ys = [] then NULL else hd ys)" using chain_head [OF c(2)] by simp
  have ne: "NULL \<notin> set xs" "NULL \<notin> set ys" using chain_nonnull [OF c(1)] chain_nonnull [OF c(2)] by blast+
  have sp: "spaced (set (xs @ ys))" "spaced (set xs)" "spaced (set ys)" using assms(3) by (auto simp: spaced_def)
  have less: "a < 2 ^ 64" "b < 2 ^ 64" using a b spaced_less [OF sp(1), of a] spaced_less [OF sp(1), of b] by (cases "xs = []"; cases "ys = []"; simp)+
  let ?h = "if a \<noteq> NULL then h else b"
  have x: "chain m1 NULL ?h xs a b \<and> chain m1 p b ys l NULL"
  proof (cases xs rule: rev_cases)
    case Nil
    then show ?thesis using c a by (simp add: m1_def)
  next
    case (snoc zs z)
    then have z: "a = z" "z \<noteq> NULL" using a ne by auto
    have "chain m1 NULL h xs a b"
      unfolding m1_def snoc z(1) using z(2) chain_set_next [of m NULL h zs z p b] c(1) assms(2) sp(2) less(2) by (simp add: snoc z)
    moreover have "chain m1 p b ys l NULL" unfolding m1_def
      by (rule chain_frame [OF c(2)]) (use assms(2) in \<open>auto simp: snoc z intro!: spaced_links [OF sp(1)]\<close>)
    ultimately show ?thesis using z by simp
  qed
  let ?m = "if b \<noteq> NULL then mem_set_prev_chunk m1 b a else m1"
  have "\<exists>l. chain ?m a b ys l NULL \<and> chain ?m NULL ?h xs a b"
  proof (cases ys)
    case Nil
    then show ?thesis using x b by simp
  next
    case (Cons y zs)
    then have y: "b = y" "y \<noteq> NULL" using b ne by auto
    have "chain ?m a b ys l NULL"
      unfolding Cons y(1) using chain_set_prev [of m1 p y y zs l NULL a] x assms(2) sp(3) less(1) y by (simp add: Cons)
    moreover have "chain ?m NULL ?h xs a b"
      by (rule chain_frame [OF conjunct1 [OF x]]) (use assms(2) in \<open>auto simp: Cons y intro!: spaced_links [OF sp(1)]\<close>)
    ultimately show ?thesis by blast
  qed
  then show "free_list ?m ?h (xs @ ys)" unfolding free_list_def chain_append by blast
qed

lemma free_list_push:
  assumes "free_list m h ps" "distinct (p # ps)" "spaced (set (p # ps))" "p \<noteq> NULL"
  defines "m1 \<equiv> (if h \<noteq> NULL then mem_set_prev_chunk m h p else m)"
  shows "free_list (mem_set_next_chunk (mem_set_prev_chunk m1 p NULL) p h) p (p # ps)" "h = (if ps = [] then NULL else hd ps)"
proof -
  obtain l where c: "chain m NULL h ps l NULL" using assms(1) by (auto simp: free_list_def)
  show h: "h = (if ps = [] then NULL else hd ps)" using chain_head [OF c] by simp
  have sp: "spaced (set ps)" using assms(3) by (auto simp: spaced_def)
  have "\<exists>l. chain m1 p h ps l NULL"
  proof (cases ps)
    case Nil
    then show ?thesis using h by (simp add: m1_def)
  next
    case (Cons q qs)
    then have q: "h = q" "q \<noteq> NULL" using h chain_nonnull [OF c] by auto
    from assms(3) have "p < 2 ^ 64" by (simp add: spaced_def)
    then show ?thesis using chain_set_prev [of m NULL h q qs l NULL p] c assms(2) sp q by (auto simp: m1_def Cons)
  qed
  then obtain l' where l': "chain m1 p h ps l' NULL" ..
  have "chain (mem_set_next_chunk (mem_set_prev_chunk m1 p NULL) p h) p h ps l' NULL"
  proof (rule chain_frame [OF l'], intro ballI)
    fix q assume "q \<in> set ps"
    with assms(2) have "p \<in> set (p # ps)" "q \<in> set (p # ps)" "p \<noteq> q" by auto
    from spaced_links [OF assms(3) this] show "mem_set_next_chunk (mem_set_prev_chunk m1 p NULL) p h (q + 8) = m1 (q + 8)
      \<and> mem_set_next_chunk (mem_set_prev_chunk m1 p NULL) p h (q + 16) = m1 (q + 16)" by simp
  qed
  moreover have "h < 2 ^ 64" using h spaced_less [OF sp] by (cases ps) auto
  ultimately show "free_list (mem_set_next_chunk (mem_set_prev_chunk m1 p NULL) p h) p (p # ps)"
    using assms(4) by (auto simp: free_list_def)
qed

section \<open>Sets of chunks\<close>

type_synonym chunk = "nat \<times> bool \<times> nat"

fun chunk_ok :: "chunk \<Rightarrow> bool" where
  "chunk_ok (p, u, s) \<longleftrightarrow> 0 < p \<and> 24 \<le> s \<and> 8 dvd s \<and> p + 16 + s < 2 ^ 63"

fun region :: "chunk \<Rightarrow> nat set" where
  "region (p, u, s) = {p..<p + 16 + s}"

definition placed :: "chunk set \<Rightarrow> bool" where
  "placed C \<longleftrightarrow> (\<forall>c \<in> C. chunk_ok c \<and> (\<forall>d \<in> C. c = d \<or> region c \<inter> region d = {}))"

definition free_region :: "chunk set \<Rightarrow> nat set" where
  "free_region C = \<Union> (region ` {c \<in> C. \<not> fst (snd c)})"

definition sized :: "memory \<Rightarrow> chunk set \<Rightarrow> bool" where
  "sized m C \<longleftrightarrow> (\<forall>(p, u, s) \<in> C. m p = chunk_tag u s \<and> m (p + 8 + s) = chunk_tag u s)"

definition bucket_of :: "chunk set \<Rightarrow> nat \<Rightarrow> nat set" where
  "bucket_of C i = {p. \<exists>s. (p, False, s) \<in> C \<and> mem_bucket_by_size s = i}"

definition linked :: "memory \<Rightarrow> nat list \<Rightarrow> chunk set \<Rightarrow> bool" where
  "linked m bs C \<longleftrightarrow> length bs = ZBX_SHMEM_BUCKET_COUNT \<and>
     (\<forall>i < ZBX_SHMEM_BUCKET_COUNT. \<exists>ps. free_list m (bs ! i) ps \<and> distinct ps \<and> set ps = bucket_of C i)"

definition heap_ok :: "memory \<Rightarrow> nat list \<Rightarrow> chunk set \<Rightarrow> bool" where
  "heap_ok m bs C \<longleftrightarrow> sized m C \<and> linked m bs C"

lemma placed_mono: "placed C \<Longrightarrow> D \<subseteq> C \<Longrightarrow> placed D"
  unfolding placed_def by (meson subsetD)

lemma placed_disjoint: "placed C \<Longrightarrow> c \<in> C \<Longrightarrow> d \<in> C \<Longrightarrow> c \<noteq> d \<Longrightarrow> region c \<inter> region d = {}"
  unfolding placed_def by metis

lemma placed_ok: "placed C \<Longrightarrow> (p, u, s) \<in> C \<Longrightarrow> 0 < p \<and> 24 \<le> s \<and> 8 dvd s \<and> p + 16 + s < 2 ^ 63"
  by (metis (no_types) placed_def chunk_ok.simps)

lemma placed_apart:
  assumes "placed C" "(p, u, s) \<in> C" "(q, v, t) \<in> C" "(p, u, s) \<noteq> (q, v, t)"
  shows "p + 16 + s \<le> q \<or> q + 16 + t \<le> p"
proof (rule ccontr)
  assume n: "\<not> ?thesis"
  from placed_disjoint [OF assms] have "region (p, u, s) \<inter> region (q, v, t) = {}" .
  moreover have "max p q \<in> region (p, u, s)" "max p q \<in> region (q, v, t)" using n by auto
  ultimately show False by blast
qed

lemma placed_unique: "placed C \<Longrightarrow> (p, u, s) \<in> C \<Longrightarrow> (p, v, t) \<in> C \<Longrightarrow> u = v \<and> s = t"
  using placed_apart [of C p u s p v t] by auto

lemma placed_spaced: "placed C \<Longrightarrow> (\<And>p. p \<in> A \<Longrightarrow> \<exists>u s. (p, u, s) \<in> C) \<Longrightarrow> spaced A"
proof -
  assume C: "placed C" and A: "\<And>p. p \<in> A \<Longrightarrow> \<exists>u s. (p, u, s) \<in> C"
  have "p < 2 ^ 64 \<and> (p = q \<or> p + 40 \<le> q \<or> q + 40 \<le> p)" if "p \<in> A" "q \<in> A" for p q
  proof -
    from A that obtain u s v t where m: "(p, u, s) \<in> C" "(q, v, t) \<in> C" by metis
    show ?thesis using placed_ok [OF C m(1)] placed_ok [OF C m(2)] placed_apart [OF C m] by auto
  qed
  then show "spaced A" unfolding spaced_def by blast
qed

lemma links_not_sizes:
  assumes "placed C" "(a, v, s) \<in> C" "(q, u, t) \<in> C"
  shows "a + 8 \<noteq> q" "a + 16 \<noteq> q" "a + 8 \<noteq> q + 8 + t" "a + 16 \<noteq> q + 8 + t"
  using placed_apart [OF assms] placed_ok [OF assms(1,2)] placed_ok [OF assms(1,3)] by auto

lemma sized_set_links:
  assumes "sized m C" "placed C" "(a, v, s) \<in> C"
  shows "sized (mem_set_next_chunk m a r) C" "sized (mem_set_prev_chunk m a r) C"
  using assms(1) links_not_sizes [OF assms(2,3)] by (fastforce simp: sized_def link_fields)+

lemma bucket_bound: "mem_bucket_by_size s < ZBX_SHMEM_BUCKET_COUNT"
  by (auto simp: mem_bucket_by_size_def drop_bit_eq_div)

lemma bucket_disjoint: "placed C \<Longrightarrow> i \<noteq> j \<Longrightarrow> bucket_of C i \<inter> bucket_of C j = {}"
  unfolding bucket_of_def using placed_unique [of C] by blast

lemma bucket_spaced: "placed C \<Longrightarrow> (\<And>p. p \<in> A \<Longrightarrow> \<exists>s. (p, False, s) \<in> C) \<Longrightarrow> spaced A"
  by (rule placed_spaced) blast+

lemma sized_simps:
  assumes "sized m C" "placed C" "(p, u, s) \<in> C"
  shows "CHUNK_SIZE m p = s" "CHUNK_SIZE m (p + 8 + s) = s" "FREE_CHUNK m p \<longleftrightarrow> \<not> u" "FREE_CHUNK m (p + 8 + s) \<longleftrightarrow> \<not> u"
proof -
  have "s < 2 ^ 63" using placed_ok [OF assms(2,3)] by simp
  from chunk_tag_simps [OF this] assms(1,3)
  show "CHUNK_SIZE m p = s" "CHUNK_SIZE m (p + 8 + s) = s" "FREE_CHUNK m p \<longleftrightarrow> \<not> u" "FREE_CHUNK m (p + 8 + s) \<longleftrightarrow> \<not> u"
    by (auto simp: sized_def CHUNK_SIZE_def FREE_CHUNK_def)
qed

text \<open>The steps of the operations: memory outside the region of the chunks, chunks in use, linking and unlinking.\<close>

lemma linked_frame:
  assumes "linked m bs C" "\<And>p s. (p, False, s) \<in> C \<Longrightarrow> m' (p + 8) = m (p + 8) \<and> m' (p + 16) = m (p + 16)"
  shows "linked m' bs C"
proof -
  have "free_list m' (bs ! i) ps" if "free_list m (bs ! i) ps" "set ps = bucket_of C i" for i ps
    using that chain_frame [of m NULL "bs ! i" ps _ NULL m'] assms(2) unfolding free_list_def bucket_of_def by blast
  with assms(1) show ?thesis unfolding linked_def by blast
qed

lemma heap_ok_outside:
  assumes "heap_ok m bs C" "placed C" "\<And>a. a \<in> \<Union> (region ` C) \<Longrightarrow> m' a = m a"
  shows "heap_ok m' bs C"
proof -
  have in_region: "q \<in> \<Union> (region ` C)" if "(p, u, s) \<in> C" "p \<le> q" "q < p + 16 + s" for p u s q
    using that by (intro UN_I [of "(p, u, s)"]) auto
  have "m' p = m p \<and> m' (p + 8 + s) = m (p + 8 + s) \<and> m' (p + 8) = m (p + 8) \<and> m' (p + 16) = m (p + 16)"
    if "(p, u, s) \<in> C" for p u s
    using placed_ok [OF assms(2) that] in_region [OF that, THEN assms(3)] by simp
  with assms(1) linked_frame [of m bs C m'] show ?thesis unfolding heap_ok_def sized_def by fastforce
qed

lemma bucket_of_used [simp]: "bucket_of (insert (p, True, s) C) i = bucket_of C i"
  by (auto simp: bucket_of_def)

lemma heap_ok_used:
  "heap_ok m bs (insert (p, True, s) C) \<longleftrightarrow> heap_ok m bs C \<and> m p = chunk_tag True s \<and> m (p + 8 + s) = chunk_tag True s"
  by (auto simp: heap_ok_def linked_def sized_def)

lemma bucket_of_insert:
  assumes "placed (insert (p, False, s) C)" "(p, False, s) \<notin> C"
  shows "bucket_of (insert (p, False, s) C) i = (if mem_bucket_by_size s = i then insert p (bucket_of C i) else bucket_of C i)"
    "p \<notin> bucket_of C i"
  using placed_unique [OF assms(1), of p False s] assms(2) by (auto simp: bucket_of_def)

lemma free_region_links:
  assumes "placed C" "q \<in> bucket_of C i"
  shows "q + 8 \<in> free_region C" "q + 16 \<in> free_region C"
proof -
  obtain t where t: "(q, False, t) \<in> C" using assms(2) by (auto simp: bucket_of_def)
  with placed_ok [OF assms(1) t] show "q + 8 \<in> free_region C" "q + 16 \<in> free_region C"
    unfolding free_region_def by (intro UN_I [of "(q, False, t)"]; simp)+
qed

lemma linked_other:
  assumes "free_list m h ps" "set ps = bucket_of C j" "placed C" "i \<noteq> j" "q \<in> bucket_of C i"
  shows "free_list (mem_set_next_chunk m q r) h ps" "free_list (mem_set_prev_chunk m q r) h ps"
proof -
  have sp: "spaced (insert q (set ps))" using assms(2,5) by (intro bucket_spaced [OF assms(3)]) (auto simp: bucket_of_def)
  have q: "q \<notin> set ps" using bucket_disjoint [OF assms(3,4)] assms(2,5) by blast
  have links: "\<forall>x \<in> set ps. M (x + 8) = m (x + 8) \<and> M (x + 16) = m (x + 16)"
    if "M = mem_set_next_chunk m q r \<or> M = mem_set_prev_chunk m q r" for M
  proof
    fix x assume "x \<in> set ps"
    then have "q \<in> insert q (set ps)" "x \<in> insert q (set ps)" "q \<noteq> x" using q by blast+
    from spaced_links [OF sp this] that show "M (x + 8) = m (x + 8) \<and> M (x + 16) = m (x + 16)" by metis
  qed
  obtain l where "chain m NULL h ps l NULL" using assms(1) by (auto simp: free_list_def)
  from chain_frame [OF this links [of "mem_set_next_chunk m q r"]] chain_frame [OF this links [of "mem_set_prev_chunk m q r"]]
  show "free_list (mem_set_next_chunk m q r) h ps" "free_list (mem_set_prev_chunk m q r) h ps"
    unfolding free_list_def by blast+
qed

lemma heap_unlink:
  assumes "heap_ok (mem info) (buckets info) (insert (p, False, s) C)" "placed (insert (p, False, s) C)" "(p, False, s) \<notin> C"
  obtains m bs where "mem_unlink_chunk info p = info\<lparr>mem := m, buckets := bs\<rparr>" "heap_ok m bs C"
    "\<And>a. a \<notin> free_region C \<Longrightarrow> m a = mem info a"
proof -
  let ?D = "insert (p, False, s) C" and ?m = "mem info" and ?bs = "buckets info"
  define i where "i = mem_bucket_by_size s"
  have i: "i < 30" by (simp add: i_def bucket_bound)
  have C: "placed C" by (rule placed_mono [OF assms(2)]) blast
  have D: "sized ?m ?D" "linked ?m ?bs ?D" using assms(1) by (simp_all add: heap_ok_def)
  have size: "CHUNK_SIZE ?m p = s" using sized_simps [OF D(1) assms(2)] by blast
  from D(2) i obtain ps where ps: "free_list ?m (?bs ! i) ps" "distinct ps" "set ps = insert p (bucket_of C i)"
    unfolding linked_def bucket_of_insert [OF assms(2,3)] i_def by metis
  then obtain xs ys where split: "ps = xs @ p # ys" by (metis insertI1 split_list)
  have xy: "set (xs @ ys) = bucket_of C i" using ps bucket_of_insert(2) [OF assms(2,3), of i] unfolding split by auto
  have "spaced (set ps)" using ps(3) by (intro bucket_spaced [OF assms(2)]) (auto simp: bucket_of_def)
  note rem = free_list_remove [OF ps(1,2) [unfolded split] this [unfolded split]]
  define a where "a = mem_get_prev_chunk ?m p"
  define b where "b = mem_get_next_chunk ?m p"
  define m1 where "m1 = (if a \<noteq> NULL then mem_set_next_chunk ?m a b else ?m)"
  define m2 where "m2 = (if b \<noteq> NULL then mem_set_prev_chunk m1 b a else m1)"
  define h where "h = (if a \<noteq> NULL then ?bs ! i else b)"
  note rem = rem [folded a_def b_def, folded m1_def, folded m2_def h_def]
  have ab: "a \<noteq> NULL \<Longrightarrow> a \<in> bucket_of C i" "b \<noteq> NULL \<Longrightarrow> b \<in> bucket_of C i"
    unfolding rem(1,2) xy [symmetric] by (auto split: if_splits)
  have "mem_unlink_chunk info p = info\<lparr>mem := m2, buckets := ?bs[i := h]\<rparr>"
    by (simp add: mem_unlink_chunk_def Let_def size i_def [symmetric] a_def [symmetric] b_def [symmetric] m2_def m1_def h_def)
  moreover have "sized m2 C"
  proof -
    have "sized ?m C" using D(1) by (simp add: sized_def)
    then have "sized m1 C" using sized_set_links(1) [OF _ C] ab(1) by (auto simp: m1_def bucket_of_def)
    then show ?thesis using sized_set_links(2) [OF _ C] ab(2) by (auto simp: m2_def bucket_of_def)
  qed
  moreover have "linked m2 (?bs[i := h]) C" unfolding linked_def
  proof (intro conjI allI impI)
    show len: "length (?bs[i := h]) = 30" using D(2) by (simp add: linked_def)
    fix j :: nat assume j: "j < 30"
    show "\<exists>ps. free_list m2 (?bs[i := h] ! j) ps \<and> distinct ps \<and> set ps = bucket_of C j"
    proof (cases "j = i")
      case True
      then show ?thesis using rem(3) ps(2) xy i len unfolding split by (intro exI [of _ "xs @ ys"]) auto
    next
      case False
      with D(2) j obtain qs where qs: "free_list ?m (?bs ! j) qs" "distinct qs" "set qs = bucket_of C j"
        unfolding linked_def bucket_of_insert [OF assms(2,3)] i_def by metis
      have "free_list m1 (?bs ! j) qs" unfolding m1_def using qs linked_other [OF qs(1,3) C False [symmetric]] ab(1) by auto
      then have "free_list m2 (?bs ! j) qs" unfolding m2_def using linked_other [OF _ qs(3) C False [symmetric]] ab(2) by auto
      then show ?thesis using qs False by auto
    qed
  qed
  moreover have "m2 x = ?m x" if "x \<notin> free_region C" for x
  proof -
    have "a \<noteq> NULL \<Longrightarrow> x \<noteq> a + 16" "b \<noteq> NULL \<Longrightarrow> x \<noteq> b + 8" using that ab free_region_links [OF C] by blast+
    then show ?thesis by (simp add: m2_def m1_def link_fields)
  qed
  ultimately show thesis using that [of "?bs[i := h]" m2] by (simp add: heap_ok_def)
qed

lemma heap_link:
  assumes "heap_ok (mem info) (buckets info) C" "placed (insert (p, False, s) C)" "(p, False, s) \<notin> C"
    and "mem info p = chunk_tag False s" "mem info (p + 8 + s) = chunk_tag False s"
  obtains m bs where "mem_link_chunk info p = info\<lparr>mem := m, buckets := bs\<rparr>" "heap_ok m bs (insert (p, False, s) C)"
    "\<And>a. a \<notin> free_region C \<Longrightarrow> a \<noteq> p + 8 \<Longrightarrow> a \<noteq> p + 16 \<Longrightarrow> m a = mem info a"
proof -
  let ?D = "insert (p, False, s) C" and ?m = "mem info" and ?bs = "buckets info"
  define i where "i = mem_bucket_by_size s"
  have i: "i < 30" by (simp add: i_def bucket_bound)
  have C: "placed C" by (rule placed_mono [OF assms(2)]) blast
  have sz: "sized ?m ?D" and ln: "linked ?m ?bs C" using assms(1,4,5) by (auto simp: heap_ok_def sized_def)
  have size: "CHUNK_SIZE ?m p = s" using sized_simps [OF sz assms(2)] by blast
  note b = bucket_of_insert [OF assms(2,3)]
  from ln i obtain ps where ps: "free_list ?m (?bs ! i) ps" "distinct ps" "set ps = bucket_of C i"
    unfolding linked_def by metis
  have p: "0 < p" using placed_ok [OF assms(2)] by blast
  have sp: "spaced (set (p # ps))" using ps(3) by (intro bucket_spaced [OF assms(2)]) (auto simp: bucket_of_def)
  define h where "h = ?bs ! i"
  define m1 where "m1 = (if h \<noteq> NULL then mem_set_prev_chunk ?m h p else ?m)"
  define m2 where "m2 = mem_set_prev_chunk m1 p NULL"
  define m3 where "m3 = mem_set_next_chunk m2 p h"
  note push = free_list_push [OF ps(1) _ sp, folded h_def, folded m1_def, folded m2_def, folded m3_def]
  have "distinct (p # ps)" using ps(2) b(2) [of i] unfolding ps(3) [symmetric] by simp
  note push' = push [OF this less_imp_neq [OF p, symmetric]]
  have h: "h \<in> bucket_of C i" if "h \<noteq> NULL"
    using that push'(2) unfolding ps(3) [symmetric] by (metis list.set_sel(1))
  have h': "h \<noteq> NULL \<Longrightarrow> h \<in> bucket_of ?D i" "p \<in> bucket_of ?D i" using h unfolding b by (simp_all add: i_def)
  have "mem_link_chunk info p = info\<lparr>mem := m3, buckets := ?bs[i := p]\<rparr>"
    by (simp add: mem_link_chunk_def Let_def size i_def [symmetric] h_def [symmetric] m3_def m2_def m1_def)
  moreover have "sized m3 ?D"
  proof -
    have "sized m1 ?D" using sz sized_set_links(2) [OF sz assms(2)] h'(1) by (auto simp: m1_def bucket_of_def)
    from sized_set_links(2) [OF this assms(2) insertI1] have "sized m2 ?D" by (simp add: m2_def)
    from sized_set_links(1) [OF this assms(2) insertI1] show ?thesis by (simp add: m3_def)
  qed
  moreover have "linked m3 (?bs[i := p]) ?D" unfolding linked_def
  proof (intro conjI allI impI)
    show len: "length (?bs[i := p]) = 30" using ln by (simp add: linked_def)
    fix j :: nat assume j: "j < 30"
    show "\<exists>ps. free_list m3 (?bs[i := p] ! j) ps \<and> distinct ps \<and> set ps = bucket_of ?D j"
    proof (cases "j = i")
      case True
      then show ?thesis using push'(1) ps(2,3) b i len by (intro exI [of _ "p # ps"]) (auto simp: i_def)
    next
      case False
      with ln j obtain qs where qs: "free_list ?m (?bs ! j) qs" "distinct qs" "set qs = bucket_of ?D j"
        unfolding linked_def b i_def by metis
      note o = linked_other [OF _ qs(3) assms(2) False [symmetric]]
      have "free_list m1 (?bs ! j) qs" unfolding m1_def using qs(1) o(2) h'(1) by auto
      then have "free_list m3 (?bs ! j) qs" unfolding m3_def m2_def using o h'(2) by auto
      then show ?thesis using qs False by auto
    qed
  qed
  moreover have "m3 x = ?m x" if "x \<notin> free_region C" "x \<noteq> p + 8" "x \<noteq> p + 16" for x
  proof -
    have "h \<noteq> NULL \<Longrightarrow> x \<noteq> h + 8" using that(1) h free_region_links [OF C] by blast
    then show ?thesis using that(2,3) by (simp add: m3_def m2_def m1_def link_fields)
  qed
  ultimately show thesis using that [of "?bs[i := p]" m3] by (simp add: heap_ok_def)
qed

end
