(* ===== verification/Shmem_Alloc.thy ===== *)
theory Shmem_Alloc
  imports Shmem_Heap
begin

text \<open>
  What the operations of the shared memory allocator do to the sequence of chunks in a segment, and to the blocks
  that its clients hold.
\<close>

section \<open>The sequence of chunks\<close>

type_synonym tile = "bool \<times> nat"

definition extent :: "tile list \<Rightarrow> nat" where
  "extent cs = (\<Sum>(u, s)\<leftarrow>cs. 16 + s)"

fun layout :: "nat \<Rightarrow> tile list \<Rightarrow> chunk list" where
  "layout a [] = []"
| "layout a ((u, s) # cs) = (a, u, s) # layout (a + 16 + s) cs"

definition tile_ok :: "tile \<Rightarrow> bool" where
  "tile_ok c \<longleftrightarrow> 24 \<le> snd c \<and> 8 dvd snd c"

definition tile_sizes :: "bool \<Rightarrow> tile list \<Rightarrow> nat" where
  "tile_sizes u cs = (\<Sum>c\<leftarrow>filter (\<lambda>c. fst c = u) cs. snd c)"

definition coalesced :: "tile list \<Rightarrow> bool" where
  "coalesced cs \<longleftrightarrow> successively (\<lambda>c d. fst c \<or> fst d) cs"

lemma extent_simps [simp]:
  "extent [] = 0" "extent ((u, s) # cs) = 16 + s + extent cs" "extent (xs @ ys) = extent xs + extent ys"
  by (simp_all add: extent_def)

lemma tile_sizes_simps [simp]:
  "tile_sizes u [] = 0" "tile_sizes u ((v, s) # cs) = (if v = u then s else 0) + tile_sizes u cs"
  "tile_sizes u (xs @ ys) = tile_sizes u xs + tile_sizes u ys"
  by (simp_all add: tile_sizes_def)

lemma layout_append: "layout a (xs @ ys) = layout a xs @ layout (a + extent xs) ys"
  by (induction a xs rule: layout.induct) (simp_all add: add.assoc)

lemma layout_bounds: "(p, u, s) \<in> set (layout a cs) \<Longrightarrow> a \<le> p \<and> p + 16 + s \<le> a + extent cs \<and> (u, s) \<in> set cs"
  by (induction a cs rule: layout.induct) auto

lemma layout_split: "(p, u, s) \<in> set (layout a cs) \<Longrightarrow> \<exists>xs ys. cs = xs @ (u, s) # ys \<and> p = a + extent xs"
proof (induction a cs rule: layout.induct)
  case (2 a v t cs)
  show ?case
  proof (cases "(p, u, s) = (a, v, t)")
    case True
    then show ?thesis by (intro exI [of _ "[]"] exI [of _ cs]) simp
  next
    case False
    with 2 obtain xs ys where "cs = xs @ (u, s) # ys" "p = a + 16 + t + extent xs" by auto
    then show ?thesis by (intro exI [of _ "(v, t) # xs"] exI [of _ ys]) simp
  qed
qed simp

lemma layout_placed:
  "0 < a \<Longrightarrow> list_all tile_ok cs \<Longrightarrow> a + extent cs < 2 ^ 63 \<Longrightarrow> placed (set (layout a cs))"
proof (induction a cs rule: layout.induct)
  case (2 a u s cs)
  have IH: "placed (set (layout (a + 16 + s) cs))" using 2 by (simp add: add.assoc)
  have ok: "chunk_ok (a, u, s)" using 2(2-4) by (simp add: tile_ok_def)
  have dis: "region (a, u, s) \<inter> region c = {}" if "c \<in> set (layout (a + 16 + s) cs)" for c
    using layout_bounds [of "fst c" "fst (snd c)" "snd (snd c)"] that by (cases c) force
  show ?case using IH ok dis unfolding placed_def by (auto simp: Int_commute simp del: region.simps chunk_ok.simps)
qed (simp add: placed_def)

lemma layout_distinct: "distinct (layout a cs)"
proof (induction a cs rule: layout.induct)
  case (2 a u s cs)
  then show ?case using layout_bounds [of a u s "a + 16 + s" cs] by auto
qed simp

section \<open>The invariant of a segment\<close>

definition shm_inv :: "zbx_shmem_info \<Rightarrow> tile list \<Rightarrow> bool" where
  "shm_inv info cs \<longleftrightarrow>
     0 < lo_bound info \<and> 8 dvd lo_bound info \<and> hi_bound info = lo_bound info + extent cs \<and> hi_bound info < 2 ^ 63
     \<and> cs \<noteq> [] \<and> list_all tile_ok cs \<and> coalesced cs
     \<and> heap_ok (mem info) (buckets info) (set (layout (lo_bound info) cs))
     \<and> used_size info = of_nat (tile_sizes True cs) \<and> free_size info = of_nat (tile_sizes False cs)
     \<and> total_size info = of_nat (extent cs - 16)"

lemma shm_inv_placed: "shm_inv info cs \<Longrightarrow> placed (set (layout (lo_bound info) cs))"
  by (rule layout_placed) (simp_all add: shm_inv_def)

text \<open>Updates of different fields, in the order of the record.\<close>

lemma upd_order:
  "info\<lparr>buckets := b, mem := m\<rparr> = info\<lparr>mem := m, buckets := b\<rparr>"
  "info\<lparr>used_size := u, mem := m\<rparr> = info\<lparr>mem := m, used_size := u\<rparr>"
  "info\<lparr>free_size := f, mem := m\<rparr> = info\<lparr>mem := m, free_size := f\<rparr>"
  "info\<lparr>used_size := u, buckets := b\<rparr> = info\<lparr>buckets := b, used_size := u\<rparr>"
  "info\<lparr>free_size := f, buckets := b\<rparr> = info\<lparr>buckets := b, free_size := f\<rparr>"
  "info\<lparr>free_size := f, used_size := u\<rparr> = info\<lparr>used_size := u, free_size := f\<rparr>"
  by (cases info; simp)+

section \<open>Filling a hole\<close>

lemma region_nonempty: "fst c \<in> region c"
  by (cases c) simp

lemma placed_refine:
  assumes "placed (insert c C)" "c \<notin> C" "placed D" "\<And>d. d \<in> D \<Longrightarrow> region d \<subseteq> region c"
  shows "placed (D \<union> C)" "D \<inter> C = {}"
proof -
  have C: "placed C" by (rule placed_mono [OF assms(1)]) blast
  have dis: "region d \<inter> region e = {}" if "d \<in> D" "e \<in> C" for d e
  proof -
    have "region c \<inter> region e = {}" using that assms(2) by (intro placed_disjoint [OF assms(1)]) auto
    with assms(4) [OF that(1)] show ?thesis by blast
  qed
  then show "D \<inter> C = {}" using region_nonempty by blast
  have "region d \<inter> region e = {}" if "d \<in> D \<union> C" "e \<in> D \<union> C" "d \<noteq> e" for d e
  proof (cases "d \<in> D")
    case True
    then show ?thesis using that(2,3) dis [of d e] placed_disjoint [OF assms(3), of d e] by (cases "e \<in> D") simp_all
  next
    case False
    then show ?thesis using that dis [of e d] placed_disjoint [OF C, of d e] by (cases "e \<in> D") (simp_all add: Int_commute)
  qed
  moreover have "chunk_ok d" if "d \<in> D \<union> C" for d using that C assms(3) unfolding placed_def by (metis Un_iff)
  ultimately show "placed (D \<union> C)" unfolding placed_def by metis
qed

lemma layout_region: "c \<in> set (layout p cs) \<Longrightarrow> extent cs = 16 + s \<Longrightarrow> region c \<subseteq> region (p, u, s)"
  using layout_bounds [of "fst c" "fst (snd c)" "snd (snd c)" p cs] by (cases c) auto

lemma layout_refine:
  assumes "placed (insert (p, u, s) C)" "(p, u, s) \<notin> C" "extent cs = 16 + s" "list_all tile_ok cs"
  shows "placed (set (layout p cs) \<union> C)" "set (layout p cs) \<inter> C = {}"
proof -
  have "0 < p \<and> p + 16 + s < 2 ^ 63" using placed_ok [OF assms(1)] by blast
  then have "placed (set (layout p cs))" using assms(3,4) by (intro layout_placed) simp_all
  from placed_refine [OF assms(1,2) this layout_region [OF _ assms(3)]]
  show "placed (set (layout p cs) \<union> C)" "set (layout p cs) \<inter> C = {}" by blast+
qed

lemma heap_ok_hole:
  assumes "heap_ok m bs C" "placed (insert c C)" "c \<notin> C" "\<And>a. a \<notin> region c \<Longrightarrow> m' a = m a"
  shows "heap_ok m' bs C"
proof (rule heap_ok_outside [OF assms(1)])
  show "placed C" by (rule placed_mono [OF assms(2)]) blast
  fix a assume "a \<in> \<Union> (region ` C)"
  then have "a \<notin> region c" using placed_disjoint [OF assms(2)] assms(3) by blast
  then show "m' a = m a" by (rule assms(4))
qed

lemma set_sizes:
  "mem_set_chunk_size m p s = m(p := chunk_tag False s, p + 8 + s := chunk_tag False s)"
  "mem_set_used_chunk_size m p s = m(p := chunk_tag True s, p + 8 + s := chunk_tag True s)"
  by (simp_all add: mem_set_chunk_size_def mem_set_used_chunk_size_def chunk_tag_def)

lemma heap_use:
  assumes "heap_ok m bs C" "placed (insert (p, True, s) C)" "(p, True, s) \<notin> C"
  shows "heap_ok (mem_set_used_chunk_size m p s) bs (insert (p, True, s) C)"
proof -
  have "heap_ok (mem_set_used_chunk_size m p s) bs C" by (rule heap_ok_hole [OF assms]) (auto simp: set_sizes)
  then show ?thesis unfolding heap_ok_used by (simp add: set_sizes)
qed

text \<open>A free chunk is written and linked in one step.\<close>

lemma heap_add_free:
  assumes "heap_ok (mem info) (buckets info) C" "placed (insert (p, False, s) C)" "(p, False, s) \<notin> C"
  obtains m bs where "mem_link_chunk (info\<lparr>mem := mem_set_chunk_size (mem info) p s\<rparr>) p = info\<lparr>mem := m, buckets := bs\<rparr>"
    "heap_ok m bs (insert (p, False, s) C)" "\<And>a. a \<notin> free_region C \<Longrightarrow> a \<notin> region (p, False, s) \<Longrightarrow> m a = mem info a"
proof -
  let ?m = "mem_set_chunk_size (mem info) p s" and ?info = "info\<lparr>mem := mem_set_chunk_size (mem info) p s\<rparr>"
  have s: "24 \<le> s" using placed_ok [OF assms(2)] by blast
  have "heap_ok ?m (buckets info) C" by (rule heap_ok_hole [OF assms]) (auto simp: set_sizes)
  then have h: "heap_ok (mem ?info) (buckets ?info) C" by simp
  have t: "mem ?info p = chunk_tag False s" "mem ?info (p + 8 + s) = chunk_tag False s" by (simp_all add: set_sizes)
  obtain m bs where l: "mem_link_chunk ?info p = ?info\<lparr>mem := m, buckets := bs\<rparr>" "heap_ok m bs (insert (p, False, s) C)"
    "\<And>a. a \<notin> free_region C \<Longrightarrow> a \<noteq> p + 8 \<Longrightarrow> a \<noteq> p + 16 \<Longrightarrow> m a = mem ?info a"
    using heap_link [OF h assms(2,3) t] by metis
  have "m a = mem info a" if "a \<notin> free_region C" "a \<notin> region (p, False, s)" for a
  proof -
    have "a \<noteq> p + 8" "a \<noteq> p + 16" "a \<noteq> p" "a \<noteq> p + 8 + s" using that(2) s by auto
    with l(3) [OF that(1)] show ?thesis by (simp add: set_sizes)
  qed
  with l(1,2) show thesis using that [of bs m] by simp
qed

definition split_tile :: "nat \<Rightarrow> nat \<Rightarrow> tile list" where
  "split_tile s sz = (if s < sz + 40 then [(True, s)] else [(True, sz), (False, s - sz - 16)])"

lemma split_tile_ok:
  assumes "24 \<le> sz" "8 dvd sz" "8 dvd s" "sz \<le> s"
  shows "list_all tile_ok (split_tile s sz)" "extent (split_tile s sz) = 16 + s"
  using assms by (auto simp: split_tile_def tile_ok_def)

text \<open>A hole is filled with a chunk in use and a free chunk behind it.\<close>

lemma heap_carve:
  assumes h: "heap_ok m bs C" and P: "placed (insert (p, True, sz + 16 + t) C)" "(p, True, sz + 16 + t) \<notin> C"
    and ok: "list_all tile_ok [(True, sz), (False, t)]"
  obtains m' bs' where "mem_link_chunk (info\<lparr>mem := mem_set_chunk_size m (p + 16 + sz) t, buckets := bs\<rparr>) (p + 16 + sz)
      = info\<lparr>mem := m', buckets := bs'\<rparr>"
    "heap_ok (mem_set_used_chunk_size m' p sz) bs' (set (layout p [(True, sz), (False, t)]) \<union> C)"
    "\<And>a. a \<notin> free_region C \<Longrightarrow> a \<noteq> p \<Longrightarrow> a < p + 8 + sz \<or> p + 32 + sz + t \<le> a \<Longrightarrow> mem_set_used_chunk_size m' p sz a = m a"
proof -
  define q where "q = p + 16 + sz"
  let ?i = "info\<lparr>mem := m, buckets := bs\<rparr>"
  have "extent [(True, sz), (False, t)] = 16 + (sz + 16 + t)" by simp
  note ref = layout_refine [OF P this ok]
  have pq: "placed (insert (p, True, sz) (insert (q, False, t) C))" "(p, True, sz) \<notin> insert (q, False, t) C" "(q, False, t) \<notin> C"
    using ref by (auto simp: q_def)
  have "placed (insert (q, False, t) C)" "heap_ok (mem ?i) (buckets ?i) C"
    using h by (auto intro: placed_mono [OF pq(1)])
  from heap_add_free [OF this(2,1) pq(3)] obtain m' bs' where
    l: "mem_link_chunk (?i\<lparr>mem := mem_set_chunk_size (mem ?i) q t\<rparr>) q = ?i\<lparr>mem := m', buckets := bs'\<rparr>"
      "heap_ok m' bs' (insert (q, False, t) C)" "\<And>a. a \<notin> free_region C \<Longrightarrow> a \<notin> region (q, False, t) \<Longrightarrow> m' a = mem ?i a" by metis
  have "heap_ok (mem_set_used_chunk_size m' p sz) bs' (set (layout p [(True, sz), (False, t)]) \<union> C)"
    using heap_use [OF l(2) pq(1,2)] by (simp add: q_def)
  moreover have "mem_set_used_chunk_size m' p sz a = m a"
    if "a \<notin> free_region C" "a \<noteq> p" "a < p + 8 + sz \<or> p + 32 + sz + t \<le> a" for a
  proof -
    have "a \<notin> region (q, False, t)" "a \<noteq> p + 8 + sz" using that(3) by (auto simp: q_def)
    with l(3) [OF that(1)] that(2) show ?thesis by (simp add: set_sizes)
  qed
  ultimately show thesis using l(1) that [of bs' m'] by (simp add: q_def upd_order)
qed

lemma use_or_split_heap:
  assumes h: "heap_ok m bs C" and P: "placed (insert (p, True, s) C)" "(p, True, s) \<notin> C" and sz: "24 \<le> sz" "8 dvd sz" "sz \<le> s"
  obtains m' bs' where "use_or_split (info\<lparr>mem := m, buckets := bs\<rparr>) p s sz = info\<lparr>mem := m', buckets := bs',
      used_size := used_size info + of_nat (tile_sizes True (split_tile s sz)),
      free_size := free_size info - of_nat s + of_nat (tile_sizes False (split_tile s sz))\<rparr>"
    "heap_ok m' bs' (set (layout p (split_tile s sz)) \<union> C)"
    "\<And>a. a \<notin> free_region C \<Longrightarrow> a \<noteq> p \<Longrightarrow> a < p + 8 + sz \<or> p + 16 + s \<le> a \<Longrightarrow> m' a = m a"
proof (cases "s < sz + 40")
  case True
  have "heap_ok (mem_set_used_chunk_size m p s) bs (set (layout p (split_tile s sz)) \<union> C)"
    using heap_use [OF h P] True by (simp add: split_tile_def)
  moreover have "use_or_split (info\<lparr>mem := m, buckets := bs\<rparr>) p s sz = info\<lparr>mem := mem_set_used_chunk_size m p s, buckets := bs,
      used_size := used_size info + of_nat (tile_sizes True (split_tile s sz)),
      free_size := free_size info - of_nat s + of_nat (tile_sizes False (split_tile s sz))\<rparr>"
    using True by (simp add: use_or_split_def split_tile_def upd_order)
  ultimately show thesis using sz(3) by (intro that [of bs "mem_set_used_chunk_size m p s"]) (auto simp: set_sizes)
next
  case False
  define t where "t = s - sz - 16"
  have s: "s = sz + 16 + t" "8 dvd s" using False placed_ok [OF P(1)] by (auto simp: t_def)
  have sp: "split_tile s sz = [(True, sz), (False, t)]" using False by (simp add: split_tile_def t_def)
  note ok = split_tile_ok(1) [OF sz(1,2) s(2) sz(3), unfolded sp]
  from heap_carve [OF h P [unfolded s(1)] ok] obtain m' bs' where
    l: "mem_link_chunk (info\<lparr>mem := mem_set_chunk_size m (p + 16 + sz) t, buckets := bs\<rparr>) (p + 16 + sz) = info\<lparr>mem := m', buckets := bs'\<rparr>"
      "heap_ok (mem_set_used_chunk_size m' p sz) bs' (set (layout p [(True, sz), (False, t)]) \<union> C)"
      "\<And>a. a \<notin> free_region C \<Longrightarrow> a \<noteq> p \<Longrightarrow> a < p + 8 + sz \<or> p + 32 + sz + t \<le> a \<Longrightarrow> mem_set_used_chunk_size m' p sz a = m a" by metis
  have q: "p + 8 + sz + 8 = p + 16 + sz" "s - sz - 2 * 8 = t" "p + 16 + s = p + 32 + sz + t" using s(1) by (simp_all add: t_def)
  have "use_or_split (info\<lparr>mem := m, buckets := bs\<rparr>) p s sz = info\<lparr>mem := mem_set_used_chunk_size m' p sz, buckets := bs',
      used_size := used_size info + of_nat (tile_sizes True (split_tile s sz)),
      free_size := free_size info - of_nat s + of_nat (tile_sizes False (split_tile s sz))\<rparr>"
    using False l(1) unfolding use_or_split_def Let_def q(1,2) by (simp add: sp upd_order)
  then show thesis using l(2,3) unfolding sp [symmetric] q(3) [symmetric] by (rule that)
qed

section \<open>Replacing a part of the sequence\<close>

definition rest_of :: "nat \<Rightarrow> tile list \<Rightarrow> nat \<Rightarrow> tile list \<Rightarrow> chunk set" where
  "rest_of a xs n ys = set (layout a xs) \<union> set (layout (a + extent xs + n) ys)"

lemma layout_middle: "set (layout a (xs @ mid @ ys)) = set (layout (a + extent xs) mid) \<union> rest_of a xs (extent mid) ys"
  by (auto simp: layout_append rest_of_def add.assoc)

lemma middle_disjoint: "set (layout (a + extent xs) mid) \<inter> rest_of a xs (extent mid) ys = {}"
  using layout_distinct [of a "xs @ mid @ ys"] by (auto simp: layout_append rest_of_def add.assoc)

lemma hole_placed:
  assumes "shm_inv info (xs @ mid @ ys)" "extent mid = 16 + s" "24 \<le> s" "8 dvd s"
  shows "placed (insert (lo_bound info + extent xs, u, s) (rest_of (lo_bound info) xs (16 + s) ys))"
    "(lo_bound info + extent xs, u, s) \<notin> rest_of (lo_bound info) xs (16 + s) ys"
proof -
  have "placed (set (layout (lo_bound info) (xs @ [(u, s)] @ ys)))"
    using assms by (intro layout_placed) (simp_all add: shm_inv_def tile_ok_def)
  then show "placed (insert (lo_bound info + extent xs, u, s) (rest_of (lo_bound info) xs (16 + s) ys))"
    unfolding layout_middle by simp
  show "(lo_bound info + extent xs, u, s) \<notin> rest_of (lo_bound info) xs (16 + s) ys"
    using middle_disjoint [of "lo_bound info" xs "[(u, s)]" ys] by simp
qed

definition same_segment :: "zbx_shmem_info \<Rightarrow> zbx_shmem_info \<Rightarrow> bool" where
  "same_segment info info' \<longleftrightarrow> lo_bound info' = lo_bound info \<and> hi_bound info' = hi_bound info
     \<and> total_size info' = total_size info \<and> allow_oom info' = allow_oom info \<and> lock info' = lock info"

lemma shm_inv_replace:
  assumes "shm_inv info (xs @ mid @ ys)" "heap_ok m bs (set (layout (lo_bound info + extent xs) mid') \<union> rest_of (lo_bound info) xs (extent mid) ys)"
    and "extent mid' = extent mid" "list_all tile_ok mid'" "coalesced (xs @ mid' @ ys)" "mid' \<noteq> []"
    and "used = used_size info - of_nat (tile_sizes True mid) + of_nat (tile_sizes True mid')"
    and "free = free_size info - of_nat (tile_sizes False mid) + of_nat (tile_sizes False mid')"
  shows "shm_inv (info\<lparr>mem := m, buckets := bs, used_size := used, free_size := free\<rparr>) (xs @ mid' @ ys)"
  using assms(1) assms(2) [folded assms(3)] assms(3-8) by (simp add: shm_inv_def layout_middle)

section \<open>Allocation\<close>

lemma proper_alloc_size:
  "24 \<le> mem_proper_alloc_size n" "8 dvd mem_proper_alloc_size n" "n \<le> mem_proper_alloc_size n"
  "mem_proper_alloc_size n < max 25 (n + 8)"
proof -
  have a: "x AND 7 = x mod 8" for x :: nat using take_bit_eq_mask [of 3 x] by (simp add: take_bit_eq_mod mask_eq_exp_minus_1)
  have b: "8 dvd n + (8 - n mod 8) mod 8" "(8 - n mod 8) mod 8 < 8"
  proof -
    have "n = 8 * (n div 8) + n mod 8" "n mod 8 < 8" by simp_all
    then obtain q r where n: "n = 8 * q + r" "r < 8" by blast
    then have "n + (8 - n mod 8) mod 8 = 8 * (if r = 0 then q else q + 1)" by simp
    then show "8 dvd n + (8 - n mod 8) mod 8" by (metis dvd_triv_left)
  qed simp
  show "24 \<le> mem_proper_alloc_size n" "8 dvd mem_proper_alloc_size n" "n \<le> mem_proper_alloc_size n"
    "mem_proper_alloc_size n < max 25 (n + 8)"
    unfolding mem_proper_alloc_size_def a using b by auto
qed

lemma bucket_mono: "s \<le> t \<Longrightarrow> mem_bucket_by_size s \<le> mem_bucket_by_size t"
  by (auto simp: mem_bucket_by_size_def drop_bit_eq_div div_le_mono)

lemma bucket_exact:
  assumes "24 \<le> s" "8 dvd s" "24 \<le> t" "8 dvd t" "mem_bucket_by_size s \<le> mem_bucket_by_size t" "mem_bucket_by_size t < 29"
  shows "s \<le> t"
proof -
  have t: "t < 256" using assms(6) by (auto simp: mem_bucket_by_size_def split: if_splits)
  have s: "s < 256" using assms(5,6) by (auto simp: mem_bucket_by_size_def split: if_splits)
  have "(s - 24) div 8 \<le> (t - 24) div 8" using assms(1,3,5) s t by (simp add: mem_bucket_by_size_def drop_bit_eq_div)
  moreover obtain i j where "s = 8 * i" "t = 8 * j" using assms(2,4) by (auto elim!: dvdE)
  ultimately show ?thesis using assms(1,3) by auto
qed

lemma find_bucket_spec:
  "i < 30 \<Longrightarrow> i \<le> find_bucket bs i \<and> find_bucket bs i < 30 \<and> (\<forall>j. i \<le> j \<and> j < find_bucket bs i \<longrightarrow> bs ! j = NULL)
     \<and> (find_bucket bs i < 29 \<longrightarrow> bs ! find_bucket bs i \<noteq> NULL)"
proof (induction bs i rule: find_bucket.induct)
  case (1 bs i)
  show ?case
  proof (cases "i < 29 \<and> bs ! i = NULL")
    case True
    then have "find_bucket bs i = find_bucket bs (i + 1)" by (subst find_bucket.simps) simp
    with 1(1) True show ?thesis by (auto simp: Suc_le_eq) (metis le_neq_implies_less)+
  next
    case False
    then have "find_bucket bs i = i" by (subst find_bucket.simps) auto
    with 1(2) False show ?thesis by auto
  qed
qed

lemma first_fit_chain:
  "chain m prev p ps l NULL \<Longrightarrow> first_fit m sz p = Some (case find (\<lambda>q. sz \<le> CHUNK_SIZE m q) ps of None \<Rightarrow> NULL | Some q \<Rightarrow> q)"
  by (induction ps arbitrary: prev p) (subst first_fit.simps; auto)+

text \<open>The search of \<open>__mem_malloc\<close> ends, and it finds a free chunk that is large enough when there is one.\<close>

lemma malloc_search:
  assumes h: "heap_ok m bs C" and P: "placed C" and sz: "24 \<le> sz" "8 dvd sz"
  defines "i \<equiv> find_bucket bs (mem_bucket_by_size sz)"
  obtains chunk where "(if i = 29 then first_fit m sz (bs ! i) else Some (bs ! i)) = Some chunk"
    "chunk = NULL \<and> (\<forall>p s. (p, False, s) \<in> C \<longrightarrow> s < sz) \<or> (\<exists>s. chunk \<noteq> NULL \<and> (chunk, False, s) \<in> C \<and> sz \<le> s)"
proof -
  have S: "sized m C" and L: "linked m bs C" using h by (simp_all add: heap_ok_def)
  note i = find_bucket_spec [OF bucket_bound [of sz], of bs, folded i_def]
  from L i obtain ps l where ps: "chain m NULL (bs ! i) ps l NULL" "set ps = bucket_of C i"
    unfolding linked_def free_list_def by metis
  have size: "CHUNK_SIZE m q = s" if "(q, False, s) \<in> C" for q s using sized_simps [OF S P that] by blast
  show thesis
  proof (cases "i = 29")
    case True
    show thesis
    proof (cases "find (\<lambda>q. sz \<le> CHUNK_SIZE m q) ps")
      case None
      have "s < sz" if p: "(p, False, s) \<in> C" for p s
      proof (rule ccontr)
        assume "\<not> s < sz"
        then have b: "mem_bucket_by_size sz \<le> mem_bucket_by_size s" by (intro bucket_mono) simp
        show False
        proof (cases "mem_bucket_by_size s = 29")
          case True
          then have "p \<in> set ps" using p unfolding ps(2) \<open>i = 29\<close> bucket_of_def by blast
          with None size [OF p] \<open>\<not> s < sz\<close> show False by (auto simp: find_None_iff)
        next
          case False
          then have j: "mem_bucket_by_size s < 29" using bucket_bound [of s] by simp
          then have "bs ! mem_bucket_by_size s = NULL" using i b True by blast
          with L bucket_bound [of s] obtain qs k where "chain m NULL NULL qs k NULL" "set qs = bucket_of C (mem_bucket_by_size s)"
            unfolding linked_def free_list_def by metis
          moreover from this(1) have "qs = []" by (cases qs) auto
          ultimately show False using p by (auto simp: bucket_of_def)
        qed
      qed
      with first_fit_chain [OF ps(1), of sz] None True show thesis by (intro that [of NULL]) auto
    next
      case (Some q)
      then have q: "q \<in> set ps" "sz \<le> CHUNK_SIZE m q" by (auto simp: find_Some_iff)
      then obtain s where s: "(q, False, s) \<in> C" unfolding ps(2) bucket_of_def by blast
      have "q \<noteq> NULL" using chain_nonnull [OF ps(1)] q(1) by metis
      with first_fit_chain [OF ps(1), of sz] Some True s q(2) size [OF s] show thesis by (intro that [of q]) auto
    qed
  next
    case False
    then have ne: "i < 29" "bs ! i \<noteq> NULL" using i by auto
    then have "bs ! i \<in> set ps" using ps(1) by (cases ps) auto
    then obtain s where s: "(bs ! i, False, s) \<in> C" "mem_bucket_by_size s = i" unfolding ps(2) bucket_of_def by blast
    have "24 \<le> s" "8 dvd s" using placed_ok [OF P s(1)] by blast+
    moreover have "mem_bucket_by_size sz \<le> mem_bucket_by_size s" "mem_bucket_by_size s < 29" using i s(2) ne(1) by blast+
    ultimately have "sz \<le> s" by (rule bucket_exact [OF sz])
    then show thesis using s(1) ne by (intro that [of "bs ! i"]) auto
  qed
qed

lemma coalesced_split:
  assumes "coalesced (xs @ (False, s) # ys)"
  shows "coalesced (xs @ split_tile s sz @ ys)"
proof -
  have "ys = [] \<or> fst (hd ys)" using assms by (cases ys) (auto simp: coalesced_def successively_append_iff)
  then show ?thesis using assms by (cases ys) (auto simp: coalesced_def successively_append_iff split_tile_def)
qed

lemma shm_inv_free_sizes: "(\<exists>p. (p, u, s) \<in> set (layout a cs)) \<longleftrightarrow> (u, s) \<in> set cs"
  by (induction a cs rule: layout.induct) auto

text \<open>A free chunk is taken out of its list and used, in full or in part.\<close>

lemma malloc_take:
  assumes inv: "shm_inv info (xs @ [(False, s)] @ ys)" and sz: "24 \<le> sz" "8 dvd sz" "sz \<le> s"
  defines "p \<equiv> lo_bound info + extent xs"
  obtains info' where "use_or_split (mem_unlink_chunk info p) p (CHUNK_SIZE (mem info) p) sz = info'"
    "shm_inv info' (xs @ split_tile s sz @ ys)" "same_segment info info'"
    "\<And>a. a \<notin> free_region (set (layout (lo_bound info) (xs @ [(False, s)] @ ys))) \<Longrightarrow> mem info' a = mem info a"
proof -
  let ?C = "set (layout (lo_bound info) (xs @ [(False, s)] @ ys))"
  define R where "R = rest_of (lo_bound info) xs (16 + s) ys"
  have C: "?C = insert (p, False, s) R" unfolding layout_middle by (simp add: R_def p_def)
  have h: "heap_ok (mem info) (buckets info) (insert (p, False, s) R)" using inv unfolding C [symmetric] by (simp add: shm_inv_def)
  have P: "placed (insert (p, False, s) R)" using shm_inv_placed [OF inv] unfolding C .
  have s8: "24 \<le> s" "8 dvd s" using placed_ok [OF P] by blast+
  note hole = hole_placed [OF inv _ s8, folded R_def p_def, simplified]
  have size: "CHUNK_SIZE (mem info) p = s" using sized_simps [OF _ P] h by (auto simp: heap_ok_def)
  from heap_unlink [OF h hole] obtain m bs where u: "mem_unlink_chunk info p = info\<lparr>mem := m, buckets := bs\<rparr>"
    "heap_ok m bs R" "\<And>a. a \<notin> free_region R \<Longrightarrow> m a = mem info a" by metis
  from use_or_split_heap [OF u(2) hole sz] obtain m' bs' where
    v: "use_or_split (info\<lparr>mem := m, buckets := bs\<rparr>) p s sz = info\<lparr>mem := m', buckets := bs',
          used_size := used_size info + of_nat (tile_sizes True (split_tile s sz)),
          free_size := free_size info - of_nat s + of_nat (tile_sizes False (split_tile s sz))\<rparr>"
      "heap_ok m' bs' (set (layout p (split_tile s sz)) \<union> R)"
      "\<And>a. a \<notin> free_region R \<Longrightarrow> a \<noteq> p \<Longrightarrow> a < p + 8 + sz \<or> p + 16 + s \<le> a \<Longrightarrow> m' a = m a" by metis
  let ?info = "info\<lparr>mem := m', buckets := bs', used_size := used_size info + of_nat (tile_sizes True (split_tile s sz)),
          free_size := free_size info - of_nat s + of_nat (tile_sizes False (split_tile s sz))\<rparr>"
  have "shm_inv ?info (xs @ split_tile s sz @ ys)"
  proof (rule shm_inv_replace [OF inv])
    show "coalesced (xs @ split_tile s sz @ ys)" using inv by (intro coalesced_split) (simp add: shm_inv_def)
    show "split_tile s sz \<noteq> []" by (simp add: split_tile_def)
  qed (use v(2) split_tile_ok [OF sz(1,2) s8(2) sz(3)] in \<open>simp_all add: R_def p_def\<close>)
  moreover have "m' a = mem info a" if "a \<notin> free_region ?C" for a
  proof -
    have "a \<notin> free_region R" "a \<notin> region (p, False, s)" using that unfolding C free_region_def by auto
    then show ?thesis using u(3) v(3) [of a] sz(3) by (cases "a < p") auto
  qed
  ultimately show thesis using that [of ?info] unfolding size u(1) v(1) by (simp add: same_segment_def)
qed

lemma mem_malloc_spec:
  fixes n :: nat
  assumes inv: "shm_inv info cs"
  defines "sz \<equiv> mem_proper_alloc_size n" and "C \<equiv> set (layout (lo_bound info) cs)"
  shows "mem_malloc info n = Some (info, NULL) \<and> (\<forall>s. (False, s) \<in> set cs \<longrightarrow> s < sz) \<or>
    (\<exists>info' xs s ys. mem_malloc info n = Some (info', lo_bound info + extent xs) \<and> cs = xs @ (False, s) # ys \<and> sz \<le> s
      \<and> shm_inv info' (xs @ split_tile s sz @ ys) \<and> same_segment info info'
      \<and> (\<forall>a. a \<notin> free_region C \<longrightarrow> mem info' a = mem info a))"
proof -
  have h: "heap_ok (mem info) (buckets info) C" using inv by (simp add: shm_inv_def C_def)
  have P: "placed C" using shm_inv_placed [OF inv] by (simp add: C_def)
  note sz = proper_alloc_size(1,2) [of n, folded sz_def]
  from malloc_search [OF h P sz] obtain chunk where c:
    "(if find_bucket (buckets info) (mem_bucket_by_size sz) = 29
       then first_fit (mem info) sz (buckets info ! find_bucket (buckets info) (mem_bucket_by_size sz))
       else Some (buckets info ! find_bucket (buckets info) (mem_bucket_by_size sz))) = Some chunk"
    "chunk = NULL \<and> (\<forall>p s. (p, False, s) \<in> C \<longrightarrow> s < sz) \<or> (\<exists>s. chunk \<noteq> NULL \<and> (chunk, False, s) \<in> C \<and> sz \<le> s)" by metis
  have M: "mem_malloc info n = (if chunk = NULL then Some (info, NULL)
      else Some (use_or_split (mem_unlink_chunk info chunk) chunk (CHUNK_SIZE (mem info) chunk) sz, chunk))"
    unfolding mem_malloc_def Let_def sz_def [symmetric] using c(1) by simp
  from c(2) show ?thesis
  proof
    assume "chunk = NULL \<and> (\<forall>p s. (p, False, s) \<in> C \<longrightarrow> s < sz)"
    then have "mem_malloc info n = Some (info, NULL)" "\<forall>s. (False, s) \<in> set cs \<longrightarrow> s < sz"
      using M shm_inv_free_sizes [of False _ "lo_bound info" cs] unfolding C_def by auto
    then show ?thesis by blast
  next
    assume "\<exists>s. chunk \<noteq> NULL \<and> (chunk, False, s) \<in> C \<and> sz \<le> s"
    then obtain s where s: "chunk \<noteq> NULL" "(chunk, False, s) \<in> C" "sz \<le> s" by blast
    from layout_split [OF s(2) [unfolded C_def]] obtain xs ys where x: "cs = xs @ [(False, s)] @ ys" "chunk = lo_bound info + extent xs" by auto
    from malloc_take [OF inv [unfolded x(1)] sz s(3)] obtain info' where t:
      "use_or_split (mem_unlink_chunk info chunk) chunk (CHUNK_SIZE (mem info) chunk) sz = info'" "shm_inv info' (xs @ split_tile s sz @ ys)"
      "same_segment info info'" "\<And>a. a \<notin> free_region C \<Longrightarrow> mem info' a = mem info a" unfolding C_def x by metis
    have "mem_malloc info n = Some (info', lo_bound info + extent xs)" unfolding M t(1) x(2) [symmetric] using s(1) by simp
    then show ?thesis using t(2-4) x(1) s(3) by (intro disjI2 exI [of _ info'] exI [of _ xs] exI [of _ s] exI [of _ ys]) simp
  qed
qed

section \<open>Freeing\<close>

lemma shm_inv_heap:
  assumes "shm_inv info cs"
  shows "sized (mem info) (set (layout (lo_bound info) cs))" "heap_ok (mem info) (buckets info) (set (layout (lo_bound info) cs))"
  using assms by (auto simp: shm_inv_def heap_ok_def)

lemma layout_here: "(a + extent xs, u, s) \<in> set (layout a (xs @ (u, s) # ys))"
  by (simp add: layout_append)

lemma chunk_here:
  assumes "shm_inv info (xs @ (u, s) # ys)"
  shows "CHUNK_SIZE (mem info) (lo_bound info + extent xs) = s" "FREE_CHUNK (mem info) (lo_bound info + extent xs) \<longleftrightarrow> \<not> u"
    "CHUNK_SIZE (mem info) (lo_bound info + extent xs + 8 + s) = s" "FREE_CHUNK (mem info) (lo_bound info + extent xs + 8 + s) \<longleftrightarrow> \<not> u"
  using sized_simps [OF shm_inv_heap(1) [OF assms] shm_inv_placed [OF assms] layout_here] by blast+

lemma next_free_iff:
  assumes "shm_inv info (xs @ (u, s) # ys)"
  defines "p \<equiv> lo_bound info + extent xs + 16 + s"
  shows "p < hi_bound info \<and> FREE_CHUNK (mem info) p \<longleftrightarrow> (\<exists>t zs. ys = (False, t) # zs)"
    "ys = (v, t) # zs \<Longrightarrow> CHUNK_SIZE (mem info) p = t"
proof -
  have n: "CHUNK_SIZE (mem info) p = t" "FREE_CHUNK (mem info) p \<longleftrightarrow> \<not> v" if "ys = (v, t) # zs" for v t zs
    using chunk_here(1,2) [of info "xs @ [(u, s)]" v t zs] assms(1) that by (simp_all add: p_def add.assoc)
  then show "ys = (v, t) # zs \<Longrightarrow> CHUNK_SIZE (mem info) p = t" by blast
  have "hi_bound info = p + extent ys" using assms(1) by (simp add: shm_inv_def p_def)
  then show "p < hi_bound info \<and> FREE_CHUNK (mem info) p \<longleftrightarrow> (\<exists>t zs. ys = (False, t) # zs)"
    using n(2) by (cases ys) auto
qed

lemma prev_free_iff:
  assumes "shm_inv info (xs @ (u, s) # ys)"
  defines "p \<equiv> lo_bound info + extent xs"
  shows "lo_bound info < p \<and> FREE_CHUNK (mem info) (p - 8) \<longleftrightarrow> (\<exists>t zs. xs = zs @ [(False, t)])"
    "xs = zs @ [(v, t)] \<Longrightarrow> CHUNK_SIZE (mem info) (p - 8) = t"
proof -
  have n: "CHUNK_SIZE (mem info) (p - 8) = t" "FREE_CHUNK (mem info) (p - 8) \<longleftrightarrow> \<not> v" if "xs = zs @ [(v, t)]" for v t zs
  proof -
    have "p - 8 = lo_bound info + extent zs + 8 + t" using that by (simp add: p_def)
    then show "CHUNK_SIZE (mem info) (p - 8) = t" "FREE_CHUNK (mem info) (p - 8) \<longleftrightarrow> \<not> v"
      using chunk_here(3,4) [of info zs v t "(u, s) # ys"] assms(1) that by simp_all
  qed
  then show "xs = zs @ [(v, t)] \<Longrightarrow> CHUNK_SIZE (mem info) (p - 8) = t" by blast
  show "lo_bound info < p \<and> FREE_CHUNK (mem info) (p - 8) \<longleftrightarrow> (\<exists>t zs. xs = zs @ [(False, t)])"
  proof (cases xs rule: rev_cases)
    case (snoc zs c)
    then show ?thesis using n(2) [of zs "fst c" "snd c"] by (cases c) (auto simp: p_def)
  qed (simp add: p_def)
qed

lemma free_finish:
  assumes inv: "shm_inv info (xs @ mid @ ys)" and S: "extent mid = 16 + S" "24 \<le> S" "8 dvd S"
    and h: "heap_ok m bs (rest_of (lo_bound info) xs (16 + S) ys)" and co: "coalesced (xs @ [(False, S)] @ ys)"
  defines "q \<equiv> lo_bound info + extent xs" and "used \<equiv> used_size info - of_nat (tile_sizes True mid)"
    and "free \<equiv> free_size info - of_nat (tile_sizes False mid) + of_nat S"
  obtains m' bs' where
    "mem_link_chunk (info\<lparr>mem := mem_set_chunk_size m q S, buckets := bs, used_size := used, free_size := free\<rparr>) q
       = info\<lparr>mem := m', buckets := bs', used_size := used, free_size := free\<rparr>"
    "shm_inv (info\<lparr>mem := m', buckets := bs', used_size := used, free_size := free\<rparr>) (xs @ [(False, S)] @ ys)"
    "\<And>a. a \<notin> free_region (rest_of (lo_bound info) xs (16 + S) ys) \<Longrightarrow> a \<notin> region (q, False, S) \<Longrightarrow> m' a = m a"
proof -
  let ?R = "rest_of (lo_bound info) xs (16 + S) ys" and ?i = "info\<lparr>mem := m, buckets := bs, used_size := used, free_size := free\<rparr>"
  note hole = hole_placed [OF inv S, of False, folded q_def]
  have "heap_ok (mem ?i) (buckets ?i) ?R" using h by simp
  from heap_add_free [OF this hole] obtain m' bs' where l:
    "mem_link_chunk (?i\<lparr>mem := mem_set_chunk_size (mem ?i) q S\<rparr>) q = ?i\<lparr>mem := m', buckets := bs'\<rparr>"
    "heap_ok m' bs' (insert (q, False, S) ?R)" "\<And>a. a \<notin> free_region ?R \<Longrightarrow> a \<notin> region (q, False, S) \<Longrightarrow> m' a = mem ?i a" by metis
  have "shm_inv (info\<lparr>mem := m', buckets := bs', used_size := used, free_size := free\<rparr>) (xs @ [(False, S)] @ ys)"
    by (rule shm_inv_replace [OF inv _ _ _ co]) (use l(2) S in \<open>simp_all add: q_def tile_ok_def used_def free_def\<close>)
  moreover have "mem_link_chunk (info\<lparr>mem := mem_set_chunk_size m q S, buckets := bs, used_size := used, free_size := free\<rparr>) q
       = info\<lparr>mem := m', buckets := bs', used_size := used, free_size := free\<rparr>" using l(1) by (simp add: upd_order)
  ultimately show thesis using l(3) that [of bs' m'] by simp
qed

text \<open>The chunks around a chunk that is freed are taken out of their lists first.\<close>

definition unlink_all :: "chunk list \<Rightarrow> zbx_shmem_info \<Rightarrow> zbx_shmem_info" where
  "unlink_all fs info = fold (\<lambda>c i. mem_unlink_chunk i (fst c)) fs info"

lemma free_region_mono: "C \<subseteq> D \<Longrightarrow> free_region C \<subseteq> free_region D"
  by (auto simp: free_region_def)

lemma heap_unlink_all:
  "heap_ok (mem info) (buckets info) (set fs \<union> D) \<Longrightarrow> placed (set fs \<union> D) \<Longrightarrow> distinct fs \<Longrightarrow> set fs \<inter> D = {} \<Longrightarrow>
   \<forall>c \<in> set fs. \<not> fst (snd c) \<Longrightarrow>
   \<exists>m bs. unlink_all fs info = info\<lparr>mem := m, buckets := bs\<rparr> \<and> heap_ok m bs D \<and> (\<forall>a. a \<notin> free_region (set fs \<union> D) \<longrightarrow> m a = mem info a)"
proof (induction fs arbitrary: info)
  case Nil
  then show ?case by (intro exI [of _ "mem info"] exI [of _ "buckets info"]) (simp add: unlink_all_def)
next
  case (Cons c fs)
  obtain p s where c: "c = (p, False, s)" using Cons.prems(5) by (cases c) auto
  let ?D = "set fs \<union> D"
  have ins: "set (c # fs) \<union> D = insert (p, False, s) ?D" by (simp add: c)
  have n: "(p, False, s) \<notin> ?D" using Cons.prems(3,4) c by auto
  from heap_unlink [OF Cons.prems(1,2) [unfolded ins] n] obtain m bs where
    u: "mem_unlink_chunk info p = info\<lparr>mem := m, buckets := bs\<rparr>" "heap_ok m bs ?D" "\<And>a. a \<notin> free_region ?D \<Longrightarrow> m a = mem info a" by metis
  let ?i = "info\<lparr>mem := m, buckets := bs\<rparr>"
  have P: "placed ?D" by (rule placed_mono [OF Cons.prems(2)]) auto
  have "heap_ok (mem ?i) (buckets ?i) ?D" using u(2) by simp
  from Cons.IH [OF this P] Cons.prems(3-5) obtain m' bs' where
    v: "unlink_all fs ?i = info\<lparr>mem := m', buckets := bs'\<rparr>" "heap_ok m' bs' D" "\<And>a. a \<notin> free_region ?D \<Longrightarrow> m' a = m a" by auto
  have "unlink_all (c # fs) info = info\<lparr>mem := m', buckets := bs'\<rparr>" using v(1) u(1) c by (simp add: unlink_all_def)
  moreover have "\<forall>a. a \<notin> free_region (set (c # fs) \<union> D) \<longrightarrow> m' a = mem info a"
    using u(3) v(3) free_region_mono [of ?D "set (c # fs) \<union> D"] by auto
  ultimately show ?case using v(2) by blast
qed

text \<open>What stands before or behind a chunk up to the next chunk in use: at most one free chunk.\<close>

definition gap :: "tile list \<Rightarrow> bool" where
  "gap cs \<longleftrightarrow> cs = [] \<or> (\<exists>a. cs = [(False, a)])"

lemma gap_before: "\<exists>zs pre. xs = zs @ pre \<and> gap pre \<and> (pre = [] \<longrightarrow> (\<nexists>t ws. zs = ws @ [(False, t)]))"
proof (cases xs rule: rev_cases)
  case (snoc zs c)
  then show ?thesis
    by (cases "fst c"; cases c) (auto simp: gap_def intro: exI [of _ "[c]"])
qed (auto simp: gap_def)

lemma gap_behind: "\<exists>post zs. xs = post @ zs \<and> gap post \<and> (post = [] \<longrightarrow> (\<nexists>t ws. zs = (False, t) # ws))"
proof (cases xs)
  case (Cons c zs)
  then show ?thesis
    by (cases "fst c"; cases c) (auto simp: gap_def intro: exI [of _ "[c]"])
qed (auto simp: gap_def)

lemma mem_free_eq:
  assumes inv: "shm_inv info (xs @ pre @ [(True, s)] @ post @ ys)"
    and pre: "gap pre" "pre = [] \<Longrightarrow> \<nexists>t zs. xs = zs @ [(False, t)]" and post: "gap post" "post = [] \<Longrightarrow> \<nexists>t zs. ys = (False, t) # zs"
  defines "q \<equiv> lo_bound info + extent xs" and "S \<equiv> extent pre + s + extent post"
  shows "mem_free info (q + extent pre + 8) =
    (let i = unlink_all (layout q pre @ layout (q + extent pre + 16 + s) post)
          (info\<lparr>used_size := used_size info - of_nat s,
             free_size := free_size info - of_nat (tile_sizes False pre + tile_sizes False post) + of_nat S\<rparr>)
     in mem_link_chunk (i\<lparr>mem := mem_set_chunk_size (mem i) q S\<rparr>) q)"
    (is "_ = ?r")
proof -
  define p where "p = q + extent pre"
  have inv': "shm_inv info ((xs @ pre) @ (True, s) # post @ ys)" using inv by simp
  have p: "lo_bound info + extent (xs @ pre) = p" by (simp add: p_def q_def)
  note here = chunk_here(1) [OF inv', unfolded p] and prv = prev_free_iff [OF inv', unfolded p] and nxt = next_free_iff [OF inv', unfolded p]
  have pf: "lo_bound info < p \<and> FREE_CHUNK (mem info) (p - 8) \<longleftrightarrow> pre \<noteq> []"
    unfolding prv(1) using pre by (auto simp: gap_def)
  have nf: "p + 16 + s < hi_bound info \<and> FREE_CHUNK (mem info) (p + 16 + s) \<longleftrightarrow> post \<noteq> []"
    unfolding nxt(1) using post by (auto simp: gap_def)
  have a: "CHUNK_SIZE (mem info) (p - 8) = a" "CHUNK_SIZE (mem info) q = a" "p - 8 - a - 8 = q" if "pre = [(False, a)]" for a
    using prv(2) [of xs False a] chunk_here(1) [of info xs False a] inv that by (simp_all add: p_def q_def)
  have b: "CHUNK_SIZE (mem info) (p + 16 + s) = b" if "post = [(False, b)]" for b
    using nxt(2) [of False b ys] that by simp
  have n: "p + 8 + s + 8 = p + 16 + s" by simp
  note M = mem_free_def [of info "p + 8", unfolded Let_def add_diff_cancel_right' n, simplified here n zbx_shmem_info.simps]
  note D = Let_def unlink_all_def S_def algebra_simps
  consider "pre = []" "post = []" | a where "pre = [(False, a)]" "post = []" | b where "pre = []" "post = [(False, b)]"
    | a b where "pre = [(False, a)]" "post = [(False, b)]" using pre(1) post(1) unfolding gap_def by blast
  then have "mem_free info (p + 8) = ?r"
  proof cases
    case 1
    then have "p = q" by (simp add: p_def)
    with 1 pf nf M show ?thesis by (cases "lo_bound info < p"; cases "p + 16 + s < hi_bound info"; simp add: D)
  next
    case 2
    with a [OF 2(1)] pf nf M show ?thesis by (cases "p + 16 + s < hi_bound info"; simp add: D)
  next
    case 3
    then have "p = q" by (simp add: p_def)
    with 3 b [OF 3(2)] pf nf M show ?thesis by (cases "lo_bound info < p"; simp add: D)
  next
    case 4
    then have "p = q + 16 + a" by (simp add: p_def)
    with 4 a [OF 4(1)] b [OF 4(2)] pf nf M show ?thesis by (simp add: D)
  qed
  then show ?thesis by (simp only: p_def)
qed

lemma coalesced_free:
  "coalesced (xs @ [(False, t)] @ ys) \<longleftrightarrow> coalesced xs \<and> coalesced ys
     \<and> (\<nexists>t zs. xs = zs @ [(False, t)]) \<and> (\<nexists>t zs. ys = (False, t) # zs)"
  unfolding coalesced_def by (cases xs rule: rev_cases; cases ys) (auto simp: successively_append_iff)

lemma coalesced_appendD: "coalesced (xs @ ys) \<Longrightarrow> coalesced xs \<and> coalesced ys"
  by (auto simp: coalesced_def successively_append_iff)

lemma coalesced_merge:
  assumes "coalesced (xs @ pre @ [(True, s)] @ post @ ys)" "gap pre" "gap post"
    and "pre = [] \<Longrightarrow> \<nexists>t zs. xs = zs @ [(False, t)]" "post = [] \<Longrightarrow> \<nexists>t zs. ys = (False, t) # zs"
  shows "coalesced (xs @ [(False, t)] @ ys)"
proof -
  have "coalesced xs" "coalesced ys" using assms(1) by (blast dest: coalesced_appendD)+
  moreover have "\<nexists>t zs. xs = zs @ [(False, t)]"
    using assms(1,2,4) by (auto simp: gap_def coalesced_def successively_append_iff)
  moreover have "\<nexists>t zs. ys = (False, t) # zs"
    using assms(1,3,5) by (auto simp: gap_def coalesced_def successively_append_iff)
  ultimately show ?thesis unfolding coalesced_free by blast
qed

lemma gap_layout: "gap cs \<Longrightarrow> \<forall>c \<in> set (layout a cs). \<not> fst (snd c)"
  by (auto simp: gap_def)

lemma gap_region: "gap cs \<Longrightarrow> a \<le> x \<Longrightarrow> x < a + extent cs \<Longrightarrow> x \<in> free_region (set (layout a cs))"
  by (auto simp: gap_def free_region_def)

lemma gap_sizes: "gap cs \<Longrightarrow> tile_sizes True cs = 0"
  by (auto simp: gap_def)

lemma mem_free_merge:
  assumes inv: "shm_inv info (xs @ pre @ [(True, s)] @ post @ ys)" and g: "gap pre" "gap post"
    and e: "pre = [] \<Longrightarrow> \<nexists>t zs. xs = zs @ [(False, t)]" "post = [] \<Longrightarrow> \<nexists>t zs. ys = (False, t) # zs"
  defines "q \<equiv> lo_bound info + extent xs" and "S \<equiv> extent pre + s + extent post"
  obtains info' where "mem_free info (q + extent pre + 8) = info'" "shm_inv info' (xs @ [(False, S)] @ ys)" "same_segment info info'"
    "\<And>a. a \<notin> free_region (set (layout (lo_bound info) (xs @ pre @ [(True, s)] @ post @ ys))) \<Longrightarrow>
       a \<notin> region (q + extent pre, True, s) \<Longrightarrow> mem info' a = mem info a"
proof -
  let ?mid = "pre @ [(True, s)] @ post" and ?fs = "layout q pre @ layout (q + extent pre + 16 + s) post"
  let ?C = "set (layout (lo_bound info) (xs @ ?mid @ ys))" and ?R = "rest_of (lo_bound info) xs (16 + S) ys"
  have inv': "shm_inv info (xs @ ?mid @ ys)" using inv by simp
  have ext: "extent ?mid = 16 + S" by (simp add: S_def)
  have lm: "layout q ?mid = layout q pre @ (q + extent pre, True, s) # layout (q + extent pre + 16 + s) post"
    by (simp add: layout_append add.assoc)
  have C: "?C = insert (q + extent pre, True, s) (set ?fs \<union> ?R)"
    unfolding layout_middle [of "lo_bound info" xs ?mid ys] ext q_def [symmetric] lm by auto
  have dis: "distinct ?fs" "set ?fs \<inter> ?R = {}"
    using layout_distinct [of q ?mid] middle_disjoint [of "lo_bound info" xs ?mid ys] unfolding ext q_def [symmetric] lm by auto
  have tiles: "24 \<le> s" "8 dvd s" "list_all tile_ok pre" "list_all tile_ok post" using inv by (simp_all add: shm_inv_def tile_ok_def)
  have S: "24 \<le> S" "8 dvd S" using tiles g by (auto simp: S_def gap_def tile_ok_def)
  define u where "u = used_size info - of_nat s"
  define f where "f = free_size info - of_nat (tile_sizes False pre + tile_sizes False post) + of_nat S"
  let ?i = "info\<lparr>used_size := u, free_size := f\<rparr>"
  have "heap_ok (mem ?i) (buckets ?i) (set ?fs \<union> ?R)"
    using shm_inv_heap(2) [OF inv'] unfolding C heap_ok_used by simp
  moreover have "placed (set ?fs \<union> ?R)" using shm_inv_placed [OF inv'] unfolding C by (rule placed_mono) blast
  moreover have "\<forall>c \<in> set ?fs. \<not> fst (snd c)" using gap_layout [OF g(1)] gap_layout [OF g(2)] by (metis Un_iff set_append)
  ultimately obtain m bs where un: "unlink_all ?fs ?i = ?i\<lparr>mem := m, buckets := bs\<rparr>" "heap_ok m bs ?R"
    "\<And>a. a \<notin> free_region (set ?fs \<union> ?R) \<Longrightarrow> m a = mem ?i a" using heap_unlink_all dis by meson
  have "coalesced (xs @ pre @ [(True, s)] @ post @ ys)" using inv by (simp add: shm_inv_def)
  from coalesced_merge [OF this g e] have co: "coalesced (xs @ [(False, S)] @ ys)" .
  have uf: "u = used_size info - of_nat (tile_sizes True ?mid)" "f = free_size info - of_nat (tile_sizes False ?mid) + of_nat S"
    using g by (simp_all add: u_def f_def gap_sizes)
  from free_finish [OF inv' ext S un(2) co, folded q_def uf] obtain m' bs' where fin:
    "mem_link_chunk (info\<lparr>mem := mem_set_chunk_size m q S, buckets := bs, used_size := u, free_size := f\<rparr>) q
      = info\<lparr>mem := m', buckets := bs', used_size := u, free_size := f\<rparr>"
    "shm_inv (info\<lparr>mem := m', buckets := bs', used_size := u, free_size := f\<rparr>) (xs @ [(False, S)] @ ys)"
    "\<And>a. a \<notin> free_region ?R \<Longrightarrow> a \<notin> region (q, False, S) \<Longrightarrow> m' a = m a" by metis
  have "mem_free info (q + extent pre + 8) = info\<lparr>mem := m', buckets := bs', used_size := u, free_size := f\<rparr>"
    using mem_free_eq [OF inv g(1) e(1) g(2) e(2), folded q_def S_def u_def, folded f_def, unfolded un(1)] fin(1) by (simp add: Let_def upd_order)
  moreover have "m' a = mem info a" if "a \<notin> free_region ?C" "a \<notin> region (q + extent pre, True, s)" for a
  proof -
    have sub: "a \<notin> free_region D" if "D \<subseteq> set ?fs \<union> ?R" for D
    proof -
      have "D \<subseteq> ?C" using that unfolding C by blast
      from free_region_mono [OF this] \<open>a \<notin> free_region ?C\<close> show ?thesis by blast
    qed
    have "a \<notin> free_region (set (layout q pre))" "a \<notin> free_region (set (layout (q + extent pre + 16 + s) post))" by (rule sub; auto)+
    then have "a \<notin> region (q, False, S)"
      using that(2) gap_region [OF g(1), of q a] gap_region [OF g(2), of "q + extent pre + 16 + s" a] by (auto simp: S_def)
    with sub [of ?R] sub [of "set ?fs \<union> ?R"] un(3) fin(3) show ?thesis by simp
  qed
  ultimately show thesis using fin(2) that [of "info\<lparr>mem := m', buckets := bs', used_size := u, free_size := f\<rparr>"]
    by (simp add: same_segment_def)
qed

end
