(* ===== verification/Shmem_Blocks.thy ===== *)
theory Shmem_Blocks
  imports Shmem_Alloc
begin

text \<open>
  Reallocation, and the contract of the shared memory allocator in terms of the blocks that its clients hold: a map
  from user pointers to sizes.
\<close>

section \<open>Reallocation in place\<close>

text \<open>A used chunk and the free chunk behind it, if there is one, become a hole.\<close>

lemma open_hole:
  assumes inv: "shm_inv info (xs @ ((True, s) # post) @ ys)" and g: "gap post"
  defines "p \<equiv> lo_bound info + extent xs" and "S \<equiv> s + extent post"
  defines "R \<equiv> rest_of (lo_bound info) xs (16 + S) ys"
  obtains m bs where "\<And>u f. unlink_all (layout (p + 16 + s) post) (info\<lparr>used_size := u, free_size := f\<rparr>)
      = info\<lparr>mem := m, buckets := bs, used_size := u, free_size := f\<rparr>"
    "heap_ok m bs R" "placed (insert (p, True, S) R)" "(p, True, S) \<notin> R" "8 dvd S" "24 \<le> s" "8 dvd s"
    "free_region R \<subseteq> free_region (set (layout (lo_bound info) (xs @ ((True, s) # post) @ ys)))"
    "\<And>a. a \<notin> free_region (set (layout (lo_bound info) (xs @ ((True, s) # post) @ ys))) \<Longrightarrow> m a = mem info a"
proof -
  let ?fs = "layout (p + 16 + s) post" and ?C = "set (layout (lo_bound info) (xs @ ((True, s) # post) @ ys))"
  have tiles: "24 \<le> s" "8 dvd s" "list_all tile_ok post" using inv by (simp_all add: shm_inv_def tile_ok_def)
  have S: "24 \<le> S" "8 dvd S" using tiles g by (auto simp: S_def gap_def tile_ok_def)
  have ext: "extent ((True, s) # post) = 16 + S" by (simp add: S_def)
  note hole = hole_placed [OF inv ext S, of True, folded p_def R_def]
  have C: "?C = insert (p, True, s) (set ?fs \<union> R)"
    unfolding layout_middle ext R_def p_def by simp
  have dis: "distinct ?fs" "set ?fs \<inter> R = {}"
    using layout_distinct [of "p + 16 + s" post] middle_disjoint [of "lo_bound info" xs "(True, s) # post" ys] unfolding ext R_def p_def by auto
  have h: "heap_ok (mem info) (buckets info) (set ?fs \<union> R)" using shm_inv_heap(2) [OF inv] unfolding C heap_ok_used by simp
  have P: "placed (set ?fs \<union> R)" using shm_inv_placed [OF inv] unfolding C by (rule placed_mono) blast
  from heap_unlink_all [OF h P dis gap_layout [OF g]] obtain m bs where un: "unlink_all ?fs info = info\<lparr>mem := m, buckets := bs\<rparr>" "heap_ok m bs R"
    "\<And>a. a \<notin> free_region (set ?fs \<union> R) \<Longrightarrow> m a = mem info a" by metis
  have comm: "mem_unlink_chunk (i\<lparr>used_size := u, free_size := f\<rparr>) q = (mem_unlink_chunk i q)\<lparr>used_size := u, free_size := f\<rparr>" for i u f q
    by (simp add: mem_unlink_chunk_def Let_def upd_order)
  have eq: "unlink_all ?fs (info\<lparr>used_size := u, free_size := f\<rparr>) = info\<lparr>mem := m, buckets := bs, used_size := u, free_size := f\<rparr>" for u f
    using un(1) g comm by (auto simp: unlink_all_def gap_def)
  have sub: "free_region (set ?fs \<union> R) \<subseteq> free_region ?C" "free_region R \<subseteq> free_region ?C"
    unfolding C by (rule free_region_mono; blast)+
  have "\<And>a. a \<notin> free_region ?C \<Longrightarrow> m a = mem info a" using un(3) sub(1) by blast
  with eq un(2) hole S(2) tiles(1,2) sub(2) show thesis by (rule that)
qed

lemma coalesced_used:
  assumes "coalesced (xs @ ((True, s) # post) @ ys)" "gap post" "post = [] \<Longrightarrow> \<nexists>t zs. ys = (False, t) # zs"
  shows "coalesced (xs @ [(True, sz), (False, t)] @ ys)" "coalesced (xs @ split_tile S sz @ ys)"
proof -
  have "coalesced xs" "coalesced (post @ ys)" using assms(1) by (auto simp: coalesced_def successively_append_iff successively_Cons)
  moreover from this(2) assms(2,3) have "coalesced ys" "\<nexists>t zs. ys = (False, t) # zs"
    by (auto simp: gap_def coalesced_def successively_Cons)
  ultimately show "coalesced (xs @ [(True, sz), (False, t)] @ ys)" "coalesced (xs @ split_tile S sz @ ys)"
    by (cases ys; auto simp: coalesced_def successively_append_iff successively_Cons split_tile_def)+
qed

lemma realloc_shrink_spec:
  assumes inv: "shm_inv info (xs @ ((True, s) # post) @ ys)" and g: "gap post" "post = [] \<Longrightarrow> \<nexists>t zs. ys = (False, t) # zs"
    and sz: "24 \<le> sz" "8 dvd sz" "sz \<le> s div 4"
  defines "p \<equiv> lo_bound info + extent xs" and "t \<equiv> s + extent post - sz - 16"
  obtains info' where "realloc_shrink info p s (p + 16 + s) (post \<noteq> []) sz = info'"
    "shm_inv info' (xs @ [(True, sz), (False, t)] @ ys)" "same_segment info info'"
    "\<And>a. a \<notin> free_region (set (layout (lo_bound info) (xs @ ((True, s) # post) @ ys))) \<Longrightarrow>
       a \<notin> {p + 8 + sz..<p + 16 + s} \<Longrightarrow> a \<noteq> p \<Longrightarrow> mem info' a = mem info a"
proof -
  define S where "S = s + extent post"
  define C where "C = set (layout (lo_bound info) (xs @ ((True, s) # post) @ ys))"
  define R where "R = rest_of (lo_bound info) xs (16 + S) ys"
  from open_hole [OF inv g(1), folded p_def S_def, folded R_def C_def] obtain m bs where o:
    "\<And>u f. unlink_all (layout (p + 16 + s) post) (info\<lparr>used_size := u, free_size := f\<rparr>) = info\<lparr>mem := m, buckets := bs, used_size := u, free_size := f\<rparr>"
    "heap_ok m bs R" "placed (insert (p, True, S) R)" "(p, True, S) \<notin> R" "8 dvd S" "24 \<le> s" "8 dvd s" "free_region R \<subseteq> free_region C"
    "\<And>a. a \<notin> free_region C \<Longrightarrow> m a = mem info a" by metis
  have S: "S = sz + 16 + t" using sz by (simp add: S_def t_def)
  then have "8 dvd t" using o(5) sz(2) by presburger
  moreover have "24 \<le> t" using sz by (simp add: t_def)
  ultimately have ok: "list_all tile_ok [(True, sz), (False, t)]" using sz by (simp add: tile_ok_def)
  define u where "u = used_size info - of_nat (s - sz)"
  define f where "f = free_size info - of_nat (tile_sizes False post) + of_nat t"
  from heap_carve [OF o(2) o(3,4) [unfolded S] ok, of "info\<lparr>used_size := u, free_size := f\<rparr>"] obtain m' bs' where c:
    "mem_link_chunk (info\<lparr>used_size := u, free_size := f, mem := mem_set_chunk_size m (p + 16 + sz) t, buckets := bs\<rparr>) (p + 16 + sz)
      = info\<lparr>used_size := u, free_size := f, mem := m', buckets := bs'\<rparr>"
    "heap_ok (mem_set_used_chunk_size m' p sz) bs' (set (layout p [(True, sz), (False, t)]) \<union> R)"
    "\<And>a. a \<notin> free_region R \<Longrightarrow> a \<noteq> p \<Longrightarrow> a < p + 8 + sz \<or> p + 32 + sz + t \<le> a \<Longrightarrow> mem_set_used_chunk_size m' p sz a = m a" by metis
  let ?info = "info\<lparr>mem := mem_set_used_chunk_size m' p sz, buckets := bs', used_size := u, free_size := f\<rparr>"
  have un: "unlink_all (layout (p + 16 + s) post) (info\<lparr>used_size := u, free_size := f\<rparr>) = info\<lparr>mem := m, buckets := bs, used_size := u, free_size := f\<rparr>"
    by (rule o(1))
  have q: "p + 8 + sz + 8 = p + 16 + sz" by simp
  have "realloc_shrink info p s (p + 16 + s) (post \<noteq> []) sz = ?info"
  proof (cases "post = []")
    case True
    then have "f = free_size info + of_nat (s - sz - 2 * 8)" "t = s - sz - 2 * 8" by (simp_all add: f_def t_def)
    moreover have "mem info = m" "buckets info = bs"
      using un True by (auto simp: unlink_all_def dest: arg_cong [where f = mem] arg_cong [where f = buckets])
    ultimately show ?thesis using True c(1) unfolding realloc_shrink_def Let_def q by (auto simp: u_def [symmetric] upd_order)
  next
    case False
    with g(1) obtain b where b: "post = [(False, b)]" by (auto simp: gap_def)
    have "CHUNK_SIZE (mem info) (p + 16 + s) = b" using next_free_iff(2) [of info xs True s "post @ ys" False b ys] inv by (simp add: b p_def)
    moreover have "f = free_size info + of_nat (s - sz)" "t = b + (s - sz)" using sz by (simp_all add: f_def t_def b of_nat_diff)
    moreover have "mem_unlink_chunk (info\<lparr>used_size := u, free_size := f\<rparr>) (p + 16 + s) = info\<lparr>mem := m, buckets := bs, used_size := u, free_size := f\<rparr>"
      using un by (simp add: unlink_all_def b)
    ultimately show ?thesis using False c(1) unfolding realloc_shrink_def Let_def q by (simp add: u_def [symmetric] upd_order)
  qed
  moreover have "shm_inv ?info (xs @ [(True, sz), (False, t)] @ ys)"
  proof (rule shm_inv_replace [OF inv])
    have "coalesced (xs @ ((True, s) # post) @ ys)" using inv by (simp add: shm_inv_def)
    from coalesced_used(1) [OF this g] show "coalesced (xs @ [(True, sz), (False, t)] @ ys)" .
    have "extent ((True, s) # post) = 16 + S" by (simp add: S_def)
    then show "heap_ok (mem_set_used_chunk_size m' p sz) bs' (set (layout (lo_bound info + extent xs) [(True, sz), (False, t)])
      \<union> rest_of (lo_bound info) xs (extent ((True, s) # post)) ys)" using c(2) by (simp only: R_def p_def)
  qed (use ok S g(1) sz in \<open>simp_all add: p_def R_def S_def u_def f_def gap_sizes of_nat_diff\<close>)
  moreover have "mem ?info a = mem info a" if "a \<notin> free_region C" "a \<notin> {p + 8 + sz..<p + 16 + s}" "a \<noteq> p" for a
  proof -
    have "set (layout (p + 16 + s) post) \<subseteq> C" unfolding C_def layout_middle p_def by auto
    with free_region_mono [OF this] that(1) have "a \<notin> free_region (set (layout (p + 16 + s) post))" by blast
    then have "\<not> (p + 16 + s \<le> a \<and> a < p + 16 + s + extent post)" using gap_region [OF g(1)] by blast
    then have "a < p + 16 + s \<or> p + 16 + S \<le> a" by (auto simp: S_def)
    moreover have "a \<notin> free_region R" using o(8) that(1) by blast
    ultimately show ?thesis using o(9) c(3) [of a] that S by auto
  qed
  ultimately show thesis using that [of ?info] unfolding C_def by (simp add: same_segment_def)
qed

lemma realloc_grow_spec:
  assumes inv: "shm_inv info (xs @ [(True, s), (False, t)] @ ys)" and sz: "24 \<le> sz" "8 dvd sz" "s < sz" "sz \<le> s + 16 + t"
  defines "p \<equiv> lo_bound info + extent xs"
  obtains info' where "realloc_grow info p s (p + 16 + s) sz = info'" "shm_inv info' (xs @ split_tile (s + 16 + t) sz @ ys)"
    "same_segment info info'" "\<And>a. a \<notin> free_region (set (layout (lo_bound info) (xs @ [(True, s), (False, t)] @ ys))) \<Longrightarrow>
       a \<noteq> p \<Longrightarrow> mem info' a = mem info a"
proof -
  define S where "S = s + 16 + t"
  define C where "C = set (layout (lo_bound info) (xs @ ((True, s) # [(False, t)]) @ ys))"
  define R where "R = rest_of (lo_bound info) xs (16 + S) ys"
  have g: "gap [(False, t)]" by (simp add: gap_def)
  have S': "S = s + extent [(False, t)]" by (simp add: S_def)
  from open_hole [OF inv g, folded p_def S', folded R_def C_def] obtain m bs where o:
    "\<And>u f. unlink_all (layout (p + 16 + s) [(False, t)]) (info\<lparr>used_size := u, free_size := f\<rparr>) = info\<lparr>mem := m, buckets := bs, used_size := u, free_size := f\<rparr>"
    "heap_ok m bs R" "placed (insert (p, True, S) R)" "(p, True, S) \<notin> R" "8 dvd S" "24 \<le> s" "8 dvd s" "free_region R \<subseteq> free_region C"
    "\<And>a. a \<notin> free_region C \<Longrightarrow> m a = mem info a" by metis
  have size: "CHUNK_SIZE (mem info) (p + 16 + s) = t" using next_free_iff(2) [of info xs True s "(False, t) # ys" False t ys] inv by (simp add: p_def)
  define u where "u = used_size info - of_nat s"
  define f where "f = free_size info + of_nat (s + 2 * 8)"
  have un: "mem_unlink_chunk (info\<lparr>used_size := u, free_size := f\<rparr>) (p + 16 + s) = info\<lparr>mem := m, buckets := bs, used_size := u, free_size := f\<rparr>"
    using o(1) by (simp add: unlink_all_def)
  from use_or_split_heap [OF o(2-4) sz(1,2) sz(4) [folded S_def], of "info\<lparr>used_size := u, free_size := f\<rparr>", simplified upd_order, simplified]
  obtain m' bs' where v:
    "use_or_split (info\<lparr>used_size := u, free_size := f, mem := m, buckets := bs\<rparr>) p S sz =
       info\<lparr>mem := m', buckets := bs', used_size := u + of_nat (tile_sizes True (split_tile S sz)),
         free_size := f - of_nat S + of_nat (tile_sizes False (split_tile S sz))\<rparr>"
    "heap_ok m' bs' (set (layout p (split_tile S sz)) \<union> R)"
    "\<And>a. a \<notin> free_region R \<Longrightarrow> a \<noteq> p \<Longrightarrow> a < p + 8 + sz \<or> p + 16 + S \<le> a \<Longrightarrow> m' a = m a"
    unfolding upd_order by metis
  let ?info = "info\<lparr>mem := m', buckets := bs', used_size := u + of_nat (tile_sizes True (split_tile S sz)),
      free_size := f - of_nat S + of_nat (tile_sizes False (split_tile S sz))\<rparr>"
  have "realloc_grow info p s (p + 16 + s) sz = ?info"
    using un v(1) unfolding realloc_grow_def Let_def u_def [symmetric] f_def [symmetric] by (simp add: size S_def upd_order)
  moreover have "shm_inv ?info (xs @ split_tile S sz @ ys)"
  proof (rule shm_inv_replace [OF inv])
    have "coalesced (xs @ ((True, s) # [(False, t)]) @ ys)" using inv by (simp add: shm_inv_def)
    from coalesced_used(2) [OF this g] show "coalesced (xs @ split_tile S sz @ ys)" by simp
    show "split_tile S sz \<noteq> []" by (simp add: split_tile_def)
  qed (use v(2) split_tile_ok [OF sz(1,2) o(5)] sz(4) in \<open>simp_all add: R_def p_def S_def u_def f_def\<close>)
  moreover have "m' a = mem info a" if "a \<notin> free_region C" "a \<noteq> p" for a
  proof -
    have "(p + 16 + s, False, t) \<in> C" unfolding C_def layout_middle p_def by simp
    then have "region (p + 16 + s, False, t) \<subseteq> free_region C" unfolding free_region_def by force
    then have "a \<notin> region (p + 16 + s, False, t)" using that(1) by blast
    then have "a < p + 16 + s \<or> p + 16 + S \<le> a" by (auto simp: S_def)
    moreover have "s + 8 \<le> sz" using sz(2,3) o(7) by (auto elim!: dvdE)
    moreover have "a \<notin> free_region R" using o(8) that(1) by blast
    ultimately show ?thesis using o(9) v(3) [of a] that by auto
  qed
  ultimately show thesis using that [of ?info] unfolding C_def S_def by (simp add: same_segment_def)
qed

section \<open>Blocks\<close>

definition blocks :: "bool \<Rightarrow> nat \<Rightarrow> tile list \<Rightarrow> nat \<rightharpoonup> nat" where
  "blocks u a cs = map_of (map (\<lambda>(p, v, s). (p + 8, s)) (filter (\<lambda>(p, v, s). v = u) (layout a cs)))"

lemma layout_keys: "distinct (map fst (layout a cs))"
proof (induction a cs rule: layout.induct)
  case (2 a u s cs)
  have "a \<notin> fst ` set (layout (a + 16 + s) cs)" using layout_bounds by fastforce
  with 2 show ?case by simp
qed simp

lemma blocks_Some: "blocks u a cs q = Some s \<longleftrightarrow> (\<exists>p. q = p + 8 \<and> (p, u, s) \<in> set (layout a cs))"
proof -
  have "map fst (map (\<lambda>(p, v, s). (p + 8, s)) (filter (\<lambda>(p, v, s). v = u) L)) = map (\<lambda>c. fst c + 8) (filter (\<lambda>(p, v, s). v = u) L)"
    for L :: "chunk list" by (auto simp: comp_def split_beta)
  moreover have "distinct (map (\<lambda>c. fst c + 8) (filter (\<lambda>(p, v, s). v = u) (layout a cs)))"
    using layout_keys [of a cs] by (auto simp: distinct_map inj_on_def intro: distinct_filter)
  ultimately have "distinct (map fst (map (\<lambda>(p, v, s). (p + 8, s)) (filter (\<lambda>(p, v, s). v = u) (layout a cs))))" by (simp only:)
  from map_of_eq_Some_iff [OF this] show ?thesis unfolding blocks_def by force
qed

definition shm_rel :: "zbx_shmem_info \<Rightarrow> (nat \<rightharpoonup> nat) \<Rightarrow> (nat \<rightharpoonup> nat) \<Rightarrow> bool" where
  "shm_rel info U F \<longleftrightarrow> (\<exists>cs. shm_inv info cs \<and> U = blocks True (lo_bound info) cs \<and> F = blocks False (lo_bound info) cs)"

definition keeps :: "(nat \<rightharpoonup> nat) \<Rightarrow> memory \<Rightarrow> memory \<Rightarrow> bool" where
  "keeps U m m' \<longleftrightarrow> (\<forall>p s a. U p = Some s \<longrightarrow> p \<le> a \<longrightarrow> a < p + s \<longrightarrow> m' a = m a)"

text \<open>The blocks outside a part of the sequence, and those in it.\<close>

definition rest_blocks :: "bool \<Rightarrow> nat \<Rightarrow> tile list \<Rightarrow> nat \<Rightarrow> tile list \<Rightarrow> nat \<rightharpoonup> nat" where
  "rest_blocks u a xs n ys = blocks u (a + extent xs + n) ys ++ blocks u a xs"

lemma blocks_dom: "dom (blocks u a cs) \<subseteq> {a + 8..<a + 8 + extent cs}"
  using layout_bounds [of _ u _ a cs] by (force simp: blocks_Some)

lemma blocks_middle: "blocks u a (xs @ mid @ ys) = rest_blocks u a xs (extent mid) ys ++ blocks u (a + extent xs) mid"
proof -
  have app: "blocks u a (xs @ ys) = blocks u (a + extent xs) ys ++ blocks u a xs" for a xs ys
    by (simp add: blocks_def layout_append)
  have "dom (blocks u (a + extent xs) mid) \<inter> dom (blocks u a xs) = {}"
    using blocks_dom [of u "a + extent xs" mid] blocks_dom [of u a xs] by fastforce
  from map_add_comm [OF this] show ?thesis unfolding rest_blocks_def app by (metis add.assoc map_add_assoc)
qed

lemma rest_blocks_None: "a + extent xs \<le> q \<Longrightarrow> q < a + extent xs + n \<Longrightarrow> rest_blocks u a xs n ys (q + 8) = None"
  using blocks_dom [of u a xs] blocks_dom [of u "a + extent xs + n" ys] by (force simp: rest_blocks_def map_add_None)

lemma blocks_simps [simp]:
  "blocks u a [] = Map.empty"
  "blocks u a ((v, s) # cs) = (if v = u then (blocks u (a + 16 + s) cs)(a + 8 \<mapsto> s) else blocks u (a + 16 + s) cs)"
  by (simp_all add: blocks_def)

lemma used_not_free:
  assumes "placed C" "(p, True, s) \<in> C" "a \<in> region (p, True, s)"
  shows "a \<notin> free_region C"
proof
  assume "a \<in> free_region C"
  then obtain c where "c \<in> C" "\<not> fst (snd c)" "a \<in> region c" by (auto simp: free_region_def)
  moreover from this have "c \<noteq> (p, True, s)" by auto
  ultimately show False using placed_disjoint [OF assms(1) _ assms(2)] assms(3) by blast
qed

lemma keeps_used:
  assumes "shm_inv info cs" "\<And>a. a \<notin> free_region (set (layout (lo_bound info) cs)) \<Longrightarrow> m a = mem info a"
  shows "keeps (blocks True (lo_bound info) cs) (mem info) m"
  unfolding keeps_def
proof (intro allI impI)
  fix p s a assume "blocks True (lo_bound info) cs p = Some s" "p \<le> a" "a < p + s"
  then obtain q where q: "p = q + 8" "(q, True, s) \<in> set (layout (lo_bound info) cs)" "a \<in> region (q, True, s)" by (auto simp: blocks_Some)
  then show "m a = mem info a" using used_not_free [OF shm_inv_placed [OF assms(1)] q(2,3)] assms(2) by blast
qed

lemma ran_blocks: "ran (blocks u a cs) = {s. (u, s) \<in> set cs}"
  using shm_inv_free_sizes [of u _ a cs] unfolding ran_def blocks_Some by auto

text \<open>What an allocation leaves of the free block that it takes.\<close>

definition left_over :: "nat \<Rightarrow> nat \<Rightarrow> nat \<Rightarrow> nat \<rightharpoonup> nat" where
  "left_over p s sz = (if s < sz + 40 then Map.empty else [p + sz + 16 \<mapsto> s - sz - 16])"

definition taken :: "nat \<Rightarrow> nat \<Rightarrow> nat" where
  "taken s sz = (if s < sz + 40 then s else sz)"

lemma malloc_blocks:
  fixes n :: nat
  assumes "shm_rel info U F"
  defines "sz \<equiv> mem_proper_alloc_size n"
  shows "mem_malloc info n = Some (info, NULL) \<and> (\<forall>s \<in> ran F. s < sz) \<or>
    (\<exists>info' p s. mem_malloc info n = Some (info', p) \<and> 0 < p \<and> F (p + 8) = Some s \<and> sz \<le> s \<and> same_segment info info'
      \<and> shm_rel info' (U(p + 8 \<mapsto> taken s sz)) (F(p + 8 := None) ++ left_over (p + 8) s sz) \<and> keeps U (mem info) (mem info'))"
proof -
  obtain cs where cs: "shm_inv info cs" "U = blocks True (lo_bound info) cs" "F = blocks False (lo_bound info) cs"
    using assms(1) by (auto simp: shm_rel_def)
  from mem_malloc_spec [OF cs(1), of n, folded sz_def] show ?thesis
  proof (elim disjE exE conjE)
    assume "mem_malloc info n = Some (info, NULL)" "\<forall>s. (False, s) \<in> set cs \<longrightarrow> s < sz"
    then show ?thesis by (simp add: cs(3) ran_blocks)
  next
    fix info' xs s ys
    assume a: "mem_malloc info n = Some (info', lo_bound info + extent xs)" "cs = xs @ (False, s) # ys" "sz \<le> s"
      "shm_inv info' (xs @ split_tile s sz @ ys)" "same_segment info info'"
      "\<forall>a. a \<notin> free_region (set (layout (lo_bound info) cs)) \<longrightarrow> mem info' a = mem info a"
    define p where "p = lo_bound info + extent xs"
    have lo: "0 < p" "lo_bound info' = lo_bound info" using cs(1) a(5) by (auto simp: shm_inv_def p_def same_segment_def)
    have cs': "cs = xs @ [(False, s)] @ ys" using a(2) by simp
    define B where "B u = rest_blocks u (lo_bound info) xs (16 + s) ys" for u
    have e: "extent (split_tile s sz) = 16 + s" using a(3) by (simp add: split_tile_def)
    have B: "B False (p + 8) = None" unfolding B_def p_def by (rule rest_blocks_None) simp_all
    have U: "U = B True" and F: "F = (B False)(p + 8 \<mapsto> s)" unfolding cs cs' blocks_middle by (simp_all add: B_def p_def)
    have ut: "blocks True (lo_bound info') (xs @ split_tile s sz @ ys) = U(p + 8 \<mapsto> taken s sz)"
      unfolding U lo(2) blocks_middle e by (simp add: B_def p_def taken_def split_tile_def)
    have uf: "blocks False (lo_bound info') (xs @ split_tile s sz @ ys) = F(p + 8 := None) ++ left_over (p + 8) s sz"
    proof -
      have "p + 16 + sz + 8 = p + 8 + sz + 16" by simp
      with B show ?thesis
        unfolding F lo(2) blocks_middle e by (simp add: B_def [symmetric] p_def [symmetric] left_over_def split_tile_def fun_upd_idem)
    qed
    have "shm_rel info' (U(p + 8 \<mapsto> taken s sz)) (F(p + 8 := None) ++ left_over (p + 8) s sz)"
      unfolding shm_rel_def using a(4) ut uf by metis
    moreover have "keeps U (mem info) (mem info')" unfolding cs(2) using a(6) by (intro keeps_used [OF cs(1)]) blast
    ultimately show ?thesis using a(1,3,5) lo(1) F
      by (intro disjI2 exI [of _ info'] exI [of _ p] exI [of _ s]) (simp add: p_def [symmetric])
  qed
qed

lemma keeps_others:
  assumes "shm_inv info cs" "(p, True, s) \<in> set (layout (lo_bound info) cs)"
    and "\<And>a. a \<notin> free_region (set (layout (lo_bound info) cs)) \<Longrightarrow> a \<notin> region (p, True, s) \<Longrightarrow> m a = mem info a"
  shows "keeps ((blocks True (lo_bound info) cs)(p + 8 := None)) (mem info) m"
  unfolding keeps_def
proof (intro allI impI)
  fix r t a assume "((blocks True (lo_bound info) cs)(p + 8 := None)) r = Some t" and a: "r \<le> a" "a < r + t"
  then obtain q where q: "r = q + 8" "(q, True, t) \<in> set (layout (lo_bound info) cs)" "q \<noteq> p" by (auto simp: blocks_Some split: if_splits)
  then have r: "a \<in> region (q, True, t)" using a by simp
  have P: "placed (set (layout (lo_bound info) cs))" by (rule shm_inv_placed [OF assms(1)])
  have "a \<notin> region (p, True, s)" using placed_disjoint [OF P q(2) assms(2)] q(3) r by blast
  then show "m a = mem info a" using used_not_free [OF P q(2) r] assms(3) by blast
qed

lemma proper_idem: "24 \<le> sz \<Longrightarrow> 8 dvd sz \<Longrightarrow> mem_proper_alloc_size sz = sz"
proof -
  assume "24 \<le> sz" "8 dvd sz"
  moreover have "sz AND 7 = sz mod 8" using take_bit_eq_mask [of 3 sz] by (simp add: take_bit_eq_mod mask_eq_exp_minus_1)
  ultimately show ?thesis by (simp add: mem_proper_alloc_size_def)
qed

lemma shm_rel_used:
  assumes "shm_rel info U F" "U p = Some s"
  obtains xs ys c where "shm_inv info (xs @ (True, s) # ys)" "U = blocks True (lo_bound info) (xs @ (True, s) # ys)"
    "F = blocks False (lo_bound info) (xs @ (True, s) # ys)" "p = c + 8" "c = lo_bound info + extent xs"
proof -
  obtain cs where cs: "shm_inv info cs" "U = blocks True (lo_bound info) cs" "F = blocks False (lo_bound info) cs"
    using assms(1) by (auto simp: shm_rel_def)
  then obtain c where c: "p = c + 8" "(c, True, s) \<in> set (layout (lo_bound info) cs)" using assms(2) by (auto simp: blocks_Some)
  from layout_split [OF c(2)] obtain xs ys where "cs = xs @ (True, s) # ys" "c = lo_bound info + extent xs" by metis
  with cs c(1) show thesis by (intro that) auto
qed

text \<open>A client writes into its own block.\<close>

lemma shm_rel_write:
  assumes "shm_rel info U F" "U p = Some s" "\<And>a. a < p \<or> p + s \<le> a \<Longrightarrow> m a = mem info a"
  shows "shm_rel (info\<lparr>mem := m\<rparr>) U F"
proof -
  from shm_rel_used [OF assms(1,2)] obtain xs ys c where x: "shm_inv info (xs @ [(True, s)] @ ys)" "U = blocks True (lo_bound info) (xs @ [(True, s)] @ ys)"
    "F = blocks False (lo_bound info) (xs @ [(True, s)] @ ys)" "p = c + 8" "c = lo_bound info + extent xs" by auto
  let ?C = "set (layout (lo_bound info) (xs @ [(True, s)] @ ys))"
  have C: "?C = insert (c, True, s) (rest_of (lo_bound info) xs (16 + s) ys)" unfolding layout_middle by (simp add: x(5))
  have n: "(c, True, s) \<notin> rest_of (lo_bound info) xs (16 + s) ys" using middle_disjoint [of "lo_bound info" xs "[(True, s)]" ys] by (simp add: x(5))
  have h: "heap_ok (mem info) (buckets info) ?C" using x(1) by (simp add: shm_inv_def)
  have "heap_ok m (buckets info) (rest_of (lo_bound info) xs (16 + s) ys)"
  proof (rule heap_ok_hole)
    show "heap_ok (mem info) (buckets info) (rest_of (lo_bound info) xs (16 + s) ys)" using h unfolding C heap_ok_used by blast
    show "placed (insert (c, True, s) (rest_of (lo_bound info) xs (16 + s) ys))" using shm_inv_placed [OF x(1)] unfolding C .
    show "m a = mem info a" if "a \<notin> region (c, True, s)" for a using that assms(3) [of a] by (auto simp: x(4))
  qed (rule n)
  moreover have "m c = mem info c" "m (c + 8 + s) = mem info (c + 8 + s)" using assms(3) by (simp_all add: x(4))
  ultimately have "heap_ok m (buckets info) ?C" using h unfolding C heap_ok_used by metis
  then have "shm_inv (info\<lparr>mem := m\<rparr>) (xs @ [(True, s)] @ ys)" using x(1) by (simp add: shm_inv_def)
  then show ?thesis using x(2,3) unfolding shm_rel_def by (intro exI [of _ "xs @ [(True, s)] @ ys"]) simp
qed

end
