(* ===== verification/Shmem_Spec.thy ===== *)
theory Shmem_Spec
  imports Shmem_Blocks
begin

text \<open>
  The contract of the shared memory allocator: what allocation, reallocation and freeing do to the blocks that the
  clients hold and to their content.
\<close>

section \<open>Freeing\<close>

text \<open>The room that a chunk and the free chunks around it have together.\<close>

lemma free_blocks:
  assumes "shm_rel info U F" "U p = Some s"
  obtains F' q t where "shm_rel (mem_free info p) (U(p := None)) F'" "same_segment info (mem_free info p)"
    "keeps (U(p := None)) (mem info) (mem (mem_free info p))" "F' q = Some t" "q \<le> p" "p + s \<le> q + t"
    "realloc_room info (p - 8) s (p + 8 + s) (p + 8 + s < hi_bound info \<and> FREE_CHUNK (mem info) (p + 8 + s)) = t"
proof -
  from shm_rel_used [OF assms] obtain xs0 ys0 c where x: "shm_inv info (xs0 @ (True, s) # ys0)" "U = blocks True (lo_bound info) (xs0 @ (True, s) # ys0)"
    "p = c + 8" "c = lo_bound info + extent xs0" by metis
  obtain xs pre where pre: "xs0 = xs @ pre" "gap pre" "pre = [] \<Longrightarrow> \<nexists>t zs. xs = zs @ [(False, t)]" using gap_before [of xs0] by blast
  obtain post ys where post: "ys0 = post @ ys" "gap post" "post = [] \<Longrightarrow> \<nexists>t zs. ys = (False, t) # zs" using gap_behind [of ys0] by blast
  have cs: "xs0 @ (True, s) # ys0 = xs @ pre @ [(True, s)] @ post @ ys" by (simp add: pre(1) post(1))
  define q where "q = lo_bound info + extent xs"
  define S where "S = extent pre + s + extent post"
  have c: "c = q + extent pre" by (simp add: x(4) q_def pre(1))
  from mem_free_merge [OF x(1) [unfolded cs] pre(2) post(2) pre(3) post(3), folded q_def S_def] obtain info' where
    f: "mem_free info p = info'" "shm_inv info' (xs @ [(False, S)] @ ys)" "same_segment info info'"
      "\<And>a. a \<notin> free_region (set (layout (lo_bound info) (xs @ pre @ [(True, s)] @ post @ ys))) \<Longrightarrow>
         a \<notin> region (c, True, s) \<Longrightarrow> mem info' a = mem info a" unfolding x(3) c by metis
  have lo: "lo_bound info' = lo_bound info" using f(3) by (simp add: same_segment_def)
  let ?mid = "pre @ [(True, s)] @ post"
  have ext: "extent ?mid = 16 + S" by (simp add: S_def)
  have "blocks True q ?mid = [p \<mapsto> s]" using pre(2) post(2) by (auto simp: gap_def x(3) c)
  moreover have "rest_blocks True (lo_bound info) xs (16 + S) ys p = None"
    unfolding x(3) by (rule rest_blocks_None) (simp_all add: c q_def S_def)
  ultimately have "U(p := None) = blocks True (lo_bound info') (xs @ [(False, S)] @ ys)"
    using blocks_middle [of True "lo_bound info" xs ?mid ys] blocks_middle [of True "lo_bound info" xs "[(False, S)]" ys]
    unfolding x(2) cs lo ext q_def by (simp add: fun_upd_idem)
  then have rel: "shm_rel info' (U(p := None)) (blocks False (lo_bound info') (xs @ [(False, S)] @ ys))"
    using f(2) unfolding shm_rel_def by metis
  have F': "blocks False (lo_bound info') (xs @ [(False, S)] @ ys) (q + 8) = Some S" unfolding blocks_middle by (simp add: lo q_def)
  have keep: "keeps (U(p := None)) (mem info) (mem info')" unfolding x(2,3)
  proof (rule keeps_others [OF x(1)])
    show "(c, True, s) \<in> set (layout (lo_bound info) (xs0 @ (True, s) # ys0))" unfolding x(4) by (rule layout_here)
  qed (use f(4) in \<open>unfold cs, blast\<close>)
  have room: "realloc_room info (p - 8) s (p + 8 + s) (p + 8 + s < hi_bound info \<and> FREE_CHUNK (mem info) (p + 8 + s)) = S"
  proof -
    have n: "p + 8 + s = c + 16 + s" "p - 8 = c" by (simp_all add: x(3))
    have pf: "lo_bound info < c \<and> FREE_CHUNK (mem info) (c - 8) \<longleftrightarrow> pre \<noteq> []"
      using prev_free_iff(1) [OF x(1)] pre unfolding x(4) by (auto simp: gap_def)
    have nf: "c + 16 + s < hi_bound info \<and> FREE_CHUNK (mem info) (c + 16 + s) \<longleftrightarrow> post \<noteq> []"
      using next_free_iff(1) [OF x(1)] post unfolding x(4) by (auto simp: gap_def)
    have "pre = [(False, a)] \<Longrightarrow> CHUNK_SIZE (mem info) (c - 8) = a" for a using prev_free_iff(2) [OF x(1), of xs False a] pre(1) x(4) by simp
    moreover have "post = [(False, b)] \<Longrightarrow> CHUNK_SIZE (mem info) (c + 16 + s) = b" for b
      using next_free_iff(2) [OF x(1), of False b ys] post(1) x(4) by simp
    ultimately show ?thesis unfolding realloc_room_def n pf nf using pre(2) post(2) by (auto simp: gap_def S_def)
  qed
  have "q + 8 \<le> p" "p + s \<le> q + 8 + S" by (simp_all add: x(3) c S_def)
  with rel f(3) keep F' show thesis using room unfolding f(1) [symmetric] by (rule that)
qed

section \<open>Reallocation\<close>

text \<open>The block moves or stays, it is large enough, its content and the other blocks are kept.\<close>

definition reallocated :: "zbx_shmem_info \<Rightarrow> (nat \<rightharpoonup> nat) \<Rightarrow> nat \<Rightarrow> nat \<Rightarrow> nat \<Rightarrow> zbx_shmem_info \<Rightarrow> nat \<Rightarrow> bool" where
  "reallocated info U p s sz info' q \<longleftrightarrow> 0 < q \<and> same_segment info info' \<and> keeps (U(p := None)) (mem info) (mem info')
     \<and> (U(p := None)) (q + 8) = None \<and> (\<exists>t F. sz \<le> t \<and> shm_rel info' ((U(p := None))(q + 8 \<mapsto> t)) F)
     \<and> (\<forall>i < min s sz. mem info' (q + 8 + i) = mem info (p + i))"

lemma reallocated_in_place:
  assumes inv: "shm_inv info (xs @ mid @ ys)" "shm_inv info' (xs @ mid' @ ys)" and seg: "same_segment info info'"
    and c: "c = lo_bound info + extent xs" and e: "extent mid' = extent mid" "0 < extent mid"
    and b: "blocks True c mid = [c + 8 \<mapsto> s]" "blocks True c mid' = [c + 8 \<mapsto> t]" "sz \<le> t"
    and m: "\<And>a. a \<notin> free_region (set (layout (lo_bound info) (xs @ mid @ ys))) \<Longrightarrow> a \<noteq> c \<Longrightarrow> a < c + 8 + sz \<or> c + 16 + s \<le> a \<Longrightarrow> mem info' a = mem info a"
  shows "reallocated info (blocks True (lo_bound info) (xs @ mid @ ys)) (c + 8) s sz info' c"
proof -
  let ?U = "blocks True (lo_bound info) (xs @ mid @ ys)" and ?C = "set (layout (lo_bound info) (xs @ mid @ ys))"
  have lo: "lo_bound info' = lo_bound info" "0 < c" using seg inv(1) c by (auto simp: same_segment_def shm_inv_def)
  have rb: "rest_blocks True (lo_bound info) xs (extent mid) ys (c + 8) = None" using e(2) c by (intro rest_blocks_None) simp_all
  have U: "?U = (rest_blocks True (lo_bound info) xs (extent mid) ys)(c + 8 \<mapsto> s)" unfolding blocks_middle c [symmetric] b by simp
  have in_C: "(c, True, s) \<in> ?C" using arg_cong [OF b(1), of "\<lambda>m. m (c + 8)"] unfolding layout_middle c [symmetric] by (auto simp: blocks_Some)
  have "shm_rel info' ((?U(c + 8 := None))(c + 8 \<mapsto> t)) (blocks False (lo_bound info') (xs @ mid' @ ys))"
    unfolding shm_rel_def using inv(2) U b(2) by (intro exI [of _ "xs @ mid' @ ys"]) (simp add: blocks_middle lo e(1) c [symmetric])
  moreover have "keeps (?U(c + 8 := None)) (mem info) (mem info')"
    by (rule keeps_others [OF inv(1) in_C]) (use m in auto)
  moreover have "mem info' (c + 8 + i) = mem info (c + 8 + i)" if "i < min s sz" for i
    using that used_not_free [OF shm_inv_placed [OF inv(1)] in_C, of "c + 8 + i"] m by auto
  ultimately show ?thesis using lo(2) seg b(3) unfolding reallocated_def by auto
qed

lemma realloc_in_place:
  fixes n :: nat
  assumes inv: "shm_inv info (xs @ (True, s) # ys)" and c: "c = lo_bound info + extent xs"
  defines "sz \<equiv> mem_proper_alloc_size n" and "U \<equiv> blocks True (lo_bound info) (xs @ (True, s) # ys)"
  assumes fit: "sz \<le> s \<or> (\<exists>t zs. ys = (False, t) # zs \<and> sz \<le> s + 16 + t)"
  shows "\<exists>info'. mem_realloc info (c + 8) n = Some (Inr (info', c)) \<and> reallocated info U (c + 8) s sz info' c"
proof -
  note sz = proper_alloc_size(1,2) [of n, folded sz_def]
  obtain post zs where post: "ys = post @ zs" "gap post" "post = [] \<Longrightarrow> \<nexists>t ws. zs = (False, t) # ws" using gap_behind [of ys] by blast
  have size: "CHUNK_SIZE (mem info) c = s" using chunk_here(1) [OF inv] by (simp add: c)
  have nf: "c + 16 + s < hi_bound info \<and> FREE_CHUNK (mem info) (c + 16 + s) \<longleftrightarrow> post \<noteq> []"
    using next_free_iff(1) [OF inv] post unfolding c by (auto simp: gap_def)
  have n: "c + 8 + s + 8 = c + 16 + s" by simp
  note R = mem_realloc_def [of info "c + 8" n, unfolded Let_def add_diff_cancel_right' size n sz_def [symmetric] nf]
  have inv': "shm_inv info (xs @ ((True, s) # post) @ zs)" using inv post(1) by simp
  have b: "blocks True c ((True, s) # post) = [c + 8 \<mapsto> s]" using post(2) by (auto simp: gap_def)
  have U: "U = blocks True (lo_bound info) (xs @ ((True, s) # post) @ zs)" by (simp add: U_def post(1))
  consider "sz \<le> s" "s div 4 < sz" | "sz \<le> s" "sz \<le> s div 4" | t where "s < sz" "post = [(False, t)]" "sz \<le> s + 16 + t"
    using fit post by (cases "sz \<le> s"; cases "s div 4 < sz") (auto simp: gap_def not_less)
  then show ?thesis
  proof cases
    case 1
    then show ?thesis unfolding R U
      by (intro exI [of _ info]) (use reallocated_in_place [OF inv' inv' _ c refl _ b b 1(1)] in \<open>simp add: same_segment_def\<close>)
  next
    case 2
    from realloc_shrink_spec [OF inv' post(2,3) sz 2(2), folded c] obtain info' where i:
      "realloc_shrink info c s (c + 16 + s) (post \<noteq> []) sz = info'" "shm_inv info' (xs @ [(True, sz), (False, s + extent post - sz - 16)] @ zs)"
      "same_segment info info'" "\<And>a. a \<notin> free_region (set (layout (lo_bound info) (xs @ ((True, s) # post) @ zs))) \<Longrightarrow>
         a \<notin> {c + 8 + sz..<c + 16 + s} \<Longrightarrow> a \<noteq> c \<Longrightarrow> mem info' a = mem info a" by metis
    have "reallocated info U (c + 8) s sz info' c" unfolding U
      by (rule reallocated_in_place [OF inv' i(2,3) c _ _ b, where t = sz]) (use i(4) 2 sz in auto)
    then show ?thesis unfolding R i(1) using 2 by simp
  next
    case 3
    from realloc_grow_spec [OF inv' [unfolded 3(2)] sz 3(1,3), folded c] obtain info' where i:
      "realloc_grow info c s (c + 16 + s) sz = info'" "shm_inv info' (xs @ split_tile (s + 16 + t) sz @ zs)"
      "same_segment info info'" "\<And>a. a \<notin> free_region (set (layout (lo_bound info) (xs @ [(True, s), (False, t)] @ zs))) \<Longrightarrow> a \<noteq> c \<Longrightarrow> mem info' a = mem info a" by metis
    have t: "CHUNK_SIZE (mem info) (c + 16 + s) = t" using next_free_iff(2) [OF inv, of False t zs] post(1) 3(2) c by simp
    have "reallocated info U (c + 8) s sz info' c" unfolding U
      by (rule reallocated_in_place [OF inv' i(2,3) c _ _ b, where t = "taken (s + 16 + t) sz"]) (use i(4) 3 in \<open>auto simp: split_tile_def taken_def\<close>)
    then show ?thesis unfolding R i(1) t using 3 by simp
  qed
qed

lemma blocks_apart:
  assumes "shm_rel info U F" "U p = Some s" "U q = Some t" "p \<noteq> q"
  shows "p + s + 8 < q \<or> q + t + 8 < p"
proof -
  obtain cs where cs: "shm_inv info cs" "U = blocks True (lo_bound info) cs" using assms(1) by (auto simp: shm_rel_def)
  then obtain a b where "p = a + 8" "q = b + 8" "(a, True, s) \<in> set (layout (lo_bound info) cs)" "(b, True, t) \<in> set (layout (lo_bound info) cs)"
    using assms(2,3) by (auto simp: blocks_Some)
  with placed_apart [OF shm_inv_placed [OF cs(1)], of a True s b True t] assms(4) show ?thesis by auto
qed

lemma blocks_exclusive:
  assumes "shm_rel info U F" "F p = Some s"
  shows "U p = None"
proof (rule ccontr)
  assume "U p \<noteq> None"
  obtain cs where cs: "shm_inv info cs" "U = blocks True (lo_bound info) cs" "F = blocks False (lo_bound info) cs"
    using assms(1) by (auto simp: shm_rel_def)
  then obtain q t where "(q, True, t) \<in> set (layout (lo_bound info) cs)" "(q, False, s) \<in> set (layout (lo_bound info) cs)"
    using \<open>U p \<noteq> None\<close> assms(2) by (auto simp: blocks_Some)
  then show False using placed_unique [OF shm_inv_placed [OF cs(1)]] by blast
qed

lemma keeps_copy:
  assumes "keeps V m1 m2" "shm_rel info' (V(q \<mapsto> t)) F'" "V q = None" "mem info' = m2" "n \<le> t"
  shows "keeps V m1 (mem_copy m2 q m src n)"
  unfolding keeps_def
proof (intro allI impI)
  fix p s a assume p: "V p = Some s" "p \<le> a" "a < p + s"
  then have "p \<noteq> q" using assms(3) by auto
  with blocks_apart [OF assms(2), of p s q t] p assms(5) have "\<not> (q \<le> a \<and> a < q + n)" by auto
  then show "mem_copy m2 q m src n a = m1 a" using p assms(1) by (auto simp: mem_copy_def keeps_def)
qed

lemma keepsD: "keeps U m m' \<Longrightarrow> U p = Some s \<Longrightarrow> p \<le> a \<Longrightarrow> a < p + s \<Longrightarrow> m' a = m a"
  by (auto simp: keeps_def)

lemma keeps_trans: "keeps U m1 m2 \<Longrightarrow> keeps V m2 m3 \<Longrightarrow> W \<subseteq>\<^sub>m U \<Longrightarrow> W \<subseteq>\<^sub>m V \<Longrightarrow> keeps W m1 m3"
  unfolding keeps_def map_le_def by (metis domI)

lemma rel_copy:
  assumes "shm_rel info U F" "U q = Some t" "n \<le> t"
  shows "shm_rel (info\<lparr>mem := mem_copy (mem info) q m src n\<rparr>) U F"
  using assms(3) by (intro shm_rel_write [OF assms(1,2)]) (auto simp: mem_copy_def)

lemma move_then_free:
  assumes rel: "shm_rel info U F" and p: "U p = Some s" "s < sz"
    and m: "0 < c" "F (c + 8) = Some t" "same_segment info info1" "keeps U (mem info) (mem info1)" "sz \<le> t"
      "shm_rel info1 (U(c + 8 \<mapsto> taken t sz)) F1"
  shows "reallocated info U p s sz (mem_free (info1\<lparr>mem := mem_copy (mem info1) (c + 8) (mem info1) p s\<rparr>) p) c"
proof -
  let ?q = "c + 8" and ?U1 = "U(c + 8 \<mapsto> taken t sz)" and ?i = "info1\<lparr>mem := mem_copy (mem info1) (c + 8) (mem info1) p s\<rparr>"
  have Uq: "U ?q = None" by (rule blocks_exclusive [OF rel m(2)])
  then have pq: "p \<noteq> ?q" using p(1) by auto
  have tk: "sz \<le> taken t sz" using m(5) by (simp add: taken_def)
  have r1: "shm_rel ?i ?U1 F1" by (rule rel_copy [OF m(6)]) (use tk p(2) in auto)
  from free_blocks [OF r1, of p s] pq p(1) obtain F' where f: "shm_rel (mem_free ?i p) (?U1(p := None)) F'" "same_segment ?i (mem_free ?i p)"
    "keeps (?U1(p := None)) (mem ?i) (mem (mem_free ?i p))" by auto
  have U1: "?U1(p := None) = (U(p := None))(?q \<mapsto> taken t sz)" using pq by (simp add: fun_upd_twist)
  have k1: "keeps U (mem info) (mem ?i)"
    using keeps_copy [OF m(4,6) Uq refl] tk p(2) by simp
  have "keeps (U(p := None)) (mem info) (mem (mem_free ?i p))"
    by (rule keeps_trans [OF k1 f(3)]) (use Uq in \<open>auto simp: map_le_def\<close>)
  moreover have "mem (mem_free ?i p) (?q + i) = mem info (p + i)" if "i < s" for i
  proof -
    have "mem (mem_free ?i p) (?q + i) = mem ?i (?q + i)" by (rule keepsD [OF f(3), of ?q "taken t sz"]) (use pq tk that p(2) in auto)
    also have "\<dots> = mem info1 (p + i)" using that by (simp add: mem_copy_def)
    also have "\<dots> = mem info (p + i)" using m(4) p(1) that unfolding keeps_def by auto
    finally show ?thesis .
  qed
  moreover have "same_segment info (mem_free ?i p)" using m(3) f(2) by (simp add: same_segment_def)
  moreover have "\<exists>t F. sz \<le> t \<and> shm_rel (mem_free ?i p) ((U(p := None))(?q \<mapsto> t)) F" using tk f(1) unfolding U1 by blast
  ultimately show ?thesis using m(1) Uq pq p(2) unfolding reallocated_def by simp
qed

lemma free_then_move:
  assumes rel: "shm_rel info U F" and p: "U p = Some s" "s < sz"
    and f: "shm_rel info1 (U(p := None)) F1" "same_segment info info1" "keeps (U(p := None)) (mem info) (mem info1)"
    and m: "0 < c" "F1 (c + 8) = Some t" "same_segment info1 info2" "keeps (U(p := None)) (mem info1) (mem info2)" "sz \<le> t"
      "shm_rel info2 ((U(p := None))(c + 8 \<mapsto> taken t sz)) F2"
  shows "reallocated info U p s sz (info2\<lparr>mem := mem_copy (mem info2) (c + 8) (mem info) p s\<rparr>) c"
proof -
  let ?q = "c + 8" and ?i = "info2\<lparr>mem := mem_copy (mem info2) (c + 8) (mem info) p s\<rparr>"
  have mi: "mem ?i = mem_copy (mem info2) (c + 8) (mem info) p s" by simp
  have Uq: "(U(p := None)) ?q = None" by (rule blocks_exclusive [OF f(1) m(2)])
  have tk: "sz \<le> taken t sz" using m(5) by (simp add: taken_def)
  have r: "shm_rel ?i ((U(p := None))(?q \<mapsto> taken t sz)) F2" by (rule rel_copy [OF m(6)]) (use tk p(2) in auto)
  have "keeps (U(p := None)) (mem info) (mem info2)" by (rule keeps_trans [OF f(3) m(4)]) simp_all
  moreover have "s \<le> taken t sz" using tk p(2) by simp
  ultimately have "keeps (U(p := None)) (mem info) (mem ?i)"
    unfolding mi by (intro keeps_copy [where V = "U(p := None)", OF _ m(6) Uq refl])
  moreover have "same_segment info ?i" using f(2) m(3) by (simp add: same_segment_def)
  moreover have "mem ?i (?q + i) = mem info (p + i)" if "i < s" for i using that by (simp add: mem_copy_def)
  ultimately show ?thesis using m(1) Uq p(2) tk r unfolding reallocated_def by auto
qed

lemma realloc_moves:
  fixes n :: nat
  assumes rel: "shm_rel info U F" and p: "U p = Some s"
  defines "sz \<equiv> mem_proper_alloc_size n" and "nf \<equiv> p + 8 + s < hi_bound info \<and> FREE_CHUNK (mem info) (p + 8 + s)"
  assumes s: "s < sz" "\<not> (nf \<and> sz \<le> s + 16 + CHUNK_SIZE (mem info) (p + 8 + s))"
  shows "mem_realloc info p n = Some (Inr (info, NULL)) \<and> (\<forall>t \<in> ran F. t < sz) \<or>
    (\<exists>info' q. mem_realloc info p n = Some (Inr (info', q)) \<and> reallocated info U p s sz info' q)"
proof -
  from shm_rel_used [OF rel p] obtain xs ys c where x: "shm_inv info (xs @ (True, s) # ys)" "p = c + 8" "c = lo_bound info + extent xs" by metis
  have size: "CHUNK_SIZE (mem info) (p - 8) = s" "p - 8 + 8 = p" "p + s + 8 = p + 8 + s" using chunk_here(1) [OF x(1)] by (simp_all add: x)
  have sz: "mem_proper_alloc_size sz = sz" using proper_alloc_size [of n] by (intro proper_idem) (simp_all add: sz_def)
  note R = mem_realloc_def [of info p n, unfolded Let_def size sz_def [symmetric], folded nf_def]
  note mal = malloc_blocks [OF rel, of sz, unfolded sz]
  from mal show ?thesis
  proof (elim disjE conjE exE)
    fix info1 d t
    assume m: "mem_malloc info sz = Some (info1, d)" "0 < d" "F (d + 8) = Some t" "sz \<le> t" "same_segment info info1"
      "shm_rel info1 (U(d + 8 \<mapsto> taken t sz)) (F(d + 8 := None) ++ left_over (d + 8) t sz)" "keeps U (mem info) (mem info1)"
    from move_then_free [OF rel p s(1) m(2,3,5,7,4,6)] show ?thesis unfolding R m(1) using m(2) s by auto
  next
    assume m: "mem_malloc info sz = Some (info, NULL)" "\<forall>t \<in> ran F. t < sz"
    from free_blocks [OF rel p, folded nf_def] obtain F1 q t where f: "shm_rel (mem_free info p) (U(p := None)) F1" "same_segment info (mem_free info p)"
      "keeps (U(p := None)) (mem info) (mem (mem_free info p))" "F1 q = Some t" "realloc_room info (p - 8) s (p + 8 + s) nf = t" by metis
    show ?thesis
    proof (cases "t < sz")
      case True
      then show ?thesis unfolding R m(1) using m(2) f(5) s by auto
    next
      case False
      then have "\<not> (\<forall>t \<in> ran F1. t < sz)" using f(4) by (auto simp: ran_def)
      with malloc_blocks [OF f(1), of sz, unfolded sz] obtain info2 d t' where g: "mem_malloc (mem_free info p) sz = Some (info2, d)" "0 < d"
        "F1 (d + 8) = Some t'" "sz \<le> t'" "same_segment (mem_free info p) info2"
        "shm_rel info2 ((U(p := None))(d + 8 \<mapsto> taken t' sz)) (F1(d + 8 := None) ++ left_over (d + 8) t' sz)"
        "keeps (U(p := None)) (mem (mem_free info p)) (mem info2)" by metis
      from free_then_move [OF rel p s(1) f(1-3) g(2,3,5,7,4,6)] show ?thesis unfolding R m(1) using f(5) False g(1,2) s by auto
    qed
  qed
qed

lemma realloc_cases:
  fixes n :: nat
  assumes rel: "shm_rel info U F" and p: "U p = Some s"
  defines "sz \<equiv> mem_proper_alloc_size n"
  shows "mem_realloc info p n = Some (Inr (info, NULL)) \<and> (\<forall>t \<in> ran F. t < sz) \<or>
    (\<exists>info' q. mem_realloc info p n = Some (Inr (info', q)) \<and> reallocated info U p s sz info' q)"
proof -
  from shm_rel_used [OF rel p] obtain xs ys c where x: "shm_inv info (xs @ (True, s) # ys)" "U = blocks True (lo_bound info) (xs @ (True, s) # ys)"
    "p = c + 8" "c = lo_bound info + extent xs" by metis
  show ?thesis
  proof (cases "sz \<le> s \<or> (\<exists>t zs. ys = (False, t) # zs \<and> sz \<le> s + 16 + t)")
    case True
    from realloc_in_place [OF x(1,4) True [unfolded sz_def]] show ?thesis unfolding x(2,3) sz_def by blast
  next
    case False
    have e: "p + 8 + s = lo_bound info + extent xs + 16 + s" by (simp add: x)
    have "\<not> ((p + 8 + s < hi_bound info \<and> FREE_CHUNK (mem info) (p + 8 + s)) \<and> sz \<le> s + 16 + CHUNK_SIZE (mem info) (p + 8 + s))"
      unfolding e next_free_iff(1) [OF x(1)] using next_free_iff(2) [OF x(1)] False by metis
    moreover have "s < sz" using False by simp
    ultimately show ?thesis using realloc_moves [OF rel p, of n] unfolding sz_def by blast
  qed
qed

section \<open>The public operations\<close>

lemma shm_rel_lock [simp]: "shm_rel (info\<lparr>lock := l\<rparr>) U F \<longleftrightarrow> shm_rel info U F"
  by (simp add: shm_rel_def shm_inv_def)

lemma shm_rel_bounds:
  assumes "shm_rel info U F" "U p = Some s"
  shows "8 dvd p" "8 dvd s" "lo_bound info < p" "p + s < hi_bound info"
proof -
  from shm_rel_used [OF assms] obtain xs ys c where x: "shm_inv info (xs @ (True, s) # ys)" "p = c + 8" "c = lo_bound info + extent xs" by metis
  have "8 dvd extent cs" if "list_all tile_ok cs" for cs using that by (induction cs) (auto simp: tile_ok_def)
  then show "8 dvd p" "8 dvd s" "lo_bound info < p" "p + s < hi_bound info" using x by (auto simp: shm_inv_def tile_ok_def)
qed

definition shm_ok :: "zbx_shmem_info \<Rightarrow> (nat \<rightharpoonup> nat) \<Rightarrow> (nat \<rightharpoonup> nat) \<Rightarrow> bool" where
  "shm_ok info U F \<longleftrightarrow> shm_rel info U F \<and> lock info = MFree"

lemma locked_MFree:
  "lock info = MFree \<Longrightarrow> f (info\<lparr>lock := MHeld\<rparr>) = Some (Inr (info', x)) \<Longrightarrow> locked info f = Some (Inr (info'\<lparr>lock := MFree\<rparr>, x))"
  by (simp add: locked_def)

lemma shmem_malloc_cases:
  assumes ok: "shm_ok info U F" and n: "0 < n" "n \<le> SHMEM_MAX_SIZE"
  shows "if \<forall>s \<in> ran F. s < mem_proper_alloc_size n
    then zbx_shmem_malloc info NULL n = Some (if allow_oom info then Inr (info, NULL) else Inl ExitFailure)
    else \<exists>info' p s F'. zbx_shmem_malloc info NULL n = Some (Inr (info', p)) \<and> shm_ok info' (U(p \<mapsto> s)) F'
      \<and> p \<noteq> NULL \<and> n \<le> s \<and> U p = None \<and> keeps U (mem info) (mem info') \<and> same_segment info info'"
proof -
  let ?i = "info\<lparr>lock := MHeld\<rparr>"
  have rel: "shm_rel ?i U F" "lock info = MFree" using ok by (simp_all add: shm_ok_def)
  have M: "zbx_shmem_malloc info NULL n = check_chunk (locked info (\<lambda>info. map_option Inr (mem_malloc info n)))"
    using n by (simp add: zbx_shmem_malloc_def)
  from malloc_blocks [OF rel(1), of n] show ?thesis
  proof (elim disjE conjE exE)
    assume a: "mem_malloc ?i n = Some (?i, NULL)" "\<forall>s \<in> ran F. s < mem_proper_alloc_size n"
    then have "locked info (\<lambda>info. map_option Inr (mem_malloc info n)) = Some (Inr (?i\<lparr>lock := MFree\<rparr>, NULL))"
      using rel(2) by (intro locked_MFree) simp_all
    then show ?thesis using a(2) rel(2) unfolding M check_chunk_def by simp
  next
    fix i p s
    assume a: "mem_malloc ?i n = Some (i, p)" "0 < p" "F (p + 8) = Some s" "mem_proper_alloc_size n \<le> s" "same_segment ?i i"
      "shm_rel i (U(p + 8 \<mapsto> taken s (mem_proper_alloc_size n))) (F(p + 8 := None) ++ left_over (p + 8) s (mem_proper_alloc_size n))"
      "keeps U (mem ?i) (mem i)"
    have "locked info (\<lambda>info. map_option Inr (mem_malloc info n)) = Some (Inr (i\<lparr>lock := MFree\<rparr>, p))"
      using rel(2) a(1) by (intro locked_MFree) simp_all
    then have "zbx_shmem_malloc info NULL n = Some (Inr (i\<lparr>lock := MFree\<rparr>, p + 8))" using a(2) unfolding M check_chunk_def by simp
    moreover have "U (p + 8) = None" by (rule blocks_exclusive [OF rel(1) a(3)])
    moreover have "n \<le> taken s (mem_proper_alloc_size n)" using a(4) proper_alloc_size(3) [of n] by (simp add: taken_def)
    moreover have "\<not> (\<forall>s \<in> ran F. s < mem_proper_alloc_size n)" using a(3,4) by (auto simp: ran_def not_less)
    moreover have "shm_ok (i\<lparr>lock := MFree\<rparr>) (U(p + 8 \<mapsto> taken s (mem_proper_alloc_size n)))
        (F(p + 8 := None) ++ left_over (p + 8) s (mem_proper_alloc_size n))" using a(6) by (simp add: shm_ok_def)
    moreover have "same_segment info (i\<lparr>lock := MFree\<rparr>)" using a(5) rel(2) by (simp add: same_segment_def)
    ultimately show ?thesis using a(7)
      by (simp only: if_False) (intro exI [of _ "i\<lparr>lock := MFree\<rparr>"] exI [of _ "p + 8"] exI [of _ "taken s (mem_proper_alloc_size n)"], auto)
  qed
qed

lemma shmem_free_cases:
  assumes ok: "shm_ok info U F" and p: "U p = Some s"
  shows "\<exists>info' F' q t. zbx_shmem_free info p = Some (Inr (info', ())) \<and> shm_ok info' (U(p := None)) F'
    \<and> keeps (U(p := None)) (mem info) (mem info') \<and> F' q = Some t \<and> q \<le> p \<and> p + s \<le> q + t"
proof -
  let ?i = "info\<lparr>lock := MHeld\<rparr>"
  have rel: "shm_rel ?i U F" "lock info = MFree" using ok by (simp_all add: shm_ok_def)
  from free_blocks [OF rel(1) p] obtain F' q t where f: "shm_rel (mem_free ?i p) (U(p := None)) F'"
    "keeps (U(p := None)) (mem ?i) (mem (mem_free ?i p))" "F' q = Some t" "q \<le> p" "p + s \<le> q + t" by metis
  have "p \<noteq> NULL" using shm_rel_bounds(3) [OF rel(1) p] by simp
  moreover have "locked info (\<lambda>info. Some (Inr (mem_free info p, ()))) = Some (Inr ((mem_free ?i p)\<lparr>lock := MFree\<rparr>, ()))"
    using rel(2) by (intro locked_MFree) simp_all
  ultimately have "zbx_shmem_free info p = Some (Inr ((mem_free ?i p)\<lparr>lock := MFree\<rparr>, ()))" by (simp add: zbx_shmem_free_def)
  then show ?thesis using f by (intro exI [of _ "(mem_free ?i p)\<lparr>lock := MFree\<rparr>"] exI [of _ F'] exI [of _ q] exI [of _ t]) (simp add: shm_ok_def)
qed

lemma shmem_realloc_cases:
  assumes ok: "shm_ok info U F" and p: "U p = Some s" and n: "0 < n" "n \<le> SHMEM_MAX_SIZE"
  shows "zbx_shmem_realloc info p n = Some (if allow_oom info then Inr (info, NULL) else Inl ExitFailure)
      \<and> (\<forall>t \<in> ran F. t < mem_proper_alloc_size n) \<or>
    (\<exists>info' q t F'. zbx_shmem_realloc info p n = Some (Inr (info', q)) \<and> shm_ok info' ((U(p := None))(q \<mapsto> t)) F' \<and> q \<noteq> NULL \<and> n \<le> t
      \<and> (U(p := None)) q = None \<and> keeps (U(p := None)) (mem info) (mem info') \<and> (\<forall>i < min s n. mem info' (q + i) = mem info (p + i)))"
proof -
  let ?i = "info\<lparr>lock := MHeld\<rparr>" and ?sz = "mem_proper_alloc_size n"
  have rel: "shm_rel ?i U F" "lock info = MFree" using ok by (simp_all add: shm_ok_def)
  have "p \<noteq> NULL" using shm_rel_bounds(3) [OF rel(1) p] by simp
  then have M: "zbx_shmem_realloc info p n = check_chunk (locked info (\<lambda>info. mem_realloc info p n))" using n by (simp add: zbx_shmem_realloc_def)
  from realloc_cases [OF rel(1) p, of n] show ?thesis
  proof (elim disjE conjE exE)
    assume a: "mem_realloc ?i p n = Some (Inr (?i, NULL))" "\<forall>t \<in> ran F. t < ?sz"
    then have "locked info (\<lambda>info. mem_realloc info p n) = Some (Inr (?i\<lparr>lock := MFree\<rparr>, NULL))" using rel(2) by (intro locked_MFree) simp_all
    then show ?thesis using a(2) rel(2) unfolding M check_chunk_def by simp
  next
    fix i q
    assume a: "mem_realloc ?i p n = Some (Inr (i, q))" "reallocated ?i U p s ?sz i q"
    then obtain t F' where t: "?sz \<le> t" "shm_rel i ((U(p := None))(q + 8 \<mapsto> t)) F'" "0 < q" by (auto simp: reallocated_def)
    have "locked info (\<lambda>info. mem_realloc info p n) = Some (Inr (i\<lparr>lock := MFree\<rparr>, q))" using rel(2) a(1) by (intro locked_MFree) simp_all
    then have "zbx_shmem_realloc info p n = Some (Inr (i\<lparr>lock := MFree\<rparr>, q + 8))" using t(3) unfolding M check_chunk_def by simp
    moreover have "shm_ok (i\<lparr>lock := MFree\<rparr>) ((U(p := None))(q + 8 \<mapsto> t)) F'" using t(2) by (simp add: shm_ok_def)
    moreover have "n \<le> ?sz" by (rule proper_alloc_size)
    ultimately show ?thesis using a(2) t(1) unfolding reallocated_def
      by (intro disjI2 exI [of _ "i\<lparr>lock := MFree\<rparr>"] exI [of _ "q + 8"] exI [of _ t] exI [of _ F']) auto
  qed
qed

section \<open>Clients\<close>

text \<open>
  A segment in the hands of its clients: they allocate, write their own blocks, reallocate and free.  The second
  argument is what they know of their blocks: the size that they asked for and the last content of every cell.
\<close>

type_synonym view = "nat \<rightharpoonup> nat \<times> (nat \<Rightarrow> u64)"

inductive shm_client :: "zbx_shmem_info \<Rightarrow> view \<Rightarrow> bool" where
  created: "shm_ok info Map.empty F \<Longrightarrow> shm_client info Map.empty"
| allocated: "shm_client info V \<Longrightarrow> zbx_shmem_malloc info NULL n = Some (Inr (info', p)) \<Longrightarrow> p \<noteq> NULL \<Longrightarrow>
    shm_client info' (V(p \<mapsto> (n, \<lambda>i. mem info' (p + i))))"
| written: "shm_client info V \<Longrightarrow> V p = Some (n, g) \<Longrightarrow> i < n \<Longrightarrow> 8 dvd i \<Longrightarrow>
    shm_client (info\<lparr>mem := (mem info)(p + i := w)\<rparr>) (V(p \<mapsto> (n, g(i := w))))"
| moved: "shm_client info V \<Longrightarrow> V p = Some (n, g) \<Longrightarrow> zbx_shmem_realloc info p n' = Some (Inr (info', q)) \<Longrightarrow> q \<noteq> NULL \<Longrightarrow>
    shm_client info' ((V(p := None))(q \<mapsto> (n', \<lambda>i. if i < min n n' then g i else mem info' (q + i))))"
| freed: "shm_client info V \<Longrightarrow> V p = Some (n, g) \<Longrightarrow> zbx_shmem_free info p = Some (Inr (info', ())) \<Longrightarrow> shm_client info' (V(p := None))"

definition views :: "zbx_shmem_info \<Rightarrow> (nat \<rightharpoonup> nat) \<Rightarrow> view \<Rightarrow> bool" where
  "views info U V \<longleftrightarrow> dom U = dom V \<and> (\<forall>p n g. V p = Some (n, g) \<longrightarrow> (\<exists>t. U p = Some t \<and> n \<le> t \<and> (\<forall>i < n. mem info (p + i) = g i)))"

lemma viewsD: "views info U V \<Longrightarrow> V p = Some (n, g) \<Longrightarrow> \<exists>t. U p = Some t \<and> n \<le> t \<and> (\<forall>i < n. mem info (p + i) = g i)"
  by (auto simp: views_def)

lemma views_keep:
  assumes "views info U V" "keeps (U(p := None)) (mem info) (mem info')"
  shows "views info' (U(p := None)) (V(p := None))"
  unfolding views_def
proof (intro conjI allI impI)
  show "dom (U(p := None)) = dom (V(p := None))" using assms(1) by (simp add: views_def)
  fix q n g assume q: "(V(p := None)) q = Some (n, g)"
  then obtain t where t: "U q = Some t" "n \<le> t" "\<forall>i < n. mem info (q + i) = g i" "q \<noteq> p" using viewsD [OF assms(1), of q n g] by (auto split: if_splits)
  have "mem info' (q + i) = g i" if "i < n" for i
    using keepsD [OF assms(2), of q t "q + i"] t that by auto
  then show "\<exists>t. (U(p := None)) q = Some t \<and> n \<le> t \<and> (\<forall>i < n. mem info' (q + i) = g i)" using t by simp
qed

lemma views_add:
  assumes "views info U V" "n \<le> t" "\<forall>i < n. mem info (p + i) = g i"
  shows "views info (U(p \<mapsto> t)) (V(p \<mapsto> (n, g)))"
  using assms by (auto simp: views_def)

lemma shmem_malloc_returned:
  assumes "shm_ok info U F" "zbx_shmem_malloc info NULL n = Some (Inr (info', p))" "p \<noteq> NULL"
  shows "\<exists>s F'. shm_ok info' (U(p \<mapsto> s)) F' \<and> n \<le> s \<and> U p = None \<and> keeps U (mem info) (mem info')"
proof -
  have n: "0 < n" "n \<le> SHMEM_MAX_SIZE" using assms(2) by (auto simp: zbx_shmem_malloc_def split: if_splits)
  show ?thesis using shmem_malloc_cases [OF assms(1) n] assms(2,3) by (auto split: if_splits)
qed

lemma shmem_realloc_returned:
  assumes "shm_ok info U F" "U p = Some s" "zbx_shmem_realloc info p n = Some (Inr (info', q))" "q \<noteq> NULL"
  shows "\<exists>t F'. shm_ok info' ((U(p := None))(q \<mapsto> t)) F' \<and> n \<le> t \<and> (U(p := None)) q = None
    \<and> keeps (U(p := None)) (mem info) (mem info') \<and> (\<forall>i < min s n. mem info' (q + i) = mem info (p + i))"
proof -
  have n: "0 < n" "n \<le> SHMEM_MAX_SIZE" using assms(3) by (auto simp: zbx_shmem_realloc_def split: if_splits)
  from shmem_realloc_cases [OF assms(1,2) n] assms(3,4) show ?thesis by (elim disjE) (auto split: if_splits)
qed

lemma shm_client_views: "shm_client info V \<Longrightarrow> \<exists>U F. shm_ok info U F \<and> views info U V"
proof (induction rule: shm_client.induct)
  case (created info F)
  then show ?case by (auto simp: views_def)
next
  case (allocated info V n info' p)
  then obtain U F where U: "shm_ok info U F" "views info U V" by blast
  from shmem_malloc_returned [OF U(1) allocated(2,3)] obtain s F' where s: "shm_ok info' (U(p \<mapsto> s)) F'" "n \<le> s" "U p = None"
    "keeps U (mem info) (mem info')" by blast
  moreover have "V p = None" using U(2) s(3) unfolding views_def by (metis domIff)
  ultimately have "U(p := None) = U" "V(p := None) = V" by (simp_all add: fun_upd_idem)
  with views_keep [OF U(2), of p info'] s(4) have "views info' U V" by simp
  from views_add [OF this s(2), of p "\<lambda>i. mem info' (p + i)"] s(1) show ?case by blast
next
  case (written info V p n g i w)
  then obtain U F where U: "shm_ok info U F" "views info U V" by blast
  from viewsD [OF U(2) written(2)] obtain t where t: "U p = Some t" "n \<le> t" "\<forall>i < n. mem info (p + i) = g i" by blast
  let ?i = "info\<lparr>mem := (mem info)(p + i := w)\<rparr>"
  have rel: "shm_rel info U F" using U(1) by (simp add: shm_ok_def)
  have "shm_rel ?i U F" by (rule shm_rel_write [OF rel t(1)]) (use written(3) t(2) in auto)
  then have ok: "shm_ok ?i U F" using U(1) by (simp add: shm_ok_def)
  have "keeps (U(p := None)) (mem info) (mem ?i)" unfolding keeps_def
  proof (intro allI impI)
    fix q s a assume q: "(U(p := None)) q = Some s" "q \<le> a" "a < q + s"
    then have "q \<noteq> p" "U q = Some s" by (auto split: if_splits)
    with blocks_apart [OF rel _ t(1)] q written(3) t(2) show "mem ?i a = mem info a" by fastforce
  qed
  from views_add [OF views_keep [OF U(2) this] t(2), of p "g(i := w)"] t(1,3) have "views ?i (U(p \<mapsto> t)) (V(p \<mapsto> (n, g(i := w))))"
    by simp
  moreover have "U(p \<mapsto> t) = U" using t(1) by (simp add: fun_upd_idem)
  ultimately show ?case using ok by metis
next
  case (moved info V p n g n' info' q)
  then obtain U F where U: "shm_ok info U F" "views info U V" by blast
  from viewsD [OF U(2) moved(2)] obtain t where t: "U p = Some t" "n \<le> t" "\<forall>i < n. mem info (p + i) = g i" by blast
  from shmem_realloc_returned [OF U(1) t(1) moved(3,4)] obtain s F' where s: "shm_ok info' ((U(p := None))(q \<mapsto> s)) F'" "n' \<le> s"
    "keeps (U(p := None)) (mem info) (mem info')" "\<forall>i < min t n'. mem info' (q + i) = mem info (p + i)" by blast
  have "\<forall>i < n'. mem info' (q + i) = (if i < min n n' then g i else mem info' (q + i))" using s(4) t(2,3) by simp
  from views_add [OF views_keep [OF U(2) s(3)] s(2) this] s(1) show ?case by blast
next
  case (freed info V p n g info')
  then obtain U F where U: "shm_ok info U F" "views info U V" by blast
  from viewsD [OF U(2) freed(2)] obtain t where t: "U p = Some t" by blast
  from shmem_free_cases [OF U(1) t] freed(3) obtain F' where "shm_ok info' (U(p := None)) F'" "keeps (U(p := None)) (mem info) (mem info')" by auto
  with views_keep [OF U(2)] show ?case by blast
qed

end
