(* ===== verification/Shmem_Segment.thy ===== *)
theory Shmem_Segment
  imports Shmem_Spec
begin

text \<open>
  Creation of a shared memory segment, its statistics, and the properties of the allocator.
\<close>

section \<open>Creation\<close>

lemma one_chunk_inv:
  assumes "0 < lo_bound info" "8 dvd lo_bound info" "24 \<le> t" "8 dvd t" "hi_bound info = lo_bound info + 16 + t" "hi_bound info < 2 ^ 63"
    and t: "total_size info = of_nat t"
  shows "shm_inv (one_chunk info) [(False, t)]" "same_segment info (one_chunk info)"
proof -
  let ?p = "lo_bound info" and ?bs = "replicate 30 NULL"
  let ?i = "info\<lparr>buckets := ?bs, used_size := 0, free_size := total_size info\<rparr>"
  have total: "unat (total_size info) = t" using t assms(5,6) by (simp add: unat_of_nat)
  have h: "heap_ok (mem ?i) (buckets ?i) {}" by (auto simp: heap_ok_def sized_def linked_def free_list_def bucket_of_def intro!: exI [of _ "[]"])
  have P: "placed (insert (?p, False, t) {})" using assms by (simp add: placed_def)
  from heap_add_free [OF h P] obtain m bs where l:
    "mem_link_chunk (?i\<lparr>mem := mem_set_chunk_size (mem ?i) ?p t\<rparr>) ?p = ?i\<lparr>mem := m, buckets := bs\<rparr>" "heap_ok m bs {(?p, False, t)}"
    by (metis empty_iff)
  have size: "CHUNK_SIZE (mem_set_chunk_size (mem info) ?p t) ?p = t"
  proof -
    have "mem_set_chunk_size (mem info) ?p t ?p = chunk_tag False t" by (simp add: set_sizes)
    moreover have "t < 2 ^ 63" using assms(5,6) by simp
    ultimately show ?thesis using chunk_tag_simps(1) [of t False] by (simp add: CHUNK_SIZE_def)
  qed
  have "?bs ! mem_bucket_by_size t = NULL" using bucket_bound [of t] by simp
  then have "one_chunk info = mem_link_chunk (?i\<lparr>mem := mem_set_chunk_size (mem ?i) ?p t\<rparr>) ?p"
    using size by (simp add: one_chunk_def mem_link_chunk_def Let_def total upd_order)
  with l(1) have eq: "one_chunk info = info\<lparr>mem := m, buckets := bs, used_size := 0, free_size := total_size info\<rparr>" by (simp add: upd_order)
  show "shm_inv (one_chunk info) [(False, t)]" unfolding eq shm_inv_def
    using assms l(2) by (simp add: tile_ok_def coalesced_def add.assoc)
  show "same_segment info (one_chunk info)" unfolding eq by (simp add: same_segment_def)
qed

lemma align8:
  assumes "unat w + 7 < 2 ^ 64"
  shows "unat (ALIGN8 w) = (unat w + 7) div 8 * 8"
proof -
  have "x AND NOT (mask 3) = push_bit 3 (drop_bit 3 x)" for x :: u64
    by (rule bit_word_eqI) (auto simp: bit_and_iff bit_not_iff bit_mask_iff bit_push_bit_iff bit_drop_bit_eq possible_bit_word)
  moreover have "(7 :: u64) = mask 3" by (simp add: mask_eq_exp_minus_1)
  ultimately have "x AND NOT 7 = push_bit 3 (drop_bit 3 x)" for x :: u64 by metis
  then have "unat (ALIGN8 w) = unat (push_bit 3 (drop_bit 3 (w + 7)))" by (simp add: ALIGN8_def)
  moreover have "unat (w + 7) = unat w + 7" using assms by (simp add: unat_word_ariths)
  ultimately show ?thesis using assms
    by (simp add: push_bit_eq_mult drop_bit_eq_div unat_word_ariths(2) unat_div)
qed

definition align_up :: "nat \<Rightarrow> nat" where
  "align_up n = (n + 7) div 8 * 8"

lemma align_up: "8 dvd align_up n" "n \<le> align_up n" "align_up n \<le> n + 7" "8 dvd b \<Longrightarrow> align_up (b + n) = b + align_up n"
proof -
  show "8 dvd align_up n" by (simp add: align_up_def)
  have "(n + 7) div 8 * 8 + (n + 7) mod 8 = n + 7" "(n + 7) mod 8 < 8" by (rule div_mult_mod_eq) simp
  then show "n \<le> align_up n" "align_up n \<le> n + 7" unfolding align_up_def by linarith+
  assume "8 dvd b"
  then obtain k where "b = 8 * k" ..
  then show "align_up (b + n) = b + align_up n" by (simp add: align_up_def add.assoc)
qed

lemma align_up_id: "8 dvd b \<Longrightarrow> align_up b = b"
  using align_up(4) [of b 0] by (simp add: align_up_def)

lemma align8_of_nat: "n + 7 < 2 ^ 64 \<Longrightarrow> ALIGN8 (of_nat n) = of_nat (align_up n)"
proof -
  assume n: "n + 7 < 2 ^ 64"
  then have u: "unat (of_nat n :: u64) = n" by (simp add: unat_of_nat)
  have "unat (ALIGN8 (of_nat n)) = align_up n" using align8 [of "of_nat n"] n by (simp add: u align_up_def)
  moreover have "unat (of_nat (align_up n) :: u64) = align_up n" using align_up(3) [of n] n by (simp add: unat_of_nat)
  ultimately show ?thesis by (simp add: word_eq_iff_unsigned [where ?'a = nat])
qed

lemma create_layout:
  fixes B S I :: nat and descr param :: string
  defines "E \<equiv> align_up I + 240 + length descr + 1 + length param + 1"
  assumes B: "8 dvd B" "B + I + length descr + length param + S + 300 < 2 ^ 63" and S: "E \<le> S" "128 \<le> S" "S \<le> SHMEM_MAX_SIZE"
  shows "zbx_shmem_create I (Some (of_nat B)) m (of_nat S) descr param oom =
    (SUCCEED, Some (one_chunk \<lparr>mem = m, buckets = replicate 30 NULL, lo_bound = B + align_up E, hi_bound = align_up (B + S - 8),
      free_size = 0, used_size = 0, total_size = of_nat (align_up (B + S - 8)) - of_nat (B + align_up E) - 16, allow_oom = oom, lock = MFree\<rparr>))"
proof -
  have u: "unat (of_nat n :: u64) = n" if "n < 2 ^ 63" for n using that by (simp add: unat_of_nat)
  have "of_nat SHMEM_MIN_SIZE \<le> (of_nat S :: u64)" "of_nat S \<le> (of_nat SHMEM_MAX_SIZE :: u64)"
    using S(2,3) u [of S] u [of 128] u [of 68719476736] by (simp_all only: word_le_nat_alt) simp_all
  note bounds = this
  have I: "align_up I \<le> I + 7" "align_up E \<le> E + 7" "align_up (B + S - 8) \<le> B + S - 8 + 7" by (rule align_up)+
  have al: "ALIGN8 (of_nat n) = of_nat (align_up n)" if "n \<le> B + S + I" for n
    using B(2) that by (intro align8_of_nat) simp
  have a: "ALIGN8 (of_nat B) = of_nat B" "ALIGN8 (of_nat (B + I)) = of_nat (B + align_up I)"
    "ALIGN8 (of_nat (B + E)) = of_nat (B + align_up E)" "ALIGN8 (of_nat (B + S - 8)) = of_nat (align_up (B + S - 8))"
    using al [of B] al [of "B + I"] al [of "B + E"] al [of "B + S - 8"] S(1) align_up(4) [OF B(1)] align_up_id [OF B(1)] by auto
  have w: "of_nat (B + align_up I) + of_nat (30 * 8) + of_nat (length descr + 1) + of_nat (length param + 1) = (of_nat (B + E) :: u64)"
    by (simp add: E_def)
  have h: "of_nat (B + E) + (of_nat S - (of_nat (B + I) - of_nat B) - (of_nat (B + align_up I) + of_nat (30 * 8) - of_nat (B + I))
      - of_nat (length descr + 1) - of_nat (length param + 1)) - 8 = (of_nat (B + S - 8) :: u64)"
    using S(2) by (simp add: E_def of_nat_diff)
  have v: "unat (of_nat (B + align_up E) :: u64) = B + align_up E" "unat (of_nat (align_up (B + S - 8)) :: u64) = align_up (B + S - 8)"
    using B(2) I S(1) by (intro u; simp add: E_def)+
  show ?thesis
    unfolding zbx_shmem_create_def Let_def option.case a(1) of_nat_add [symmetric, of B I] a(2) w h a(3,4) v glb_lock_init_def
    using bounds by simp
qed

lemma create_min_ok:
  fixes I :: nat and descr param :: string
  assumes base: "8 dvd unat base" "0 < base" "unat base < 2 ^ 62" and sz: "24 \<le> unat sz" "unat sz + I + length descr + length param + 300 \<le> SHMEM_MAX_SIZE"
  shows "\<exists>info. zbx_shmem_create_min I (Some base) m sz descr param oom = (SUCCEED, Some info)
    \<and> shm_ok info Map.empty [lo_bound info + 8 \<mapsto> unat (total_size info)] \<and> sz \<le> total_size info \<and> unat (total_size info) < unat sz + 8 \<and> allow_oom info = oom
    \<and> unat base + I < lo_bound info \<and> hi_bound info \<le> unat base + unat (create_min_size I sz descr param)"
proof -
  define E where "E = align_up I + 240 + length descr + 1 + length param + 1"
  define S where "S = unat sz + align_up E + 24"
  have le: "I \<le> align_up I" "align_up I \<le> I + 7" "E \<le> align_up E" "align_up E \<le> E + 7" "align_up (unat sz) \<le> unat sz + 7" "unat sz \<le> align_up (unat sz)" by (rule align_up)+
  have S: "E \<le> S" "128 \<le> S" "S \<le> SHMEM_MAX_SIZE" "S \<le> unat sz + I + 300 + length descr + length param" using le sz by (simp_all add: S_def E_def)
  have b: "of_nat (unat base) = base" "of_nat (unat sz) = sz" by simp_all
  have min: "create_min_size I sz descr param = of_nat S"
  proof -
    have "ALIGN8 (of_nat I) = of_nat (align_up I)" using sz(2) by (intro align8_of_nat) simp
    moreover have "ALIGN8 (of_nat E) = of_nat (align_up E)" using sz(2) le by (intro align8_of_nat) (simp add: E_def)
    moreover have "of_nat E = of_nat (align_up I) + of_nat (30 * 8) + of_nat (length descr + 1) + (of_nat (length param + 1) :: u64)" by (simp add: E_def)
    ultimately show ?thesis unfolding create_min_size_def Let_def by (simp add: S_def)
  qed
  have hi: "align_up (unat base + S - 8) = unat base + align_up E + 16 + align_up (unat sz)"
  proof -
    have "unat base + S - 8 = unat base + (align_up E + (16 + unat sz))" by (simp add: S_def)
    then show ?thesis using align_up(4) [OF base(1)] align_up(4) [OF align_up(1) [of E]] align_up(4) [of 16] by simp
  qed
  have room: "unat base + I + length descr + length param + S + 300 < 2 ^ 63" using base(3) sz(2) S(4) by simp
  define i where "i = \<lparr>mem = m, buckets = replicate 30 NULL, lo_bound = unat base + align_up E, hi_bound = align_up (unat base + S - 8),
      free_size = 0, used_size = 0, total_size = of_nat (align_up (unat base + S - 8)) - of_nat (unat base + align_up E) - 16, allow_oom = oom, lock = MFree\<rparr>"
  have c: "zbx_shmem_create_min I (Some base) m sz descr param oom = (SUCCEED, Some (one_chunk i))"
    using create_layout [OF base(1) room, folded E_def, OF S(1-3), of m oom] unfolding zbx_shmem_create_min_def min b i_def by simp
  have t: "total_size i = of_nat (align_up (unat sz))" by (simp add: i_def hi)
  have inv: "shm_inv (one_chunk i) [(False, align_up (unat sz))]" "same_segment i (one_chunk i)"
    by (rule one_chunk_inv; use t base align_up(1) le S sz hi in \<open>auto simp: i_def word_greater_zero_iff E_def\<close>)+
  have ts: "unat (total_size i) = align_up (unat sz)" using le(5) sz(2) by (simp add: t unat_of_nat)
  have "shm_ok (one_chunk i) Map.empty [lo_bound (one_chunk i) + 8 \<mapsto> unat (total_size (one_chunk i))]"
    unfolding shm_ok_def shm_rel_def using inv ts by (auto simp: same_segment_def i_def intro!: exI [of _ "[(False, align_up (unat sz))]"])
  moreover have "sz \<le> total_size (one_chunk i)" using inv(2) ts le(6) by (simp add: same_segment_def word_le_nat_alt)
  moreover have "unat (total_size (one_chunk i)) < unat sz + 8" using inv(2) ts le(5) by (simp add: same_segment_def)
  moreover have "unat (of_nat S :: u64) = S" using S(3) by (simp add: unat_of_nat)
  ultimately show ?thesis using c inv(2) le S sz hi unfolding min
    by (intro exI [of _ "one_chunk i"]) (simp add: same_segment_def i_def E_def S_def)
qed

section \<open>Statistics\<close>

definition chunk_word :: "memory \<Rightarrow> nat \<Rightarrow> u64" where
  "chunk_word m q = of_nat (CHUNK_SIZE m q)"

lemma bucket_walk_chain:
  "chain m prev p ps l NULL \<Longrightarrow> bucket_walk m p c lo hi =
     Some (c + of_nat (length ps), fold (\<lambda>q a. min a (chunk_word m q)) ps lo, fold (\<lambda>q a. max a (chunk_word m q)) ps hi)"
proof (induction ps arbitrary: prev p c lo hi)
  case Nil
  then show ?case by (subst bucket_walk.simps) simp
next
  case (Cons q ps)
  then have "chain m q (mem_get_next_chunk m p) ps l NULL" "p \<noteq> NULL" "p = q" by auto
  then show ?case by (subst bucket_walk.simps) (simp add: Let_def Cons.IH chunk_word_def)
qed

lemma ucast_of_nat_u64: "ucast (of_nat n :: u64) = (of_nat n :: u32)"
  by (simp add: unsigned_of_nat word_of_nat_eq_iff)

lemma bucket_loop_chains:
  "list_all2 (\<lambda>b ps. free_list m b ps) bs pss \<Longrightarrow> \<exists>stats'. bucket_loop m bs stats = Some stats'
     \<and> st_free_chunks stats' = st_free_chunks stats + of_nat (length (concat pss))
     \<and> st_max_chunk_size stats' = fold (\<lambda>q a. max a (chunk_word m q)) (concat pss) (st_max_chunk_size stats)
     \<and> st_min_chunk_size stats' = fold (\<lambda>q a. min a (chunk_word m q)) (concat pss) (st_min_chunk_size stats)
     \<and> st_chunks_num stats' = st_chunks_num stats @ map (\<lambda>ps. of_nat (length ps)) pss"
proof (induction arbitrary: stats rule: list_all2_induct)
  case (Cons b bs ps pss)
  then obtain l where "chain m NULL b ps l NULL" by (auto simp: free_list_def)
  note w = bucket_walk_chain [OF this, of 0 "st_min_chunk_size stats" "st_max_chunk_size stats"]
  from Cons.IH [of "stats\<lparr>st_min_chunk_size := fold (\<lambda>q a. min a (chunk_word m q)) ps (st_min_chunk_size stats),
      st_max_chunk_size := fold (\<lambda>q a. max a (chunk_word m q)) ps (st_max_chunk_size stats),
      st_free_chunks := st_free_chunks stats + of_nat (length ps), st_chunks_num := st_chunks_num stats @ [of_nat (length ps)]\<rparr>"]
  show ?case by (auto simp: w ucast_of_nat_u64)
qed simp

text \<open>The lists of the buckets together hold each free chunk once.\<close>

lemma linked_concat:
  assumes "linked m bs C" "placed C"
  obtains pss where "list_all2 (\<lambda>b ps. free_list m b ps) bs pss" "distinct (concat pss)" "set (concat pss) = {p. \<exists>s. (p, False, s) \<in> C}"
proof -
  define f where "f i = (SOME ps. free_list m (bs ! i) ps \<and> distinct ps \<and> set ps = bucket_of C i)" for i
  have len: "length bs = 30" using assms(1) by (simp add: linked_def)
  have f: "free_list m (bs ! i) (f i) \<and> distinct (f i) \<and> set (f i) = bucket_of C i" if "i < 30" for i
    unfolding f_def by (rule someI_ex) (use assms(1) that in \<open>simp add: linked_def\<close>)
  let ?pss = "map f [0..<30]"
  have "list_all2 (\<lambda>b ps. free_list m b ps) bs ?pss" using f len by (intro list_all2_all_nthI) simp_all
  moreover have "set (concat ?pss) = {p. \<exists>s. (p, False, s) \<in> C}"
  proof -
    have "set (concat ?pss) = (\<Union>i \<in> {0..<30}. bucket_of C i)" using f by auto
    also have "\<dots> = {p. \<exists>s. (p, False, s) \<in> C}" unfolding bucket_of_def using bucket_bound by fastforce
    finally show ?thesis .
  qed
  moreover have "distinct (concat (map f [0..<n]))" if "n \<le> 30" for n
    using that
  proof (induction n)
    case (Suc n)
    have "set (f n) \<inter> set (f i) = {}" if "i < n" for i using f [of n] f [of i] bucket_disjoint [OF assms(2), of n i] that Suc.prems by simp
    then have "set (concat (map f [0..<n])) \<inter> set (f n) = {}" by fastforce
    with Suc f [of n] show ?case by simp
  qed simp
  ultimately show thesis using that [of ?pss] by simp
qed

lemma tiles_count: "length cs = card (dom (blocks True a cs)) + card (dom (blocks False a cs))"
proof (induction a cs rule: layout.induct)
  case (2 a u s cs)
  have "finite (dom (blocks v b cs))" "a + 8 \<notin> dom (blocks v (a + 16 + s) cs)" for v b
    using blocks_dom [of v "a + 16 + s" cs] finite_subset [OF blocks_dom [of v b cs]] by auto
  moreover have "dom (blocks v a ((u, s) # cs)) = (if u = v then insert (a + 8) (dom (blocks v (a + 16 + s) cs)) else dom (blocks v (a + 16 + s) cs))"
    for v by simp
  ultimately show ?case using 2 by (cases u) (simp_all only: card_insert_disjoint if_True if_False simp_thms list.size)
qed simp

lemma tile_sums: "list_all tile_ok cs \<Longrightarrow> 40 * length cs \<le> extent cs \<and> extent cs = 16 * length cs + tile_sizes True cs + tile_sizes False cs"
  by (induction cs) (auto simp: tile_ok_def)

lemma fold_max_word: "fold (\<lambda>q a. max a (f q)) ps (x :: u64) = Max (insert x (f ` set ps))"
proof -
  have "(\<lambda>q a. max a (f q)) = (\<lambda>q. max (f q))" by (auto simp: fun_eq_iff max.commute)
  then show ?thesis using Max.set_eq_fold [of x "map f ps"] by (simp add: fold_map comp_def)
qed

lemma used_chunks_word:
  assumes "K \<le> N" "0 < N" "N < 2 ^ 32"
  shows "unat (ucast ((of_nat (16 * (N - 1)) :: u64) div of_nat (2 * 8) + 1 - ucast (of_nat K :: u32)) :: u32) = N - K"
proof -
  have u: "unat (of_nat n :: u64) = n" if "n < 2 ^ 60" for n using that by (simp add: unat_of_nat)
  have "unat ((of_nat (16 * (N - 1)) :: u64) div of_nat (2 * 8)) = N - 1"
    using u [of "16 * (N - 1)"] assms(3) by (simp add: unat_div)
  then have d: "(of_nat (16 * (N - 1)) :: u64) div of_nat (2 * 8) = of_nat (N - 1)"
    using u [of "N - 1"] assms(3) by (simp add: word_eq_iff_unsigned [where ?'a = nat])
  have "ucast (of_nat K :: u32) = (of_nat K :: u64)" using assms by (simp add: unsigned_of_nat take_bit_nat_eq_self)
  then have r: "(of_nat (16 * (N - 1)) :: u64) div of_nat (2 * 8) + 1 - ucast (of_nat K :: u32) = of_nat (N - K)"
    using assms(1,2) unfolding d by (simp add: of_nat_diff)
  show ?thesis unfolding r ucast_of_nat_u64 unat_of_nat using assms by (simp add: take_bit_nat_eq_self)
qed

lemma max_chunk_word:
  assumes "sized m C" "placed C" "set ps = {p. \<exists>s. (p, False, s) \<in> C}" "(p, False, s) \<in> C"
  defines "M \<equiv> unat (fold (\<lambda>q a. max a (chunk_word m q)) ps 0)"
  shows "\<exists>q. (q, False, M) \<in> C" "s \<le> M"
proof -
  have w: "unat (chunk_word m q) = t" if "(q, False, t) \<in> C" for q t
    using sized_simps(1) [OF assms(1,2) that] placed_ok [OF assms(2) that] by (simp add: chunk_word_def unat_of_nat)
  let ?A = "chunk_word m ` set ps"
  have M: "M = unat (Max (insert 0 ?A))" by (simp add: M_def fold_max_word)
  have p: "chunk_word m p \<in> ?A" using assms(3,4) by blast
  then have "Max (insert 0 ?A) = Max ?A" by (subst Max_insert) (auto simp: max_def)
  moreover have "Max ?A \<in> ?A" "chunk_word m p \<le> Max ?A" using p by (auto intro: Max_in)
  ultimately show "\<exists>q. (q, False, M) \<in> C" "s \<le> M" using w [OF assms(4)] w assms(3) unfolding M by (auto simp: word_le_nat_alt)
qed

lemma stats_exact:
  assumes ok: "shm_ok info U F" and max: "unat (total_size info) \<le> SHMEM_MAX_SIZE"
  shows "\<exists>stats. zbx_shmem_get_stats info = Some (Inr stats) \<and> unat (st_free_chunks stats) = card (dom F) \<and> unat (st_used_chunks stats) = card (dom U)
    \<and> unat (st_overhead stats) = 16 * (card (dom U) + card (dom F) - 1)
    \<and> (\<forall>s \<in> ran F. unat (st_max_chunk_size stats) \<in> ran F \<and> s \<le> unat (st_max_chunk_size stats))"
proof -
  let ?i = "info\<lparr>lock := MHeld\<rparr>"
  obtain cs where cs: "shm_inv info cs" "U = blocks True (lo_bound info) cs" "F = blocks False (lo_bound info) cs" and l: "lock info = MFree"
    using ok by (auto simp: shm_ok_def shm_rel_def)
  define C where "C = set (layout (lo_bound info) cs)"
  have h: "sized (mem info) C" "linked (mem info) (buckets info) C" and P: "placed C"
    using shm_inv_heap [OF cs(1)] shm_inv_placed [OF cs(1)] by (auto simp: C_def heap_ok_def)
  from linked_concat [OF h(2) P] obtain pss where pss: "list_all2 (\<lambda>b ps. free_list (mem info) b ps) (buckets info) pss"
    "distinct (concat pss)" "set (concat pss) = {p. \<exists>s. (p, False, s) \<in> C}" by metis
  define K where "K = length (concat pss)"
  define N where "N = length cs"
  have "dom F = (\<lambda>p. p + 8) ` set (concat pss)" unfolding cs(3) pss(3) C_def by (auto simp: blocks_Some dom_def)
  then have K: "card (dom F) = K" using distinct_card [OF pss(2)] by (simp add: card_image K_def)
  have N: "card (dom U) + K = N" unfolding K [symmetric] N_def cs(2,3) using tiles_count [of cs "lo_bound info"] by simp
  have tiles: "list_all tile_ok cs" "0 < N" "total_size info = of_nat (extent cs - 16)" "extent cs < 2 ^ 63"
    "used_size info = of_nat (tile_sizes True cs)" "free_size info = of_nat (tile_sizes False cs)" using cs(1) by (auto simp: shm_inv_def N_def)
  have ext: "extent cs - 16 = 16 * (N - 1) + tile_sizes True cs + tile_sizes False cs" "40 * N \<le> extent cs"
    using tile_sums [OF tiles(1)] tiles(2) by (auto simp: N_def [symmetric])
  have "unat (total_size info) = extent cs - 16" unfolding tiles(3) using tiles(4) by (simp add: unat_of_nat)
  then have small: "N < 2 ^ 32" "K < 2 ^ 32" using max ext(2) N by auto
  have over: "total_size info - used_size info - free_size info = of_nat (16 * (N - 1))" unfolding tiles ext(1) by simp
  from bucket_loop_chains [OF pss(1)] obtain st where st: "bucket_loop (mem info) (buckets info)
      \<lparr>st_free_size = 0, st_used_size = 0, st_min_chunk_size = - 1, st_max_chunk_size = 0, st_overhead = 0,
       st_chunks_num = [], st_free_chunks = 0, st_used_chunks = 0\<rparr> = Some st" "st_free_chunks st = of_nat K"
    "st_max_chunk_size st = fold (\<lambda>q a. max a (chunk_word (mem info) q)) (concat pss) 0" unfolding K_def by (metis add_0 zbx_shmem_stats.select_convs(4,7))
  let ?st = "st\<lparr>st_overhead := of_nat (16 * (N - 1)), st_used_chunks := ucast ((of_nat (16 * (N - 1)) :: u64) div of_nat (2 * 8) + 1 - ucast (of_nat K :: u32)),
      st_free_size := free_size info, st_used_size := used_size info\<rparr>"
  have "zbx_shmem_get_stats info = Some (Inr ?st)"
    unfolding zbx_shmem_get_stats_def by (subst locked_MFree [OF l, of _ ?i ?st]) (simp_all add: st over Let_def)
  moreover have "unat (st_max_chunk_size ?st) \<in> ran F \<and> s \<le> unat (st_max_chunk_size ?st)" if s: "s \<in> ran F" for s
  proof -
    obtain p where "(p, False, s) \<in> C" using s shm_inv_free_sizes [of False s "lo_bound info" cs] unfolding cs(3) ran_blocks C_def by auto
    from max_chunk_word [OF h(1) P pss(3) this] show ?thesis unfolding cs(3) C_def ran_def by (auto simp: blocks_Some st(3))
  qed
  moreover have "unat (st_used_chunks ?st) = card (dom U)" using used_chunks_word [of K N] small tiles(2) N by simp
  moreover have "unat (st_free_chunks ?st) = card (dom F)" using small(2) by (simp add: st K unat_of_nat)
  moreover have "unat (of_nat (16 * (N - 1)) :: u64) = 16 * (N - 1)" unfolding unat_of_nat using small(1) by (simp add: take_bit_nat_eq_self)
  then have "unat (st_overhead ?st) = 16 * (card (dom U) + card (dom F) - 1)" using N K by (simp del: of_nat_mult)
  ultimately show ?thesis by blast
qed

end
