(* ===== verification/Shmem_Props.thy ===== *)
theory Shmem_Props
  imports Shmem_Segment
begin

text \<open>
  The properties of the shared memory allocator.
\<close>

lemma all_free_one_chunk:
  assumes "shm_rel info Map.empty F"
  shows "F = [lo_bound info + 8 \<mapsto> unat (total_size info)] \<and> free_size info = total_size info \<and> used_size info = 0"
proof -
  obtain cs where cs: "shm_inv info cs" "Map.empty = blocks True (lo_bound info) cs" "F = blocks False (lo_bound info) cs"
    using assms by (auto simp: shm_rel_def)
  have "(True, s) \<notin> set cs" for s using arg_cong [OF cs(2), of ran] by (auto simp: ran_blocks)
  then have "\<forall>c \<in> set cs. \<not> fst c" by (metis (full_types) prod.collapse)
  then obtain s where s: "cs = [(False, s)]"
    using cs(1) by (cases cs; cases "tl cs") (auto simp: shm_inv_def coalesced_def)
  then have "extent cs - 16 = s" "extent cs < 2 ^ 63" "total_size info = of_nat s" using cs(1) by (auto simp: shm_inv_def)
  moreover from this have "unat (total_size info) = s" using s by (simp add: unat_of_nat)
  ultimately show ?thesis using cs(1,3) s by (simp add: shm_inv_def)
qed

lemma example_segment:
  "\<exists>info. zbx_shmem_create_min 128 (Some 4096) (\<lambda>_. 0) 1000 ''cache'' ''CacheSize'' True = (SUCCEED, Some info)
     \<and> shm_ok info Map.empty [lo_bound info + 8 \<mapsto> unat (total_size info)] \<and> 1000 \<le> unat (total_size info) \<and> unat (total_size info) < 1008 \<and> allow_oom info"
proof -
  have "\<exists>info. zbx_shmem_create_min 128 (Some 4096) (\<lambda>_. 0) 1000 ''cache'' ''CacheSize'' True = (SUCCEED, Some info)
    \<and> shm_ok info Map.empty [lo_bound info + 8 \<mapsto> unat (total_size info)] \<and> 1000 \<le> total_size info \<and> unat (total_size info) < 1008 \<and> allow_oom info"
    using create_min_ok [of 4096 1000 128 "''cache''" "''CacheSize''" "\<lambda>_. 0" True] by auto
  then show ?thesis by (auto simp: word_le_nat_alt)
qed

section \<open>Properties\<close>

text \<open>
  C1. Clients of a shared memory segment are isolated from each other.  In every state that a segment reaches by
  allocations, writes of clients into their own blocks, reallocations and frees, in any order, the blocks are
  aligned, lie inside the segment and do not overlap, and each holds what was last written into it, also
  after a reallocation moved it.
\<close>

theorem shmem_clients_isolated:
  assumes "shm_client info V" "V p = Some (n, g)"
  shows "(\<forall>i < n. mem info (p + i) = g i) \<and> 8 dvd p \<and> lo_bound info < p \<and> p + n < hi_bound info
    \<and> (\<forall>q n' g'. V q = Some (n', g') \<longrightarrow> q = p \<or> p + n < q \<or> q + n' < p)"
proof -
  obtain U F where U: "shm_ok info U F" "views info U V" using shm_client_views [OF assms(1)] by blast
  then have rel: "shm_rel info U F" by (simp add: shm_ok_def)
  obtain t where t: "U p = Some t" "n \<le> t" "\<forall>i < n. mem info (p + i) = g i" using viewsD [OF U(2) assms(2)] by blast
  have "q = p \<or> p + n < q \<or> q + n' < p" if q: "V q = Some (n', g')" for q n' g'
  proof -
    obtain s where "U q = Some s" "n' \<le> s" using viewsD [OF U(2) q] by blast
    then show ?thesis using blocks_apart [OF rel t(1)] t(2) by fastforce
  qed
  then show ?thesis using t shm_rel_bounds [OF rel t(1)] by auto
qed

theorem shmem_clients_isolated_witness:
  "\<exists>info info' p. zbx_shmem_create_min 128 (Some 4096) (\<lambda>_. 0) 1000 ''cache'' ''CacheSize'' True = (SUCCEED, Some info)
    \<and> zbx_shmem_malloc info NULL 100 = Some (Inr (info', p)) \<and> mem (info'\<lparr>mem := (mem info')(p + 16 := 7)\<rparr>) (p + 16) = 7
    \<and> 8 dvd p \<and> p + 100 < hi_bound info'"
proof -
  obtain info where i: "zbx_shmem_create_min 128 (Some 4096) (\<lambda>_. 0) 1000 ''cache'' ''CacheSize'' True = (SUCCEED, Some info)"
    "shm_ok info Map.empty [lo_bound info + 8 \<mapsto> unat (total_size info)]" "1000 \<le> unat (total_size info)" using example_segment by blast
  have "mem_proper_alloc_size 100 < 1000" using proper_alloc_size(4) [of 100] by simp
  with shmem_malloc_cases [OF i(2), of 100] i(3) obtain info' p where m: "zbx_shmem_malloc info NULL 100 = Some (Inr (info', p))" "p \<noteq> NULL" by auto
  from shm_client.allocated [OF shm_client.created [OF i(2)] m] have "shm_client info' [p \<mapsto> (100, \<lambda>i. mem info' (p + i))]" by simp
  from shm_client.written [OF this, of p 100 "\<lambda>i. mem info' (p + i)" 16 7] have
    c: "shm_client (info'\<lparr>mem := (mem info')(p + 16 := 7)\<rparr>) [p \<mapsto> (100, (\<lambda>i. mem info' (p + i))(16 := 7))]" by simp
  from shmem_clients_isolated [OF this, of p 100 "(\<lambda>i. mem info' (p + i))(16 := 7)"] i(1) m(1) show ?thesis by auto
qed

text \<open>
  C6. An allocation succeeds exactly if some free chunk has room for the rounded size.  Then the block is new, at
  least as large as asked for, and the content of all other blocks is untouched.  Otherwise nothing changes and the
  result is NULL where the segment allows it, the end of the process where it does not.
\<close>

theorem shmem_malloc_spec:
  assumes "shm_ok info U F" "0 < n" "n \<le> SHMEM_MAX_SIZE"
  shows "if \<forall>s \<in> ran F. s < mem_proper_alloc_size n
    then zbx_shmem_malloc info NULL n = Some (if allow_oom info then Inr (info, NULL) else Inl ExitFailure)
    else \<exists>info' p s F'. zbx_shmem_malloc info NULL n = Some (Inr (info', p)) \<and> shm_ok info' (U(p \<mapsto> s)) F'
      \<and> p \<noteq> NULL \<and> n \<le> s \<and> U p = None \<and> keeps U (mem info) (mem info') \<and> same_segment info info'"
  using assms by (rule shmem_malloc_cases)

theorem shmem_malloc_spec_witness:
  "\<exists>info info' p. zbx_shmem_create_min 128 (Some 4096) (\<lambda>_. 0) 1000 ''cache'' ''CacheSize'' True = (SUCCEED, Some info)
    \<and> zbx_shmem_malloc info NULL 500 = Some (Inr (info', p)) \<and> p \<noteq> NULL"
proof -
  obtain info where i: "zbx_shmem_create_min 128 (Some 4096) (\<lambda>_. 0) 1000 ''cache'' ''CacheSize'' True = (SUCCEED, Some info)"
    "shm_ok info Map.empty [lo_bound info + 8 \<mapsto> unat (total_size info)]" "1000 \<le> unat (total_size info)" using example_segment by blast
  have "mem_proper_alloc_size 500 < 1000" using proper_alloc_size(4) [of 500] by simp
  with shmem_malloc_spec [OF i(2), of 500] i(1,3) show ?thesis by auto
qed

text \<open>
  C7. Reallocating a block never ends in the exit that the code marks as impossible and never searches for ever:
  it returns a block of the new size with the old content up to the smaller size, and the other blocks
  untouched, or it fails like an allocation, with the block unchanged, when no free chunk has room.
\<close>

theorem shmem_realloc_spec:
  assumes "shm_ok info U F" "U p = Some s" "0 < n" "n \<le> SHMEM_MAX_SIZE"
  shows "zbx_shmem_realloc info p n = Some (if allow_oom info then Inr (info, NULL) else Inl ExitFailure)
      \<and> (\<forall>t \<in> ran F. t < mem_proper_alloc_size n) \<or>
    (\<exists>info' q t F'. zbx_shmem_realloc info p n = Some (Inr (info', q)) \<and> shm_ok info' ((U(p := None))(q \<mapsto> t)) F' \<and> q \<noteq> NULL \<and> n \<le> t
      \<and> (U(p := None)) q = None \<and> keeps (U(p := None)) (mem info) (mem info') \<and> (\<forall>i < min s n. mem info' (q + i) = mem info (p + i)))"
  using assms by (rule shmem_realloc_cases)

theorem shmem_realloc_spec_witness:
  "\<exists>info info' info'' p q. zbx_shmem_create_min 128 (Some 4096) (\<lambda>_. 0) 1000 ''cache'' ''CacheSize'' True = (SUCCEED, Some info)
    \<and> zbx_shmem_malloc info NULL 500 = Some (Inr (info', p)) \<and> zbx_shmem_realloc info' p 100 = Some (Inr (info'', q))"
proof -
  obtain info where i: "zbx_shmem_create_min 128 (Some 4096) (\<lambda>_. 0) 1000 ''cache'' ''CacheSize'' True = (SUCCEED, Some info)"
    "shm_ok info Map.empty [lo_bound info + 8 \<mapsto> unat (total_size info)]" "1000 \<le> unat (total_size info)" "allow_oom info" using example_segment by blast
  have "mem_proper_alloc_size 500 < 1000" using proper_alloc_size(4) [of 500] by simp
  with shmem_malloc_cases [OF i(2), of 500] i(3) obtain info' p s F' where
    m: "zbx_shmem_malloc info NULL 500 = Some (Inr (info', p))" "shm_ok info' [p \<mapsto> s] F'" "500 \<le> s" "same_segment info info'" by auto
  have "allow_oom info'" using m(4) i(4) by (simp add: same_segment_def)
  with shmem_realloc_spec [OF m(2), of p s 100] i(1) m(1) show ?thesis by auto
qed

text \<open>
  C16. Freed memory is not lost to fragmentation: when the clients have freed all their blocks, in whatever order,
  the segment is one free chunk again, and the counters of used and free memory say so.
\<close>

theorem shmem_all_freed:
  assumes "shm_client info Map.empty"
  shows "shm_ok info Map.empty [lo_bound info + 8 \<mapsto> unat (total_size info)] \<and> free_size info = total_size info \<and> used_size info = 0"
proof -
  obtain U F where U: "shm_ok info U F" "views info U Map.empty" using shm_client_views [OF assms] by blast
  then have "U = Map.empty" by (auto simp: views_def dom_def)
  with U(1) all_free_one_chunk [of info F] show ?thesis by (auto simp: shm_ok_def)
qed

theorem shmem_all_freed_witness:
  "\<exists>info info' p info''. zbx_shmem_create_min 128 (Some 4096) (\<lambda>_. 0) 1000 ''cache'' ''CacheSize'' True = (SUCCEED, Some info)
    \<and> zbx_shmem_malloc info NULL 100 = Some (Inr (info', p)) \<and> zbx_shmem_free info' p = Some (Inr (info'', ()))
    \<and> free_size info'' = total_size info''"
proof -
  obtain info where i: "zbx_shmem_create_min 128 (Some 4096) (\<lambda>_. 0) 1000 ''cache'' ''CacheSize'' True = (SUCCEED, Some info)"
    "shm_ok info Map.empty [lo_bound info + 8 \<mapsto> unat (total_size info)]" "1000 \<le> unat (total_size info)" using example_segment by blast
  have "mem_proper_alloc_size 100 < 1000" using proper_alloc_size(4) [of 100] by simp
  with shmem_malloc_cases [OF i(2), of 100] i(3) obtain info' p s F' where
    m: "zbx_shmem_malloc info NULL 100 = Some (Inr (info', p))" "p \<noteq> NULL" "shm_ok info' [p \<mapsto> s] F'" by auto
  from shmem_free_cases [OF m(3), of p s] obtain info'' where f: "zbx_shmem_free info' p = Some (Inr (info'', ()))" by auto
  from shm_client.allocated [OF shm_client.created [OF i(2)] m(1,2)] have "shm_client info' [p \<mapsto> (100, \<lambda>i. mem info' (p + i))]" by simp
  from shm_client.freed [OF this _ f] have "shm_client info'' Map.empty" by simp
  from shmem_all_freed [OF this] i(1) m(1) f show ?thesis by blast
qed

text \<open>
  C35. A segment created for a minimum size has at least that much allocatable memory in one free chunk, and all of
  its chunks lie inside the memory that was reserved, behind the header.
\<close>

theorem shmem_create_min_fits:
  fixes I :: nat and descr param :: string
  assumes "8 dvd unat base" "0 < base" "unat base < 2 ^ 62" "24 \<le> unat sz" "unat sz + I + length descr + length param + 300 \<le> SHMEM_MAX_SIZE"
  shows "\<exists>info. zbx_shmem_create_min I (Some base) m sz descr param oom = (SUCCEED, Some info)
    \<and> shm_ok info Map.empty [lo_bound info + 8 \<mapsto> unat (total_size info)] \<and> sz \<le> total_size info \<and> unat (total_size info) < unat sz + 8 \<and> allow_oom info = oom
    \<and> unat base + I < lo_bound info \<and> hi_bound info \<le> unat base + unat (create_min_size I sz descr param)"
  using assms by (rule create_min_ok)

theorem shmem_create_min_fits_witness:
  "\<exists>info. zbx_shmem_create_min 128 (Some 4096) (\<lambda>_. 0) 1000 ''cache'' ''CacheSize'' False = (SUCCEED, Some info) \<and> 1000 \<le> total_size info"
  using shmem_create_min_fits [of 4096 1000 128 "''cache''" "''CacheSize''" "\<lambda>_. 0" False] by auto

text \<open>
  C36. The statistics are exact: the numbers of free and used chunks, the overhead of sixteen bytes for each chunk but the first, and
  the size of the largest free chunk; the 32-bit counters cannot overflow in a segment of the
  largest size.
\<close>

theorem shmem_stats_exact:
  assumes "shm_ok info U F" "unat (total_size info) \<le> SHMEM_MAX_SIZE"
  shows "\<exists>stats. zbx_shmem_get_stats info = Some (Inr stats) \<and> unat (st_free_chunks stats) = card (dom F) \<and> unat (st_used_chunks stats) = card (dom U)
    \<and> unat (st_overhead stats) = 16 * (card (dom U) + card (dom F) - 1)
    \<and> (\<forall>s \<in> ran F. unat (st_max_chunk_size stats) \<in> ran F \<and> s \<le> unat (st_max_chunk_size stats))"
  using assms by (rule stats_exact)

theorem shmem_stats_exact_witness:
  "\<exists>info stats. zbx_shmem_create_min 128 (Some 4096) (\<lambda>_. 0) 1000 ''cache'' ''CacheSize'' True = (SUCCEED, Some info)
    \<and> zbx_shmem_get_stats info = Some (Inr stats) \<and> unat (st_free_chunks stats) = 1 \<and> unat (st_used_chunks stats) = 0"
proof -
  obtain info where i: "zbx_shmem_create_min 128 (Some 4096) (\<lambda>_. 0) 1000 ''cache'' ''CacheSize'' True = (SUCCEED, Some info)"
    "shm_ok info Map.empty [lo_bound info + 8 \<mapsto> unat (total_size info)]" "unat (total_size info) < 1008" using example_segment by blast
  have "unat (total_size info) \<le> SHMEM_MAX_SIZE" using i(3) by simp
  from shmem_stats_exact [OF i(2) this] i(1) show ?thesis by auto
qed

text \<open>
  The bounds that creation checks admit sizes in which not even the header fits: the size that is left wraps
  around, the end of the memory lies before its start, and the one chunk of the segment claims almost the whole
  address space.
\<close>

lemma shmem_create_small_wraps:
  "hi_bound (the (snd (zbx_shmem_create 128 (Some 4096) (\<lambda>_. 0) 128 [] [] False))) < lo_bound (the (snd (zbx_shmem_create 128 (Some 4096) (\<lambda>_. 0) 128 [] [] False)))
   \<and> SHMEM_MAX_SIZE < unat (total_size (the (snd (zbx_shmem_create 128 (Some 4096) (\<lambda>_. 0) 128 [] [] False))))"
  by (simp add: zbx_shmem_create_def Let_def one_chunk_def ALIGN8_def)

end
