(* ===== verification/Param.thy ===== *)
theory Param
  imports Num_Parse
begin

text \<open>
  \<open>src/libs/zbxparam/param.c\<close>, \<open>src/libs/zbxexpr/expr.c\<close> and the quoting of
  \<open>src/libs/zbxsysinfo/sysinfo.c\<close>: the parameters of item keys, \<open>key[p1,"p2",[a,b]]\<close>.

  Four loops of the code scan the same syntax, each with its own copy of the automaton: one copies a
  parameter, one measures it, one counts the parameters and one finds the end of the key.  Each is a
  step on the character at the pointer and the characters after it, and a loop of such steps.  A C
  string is the list of its characters before the NUL, and a pointer into it is the list from there on.
\<close>

section \<open>Characters\<close>

abbreviation (input) QUOTE :: char where "QUOTE \<equiv> CHR 0x22"
abbreviation (input) BACKSLASH :: char where "BACKSLASH \<equiv> CHR 0x5C"
abbreviation (input) NUL :: char where "NUL \<equiv> CHR 0x00"

datatype param_state = INIT | QUOTED | UNQUOTED

datatype zbx_request_parameter_type_t =
    REQUEST_PARAMETER_TYPE_UNDEFINED | REQUEST_PARAMETER_TYPE_STRING | REQUEST_PARAMETER_TYPE_ARRAY

text \<open>\<open>c == *p\<close>: the pointer is at the character \<open>c\<close>, and not at the end.\<close>

definition at_char :: "char \<Rightarrow> string \<Rightarrow> bool" where
  "at_char c p \<longleftrightarrow> p \<noteq> [] \<and> hd p = c"

lemma at_char_simps [simp]:
  "\<not> at_char c []"
  "at_char c (d # p) \<longleftrightarrow> c = d"
  by (auto simp: at_char_def)

definition skip_spaces :: "string \<Rightarrow> string" where
  "skip_spaces p = dropWhile (\<lambda>c. c = CHR '' '') p"

text \<open>What must not follow the end of a quoted parameter or of an array.\<close>

definition bad_next :: "nat \<Rightarrow> string \<Rightarrow> bool" where
  "bad_next arr p \<longleftrightarrow> \<not> at_char CHR '','' p \<and> p \<noteq> [] \<and> (arr = 0 \<or> \<not> at_char CHR '']'' p)"

text \<open>The early returns of a step leave the loop; \<open>Inl\<close> is what they leave behind.\<close>

definition scan_bind :: "'e + 'a \<Rightarrow> ('a \<Rightarrow> 'e + 'b) \<Rightarrow> 'e + 'b" where
  "scan_bind r f = (case r of Inl e \<Rightarrow> Inl e | Inr x \<Rightarrow> f x)"

lemma scan_bind_simps [simp]:
  "scan_bind (Inl e) f = Inl e"
  "scan_bind (Inr x) f = f x"
  by (simp_all add: scan_bind_def)

section \<open>Reading a parameter\<close>

record get_scan =
  state :: param_state
  arr :: nat
  idx :: int
  buf :: string
  ptype :: zbx_request_parameter_type_t

text \<open>The macro \<open>ZBX_ASSIGN_PARAM\<close>, under the condition it stands under.\<close>

definition assign_param :: "nat \<Rightarrow> bool \<Rightarrow> char \<Rightarrow> get_scan \<Rightarrow> get_scan + get_scan" where
  "assign_param max_len b c s =
     (if \<not> b then Inr s
      else if length (buf s) = max_len then Inl s
      else Inr (s\<lparr>buf := buf s @ [c]\<rparr>))"

definition set_type :: "bool \<Rightarrow> zbx_request_parameter_type_t \<Rightarrow> get_scan \<Rightarrow> get_scan" where
  "set_type b t s = (if b \<and> ptype s = REQUEST_PARAMETER_TYPE_UNDEFINED then s\<lparr>ptype := t\<rparr> else s)"

definition get_param_step :: "int \<Rightarrow> nat \<Rightarrow> get_scan \<Rightarrow> char \<Rightarrow> string \<Rightarrow> get_scan + get_scan \<times> string" where
  "get_param_step num max_len s c p =
     (let here = (idx s = num); nested = (arr s \<noteq> 0) in
      case state s of
        INIT \<Rightarrow>
          if c = CHR '','' then
            (if \<not> nested then Inr (s\<lparr>idx := idx s + 1\<rparr>, p)
             else scan_bind (assign_param max_len here c s) (\<lambda>s. Inr (s, p)))
          else if c = QUOTE then
            scan_bind (assign_param max_len (here \<and> nested) c
                         (set_type here REQUEST_PARAMETER_TYPE_STRING (s\<lparr>state := QUOTED\<rparr>)))
              (\<lambda>s. Inr (s, p))
          else if c = CHR ''['' then
            scan_bind (assign_param max_len (here \<and> nested) c (set_type here REQUEST_PARAMETER_TYPE_ARRAY s))
              (\<lambda>s. Inr (s\<lparr>arr := arr s + 1\<rparr>, p))
          else if c = CHR '']'' \<and> nested then
            (let s = s\<lparr>arr := arr s - 1\<rparr> in
             scan_bind (assign_param max_len (arr s \<noteq> 0 \<and> here) c s)
               (\<lambda>s. let p = skip_spaces p in if bad_next (arr s) p then Inl s else Inr (s, p)))
          else if c \<noteq> CHR '' '' then
            scan_bind (assign_param max_len here c (set_type here REQUEST_PARAMETER_TYPE_STRING s))
              (\<lambda>s. Inr (s\<lparr>state := UNQUOTED\<rparr>, p))
          else Inr (s, p)
      | QUOTED \<Rightarrow>
          if c = QUOTE then
            scan_bind (assign_param max_len (nested \<and> here) c s)
              (\<lambda>s. let p = skip_spaces p in
                   if bad_next (arr s) p then Inl s else Inr (s\<lparr>state := INIT\<rparr>, p))
          else if c = BACKSLASH \<and> at_char QUOTE p then
            scan_bind (assign_param max_len (here \<and> nested) c s)
              (\<lambda>s. scan_bind (assign_param max_len here (hd p) s) (\<lambda>s. Inr (s, tl p)))
          else scan_bind (assign_param max_len here c s) (\<lambda>s. Inr (s, p))
      | UNQUOTED \<Rightarrow>
          if c = CHR '','' \<or> c = CHR '']'' \<and> nested then Inr (s\<lparr>state := INIT\<rparr>, c # p)
          else scan_bind (assign_param max_len here c s) (\<lambda>s. Inr (s, p)))"

text \<open>The end of an unquoted parameter is looked at a second time, in the initial state.\<close>

definition scan_left :: "param_state \<Rightarrow> string \<Rightarrow> nat" where
  "scan_left st p = 2 * length p + (if st = UNQUOTED then 1 else 0)"

lemma length_skip_spaces: "length (skip_spaces p) \<le> length p"
  by (simp add: skip_spaces_def length_dropWhile_le)

lemma scan_left_skip: "scan_left INIT (skip_spaces p) < scan_left st (c # p)"
  using length_skip_spaces [of p] by (simp add: scan_left_def)

lemma assign_param_Inr:
  "assign_param max_len b c s = Inr s' \<Longrightarrow>
     state s' = state s \<and> arr s' = arr s \<and> idx s' = idx s"
  by (auto simp: assign_param_def split: if_splits)

lemma set_type_select [simp]:
  "state (set_type b t s) = state s" "arr (set_type b t s) = arr s"
  "idx (set_type b t s) = idx s" "buf (set_type b t s) = buf s"
  by (simp_all add: set_type_def)

lemma get_param_step_less:
  assumes "get_param_step num max_len s c p = Inr (s', p')"
  shows "scan_left (state s') p' < scan_left (state s) (c # p)"
  using assms length_skip_spaces [of p]
  by (cases "state s")
    (auto simp: get_param_step_def Let_def scan_left_def scan_bind_def assign_param_def at_char_def
          split: if_splits sum.splits)

function get_param_loop :: "int \<Rightarrow> nat \<Rightarrow> get_scan \<Rightarrow> string \<Rightarrow> get_scan + get_scan" where
  "get_param_loop num max_len s [] = Inr s"
| "get_param_loop num max_len s (c # p) =
     (if num < idx s then Inr s
      else (case get_param_step num max_len s c p of
              Inl s' \<Rightarrow> Inl s'
            | Inr (s', p') \<Rightarrow> get_param_loop num max_len s' p'))"
  by pat_completeness auto
termination
  by (relation "measure (\<lambda>(num, max_len, s, p). scan_left (state s) p)")
    (auto dest: get_param_step_less)

definition get_scan_init :: get_scan where
  "get_scan_init = \<lparr>state = INIT, arr = 0, idx = 1, buf = [], ptype = REQUEST_PARAMETER_TYPE_UNDEFINED\<rparr>"

text \<open>The return code, what was written to the buffer, and the type of the parameter.\<close>

definition zbx_get_param :: "string \<Rightarrow> int \<Rightarrow> nat \<Rightarrow> int \<times> string \<times> zbx_request_parameter_type_t" where
  "zbx_get_param p num max_len =
     (if max_len = 0 then (1, [], REQUEST_PARAMETER_TYPE_UNDEFINED)
      else (case get_param_loop num (max_len - 1) get_scan_init p of
              Inl s \<Rightarrow> (1, buf s, ptype s)
            | Inr s \<Rightarrow>
                ((if state s = QUOTED \<or> arr s \<noteq> 0 \<or> idx s < num then 1 else 0), buf s, ptype s)))"

section \<open>Counting the parameters\<close>

record num_scan =
  nstate :: param_state
  narr :: nat
  nret :: int

definition num_param_step :: "num_scan \<Rightarrow> char \<Rightarrow> string \<Rightarrow> (num_scan \<times> string) option" where
  "num_param_step s c p =
     (case nstate s of
        INIT \<Rightarrow>
          if c = CHR '','' then Some (if narr s = 0 then s\<lparr>nret := nret s + 1\<rparr> else s, p)
          else if c = QUOTE then Some (s\<lparr>nstate := QUOTED\<rparr>, p)
          else if c = CHR ''['' then (if narr s = 0 then Some (s\<lparr>narr := 1\<rparr>, p) else None)
          else if c = CHR '']'' \<and> narr s \<noteq> 0 then
            (let p = skip_spaces p in if bad_next 0 p then None else Some (s\<lparr>narr := 0\<rparr>, p))
          else if c = CHR '']'' \<and> narr s = 0 then None
          else if c \<noteq> CHR '' '' then Some (s\<lparr>nstate := UNQUOTED\<rparr>, p)
          else Some (s, p)
      | QUOTED \<Rightarrow>
          if c = QUOTE then
            (let p = skip_spaces p in if bad_next (narr s) p then None else Some (s\<lparr>nstate := INIT\<rparr>, p))
          else if c = BACKSLASH \<and> at_char QUOTE p then Some (s, tl p)
          else Some (s, p)
      | UNQUOTED \<Rightarrow>
          if c = CHR '','' \<or> c = CHR '']'' \<and> narr s \<noteq> 0 then Some (s\<lparr>nstate := INIT\<rparr>, c # p)
          else if c = CHR '']'' \<and> narr s = 0 then None
          else Some (s, p))"

lemma num_param_step_less:
  assumes "num_param_step s c p = Some (s', p')"
  shows "scan_left (nstate s') p' < scan_left (nstate s) (c # p)"
  using assms length_skip_spaces [of p]
  by (cases "nstate s")
    (auto simp: num_param_step_def Let_def scan_left_def at_char_def split: if_splits)

function num_param_loop :: "num_scan \<Rightarrow> string \<Rightarrow> num_scan option" where
  "num_param_loop s [] = Some s"
| "num_param_loop s (c # p) =
     (case num_param_step s c p of None \<Rightarrow> None | Some (s', p') \<Rightarrow> num_param_loop s' p')"
  by pat_completeness auto
termination
  by (relation "measure (\<lambda>(s, p). scan_left (nstate s) p)") (auto dest: num_param_step_less)

text \<open>\<open>None\<close> is the NULL pointer.\<close>

definition zbx_num_param :: "string option \<Rightarrow> int" where
  "zbx_num_param p =
     (case p of
        None \<Rightarrow> 0
      | Some p \<Rightarrow>
          (case num_param_loop \<lparr>nstate = INIT, narr = 0, nret = 1\<rparr> p of
             None \<Rightarrow> 0
           | Some s \<Rightarrow> if nstate s = QUOTED \<or> narr s \<noteq> 0 then 0 else nret s))"

section \<open>Measuring a parameter\<close>

record len_scan =
  lstate :: param_state
  larr :: nat
  lidx :: int
  sz :: nat

definition count_char :: "bool \<Rightarrow> len_scan \<Rightarrow> len_scan" where
  "count_char b s = (if b then s\<lparr>sz := sz s + 1\<rparr> else s)"

definition param_len_step :: "int \<Rightarrow> len_scan \<Rightarrow> char \<Rightarrow> string \<Rightarrow> (len_scan \<times> string) option" where
  "param_len_step num s c p =
     (let here = (lidx s = num); nested = (larr s \<noteq> 0) in
      case lstate s of
        INIT \<Rightarrow>
          if c = CHR '','' then
            Some (if \<not> nested then s\<lparr>lidx := lidx s + 1\<rparr> else count_char here s, p)
          else if c = QUOTE then Some (count_char (nested \<and> here) (s\<lparr>lstate := QUOTED\<rparr>), p)
          else if c = CHR ''['' then
            (let s = count_char (nested \<and> here) s in Some (s\<lparr>larr := larr s + 1\<rparr>, p))
          else if c = CHR '']'' \<and> nested then
            (let s = s\<lparr>larr := larr s - 1\<rparr>; s = count_char (larr s \<noteq> 0 \<and> here) s; p = skip_spaces p
             in if bad_next (larr s) p then None else Some (s, p))
          else if c \<noteq> CHR '' '' then Some ((count_char here s)\<lparr>lstate := UNQUOTED\<rparr>, p)
          else Some (s, p)
      | QUOTED \<Rightarrow>
          if c = QUOTE then
            (let s = count_char (nested \<and> here) s; p = skip_spaces p
             in if bad_next (larr s) p then None else Some (s\<lparr>lstate := INIT\<rparr>, p))
          else if c = BACKSLASH \<and> at_char QUOTE p then
            Some (count_char here (count_char (here \<and> nested) s), tl p)
          else Some (count_char here s, p)
      | UNQUOTED \<Rightarrow>
          if c = CHR '','' \<or> c = CHR '']'' \<and> nested then Some (s\<lparr>lstate := INIT\<rparr>, c # p)
          else Some (count_char here s, p))"

lemma count_char_select [simp]:
  "lstate (count_char b s) = lstate s" "larr (count_char b s) = larr s" "lidx (count_char b s) = lidx s"
  "sz (count_char b s) = sz s + (if b then 1 else 0)"
  by (simp_all add: count_char_def)

lemma param_len_step_less:
  assumes "param_len_step num s c p = Some (s', p')"
  shows "scan_left (lstate s') p' < scan_left (lstate s) (c # p)"
  using assms length_skip_spaces [of p]
  by (cases "lstate s")
    (auto simp: param_len_step_def Let_def scan_left_def at_char_def split: if_splits)

function param_len_loop :: "int \<Rightarrow> len_scan \<Rightarrow> string \<Rightarrow> len_scan option" where
  "param_len_loop num s [] = Some s"
| "param_len_loop num s (c # p) =
     (if num < lidx s then Some s
      else (case param_len_step num s c p of
              None \<Rightarrow> None
            | Some (s', p') \<Rightarrow> param_len_loop num s' p'))"
  by pat_completeness auto
termination
  by (relation "measure (\<lambda>(num, s, p). scan_left (lstate s) p)") (auto dest: param_len_step_less)

text \<open>\<open>None\<close> is the return value 1, \<open>Some\<close> the size that is stored when it returns 0.\<close>

definition get_param_len :: "string \<Rightarrow> int \<Rightarrow> nat option" where
  "get_param_len p num =
     (case param_len_loop num \<lparr>lstate = INIT, larr = 0, lidx = 1, sz = 0\<rparr> p of
        None \<Rightarrow> None
      | Some s \<Rightarrow> if lstate s = QUOTED \<or> larr s \<noteq> 0 \<or> lidx s < num then None else Some (sz s))"

text \<open>The string, \<open>None\<close> for NULL, and the type, \<open>None\<close> where it is not assigned.\<close>

definition zbx_get_param_dyn :: "string \<Rightarrow> int \<Rightarrow> string option \<times> zbx_request_parameter_type_t option" where
  "zbx_get_param_dyn p num =
     (case get_param_len p num of
        None \<Rightarrow> (None, None)
      | Some n \<Rightarrow>
          (case zbx_get_param p num (n + 1) of
             (ret, b, t) \<Rightarrow> (if ret \<noteq> 0 then None else Some b, Some t)))"

section \<open>Keys\<close>

definition strchr :: "char \<Rightarrow> string \<Rightarrow> nat option" where
  "strchr c s = (if c \<in> set s then Some (length (takeWhile (\<lambda>d. d \<noteq> c) s)) else None)"

definition strrchr :: "char \<Rightarrow> string \<Rightarrow> nat option" where
  "strrchr c s =
     (if c \<in> set s then Some (length s - 1 - length (takeWhile (\<lambda>d. d \<noteq> c) (rev s))) else None)"

text \<open>The text between the first \<open>[\<close> and the last \<open>]\<close>: the code ends the string there for the call.\<close>

definition key_params :: "string \<Rightarrow> string option" where
  "key_params param =
     (case (strchr CHR ''['' param, strrchr CHR '']'' param) of
        (Some pl, Some pr) \<Rightarrow> if pr < pl then None else Some (drop (pl + 1) (take pr param))
      | _ \<Rightarrow> None)"

definition zbx_get_key_param :: "string \<Rightarrow> int \<Rightarrow> nat \<Rightarrow> int \<times> string" where
  "zbx_get_key_param param num max_len =
     (case key_params param of
        None \<Rightarrow> (1, [])
      | Some p \<Rightarrow> (case zbx_get_param p num max_len of (ret, b, _) \<Rightarrow> (ret, b)))"

definition zbx_num_key_param :: "string option \<Rightarrow> int" where
  "zbx_num_key_param param =
     (case param of
        None \<Rightarrow> 0
      | Some s \<Rightarrow> (case key_params s of None \<Rightarrow> 0 | Some p \<Rightarrow> zbx_num_param (Some p)))"

definition isalnum :: "char \<Rightarrow> bool" where
  "isalnum c \<longleftrightarrow> isdigit c \<or> 97 \<le> ord c \<and> ord c \<le> 122 \<or> 65 \<le> ord c \<and> ord c \<le> 90"

definition zbx_is_key_char :: "char \<Rightarrow> bool" where
  "zbx_is_key_char c \<longleftrightarrow> isalnum c \<or> c = CHR ''.'' \<or> c = CHR ''_'' \<or> c = CHR ''-''"

text \<open>
  One step of the loop over the parameters: the end of it, with the return code and the pointer, or the
  state, the nesting and the position of the next step.
\<close>

definition parse_key_step ::
  "param_state \<Rightarrow> nat \<Rightarrow> char \<Rightarrow> string \<Rightarrow> int \<times> string + param_state \<times> nat \<times> string" where
  "parse_key_step st a c s =
     (case st of
        INIT \<Rightarrow>
          if c = CHR '','' then Inr (INIT, a, s)
          else if c = QUOTE then Inr (QUOTED, a, s)
          else if c = CHR ''['' then (if a = 0 then Inr (INIT, 1, s) else Inl (FAIL, c # s))
          else if c = CHR '']'' \<and> a \<noteq> 0 then
            (let s = skip_spaces s in
             if at_char CHR '']'' s then Inl (SUCCEED, tl s)
             else if \<not> at_char CHR '','' s then Inl (FAIL, s)
             else Inr (INIT, 0, tl s))
          else if c = CHR '']'' then Inl (SUCCEED, s)
          else if c \<noteq> CHR '' '' then Inr (UNQUOTED, a, s)
          else Inr (INIT, a, s)
      | QUOTED \<Rightarrow>
          if c = QUOTE then
            (let s = skip_spaces s in
             if a = 0 \<and> at_char CHR '']'' s then Inl (SUCCEED, tl s)
             else if \<not> at_char CHR '','' s \<and> \<not> (a \<noteq> 0 \<and> at_char CHR '']'' s) then Inl (FAIL, s)
             else Inr (INIT, a, s))
          else if c = BACKSLASH \<and> at_char QUOTE s then Inr (QUOTED, a, tl s)
          else Inr (QUOTED, a, s)
      | UNQUOTED \<Rightarrow>
          if c = CHR '','' \<or> c = CHR '']'' \<and> a \<noteq> 0 then Inr (INIT, a, c # s)
          else if c = CHR '']'' \<and> a = 0 then Inl (SUCCEED, s)
          else Inr (UNQUOTED, a, s))"

lemma parse_key_step_less:
  assumes "parse_key_step st a c s = Inr (st', a', s')"
  shows "scan_left st' s' < scan_left st (c # s)"
  using assms length_skip_spaces [of s]
  by (cases st) (auto simp: parse_key_step_def Let_def scan_left_def at_char_def split: if_splits)

function parse_key_loop :: "param_state \<Rightarrow> nat \<Rightarrow> string \<Rightarrow> int \<times> string" where
  "parse_key_loop st a [] = (FAIL, [])"
| "parse_key_loop st a (c # s) =
     (case parse_key_step st a c s of
        Inl r \<Rightarrow> r
      | Inr (st', a', s') \<Rightarrow> parse_key_loop st' a' s')"
  by pat_completeness auto
termination
  by (relation "measure (\<lambda>(st, a, s). scan_left st s)") (auto dest: parse_key_step_less)

definition zbx_parse_key :: "string \<Rightarrow> int \<times> string" where
  "zbx_parse_key exp =
     (let s = dropWhile zbx_is_key_char exp in
      if s = exp then (FAIL, exp)
      else if at_char CHR ''['' s then parse_key_loop INIT 0 (tl s)
      else (SUCCEED, s))"

section \<open>Quoting\<close>

definition zbx_get_escape_string_len :: "string \<Rightarrow> string \<Rightarrow> nat" where
  "zbx_get_escape_string_len src charlist = sum_list (map (\<lambda>c. if c \<in> set charlist then 2 else 1) src)"

text \<open>
  The copy of the parameter to the end of its own, enlarged, array: from the last character to the first,
  with \<open>d\<close> and the argument in recursion the two indices before their decrement.
\<close>

fun quote_loop :: "string \<Rightarrow> nat \<Rightarrow> nat \<Rightarrow> string \<times> nat" where
  "quote_loop a d 0 = (a, d)"
| "quote_loop a d (Suc s) =
     (let a = a[d - 1 := a ! s] in
      if a ! s = QUOTE then quote_loop (a[d - 2 := BACKSLASH]) (d - 2) s
      else quote_loop a (d - 1) s)"

definition c_string :: "string \<Rightarrow> string" where
  "c_string a = takeWhile (\<lambda>c. c \<noteq> NUL) a"

text \<open>\<open>fresh\<close> is what the reallocation leaves in the bytes after the old string.\<close>

definition zbx_quote_key_param :: "(nat \<Rightarrow> char) \<Rightarrow> string \<Rightarrow> bool \<Rightarrow> int \<times> string" where
  "zbx_quote_key_param fresh param forced =
     (if \<not> forced \<and> \<not> at_char QUOTE param \<and> \<not> at_char CHR '' '' param \<and> \<not> at_char CHR ''['' param \<and>
         strchr CHR '','' param = None \<and> strchr CHR '']'' param = None
      then (SUCCEED, param)
      else if length param \<noteq> 0 \<and> param ! (length param - 1) = BACKSLASH then (FAIL, param)
      else
        (let sz_src = length param;
             sz_dst = zbx_get_escape_string_len param [QUOTE] + 3;
             a = param @ map fresh [sz_src..<sz_dst];
             a = a[sz_dst - 1 := NUL, sz_dst - 2 := QUOTE];
             (a, d) = quote_loop a (sz_dst - 2) sz_src
         in (SUCCEED, c_string (a[d - 1 := QUOTE]))))"

fun unquote_copy :: "string \<Rightarrow> string" where
  "unquote_copy [] = []"
| "unquote_copy (c # p) = (if c = BACKSLASH \<and> at_char QUOTE p then unquote_copy p else c # unquote_copy p)"

text \<open>The NUL goes over the last character that was copied: before the array, if there was none.\<close>

definition zbx_unquote_key_param :: "string \<Rightarrow> string result" where
  "zbx_unquote_key_param param =
     (if \<not> at_char QUOTE param then Inr param
      else
        (let dst = unquote_copy (tl param)
         in if dst = [] then Inl BadIndex else Inr (butlast dst)))"

end
