(* ===== verification/Param_Props.thy ===== *)
theory Param_Props
  imports Param
begin

text \<open>
  What the four scanners of \<open>Param\<close> have to do with each other.  The loop that measures a parameter and
  the one that copies it walk in step, so a buffer of the measured size is never too small; the loop that
  counts and the one that parses a key accept the same lists; and a parameter that was quoted, put into a
  list with others and into a key, is read back as it was.
\<close>

section \<open>The measured size is the size that is written\<close>

definition same_scan :: "get_scan \<Rightarrow> len_scan \<Rightarrow> bool" where
  "same_scan s l \<longleftrightarrow> state s = lstate l \<and> arr s = larr l \<and> idx s = lidx l \<and> length (buf s) = sz l"

lemma param_len_step_sim:
  assumes "same_scan s l" "sz l \<le> m"
  shows "case param_len_step num l c p of
           None \<Rightarrow> \<exists>s'. get_param_step num m s c p = Inl s'
         | Some (l', p') \<Rightarrow>
             sz l \<le> sz l' \<and>
             (if sz l' \<le> m then \<exists>s'. get_param_step num m s c p = Inr (s', p') \<and> same_scan s' l'
              else \<exists>s'. get_param_step num m s c p = Inl s')"
  using assms unfolding same_scan_def
  by (cases "state s")
    (auto simp: param_len_step_def get_param_step_def assign_param_def Let_def)

lemma param_len_step_mono:
  "param_len_step num l c p = Some (l', p') \<Longrightarrow> sz l \<le> sz l'"
  by (cases "lstate l") (auto simp: param_len_step_def Let_def split: if_splits)

lemma param_len_loop_mono:
  "param_len_loop num l p = Some l' \<Longrightarrow> sz l \<le> sz l'"
proof (induction num l p rule: param_len_loop.induct)
  case (2 num l c p)
  then show ?case
    by (auto split: if_splits option.splits dest: param_len_step_mono) (meson order_trans param_len_step_mono)
qed simp

lemma param_len_loop_sim:
  assumes "same_scan s l" "sz l \<le> m"
  shows "case param_len_loop num l p of
           None \<Rightarrow> \<exists>s'. get_param_loop num m s p = Inl s'
         | Some l' \<Rightarrow>
             (if sz l' \<le> m then \<exists>s'. get_param_loop num m s p = Inr s' \<and> same_scan s' l'
              else \<exists>s'. get_param_loop num m s p = Inl s')"
  using assms
proof (induction num l p arbitrary: s rule: param_len_loop.induct)
  case (1 num l)
  then show ?case by auto
next
  case (2 num l c p)
  have idx: "num < idx s \<longleftrightarrow> num < lidx l" using 2 by (simp add: same_scan_def)
  note step = param_len_step_sim [OF 2(2,3), of num c p]
  consider (stop) "num < lidx l" | (wrong) "\<not> num < lidx l" "param_len_step num l c p = None"
    | (go) l' p' where "\<not> num < lidx l" "param_len_step num l c p = Some (l', p')"
    by (cases "param_len_step num l c p") auto
  then show ?case
  proof cases
    case stop
    with 2 idx show ?thesis by auto
  next
    case wrong
    with step idx show ?thesis by auto
  next
    case (go l' p')
    show ?thesis
    proof (cases "sz l' \<le> m")
      case True
      with step go obtain s' where s': "get_param_step num m s c p = Inr (s', p')" "same_scan s' l'" by auto
      from s' go idx have "get_param_loop num m s (c # p) = get_param_loop num m s' p'"
        "param_len_loop num l (c # p) = param_len_loop num l' p'" by simp_all
      then show ?thesis using 2(1) [OF go refl s'(2) True] by (simp only:)
    next
      case False
      with step go obtain s' where s': "get_param_step num m s c p = Inl s'" by auto
      with False go idx param_len_loop_mono [of num l' p'] show ?thesis
        by (fastforce split: option.splits)
    qed
  qed
qed

lemma zbx_get_param_exact:
  "zbx_get_param p num m = (0, b, t) \<Longrightarrow> get_param_len p num = Some (length b) \<and> length b < m"
  "get_param_len p num = Some n \<Longrightarrow> n < m \<Longrightarrow> \<exists>b t. zbx_get_param p num m = (0, b, t) \<and> length b = n"
proof -
  let ?l = "\<lparr>lstate = INIT, larr = 0, lidx = 1, sz = 0\<rparr>"
  have "same_scan get_scan_init ?l" by (simp add: same_scan_def get_scan_init_def)
  note sim = param_len_loop_sim [OF this, of "m - 1" num p, simplified]
  show "get_param_len p num = Some (length b) \<and> length b < m" if "zbx_get_param p num m = (0, b, t)"
    using that sim
    by (cases "m = 0")
      (fastforce simp: zbx_get_param_def get_param_len_def same_scan_def split: sum.splits if_splits option.splits)+
  show "\<exists>b t. zbx_get_param p num m = (0, b, t) \<and> length b = n" if "get_param_len p num = Some n" "n < m"
    using that sim
    by (auto simp: zbx_get_param_def get_param_len_def same_scan_def split: sum.splits if_splits option.splits)
qed

lemma zbx_get_param_dyn_iff:
  "fst (zbx_get_param_dyn p num) = Some b \<longleftrightarrow> get_param_len p num = Some (length b) \<and> fst (zbx_get_param p num (length b + 1)) = 0 \<and> fst (snd (zbx_get_param p num (length b + 1))) = b"
  using zbx_get_param_exact(2) [of p num]
  by (fastforce simp: zbx_get_param_dyn_def split: option.splits prod.splits if_splits)

section \<open>The parameters that are counted are those that can be read\<close>

definition same_count :: "num_scan \<Rightarrow> len_scan \<Rightarrow> bool" where
  "same_count s l \<longleftrightarrow> nstate s = lstate l \<and> narr s = larr l \<and> nret s = lidx l \<and> narr s \<le> 1"

lemma num_param_step_sim:
  assumes "num_param_step s c p = Some (s', p')" "same_count s l"
  shows "\<exists>l'. param_len_step num l c p = Some (l', p') \<and> same_count s' l'"
  using assms unfolding same_count_def
  by (cases "nstate s")
    (auto simp: num_param_step_def param_len_step_def Let_def split: if_splits)

lemma num_param_step_ret:
  assumes "num_param_step s c p = Some (s', p')"
  shows "nret s' = nret s \<or> nret s' = nret s + 1 \<and> nstate s' = INIT \<and> narr s' = 0"
  using assms
  by (cases "nstate s") (auto simp: num_param_step_def Let_def split: if_splits)

lemma num_param_loop_mono: "num_param_loop s p = Some s' \<Longrightarrow> nret s \<le> nret s'"
proof (induction s p rule: num_param_loop.induct)
  case (2 s c p)
  then show ?case by (fastforce split: option.splits dest: num_param_step_ret)
qed simp

lemma num_param_loop_sim:
  assumes "num_param_loop s p = Some s'" "same_count s l" "nret s \<le> num"
  shows "\<exists>l'. param_len_loop num l p = Some l' \<and>
           (if nret s' \<le> num then same_count s' l' else num < lidx l' \<and> lstate l' = INIT \<and> larr l' = 0)"
  using assms
proof (induction s p arbitrary: l rule: num_param_loop.induct)
  case (2 s c p)
  then obtain s1 p1 where s1: "num_param_step s c p = Some (s1, p1)" "num_param_loop s1 p1 = Some s'"
    by (auto split: option.splits)
  obtain l1 where l1: "param_len_step num l c p = Some (l1, p1)" "same_count s1 l1"
    using num_param_step_sim [OF s1(1) 2(3)] by blast
  have idx: "\<not> num < lidx l" using 2 by (simp add: same_count_def)
  show ?case
  proof (cases "nret s1 \<le> num")
    case True
    with 2(1) [OF s1(1) refl s1(2) l1(2)] l1 idx show ?thesis by simp
  next
    case False
    then have "nstate s1 = INIT" "narr s1 = 0" using num_param_step_ret [OF s1(1)] 2(4) by auto
    moreover have "param_len_loop num l1 p1 = Some l1"
      using False l1(2) by (cases p1) (auto simp: same_count_def)
    ultimately show ?thesis
      using False l1 idx num_param_loop_mono [OF s1(2)] by (auto simp: same_count_def)
  qed
qed auto

lemma zbx_num_param_counts:
  assumes "zbx_num_param (Some p) = n" "n \<noteq> 0"
  shows "get_param_len p num \<noteq> None \<longleftrightarrow> num \<le> n"
proof -
  let ?s = "\<lparr>nstate = INIT, narr = 0, nret = 1\<rparr>" and ?l = "\<lparr>lstate = INIT, larr = 0, lidx = 1, sz = 0\<rparr>"
  obtain s where s: "num_param_loop ?s p = Some s" "nstate s \<noteq> QUOTED" "narr s = 0" "nret s = n"
    using assms by (auto simp: zbx_num_param_def split: option.splits if_splits)
  show ?thesis
  proof (cases "1 \<le> num")
    case True
    then show ?thesis
      using num_param_loop_sim [OF s(1), of ?l num] s
      by (auto simp: get_param_len_def same_count_def split: if_splits)
  next
    case False
    then have "param_len_loop num ?l p = Some ?l" by (cases p) auto
    then show ?thesis using False num_param_loop_mono [OF s(1)] s(4) by (auto simp: get_param_len_def)
  qed
qed

section \<open>The parser of keys accepts what the counter accepts\<close>

lemma skip_spaces_append:
  "d \<noteq> CHR '' '' \<Longrightarrow> skip_spaces (p @ d # q) = skip_spaces p @ d # q"
  by (induction p) (auto simp: skip_spaces_def)

lemma at_char_append: "at_char c (p @ q) \<longleftrightarrow> (if p = [] then at_char c q else at_char c p)"
  by (cases p) auto

definition accepts_count :: "num_scan \<Rightarrow> string \<Rightarrow> bool" where
  "accepts_count s p \<longleftrightarrow> (case num_param_loop s p of None \<Rightarrow> False | Some s' \<Rightarrow> nstate s' \<noteq> QUOTED \<and> narr s' = 0)"

lemma accepts_count_simps:
  "accepts_count s [] \<longleftrightarrow> nstate s \<noteq> QUOTED \<and> narr s = 0"
  "accepts_count s (c # p) \<longleftrightarrow> (case num_param_step s c p of None \<Rightarrow> False | Some (s', p') \<Rightarrow> accepts_count s' p')"
  by (auto simp: accepts_count_def split: option.splits)

lemma zbx_num_param_accepts: "zbx_num_param (Some p) \<noteq> 0 \<longleftrightarrow> accepts_count \<lparr>nstate = INIT, narr = 0, nret = 1\<rparr> p"
  by (auto simp: accepts_count_def zbx_num_param_def split: option.splits dest: num_param_loop_mono)

lemma parse_key_loop_once:
  "parse_key_loop st a (c # s) =
     (case parse_key_step st a c s of Inl r \<Rightarrow> r | Inr (st', a', s') \<Rightarrow> parse_key_loop st' a' s')"
  by simp

lemma parse_key_loop_comma: "parse_key_loop INIT a (CHR '','' # s) = parse_key_loop INIT a s"
  by (simp add: parse_key_step_def)

lemma parse_key_loop_close: "parse_key_loop INIT 0 '']'' = (SUCCEED, [])"
  by (simp add: parse_key_step_def)

lemma parse_key_step_sim:
  assumes "narr s \<le> 1"
  shows "case num_param_step s c p of
           None \<Rightarrow> parse_key_loop (nstate s) (narr s) (c # p @ '']'') \<noteq> (SUCCEED, [])
         | Some (s', p') \<Rightarrow>
             narr s' \<le> 1 \<and>
             (parse_key_loop (nstate s) (narr s) (c # p @ '']'') = (SUCCEED, []) \<longleftrightarrow>
              parse_key_loop (nstate s') (narr s') (p' @ '']'') = (SUCCEED, []))"
proof (cases "nstate s")
  case UNQUOTED
  then show ?thesis using assms unfolding parse_key_loop_once
    by (simp add: num_param_step_def parse_key_step_def del: parse_key_loop.simps)
next
  case INIT
  then show ?thesis using assms
    unfolding parse_key_loop_once
    by (cases "skip_spaces p")
      (auto simp: num_param_step_def parse_key_step_def Let_def skip_spaces_append bad_next_def parse_key_loop_comma
           parse_key_loop_close
         simp del: parse_key_loop.simps)
next
  case QUOTED
  show ?thesis
  proof (cases "c = QUOTE")
    case True
    then show ?thesis using assms QUOTED unfolding parse_key_loop_once
      by (cases "skip_spaces p")
        (auto simp: num_param_step_def parse_key_step_def Let_def skip_spaces_append bad_next_def
              parse_key_loop_close simp del: parse_key_loop.simps)
  next
    case False
    then show ?thesis using assms QUOTED unfolding parse_key_loop_once
      by (cases p) (auto simp: num_param_step_def parse_key_step_def simp del: parse_key_loop.simps)
  qed
qed

lemma parse_key_loop_accepts:
  assumes "narr s \<le> 1"
  shows "parse_key_loop (nstate s) (narr s) (p @ '']'') = (SUCCEED, []) \<longleftrightarrow> accepts_count s p"
  using assms
proof (induction s p rule: num_param_loop.induct)
  case (1 s)
  then show ?case
    by (cases "nstate s") (auto simp: accepts_count_simps parse_key_step_def skip_spaces_def)
next
  case (2 s c p)
  then show ?case using parse_key_step_sim [OF 2(2), of c p]
    by (auto simp: accepts_count_simps(2) simp del: parse_key_loop.simps split: option.splits)
qed

lemma zbx_is_key_char_not: "\<not> zbx_is_key_char CHR ''[''" "\<not> zbx_is_key_char CHR '']''"
  by (simp_all add: zbx_is_key_char_def isalnum_def isdigit_def)

lemma zbx_parse_key_accepts:
  assumes "k \<noteq> []" "list_all zbx_is_key_char k"
  shows "zbx_parse_key (k @ CHR ''['' # p @ '']'') = (SUCCEED, []) \<longleftrightarrow> zbx_num_param (Some p) \<noteq> 0"
proof -
  have "dropWhile zbx_is_key_char (k @ CHR ''['' # p @ '']'') = CHR ''['' # p @ '']''"
    using assms by (auto simp: dropWhile_append2 list_all_iff zbx_is_key_char_not)
  then show ?thesis using assms(1)
      parse_key_loop_accepts [of "\<lparr>nstate = INIT, narr = 0, nret = 1\<rparr>" p]
    by (simp add: zbx_parse_key_def zbx_num_param_accepts)
qed

section \<open>Quoting\<close>

definition quote_char :: "char \<Rightarrow> string" where
  "quote_char c = (if c = QUOTE then [BACKSLASH, QUOTE] else [c])"

definition quoted :: "string \<Rightarrow> string" where
  "quoted p = QUOTE # concat (map quote_char p) @ [QUOTE]"

definition plain :: "string \<Rightarrow> bool" where
  "plain p \<longleftrightarrow> \<not> at_char QUOTE p \<and> \<not> at_char CHR '' '' p \<and> \<not> at_char CHR ''['' p \<and>
     CHR '','' \<notin> set p \<and> CHR '']'' \<notin> set p"

lemma quote_char_simps [simp]:
  "quote_char QUOTE = [BACKSLASH, QUOTE]"
  "c \<noteq> QUOTE \<Longrightarrow> quote_char c = [c]"
  by (simp_all add: quote_char_def)

lemma zbx_get_escape_string_len_quote:
  "zbx_get_escape_string_len p [QUOTE] = length (concat (map quote_char p))"
  by (induction p) (auto simp: zbx_get_escape_string_len_def quote_char_def)

lemma length_quoted_ge: "length p \<le> length (concat (map quote_char p))"
  by (induction p) (auto simp: quote_char_def)

lemma drop_list_update_hd: "i < length a \<Longrightarrow> drop i (a[i := x]) = x # drop (Suc i) a"
  by (metis Cons_nth_drop_Suc drop_update_cancel length_list_update lessI nth_list_update_eq)

lemma drop_last_two: "length a = m + 3 \<Longrightarrow> drop (m + 1) (a[m + 2 := x, m + 1 := y]) = [y, x]"
  by (rule nth_equalityI) (auto simp: nth_list_update less_Suc_eq)

lemma quote_loop_spec:
  assumes "s \<le> length p" "take s a = take s p" "d = length (concat (map quote_char (take s p))) + 1" "d \<le> length a"
  shows "\<exists>a'. quote_loop a d s = (a', 1) \<and> length a' = length a \<and>
           drop 1 a' = concat (map quote_char (take s p)) @ drop d a"
  using assms
proof (induction s arbitrary: a d)
  case (Suc s)
  let ?E = "concat (map quote_char (take s p))"
  have tk: "take (Suc s) p = take s p @ [p ! s]" using Suc.prems(1) by (simp add: take_Suc_conv_app_nth)
  have as: "a ! s = p ! s" "take s a = take s p"
    using Suc.prems(1,2) nth_take [of s "Suc s"] by (metis lessI, metis take_take min.absorb1 le_SucI order_refl)
  have s: "s \<le> length ?E" using length_quoted_ge [of "take s p"] Suc.prems(1) by simp
  let ?a = "a[d - 1 := p ! s]"
  show ?case
  proof (cases "p ! s = QUOTE")
    case True
    then have d: "d = length ?E + 3" using Suc.prems(3) by (simp add: tk)
    let ?b = "?a[d - 2 := BACKSLASH]"
    have "quote_loop a d (Suc s) = quote_loop ?b (d - 2) s"
      using True as d s by (simp add: Let_def nth_list_update)
    moreover have "drop (d - 2) ?b = BACKSLASH # QUOTE # drop d a"
      using d Suc.prems(4) True by (simp add: drop_list_update_hd numeral_eq_Suc)
    moreover have "take s ?b = take s p" using as d s by simp
    ultimately show ?thesis
      using Suc.IH [of ?b "d - 2"] Suc.prems(1,4) d True by (simp add: tk)
  next
    case False
    then have d: "d = length ?E + 2" using Suc.prems(3) by (simp add: tk)
    have "quote_loop a d (Suc s) = quote_loop ?a (d - 1) s"
      using False as d s by (simp add: Let_def nth_list_update)
    moreover have "drop (d - 1) ?a = p ! s # drop d a"
      using d Suc.prems(4) by (simp add: drop_list_update_hd numeral_eq_Suc)
    moreover have "take s ?a = take s p" using as d s by simp
    ultimately show ?thesis
      using Suc.IH [of ?a "d - 1"] Suc.prems(1,4) d False by (simp add: tk)
  qed
qed simp

lemma zbx_quote_key_param_eq:
  assumes "NUL \<notin> set p"
  shows "zbx_quote_key_param fresh p forced =
     (if \<not> forced \<and> plain p then (SUCCEED, p)
      else if p \<noteq> [] \<and> last p = BACKSLASH then (FAIL, p) else (SUCCEED, quoted p))"
proof -
  let ?E = "concat (map quote_char p)" and ?n = "zbx_get_escape_string_len p [QUOTE] + 3"
  let ?a = "(p @ map fresh [length p..<?n])[?n - 1 := NUL, ?n - 2 := QUOTE]"
  have n: "?n = length ?E + 3" by (simp add: zbx_get_escape_string_len_quote)
  have le: "length p \<le> length ?E" by (rule length_quoted_ge)
  have "drop (length ?E + 1) ?a = [QUOTE, NUL]"
    using le drop_last_two [of "p @ map fresh [length p..<?n]" "length ?E"] unfolding n by simp
  moreover have "take (length p) ?a = p" using le unfolding n by simp
  ultimately obtain a' where a': "quote_loop ?a (?n - 2) (length p) = (a', 1)" "length a' = ?n" "drop 1 a' = ?E @ [QUOTE, NUL]"
    using quote_loop_spec [of "length p" p ?a "?n - 2"] le unfolding n by auto
  have "a'[1 - 1 := QUOTE] = quoted p @ [NUL]"
    using a'(2,3) by (cases a') (auto simp: quoted_def)
  moreover have "c_string (quoted p @ [NUL]) = quoted p"
    using assms by (auto simp: c_string_def quoted_def quote_char_def takeWhile_append)
  ultimately show ?thesis
    using a'(1) by (auto simp: zbx_quote_key_param_def plain_def strchr_def last_conv_nth Let_def)
qed

section \<open>Reading back what was quoted\<close>

lemma at_quote_quoted: "at_char QUOTE (concat (map quote_char p) @ q) \<longleftrightarrow> p = [] \<and> at_char QUOTE q"
  by (cases p) (auto simp: quote_char_def)

text \<open>No parameter that is quoted ends with a backslash.\<close>

definition quotable :: "string \<Rightarrow> bool" where
  "quotable p \<longleftrightarrow> p = [] \<or> last p \<noteq> BACKSLASH"

lemma quotable_Cons: "quotable (c # p) \<Longrightarrow> quotable p \<and> (p = [] \<longrightarrow> c \<noteq> BACKSLASH)"
  by (auto simp: quotable_def split: if_splits)

lemma unquote_copy_quoted:
  "quotable p \<Longrightarrow> unquote_copy (concat (map quote_char p) @ [QUOTE]) = p @ [QUOTE]"
  by (induction p) (auto simp: quote_char_def at_quote_quoted dest!: quotable_Cons)

definition read :: "int \<Rightarrow> string \<Rightarrow> get_scan \<Rightarrow> get_scan" where
  "read num p s = (if idx s = num then s\<lparr>buf := buf s @ p\<rparr> else s)"

lemma read_select [simp]:
  "state (read num p s) = state s" "arr (read num p s) = arr s" "idx (read num p s) = idx s"
  "buf (read num p s) = buf s @ (if idx s = num then p else [])"
  "read num p (s\<lparr>state := st\<rparr>) = (read num p s)\<lparr>state := st\<rparr>"
  by (simp_all add: read_def)

lemma read_read: "read num q (read num p s) = read num (p @ q) s" "read num [] s = s"
  by (simp_all add: read_def)

definition room :: "int \<Rightarrow> nat \<Rightarrow> string \<Rightarrow> get_scan \<Rightarrow> bool" where
  "room num m p s \<longleftrightarrow> (idx s = num \<longrightarrow> length (buf s) + length p \<le> m)"

lemma room_Cons: "room num m (c # p) s \<Longrightarrow> room num m p (read num [c] s) \<and> assign_param m (idx s = num) c s = Inr (read num [c] s)"
  by (auto simp: room_def assign_param_def read_def)

lemma get_quoted:
  assumes "state s = QUOTED" "arr s = 0" "idx s \<le> num" "quotable p" "room num m p s"
  shows "get_param_loop num m s (concat (map quote_char p) @ QUOTE # q) = get_param_loop num m (read num p s) (QUOTE # q)"
  using assms
proof (induction p arbitrary: s)
  case (Cons c p)
  note c = room_Cons [OF Cons.prems(5)] quotable_Cons [OF Cons.prems(4)]
  have "get_param_loop num m s (concat (map quote_char (c # p)) @ QUOTE # q) =
      get_param_loop num m (read num [c] s) (concat (map quote_char p) @ QUOTE # q)"
    using Cons.prems c
    by (cases "c = QUOTE") (auto simp: get_param_step_def at_quote_quoted assign_param_def)
  with Cons.IH [of "read num [c] s"] Cons.prems c show ?case by (simp add: read_read)
qed (simp add: read_read)

lemma get_unquoted:
  assumes "state s = UNQUOTED" "arr s = 0" "idx s \<le> num" "CHR '','' \<notin> set p" "room num m p s"
  shows "get_param_loop num m s (p @ q) = get_param_loop num m (read num p s) q"
  using assms
proof (induction p arbitrary: s)
  case (Cons c p)
  note c = room_Cons [OF Cons.prems(5)]
  have "get_param_loop num m s (c # p @ q) = get_param_loop num m (read num [c] s) (p @ q)"
    using Cons.prems c by (auto simp: get_param_step_def)
  with Cons.IH [of "read num [c] s"] Cons.prems c show ?case by (simp add: read_read)
qed (simp add: read_read)

text \<open>What follows a parameter in the list: nothing, or the comma of the next.\<close>

definition param_end :: "string \<Rightarrow> bool" where
  "param_end q \<longleftrightarrow> q = [] \<or> at_char CHR '','' q"

lemma param_end_next: "param_end q \<Longrightarrow> skip_spaces q = q \<and> \<not> bad_next a q"
  by (cases q) (auto simp: param_end_def skip_spaces_def bad_next_def)

text \<open>The two ways a parameter is written in a list.\<close>

inductive written :: "string \<Rightarrow> string \<Rightarrow> bool" where
  plain: "plain p \<Longrightarrow> written p p"
| quoted: "quotable p \<Longrightarrow> written p (quoted p)"

lemma zbx_quote_key_param_written:
  assumes "zbx_quote_key_param fresh p forced = (SUCCEED, q)" "NUL \<notin> set p"
  shows "written p q"
  using assms by (auto simp: zbx_quote_key_param_eq quotable_def split: if_splits intro: written.intros)

lemma plain_Cons:
  "plain (c # p) \<Longrightarrow>
     c \<noteq> QUOTE \<and> c \<noteq> CHR '' '' \<and> c \<noteq> CHR ''['' \<and> c \<noteq> CHR '','' \<and> c \<noteq> CHR '']'' \<and> CHR '','' \<notin> set p \<and> CHR '']'' \<notin> set p"
  by (auto simp: plain_def)

lemma get_written:
  assumes "written p w" "param_end q" "state s = INIT" "arr s = 0" "idx s \<le> num" "room num m p s"
  shows "\<exists>s'. get_param_loop num m s (w @ q) = get_param_loop num m s' q \<and>
           state s' \<noteq> QUOTED \<and> arr s' = 0 \<and> idx s' = idx s \<and> buf s' = buf (read num p s)"
  using assms
proof cases
  case plain
  show ?thesis
  proof (cases p)
    case Nil
    with plain assms show ?thesis by (auto simp: read_def)
  next
    case (Cons c p')
    let ?s = "read num [c] (set_type (idx s = num) REQUEST_PARAMETER_TYPE_STRING s)\<lparr>state := UNQUOTED\<rparr>"
    note c = plain_Cons [OF plain(2) [unfolded Cons]]
    have "get_param_loop num m s (p @ q) = get_param_loop num m ?s (p' @ q)"
      using Cons c assms(3-) room_Cons [of num m c p' s]
      by (auto simp: get_param_step_def room_def assign_param_def read_def)
    also have "\<dots> = get_param_loop num m (read num p' ?s) q"
      using c assms(3-) Cons by (intro get_unquoted) (auto simp: room_def)
    finally have "get_param_loop num m s (w @ q) = get_param_loop num m (read num p' ?s) q" using plain(1) by simp
    then show ?thesis using Cons assms(3-) by (intro exI [of _ "read num p' ?s"]) simp
  qed
next
  case quoted
  let ?s = "set_type (idx s = num) REQUEST_PARAMETER_TYPE_STRING (s\<lparr>state := QUOTED\<rparr>)"
  have "get_param_loop num m s (w @ q) = get_param_loop num m ?s (concat (map quote_char p) @ QUOTE # q)"
    using quoted assms(3-) by (simp add: quoted_def get_param_step_def assign_param_def)
  also have "\<dots> = get_param_loop num m (read num p ?s) (QUOTE # q)"
    using quoted assms(3-) by (intro get_quoted) (auto simp: room_def)
  also have "\<dots> = get_param_loop num m ((read num p ?s)\<lparr>state := INIT\<rparr>) q"
    using param_end_next [OF assms(2)] assms(3-)
    by (simp add: get_param_step_def assign_param_def Let_def)
  finally show ?thesis using assms(3-) by (intro exI [of _ "(read num p ?s)\<lparr>state := INIT\<rparr>"]) simp
qed

lemma get_comma:
  assumes "state s \<noteq> QUOTED" "arr s = 0" "idx s \<le> num"
  shows "get_param_loop num m s (CHR '','' # q) = get_param_loop num m (s\<lparr>state := INIT, idx := idx s + 1\<rparr>) q"
  using assms by (cases s; cases "state s") (auto simp: get_param_step_def)

definition join :: "string list \<Rightarrow> string" where
  "join ws = (case ws of [] \<Rightarrow> [] | w # ws \<Rightarrow> w @ concat (map (\<lambda>v. CHR '','' # v) ws))"

lemma join_Cons: "join (w # v # vs) = w @ CHR '','' # join (v # vs)"
  by (simp add: join_def)

lemma get_join:
  assumes "list_all2 written ps ws" "n < length ps" "num = idx s + int n" "length (ps ! n) \<le> m"
    "state s = INIT" "arr s = 0" "buf s = []"
  shows "\<exists>s'. get_param_loop num m s (join ws) = Inr s' \<and> state s' \<noteq> QUOTED \<and> arr s' = 0 \<and> num \<le> idx s' \<and> buf s' = ps ! n"
  using assms
proof (induction ps arbitrary: ws n s)
  case (Cons p ps)
  then obtain w ws' where ws: "ws = w # ws'" "written p w" "list_all2 written ps ws'" by (auto simp: list_all2_Cons1)
  define q where "q = (case ws' of [] \<Rightarrow> [] | _ \<Rightarrow> CHR '','' # join ws')"
  have join: "join ws = w @ q" by (cases ws') (auto simp: ws q_def join_Cons, simp add: join_def)
  have q: "param_end q" by (auto simp: q_def param_end_def split: list.splits)
  have room: "room num m p s" using Cons.prems by (cases n) (auto simp: room_def)
  obtain s' where s': "get_param_loop num m s (join ws) = get_param_loop num m s' q" "state s' \<noteq> QUOTED" "arr s' = 0"
     "idx s' = idx s" "buf s' = buf (read num p s)"
    using get_written [OF ws(2) q Cons.prems(5,6) _ room] Cons.prems(3) unfolding join by auto
  show ?case
  proof (cases n)
    case 0
    then have b: "buf s' = p" "idx s' = num" using s' Cons.prems by auto
    show ?thesis
    proof (cases ws')
      case Nil
      then show ?thesis using s' b 0 by (auto simp: q_def)
    next
      case (Cons v vs)
      then show ?thesis using s' b 0 get_comma [of s' num m "join ws'"]
        by (cases "join ws'") (auto simp: q_def simp del: get_param_loop.simps(2), simp)
    qed
  next
    case (Suc k)
    then obtain v vs where v: "ws' = v # vs" using Cons.prems(2) ws(3) by (cases ws') auto
    let ?s = "s'\<lparr>state := INIT, idx := idx s' + 1\<rparr>"
    have "get_param_loop num m s (join ws) = get_param_loop num m ?s (join ws')"
      using s' get_comma [of s' num m "join ws'"] Cons.prems(3) Suc by (simp add: q_def v del: get_param_loop.simps)
    with Cons.IH [of ws' k ?s] ws Cons.prems s' Suc show ?thesis by simp
  qed
qed simp

lemma num_quoted:
  assumes "nstate s = QUOTED" "quotable p"
  shows "num_param_loop s (concat (map quote_char p) @ QUOTE # q) = num_param_loop s (QUOTE # q)"
  using assms
proof (induction p)
  case (Cons c p)
  then show ?case
    using quotable_Cons [OF Cons.prems(2)]
    by (cases "c = QUOTE") (auto simp: num_param_step_def at_quote_quoted simp del: num_param_loop.simps(2), auto simp: num_param_step_def at_quote_quoted)
qed simp

lemma num_unquoted:
  assumes "nstate s = UNQUOTED" "CHR '','' \<notin> set p" "CHR '']'' \<notin> set p"
  shows "num_param_loop s (p @ q) = num_param_loop s q"
  using assms by (induction p) (auto simp: num_param_step_def)

lemma num_written:
  assumes "written p w" "param_end q" "nstate s = INIT" "narr s = 0"
  shows "\<exists>s'. num_param_loop s (w @ q) = num_param_loop s' q \<and> nstate s' \<noteq> QUOTED \<and> narr s' = 0 \<and> nret s' = nret s"
  using assms
proof cases
  case plain
  show ?thesis
  proof (cases p)
    case Nil
    with plain assms show ?thesis by auto
  next
    case (Cons c p')
    note c = plain_Cons [OF plain(2) [unfolded Cons]]
    let ?s = "s\<lparr>nstate := UNQUOTED\<rparr>"
    have "num_param_loop s (w @ q) = num_param_loop ?s q"
      using Cons c assms(3,4) plain(1) by (simp add: num_param_step_def num_unquoted)
    then show ?thesis using assms(4) by (intro exI [of _ ?s]) simp
  qed
next
  case quoted
  have "num_param_loop s (w @ q) = num_param_loop (s\<lparr>nstate := QUOTED\<rparr>) (concat (map quote_char p) @ QUOTE # q)"
    using quoted assms(3,4) by (simp add: quoted_def num_param_step_def)
  also have "\<dots> = num_param_loop (s\<lparr>nstate := QUOTED\<rparr>) (QUOTE # q)"
    using quoted by (intro num_quoted) auto
  also have "\<dots> = num_param_loop (s\<lparr>nstate := INIT\<rparr>) q"
    using param_end_next [OF assms(2)] by (simp add: num_param_step_def Let_def)
  finally show ?thesis using assms(4) by (intro exI [of _ "s\<lparr>nstate := INIT\<rparr>"]) simp
qed

lemma num_comma:
  assumes "nstate s \<noteq> QUOTED" "narr s = 0"
  shows "num_param_loop s (CHR '','' # q) = num_param_loop (s\<lparr>nstate := INIT, nret := nret s + 1\<rparr>) q"
  using assms by (cases s; cases "nstate s") (auto simp: num_param_step_def)

lemma num_join:
  assumes "list_all2 written ps ws" "ps \<noteq> []" "nstate s = INIT" "narr s = 0"
  shows "\<exists>s'. num_param_loop s (join ws) = Some s' \<and> nstate s' \<noteq> QUOTED \<and> narr s' = 0 \<and>
           nret s' = nret s + int (length ps) - 1"
  using assms
proof (induction ps arbitrary: ws s)
  case (Cons p ps)
  then obtain w ws' where ws: "ws = w # ws'" "written p w" "list_all2 written ps ws'" by (auto simp: list_all2_Cons1)
  show ?case
  proof (cases ws')
    case Nil
    then show ?thesis using num_written [OF ws(2), of "[]" s] Cons.prems ws by (auto simp: join_def param_end_def)
  next
    case v: (Cons v vs)
    obtain s' where s': "num_param_loop s (join ws) = num_param_loop s' (CHR '','' # join ws')" "nstate s' \<noteq> QUOTED" "narr s' = 0"
      "nret s' = nret s"
      using num_written [OF ws(2), of "CHR '','' # join ws'" s] Cons.prems ws v
      by (auto simp: join_Cons param_end_def simp del: num_param_loop.simps(2))
    let ?s = "s'\<lparr>nstate := INIT, nret := nret s' + 1\<rparr>"
    have "num_param_loop s (join ws) = num_param_loop ?s (join ws')" using s' num_comma by simp
    moreover have "ps \<noteq> []" using ws(3) v by auto
    ultimately show ?thesis using Cons.IH [of ws' ?s] ws(3) s' by auto
  qed
qed simp

lemma zbx_num_param_join:
  assumes "list_all2 written ps ws" "ps \<noteq> []"
  shows "zbx_num_param (Some (join ws)) = int (length ps)"
  using num_join [OF assms, of "\<lparr>nstate = INIT, narr = 0, nret = 1\<rparr>"] by (auto simp: zbx_num_param_def)

lemma zbx_get_param_join:
  assumes "list_all2 written ps ws" "n < length ps" "length (ps ! n) < m"
  shows "\<exists>t. zbx_get_param (join ws) (int n + 1) m = (0, ps ! n, t)"
proof -
  have "length (ps ! n) \<le> m - 1" "m \<noteq> 0" using assms(3) by simp_all
  then show ?thesis
    using get_join [OF assms(1,2), of "int n + 1" get_scan_init "m - 1"]
    by (auto simp: zbx_get_param_def get_scan_init_def)
qed

section \<open>Keys\<close>

lemma strchr_append: "c \<notin> set k \<Longrightarrow> strchr c (k @ c # p) = Some (length k)"
  by (induction k) (auto simp: strchr_def)

lemma strrchr_append: "strrchr c (k @ [c]) = Some (length k)"
  by (simp add: strrchr_def)

lemma key_params_append:
  assumes "CHR ''['' \<notin> set k"
  shows "key_params (k @ CHR ''['' # p @ '']'') = Some p"
  using strchr_append [OF assms, of "p @ '']''"] strrchr_append [of "CHR '']''" "k @ CHR ''['' # p"]
  by (simp add: key_params_def)

lemma key_roundtrip:
  assumes "k \<noteq> []" "list_all zbx_is_key_char k" "list_all2 written ps ws" "ps \<noteq> []"
  defines "key \<equiv> k @ CHR ''['' # join ws @ '']''"
  shows "zbx_parse_key key = (SUCCEED, [])"
    and "zbx_num_key_param (Some key) = int (length ps)"
    and "n < length ps \<Longrightarrow> length (ps ! n) < m \<Longrightarrow> zbx_get_key_param key (int n + 1) m = (0, ps ! n)"
proof -
  have k: "CHR ''['' \<notin> set k" using assms(2) zbx_is_key_char_not(1) by (auto simp: list_all_iff)
  note num = zbx_num_param_join [OF assms(3,4)]
  show "zbx_parse_key key = (SUCCEED, [])"
    using zbx_parse_key_accepts [OF assms(1,2)] num assms(4) by (simp add: key_def)
  show "zbx_num_key_param (Some key) = int (length ps)"
    using key_params_append [OF k] num by (simp add: key_def zbx_num_key_param_def)
  show "zbx_get_key_param key (int n + 1) m = (0, ps ! n)" if "n < length ps" "length (ps ! n) < m"
    using key_params_append [OF k] zbx_get_param_join [OF assms(3) that] by (auto simp: key_def zbx_get_key_param_def)
qed

section \<open>A larger buffer gets the same\<close>

lemma scan_bind_Inr: "scan_bind r f = Inr y \<longleftrightarrow> (\<exists>x. r = Inr x \<and> f x = Inr y)"
  by (cases r) auto

lemma assign_param_larger:
  assumes "assign_param m b c s = Inr s'" "length (buf s) \<le> m" "m \<le> m'"
  shows "assign_param m' b c s = Inr s'" "length (buf s') \<le> m"
  using assms by (auto simp: assign_param_def split: if_splits)

lemma scan_bind_larger:
  assumes "scan_bind (assign_param m b c s) f = Inr r" "length (buf s) \<le> m" "m \<le> m'"
    and "\<And>s1. f s1 = Inr r \<Longrightarrow> length (buf s1) \<le> m \<Longrightarrow> g s1 = Inr r \<and> length (buf (fst r)) \<le> m"
  shows "scan_bind (assign_param m' b c s) g = Inr r \<and> length (buf (fst r)) \<le> m"
  using assms assign_param_larger [of m b c s _ m'] by (fastforce simp: scan_bind_Inr)

lemma scan_bind_same:
  assumes "scan_bind (assign_param m b c s) (\<lambda>s. Inr (s, p)) = Inr r" "length (buf s) \<le> m" "m \<le> m'"
  shows "scan_bind (assign_param m' b c s) (\<lambda>s. Inr (s, p)) = Inr r" "length (buf (fst r)) \<le> m"
  using assms by (auto simp: scan_bind_Inr dest: assign_param_larger)

lemma get_param_step_larger:
  assumes "get_param_step num m s c p = Inr r" "length (buf s) \<le> m" "m \<le> m'"
  shows "get_param_step num m' s c p = Inr r \<and> length (buf (fst r)) \<le> m"
proof (cases "state s")
  case INIT
  consider "c = CHR '',''" | "c = QUOTE" | "c = CHR ''[''" | "c = CHR '']''" "arr s \<noteq> 0"
    | "c = CHR '' ''"
    | "c = CHR '']''" "arr s = 0"
    | "c \<noteq> CHR '',''" "c \<noteq> QUOTE" "c \<noteq> CHR ''[''" "c \<noteq> CHR '' ''" "c \<noteq> CHR '']''" by metis
  then show ?thesis
    apply cases
    subgoal using assms INIT by (cases "arr s = 0") (auto simp: get_param_step_def Let_def dest: scan_bind_same)
    subgoal using assms INIT by (auto simp: get_param_step_def Let_def dest: scan_bind_same)
    subgoal using assms INIT by (simp add: get_param_step_def Let_def) (erule scan_bind_larger; auto)
    subgoal using assms INIT by (simp add: get_param_step_def Let_def) (erule scan_bind_larger; auto split: if_splits)
    subgoal using assms INIT by (auto simp: get_param_step_def Let_def)
    subgoal using assms INIT by (simp add: get_param_step_def Let_def) (erule scan_bind_larger; auto)
    subgoal using assms INIT by (simp add: get_param_step_def Let_def) (erule scan_bind_larger; auto)
    done
next
  case QUOTED
  consider "c = QUOTE" | "c \<noteq> QUOTE" "c = BACKSLASH \<and> at_char QUOTE p"
    | "c \<noteq> QUOTE" "\<not> (c = BACKSLASH \<and> at_char QUOTE p)" by blast
  then show ?thesis
    apply cases
    subgoal using assms QUOTED by (simp add: get_param_step_def Let_def) (erule scan_bind_larger; auto split: if_splits)
    subgoal using assms QUOTED by (simp add: get_param_step_def Let_def) (erule scan_bind_larger; auto dest: scan_bind_same)
    subgoal using assms QUOTED by (simp add: get_param_step_def Let_def) (auto dest: scan_bind_same)
    done
next
  case UNQUOTED
  show ?thesis
    using assms UNQUOTED by (cases "c = CHR '','' \<or> c = CHR '']'' \<and> arr s \<noteq> 0") (auto simp: get_param_step_def Let_def dest: scan_bind_same)
qed

lemma get_param_loop_larger:
  assumes "get_param_loop num m s p = Inr s'" "length (buf s) \<le> m" "m \<le> m'"
  shows "get_param_loop num m' s p = Inr s'"
  using assms
proof (induction num m s p rule: get_param_loop.induct)
  case (2 num m s c p)
  show ?case
  proof (cases "num < idx s")
    case True
    with 2 show ?thesis by simp
  next
    case False
    then obtain s1 p1 where s1: "get_param_step num m s c p = Inr (s1, p1)" "get_param_loop num m s1 p1 = Inr s'"
      using 2(2) by (auto split: sum.splits)
    have "get_param_step num m' s c p = Inr (s1, p1)" "length (buf s1) \<le> m"
      using get_param_step_larger [OF s1(1) 2(3,4)] by simp_all
    with 2(1) [OF False s1(1) refl s1(2) _ 2(4)] False show ?thesis by simp
  qed
qed simp

lemma zbx_get_param_larger:
  assumes "zbx_get_param p num m = (0, b, t)" "m \<le> m'"
  shows "zbx_get_param p num m' = (0, b, t)"
proof -
  have m: "m \<noteq> 0" using assms(1) by (auto simp: zbx_get_param_def split: if_splits)
  then obtain s where s: "get_param_loop num (m - 1) get_scan_init p = Inr s"
    using assms(1) by (auto simp: zbx_get_param_def split: sum.splits)
  then have "get_param_loop num (m' - 1) get_scan_init p = Inr s"
    using assms(2) by (intro get_param_loop_larger [OF s]) (auto simp: get_scan_init_def)
  with s assms m show ?thesis by (auto simp: zbx_get_param_def)
qed

lemma zbx_get_param_ret: "fst (zbx_get_param p num m) = 0 \<or> fst (zbx_get_param p num m) = 1"
  by (auto simp: zbx_get_param_def split: sum.splits)

section \<open>Properties\<close>

text \<open>
  C34.  \<open>get_param_len\<close> measures exactly what \<open>zbx_get_param\<close> writes.  Where it finds no parameter, no
  buffer makes \<open>zbx_get_param\<close> succeed; where it returns a size, a buffer gets the parameter, always the
  same characters and the same type, if and only if it has room for that many and the NUL, and a smaller
  one is refused.  So the buffer that \<open>zbx_get_param_dyn\<close> allocates never overflows and never fails.
\<close>

theorem param_dyn_exact:
  "case get_param_len p num of
     None \<Rightarrow> zbx_get_param_dyn p num = (None, None) \<and> (\<forall>m. fst (zbx_get_param p num m) = 1)
   | Some n \<Rightarrow>
       \<exists>b t. length b = n \<and> zbx_get_param_dyn p num = (Some b, Some t) \<and>
         (\<forall>m. if n < m then zbx_get_param p num m = (0, b, t) else fst (zbx_get_param p num m) = 1)"
proof (cases "get_param_len p num")
  case None
  have "fst (zbx_get_param p num m) = 1" for m
    using zbx_get_param_exact(1) [of p num m] zbx_get_param_ret [of p num m] None
    by (cases "zbx_get_param p num m") auto
  then show ?thesis using None by (simp add: zbx_get_param_dyn_def)
next
  case (Some n)
  obtain b t where b: "zbx_get_param p num (n + 1) = (0, b, t)" "length b = n"
    using zbx_get_param_exact(2) [OF Some, of "n + 1"] by auto
  have "fst (zbx_get_param p num m) = 1" if "\<not> n < m" for m
    using zbx_get_param_exact(1) [of p num m] zbx_get_param_ret [of p num m] Some that
    by (cases "zbx_get_param p num m") auto
  moreover have "zbx_get_param p num m = (0, b, t)" if "n < m" for m
    using zbx_get_param_larger [OF b(1), of m] that by simp
  moreover have "zbx_get_param_dyn p num = (Some b, Some t)" using Some b by (simp add: zbx_get_param_dyn_def)
  ultimately show ?thesis using Some b(2) by auto
qed

text \<open>
  C19.  The two parsers of the syntax of keys agree.  For a name \<open>k\<close> of key characters and any string \<open>p\<close>,
  \<open>zbx_parse_key\<close> takes \<open>k[p]\<close> to its very end exactly if \<open>zbx_num_param\<close> finds no error in \<open>p\<close>.  Its
  result is then what \<open>zbx_num_key_param\<close> returns for the key, and the parameters that can be read are
  those up to it.
\<close>

theorem key_syntax_agrees:
  assumes "k \<noteq> []" "list_all zbx_is_key_char k"
  shows "(zbx_parse_key (k @ ''['' @ p @ '']'') = (SUCCEED, []) \<longleftrightarrow> zbx_num_param (Some p) \<noteq> 0) \<and>
    zbx_num_key_param (Some (k @ ''['' @ p @ '']'')) = zbx_num_param (Some p) \<and>
    (zbx_num_param (Some p) \<noteq> 0 \<longrightarrow> (fst (zbx_get_param_dyn p num) \<noteq> None \<longleftrightarrow> num \<le> zbx_num_param (Some p)))"
proof (intro conjI impI)
  have k: "CHR ''['' \<notin> set k" using assms(2) zbx_is_key_char_not(1) by (auto simp: list_all_iff)
  show "zbx_parse_key (k @ ''['' @ p @ '']'') = (SUCCEED, []) \<longleftrightarrow> zbx_num_param (Some p) \<noteq> 0"
    using zbx_parse_key_accepts [OF assms] by simp
  show "zbx_num_key_param (Some (k @ ''['' @ p @ '']'')) = zbx_num_param (Some p)"
    using key_params_append [OF k] by (simp add: zbx_num_key_param_def)
  show "fst (zbx_get_param_dyn p num) \<noteq> None \<longleftrightarrow> num \<le> zbx_num_param (Some p)" if "zbx_num_param (Some p) \<noteq> 0"
    using zbx_num_param_counts [OF refl that, of num] zbx_get_param_exact(2) [of p num]
    by (fastforce simp: zbx_get_param_dyn_def split: option.splits)
qed

theorem key_syntax_agrees_witness:
  "zbx_parse_key ''ab[x,]'' = (SUCCEED, []) \<and> zbx_num_key_param (Some ''ab[x,]'') = 2 \<and>
   fst (zbx_get_param_dyn ''x,'' 2) \<noteq> None \<and> fst (zbx_get_param_dyn ''x,'' 3) = None"
proof -
  have k: "''ab'' \<noteq> []" "list_all zbx_is_key_char ''ab''"
    by (simp_all add: zbx_is_key_char_def isalnum_def isdigit_def)
  have n: "zbx_num_param (Some ''x,'') = 2" by (simp add: zbx_num_param_def num_param_step_def)
  show ?thesis
    using key_syntax_agrees [OF k, of "''x,''" 2] key_syntax_agrees [OF k, of "''x,''" 3] n
    by simp
qed

text \<open>
  C18.  Parameters survive the way through a key.  Take any parameters that \<open>zbx_quote_key_param\<close> does not
  refuse, with or without forced quotes, whatever the reallocated memory holds; write the results, separated
  by commas, between the brackets of a key.  Then \<open>zbx_parse_key\<close> takes the whole key,
  \<open>zbx_num_key_param\<close> counts them all, \<open>zbx_get_key_param\<close> reads each back, character for character, into any
  buffer that can hold it, and \<open>zbx_unquote_key_param\<close> undoes the forced quotes.
\<close>

theorem key_params_roundtrip:
  assumes "k \<noteq> []" "list_all zbx_is_key_char k" "ps \<noteq> []"
    and "\<And>p. p \<in> set ps \<Longrightarrow> NUL \<notin> set p \<and> fst (zbx_quote_key_param fresh p forced) = SUCCEED"
  defines "key \<equiv> k @ ''['' @ join (map (\<lambda>p. snd (zbx_quote_key_param fresh p forced)) ps) @ '']''"
  shows "zbx_parse_key key = (SUCCEED, []) \<and>
    zbx_num_key_param (Some key) = int (length ps) \<and>
    (\<forall>n m. n < length ps \<longrightarrow> length (ps ! n) < m \<longrightarrow> zbx_get_key_param key (int n + 1) m = (0, ps ! n)) \<and>
    (forced \<longrightarrow> (\<forall>p\<in>set ps. zbx_unquote_key_param (snd (zbx_quote_key_param fresh p forced)) = Inr p))"
proof (intro conjI allI impI ballI)
  have w: "list_all2 written ps (map (\<lambda>p. snd (zbx_quote_key_param fresh p forced)) ps)"
    using assms(4) by (auto simp: list_all2_conv_all_nth intro!: zbx_quote_key_param_written prod_eqI)
  note r = key_roundtrip [OF assms(1,2) w assms(3)]
  show "zbx_parse_key key = (SUCCEED, [])" "zbx_num_key_param (Some key) = int (length ps)"
    using r(1,2) by (simp_all add: key_def)
  show "zbx_get_key_param key (int n + 1) m = (0, ps ! n)" if "n < length ps" "length (ps ! n) < m" for n m
    using r(3) [OF that] by (simp add: key_def)
  show "zbx_unquote_key_param (snd (zbx_quote_key_param fresh p forced)) = Inr p" if "forced" "p \<in> set ps" for p
    using that assms(4) [OF that(2)] unquote_copy_quoted [of p]
    by (auto simp: zbx_quote_key_param_eq zbx_unquote_key_param_def quoted_def quotable_def split: if_splits)
qed

theorem key_params_roundtrip_witness:
  "zbx_num_key_param (Some (''k['' @ join (map (\<lambda>p. snd (zbx_quote_key_param (\<lambda>i. NUL) p False)) [''a,b'', ''c'']) @ '']'')) = 2 \<and>
   zbx_get_key_param (''k['' @ join (map (\<lambda>p. snd (zbx_quote_key_param (\<lambda>i. NUL) p False)) [''a,b'', ''c'']) @ '']'') 1 10 =
     (0, ''a,b'')"
proof -
  have k: "''k'' \<noteq> []" "list_all zbx_is_key_char ''k''"
    by (simp_all add: zbx_is_key_char_def isalnum_def isdigit_def)
  have q: "NUL \<notin> set p \<and> fst (zbx_quote_key_param (\<lambda>i. NUL) p False) = SUCCEED" if "p \<in> set [''a,b'', ''c'']" for p
    using that by (auto simp: zbx_quote_key_param_eq plain_def)
  note r = key_params_roundtrip [where fresh = "\<lambda>i. NUL" and forced = False, OF k _ q]
  let ?ps = "[''a,b'', ''c'']"
  have n: "0 < length ?ps" "length (?ps ! 0) < 10" by simp_all
  have "?ps \<noteq> []" by simp
  from r [OF this] have "zbx_num_key_param (Some (''k'' @ ''['' @ join (map (\<lambda>p. snd (zbx_quote_key_param (\<lambda>i. NUL) p False)) ?ps) @ '']'')) = int (length ?ps)"
    "zbx_get_key_param (''k'' @ ''['' @ join (map (\<lambda>p. snd (zbx_quote_key_param (\<lambda>i. NUL) p False)) ?ps) @ '']'') (int 0 + 1) 10 = (0, ?ps ! 0)"
    using n by blast+
  then show ?thesis by simp
qed

end
