(* ===== verification/Sched_Time.thy ===== *)
theory Sched_Time
  imports Num_Parse
begin

text \<open>
  Calendar arithmetic: the functions of \<open>src/libs/zbxtime/time.c\<close> that scheduling uses, the broken-down time
  \<open>struct tm\<close>, and the day of the week of \<open>src/libs/zbxexpr/interval.c\<close>.

  Years, months and days are positive, where the division of C and \<open>div\<close> agree.
\<close>

section \<open>Time constants and the calendar\<close>

definition SEC_PER_MIN :: int where "SEC_PER_MIN = 60"
definition SEC_PER_HOUR :: int where "SEC_PER_HOUR = 3600"
definition SEC_PER_DAY :: int where "SEC_PER_DAY = 86400"
definition SEC_PER_WEEK :: int where "SEC_PER_WEEK = 7 * SEC_PER_DAY"
definition SEC_PER_YEAR :: int where "SEC_PER_YEAR = 365 * SEC_PER_DAY"

lemmas sec_defs = SEC_PER_MIN_def SEC_PER_HOUR_def SEC_PER_DAY_def SEC_PER_WEEK_def SEC_PER_YEAR_def

definition zbx_is_leap_year :: "int \<Rightarrow> bool" where
  "zbx_is_leap_year year \<longleftrightarrow> year mod 4 = 0 \<and> (year mod 100 \<noteq> 0 \<or> year mod 400 = 0)"

definition month_table :: "int list" where
  "month_table = [31, 28, 31, 30, 31, 30, 31, 31, 30, 31, 30, 31]"

definition zbx_day_in_month :: "int \<Rightarrow> int \<Rightarrow> int" where
  "zbx_day_in_month year mon =
     (if 1 \<le> mon \<and> mon \<le> 12
      then month_table ! nat (mon - 1) + (if mon = 2 \<and> zbx_is_leap_year year then 1 else 0)
      else 30)"

text \<open>The number of leap years before the year, and the days of a common year before the month.\<close>

definition ZBX_LEAP_YEARS :: "int \<Rightarrow> int" where
  "ZBX_LEAP_YEARS year = (year - 1) div 4 - (year - 1) div 100 + (year - 1) div 400"

definition month_day :: "int list" where
  "month_day = [0, 31, 59, 90, 120, 151, 181, 212, 243, 273, 304, 334]"

text \<open>The value of a 32-bit signed integer after an overflow, as compilers wrap it.\<close>

definition int32 :: "int \<Rightarrow> int" where
  "int32 x = (x + 2 ^ 31) mod 2 ^ 32 - 2 ^ 31"

definition utc_seconds :: "int \<Rightarrow> int \<Rightarrow> int \<Rightarrow> int \<Rightarrow> int \<Rightarrow> int \<Rightarrow> int" where
  "utc_seconds year mon mday hour mi sec =
     (year - 1970) * SEC_PER_YEAR +
     (ZBX_LEAP_YEARS (if 2 < mon then year + 1 else year) - ZBX_LEAP_YEARS 1970) * SEC_PER_DAY +
     (month_day ! nat (mon - 1) + mday - 1) * SEC_PER_DAY + hour * SEC_PER_HOUR + mi * SEC_PER_MIN + sec"

definition zbx_utc_time :: "int \<Rightarrow> int \<Rightarrow> int \<Rightarrow> int \<Rightarrow> int \<Rightarrow> int \<Rightarrow> int option" where
  "zbx_utc_time year mon mday hour mi sec =
     (if 1970 \<le> year \<and> 1 \<le> mon \<and> mon \<le> 12 \<and> 1 \<le> mday \<and> mday \<le> zbx_day_in_month year mon \<and>
         0 \<le> hour \<and> hour \<le> 23 \<and> 0 \<le> mi \<and> mi \<le> 59 \<and> 0 \<le> sec \<and> sec \<le> 61 \<and>
         0 \<le> int32 (utc_seconds year mon mday hour mi sec)
      then Some (int32 (utc_seconds year mon mday hour mi sec)) else None)"

section \<open>Broken-down time\<close>

record tm =
  tm_sec :: int
  tm_min :: int
  tm_hour :: int
  tm_mday :: int
  tm_mon :: int
  tm_year :: int
  tm_wday :: int
  tm_isdst :: int

definition scheduler_tm_inc :: "tm \<Rightarrow> tm" where
  "scheduler_tm_inc t =
     (let t = t\<lparr>tm_sec := tm_sec t + 1\<rparr> in
      if tm_sec t < 60 then t
      else let t = t\<lparr>tm_sec := 0, tm_min := tm_min t + 1\<rparr> in
      if tm_min t < 60 then t
      else let t = t\<lparr>tm_min := 0, tm_hour := tm_hour t + 1\<rparr> in
      if tm_hour t < 24 then t
      else let t = t\<lparr>tm_hour := 0, tm_mday := tm_mday t + 1\<rparr> in
      if tm_mday t \<le> zbx_day_in_month (tm_year t + 1900) (tm_mon t + 1) then t
      else let t = t\<lparr>tm_mday := 1, tm_mon := tm_mon t + 1\<rparr> in
      if tm_mon t < 12 then t
      else t\<lparr>tm_mon := 0, tm_year := tm_year t + 1\<rparr>)"

definition mon_table :: "int list" where
  "mon_table = [0, 3, 2, 5, 0, 3, 5, 1, 4, 6, 2, 4]"

definition calculate_dayofweek :: "int \<Rightarrow> int \<Rightarrow> int \<Rightarrow> int" where
  "calculate_dayofweek year mon mday =
     (let year = (if mon < 3 then year - 1 else year)
      in (year + year div 4 - year div 100 + year div 400 + mon_table ! nat (mon - 1) + mday - 1) mod 7 + 1)"

section \<open>The calendar is right\<close>

definition valid_tm :: "tm \<Rightarrow> bool" where
  "valid_tm t \<longleftrightarrow> 70 \<le> tm_year t \<and> 0 \<le> tm_mon t \<and> tm_mon t \<le> 11 \<and> 1 \<le> tm_mday t \<and>
     tm_mday t \<le> zbx_day_in_month (tm_year t + 1900) (tm_mon t + 1) \<and>
     0 \<le> tm_hour t \<and> tm_hour t \<le> 23 \<and> 0 \<le> tm_min t \<and> tm_min t \<le> 59 \<and> 0 \<le> tm_sec t \<and> tm_sec t \<le> 59"

definition tm_seconds :: "tm \<Rightarrow> int" where
  "tm_seconds t = utc_seconds (tm_year t + 1900) (tm_mon t + 1) (tm_mday t) (tm_hour t) (tm_min t) (tm_sec t)"

definition tm_dayofweek :: "tm \<Rightarrow> int" where
  "tm_dayofweek t = calculate_dayofweek (tm_year t + 1900) (tm_mon t + 1) (tm_mday t)"

lemma month_cases:
  fixes mon :: int
  assumes "1 \<le> mon" "mon \<le> 12"
  shows "mon = 1 \<or> mon = 2 \<or> mon = 3 \<or> mon = 4 \<or> mon = 5 \<or> mon = 6 \<or> mon = 7 \<or> mon = 8 \<or> mon = 9 \<or> mon = 10 \<or> mon = 11 \<or> mon = 12"
  using assms by presburger

lemma zbx_day_in_month_bounds: "28 \<le> zbx_day_in_month y mon" "zbx_day_in_month y mon \<le> 31"
proof -
  consider "mon < 1 \<or> 12 < mon" | "1 \<le> mon" "mon \<le> 12" by linarith
  then have "28 \<le> zbx_day_in_month y mon \<and> zbx_day_in_month y mon \<le> 31"
  proof cases
    case 2
    from month_cases [OF this] show ?thesis by (elim disjE) (simp_all add: zbx_day_in_month_def month_table_def)
  qed (auto simp: zbx_day_in_month_def)
  then show "28 \<le> zbx_day_in_month y mon" "zbx_day_in_month y mon \<le> 31" by auto
qed

text \<open>The days before the first of a month, counted from the epoch.\<close>

definition days_before :: "int \<Rightarrow> int \<Rightarrow> int" where
  "days_before year mon =
     (year - 1970) * 365 + (ZBX_LEAP_YEARS (if 2 < mon then year + 1 else year) - ZBX_LEAP_YEARS 1970) + month_day ! nat (mon - 1)"

lemma utc_seconds_days:
  "utc_seconds year mon mday hour mi sec =
     (days_before year mon + mday - 1) * 86400 + (hour * 3600 + mi * 60 + sec)"
  by (simp add: utc_seconds_def days_before_def sec_defs algebra_simps)

lemma div_Suc_int:
  fixes x n :: int
  assumes "0 < n"
  shows "(x + 1) div n = x div n + (if n dvd x + 1 then 1 else 0)"
proof -
  define q r where "q = x div n" and "r = x mod n"
  then have x: "x = n * q + r" "0 \<le> r" "r < n" using assms by simp_all
  show ?thesis
  proof (cases "r + 1 = n")
    case True
    then have "x + 1 = n * (q + 1)" using x(1) by (simp add: algebra_simps)
    then show ?thesis using assms by (simp add: q_def)
  next
    case False
    then have r: "r + 1 < n" using x by simp
    have "(x + 1) div n = q" using r x by (intro int_div_pos_eq [of _ _ _ "r + 1"]) auto
    moreover have "(x + 1) mod n = r + 1" using r x by (intro int_mod_pos_eq [of _ _ q]) auto
    ultimately show ?thesis using x(2) by (simp add: q_def dvd_eq_mod_eq_0)
  qed
qed

lemma leap_years_Suc: "ZBX_LEAP_YEARS (y + 1) = ZBX_LEAP_YEARS y + (if zbx_is_leap_year y then 1 else 0)"
proof -
  have k: "4 dvd (100 :: int)" "100 dvd (400 :: int)" by simp_all
  have d: "100 dvd y \<Longrightarrow> 4 dvd y" "400 dvd y \<Longrightarrow> 100 dvd y" by (rule dvd_trans [OF k(1)] dvd_trans [OF k(2)], assumption)+
  have e: "y div n = (y - 1) div n + (if n dvd y then 1 else 0)" if "0 < n" for n
    using div_Suc_int [OF that, of "y - 1"] by (simp only: diff_add_cancel)
  have p: "0 < (4 :: int)" "0 < (100 :: int)" "0 < (400 :: int)" by simp_all
  have ac: "(a + a') - (b + b') + (c + c') = (a - b + c) + (a' - b' + c')" for a b c a' b' c' :: int by simp
  have bools: "(if A then 1 else 0) - (if B then 1 else 0) + (if C then 1 else 0) = (if A \<and> (\<not> B \<or> C) then 1 else (0 :: int))"
    if "B \<Longrightarrow> A" "C \<Longrightarrow> B" for A B C
    using that by (cases A; cases B; cases C) simp_all
  have leap: "zbx_is_leap_year y \<longleftrightarrow> 4 dvd y \<and> (\<not> 100 dvd y \<or> 400 dvd y)"
    by (simp only: zbx_is_leap_year_def dvd_eq_mod_eq_0)
  have "ZBX_LEAP_YEARS (y + 1) = y div 4 - y div 100 + y div 400"
    by (simp only: ZBX_LEAP_YEARS_def add_diff_cancel_right')
  also have "\<dots> = ZBX_LEAP_YEARS y + ((if 4 dvd y then 1 else 0) - (if 100 dvd y then 1 else 0) + (if 400 dvd y then 1 else 0))"
    unfolding ZBX_LEAP_YEARS_def e [OF p(1)] e [OF p(2)] e [OF p(3)] by (rule ac)
  also have "\<dots> = ZBX_LEAP_YEARS y + (if zbx_is_leap_year y then 1 else 0)"
    unfolding leap by (rule arg_cong [OF bools [OF d]])
  finally show ?thesis .
qed

lemma days_before_Suc:
  assumes "1 \<le> mon" "mon < 12"
  shows "days_before year (mon + 1) = days_before year mon + zbx_day_in_month year mon"
proof -
  have "1 \<le> mon" "mon \<le> 12" using assms by simp_all
  from month_cases [OF this] assms(2) show ?thesis
    by (elim disjE)
      (simp_all add: days_before_def month_day_def zbx_day_in_month_def month_table_def leap_years_Suc)
qed

lemma days_before_year: "days_before (year + 1) 1 = days_before year 12 + zbx_day_in_month year 12"
  by (simp add: days_before_def month_day_def zbx_day_in_month_def month_table_def)

lemma calculate_dayofweek_days:
  assumes "1 \<le> mon" "mon \<le> 12"
  shows "calculate_dayofweek year mon mday = (days_before year mon + mday - 1 + 3) mod 7 + 1"
proof -
  define l where "l = ZBX_LEAP_YEARS (if 2 < mon then year + 1 else year)"
  have "(if mon < 3 then year - 1 else year) div 4 - (if mon < 3 then year - 1 else year) div 100 +
      (if mon < 3 then year - 1 else year) div 400 = l"
    by (simp add: l_def ZBX_LEAP_YEARS_def)
  then have c: "calculate_dayofweek year mon mday =
      ((if mon < 3 then year - 1 else year) + l + mon_table ! nat (mon - 1) + mday - 1) mod 7 + 1"
    by (simp add: calculate_dayofweek_def Let_def algebra_simps)
  have d: "days_before year mon = (year - 1970) * 365 + (l - 477) + month_day ! nat (mon - 1)"
    by (simp add: days_before_def l_def ZBX_LEAP_YEARS_def)
  let ?e = "(if mon < 3 then - 719523 else - 719524) + month_day ! nat (mon - 1) - mon_table ! nat (mon - 1)"
  have "(days_before year mon + mday - 1 + 3) -
      ((if mon < 3 then year - 1 else year) + l + mon_table ! nat (mon - 1) + mday - 1) = 7 * (52 * year) + ?e"
    unfolding d by (simp add: algebra_simps)
  moreover have "7 dvd ?e"
    using month_cases [OF assms] by (elim disjE) (simp_all add: mon_table_def month_day_def)
  ultimately have "7 dvd (days_before year mon + mday - 1 + 3) -
      ((if mon < 3 then year - 1 else year) + l + mon_table ! nat (mon - 1) + mday - 1)"
    by (metis dvd_add dvd_triv_left)
  then show ?thesis unfolding c by (metis mod_eq_dvd_iff)
qed

lemma tm_seconds_div: 
  assumes "valid_tm t"
  shows "tm_seconds t div SEC_PER_DAY = days_before (tm_year t + 1900) (tm_mon t + 1) + tm_mday t - 1"
proof -
  let ?r = "tm_hour t * 3600 + tm_min t * 60 + tm_sec t"
  have "0 \<le> ?r" "?r < 86400" using assms by (auto simp: valid_tm_def)
  then show ?thesis by (simp add: tm_seconds_def utc_seconds_days SEC_PER_DAY_def)
qed

lemma tm_dayofweek_seconds:
  assumes "valid_tm t"
  shows "tm_dayofweek t = (tm_seconds t div SEC_PER_DAY + 3) mod 7 + 1"
  using assms by (simp add: tm_seconds_div tm_dayofweek_def calculate_dayofweek_days valid_tm_def)

lemma scheduler_tm_inc_valid:
  assumes "valid_tm t"
  shows "valid_tm (scheduler_tm_inc t)"
  using assms zbx_day_in_month_bounds(1) [of "1901 + tm_year t" 1] zbx_day_in_month_bounds(1) [of "tm_year t + 1900" "2 + tm_mon t"]
  by (auto simp: valid_tm_def scheduler_tm_inc_def Let_def)

lemma scheduler_tm_inc_seconds:
  assumes "valid_tm t"
  shows "tm_seconds (scheduler_tm_inc t) = tm_seconds t + 1"
proof -
  have "days_before (tm_year t + 1900) (2 + tm_mon t) = days_before (tm_year t + 1900) (tm_mon t + 1) + zbx_day_in_month (tm_year t + 1900) (tm_mon t + 1)"
    if "tm_mon t < 11" using days_before_Suc [of "tm_mon t + 1" "tm_year t + 1900"] that assms by (simp add: valid_tm_def add.commute)
  moreover have "days_before (1901 + tm_year t) 1 = days_before (tm_year t + 1900) (tm_mon t + 1) + zbx_day_in_month (tm_year t + 1900) (tm_mon t + 1)"
    if "\<not> tm_mon t < 11"
    using days_before_year [of "tm_year t + 1900"] that assms by (simp add: valid_tm_def)
  ultimately show ?thesis
    using assms by (auto simp: valid_tm_def scheduler_tm_inc_def Let_def tm_seconds_def utc_seconds_days)
qed

end
