(* ===== verification/Sched_Search.thy ===== *)
theory Sched_Search
  imports Sched_Time
begin

text \<open>
  \<open>src/libs/zbxexpr/interval.c\<close>, the search for the next time of a scheduling interval such as
  \<open>md1-7wd1h9m0-59/15\<close>.

  A chain of filters is the list of its elements, empty for NULL.  The four \<open>apply\<close> functions loop until a
  filter is satisfied; they are partial functions, and a loop that never ends is \<open>None\<close>.
\<close>

section \<open>Filters\<close>

record zbx_scheduler_filter =
  f_start :: int
  f_end :: int
  f_step :: int

record zbx_scheduler_interval =
  mdays :: "zbx_scheduler_filter list"
  wdays :: "zbx_scheduler_filter list"
  hours :: "zbx_scheduler_filter list"
  minutes :: "zbx_scheduler_filter list"
  seconds :: "zbx_scheduler_filter list"
  filter_level :: int

definition ZBX_SCHEDULER_FILTER_DAY :: int where "ZBX_SCHEDULER_FILTER_DAY = 1"
definition ZBX_SCHEDULER_FILTER_HOUR :: int where "ZBX_SCHEDULER_FILTER_HOUR = 2"
definition ZBX_SCHEDULER_FILTER_MINUTE :: int where "ZBX_SCHEDULER_FILTER_MINUTE = 3"
definition ZBX_SCHEDULER_FILTER_SECOND :: int where "ZBX_SCHEDULER_FILTER_SECOND = 4"

lemmas level_defs = ZBX_SCHEDULER_FILTER_DAY_def ZBX_SCHEDULER_FILTER_HOUR_def
  ZBX_SCHEDULER_FILTER_MINUTE_def ZBX_SCHEDULER_FILTER_SECOND_def

definition apply_step :: "zbx_scheduler_filter \<Rightarrow> int \<Rightarrow> int" where
  "apply_step f v =
     (let offset = (v - f_start f) mod f_step f in if offset \<noteq> 0 then v + (f_step f - offset) else v)"

text \<open>The loop over the chain, with the nearest filter that starts later.\<close>

fun nearest_loop :: "zbx_scheduler_filter list \<Rightarrow> int \<Rightarrow> zbx_scheduler_filter option \<Rightarrow> int option" where
  "nearest_loop [] v filter_next = map_option f_start filter_next"
| "nearest_loop (f # fs) v filter_next =
     (if f_start f \<le> v \<and> v \<le> f_end f \<and> apply_step f v \<le> f_end f then Some (apply_step f v)
      else nearest_loop fs v
        (if v < f_start f \<and> (case filter_next of None \<Rightarrow> True | Some g \<Rightarrow> f_start f < f_start g)
         then Some f else filter_next))"

definition scheduler_get_nearest_filter_value :: "zbx_scheduler_filter list \<Rightarrow> int \<Rightarrow> int option" where
  "scheduler_get_nearest_filter_value fs v = nearest_loop fs v None"

definition scheduler_validate_wday_filter :: "zbx_scheduler_interval \<Rightarrow> tm \<Rightarrow> bool" where
  "scheduler_validate_wday_filter interval t \<longleftrightarrow>
     wdays interval = [] \<or>
     (let v = tm_dayofweek t
      in list_ex (\<lambda>f. f_start f \<le> v \<and> v \<le> f_end f \<and> apply_step f v \<le> f_end f) (wdays interval))"

section \<open>Days\<close>

text \<open>The month length that the day search compares with: it adds 1970 to a year that counts from 1900.\<close>

definition days_limit :: "tm \<Rightarrow> int" where
  "days_limit t = zbx_day_in_month (tm_year t + 1970) (tm_mon t + 1)"

definition scheduler_get_wday_nextcheck :: "zbx_scheduler_interval \<Rightarrow> tm \<Rightarrow> bool \<times> tm" where
  "scheduler_get_wday_nextcheck interval t =
     (if wdays interval = [] then (True, t)
      else
        (let value_now = tm_dayofweek t in
         case scheduler_get_nearest_filter_value (wdays interval) value_now of
           Some value_next \<Rightarrow>
             (let t = t\<lparr>tm_mday := tm_mday t + (value_next - value_now)\<rparr> in (tm_mday t \<le> days_limit t, t))
         | None \<Rightarrow>
             (let t = t\<lparr>tm_mday := tm_mday t + (7 - value_now + 1)\<rparr> in
              case scheduler_get_nearest_filter_value (wdays interval) 1 of
                None \<Rightarrow> (False, t)
              | Some value_next \<Rightarrow>
                  (let t = t\<lparr>tm_mday := tm_mday t + (value_next - 1)\<rparr> in (tm_mday t \<le> days_limit t, t)))))"

partial_function (option) mday_loop :: "zbx_scheduler_interval \<Rightarrow> tm \<Rightarrow> (bool \<times> tm) option" where
  "mday_loop interval t =
     (case scheduler_get_nearest_filter_value (mdays interval) (tm_mday t) of
        None \<Rightarrow> Some (False, t)
      | Some d \<Rightarrow>
          if days_limit t < d then Some (False, t\<lparr>tm_mday := d\<rparr>)
          else if scheduler_validate_wday_filter interval (t\<lparr>tm_mday := d\<rparr>) then Some (True, t\<lparr>tm_mday := d\<rparr>)
          else if days_limit t < d + 1 then Some (False, t\<lparr>tm_mday := d + 1\<rparr>)
          else mday_loop interval (t\<lparr>tm_mday := d + 1\<rparr>))"

definition scheduler_get_day_nextcheck :: "zbx_scheduler_interval \<Rightarrow> tm \<Rightarrow> (bool \<times> tm) option" where
  "scheduler_get_day_nextcheck interval t =
     (if zbx_utc_time (tm_year t + 1900) (tm_mon t + 1) (tm_mday t) (tm_hour t) (tm_min t) (tm_sec t) = None
      then Some (False, t)
      else if mdays interval = [] then Some (scheduler_get_wday_nextcheck interval t)
      else mday_loop interval t)"

text \<open>The levels below the day.  \<open>None\<close> is the return value \<open>FAIL\<close>.\<close>

definition scheduler_get_filter_nextcheck ::
  "zbx_scheduler_interval \<Rightarrow> int \<Rightarrow> zbx_scheduler_filter list \<Rightarrow> int \<Rightarrow> int \<Rightarrow> int option" where
  "scheduler_get_filter_nextcheck interval level fs max_value v =
     (if max_value < v then None
      else if fs = [] then
        (if level < filter_level interval then Some v else if v = 0 then Some v else None)
      else scheduler_get_nearest_filter_value fs v)"

abbreviation "hour_nextcheck interval \<equiv>
  scheduler_get_filter_nextcheck interval ZBX_SCHEDULER_FILTER_HOUR (hours interval) 23"
abbreviation "minute_nextcheck interval \<equiv>
  scheduler_get_filter_nextcheck interval ZBX_SCHEDULER_FILTER_MINUTE (minutes interval) 59"
abbreviation "second_nextcheck interval \<equiv>
  scheduler_get_filter_nextcheck interval ZBX_SCHEDULER_FILTER_SECOND (seconds interval) 59"

section \<open>The four searches\<close>

definition next_month :: "tm \<Rightarrow> tm" where
  "next_month t =
     (let t = t\<lparr>tm_mon := tm_mon t + 1\<rparr>;
          t = (if 11 < tm_mon t then t\<lparr>tm_mon := 0, tm_year := tm_year t + 1\<rparr> else t)
      in t\<lparr>tm_mday := 1\<rparr>)"

partial_function (option) day_loop :: "zbx_scheduler_interval \<Rightarrow> tm \<Rightarrow> tm option" where
  "day_loop interval t =
     Option.bind (scheduler_get_day_nextcheck interval t)
       (\<lambda>(found, t'). if found then Some t' else day_loop interval (next_month t'))"

definition scheduler_apply_day_filter :: "zbx_scheduler_interval \<Rightarrow> tm \<Rightarrow> tm option" where
  "scheduler_apply_day_filter interval t =
     map_option (\<lambda>t'. if tm_mday t' \<noteq> tm_mday t \<or> tm_mon t' \<noteq> tm_mon t \<or> tm_year t' \<noteq> tm_year t
                     then t'\<lparr>tm_hour := 0, tm_min := 0, tm_sec := 0\<rparr> else t')
       (day_loop interval t)"

partial_function (option) hour_loop :: "zbx_scheduler_interval \<Rightarrow> tm \<Rightarrow> tm option" where
  "hour_loop interval t =
     (case hour_nextcheck interval (tm_hour t) of
        Some h \<Rightarrow> Some (t\<lparr>tm_hour := h\<rparr>)
      | None \<Rightarrow>
          Option.bind (scheduler_apply_day_filter interval (t\<lparr>tm_mday := tm_mday t + 1, tm_hour := 0\<rparr>))
            (hour_loop interval))"

definition scheduler_apply_hour_filter :: "zbx_scheduler_interval \<Rightarrow> tm \<Rightarrow> tm option" where
  "scheduler_apply_hour_filter interval t =
     map_option (\<lambda>t'. if tm_hour t' \<noteq> tm_hour t then t'\<lparr>tm_min := 0, tm_sec := 0\<rparr> else t')
       (hour_loop interval t)"

partial_function (option) minute_loop :: "zbx_scheduler_interval \<Rightarrow> tm \<Rightarrow> tm option" where
  "minute_loop interval t =
     (case minute_nextcheck interval (tm_min t) of
        Some m \<Rightarrow> Some (t\<lparr>tm_min := m\<rparr>)
      | None \<Rightarrow>
          Option.bind (scheduler_apply_hour_filter interval (t\<lparr>tm_hour := tm_hour t + 1, tm_min := 0\<rparr>))
            (minute_loop interval))"

definition scheduler_apply_minute_filter :: "zbx_scheduler_interval \<Rightarrow> tm \<Rightarrow> tm option" where
  "scheduler_apply_minute_filter interval t =
     map_option (\<lambda>t'. if tm_min t' \<noteq> tm_min t then t'\<lparr>tm_sec := 0\<rparr> else t') (minute_loop interval t)"

partial_function (option) scheduler_apply_second_filter :: "zbx_scheduler_interval \<Rightarrow> tm \<Rightarrow> tm option" where
  "scheduler_apply_second_filter interval t =
     (case second_nextcheck interval (tm_sec t) of
        Some s \<Rightarrow> Some (t\<lparr>tm_sec := s\<rparr>)
      | None \<Rightarrow>
          Option.bind (scheduler_apply_minute_filter interval (t\<lparr>tm_min := tm_min t + 1, tm_sec := 0\<rparr>))
            (scheduler_apply_second_filter interval))"

text \<open>The four calls of \<open>scheduler_get_nextcheck\<close>.\<close>

definition scheduler_apply_filters :: "zbx_scheduler_interval \<Rightarrow> tm \<Rightarrow> tm option" where
  "scheduler_apply_filters interval t =
     Option.bind (scheduler_apply_day_filter interval t) (\<lambda>t.
     Option.bind (scheduler_apply_hour_filter interval t) (\<lambda>t.
     Option.bind (scheduler_apply_minute_filter interval t) (scheduler_apply_second_filter interval)))"

declare mday_loop.simps [code] day_loop.simps [code] hour_loop.simps [code] minute_loop.simps [code]
  scheduler_apply_second_filter.simps [code]

end
