(* ===== verification/Sched_Day.thy ===== *)
theory Sched_Day
  imports Sched_Search
begin

text \<open>
  What the chains of filters and the search of a day do.  On a chain without lost values the nearest value is
  the least one that the chain has; the search of a day finds the first day that the filters allow, month by
  month, or the next month.
\<close>

section \<open>The nearest value of a chain\<close>

definition filter_has :: "zbx_scheduler_filter \<Rightarrow> int \<Rightarrow> bool" where
  "filter_has f v \<longleftrightarrow> f_start f \<le> v \<and> v \<le> f_end f \<and> (v - f_start f) mod f_step f = 0"

definition chain_has :: "zbx_scheduler_filter list \<Rightarrow> int \<Rightarrow> bool" where
  "chain_has fs v \<longleftrightarrow> list_ex (\<lambda>f. filter_has f v) fs"

definition wf_filter :: "int \<Rightarrow> int \<Rightarrow> zbx_scheduler_filter \<Rightarrow> bool" where
  "wf_filter lo hi f \<longleftrightarrow> lo \<le> f_start f \<and> f_start f \<le> f_end f \<and> f_end f \<le> hi \<and> 1 \<le> f_step f"

definition wf_chain :: "int \<Rightarrow> int \<Rightarrow> zbx_scheduler_filter list \<Rightarrow> bool" where
  "wf_chain lo hi fs \<longleftrightarrow> list_all (wf_filter lo hi) fs"

text \<open>The chains on which the code finds the nearest value: one filter, or filters without steps.\<close>

definition simple_chain :: "zbx_scheduler_filter list \<Rightarrow> bool" where
  "simple_chain fs \<longleftrightarrow> length fs \<le> 1 \<or> list_all (\<lambda>f. f_step f = 1) fs"

lemma apply_step_props:
  assumes "1 \<le> f_step f" "f_start f \<le> v"
  shows "v \<le> apply_step f v" "(apply_step f v - f_start f) mod f_step f = 0"
    "v \<le> u \<Longrightarrow> u < apply_step f v \<Longrightarrow> (u - f_start f) mod f_step f \<noteq> 0"
proof -
  let ?k = "f_step f" and ?x = "v - f_start f"
  define o' where "o' = ?x mod ?k"
  have o': "0 \<le> o'" "o' < ?k" using assms(1) by (simp_all add: o'_def)
  have e: "apply_step f v = (if o' \<noteq> 0 then v + (?k - o') else v)" by (simp add: apply_step_def Let_def o'_def)
  show "v \<le> apply_step f v" using o' by (simp add: e)
  have "(?x + (?k - o')) mod ?k = 0"
    by (metis (no_types) add.commute add_diff_eq mod_add_self1 mod_diff_left_eq o'_def add_diff_cancel_right' cancel_comm_monoid_add_class.diff_cancel diff_diff_eq2 mod_0 mod_diff_cong mod_mod_trivial)
  then show "(apply_step f v - f_start f) mod f_step f = 0"
    by (auto simp: e o'_def algebra_simps)
  show "(u - f_start f) mod ?k \<noteq> 0" if u: "v \<le> u" "u < apply_step f v"
  proof -
    have n: "o' \<noteq> 0" using u by (auto simp: e split: if_splits)
    define d where "d = u - v"
    have d: "0 \<le> d" "d < ?k - o'" using u n by (simp_all add: d_def e)
    have "(?x + d) mod ?k = (o' + d) mod ?k" by (simp add: o'_def mod_add_left_eq)
    also have "\<dots> = o' + d" using o' d by (intro mod_pos_pos_trivial) auto
    finally show ?thesis using o' n d by (simp add: d_def algebra_simps)
  qed
qed

definition covers :: "zbx_scheduler_filter \<Rightarrow> int \<Rightarrow> bool" where
  "covers f v \<longleftrightarrow> f_start f \<le> v \<and> v \<le> f_end f"

lemma nearest_loop_steps1:
  assumes "list_all (\<lambda>f. f_step f = 1 \<and> f_start f \<le> f_end f) fs"
  shows "case nearest_loop fs v nxt of
           None \<Rightarrow> nxt = None \<and> (\<forall>f\<in>set fs. f_end f < v)
         | Some w \<Rightarrow>
             w = v \<and> (\<exists>f\<in>set fs. covers f v) \<or>
             (\<forall>f\<in>set fs. \<not> covers f v) \<and>
             ((\<exists>g\<in>set fs. v < f_start g \<and> w = f_start g) \<or> (\<exists>g. nxt = Some g \<and> w = f_start g)) \<and>
             (\<forall>f\<in>set fs. v < f_start f \<longrightarrow> w \<le> f_start f) \<and> (\<forall>g. nxt = Some g \<longrightarrow> w \<le> f_start g)"
  using assms
proof (induction fs v nxt rule: nearest_loop.induct)
  case (1 v nxt)
  then show ?case by (cases nxt) auto
next
  case (2 f fs v nxt)
  have s: "apply_step f v = v" using 2(2) by (simp add: apply_step_def Let_def)
  show ?case
  proof (cases "covers f v")
    case True
    then show ?thesis using s by (simp add: covers_def)
  next
    case False
    define n where "n = (if v < f_start f \<and> (case nxt of None \<Rightarrow> True | Some g \<Rightarrow> f_start f < f_start g) then Some f else nxt)"
    have r: "nearest_loop (f # fs) v nxt = nearest_loop fs v n" using False s by (auto simp: covers_def n_def)
    have "\<not> (f_start f \<le> v \<and> v \<le> f_end f \<and> apply_step f v \<le> f_end f)" using False by (auto simp: covers_def)
    from 2(1) [OF this, folded n_def] 2(2) have ih: "case nearest_loop fs v n of
           None \<Rightarrow> n = None \<and> (\<forall>f\<in>set fs. f_end f < v)
         | Some w \<Rightarrow>
             w = v \<and> (\<exists>f\<in>set fs. covers f v) \<or>
             (\<forall>f\<in>set fs. \<not> covers f v) \<and>
             ((\<exists>g\<in>set fs. v < f_start g \<and> w = f_start g) \<or> (\<exists>g. n = Some g \<and> w = f_start g)) \<and>
             (\<forall>f\<in>set fs. v < f_start f \<longrightarrow> w \<le> f_start f) \<and> (\<forall>g. n = Some g \<longrightarrow> w \<le> f_start g)" by simp
    show ?thesis
    proof (cases "nearest_loop fs v n")
      case None
      with ih have "n = None" "\<forall>f\<in>set fs. f_end f < v" by auto
      then show ?thesis using None False unfolding r by (auto simp: n_def covers_def split: if_splits option.splits)
    next
      case (Some w)
      show ?thesis using ih False unfolding r Some
        by (cases nxt) (auto simp: n_def covers_def split: if_splits)
    qed
  qed
qed

lemma nearest_single:
  assumes "1 \<le> f_step f" "f_start f \<le> f_end f"
  shows "case scheduler_get_nearest_filter_value [f] v of
           None \<Rightarrow> \<forall>u\<ge>v. \<not> filter_has f u
         | Some w \<Rightarrow> v \<le> w \<and> filter_has f w \<and> (\<forall>u. v \<le> u \<and> u < w \<longrightarrow> \<not> filter_has f u)"
proof (cases "v < f_start f")
  case True
  then show ?thesis using assms by (auto simp: scheduler_get_nearest_filter_value_def filter_has_def)
next
  case False
  then have s: "f_start f \<le> v" by simp
  note a = apply_step_props [OF assms(1) s]
  show ?thesis
  proof (cases "apply_step f v \<le> f_end f")
    case True
    then show ?thesis using s a by (auto simp: scheduler_get_nearest_filter_value_def filter_has_def)
  next
    case over: False
    have "\<not> filter_has f u" if "v \<le> u" for u
      using a(3) [OF that] over that by (cases "u < apply_step f v") (auto simp: filter_has_def)
    then show ?thesis using s over False by (auto simp: scheduler_get_nearest_filter_value_def)
  qed
qed

lemma nearest_exact:
  assumes "wf_chain lo hi fs" "simple_chain fs"
  shows "case scheduler_get_nearest_filter_value fs v of
           None \<Rightarrow> \<forall>u\<ge>v. \<not> chain_has fs u
         | Some w \<Rightarrow> v \<le> w \<and> chain_has fs w \<and> (\<forall>u. v \<le> u \<and> u < w \<longrightarrow> \<not> chain_has fs u)"
proof (cases "length fs \<le> 1")
  case True
  then consider "fs = []" | f where "fs = [f]" by (cases fs rule: remdups_adj.cases) auto
  then show ?thesis
  proof cases
    case 1
    then show ?thesis by (simp add: scheduler_get_nearest_filter_value_def chain_has_def)
  next
    case (2 f)
    then show ?thesis using nearest_single [of f v] assms(1)
      by (auto simp: chain_has_def wf_chain_def wf_filter_def split: option.splits)
  qed
next
  case False
  then have all: "list_all (\<lambda>f. f_step f = 1 \<and> f_start f \<le> f_end f) fs"
    using assms by (auto simp: simple_chain_def wf_chain_def wf_filter_def list_all_iff)
  have has: "chain_has fs u \<longleftrightarrow> (\<exists>f\<in>set fs. covers f u)" for u
    using all by (auto simp: chain_has_def filter_has_def covers_def list_ex_iff list_all_iff)
  show ?thesis
  proof (cases "scheduler_get_nearest_filter_value fs v")
    case None
    then have "\<forall>f\<in>set fs. f_end f < v"
      using nearest_loop_steps1 [OF all, where v = v and nxt = None] by (simp add: scheduler_get_nearest_filter_value_def)
    then show ?thesis using None unfolding has by (force simp: covers_def)
  next
    case (Some w)
    from nearest_loop_steps1 [OF all, where v = v and nxt = None] Some
    consider "w = v" "\<exists>f\<in>set fs. covers f v"
      | g where "\<forall>f\<in>set fs. \<not> covers f v" "g \<in> set fs" "v < f_start g" "w = f_start g"
         "\<forall>f\<in>set fs. v < f_start f \<longrightarrow> w \<le> f_start f"
      by (auto simp: scheduler_get_nearest_filter_value_def)
    then show ?thesis
    proof cases
      case 1
      then show ?thesis using Some by (auto simp: has)
    next
      case (2 g)
      have "covers g w" using 2 all by (auto simp: covers_def list_all_iff)
      moreover have "\<not> covers f u" if "f \<in> set fs" "v \<le> u" "u < w" for f u
        using that 2(1,5) by (fastforce simp: covers_def)
      ultimately show ?thesis using Some 2(2-4) unfolding has by auto
    qed
  qed
qed

section \<open>The next day\<close>

definition wf_interval :: "zbx_scheduler_interval \<Rightarrow> bool" where
  "wf_interval I \<longleftrightarrow> wf_chain 1 31 (mdays I) \<and> wf_chain 1 7 (wdays I) \<and> wf_chain 0 23 (hours I) \<and>
     wf_chain 0 59 (minutes I) \<and> wf_chain 0 59 (seconds I)"

text \<open>
  The intervals on which no value is lost: a chain has one filter or no steps, and a filter of week days
  beside one of month days has no steps.
\<close>

definition simple_interval :: "zbx_scheduler_interval \<Rightarrow> bool" where
  "simple_interval I \<longleftrightarrow> simple_chain (mdays I) \<and> simple_chain (wdays I) \<and> simple_chain (hours I) \<and>
     simple_chain (minutes I) \<and> simple_chain (seconds I) \<and>
     (mdays I = [] \<or> list_all (\<lambda>f. f_step f = 1) (wdays I))"

definition mday_matches :: "zbx_scheduler_interval \<Rightarrow> tm \<Rightarrow> bool" where
  "mday_matches I t \<longleftrightarrow> mdays I = [] \<or> chain_has (mdays I) (tm_mday t)"

definition wday_matches :: "zbx_scheduler_interval \<Rightarrow> tm \<Rightarrow> bool" where
  "wday_matches I t \<longleftrightarrow> wdays I = [] \<or> chain_has (wdays I) (tm_dayofweek t)"

definition day_matches :: "zbx_scheduler_interval \<Rightarrow> tm \<Rightarrow> bool" where
  "day_matches I t \<longleftrightarrow> mday_matches I t \<and> wday_matches I t"

abbreviation at_mday :: "tm \<Rightarrow> int \<Rightarrow> tm" where
  "at_mday t d \<equiv> t\<lparr>tm_mday := d\<rparr>"

lemma dayofweek_range: "1 \<le> tm_dayofweek t" "tm_dayofweek t \<le> 7"
  by (simp_all add: tm_dayofweek_def calculate_dayofweek_def Let_def)

lemma dayofweek_later: "tm_dayofweek (at_mday t (tm_mday t + k)) = (tm_dayofweek t - 1 + k) mod 7 + 1"
proof -
  obtain a where a: "\<And>d. calculate_dayofweek (tm_year t + 1900) (tm_mon t + 1) d = (a + d - 1) mod 7 + 1"
    unfolding calculate_dayofweek_def Let_def by blast
  have "(a + (d + k) - 1) mod 7 = ((a + d - 1) mod 7 + k) mod 7" for d
    using mod_add_left_eq [of "a + d - 1" 7 k] by (simp add: algebra_simps)
  then show ?thesis by (simp add: tm_dayofweek_def a)
qed

lemma dayofweek_later_cases:
  "1 \<le> tm_dayofweek t + k \<Longrightarrow> tm_dayofweek t + k \<le> 7 \<Longrightarrow> tm_dayofweek (at_mday t (tm_mday t + k)) = tm_dayofweek t + k"
  "8 \<le> tm_dayofweek t + k \<Longrightarrow> tm_dayofweek t + k \<le> 14 \<Longrightarrow> tm_dayofweek (at_mday t (tm_mday t + k)) = tm_dayofweek t + k - 7"
  unfolding dayofweek_later
  by (simp_all add: mod_pos_pos_trivial) presburger

lemma chain_has_first:
  assumes "wf_chain lo hi fs" "fs \<noteq> []"
  shows "\<exists>u\<ge>lo. chain_has fs u"
  using assms by (cases fs) (auto simp: chain_has_def wf_chain_def wf_filter_def filter_has_def)

lemma chain_has_range:
  assumes "wf_chain lo hi fs" "chain_has fs v"
  shows "lo \<le> v" "v \<le> hi"
  using assms by (auto simp: chain_has_def wf_chain_def wf_filter_def filter_has_def list_ex_iff list_all_iff)

lemma wday_nextcheck_spec:
  assumes wf: "wf_chain 1 7 (wdays I)" "simple_chain (wdays I)"
  shows "\<exists>d. scheduler_get_wday_nextcheck I t = (wdays I = [] \<or> d \<le> days_limit t, at_mday t d) \<and> tm_mday t \<le> d \<and>
           wday_matches I (at_mday t d) \<and> (\<forall>e. tm_mday t \<le> e \<and> e < d \<longrightarrow> \<not> wday_matches I (at_mday t e)) \<and>
           (wdays I = [] \<longrightarrow> d = tm_mday t)"
proof (cases "wdays I = []")
  case True
  then show ?thesis by (intro exI [of _ "tm_mday t"]) (simp add: scheduler_get_wday_nextcheck_def wday_matches_def)
next
  case False
  let ?v = "tm_dayofweek t" and ?near = "scheduler_get_nearest_filter_value (wdays I)"
  note ex = nearest_exact [OF wf]
  have v: "1 \<le> ?v" "?v \<le> 7" by (rule dayofweek_range)+
  have e_eq: "at_mday t e = at_mday t (tm_mday t + (e - tm_mday t))" for e by simp
  show ?thesis
  proof (cases "?near ?v")
    case (Some w)
    with ex [of ?v] have w: "?v \<le> w" "chain_has (wdays I) w" "\<And>u. ?v \<le> u \<Longrightarrow> u < w \<Longrightarrow> \<not> chain_has (wdays I) u" by auto
    have w7: "w \<le> 7" using chain_has_range(2) [OF wf(1) w(2)] .
    let ?d = "tm_mday t + (w - ?v)"
    have "\<not> wday_matches I (at_mday t e)" if "tm_mday t \<le> e" "e < ?d" for e
      using that w(1) w(3) [of "?v + (e - tm_mday t)"] v w7 dayofweek_later_cases(1) [of t "e - tm_mday t"] False
      by (simp add: wday_matches_def)
    moreover have "wday_matches I (at_mday t ?d)"
      using w v w7 dayofweek_later_cases(1) [of t "w - ?v"] by (simp add: wday_matches_def)
    ultimately show ?thesis using Some w(1) False
      by (intro exI [of _ ?d]) (simp add: scheduler_get_wday_nextcheck_def Let_def days_limit_def)
  next
    case None
    with ex [of ?v] have n: "\<And>u. ?v \<le> u \<Longrightarrow> \<not> chain_has (wdays I) u" by auto
    obtain w where w: "?near 1 = Some w" "1 \<le> w" "chain_has (wdays I) w" "\<And>u. 1 \<le> u \<Longrightarrow> u < w \<Longrightarrow> \<not> chain_has (wdays I) u"
      using ex [of 1] chain_has_first [OF wf(1) False] by (cases "?near 1") auto
    have w7: "w \<le> 7" using chain_has_range(2) [OF wf(1) w(3)] .
    have wv: "w < ?v" using n [of w] w(3) by (cases "w < ?v") auto
    let ?d = "tm_mday t + (7 - ?v + w)"
    have "\<not> wday_matches I (at_mday t e)" if "tm_mday t \<le> e" "e < ?d" for e
    proof (cases "?v + (e - tm_mday t) \<le> 7")
      case True
      then show ?thesis
        using that v n [of "?v + (e - tm_mday t)"] dayofweek_later_cases(1) [of t "e - tm_mday t"] False
        by (simp add: wday_matches_def)
    next
      case le: False
      then show ?thesis
        using that v w7 w(4) [of "?v + (e - tm_mday t) - 7"] dayofweek_later_cases(2) [of t "e - tm_mday t"] False
        by (simp add: wday_matches_def)
    qed
    moreover have "wday_matches I (at_mday t ?d)"
      using w v w7 dayofweek_later_cases(2) [of t "7 - ?v + w"] by (simp add: wday_matches_def)
    ultimately show ?thesis using None w(1,2) v False
      by (intro exI [of _ ?d]) (simp add: scheduler_get_wday_nextcheck_def Let_def days_limit_def algebra_simps)
  qed
qed

lemma validate_wday_steps1:
  assumes "list_all (\<lambda>f. f_step f = 1) (wdays I)"
  shows "scheduler_validate_wday_filter I t \<longleftrightarrow> wday_matches I t"
  using assms
  by (auto simp: scheduler_validate_wday_filter_def wday_matches_def chain_has_def filter_has_def apply_step_def
       Let_def list_ex_iff list_all_iff)

lemma days_limit_at_mday [simp]: "days_limit (at_mday t d) = days_limit t"
  by (simp add: days_limit_def)

lemma days_limit_le: "days_limit t \<le> 31"
  by (simp add: days_limit_def zbx_day_in_month_bounds)

text \<open>The result of the search of a day in one month: found, and the time with the day changed.\<close>

definition day_result :: "zbx_scheduler_interval \<Rightarrow> tm \<Rightarrow> bool \<Rightarrow> int \<Rightarrow> bool" where
  "day_result I t found d \<longleftrightarrow>
     (if found then tm_mday t \<le> d \<and> (d \<le> days_limit t \<or> d = tm_mday t) \<and> day_matches I (at_mday t d) \<and>
        (\<forall>e. tm_mday t \<le> e \<and> e < d \<longrightarrow> \<not> day_matches I (at_mday t e))
      else \<forall>e. tm_mday t \<le> e \<and> e \<le> days_limit t \<longrightarrow> \<not> day_matches I (at_mday t e))"

lemma mday_loop_spec:
  assumes wf: "wf_chain 1 31 (mdays I)" "simple_chain (mdays I)" "mdays I \<noteq> []" "list_all (\<lambda>f. f_step f = 1) (wdays I)"
  shows "\<exists>found d. mday_loop I t = Some (found, at_mday t d) \<and> day_result I t found d"
proof (induction "nat (32 - tm_mday t)" arbitrary: t rule: less_induct)
  case less
  note ex = nearest_exact [OF wf(1,2), of "tm_mday t"]
  have day: "day_matches I (at_mday t e) \<longleftrightarrow> chain_has (mdays I) e \<and> wday_matches I (at_mday t e)" for e
    using wf(3) by (simp add: day_matches_def mday_matches_def)
  show ?case
  proof (cases "scheduler_get_nearest_filter_value (mdays I) (tm_mday t)")
    case None
    then have "mday_loop I t = Some (False, at_mday t (tm_mday t))" by (simp add: mday_loop.simps)
    moreover have "day_result I t False (tm_mday t)" using ex None by (auto simp: day_result_def day)
    ultimately show ?thesis by blast
  next
    case (Some d)
    with ex have d: "tm_mday t \<le> d" "chain_has (mdays I) d" "\<And>u. tm_mday t \<le> u \<Longrightarrow> u < d \<Longrightarrow> \<not> chain_has (mdays I) u"
      by auto
    have loop: "mday_loop I t =
        (if days_limit t < d then Some (False, at_mday t d)
         else if wday_matches I (at_mday t d) then Some (True, at_mday t d)
         else if days_limit t < d + 1 then Some (False, at_mday t (d + 1))
         else mday_loop I (at_mday t (d + 1)))"
      using Some by (simp add: mday_loop.simps [of I t] validate_wday_steps1 [OF wf(4)])
    have before: "\<not> day_matches I (at_mday t e)" if "tm_mday t \<le> e" "e < d" for e
      using d(3) that by (simp add: day)
    consider "days_limit t < d" | "d \<le> days_limit t" "wday_matches I (at_mday t d)"
      | "d = days_limit t" "\<not> wday_matches I (at_mday t d)"
      | "d < days_limit t" "\<not> wday_matches I (at_mday t d)" by linarith
    then show ?thesis
    proof cases
      case 1
      then have "day_result I t False d" using before by (auto simp: day_result_def)
      with 1 show ?thesis by (auto simp: loop)
    next
      case 2
      then have "day_result I t True d" using before d by (auto simp: day_result_def day)
      with 2 show ?thesis by (auto simp: loop)
    next
      case 3
      then have "\<not> day_matches I (at_mday t e)" if "tm_mday t \<le> e" "e \<le> days_limit t" for e
        using before [OF that(1)] that day by (cases "e < d") (auto simp: 3(1))
      then have "day_result I t False (d + 1)" by (simp add: day_result_def)
      with 3 show ?thesis by (auto simp: loop)
    next
      case 4
      let ?t = "at_mday t (d + 1)"
      have "nat (32 - tm_mday ?t) < nat (32 - tm_mday t)" using 4(1) d(1) days_limit_le [of t] by simp
      from less [OF this] obtain found d' where ih: "mday_loop I ?t = Some (found, at_mday t d')" "day_result I ?t found d'"
        by auto
      have skip: "\<not> day_matches I (at_mday t e)" if "tm_mday t \<le> e" "e < d + 1" for e
        using before [OF that(1)] that day 4(2) by (cases "e < d") auto
      have "day_result I t found d'"
      proof (cases found)
        case True
        then have r: "d + 1 \<le> d'" "d' \<le> days_limit t \<or> d' = d + 1" "day_matches I (at_mday t d')"
          "\<And>e. d + 1 \<le> e \<Longrightarrow> e < d' \<Longrightarrow> \<not> day_matches I (at_mday t e)"
          using ih(2) by (simp_all add: day_result_def)
        have "\<not> day_matches I (at_mday t e)" if "tm_mday t \<le> e" "e < d'" for e
          using skip [OF that(1)] r(4) [of e] that by (cases "e < d + 1") auto
        then show ?thesis using True r d(1) 4(1) by (auto simp: day_result_def)
      next
        case False
        then have r: "\<And>e. d + 1 \<le> e \<Longrightarrow> e \<le> days_limit t \<Longrightarrow> \<not> day_matches I (at_mday t e)"
          using ih(2) by (simp add: day_result_def)
        have "\<not> day_matches I (at_mday t e)" if "tm_mday t \<le> e" "e \<le> days_limit t" for e
          using skip [OF that(1)] r [of e] that by (cases "e < d + 1") auto
        then show ?thesis using False by (simp add: day_result_def)
      qed
      with 4 ih(1) show ?thesis by (auto simp: loop)
    qed
  qed
qed

lemma day_nextcheck_spec:
  assumes "wf_interval I" "simple_interval I"
    and "zbx_utc_time (tm_year t + 1900) (tm_mon t + 1) (tm_mday t) (tm_hour t) (tm_min t) (tm_sec t) \<noteq> None"
  shows "\<exists>found d. scheduler_get_day_nextcheck I t = Some (found, at_mday t d) \<and> day_result I t found d"
proof (cases "mdays I = []")
  case True
  obtain d where d: "scheduler_get_wday_nextcheck I t = (wdays I = [] \<or> d \<le> days_limit t, at_mday t d)" "tm_mday t \<le> d"
    "wday_matches I (at_mday t d)" "\<And>e. tm_mday t \<le> e \<Longrightarrow> e < d \<Longrightarrow> \<not> wday_matches I (at_mday t e)"
    "wdays I = [] \<Longrightarrow> d = tm_mday t"
    using wday_nextcheck_spec [of I t] assms(1,2) unfolding wf_interval_def simple_interval_def by blast
  have "day_result I t (wdays I = [] \<or> d \<le> days_limit t) d"
    using True d(2-5) by (auto simp: day_result_def day_matches_def mday_matches_def)
  then show ?thesis using True assms(3) d(1) by (auto simp: scheduler_get_day_nextcheck_def)
next
  case False
  then show ?thesis
    using mday_loop_spec [of I t] assms by (auto simp: wf_interval_def simple_interval_def scheduler_get_day_nextcheck_def)
qed

section \<open>The search of a day\<close>

definition day_key :: "tm \<Rightarrow> int" where
  "day_key t = (12 * tm_year t + tm_mon t) * 32 + tm_mday t"

definition feb29 :: "tm \<Rightarrow> bool" where
  "feb29 t \<longleftrightarrow> tm_mon t = 1 \<and> tm_mday t = 29"

text \<open>What a search starts from: a day may be the one after the last of a month.\<close>

definition pre_day :: "tm \<Rightarrow> bool" where
  "pre_day t \<longleftrightarrow> 70 \<le> tm_year t \<and> 0 \<le> tm_mon t \<and> tm_mon t \<le> 11 \<and> 1 \<le> tm_mday t \<and> tm_mday t \<le> 32 \<and>
     0 \<le> tm_hour t \<and> tm_hour t \<le> 23 \<and> 0 \<le> tm_min t \<and> tm_min t \<le> 59 \<and> 0 \<le> tm_sec t \<and> tm_sec t \<le> 59"

definition ok_day :: "zbx_scheduler_interval \<Rightarrow> tm \<Rightarrow> bool" where
  "ok_day I t \<longleftrightarrow> day_matches I t \<and> 70 \<le> tm_year t \<and> 0 \<le> tm_mon t \<and> tm_mon t \<le> 11 \<and> 1 \<le> tm_mday t \<and> tm_mday t \<le> 31 \<and>
     (tm_mday t \<le> zbx_day_in_month (tm_year t + 1900) (tm_mon t + 1) \<or> feb29 t)"

text \<open>A time that the search must not miss: it matches, is before 2038 and not on the 29th of February.\<close>

definition day_target :: "zbx_scheduler_interval \<Rightarrow> tm \<Rightarrow> bool" where
  "day_target I x \<longleftrightarrow> valid_tm x \<and> tm_year x \<le> 137 \<and> \<not> feb29 x \<and> day_matches I x"

lemma leap_years_bounds:
  assumes "1971 \<le> y" "y \<le> 2038"
  shows "476 \<le> ZBX_LEAP_YEARS y" "ZBX_LEAP_YEARS y \<le> 495"
proof -
  have "492 \<le> (y - 1) div 4" "(y - 1) div 4 \<le> 509" "19 \<le> (y - 1) div 100" "(y - 1) div 100 \<le> 20" "4 \<le> (y - 1) div 400" "(y - 1) div 400 \<le> 5"
    using assms zdiv_mono1 [of 1970 "y - 1" 4] zdiv_mono1 [of "y - 1" 2037 4] zdiv_mono1 [of 1970 "y - 1" 100]
      zdiv_mono1 [of "y - 1" 2037 100] zdiv_mono1 [of 1970 "y - 1" 400] zdiv_mono1 [of "y - 1" 2037 400] by simp_all
  then show "476 \<le> ZBX_LEAP_YEARS y" "ZBX_LEAP_YEARS y \<le> 495" by (simp_all add: ZBX_LEAP_YEARS_def)
qed

lemma days_before_bounds:
  assumes "1970 \<le> y" "y \<le> 2037" "1 \<le> mon" "mon \<le> 12"
  shows "0 \<le> days_before y mon" "days_before y mon \<le> 24807"
proof -
  define l where "l = ZBX_LEAP_YEARS (if 2 < mon then y + 1 else y)"
  have m: "0 \<le> month_day ! nat (mon - 1)" "month_day ! nat (mon - 1) \<le> 334"
    using month_cases [OF assms(3,4)] by (elim disjE; simp add: month_day_def)+
  have l: "(y = 1970 \<longrightarrow> l = 477) \<and> 476 \<le> l \<and> l \<le> 495"
    using leap_years_bounds [of "if 2 < mon then y + 1 else y"] assms(1,2)
    by (cases "y = 1970") (simp_all add: l_def ZBX_LEAP_YEARS_def)
  have e: "days_before y mon = (y - 1970) * 365 + (l - 477) + month_day ! nat (mon - 1)"
    by (simp add: days_before_def l_def ZBX_LEAP_YEARS_def [of 1970])
  show "0 \<le> days_before y mon" using l m assms(1) unfolding e by (cases "y = 1970") auto
  from l have "l \<le> 495" by simp
  moreover have "(y - 1970) * 365 \<le> 24455" using assms(2) by simp
  ultimately show "days_before y mon \<le> 24807" using m(2) unfolding e by simp
qed

lemma utc_time_before_2038:
  assumes "70 \<le> tm_year t" "tm_year t \<le> 137" "0 \<le> tm_mon t" "tm_mon t \<le> 11" "1 \<le> tm_mday t"
    "tm_mday t \<le> zbx_day_in_month (tm_year t + 1900) (tm_mon t + 1)"
    "0 \<le> tm_hour t" "tm_hour t \<le> 23" "0 \<le> tm_min t" "tm_min t \<le> 59" "0 \<le> tm_sec t" "tm_sec t \<le> 59"
  shows "zbx_utc_time (tm_year t + 1900) (tm_mon t + 1) (tm_mday t) (tm_hour t) (tm_min t) (tm_sec t) \<noteq> None"
proof -
  let ?u = "utc_seconds (tm_year t + 1900) (tm_mon t + 1) (tm_mday t) (tm_hour t) (tm_min t) (tm_sec t)"
  have b: "0 \<le> days_before (tm_year t + 1900) (tm_mon t + 1)" "days_before (tm_year t + 1900) (tm_mon t + 1) \<le> 24807"
    using days_before_bounds [of "tm_year t + 1900" "tm_mon t + 1"] assms by simp_all
  have "tm_mday t \<le> 31" using assms(6) zbx_day_in_month_bounds(2) by (rule order_trans)
  then have "0 \<le> ?u" "?u < 2 ^ 31" using assms b unfolding utc_seconds_days by simp_all
  then have "int32 ?u = ?u" by (simp add: int32_def)
  with \<open>0 \<le> ?u\<close> assms show ?thesis by (simp add: zbx_utc_time_def)
qed

lemma next_month_key:
  assumes "0 \<le> tm_mon t" "tm_mon t \<le> 11"
  shows "12 * tm_year (next_month t) + tm_mon (next_month t) = 12 * tm_year t + tm_mon t + 1"
    "0 \<le> tm_mon (next_month t)" "tm_mon (next_month t) \<le> 11" "tm_mday (next_month t) = 1"
    "tm_year t \<le> tm_year (next_month t)"
  using assms by (auto simp: next_month_def Let_def)

lemma next_month_time [simp]:
  "tm_hour (next_month t) = tm_hour t" "tm_min (next_month t) = tm_min t" "tm_sec (next_month t) = tm_sec t"
  "tm_wday (next_month t) = tm_wday t" "tm_isdst (next_month t) = tm_isdst t"
  by (auto simp: next_month_def Let_def)

text \<open>Two times with the same time of the day.\<close>

definition same_time :: "tm \<Rightarrow> tm \<Rightarrow> bool" where
  "same_time t t' \<longleftrightarrow> tm_hour t' = tm_hour t \<and> tm_min t' = tm_min t \<and> tm_sec t' = tm_sec t \<and> tm_wday t' = tm_wday t \<and> tm_isdst t' = tm_isdst t"

lemma same_time_trans: "same_time a b \<Longrightarrow> same_time b c \<Longrightarrow> same_time a c" 
  by (simp add: same_time_def)

lemma days_limit_not_feb29:
  assumes "d \<le> zbx_day_in_month (tm_year t + 1900) (tm_mon t + 1)" "\<not> (tm_mon t = 1 \<and> d = 29)"
  shows "d \<le> days_limit t"
  using assms by (auto simp: days_limit_def zbx_day_in_month_def month_table_def split: if_splits)

lemma days_limit_real:
  assumes "d \<le> days_limit t" "\<not> (tm_mon t = 1 \<and> d = 29)"
  shows "d \<le> zbx_day_in_month (tm_year t + 1900) (tm_mon t + 1)"
  using assms by (auto simp: days_limit_def zbx_day_in_month_def month_table_def split: if_splits)

lemma day_loop_spec:
  assumes I: "wf_interval I" "simple_interval I" and x: "day_target I x"
    and "pre_day t" "day_key t \<le> day_key x"
  shows "\<exists>t'. day_loop I t = Some t' \<and> ok_day I t' \<and> day_key t \<le> day_key t' \<and> day_key t' \<le> day_key x \<and> same_time t t'"
  using assms(4-5)
proof (induction "nat (12 * tm_year x + tm_mon x - (12 * tm_year t + tm_mon t))" arbitrary: t rule: less_induct)
  case less
  note t = less.prems(1) [unfolded pre_day_def]
  have xv: "valid_tm x" "tm_year x \<le> 137" "\<not> feb29 x" "day_matches I x" using x by (simp_all add: day_target_def)
  have xm: "1 \<le> tm_mday x" "tm_mday x \<le> zbx_day_in_month (tm_year x + 1900) (tm_mon x + 1)" "0 \<le> tm_mon x" "tm_mon x \<le> 11"
    using xv(1) by (simp_all add: valid_tm_def)
  have x31: "tm_mday x \<le> 31" using xm(2) zbx_day_in_month_bounds(2) by (rule order_trans)
  let ?mt = "12 * tm_year t + tm_mon t" and ?mx = "12 * tm_year x + tm_mon x"
  have mon: "?mt \<le> ?mx" using less.prems(2) t x31 by (simp add: day_key_def)
  have year: "tm_year t \<le> 137" using mon xv(2) xm(3,4) t by linarith
  define b where "b = (zbx_utc_time (tm_year t + 1900) (tm_mon t + 1) (tm_mday t) (tm_hour t) (tm_min t) (tm_sec t) \<noteq> None)"
  have b: "b \<longleftrightarrow> tm_mday t \<le> zbx_day_in_month (tm_year t + 1900) (tm_mon t + 1)"
    using utc_time_before_2038 [of t] t year by (auto simp: b_def zbx_utc_time_def)
  obtain found d where r: "scheduler_get_day_nextcheck I t = Some (found, at_mday t d)" "b \<Longrightarrow> day_result I t found d"
    "\<not> b \<Longrightarrow> \<not> found"
  proof (cases b)
    case True
    then show ?thesis using day_nextcheck_spec [OF I, of t] that by (auto simp: b_def)
  next
    case False
    then show ?thesis using that [of False "tm_mday t"] by (simp add: b_def scheduler_get_day_nextcheck_def)
  qed
  show ?case
  proof (cases found)
    case True
    then have "b" using r(3) by blast
    with r(2) True have d: "tm_mday t \<le> d" "d \<le> days_limit t \<or> d = tm_mday t" "day_matches I (at_mday t d)"
      "\<And>e. tm_mday t \<le> e \<Longrightarrow> e < d \<Longrightarrow> \<not> day_matches I (at_mday t e)" by (simp_all add: day_result_def)
    have real: "d \<le> zbx_day_in_month (tm_year t + 1900) (tm_mon t + 1) \<or> tm_mon t = 1 \<and> d = 29"
      using d(2) b \<open>b\<close> days_limit_real [of d t] by auto
    have d31: "d \<le> 31" using real zbx_day_in_month_bounds(2) [of "tm_year t + 1900" "tm_mon t + 1"] by auto
    have "d \<le> tm_mday x" if "?mt = ?mx"
    proof (rule ccontr)
      assume "\<not> d \<le> tm_mday x"
      moreover have "tm_year t = tm_year x" "tm_mon t = tm_mon x" using that t xm by presburger+
      moreover from this have "day_matches I (at_mday t (tm_mday x))"
        using xv(4) by (simp add: day_matches_def mday_matches_def wday_matches_def tm_dayofweek_def)
      moreover have "tm_mday t \<le> tm_mday x" using that less.prems(2) by (simp add: day_key_def)
      ultimately show False using d(4) [of "tm_mday x"] by simp
    qed
    then have "day_key (at_mday t d) \<le> day_key x"
      using mon d31 xm(1) by (cases "?mt = ?mx") (simp_all add: day_key_def)
    moreover have "ok_day I (at_mday t d)" using d real d31 t by (auto simp: ok_day_def feb29_def)
    moreover have "day_loop I t = Some (at_mday t d)" using r(1) True by (simp add: day_loop.simps [of I t])
    ultimately show ?thesis using d(1) by (intro exI [of _ "at_mday t d"]) (simp add: day_key_def same_time_def)
  next
    case False
    let ?n = "next_month (at_mday t d)"
    have ne: "?mt \<noteq> ?mx"
    proof
      assume eq: "?mt = ?mx"
      have ym: "tm_year t = tm_year x" "tm_mon t = tm_mon x" using eq t xm by presburger+
      have le: "tm_mday t \<le> tm_mday x" using eq less.prems(2) by (simp add: day_key_def)
      then have "b" using b xm(2) ym by simp
      moreover have "tm_mday x \<le> days_limit t"
        using days_limit_not_feb29 [of "tm_mday x" t] xm(2) xv(3) ym by (simp add: feb29_def)
      moreover have "day_matches I (at_mday t (tm_mday x))"
        using xv(4) ym by (simp add: day_matches_def mday_matches_def wday_matches_def tm_dayofweek_def)
      ultimately show False using r(2) False le by (simp add: day_result_def)
    qed
    have n: "12 * tm_year ?n + tm_mon ?n = ?mt + 1" "0 \<le> tm_mon ?n" "tm_mon ?n \<le> 11" "tm_mday ?n = 1" "tm_year t \<le> tm_year ?n"
      using next_month_key [of "at_mday t d"] t by simp_all
    have pre: "pre_day ?n" using n t by (simp add: pre_day_def)
    have key: "day_key ?n \<le> day_key x" "day_key t \<le> day_key ?n" using n ne mon xm(1) t by (simp_all add: day_key_def)
    have "nat (?mx - (12 * tm_year ?n + tm_mon ?n)) < nat (?mx - ?mt)" using n(1) ne mon by simp
    from less.hyps [OF this pre key(1)] obtain t' where t': "day_loop I ?n = Some t'" "ok_day I t'" "day_key ?n \<le> day_key t'"
      "day_key t' \<le> day_key x" "same_time ?n t'" by blast
    moreover have "day_loop I t = day_loop I ?n" using r(1) False by (simp add: day_loop.simps [of I t])
    ultimately show ?thesis using key(2) by (auto simp: same_time_def)
  qed
qed

end
