(* ===== verification/Sched_Props.thy ===== *)
theory Sched_Props
  imports Sched_Day
begin

text \<open>
  The search for the next scheduled time, from the days down to the seconds, is proved once for a level and
  interpreted for hours, minutes and seconds.  The properties follow, and the inputs on which times are lost.
\<close>

section \<open>The search at one level\<close>

text \<open>
  Hours, minutes and seconds are searched in the same way: the value is moved to the next that the filter
  has; if there is none, the value above it is increased, the search above it is repeated, and this one
  starts again from 0.  A level is described by its value, by the key of the values above it, and by what
  the search above it does.
\<close>

locale level_search =
  fixes ready :: bool and keyU :: "tm \<Rightarrow> int" and okU :: "tm \<Rightarrow> bool" and low :: "tm \<Rightarrow> bool" and upper :: "tm \<Rightarrow> tm option"
    and bump :: "tm \<Rightarrow> tm" and val :: "tm \<Rightarrow> int" and setv :: "int \<Rightarrow> tm \<Rightarrow> tm" and reset :: "tm \<Rightarrow> tm" and lowest :: "tm \<Rightarrow> bool"
    and nxt :: "int \<Rightarrow> int option" and good :: "int \<Rightarrow> bool" and loop :: "tm \<Rightarrow> tm option" and search :: "tm \<Rightarrow> tm option" and x :: tm
  assumes loop_eq: "loop t = (case nxt (val t) of Some w \<Rightarrow> Some (setv w t) | None \<Rightarrow> Option.bind (upper (bump t)) loop)"
    and search_eq: "search t = map_option (\<lambda>t'. if val t' \<noteq> val t then reset t' else t') (loop t)"
    and nxt_Some: "ready \<Longrightarrow> nxt v = Some w \<Longrightarrow> 0 \<le> v \<Longrightarrow> v \<le> w \<and> good w \<and> (\<forall>u. v \<le> u \<and> u < w \<longrightarrow> \<not> good u)"
    and nxt_None: "ready \<Longrightarrow> nxt v = None \<Longrightarrow> 0 \<le> v \<Longrightarrow> v \<le> u \<Longrightarrow> \<not> good u"
    and good_x: "ready \<Longrightarrow> good (val x)"
    and good_range: "ready \<Longrightarrow> good u \<Longrightarrow> 0 \<le> u \<and> u < 99"
    and upper_finds: "ready \<Longrightarrow> okU t \<Longrightarrow> low t \<Longrightarrow> keyU t < keyU x \<Longrightarrow>
      \<exists>t'. upper (bump t) = Some t' \<and> okU t' \<and> low t' \<and> keyU t < keyU t' \<and> keyU t' \<le> keyU x \<and> val t' = 0"
    and setv: "keyU (setv w t) = keyU t" "okU (setv w t) = okU t" "val (setv w t) = w" "low (setv w t) = low t" "setv (val t) t = t"
    and reset: "keyU (reset t) = keyU t" "okU (reset t) = okU t" "val (reset t) = val t" "low t \<Longrightarrow> low (reset t)" "lowest (reset t)"
begin

lemma loop_finds:
  assumes "ready" "okU t" "low t" "0 \<le> val t" "keyU t < keyU x \<or> keyU t = keyU x \<and> val t \<le> val x"
  shows "\<exists>t'. loop t = Some t' \<and> okU t' \<and> low t' \<and> good (val t') \<and>
           (t' = setv (val t') t \<and> val t \<le> val t' \<or> keyU t < keyU t' \<and> val t' < val t) \<and>
           (keyU t' < keyU x \<or> keyU t' = keyU x \<and> val t' \<le> val x)"
  using assms(2-)
proof (induction "nat (keyU x - keyU t)" arbitrary: t rule: less_induct)
  case less
  show ?case
  proof (cases "nxt (val t)")
    case (Some w)
    note w = nxt_Some [OF assms(1) Some less.prems(3)]
    have "w \<le> val x" if "keyU t = keyU x"
      using that w good_x [OF assms(1)] less.prems(4) by (metis linorder_not_le order_less_irrefl)
    then show ?thesis
      using Some w less.prems by (intro exI [of _ "setv w t"]) (auto simp: loop_eq [of t] setv)
  next
    case None
    note n = nxt_None [OF assms(1) None less.prems(3)]
    have "keyU t < keyU x" using n good_x [OF assms(1)] less.prems(4) by blast
    from upper_finds [OF assms(1) less.prems(1,2) this] obtain t1 where t1: "upper (bump t) = Some t1" "okU t1" "low t1"
      "keyU t < keyU t1" "keyU t1 \<le> keyU x" "val t1 = 0" by blast
    have "nat (keyU x - keyU t1) < nat (keyU x - keyU t)" using t1(4) \<open>keyU t < keyU x\<close> by simp
    moreover have "keyU t1 < keyU x \<or> keyU t1 = keyU x \<and> val t1 \<le> val x"
      using t1(5,6) good_range [OF assms(1) good_x [OF assms(1)]] by auto
    ultimately obtain t' where t': "loop t1 = Some t'" "okU t'" "low t'" "good (val t')"
      "t' = setv (val t') t1 \<and> val t1 \<le> val t' \<or> keyU t1 < keyU t' \<and> val t' < val t1"
      "keyU t' < keyU x \<or> keyU t' = keyU x \<and> val t' \<le> val x"
      using less.hyps [OF _ t1(2,3)] t1(6) by auto
    have "keyU t < keyU t'" using t'(5) t1(4) setv(1) by (metis order_less_trans)
    moreover have "val t' < val t" using n t'(4) by (meson linorder_not_le)
    ultimately show ?thesis using None t1(1) t' by (simp add: loop_eq [of t])
  qed
qed

lemma search_finds:
  assumes "ready" "okU t" "low t" "0 \<le> val t" "val t < 100" "keyU t * 100 + val t \<le> keyU x * 100 + val x"
  shows "\<exists>t'. search t = Some t' \<and> okU t' \<and> low t' \<and> good (val t') \<and> keyU t' * 100 + val t' \<le> keyU x * 100 + val x \<and>
           (t' = t \<or> keyU t * 100 + val t < keyU t' * 100 + val t' \<and> lowest t')"
proof -
  have x: "0 \<le> val x" "val x < 99" using good_range [OF assms(1) good_x [OF assms(1)]] by auto
  have "keyU t < keyU x \<or> keyU t = keyU x \<and> val t \<le> val x" using assms(4-6) x by linarith
  from loop_finds [OF assms(1-4) this] obtain t' where t': "loop t = Some t'" "okU t'" "low t'" "good (val t')"
    "t' = setv (val t') t \<and> val t \<le> val t' \<or> keyU t < keyU t' \<and> val t' < val t"
    "keyU t' < keyU x \<or> keyU t' = keyU x \<and> val t' \<le> val x" by blast
  have r: "0 \<le> val t'" "val t' < 99" using good_range [OF assms(1) t'(4)] by auto
  have key: "keyU t' * 100 + val t' \<le> keyU x * 100 + val x" using t'(6) x r by linarith
  show ?thesis
  proof (cases "val t' = val t")
    case True
    then have "t' = t" using t'(5) setv(5) by (metis order_less_irrefl)
    then show ?thesis using t' key by (simp add: search_eq)
  next
    case False
    have "keyU t' = keyU t \<and> val t < val t' \<or> keyU t < keyU t'" using t'(5) False setv(1) by (metis order_less_le)
    then have "keyU t * 100 + val t < keyU t' * 100 + val t'" using assms(4,5) r by linarith
    then show ?thesis using False t' key by (auto simp: search_eq reset)
  qed
qed

end

section \<open>The whole search\<close>

definition level_matches :: "zbx_scheduler_interval \<Rightarrow> int \<Rightarrow> zbx_scheduler_filter list \<Rightarrow> int \<Rightarrow> bool" where
  "level_matches I level fs v \<longleftrightarrow>
     (if fs = [] then level < filter_level I \<or> v = 0 else chain_has fs v)"

definition hour_matches :: "zbx_scheduler_interval \<Rightarrow> int \<Rightarrow> bool" where
  "hour_matches I v \<longleftrightarrow> 0 \<le> v \<and> v \<le> 23 \<and> level_matches I ZBX_SCHEDULER_FILTER_HOUR (hours I) v"

definition minute_matches :: "zbx_scheduler_interval \<Rightarrow> int \<Rightarrow> bool" where
  "minute_matches I v \<longleftrightarrow> 0 \<le> v \<and> v \<le> 59 \<and> level_matches I ZBX_SCHEDULER_FILTER_MINUTE (minutes I) v"

definition second_matches :: "zbx_scheduler_interval \<Rightarrow> int \<Rightarrow> bool" where
  "second_matches I v \<longleftrightarrow> 0 \<le> v \<and> v \<le> 59 \<and> level_matches I ZBX_SCHEDULER_FILTER_SECOND (seconds I) v"

definition matches :: "zbx_scheduler_interval \<Rightarrow> tm \<Rightarrow> bool" where
  "matches I t \<longleftrightarrow> day_matches I t \<and> hour_matches I (tm_hour t) \<and> minute_matches I (tm_min t) \<and> second_matches I (tm_sec t)"

definition schedulable :: "zbx_scheduler_interval \<Rightarrow> tm \<Rightarrow> bool" where
  "schedulable I x \<longleftrightarrow> wf_interval I \<and> simple_interval I \<and> valid_tm x \<and> tm_year x \<le> 137 \<and> \<not> feb29 x \<and> matches I x"

lemma filter_nextcheck_Some:
  assumes "wf_chain 0 hi fs" "simple_chain fs" "scheduler_get_filter_nextcheck I level fs hi v = Some w"
  shows "v \<le> w" "level_matches I level fs w" "w \<le> hi" "v \<le> u \<Longrightarrow> u < w \<Longrightarrow> \<not> level_matches I level fs u"
proof -
  have "v \<le> w \<and> level_matches I level fs w \<and> w \<le> hi \<and> (v \<le> u \<longrightarrow> u < w \<longrightarrow> \<not> level_matches I level fs u)"
  proof (cases "fs = []")
    case True
    then show ?thesis using assms(3) by (auto simp: scheduler_get_filter_nextcheck_def level_matches_def split: if_splits)
  next
    case False
    then show ?thesis using nearest_exact [OF assms(1,2), of v] assms(3) chain_has_range(2) [OF assms(1), of w]
      by (auto simp: scheduler_get_filter_nextcheck_def level_matches_def split: if_splits)
  qed
  then show "v \<le> w" "level_matches I level fs w" "w \<le> hi" "v \<le> u \<Longrightarrow> u < w \<Longrightarrow> \<not> level_matches I level fs u" by auto
qed

lemma filter_nextcheck_None:
  assumes "wf_chain 0 hi fs" "simple_chain fs" "scheduler_get_filter_nextcheck I level fs hi v = None" "0 \<le> v" "v \<le> u" "u \<le> hi"
  shows "\<not> level_matches I level fs u"
proof (cases "fs = []")
  case True
  then show ?thesis using assms(3-) by (auto simp: scheduler_get_filter_nextcheck_def level_matches_def split: if_splits)
next
  case False
  then show ?thesis using nearest_exact [OF assms(1,2), of v] assms(3-)
    by (auto simp: scheduler_get_filter_nextcheck_def level_matches_def split: if_splits)
qed

definition hour_key :: "tm \<Rightarrow> int" where "hour_key t = day_key t * 100 + tm_hour t"
definition minute_key :: "tm \<Rightarrow> int" where "minute_key t = hour_key t * 100 + tm_min t"
definition second_key :: "tm \<Rightarrow> int" where "second_key t = minute_key t * 100 + tm_sec t"

lemmas key_defs = second_key_def minute_key_def hour_key_def day_key_def

lemma day_key_inj:
  assumes "day_key t = day_key t'" "1 \<le> tm_mday t" "tm_mday t \<le> 32" "1 \<le> tm_mday t'" "tm_mday t' \<le> 31"
    "0 \<le> tm_mon t" "tm_mon t \<le> 11" "0 \<le> tm_mon t'" "tm_mon t' \<le> 11"
  shows "tm_mday t = tm_mday t' \<and> tm_mon t = tm_mon t' \<and> tm_year t = tm_year t'"
proof -
  define a b where "a = 12 * tm_year t + tm_mon t" and "b = 12 * tm_year t' + tm_mon t'"
  have "a * 32 + tm_mday t = b * 32 + tm_mday t'" using assms(1) by (simp add: day_key_def a_def b_def)
  then have ab: "a = b" using assms(2-5) by linarith
  then have "tm_year t = tm_year t'" using assms(6-9) unfolding a_def b_def by linarith
  with ab assms(1) show ?thesis by (simp add: a_def b_def day_key_def)
qed

lemma apply_day_finds:
  assumes "schedulable I x" "pre_day t" "day_key t \<le> day_key x"
  shows "\<exists>t'. scheduler_apply_day_filter I t = Some t' \<and> ok_day I t' \<and> day_key t' \<le> day_key x \<and>
           (t' = t \<or> day_key t < day_key t' \<and> tm_hour t' = 0 \<and> tm_min t' = 0 \<and> tm_sec t' = 0)"
proof -
  have "day_target I x" "wf_interval I" "simple_interval I" using assms(1) by (simp_all add: schedulable_def day_target_def matches_def)
  from day_loop_spec [OF this(2,3,1) assms(2,3)] obtain t' where t': "day_loop I t = Some t'" "ok_day I t'" "day_key t \<le> day_key t'"
    "day_key t' \<le> day_key x" "same_time t t'" by blast
  show ?thesis
  proof (cases "tm_mday t' \<noteq> tm_mday t \<or> tm_mon t' \<noteq> tm_mon t \<or> tm_year t' \<noteq> tm_year t")
    case True
    let ?t = "t'\<lparr>tm_hour := 0, tm_min := 0, tm_sec := 0\<rparr>"
    have "day_key t \<noteq> day_key t'" using day_key_inj [of t t'] True t'(2) assms(2) by (auto simp: ok_day_def pre_day_def)
    moreover have "ok_day I ?t" using t'(2)
      by (simp add: ok_day_def day_matches_def mday_matches_def wday_matches_def tm_dayofweek_def feb29_def)
    ultimately show ?thesis using True t' by (intro exI [of _ ?t]) (simp add: scheduler_apply_day_filter_def day_key_def)
  next
    case False
    then have "t' = t" using t'(5) by (cases t; cases t') (simp add: same_time_def)
    then show ?thesis using False t' by (auto simp: scheduler_apply_day_filter_def)
  qed
qed

definition low_hour :: "tm \<Rightarrow> bool" where
  "low_hour t \<longleftrightarrow> 0 \<le> tm_min t \<and> tm_min t \<le> 59 \<and> 0 \<le> tm_sec t \<and> tm_sec t \<le> 59"

definition low_minute :: "tm \<Rightarrow> bool" where
  "low_minute t \<longleftrightarrow> 0 \<le> tm_sec t \<and> tm_sec t \<le> 59"

lemma ok_day_update [simp]:
  "ok_day I (t\<lparr>tm_hour := h\<rparr>) = ok_day I t" "ok_day I (t\<lparr>tm_min := m\<rparr>) = ok_day I t" "ok_day I (t\<lparr>tm_sec := s\<rparr>) = ok_day I t"
  by (simp_all add: ok_day_def day_matches_def mday_matches_def wday_matches_def tm_dayofweek_def feb29_def)

interpretation hour: level_search "schedulable I x" day_key "ok_day I" low_hour "scheduler_apply_day_filter I"
  "\<lambda>t. t\<lparr>tm_mday := tm_mday t + 1, tm_hour := 0\<rparr>" tm_hour "\<lambda>h t. t\<lparr>tm_hour := h\<rparr>" "\<lambda>t. t\<lparr>tm_min := 0, tm_sec := 0\<rparr>"
  "\<lambda>t. tm_min t = 0 \<and> tm_sec t = 0" "hour_nextcheck I" "hour_matches I" "hour_loop I" "scheduler_apply_hour_filter I" x
  for I x
proof
  show "hour_loop I t = (case hour_nextcheck I (tm_hour t) of
        None \<Rightarrow> Option.bind (scheduler_apply_day_filter I (t\<lparr>tm_mday := tm_mday t + 1, tm_hour := 0\<rparr>)) (hour_loop I)
      | Some h \<Rightarrow> Some (t\<lparr>tm_hour := h\<rparr>))" for t
    by (subst hour_loop.simps) (auto split: option.split)
  show "scheduler_apply_hour_filter I t =
      map_option (\<lambda>t'. if tm_hour t' \<noteq> tm_hour t then t'\<lparr>tm_min := 0, tm_sec := 0\<rparr> else t') (hour_loop I t)" for t
    by (rule scheduler_apply_hour_filter_def)
  assume r: "schedulable I x"
  then have I: "wf_chain 0 23 (hours I)" "simple_chain (hours I)" by (simp_all add: schedulable_def wf_interval_def simple_interval_def)
  show "v \<le> w \<and> hour_matches I w \<and> (\<forall>u. v \<le> u \<and> u < w \<longrightarrow> \<not> hour_matches I u)" if "hour_nextcheck I v = Some w" "0 \<le> v" for v w
    using filter_nextcheck_Some [OF I that(1)] that(2) by (auto simp: hour_matches_def)
  show "\<not> hour_matches I u" if "hour_nextcheck I v = None" "0 \<le> v" "v \<le> u" for v u
    using filter_nextcheck_None [OF I that] by (auto simp: hour_matches_def)
  show "hour_matches I (tm_hour x)" using r by (simp add: schedulable_def matches_def)
  show "0 \<le> u \<and> u < 99" if "hour_matches I u" for u using that by (simp add: hour_matches_def)
  show "\<exists>t'. scheduler_apply_day_filter I (t\<lparr>tm_mday := tm_mday t + 1, tm_hour := 0\<rparr>) = Some t' \<and> ok_day I t' \<and> low_hour t' \<and>
      day_key t < day_key t' \<and> day_key t' \<le> day_key x \<and> tm_hour t' = 0"
    if "ok_day I t" "low_hour t" "day_key t < day_key x" for t
  proof -
    let ?t = "t\<lparr>tm_mday := tm_mday t + 1, tm_hour := 0\<rparr>"
    have "pre_day ?t" using that(1,2) by (simp add: pre_day_def ok_day_def low_hour_def)
    moreover have "day_key ?t = day_key t + 1" by (simp add: day_key_def)
    ultimately show ?thesis
      using apply_day_finds [OF r, of ?t] that(2,3) by (auto simp: low_hour_def)
  qed
qed (simp_all add: day_key_def low_hour_def)

definition ok_hour :: "zbx_scheduler_interval \<Rightarrow> tm \<Rightarrow> bool" where
  "ok_hour I t \<longleftrightarrow> ok_day I t \<and> hour_matches I (tm_hour t)"

definition ok_minute :: "zbx_scheduler_interval \<Rightarrow> tm \<Rightarrow> bool" where
  "ok_minute I t \<longleftrightarrow> ok_hour I t \<and> minute_matches I (tm_min t)"

interpretation minute: level_search "schedulable I x" hour_key "ok_hour I" low_minute "scheduler_apply_hour_filter I"
  "\<lambda>t. t\<lparr>tm_hour := tm_hour t + 1, tm_min := 0\<rparr>" tm_min "\<lambda>m t. t\<lparr>tm_min := m\<rparr>" "\<lambda>t. t\<lparr>tm_sec := 0\<rparr>"
  "\<lambda>t. tm_sec t = 0" "minute_nextcheck I" "minute_matches I" "minute_loop I" "scheduler_apply_minute_filter I" x
  for I x
proof
  show "minute_loop I t = (case minute_nextcheck I (tm_min t) of
        None \<Rightarrow> Option.bind (scheduler_apply_hour_filter I (t\<lparr>tm_hour := tm_hour t + 1, tm_min := 0\<rparr>)) (minute_loop I)
      | Some m \<Rightarrow> Some (t\<lparr>tm_min := m\<rparr>))" for t
    by (subst minute_loop.simps) (auto split: option.split)
  show "scheduler_apply_minute_filter I t =
      map_option (\<lambda>t'. if tm_min t' \<noteq> tm_min t then t'\<lparr>tm_sec := 0\<rparr> else t') (minute_loop I t)" for t
    by (rule scheduler_apply_minute_filter_def)
  assume r: "schedulable I x"
  then have I: "wf_chain 0 59 (minutes I)" "simple_chain (minutes I)" by (simp_all add: schedulable_def wf_interval_def simple_interval_def)
  show "v \<le> w \<and> minute_matches I w \<and> (\<forall>u. v \<le> u \<and> u < w \<longrightarrow> \<not> minute_matches I u)" if "minute_nextcheck I v = Some w" "0 \<le> v" for v w
    using filter_nextcheck_Some [OF I that(1)] that(2) by (auto simp: minute_matches_def)
  show "\<not> minute_matches I u" if "minute_nextcheck I v = None" "0 \<le> v" "v \<le> u" for v u
    using filter_nextcheck_None [OF I that] by (auto simp: minute_matches_def)
  show "minute_matches I (tm_min x)" using r by (simp add: schedulable_def matches_def)
  show "0 \<le> u \<and> u < 99" if "minute_matches I u" for u using that by (simp add: minute_matches_def)
  show "\<exists>t'. scheduler_apply_hour_filter I (t\<lparr>tm_hour := tm_hour t + 1, tm_min := 0\<rparr>) = Some t' \<and> ok_hour I t' \<and> low_minute t' \<and>
      hour_key t < hour_key t' \<and> hour_key t' \<le> hour_key x \<and> tm_min t' = 0"
    if "ok_hour I t" "low_minute t" "hour_key t < hour_key x" for t
  proof -
    let ?t = "t\<lparr>tm_hour := tm_hour t + 1, tm_min := 0\<rparr>"
    have pre: "ok_day I ?t" "low_hour ?t" "0 \<le> tm_hour ?t" "tm_hour ?t < 100"
      using that(1,2) by (simp_all add: ok_hour_def low_hour_def low_minute_def hour_matches_def)
    have k: "hour_key ?t = hour_key t + 1" by (simp add: hour_key_def day_key_def)
    then have "day_key ?t * 100 + tm_hour ?t \<le> day_key x * 100 + tm_hour x" using that(3) by (simp add: hour_key_def)
    from hour.search_finds [OF r pre this] obtain t' where t': "scheduler_apply_hour_filter I ?t = Some t'" "ok_day I t'" "low_hour t'"
      "hour_matches I (tm_hour t')" "hour_key t' \<le> hour_key x" "t' = ?t \<or> hour_key ?t < hour_key t' \<and> tm_min t' = 0 \<and> tm_sec t' = 0"
      unfolding hour_key_def [symmetric] by blast
    then show ?thesis using k by (auto simp: ok_hour_def low_minute_def low_hour_def)
  qed
qed (simp_all add: hour_key_def day_key_def low_minute_def ok_hour_def)

interpretation second: level_search "schedulable I x" minute_key "ok_minute I" "\<lambda>_. True" "scheduler_apply_minute_filter I"
  "\<lambda>t. t\<lparr>tm_min := tm_min t + 1, tm_sec := 0\<rparr>" tm_sec "\<lambda>s t. t\<lparr>tm_sec := s\<rparr>" "\<lambda>t. t"
  "\<lambda>_. True" "second_nextcheck I" "second_matches I" "scheduler_apply_second_filter I" "scheduler_apply_second_filter I" x
  for I x
proof
  show "scheduler_apply_second_filter I t = (case second_nextcheck I (tm_sec t) of
        None \<Rightarrow> Option.bind (scheduler_apply_minute_filter I (t\<lparr>tm_min := tm_min t + 1, tm_sec := 0\<rparr>)) (scheduler_apply_second_filter I)
      | Some s \<Rightarrow> Some (t\<lparr>tm_sec := s\<rparr>))" for t
    by (subst scheduler_apply_second_filter.simps) (auto split: option.split)
  show "scheduler_apply_second_filter I t =
      map_option (\<lambda>t'. if tm_sec t' \<noteq> tm_sec t then t' else t') (scheduler_apply_second_filter I t)" for t
    by (simp add: option.map_ident)
  assume r: "schedulable I x"
  then have I: "wf_chain 0 59 (seconds I)" "simple_chain (seconds I)" by (simp_all add: schedulable_def wf_interval_def simple_interval_def)
  show "v \<le> w \<and> second_matches I w \<and> (\<forall>u. v \<le> u \<and> u < w \<longrightarrow> \<not> second_matches I u)" if "second_nextcheck I v = Some w" "0 \<le> v" for v w
    using filter_nextcheck_Some [OF I that(1)] that(2) by (auto simp: second_matches_def)
  show "\<not> second_matches I u" if "second_nextcheck I v = None" "0 \<le> v" "v \<le> u" for v u
    using filter_nextcheck_None [OF I that] by (auto simp: second_matches_def)
  show "second_matches I (tm_sec x)" using r by (simp add: schedulable_def matches_def)
  show "0 \<le> u \<and> u < 99" if "second_matches I u" for u using that by (simp add: second_matches_def)
  show "\<exists>t'. scheduler_apply_minute_filter I (t\<lparr>tm_min := tm_min t + 1, tm_sec := 0\<rparr>) = Some t' \<and> ok_minute I t' \<and> True \<and>
      minute_key t < minute_key t' \<and> minute_key t' \<le> minute_key x \<and> tm_sec t' = 0"
    if "ok_minute I t" "minute_key t < minute_key x" for t
  proof -
    let ?t = "t\<lparr>tm_min := tm_min t + 1, tm_sec := 0\<rparr>"
    have pre: "ok_hour I ?t" "low_minute ?t" "0 \<le> tm_min ?t" "tm_min ?t < 100"
      using that(1) by (simp_all add: ok_minute_def ok_hour_def low_minute_def minute_matches_def)
    have k: "minute_key ?t = minute_key t + 1" by (simp add: key_defs)
    then have "hour_key ?t * 100 + tm_min ?t \<le> hour_key x * 100 + tm_min x" using that(2) by (simp add: minute_key_def)
    from minute.search_finds [OF r pre this] obtain t' where t': "scheduler_apply_minute_filter I ?t = Some t'" "ok_hour I t'"
      "minute_matches I (tm_min t')" "minute_key t' \<le> minute_key x" "t' = ?t \<or> minute_key ?t < minute_key t' \<and> tm_sec t' = 0"
      unfolding minute_key_def [symmetric] by blast
    then show ?thesis using k by (auto simp: ok_minute_def)
  qed
qed (simp_all add: key_defs ok_minute_def ok_hour_def)

lemma apply_filters_finds:
  assumes r: "schedulable I x" and t: "valid_tm t" "second_key t \<le> second_key x"
  shows "\<exists>t'. scheduler_apply_filters I t = Some t' \<and> ok_minute I t' \<and> second_matches I (tm_sec t') \<and>
           second_key t \<le> second_key t' \<and> second_key t' \<le> second_key x"
proof -
  have x: "0 \<le> tm_hour x" "tm_hour x \<le> 23" "0 \<le> tm_min x" "tm_min x \<le> 59" "0 \<le> tm_sec x" "tm_sec x \<le> 59"
    using r by (simp_all add: schedulable_def valid_tm_def)
  have tv: "0 \<le> tm_hour t" "tm_hour t \<le> 23" "0 \<le> tm_min t" "tm_min t \<le> 59" "0 \<le> tm_sec t" "tm_sec t \<le> 59"
    using t by (simp_all add: valid_tm_def)
  have mk: "minute_key t \<le> minute_key x" using t(2) x tv unfolding second_key_def by linarith
  have hk: "hour_key t \<le> hour_key x" using mk x tv unfolding minute_key_def by linarith
  have dk: "day_key t \<le> day_key x" using hk x tv unfolding hour_key_def by linarith
  have pre: "pre_day t" using t(1) zbx_day_in_month_bounds(2) [of "tm_year t + 1900" "tm_mon t + 1"]
    by (auto simp: valid_tm_def pre_day_def)
  obtain a where a: "scheduler_apply_day_filter I t = Some a" "ok_day I a" "day_key a \<le> day_key x"
    "a = t \<or> day_key t < day_key a \<and> tm_hour a = 0 \<and> tm_min a = 0 \<and> tm_sec a = 0"
    using apply_day_finds [OF r pre dk] by blast
  have ak: "second_key a \<le> second_key x" "second_key t \<le> second_key a" "low_hour a" "0 \<le> tm_hour a" "tm_hour a < 100" "hour_key a \<le> hour_key x" "minute_key a \<le> minute_key x"
    using a(3,4) t(2) x tv hk mk unfolding key_defs low_hour_def by auto
  obtain b where b: "scheduler_apply_hour_filter I a = Some b" "ok_hour I b" "low_hour b" "hour_key b \<le> hour_key x"
    "b = a \<or> hour_key a < hour_key b \<and> tm_min b = 0 \<and> tm_sec b = 0"
    using hour.search_finds [OF r a(2) ak(3,4,5)] ak(6) unfolding hour_key_def [symmetric] ok_hour_def by blast
  have bk: "second_key b \<le> second_key x" "second_key a \<le> second_key b" "low_minute b" "0 \<le> tm_min b" "tm_min b < 100" "minute_key b \<le> minute_key x"
    using b(3-5) ak x unfolding second_key_def minute_key_def low_hour_def low_minute_def by auto
  obtain c where c: "scheduler_apply_minute_filter I b = Some c" "ok_minute I c" "minute_key c \<le> minute_key x" "low_minute c"
    "c = b \<or> minute_key b < minute_key c \<and> tm_sec c = 0"
    using minute.search_finds [OF r b(2) bk(3,4,5)] bk(6) unfolding minute_key_def [symmetric] ok_minute_def by blast
  have ck: "second_key c \<le> second_key x" "second_key b \<le> second_key c" "0 \<le> tm_sec c" "tm_sec c < 100"
    using c(3-5) bk x unfolding second_key_def low_minute_def by auto
  obtain d where d: "scheduler_apply_second_filter I c = Some d" "ok_minute I d" "second_matches I (tm_sec d)" "second_key d \<le> second_key x"
    "d = c \<or> second_key c < second_key d"
    using second.search_finds [OF r c(2) TrueI ck(3,4)] ck(1) unfolding second_key_def [symmetric] by blast
  have "scheduler_apply_filters I t = Some d" using a(1) b(1) c(1) d(1) by (simp add: scheduler_apply_filters_def)
  moreover have "second_key t \<le> second_key d" using ak(2) bk(2) ck(2) d(5) by auto
  ultimately show ?thesis using d by blast
qed

section \<open>Properties\<close>

text \<open>Intervals and times for examples: \<open>wd1-5h9\<close>, and \<open>md29\<close>.\<close>

definition filter1 :: "int \<Rightarrow> int \<Rightarrow> int \<Rightarrow> zbx_scheduler_filter" where
  "filter1 a b k = \<lparr>f_start = a, f_end = b, f_step = k\<rparr>"

definition clock :: "int \<Rightarrow> int \<Rightarrow> int \<Rightarrow> int \<Rightarrow> tm" where
  "clock y m d h = \<lparr>tm_sec = 0, tm_min = 0, tm_hour = h, tm_mday = d, tm_mon = m - 1, tm_year = y - 1900, tm_wday = 0, tm_isdst = 0\<rparr>"

definition weekdays_at_nine :: zbx_scheduler_interval where
  "weekdays_at_nine =
     \<lparr>mdays = [], wdays = [filter1 1 5 1], hours = [filter1 9 9 1], minutes = [], seconds = [], filter_level = 2\<rparr>"

definition day29 :: zbx_scheduler_interval where
  "day29 = \<lparr>mdays = [filter1 29 29 1], wdays = [], hours = [], minutes = [], seconds = [], filter_level = 1\<rparr>"

text \<open>
  C8. The search for the next scheduled time ends, and finds the first one.  Let \<open>x\<close> be any time from \<open>t\<close> on
  that the filters of the interval allow, before 2038 and not on a 29th of February.  Then the four filters,
  applied one after the other, return a time that all filters allow, not before \<open>t\<close> and not after \<open>x\<close>; so
  no allowed time is skipped.  The interval must be one without lost values: each chain has one filter or no steps, and
  week days beside month days have no steps.
\<close>

theorem scheduler_finds_next:
  assumes "schedulable I x" "valid_tm t" "second_key t \<le> second_key x"
  shows "\<exists>t'. scheduler_apply_filters I t = Some t' \<and> matches I t' \<and> (valid_tm t' \<or> feb29 t') \<and>
           second_key t \<le> second_key t' \<and> second_key t' \<le> second_key x"
proof -
  obtain t' where t': "scheduler_apply_filters I t = Some t'" "ok_minute I t'" "second_matches I (tm_sec t')"
    "second_key t \<le> second_key t'" "second_key t' \<le> second_key x"
    using apply_filters_finds [OF assms] by blast
  moreover from t'(2,3) have "matches I t'" by (simp add: ok_minute_def ok_hour_def ok_day_def matches_def)
  moreover from t'(2,3) have "valid_tm t' \<or> feb29 t'"
    by (auto simp: ok_minute_def ok_hour_def ok_day_def valid_tm_def hour_matches_def minute_matches_def second_matches_def)
  ultimately show ?thesis by blast
qed

theorem scheduler_finds_next_witness:
  "\<exists>t'. scheduler_apply_filters weekdays_at_nine (clock 2024 3 1 10) = Some t' \<and> matches weekdays_at_nine t' \<and>
     second_key t' \<le> second_key (clock 2024 3 4 9)"
proof -
  have "schedulable weekdays_at_nine (clock 2024 3 4 9)" "valid_tm (clock 2024 3 1 10)"
    "second_key (clock 2024 3 1 10) \<le> second_key (clock 2024 3 4 9)" by code_simp+
  from scheduler_finds_next [OF this] show ?thesis by blast
qed

text \<open>
  C23. The calendar of the scheduler is consistent.  For every valid broken-down time, one step of
  \<open>scheduler_tm_inc\<close> gives a valid time whose \<open>zbx_utc_time\<close> formula is one second later, and the day of
  the week that \<open>calculate_dayofweek\<close> computes from the date is the one that the number of days since the epoch, a
  Thursday, gives.
\<close>

theorem scheduler_calendar:
  assumes "valid_tm t"
  shows "valid_tm (scheduler_tm_inc t) \<and> tm_seconds (scheduler_tm_inc t) = tm_seconds t + 1 \<and>
    tm_dayofweek t = (tm_seconds t div SEC_PER_DAY + 3) mod 7 + 1"
  using assms by (intro conjI scheduler_tm_inc_valid scheduler_tm_inc_seconds tm_dayofweek_seconds)

theorem scheduler_calendar_witness:
  "tm_dayofweek (clock 2024 2 29 23) = 4 \<and> valid_tm (scheduler_tm_inc (clock 2024 2 29 23))"
proof -
  have "valid_tm (clock 2024 2 29 23)" "(tm_seconds (clock 2024 2 29 23) div SEC_PER_DAY + 3) mod 7 + 1 = 4" by code_simp+
  with scheduler_calendar [of "clock 2024 2 29 23"] show ?thesis by simp
qed

section \<open>Times that are lost\<close>

text \<open>
  The length of the month is asked for the year plus 70.  A schedule for the 29th skips the leap day, and in
  other years it returns a 29th of February that does not exist.
\<close>

lemma scheduler_skips_leap_day:
  "matches day29 (clock 2024 2 29 0) \<and> valid_tm (clock 2024 2 29 0) \<and>
   scheduler_apply_filters day29 (clock 2024 2 1 0) = Some (clock 2024 3 29 0)"
  by code_simp

lemma scheduler_false_leap_day:
  "\<not> valid_tm (clock 2026 2 29 0) \<and> scheduler_apply_filters day29 (clock 2026 2 1 0) = Some (clock 2026 2 29 0)"
  by code_simp

text \<open>A filter with a step hides the values of a later filter inside its range: \<open>h1-10/5,3\<close> is never due at 3.\<close>

lemma nearest_filter_value_not_nearest:
  "chain_has [filter1 1 10 5, filter1 3 3 1] 3 \<and>
   scheduler_get_nearest_filter_value [filter1 1 10 5, filter1 3 3 1] 2 = Some 6 \<and>
   scheduler_get_nearest_filter_value [filter1 1 10 5, filter1 3 3 1] 3 = Some 6"
  by code_simp

text \<open>Beside a filter of month days, \<open>wd1-7/2\<close> lets every day from Monday to Sunday pass.\<close>

lemma validate_wday_ignores_step:
  "tm_dayofweek (clock 2024 3 5 0) = 2 \<and> \<not> chain_has [filter1 1 7 2] 2 \<and>
   scheduler_validate_wday_filter
     \<lparr>mdays = [filter1 1 31 1], wdays = [filter1 1 7 2], hours = [], minutes = [], seconds = [], filter_level = 1\<rparr> (clock 2024 3 5 0)"
  by code_simp

text \<open>The check of the date computes seconds in 32 bits: from 2038 on no day is accepted.\<close>

lemma utc_time_2038: "zbx_utc_time 2038 1 20 0 0 0 = None"
  by code_simp

end
