(* ===== verification/Sched_Check.thy ===== *)
theory Sched_Check
  imports Sched_Search
begin

text \<open>
  \<open>src/libs/zbxexpr/interval.c\<close>, flexible intervals and the time of the next check of an item.

  The time zone is an argument: \<open>localtime\<close> and \<open>mktime\<close> of the C library, \<open>mktime\<close> returning -1 for a time that it
  cannot represent.  \<open>time_t\<close> has 64 bits and is an unbounded integer here; \<open>nextcheck\<close> is an \<open>int\<close>, and every
  assignment to it wraps at 32 bits (\<open>int32\<close>), as compilers do where the standard leaves the overflow open.
  Timestamps and delays are not negative.
\<close>

section \<open>Flexible intervals\<close>

record zbx_time_period =
  start_day :: int
  end_day :: int
  start_time :: int
  end_time :: int

record zbx_flexible_interval =
  period :: zbx_time_period
  delay :: int

definition ZBX_JAN_2038 :: int where "ZBX_JAN_2038 = 2145916800"

definition tm_day :: "tm \<Rightarrow> int" where
  "tm_day t = (if tm_wday t = 0 then 7 else tm_wday t)"

definition tm_time :: "tm \<Rightarrow> int" where
  "tm_time t = SEC_PER_HOUR * tm_hour t + SEC_PER_MIN * tm_min t + tm_sec t"

definition check_time_period :: "zbx_time_period \<Rightarrow> tm \<Rightarrow> bool" where
  "check_time_period p t \<longleftrightarrow>
     start_day p \<le> tm_day t \<and> tm_day t \<le> end_day p \<and> start_time p \<le> tm_time t \<and> tm_time t < end_time p"

fun current_delay_loop :: "zbx_flexible_interval list \<Rightarrow> tm \<Rightarrow> int \<Rightarrow> int" where
  "current_delay_loop [] t current_delay = current_delay"
| "current_delay_loop (f # fs) t current_delay =
     current_delay_loop fs t
       (if (current_delay = -1 \<or> delay f < current_delay) \<and> check_time_period (period f) t
        then delay f else current_delay)"

definition get_current_delay :: "(int \<Rightarrow> tm) \<Rightarrow> int \<Rightarrow> zbx_flexible_interval list \<Rightarrow> int \<Rightarrow> int" where
  "get_current_delay localtime default_delay flex_intervals now =
     (let current_delay = current_delay_loop flex_intervals (localtime now) (-1)
      in if current_delay = -1 then default_delay else current_delay)"

text \<open>The seconds from the beginning of the day to the next change of one interval.\<close>

definition delay_candidate :: "zbx_time_period \<Rightarrow> int \<Rightarrow> int \<Rightarrow> int" where
  "delay_candidate p day time =
     (if start_day p \<le> day \<and> day \<le> end_day p \<and> time < end_time p then
        (if time < start_time p then start_time p else end_time p)
      else if day < end_day p then
        (if day < start_day p then SEC_PER_DAY * (start_day p - day) + start_time p
         else SEC_PER_DAY + start_time p)
      else SEC_PER_DAY * (start_day p + 7 - day) + start_time p)"

fun next_delay_loop :: "zbx_flexible_interval list \<Rightarrow> int \<Rightarrow> int \<Rightarrow> int \<Rightarrow> int" where
  "next_delay_loop [] day time nxt = nxt"
| "next_delay_loop (f # fs) day time nxt =
     (let candidate = delay_candidate (period f) day time
      in next_delay_loop fs day time (if nxt = 0 \<or> nxt > candidate then candidate else nxt))"

definition get_next_delay_interval :: "(int \<Rightarrow> tm) \<Rightarrow> zbx_flexible_interval list \<Rightarrow> int \<Rightarrow> int option" where
  "get_next_delay_interval localtime flex_intervals now =
     (if flex_intervals = [] then None
      else
        (let t = localtime now; nxt = next_delay_loop flex_intervals (tm_day t) (tm_time t) 0
         in if nxt = 0 then None else Some (now - tm_time t + nxt)))"

section \<open>Scheduling intervals\<close>

text \<open>The bisection for the change of daylight saving, in minutes.\<close>

function dst_loop :: "(int \<Rightarrow> tm) \<Rightarrow> int \<Rightarrow> int \<Rightarrow> int \<Rightarrow> int" where
  "dst_loop localtime dst_start start end' =
     (if start + 1 < end' then
        (let mid = (start + end') div 2
         in if tm_isdst (localtime (mid * 60)) = dst_start then dst_loop localtime dst_start mid end'
            else dst_loop localtime dst_start start mid)
      else end')"
  by pat_completeness auto
termination
  by (relation "measure (\<lambda>(localtime, dst_start, start, end'). nat (end' - start))") auto

declare dst_loop.simps [simp del]

text \<open>\<open>time_dst\<close> is the static variable that keeps the last result.\<close>

definition scheduler_find_dst_change :: "(int \<Rightarrow> tm) \<Rightarrow> int \<Rightarrow> int \<Rightarrow> int \<Rightarrow> int" where
  "scheduler_find_dst_change localtime time_dst time_start time_end =
     (if time_dst < time_start \<or> time_dst > time_end
      then dst_loop localtime (tm_isdst (localtime time_start)) (time_start div 60) (time_end div 60) * 60
      else time_dst)"

partial_function (option) nextcheck_loop ::
  "(tm \<Rightarrow> int) \<Rightarrow> zbx_scheduler_interval \<Rightarrow> int \<Rightarrow> tm \<Rightarrow> int option" where
  "nextcheck_loop mktime interval isdst t =
     Option.bind (scheduler_apply_filters interval (scheduler_tm_inc t)) (\<lambda>t.
       let t = t\<lparr>tm_isdst := isdst\<rparr>; current_nextcheck = mktime t
       in if current_nextcheck = -1 then nextcheck_loop mktime interval isdst t else Some current_nextcheck)"

definition interval_nextcheck ::
  "(int \<Rightarrow> tm) \<Rightarrow> (tm \<Rightarrow> int) \<Rightarrow> int \<Rightarrow> zbx_scheduler_interval \<Rightarrow> int \<Rightarrow> (int \<times> int) option" where
  "interval_nextcheck localtime mktime time_dst interval now =
     (let tm_start = localtime now in
      Option.bind (nextcheck_loop mktime interval (tm_isdst tm_start) tm_start) (\<lambda>current_nextcheck.
        let tm_dst = localtime current_nextcheck in
        if tm_isdst tm_dst \<noteq> tm_isdst tm_start then
          (let dst = tm_isdst tm_dst; time_dst = scheduler_find_dst_change localtime time_dst now current_nextcheck
           in Option.bind (scheduler_apply_filters interval (localtime time_dst)) (\<lambda>tm_dst.
                Some (mktime (tm_dst\<lparr>tm_isdst := dst\<rparr>), time_dst)))
        else Some (current_nextcheck, time_dst)))"

text \<open>The time of the next check, 0 if there is no interval, and the static variable.\<close>

fun scheduler_nextcheck_loop ::
  "(int \<Rightarrow> tm) \<Rightarrow> (tm \<Rightarrow> int) \<Rightarrow> int \<Rightarrow> zbx_scheduler_interval list \<Rightarrow> int \<Rightarrow> int \<Rightarrow> (int \<times> int) option" where
  "scheduler_nextcheck_loop localtime mktime time_dst [] now nextcheck = Some (nextcheck, time_dst)"
| "scheduler_nextcheck_loop localtime mktime time_dst (interval # intervals) now nextcheck =
     Option.bind (interval_nextcheck localtime mktime time_dst interval now) (\<lambda>(current_nextcheck, time_dst).
       scheduler_nextcheck_loop localtime mktime time_dst intervals now
         (if nextcheck = 0 \<or> current_nextcheck < nextcheck then current_nextcheck else nextcheck))"

definition scheduler_get_nextcheck ::
  "(int \<Rightarrow> tm) \<Rightarrow> (tm \<Rightarrow> int) \<Rightarrow> int \<Rightarrow> zbx_scheduler_interval list \<Rightarrow> int \<Rightarrow> (int \<times> int) option" where
  "scheduler_get_nextcheck localtime mktime time_dst intervals now =
     scheduler_nextcheck_loop localtime mktime time_dst intervals now 0"

section \<open>The next check of an item\<close>

record zbx_custom_interval =
  flexible :: "zbx_flexible_interval list"
  scheduling :: "zbx_scheduler_interval list"

partial_function (option) advance_loop :: "int \<Rightarrow> int \<Rightarrow> int \<Rightarrow> int option" where
  "advance_loop current_delay limit nextcheck =
     (if nextcheck < limit then advance_loop current_delay limit (int32 (nextcheck + current_delay)) else Some nextcheck)"

text \<open>
  The value for the current interval.  The sums that \<open>nextcheck\<close> is compared with are 64-bit ones.  The first attempt passes over a check at the earliest time itself,
  the later ones do not.
\<close>

definition delay_nextcheck :: "nat \<Rightarrow> int \<Rightarrow> int \<Rightarrow> bool \<Rightarrow> int option" where
  "delay_nextcheck seed current_delay t first =
     (if current_delay \<noteq> 0 then
        (let nextcheck = int32 (int32 (current_delay * int32 (t div current_delay)) + int seed mod current_delay);
             min_delay = min (current_delay div 4) 30
         in advance_loop current_delay (t + min_delay + (if first then 1 else 0)) nextcheck)
      else Some ZBX_JAN_2038)"

partial_function (option) nextcheck_flexible_loop ::
  "(int \<Rightarrow> tm) \<Rightarrow> nat \<Rightarrow> int \<Rightarrow> zbx_flexible_interval list \<Rightarrow> int \<Rightarrow> int \<Rightarrow> bool \<Rightarrow> int \<Rightarrow> int option" where
  "nextcheck_flexible_loop localtime seed simple_interval flex tmax t first nextcheck =
     (if t < tmax then
        Option.bind (delay_nextcheck seed (get_current_delay localtime simple_interval flex t) t first) (\<lambda>nextcheck.
          case get_next_delay_interval localtime flex t of
            Some next_interval \<Rightarrow>
              if next_interval \<le> nextcheck
              then nextcheck_flexible_loop localtime seed simple_interval flex tmax next_interval False nextcheck
              else Some nextcheck
          | None \<Rightarrow> Some nextcheck)
      else Some nextcheck)"

definition zbx_calculate_item_nextcheck ::
  "(int \<Rightarrow> tm) \<Rightarrow> (tm \<Rightarrow> int) \<Rightarrow> int \<Rightarrow> nat \<Rightarrow> bool \<Rightarrow> int \<Rightarrow> zbx_custom_interval option \<Rightarrow> int \<Rightarrow> int option" where
  "zbx_calculate_item_nextcheck localtime mktime time_dst seed active simple_interval custom_intervals now =
     (if active then Some (if simple_interval \<noteq> 0 then int32 (int32 now + simple_interval) else ZBX_JAN_2038)
      else
        (case custom_intervals of
           None \<Rightarrow> delay_nextcheck seed simple_interval now True
         | Some ci \<Rightarrow>
             Option.bind (scheduler_get_nextcheck localtime mktime time_dst (scheduling ci) now) (\<lambda>(scheduled_check, _).
             Option.bind (nextcheck_flexible_loop localtime seed simple_interval (flexible ci) (now + SEC_PER_YEAR) now True 0)
               (\<lambda>nextcheck. Some (if scheduled_check \<noteq> 0 \<and> scheduled_check < nextcheck then int32 scheduled_check else nextcheck)))))"

partial_function (option) unreachable_loop ::
  "(int \<Rightarrow> tm) \<Rightarrow> int \<Rightarrow> zbx_flexible_interval list \<Rightarrow> int \<Rightarrow> int \<Rightarrow> int option" where
  "unreachable_loop localtime simple_interval flex tmax nextcheck =
     (if nextcheck < tmax then
        (if get_current_delay localtime simple_interval flex nextcheck \<noteq> 0 then Some nextcheck
         else (case get_next_delay_interval localtime flex nextcheck of
                 None \<Rightarrow> Some ZBX_JAN_2038
               | Some next_interval \<Rightarrow> unreachable_loop localtime simple_interval flex tmax (int32 next_interval)))
      else Some nextcheck)"

definition zbx_calculate_item_nextcheck_unreachable ::
  "(int \<Rightarrow> tm) \<Rightarrow> (tm \<Rightarrow> int) \<Rightarrow> int \<Rightarrow> int \<Rightarrow> zbx_custom_interval option \<Rightarrow> int \<Rightarrow> int option" where
  "zbx_calculate_item_nextcheck_unreachable localtime mktime time_dst simple_interval custom_intervals disable_until =
     (case custom_intervals of
        None \<Rightarrow> Some (int32 disable_until)
      | Some ci \<Rightarrow>
          Option.bind (scheduler_get_nextcheck localtime mktime time_dst (scheduling ci) disable_until) (\<lambda>(scheduled_check, _).
          Option.bind (unreachable_loop localtime simple_interval (flexible ci) (disable_until + SEC_PER_YEAR) (int32 disable_until))
            (\<lambda>nextcheck. Some (if scheduled_check \<noteq> 0 \<and> scheduled_check < nextcheck then int32 scheduled_check else nextcheck))))"

declare nextcheck_loop.simps [code] advance_loop.simps [code] nextcheck_flexible_loop.simps [code] unreachable_loop.simps [code]

end
