(* ===== verification/Sched_Check_Props.thy ===== *)
theory Sched_Check_Props
  imports Sched_Check
begin

text \<open>
  What flexible intervals mean for the next check of an item: the delay in force is constant until the
  time that is returned for its next change, and the next check is on the grid of the delay that applies
  when it is due.
\<close>

section \<open>The clock\<close>

text \<open>
  \<open>localtime\<close> returns a day of the week and a time of the day.  In a zone without daylight saving and other changes
  of its offset, they also advance with the seconds; what is proved for every zone needs only the first.
\<close>

definition clock_ranges :: "(int \<Rightarrow> tm) \<Rightarrow> bool" where
  "clock_ranges localtime \<longleftrightarrow>
     (\<forall>t. 1 \<le> tm_day (localtime t) \<and> tm_day (localtime t) \<le> 7 \<and> 0 \<le> tm_time (localtime t) \<and> tm_time (localtime t) < 86400)"

definition week_clock :: "(int \<Rightarrow> tm) \<Rightarrow> bool" where
  "week_clock localtime \<longleftrightarrow> clock_ranges localtime \<and>
     (\<forall>t d. 0 \<le> d \<longrightarrow>
        (tm_day (localtime (t + d)) - 1) * 86400 + tm_time (localtime (t + d)) =
        ((tm_day (localtime t) - 1) * 86400 + tm_time (localtime t) + d) mod 604800)"

lemma clock_rangesD:
  assumes "clock_ranges localtime"
  shows "1 \<le> tm_day (localtime t)" "tm_day (localtime t) \<le> 7" "0 \<le> tm_time (localtime t)" "tm_time (localtime t) < 86400"
  using assms unfolding clock_ranges_def by blast+

lemma week_clock_ranges: "week_clock localtime \<Longrightarrow> clock_ranges localtime"
  by (simp add: week_clock_def)

lemmas week_clockD = clock_rangesD [OF week_clock_ranges]

lemma radix:
  fixes a b r s :: int
  assumes "a * 86400 + r = b * 86400 + s" "0 \<le> r" "r < 86400" "0 \<le> s" "s < 86400"
  shows "a = b"
  using assms by (cases a b rule: linorder_cases) auto

lemma week_clock_later:
  fixes t d :: int
  assumes "week_clock localtime" "0 \<le> d"
  defines "k \<equiv> (tm_time (localtime t) + d) div 86400"
  shows "tm_time (localtime (t + d)) = (tm_time (localtime t) + d) mod 86400"
    and "tm_day (localtime (t + d)) = (tm_day (localtime t) - 1 + k) mod 7 + 1"
proof -
  let ?a = "tm_day (localtime t) - 1" and ?s = "tm_time (localtime t)"
  let ?a' = "tm_day (localtime (t + d)) - 1" and ?s' = "tm_time (localtime (t + d))"
  have r: "0 \<le> ?a'" "?a' < 7" "0 \<le> ?s'" "?s' < 86400" using week_clockD [OF assms(1), of "t + d"] by simp_all
  have e: "?a' * 86400 + ?s' = (?a * 86400 + ?s + d) mod 604800" using assms(1,2) by (simp add: week_clock_def)
  define m where "m = (?s + d) mod 86400"
  have m: "0 \<le> m" "m < 86400" "?s + d = k * 86400 + m" by (simp_all add: m_def k_def)
  have "?a * 86400 + ?s + d = (?a + k) * 86400 + m" using m(3) by (simp add: algebra_simps)
  moreover have "604800 = 7 * (86400 :: int)" by simp
  ultimately have "(?a * 86400 + ?s + d) mod 604800 = ((?a + k) * 86400 + m) mod (7 * 86400)" by (simp only:)
  also have "\<dots> = ((?a + k) mod 7) * 86400 + m"
  proof -
    have "(?a + k) * 86400 + m = ((?a + k) div 7) * (7 * 86400) + (((?a + k) mod 7) * 86400 + m)"
      by (metis (no_types, lifting) add.assoc distrib_right div_mult_mod_eq mult.assoc)
    moreover have "0 \<le> ((?a + k) mod 7) * 86400 + m" "((?a + k) mod 7) * 86400 + m < 7 * 86400"
      using m pos_mod_bound [of 7 "?a + k"] by simp_all
    ultimately show ?thesis by (simp only: mod_mult_self3 mod_pos_pos_trivial)
  qed
  finally have eq: "?a' * 86400 + ?s' = ((?a + k) mod 7) * 86400 + m" using e by simp
  have q: "0 \<le> (?a + k) mod 7" "(?a + k) mod 7 < 7" by simp_all
  have "?a' = (?a + k) mod 7" using eq r(3,4) m(1,2) by (rule radix)
  then show "?s' = (?s + d) mod 86400" "tm_day (localtime (t + d)) = (?a + k) mod 7 + 1" using eq by (simp_all add: m_def)
qed

definition wf_period :: "zbx_time_period \<Rightarrow> bool" where
  "wf_period p \<longleftrightarrow> 1 \<le> start_day p \<and> start_day p \<le> end_day p \<and> end_day p \<le> 7 \<and>
     0 \<le> start_time p \<and> start_time p < end_time p \<and> end_time p \<le> SEC_PER_DAY"

lemma delay_candidate_later:
  assumes "wf_period p" "1 \<le> day" "day \<le> 7" "0 \<le> time" "time < 86400"
  shows "time < delay_candidate p day time"
  using assms by (auto simp: wf_period_def delay_candidate_def SEC_PER_DAY_def)

lemma day_carry:
  fixes k m n s :: int
  assumes "k * 86400 + m < 86400 * n + s" "0 \<le> m" "s < 86400"
  shows "k < n \<or> k = n \<and> m < s"
  using assms by (cases k n rule: linorder_cases) auto

lemma delay_candidate_no_change:
  fixes day time d :: int
  assumes p: "wf_period p" and d: "1 \<le> day" "day \<le> 7" and t: "0 \<le> time" "time < 86400"
    and e: "0 \<le> d" "time + d < delay_candidate p day time"
  defines "k \<equiv> (time + d) div 86400"
  shows "(start_day p \<le> (day - 1 + k) mod 7 + 1 \<and> (day - 1 + k) mod 7 + 1 \<le> end_day p \<and>
           start_time p \<le> (time + d) mod 86400 \<and> (time + d) mod 86400 < end_time p) \<longleftrightarrow>
         (start_day p \<le> day \<and> day \<le> end_day p \<and> start_time p \<le> time \<and> time < end_time p)"
proof -
  have w: "1 \<le> start_day p" "start_day p \<le> end_day p" "end_day p \<le> 7" "0 \<le> start_time p" "start_time p < end_time p" "end_time p \<le> 86400"
    using p by (simp_all add: wf_period_def SEC_PER_DAY_def)
  define m where "m = (time + d) mod 86400"
  have m: "0 \<le> m" "m < 86400" "time + d = k * 86400 + m" by (simp_all add: m_def k_def)
  have k: "0 \<le> k" using t e by (simp add: k_def pos_imp_zdiv_nonneg_iff)
  have day': "(day - 1 + k) mod 7 + 1 = (if day + k \<le> 7 then day + k else day + k - 7)" if "day + k \<le> 14"
    using that d k by (auto simp: mod_pos_pos_trivial) presburger
  consider (today) "start_day p \<le> day" "day \<le> end_day p" "time < end_time p"
    | (before) "day < start_day p"
    | (tomorrow) "start_day p \<le> day" "day < end_day p" "end_time p \<le> time"
    | (after) "end_day p < day \<or> day = end_day p \<and> end_time p \<le> time" by linarith
  then show ?thesis
  proof cases
    case today
    then have "k = 0" using e(2) w m k by (auto simp: delay_candidate_def split: if_splits)
    then show ?thesis using today e m d by (auto simp: delay_candidate_def m_def [symmetric] split: if_splits)
  next
    case before
    then have c: "k * 86400 + m < 86400 * (start_day p - day) + start_time p"
      using e(2) w m(3) by (simp add: delay_candidate_def SEC_PER_DAY_def)
    then have "k < start_day p - day \<or> k = start_day p - day \<and> m < start_time p" using m(1) w by (intro day_carry) auto
    then have "day + k < start_day p \<or> day + k = start_day p \<and> m < start_time p" by auto
    then show ?thesis using before day' d w k by (auto simp: m_def [symmetric])
  next
    case tomorrow
    then have c: "k * 86400 + m < 86400 + start_time p" using e(2) w m(3) by (simp add: delay_candidate_def SEC_PER_DAY_def)
    then have "k < 1 \<or> k = 1 \<and> m < start_time p" using m(1) w by (intro day_carry) auto
    then have "k = 0 \<or> k = 1 \<and> m < start_time p" using k by auto
    then show ?thesis using tomorrow day' d w k m e(1) by (auto simp: m_def [symmetric] mod_pos_pos_trivial)
  next
    case after
    then have c: "k * 86400 + m < 86400 * (start_day p + 7 - day) + start_time p"
      using e(2) w m(3) by (auto simp: delay_candidate_def SEC_PER_DAY_def)
    then have "k < start_day p + 7 - day \<or> k = start_day p + 7 - day \<and> m < start_time p" using m(1) w by (intro day_carry) auto
    then have *: "day + k < start_day p + 7 \<or> day + k = start_day p + 7 \<and> m < start_time p" by auto
    then have D: "(day - 1 + k) mod 7 + 1 = (if day + k \<le> 7 then day + k else day + k - 7)" using day' w by auto
    have no: "\<not> (start_day p \<le> day \<and> day \<le> end_day p \<and> start_time p \<le> time \<and> time < end_time p)" using after by auto
    have "\<not> (start_day p \<le> day + k \<and> day + k \<le> end_day p \<and> start_time p \<le> m \<and> m < end_time p)"
      using after k m(3) e(1) by (cases "k = 0") auto
    moreover have "\<not> (start_day p \<le> day + k - 7 \<and> start_time p \<le> m)" using * by auto
    ultimately show ?thesis using no unfolding D m_def [symmetric] by auto
  qed
qed

section \<open>The delay in force\<close>

definition wf_flexible :: "zbx_flexible_interval list \<Rightarrow> bool" where
  "wf_flexible fs \<longleftrightarrow> list_all (\<lambda>f. wf_period (period f) \<and> 0 \<le> delay f) fs"

lemma check_time_period_stable:
  assumes "week_clock localtime" "wf_period p" "0 \<le> d"
    "tm_time (localtime t) + d < delay_candidate p (tm_day (localtime t)) (tm_time (localtime t))"
  shows "check_time_period p (localtime (t + d)) \<longleftrightarrow> check_time_period p (localtime t)"
  using delay_candidate_no_change [OF assms(2) week_clockD [OF assms(1), of t] assms(3,4)]
  unfolding check_time_period_def week_clock_later [OF assms(1,3), of t] .

lemma next_delay_loop_spec:
  assumes "\<forall>f\<in>set fs. 0 < delay_candidate (period f) day time" "0 \<le> nxt"
  shows "(nxt \<noteq> 0 \<longrightarrow> next_delay_loop fs day time nxt \<le> nxt) \<and>
    (\<forall>f\<in>set fs. next_delay_loop fs day time nxt \<le> delay_candidate (period f) day time) \<and>
    (next_delay_loop fs day time nxt = nxt \<and> (fs = [] \<or> nxt \<noteq> 0) \<or>
     (\<exists>f\<in>set fs. next_delay_loop fs day time nxt = delay_candidate (period f) day time))"
  using assms
proof (induction fs arbitrary: nxt)
  case (Cons f fs)
  define c where "c = delay_candidate (period f) day time"
  define n where "n = (if nxt = 0 \<or> nxt > c then c else nxt)"
  have c: "0 < c" using Cons.prems(1) by (simp add: c_def)
  then have n: "0 < n" "n \<le> c" "nxt \<noteq> 0 \<longrightarrow> n \<le> nxt" "n = c \<or> n = nxt \<and> nxt \<noteq> 0" using Cons.prems(2) by (auto simp: n_def)
  have e: "next_delay_loop (f # fs) day time nxt = next_delay_loop fs day time n" by (simp add: n_def c_def Let_def)
  show ?case using Cons.IH [of n] Cons.prems(1) n unfolding e by (auto simp: c_def)
qed simp

lemma get_next_delay_interval_spec:
  assumes "clock_ranges localtime" "wf_flexible fs" "fs \<noteq> []"
  shows "\<exists>n. get_next_delay_interval localtime fs now = Some n \<and> now < n \<and>
    (\<forall>f\<in>set fs. n - now + tm_time (localtime now) \<le> delay_candidate (period f) (tm_day (localtime now)) (tm_time (localtime now)))"
proof -
  let ?day = "tm_day (localtime now)" and ?time = "tm_time (localtime now)"
  have c: "?time < delay_candidate (period f) ?day ?time" if "f \<in> set fs" for f
    using that assms(2) by (intro delay_candidate_later clock_rangesD [OF assms(1)]) (simp add: wf_flexible_def list_all_iff)
  define r where "r = next_delay_loop fs ?day ?time 0"
  have "\<forall>f\<in>set fs. 0 < delay_candidate (period f) ?day ?time" using c clock_rangesD(3) [OF assms(1), of now] by force
  from next_delay_loop_spec [OF this, of 0] assms(3)
  have r: "\<forall>f\<in>set fs. r \<le> delay_candidate (period f) ?day ?time" "\<exists>f\<in>set fs. r = delay_candidate (period f) ?day ?time"
    by (auto simp: r_def)
  then have "?time < r" using c by auto
  then show ?thesis
    using r(1) assms(3) clock_rangesD(3) [OF assms(1), of now]
    by (auto simp: get_next_delay_interval_def Let_def r_def [symmetric])
qed

lemma current_delay_loop_cong:
  "(\<And>f. f \<in> set fs \<Longrightarrow> check_time_period (period f) t = check_time_period (period f) t') \<Longrightarrow>
     current_delay_loop fs t c = current_delay_loop fs t' c"
  by (induction fs arbitrary: c) auto

lemma get_current_delay_stable:
  assumes "week_clock localtime" "wf_flexible fs" "get_next_delay_interval localtime fs now = Some n" "now \<le> t" "t < n"
  shows "get_current_delay localtime d fs t = get_current_delay localtime d fs now"
proof -
  have "fs \<noteq> []" using assms(3) by (auto simp: get_next_delay_interval_def)
  have "check_time_period (period f) (localtime t) = check_time_period (period f) (localtime now)" if "f \<in> set fs" for f
    using check_time_period_stable [OF assms(1), of "period f" "t - now" now]
      get_next_delay_interval_spec [OF week_clock_ranges [OF assms(1)] assms(2) \<open>fs \<noteq> []\<close>, of now] assms(2-5) that
    by (force simp: wf_flexible_def list_all_iff)
  then have "current_delay_loop fs (localtime t) (-1) = current_delay_loop fs (localtime now) (-1)"
    by (rule current_delay_loop_cong)
  then show ?thesis by (simp add: get_current_delay_def)
qed

lemma current_delay_loop_nonneg:
  "list_all (\<lambda>f. 0 \<le> delay f) fs \<Longrightarrow> -1 \<le> c \<Longrightarrow> -1 \<le> current_delay_loop fs t c"
  by (induction fs arbitrary: c) auto

lemma get_current_delay_nonneg:
  assumes "wf_flexible fs" "0 \<le> d"
  shows "0 \<le> get_current_delay localtime d fs t"
  using current_delay_loop_nonneg [of fs "-1" "localtime t"] assms
  by (auto simp: get_current_delay_def Let_def wf_flexible_def list_all_iff)

text \<open>Flexible delays can be longer than a day; a bound on all of them is a bound on the delay that applies.\<close>

definition day_delays :: "zbx_flexible_interval list \<Rightarrow> bool" where
  "day_delays fs \<longleftrightarrow> list_all (\<lambda>f. delay f \<le> SEC_PER_DAY) fs"

lemma current_delay_loop_le:
  "day_delays fs \<Longrightarrow> c \<le> SEC_PER_DAY \<Longrightarrow> current_delay_loop fs t c \<le> SEC_PER_DAY"
  by (induction fs arbitrary: c) (auto simp: day_delays_def)

lemma get_current_delay_le:
  "day_delays fs \<Longrightarrow> d \<le> SEC_PER_DAY \<Longrightarrow> get_current_delay localtime d fs t \<le> SEC_PER_DAY"
  using current_delay_loop_le [of fs "-1" "localtime t"]
  by (auto simp: get_current_delay_def Let_def SEC_PER_DAY_def)

section \<open>The next check\<close>

lemma int32_id: "- (2 ^ 31) \<le> x \<Longrightarrow> x < 2 ^ 31 \<Longrightarrow> int32 x = x"
  by (simp add: int32_def mod_pos_pos_trivial)

lemma advance_loop_spec:
  assumes "0 < k" "limit + k \<le> 2 ^ 31" "0 \<le> a"
  shows "\<exists>n. advance_loop k limit a = Some n \<and> limit \<le> n \<and> a \<le> n \<and> n mod k = a mod k \<and> (n = a \<or> n < limit + k)"
  using assms(3)
proof (induction "nat (limit - a)" arbitrary: a rule: less_induct)
  case less
  show ?case
  proof (cases "a < limit")
    case True
    then have "nat (limit - (a + k)) < nat (limit - a)" "0 \<le> a + k" using assms(1) less.prems by simp_all
    from less.hyps [OF this] obtain n where "advance_loop k limit (a + k) = Some n" "limit \<le> n" "a + k \<le> n" "n mod k = (a + k) mod k"
      "n = a + k \<or> n < limit + k" by blast
    moreover have "int32 (a + k) = a + k" using True assms(1,2) less.prems by (intro int32_id) linarith+
    ultimately show ?thesis using True assms(1) by (auto simp: advance_loop.simps [of k limit a])
  next
    case False
    then show ?thesis by (simp add: advance_loop.simps)
  qed
qed

lemma delay_nextcheck_spec:
  fixes k t :: int and first :: bool
  assumes "0 < k" "0 \<le> t"
  defines "limit \<equiv> t + min (k div 4) 30 + (if first then 1 else 0)"
  assumes room: "limit + k \<le> 2 ^ 31"
  shows "\<exists>n. delay_nextcheck seed k t first = Some n \<and> n mod k = int seed mod k \<and> limit \<le> n \<and> n < limit + k"
proof -
  let ?q = "t div k" and ?s = "int seed mod k"
  have q: "0 \<le> ?q" "?q \<le> t" using assms(1,2) zdiv_mono2 [of t 1 k] by (simp_all add: pos_imp_zdiv_nonneg_iff)
  have kq: "0 \<le> k * ?q" "k * ?q \<le> t"
    using q(1) assms(1) pos_mod_sign [OF assms(1), of t] mult_div_mod_eq [of k t] by (simp, linarith)
  have s: "0 \<le> ?s" "?s < k" using assms(1) by simp_all
  have l: "t \<le> limit" using assms(1) by (simp add: limit_def)
  have "?q < 2 ^ 31" "k * ?q < 2 ^ 31" "k * ?q + ?s < 2 ^ 31" using q(2) kq(2) s l room assms(1) by linarith+
  then have "int32 ?q = ?q" "int32 (k * ?q) = k * ?q" "int32 (k * ?q + ?s) = k * ?q + ?s"
    using q(1) kq(1) s(1) by (intro int32_id; linarith)+
  then have a: "int32 (int32 (k * int32 ?q) + ?s) = k * ?q + ?s" by (simp only:)
  obtain n where n: "advance_loop k limit (k * ?q + ?s) = Some n" "limit \<le> n" "n mod k = (k * ?q + ?s) mod k"
    "n = k * ?q + ?s \<or> n < limit + k"
    using advance_loop_spec [OF assms(1) room, of "k * ?q + ?s"] kq(1) s(1) by auto
  have "n mod k = ?s" using n(3) by simp
  moreover have "n < limit + k" using n(4) kq s l by auto
  moreover have "delay_nextcheck seed k t first = Some n" using n(1) a assms(1) by (simp add: delay_nextcheck_def limit_def)
  ultimately show ?thesis using n(2) by blast
qed

lemma flexible_loop_spec:
  assumes clock: "clock_ranges localtime" and fs: "wf_flexible fs" "day_delays fs" and d: "0 \<le> d" "d \<le> SEC_PER_DAY"
    and tmax: "tmax \<le> ZBX_JAN_2038" and now: "0 \<le> now"
    and t: "if first then t = now else now < t" and ret: "t < tmax \<or> tmax \<le> nextcheck \<and> now < nextcheck"
  shows "\<exists>n. nextcheck_flexible_loop localtime seed d fs tmax t first nextcheck = Some n \<and> now < n \<and>
    (week_clock localtime \<longrightarrow> n = ZBX_JAN_2038 \<or> tmax \<le> n \<or>
     get_current_delay localtime d fs n \<noteq> 0 \<and> n mod get_current_delay localtime d fs n = int seed mod get_current_delay localtime d fs n)"
  using t ret
proof (induction "nat (tmax - t)" arbitrary: t first nextcheck rule: less_induct)
  case less
  let ?D = "get_current_delay localtime d fs"
  show ?case
  proof (cases "t < tmax")
    case False
    with less.prems(2) show ?thesis by (auto simp: nextcheck_flexible_loop.simps)
  next
    case True
    have "now \<le> t" using less.prems(1) by (auto split: if_splits)
    have D: "0 \<le> ?D t" "?D t \<le> SEC_PER_DAY"
      using get_current_delay_nonneg [OF fs(1) d(1)] get_current_delay_le [OF fs(2) d(2)] by blast+
    obtain n where n: "delay_nextcheck seed (?D t) t first = Some n" "now < n" "t \<le> n"
      "n = ZBX_JAN_2038 \<or> ?D t \<noteq> 0 \<and> n mod ?D t = int seed mod ?D t"
    proof (cases "?D t = 0")
      case zero: True
      then show ?thesis using that [of ZBX_JAN_2038] True tmax \<open>now \<le> t\<close> by (simp add: delay_nextcheck_def)
    next
      case False
      then have "0 < ?D t" "0 \<le> t" using D \<open>now \<le> t\<close> now by simp_all
      moreover have "t + min (?D t div 4) 30 + (if first then 1 else 0) + ?D t \<le> 2 ^ 31"
        using True tmax D(2) by (auto simp: ZBX_JAN_2038_def SEC_PER_DAY_def min_def)
      ultimately show ?thesis
        using delay_nextcheck_spec [of "?D t" t first seed] that False less.prems(1) \<open>now \<le> t\<close> by (fastforce split: if_splits)
    qed
    have loop: "nextcheck_flexible_loop localtime seed d fs tmax t first nextcheck =
        (case get_next_delay_interval localtime fs t of
           None \<Rightarrow> Some n
         | Some ni \<Rightarrow> if ni \<le> n then nextcheck_flexible_loop localtime seed d fs tmax ni False n else Some n)"
      using True n(1) by (simp add: nextcheck_flexible_loop.simps [of localtime seed d fs tmax t])
    show ?thesis
    proof (cases "get_next_delay_interval localtime fs t")
      case None
      then have "fs = []" using get_next_delay_interval_spec [OF clock fs(1), of t] by (cases "fs = []") auto
      then have "?D n = ?D t" by (simp add: get_current_delay_def)
      then show ?thesis using None n by (auto simp: loop)
    next
      case (Some ni)
      then have "fs \<noteq> []" by (auto simp: get_next_delay_interval_def)
      then have ni: "t < ni" using get_next_delay_interval_spec [OF clock fs(1), of t] Some by auto
      show ?thesis
      proof (cases "ni \<le> n")
        case le: True
        have "nat (tmax - ni) < nat (tmax - t)" using ni True by simp
        moreover have "if False then ni = now else now < ni" using ni \<open>now \<le> t\<close> by simp
        moreover have "ni < tmax \<or> tmax \<le> n \<and> now < n" using le n(2) by auto
        ultimately show ?thesis using less.hyps [of ni False n] Some le by (simp add: loop)
      next
        case False
        then have "?D n = ?D t" if "week_clock localtime"
          using get_current_delay_stable [OF that fs(1) Some n(3)] by simp
        then show ?thesis using Some False n by (auto simp: loop)
      qed
    qed
  qed
qed

text \<open>
  The \<open>int\<close> overflows for a flexible delay of almost 68 years, which the parser accepts: the first
  sum is beyond the largest \<open>int\<close>; with sums that wrap, the loop goes on until one of them is late enough, and the result is
  off the grid.
\<close>

lemma nextcheck_overflow:
  "delay_nextcheck 17 2147483647 1700000000 True = Some 2147483646 \<and> (2147483646 :: int) mod 2147483647 \<noteq> 17"
  by code_simp

section \<open>Properties\<close>

text \<open>The weekday and time of day at Greenwich, as an example of a clock without daylight saving.\<close>

definition greenwich :: "int \<Rightarrow> tm" where
  "greenwich t =
     \<lparr>tm_sec = t mod 60, tm_min = t div 60 mod 60, tm_hour = t div 3600 mod 24, tm_mday = 1, tm_mon = 0, tm_year = 70,
      tm_wday = (t div 86400 + 4) mod 7, tm_isdst = 0\<rparr>"

lemma greenwich_day: "tm_day (greenwich t) = (t div 86400 + 3) mod 7 + 1"
proof -
  have "(if (a + 4) mod 7 = 0 then 7 else (a + 4) mod 7) = (a + 3) mod 7 + 1" for a :: int
  proof -
    define r where "r = (a + 3) mod 7"
    have r: "0 \<le> r" "r < 7" by (simp_all add: r_def)
    have "(a + 4) mod 7 = (r + 1) mod 7" using mod_add_left_eq [of "a + 3" 7 1] by (simp add: r_def add.commute)
    then show ?thesis using r by (cases "r = 6") (simp_all add: r_def [symmetric] mod_pos_pos_trivial)
  qed
  moreover have "tm_wday (greenwich t) = (t div 86400 + 4) mod 7" by (simp add: greenwich_def)
  ultimately show ?thesis unfolding tm_day_def by (simp only:)
qed

lemma greenwich_time: "tm_time (greenwich t) = t mod 86400"
proof -
  have z: "(0 :: int) \<le> 24" "(0 :: int) \<le> 60" "86400 = 3600 * (24 :: int)" "3600 = 60 * (60 :: int)" by simp_all
  have "t mod 86400 = 3600 * (t div 3600 mod 24) + t mod 3600" unfolding z(3) by (rule zmod_zmult2_eq [OF z(1)])
  also have "t mod 3600 = 60 * (t div 60 mod 60) + t mod 60" unfolding z(4) by (rule zmod_zmult2_eq [OF z(2)])
  finally show ?thesis
    by (simp only: tm_time_def greenwich_def tm.select_convs SEC_PER_HOUR_def SEC_PER_MIN_def add.assoc)
qed

lemma greenwich_week: "(tm_day (greenwich t) - 1) * 86400 + tm_time (greenwich t) = (t + 259200) mod 604800"
proof -
  have "(t + 259200) div 86400 = t div 86400 + 3" "(t + 259200) mod 86400 = t mod 86400"
    using div_mult_self1 [of 86400 t 3] mod_mult_self1 [of t 3 86400] by simp_all
  then show ?thesis using zmod_zmult2_eq [of 7 "t + 259200" 86400] by (simp add: greenwich_day greenwich_time)
qed

lemma week_clock_greenwich: "week_clock greenwich"
proof -
  have "(t + d + 259200) mod 604800 = ((t + 259200) mod 604800 + d) mod 604800" for t d :: int
    using mod_add_left_eq [of "t + 259200" 604800 d] by (simp add: algebra_simps)
  then show ?thesis
    unfolding week_clock_def clock_ranges_def greenwich_week by (auto simp: greenwich_day greenwich_time greenwich_week)
qed

text \<open>
  C22. \<open>get_next_delay_interval\<close> never returns a time that is too late.  In a zone without daylight saving, with
  at least one flexible interval, it returns a later time, and up to that time the delay that applies
  does not change.
\<close>

theorem flexible_delay_stable:
  assumes "week_clock localtime" "wf_flexible fs" "fs \<noteq> []"
  shows "\<exists>n. get_next_delay_interval localtime fs now = Some n \<and> now < n \<and>
    (\<forall>t \<in> {now..<n}. get_current_delay localtime d fs t = get_current_delay localtime d fs now)"
proof -
  obtain n where n: "get_next_delay_interval localtime fs now = Some n" "now < n"
    using get_next_delay_interval_spec [OF week_clock_ranges [OF assms(1)] assms(2,3), of now] by (elim exE conjE)
  have "get_current_delay localtime d fs t = get_current_delay localtime d fs now" if "t \<in> {now..<n}" for t
    using that by (intro get_current_delay_stable [OF assms(1,2) n(1)]) auto
  with n show ?thesis by (intro exI [of _ n] conjI ballI)
qed

definition office_hours :: zbx_flexible_interval where
  "office_hours = \<lparr>period = \<lparr>start_day = 1, end_day = 5, start_time = 32400, end_time = 64800\<rparr>, delay = 10\<rparr>"

theorem flexible_delay_stable_witness:
  "\<exists>n. get_next_delay_interval greenwich [office_hours] 0 = Some n \<and> 0 < n"
proof -
  have "wf_flexible [office_hours]" by code_simp
  from flexible_delay_stable [OF week_clock_greenwich this, of 0] show ?thesis by auto
qed

text \<open>
  C9. The next check of an item is on the grid of its delay.  For an item that is not active, at a time at least a year before
  2038, with an update interval and flexible delays of at most a day (which excludes an overflow of the \<open>int\<close> that the check is
  computed in):
  without custom intervals and with a delay, the check is the only time in the delay after the minimal pause that is congruent
  to the seed modulo the delay.  With flexible intervals the calculation ends in every time zone, although it walks from
  interval to interval, and finds a time later than now; in a zone without daylight saving and other changes of the offset, this time
  is \<open>ZBX_JAN_2038\<close> (no check), or it is at
  least a year away, or it is congruent to the seed modulo the delay that applies at the time of the check itself.
  The check is this time, or the time from the scheduling intervals when their search ends with an earlier one.
\<close>

theorem item_nextcheck_on_grid:
  assumes "clock_ranges localtime" "wf_flexible fs" "day_delays fs" "0 \<le> d" "d \<le> SEC_PER_DAY"
    "0 \<le> now" "now + SEC_PER_YEAR \<le> ZBX_JAN_2038"
  shows "(0 < d \<longrightarrow> (\<exists>n. zbx_calculate_item_nextcheck localtime mktime time_dst seed False d None now = Some n \<and>
      n mod d = int seed mod d \<and> now + min (d div 4) 30 < n \<and> n \<le> now + min (d div 4) 30 + d)) \<and>
    (\<exists>n. now < n \<and>
      (week_clock localtime \<longrightarrow> n = ZBX_JAN_2038 \<or> now + SEC_PER_YEAR \<le> n \<or>
       get_current_delay localtime d fs n \<noteq> 0 \<and> n mod get_current_delay localtime d fs n = int seed mod get_current_delay localtime d fs n) \<and>
      (\<forall>sched check dst. scheduler_get_nextcheck localtime mktime time_dst sched now = Some (check, dst) \<longrightarrow>
        zbx_calculate_item_nextcheck localtime mktime time_dst seed False d (Some \<lparr>flexible = fs, scheduling = sched\<rparr>) now =
          Some (if check \<noteq> 0 \<and> check < n then int32 check else n)))"
proof (intro conjI impI)
  have "now + min (d div 4) 30 + 1 + d \<le> 2 ^ 31"
    using assms(5-7) by (auto simp: ZBX_JAN_2038_def SEC_PER_YEAR_def SEC_PER_DAY_def min_def)
  then show "\<exists>n. zbx_calculate_item_nextcheck localtime mktime time_dst seed False d None now = Some n \<and>
      n mod d = int seed mod d \<and> now + min (d div 4) 30 < n \<and> n \<le> now + min (d div 4) 30 + d" if "0 < d"
    using delay_nextcheck_spec [OF that assms(6), of True seed] by (force simp: zbx_calculate_item_nextcheck_def)
  have "now < now + SEC_PER_YEAR" by (simp add: SEC_PER_YEAR_def SEC_PER_DAY_def)
  then show "\<exists>n. now < n \<and>
      (week_clock localtime \<longrightarrow> n = ZBX_JAN_2038 \<or> now + SEC_PER_YEAR \<le> n \<or>
       get_current_delay localtime d fs n \<noteq> 0 \<and> n mod get_current_delay localtime d fs n = int seed mod get_current_delay localtime d fs n) \<and>
      (\<forall>sched check dst. scheduler_get_nextcheck localtime mktime time_dst sched now = Some (check, dst) \<longrightarrow>
        zbx_calculate_item_nextcheck localtime mktime time_dst seed False d (Some \<lparr>flexible = fs, scheduling = sched\<rparr>) now =
          Some (if check \<noteq> 0 \<and> check < n then int32 check else n))"
    using flexible_loop_spec [OF assms(1-5,7,6), of True now 0 seed]
    by (auto simp: zbx_calculate_item_nextcheck_def)
qed

theorem item_nextcheck_on_grid_witness:
  "\<exists>n. zbx_calculate_item_nextcheck greenwich (\<lambda>_. -1) 0 17 False 60 (Some \<lparr>flexible = [office_hours], scheduling = []\<rparr>) 1000 = Some n \<and>
     1000 < n \<and> (n = ZBX_JAN_2038 \<or> 31537000 \<le> n \<or>
       n mod get_current_delay greenwich 60 [office_hours] n = 17 mod get_current_delay greenwich 60 [office_hours] n)"
proof -
  have "wf_flexible [office_hours]" "day_delays [office_hours]" "0 \<le> (60 :: int)" "60 \<le> SEC_PER_DAY" "0 \<le> (1000 :: int)" "1000 + SEC_PER_YEAR \<le> ZBX_JAN_2038"
    by code_simp+
  note * = item_nextcheck_on_grid [OF week_clock_ranges [OF week_clock_greenwich] this, of "\<lambda>_. -1" 0 17]
  have "scheduler_get_nextcheck greenwich (\<lambda>_. -1) 0 [] 1000 = Some (0, 0)" by code_simp
  with * week_clock_greenwich show ?thesis by (auto simp: SEC_PER_YEAR_def SEC_PER_DAY_def)
qed

end
