(* ===== verification/Sched_Parse.thy ===== *)
theory Sched_Parse
  imports Sched_Props Sched_Check_Props
begin

text \<open>
  \<open>src/libs/zbxexpr/interval.c\<close>, parsing of update intervals such as \<open>1m;30s/1-5,09:00-18:00;md1h9\<close>, and
  \<open>zbx_is_time_suffix\<close> of \<open>src/libs/zbxtime/time.c\<close>.

  The functions of the code take a pointer and the number of characters that belong to the interval; after them
  comes a semicolon or the end of the string, neither of which is part of an interval.  Here the argument is the
  list of these characters, and a function that moves the pointer returns the list from there on.
  \<open>None\<close> is the return value \<open>FAIL\<close>.
\<close>

section \<open>Numbers and times\<close>

abbreviation (input) at :: "char \<Rightarrow> string \<Rightarrow> bool" where
  "at c s \<equiv> s \<noteq> [] \<and> hd s = c"

text \<open>The digits and, if there is no overflow of an \<open>int\<close>, their value.\<close>

fun suffix_digits :: "string \<Rightarrow> int \<Rightarrow> (int \<times> string) option" where
  "suffix_digits [] v = Some (v, [])"
| "suffix_digits (ch # str) v =
     (if isdigit ch then
        (let c = int (ord ch) - 48 in if (0x7fffffff - c) div 10 < v then None else suffix_digits str (v * 10 + c))
      else Some (v, ch # str))"

definition suffix_factor :: "char \<Rightarrow> int option" where
  "suffix_factor c =
     (if c = CHR ''s'' then Some 1 else if c = CHR ''m'' then Some SEC_PER_MIN else if c = CHR ''h'' then Some SEC_PER_HOUR
      else if c = CHR ''d'' then Some SEC_PER_DAY else if c = CHR ''w'' then Some SEC_PER_WEEK else None)"

definition zbx_is_time_suffix :: "string \<Rightarrow> int option" where
  "zbx_is_time_suffix str =
     (if str = [] \<or> \<not> isdigit (hd str) then None
      else
        (case suffix_digits str 0 of
           None \<Rightarrow> None
         | Some (v, rest) \<Rightarrow>
             (case (if rest = [] then Some (1, []) else map_option (\<lambda>f. (f, tl rest)) (suffix_factor (hd rest))) of
                None \<Rightarrow> None
              | Some (factor, rest) \<Rightarrow>
                  if rest \<noteq> [] then None else if 0x7fffffff div factor < v then None else Some (v * factor))))"

text \<open>\<open>zbx_is_uint_n_range\<close> into an \<open>int\<close>.\<close>

definition int_in_range :: "string \<Rightarrow> int \<Rightarrow> int \<Rightarrow> int option" where
  "int_in_range digits lo hi =
     (case zbx_is_uint_n_range digits (length digits) 4 (of_int lo) (of_int hi) of
        (ret, Some v) \<Rightarrow> if ret = SUCCEED then Some (uint v) else None
      | _ \<Rightarrow> None)"

definition time_parse :: "string \<Rightarrow> (int \<times> string) option" where
  "time_parse text =
     (let digits = takeWhile isdigit (take 3 text); ptr = drop (length digits) text in
      case int_in_range digits 0 24 of
        None \<Rightarrow> None
      | Some hs \<Rightarrow>
          if \<not> at CHR '':'' ptr then None
          else
            (let text = tl ptr; digits = takeWhile isdigit (take 3 text); ptr = drop (length digits) text in
             if length digits \<noteq> 2 then None
             else (case int_in_range digits 0 59 of
                     None \<Rightarrow> None
                   | Some mins \<Rightarrow>
                       if hs = 24 \<and> mins \<noteq> 0 then None else Some (SEC_PER_HOUR * hs + SEC_PER_MIN * mins, ptr))))"

definition week_day :: "string \<Rightarrow> (int \<times> string) option" where
  "week_day text =
     (case text of [] \<Rightarrow> None
      | c # text \<Rightarrow> if ord c < ord CHR ''1'' \<or> ord CHR ''7'' < ord c then None else Some (int (ord c) - 48, text))"

definition time_period_parse :: "string \<Rightarrow> zbx_time_period option" where
  "time_period_parse text =
     Option.bind (week_day text) (\<lambda>(sd, text).
     Option.bind (if text = [] then None
                  else if hd text = CHR ''-'' then
                    Option.bind (week_day (tl text)) (\<lambda>(ed, text). if ed < sd then None else Some (ed, text))
                  else Some (sd, text)) (\<lambda>(ed, text).
     if \<not> at CHR '','' text then None else
     Option.bind (time_parse (tl text)) (\<lambda>(st, text).
     if \<not> at CHR ''-'' text then None else
     Option.bind (time_parse (tl text)) (\<lambda>(et, text).
     if et \<le> st then None else if text \<noteq> [] then None
     else Some \<lparr>start_day = sd, end_day = ed, start_time = st, end_time = et\<rparr>))))"

section \<open>Scheduling intervals\<close>

text \<open>One fragment of a filter: start, end and step, and the rest of the text.\<close>

definition filter_range :: "string \<Rightarrow> int \<Rightarrow> int \<Rightarrow> nat \<Rightarrow> (int \<times> int \<times> string) option" where
  "filter_range text lo hi var_len =
     (let digits = takeWhile isdigit text; pend = dropWhile isdigit text in
      if digits = [] then Some (lo, hi, pend)
      else if var_len < length digits then None
      else
        (case int_in_range digits lo hi of
           None \<Rightarrow> None
         | Some start \<Rightarrow>
             if at CHR ''-'' pend then
               (let digits = takeWhile isdigit (tl pend); pend = dropWhile isdigit (tl pend) in
                if digits = [] \<or> var_len < length digits then None
                else (case int_in_range digits lo hi of
                        None \<Rightarrow> None
                      | Some end' \<Rightarrow> if end' < start then None else Some (start, end', pend)))
             else if at CHR ''/'' pend then None
             else Some (start, start, pend)))"

definition filter_step :: "string \<Rightarrow> string \<Rightarrow> int \<Rightarrow> nat \<Rightarrow> (int \<times> string) option" where
  "filter_step text pend span var_len =
     (if at CHR ''/'' pend then
        (let digits = takeWhile isdigit (tl pend); pend = dropWhile isdigit (tl pend) in
         if digits = [] \<or> var_len < length digits then None
         else map_option (\<lambda>step. (step, pend)) (int_in_range digits 1 span))
      else if pend = text then None
      else Some (1, pend))"

definition filter_fragment :: "string \<Rightarrow> int \<Rightarrow> int \<Rightarrow> nat \<Rightarrow> (zbx_scheduler_filter \<times> string) option" where
  "filter_fragment text lo hi var_len =
     Option.bind (filter_range text lo hi var_len) (\<lambda>(start, end', pend).
     Option.bind (filter_step text pend (end' - start) var_len) (\<lambda>(step, pend).
       Some (\<lparr>f_start = start, f_end = end', f_step = step\<rparr>, pend)))"

lemma filter_fragment_length:
  assumes "filter_fragment text lo hi var_len = Some (f, pend)"
  shows "length pend \<le> length text"
proof -
  have d: "length (dropWhile isdigit s) \<le> length s" for s by (rule length_dropWhile_le)
  have r: "length p \<le> length text" if "filter_range text lo hi var_len = Some (a, b, p)" for a b p
    using that d [of "text"] d [of "tl (dropWhile isdigit text)"]
    by (auto simp: filter_range_def Let_def split: if_splits option.splits)
  have s: "length q \<le> length p" if "filter_step text p span var_len = Some (k, q)" for p q span k
    using that d [of "tl p"] by (auto simp: filter_step_def Let_def split: if_splits)
  show ?thesis using assms r s by (fastforce simp: filter_fragment_def bind_eq_Some_conv)
qed

function scheduler_parse_filter_r :: "string \<Rightarrow> int \<Rightarrow> int \<Rightarrow> nat \<Rightarrow> (zbx_scheduler_filter list \<times> string) option" where
  "scheduler_parse_filter_r text lo hi var_len =
     (case filter_fragment text lo hi var_len of
        None \<Rightarrow> None
      | Some (f, pend) \<Rightarrow>
          if at CHR '','' pend then
            (if tl pend = [] then None
             else (case scheduler_parse_filter_r (tl pend) lo hi var_len of
                     None \<Rightarrow> None
                   | Some (fs, pend) \<Rightarrow> Some (f # fs, pend)))
          else Some ([f], pend))"
  by pat_completeness auto
termination
  by (relation "measure (\<lambda>(text, lo, hi, var_len). length text)")
    (auto dest!: filter_fragment_length simp: length_greater_0_conv [symmetric] simp del: length_greater_0_conv)

declare scheduler_parse_filter_r.simps [simp del]

text \<open>A filter can be given once.\<close>

definition scheduler_parse_filter ::
  "zbx_scheduler_filter list \<Rightarrow> string \<Rightarrow> int \<Rightarrow> int \<Rightarrow> nat \<Rightarrow> (zbx_scheduler_filter list \<times> string) option" where
  "scheduler_parse_filter old text lo hi var_len =
     (if old \<noteq> [] then None else scheduler_parse_filter_r text lo hi var_len)"

definition interval_part :: "zbx_scheduler_interval \<Rightarrow> char \<Rightarrow> string \<Rightarrow> (zbx_scheduler_interval \<times> string) option" where
  "interval_part I c text =
     (if c = CHR ''h'' then
        (if ZBX_SCHEDULER_FILTER_HOUR < filter_level I then None
         else map_option (\<lambda>(fs, text). (I\<lparr>hours := fs, filter_level := ZBX_SCHEDULER_FILTER_HOUR\<rparr>, text))
                (scheduler_parse_filter (hours I) text 0 23 2))
      else if c = CHR ''s'' then
        (if ZBX_SCHEDULER_FILTER_SECOND < filter_level I then None
         else map_option (\<lambda>(fs, text). (I\<lparr>seconds := fs, filter_level := ZBX_SCHEDULER_FILTER_SECOND\<rparr>, text))
                (scheduler_parse_filter (seconds I) text 0 59 2))
      else if c = CHR ''w'' then
        (if \<not> at CHR ''d'' text \<or> ZBX_SCHEDULER_FILTER_DAY < filter_level I then None
         else map_option (\<lambda>(fs, text). (I\<lparr>wdays := fs, filter_level := ZBX_SCHEDULER_FILTER_DAY\<rparr>, text))
                (scheduler_parse_filter (wdays I) (tl text) 1 7 1))
      else if c = CHR ''m'' then
        (if at CHR ''d'' text then
           (if ZBX_SCHEDULER_FILTER_DAY < filter_level I \<or> wdays I \<noteq> [] then None
            else map_option (\<lambda>(fs, text). (I\<lparr>mdays := fs, filter_level := ZBX_SCHEDULER_FILTER_DAY\<rparr>, text))
                   (scheduler_parse_filter (mdays I) (tl text) 1 31 2))
         else
           (if ZBX_SCHEDULER_FILTER_MINUTE < filter_level I then None
            else map_option (\<lambda>(fs, text). (I\<lparr>minutes := fs, filter_level := ZBX_SCHEDULER_FILTER_MINUTE\<rparr>, text))
                   (scheduler_parse_filter (minutes I) text 0 59 2)))
      else None)"

lemma parse_filter_r_length:
  "scheduler_parse_filter_r text lo hi var_len = Some (fs, pend) \<Longrightarrow> length pend \<le> length text"
proof (induction "text" lo hi var_len arbitrary: fs pend rule: scheduler_parse_filter_r.induct)
  case (1 "text" lo hi var_len)
  obtain f p where f: "filter_fragment text lo hi var_len = Some (f, p)"
    using 1(2) by (auto simp: scheduler_parse_filter_r.simps [of "text"] split: option.splits)
  note len = filter_fragment_length [OF f]
  show ?case
  proof (cases "at CHR '','' p")
    case True
    then obtain fs' where "scheduler_parse_filter_r (tl p) lo hi var_len = Some (fs', pend)" "tl p \<noteq> []"
      using 1(2) f by (auto simp: scheduler_parse_filter_r.simps [of "text"] split: if_splits option.splits)
    from 1(1) [OF f refl True this(2) this(1)] len show ?thesis by simp
  next
    case False
    then show ?thesis using 1(2) f len by (auto simp: scheduler_parse_filter_r.simps [of "text"] split: if_splits)
  qed
qed

lemma interval_part_length:
  "interval_part I c text = Some (I', text') \<Longrightarrow> length text' \<le> length text"
  by (auto simp: interval_part_def scheduler_parse_filter_def split: if_splits dest!: parse_filter_r_length)

function interval_parts :: "zbx_scheduler_interval \<Rightarrow> string \<Rightarrow> zbx_scheduler_interval option" where
  "interval_parts I [] = Some I"
| "interval_parts I (c # text) =
     (case interval_part I c text of None \<Rightarrow> None | Some (I', text') \<Rightarrow> interval_parts I' text')"
  by pat_completeness auto
termination
  by (relation "measure (\<lambda>(I, text). length text)") (auto dest: interval_part_length)

definition empty_interval :: zbx_scheduler_interval where
  "empty_interval = \<lparr>mdays = [], wdays = [], hours = [], minutes = [], seconds = [], filter_level = 0\<rparr>"

definition scheduler_interval_parse :: "zbx_scheduler_interval \<Rightarrow> string \<Rightarrow> zbx_scheduler_interval option" where
  "scheduler_interval_parse I text = (if text = [] then None else interval_parts I text)"

section \<open>Update intervals\<close>

definition flexible_interval_parse :: "string \<Rightarrow> zbx_flexible_interval option" where
  "flexible_interval_parse text =
     (let head = takeWhile (\<lambda>c. c \<noteq> CHR ''/'') text; ptr = dropWhile (\<lambda>c. c \<noteq> CHR ''/'') text in
      case zbx_is_time_suffix head of
        None \<Rightarrow> None
      | Some d \<Rightarrow>
          if ptr = [] then None else map_option (\<lambda>p. \<lparr>period = p, delay = d\<rparr>) (time_period_parse (tl ptr)))"

text \<open>The text up to the semicolon, and what follows it.\<close>

definition segment :: "string \<Rightarrow> string \<times> string option" where
  "segment s =
     (takeWhile (\<lambda>c. c \<noteq> CHR '';'') s,
      case dropWhile (\<lambda>c. c \<noteq> CHR '';'') s of [] \<Rightarrow> None | _ # r \<Rightarrow> Some r)"

lemma segment_length: "segment s = (a, Some r) \<Longrightarrow> length r < length s"
  using length_dropWhile_le [of "\<lambda>c. c \<noteq> CHR '';''" s] by (auto simp: segment_def split: list.splits)

function custom_segments ::
  "int \<Rightarrow> string option \<Rightarrow> zbx_flexible_interval list \<Rightarrow> zbx_scheduler_interval list \<Rightarrow> zbx_custom_interval option" where
  "custom_segments simple None flex sched = Some \<lparr>flexible = flex, scheduling = sched\<rparr>"
| "custom_segments simple (Some s) flex sched =
     (case segment s of
        (text, rest) \<Rightarrow>
          if text \<noteq> [] \<and> isdigit (hd text) then
            (case flexible_interval_parse text of
               None \<Rightarrow> None
             | Some f \<Rightarrow> if simple = 0 \<and> delay f = 0 then None else custom_segments simple rest (f # flex) sched)
          else
            (case scheduler_interval_parse empty_interval text of
               None \<Rightarrow> None
             | Some i \<Rightarrow> custom_segments simple rest flex (i # sched)))"
  by pat_completeness auto
termination
  by (relation "measure (\<lambda>(simple, s, flex, sched). case s of None \<Rightarrow> 0 | Some s \<Rightarrow> Suc (length s))")
    (auto split: option.splits dest: segment_length [OF sym])

text \<open>The update interval and, when the caller asks for them, the custom intervals; \<open>simple_interval\<close> is an output too.\<close>

definition zbx_interval_preproc :: "string \<Rightarrow> bool \<Rightarrow> (int \<times> zbx_custom_interval option) option" where
  "zbx_interval_preproc interval_str custom_intervals =
     (case segment interval_str of
        (text, delim) \<Rightarrow>
          (case zbx_is_time_suffix text of
             None \<Rightarrow> None
           | Some simple \<Rightarrow>
               if \<not> custom_intervals then Some (simple, None)
               else
                 (case custom_segments simple delim [] [] of
                    None \<Rightarrow> None
                  | Some ci \<Rightarrow>
                      if flexible ci = [] \<and> scheduling ci = [] \<and> simple = 0 \<or> SEC_PER_DAY < simple
                      then None else Some (simple, Some ci))))"

text \<open>The time is in one of the periods; every period has to be well formed.\<close>

function time_period_loop :: "string \<Rightarrow> tm \<Rightarrow> bool \<Rightarrow> bool option" where
  "time_period_loop period_str t res_total =
     (case segment period_str of
        (text, delim) \<Rightarrow>
          (case time_period_parse text of
             None \<Rightarrow> None
           | Some tp \<Rightarrow>
               (let res_total = (check_time_period tp t \<or> res_total)
                in case delim of None \<Rightarrow> Some res_total | Some rest \<Rightarrow> time_period_loop rest t res_total)))"
  by pat_completeness auto
termination
  by (relation "measure (\<lambda>(s, t, res). length s)") (auto dest: segment_length [OF sym])

declare time_period_loop.simps [simp del]

definition zbx_check_time_period :: "(int \<Rightarrow> tm) \<Rightarrow> string \<Rightarrow> int \<Rightarrow> bool option" where
  "zbx_check_time_period localtime period_str time = time_period_loop period_str (localtime time) False"

text \<open>The result, the time of the next check and whether the item has scheduling intervals.\<close>

definition zbx_get_agent_item_nextcheck ::
  "(int \<Rightarrow> tm) \<Rightarrow> (tm \<Rightarrow> int) \<Rightarrow> int \<Rightarrow> nat \<Rightarrow> string \<Rightarrow> int \<Rightarrow> (int \<times> int \<times> bool option) option" where
  "zbx_get_agent_item_nextcheck localtime mktime time_dst itemid delay_str now =
     (case zbx_interval_preproc delay_str True of
        Some (simple, Some ci) \<Rightarrow>
          map_option (\<lambda>nextcheck. (SUCCEED, nextcheck, Some (scheduling ci \<noteq> [])))
            (zbx_calculate_item_nextcheck localtime mktime time_dst itemid False simple (Some ci) now)
      | _ \<Rightarrow> Some (FAIL, ZBX_JAN_2038, None))"

section \<open>What the parsers accept\<close>

lemma uint_low_word:
  assumes "n < (2 :: nat) ^ 31"
  shows "uint (take_bit 32 (of_nat n :: u64)) = int n"
proof -
  have "uint (take_bit 32 (of_nat n :: u64)) = take_bit 32 (take_bit 64 (int n))"
    by (simp add: unsigned_take_bit_eq unsigned_of_nat take_bit_of_nat)
  also have "\<dots> = int n" using assms by (simp add: take_bit_int_eq_self_iff)
  finally show ?thesis .
qed

lemma int_in_range_bounds:
  assumes "int_in_range ds lo hi = Some v" "0 \<le> lo" "lo < 2 ^ 31" "0 \<le> hi" "hi < 2 ^ 31"
  shows "lo \<le> v \<and> v \<le> hi"
proof -
  define n where "n = digits_val 10 dec_digit (take (length ds) ds)"
  have hi: "unat (word_of_int hi :: u64) = nat hi"
    using assms(4,5) by (simp add: unat_eq_nat_uint uint_word_of_int)
  have c: "unat (word_of_int lo :: u64) \<le> n" "n \<le> nat hi" "v = uint (take_bit 32 (of_nat n :: u64))"
    using assms(1) hi by (auto simp: int_in_range_def is_uint_range Let_def store_uint_def n_def split: if_splits)
  have n: "n < 2 ^ 31" using c(2) assms(4,5) by (simp add: nat_less_iff)
  have v: "v = int n" using c(3) uint_low_word [OF n] by simp
  have "unat (word_of_int lo :: u64) = nat lo" using assms(2,3) by (simp add: unat_eq_nat_uint uint_word_of_int)
  then show ?thesis using c(1,2) v assms(4) by linarith
qed

lemma filter_fragment_wf:
  assumes "filter_fragment text lo hi var_len = Some (f, pend)" "0 \<le> lo" "lo \<le> hi" "hi < 2 ^ 31"
  shows "wf_filter lo hi f"
proof -
  note b = int_in_range_bounds [OF _ assms(2)]
  have r: "lo \<le> a \<and> a \<le> b \<and> b \<le> hi" if "filter_range text lo hi var_len = Some (a, b, p)" for a b p
    using that assms(2-4) by (auto simp: filter_range_def Let_def split: if_splits option.splits dest!: b)
  have s: "1 \<le> k" if "filter_step text p span var_len = Some (k, q)" "0 \<le> span" "span < 2 ^ 31" for p q span k
    using that by (auto simp: filter_step_def Let_def split: if_splits dest!: int_in_range_bounds)
  obtain a b p k where r': "filter_range text lo hi var_len = Some (a, b, p)"
    and k: "filter_step text p (b - a) var_len = Some (k, pend)" and f: "f = \<lparr>f_start = a, f_end = b, f_step = k\<rparr>"
    using assms(1) by (auto simp: filter_fragment_def bind_eq_Some_conv)
  show ?thesis using r [OF r'] s [OF k] assms(2-4) by (simp add: f wf_filter_def)
qed

lemma parse_filter_r_wf:
  "scheduler_parse_filter_r text lo hi var_len = Some (fs, pend) \<Longrightarrow> 0 \<le> lo \<Longrightarrow> lo \<le> hi \<Longrightarrow> hi < 2 ^ 31 \<Longrightarrow>
   wf_chain lo hi fs"
proof (induction "text" lo hi var_len arbitrary: fs pend rule: scheduler_parse_filter_r.induct)
  case (1 "text" lo hi var_len)
  obtain f p where f: "filter_fragment text lo hi var_len = Some (f, p)"
    using 1(2) by (auto simp: scheduler_parse_filter_r.simps [of "text"] split: option.splits)
  note wf = filter_fragment_wf [OF f 1(3-5)]
  show ?case
  proof (cases "at CHR '','' p")
    case True
    then obtain fs' where fs: "scheduler_parse_filter_r (tl p) lo hi var_len = Some (fs', pend)" "tl p \<noteq> []" "fs = f # fs'"
      using 1(2) f by (auto simp: scheduler_parse_filter_r.simps [of "text"] split: if_splits option.splits)
    from 1(1) [OF f refl True fs(2,1) 1(3-5)] wf fs(3) show ?thesis by (simp add: wf_chain_def)
  next
    case False
    then show ?thesis using 1(2) f wf by (auto simp: scheduler_parse_filter_r.simps [of "text"] wf_chain_def split: if_splits)
  qed
qed

lemma interval_part_wf:
  "interval_part I c text = Some (I', text') \<Longrightarrow> wf_interval I \<Longrightarrow> wf_interval I'"
  by (auto simp: interval_part_def scheduler_parse_filter_def wf_interval_def split: if_splits dest!: parse_filter_r_wf)

lemma interval_parts_wf: "interval_parts I text = Some I' \<Longrightarrow> wf_interval I \<Longrightarrow> wf_interval I'"
  by (induction I "text" rule: interval_parts.induct) (auto split: option.splits dest: interval_part_wf)

lemma scheduler_interval_parse_wf: "scheduler_interval_parse empty_interval text = Some I \<Longrightarrow> wf_interval I"
  by (auto simp: scheduler_interval_parse_def empty_interval_def wf_interval_def wf_chain_def split: if_splits
    dest!: interval_parts_wf)

lemma time_parse_bounds:
  assumes "time_parse text = Some (v, pend)"
  shows "0 \<le> v \<and> v \<le> SEC_PER_DAY"
proof -
  obtain ds hs ds' mins where h: "int_in_range ds 0 24 = Some hs" "int_in_range ds' 0 59 = Some mins"
    "hs = 24 \<longrightarrow> mins = 0" "v = SEC_PER_HOUR * hs + SEC_PER_MIN * mins"
    using assms by (auto simp: time_parse_def Let_def split: if_splits option.splits)
  show ?thesis using int_in_range_bounds [OF h(1)] int_in_range_bounds [OF h(2)] h(3,4)
    by (auto simp: SEC_PER_HOUR_def SEC_PER_MIN_def SEC_PER_DAY_def)
qed

lemma week_day_bounds: "week_day text = Some (d, pend) \<Longrightarrow> 1 \<le> d \<and> d \<le> 7"
  by (auto simp: week_day_def split: list.splits if_splits)

lemma time_period_parse_wf: "time_period_parse text = Some p \<Longrightarrow> wf_period p"
  by (auto simp: time_period_parse_def wf_period_def bind_eq_Some_conv split: if_splits
    dest!: time_parse_bounds week_day_bounds)

lemma suffix_digits_nonneg: "suffix_digits str v = Some (w, rest) \<Longrightarrow> 0 \<le> v \<Longrightarrow> 0 \<le> w"
  by (induction str v rule: suffix_digits.induct) (auto simp: Let_def isdigit_def split: if_splits)

lemma time_suffix_bounds:
  assumes "zbx_is_time_suffix str = Some v"
  shows "0 \<le> v \<and> v < 2 ^ 31"
proof -
  have "0 \<le> w" if "suffix_digits str 0 = Some (w, r)" for w r using suffix_digits_nonneg [OF that] by simp
  then show ?thesis
    using assms by (fastforce simp: zbx_is_time_suffix_def suffix_factor_def SEC_PER_MIN_def SEC_PER_HOUR_def SEC_PER_DAY_def
      SEC_PER_WEEK_def split: option.splits if_splits)
qed

lemma flexible_interval_parse_wf: "flexible_interval_parse text = Some f \<Longrightarrow> wf_period (period f) \<and> 0 \<le> delay f"
  by (auto simp: flexible_interval_parse_def Let_def split: option.splits if_splits
    dest!: time_period_parse_wf time_suffix_bounds)

lemma custom_segments_wf:
  "custom_segments simple s flex sched = Some ci \<Longrightarrow> wf_flexible flex \<Longrightarrow> list_all wf_interval sched \<Longrightarrow>
   simple = 0 \<longrightarrow> list_all (\<lambda>f. 0 < delay f) flex \<Longrightarrow>
   wf_flexible (flexible ci) \<and> list_all wf_interval (scheduling ci) \<and> (simple = 0 \<longrightarrow> list_all (\<lambda>f. 0 < delay f) (flexible ci))"
proof (induction simple s flex sched rule: custom_segments.induct)
  case (1 simple flex sched)
  then show ?case by auto
next
  case (2 simple s flex sched)
  obtain t r where seg: "segment s = (t, r)" by fastforce
  show ?case
  proof (cases "t \<noteq> [] \<and> isdigit (hd t)")
    case True
    then obtain f where f: "flexible_interval_parse t = Some f" "\<not> (simple = 0 \<and> delay f = 0)"
      "custom_segments simple r (f # flex) sched = Some ci"
      using 2(3) seg by (auto split: option.splits if_splits)
    have "wf_flexible (f # flex)" using 2(4) flexible_interval_parse_wf [OF f(1)] by (simp add: wf_flexible_def)
    moreover have "simple = 0 \<longrightarrow> list_all (\<lambda>f. 0 < delay f) (f # flex)"
      using 2(6) f(2) flexible_interval_parse_wf [OF f(1)] by auto
    ultimately show ?thesis using 2(1) [OF seg [symmetric] True f(1,2) f(3)] 2(5) by blast
  next
    case False
    then obtain i where i: "scheduler_interval_parse empty_interval t = Some i" "custom_segments simple r flex (i # sched) = Some ci"
      using 2(3) seg by (auto split: option.splits if_splits)
    then show ?thesis using 2(2) [OF seg [symmetric] False i(1,2)] 2(4-6) scheduler_interval_parse_wf [OF i(1)] by simp
  qed
qed

end
