(* ===== verification/Sched_Parse_Props.thy ===== *)
theory Sched_Parse_Props
  imports Sched_Parse
begin

text \<open>
  Properties of the parser of update intervals: what it accepts is well formed for the search for the next check,
  and it reads back every scheduling interval that is written out.
\<close>

section \<open>Writing an interval\<close>

definition decimal_text :: "int \<Rightarrow> string" where
  "decimal_text n = (if n < 10 then [char_of (nat (48 + n))] else [char_of (nat (48 + n div 10)), char_of (nat (48 + n mod 10))])"

definition filter_text :: "zbx_scheduler_filter \<Rightarrow> string" where
  "filter_text f = decimal_text (f_start f) @ ''-'' @ decimal_text (f_end f) @
     (if f_step f = 1 then [] else ''/'' @ decimal_text (f_step f))"

fun chain_text :: "zbx_scheduler_filter list \<Rightarrow> string" where
  "chain_text [] = []"
| "chain_text [f] = filter_text f"
| "chain_text (f # fs) = filter_text f @ '','' @ chain_text fs"

definition part_text :: "string \<Rightarrow> zbx_scheduler_filter list \<Rightarrow> string" where
  "part_text c fs = (if fs = [] then [] else c @ chain_text fs)"

definition interval_text :: "zbx_scheduler_interval \<Rightarrow> string" where
  "interval_text I = part_text ''md'' (mdays I) @ part_text ''wd'' (wdays I) @ part_text ''h'' (hours I) @
     part_text ''m'' (minutes I) @ part_text ''s'' (seconds I)"

lemma digit_char: "0 \<le> n \<Longrightarrow> n < 10 \<Longrightarrow> isdigit (char_of (nat (48 + n))) \<and> dec_digit (char_of (nat (48 + n))) = nat n"
  by (simp add: isdigit_def dec_digit_def nat_add_distrib)

lemma decimal_text_digits:
  assumes "0 \<le> n" "n < 100"
  shows "list_all isdigit (decimal_text n)" "digits_val 10 dec_digit (decimal_text n) = nat n" "decimal_text n \<noteq> []"
    "length (decimal_text n) = (if n < 10 then 1 else 2)"
proof -
  have d: "0 \<le> n div 10" "n div 10 < 10" "0 \<le> n mod 10" "n mod 10 < 10" using assms by auto
  show "list_all isdigit (decimal_text n)" "decimal_text n \<noteq> []" "length (decimal_text n) = (if n < 10 then 1 else 2)"
    using digit_char [OF d(1,2)] digit_char [OF d(3,4)] digit_char [OF assms(1)] by (simp_all add: decimal_text_def)
  have "nat (n div 10) * 10 + nat (n mod 10) = nat n" using assms(1) by (simp add: nat_div_distrib nat_mod_distrib)
  then show "digits_val 10 dec_digit (decimal_text n) = nat n"
    using digit_char [OF d(1,2)] digit_char [OF d(3,4)] digit_char [OF assms(1)]
    by (simp add: decimal_text_def digits_val_def)
qed

lemma number_in_range:
  assumes "0 \<le> lo" "lo \<le> n" "n \<le> hi" "hi < 100"
  shows "int_in_range (decimal_text n) lo hi = Some n"
proof -
  have n: "0 \<le> n" "n < 100" using assms by auto
  have "unat (word_of_int lo :: u64) = nat lo" "unat (word_of_int hi :: u64) = nat hi"
    using assms by (simp_all add: unat_eq_nat_uint uint_word_of_int)
  then show ?thesis
    using decimal_text_digits [OF n] assms uint_low_word [of "nat n"]
    by (auto simp: int_in_range_def is_uint_range Let_def store_uint_def)
qed

lemma takeWhile_digits:
  assumes "list_all isdigit ds" "rest = [] \<or> \<not> isdigit (hd rest)"
  shows "takeWhile isdigit (ds @ rest) = ds" "dropWhile isdigit (ds @ rest) = rest"
  using assms by (auto simp: list_all_iff takeWhile_append dropWhile_append takeWhile_eq_Nil_iff dropWhile_eq_self_iff)

text \<open>A filter that can be written with the digits that the parser allows, and a step that it accepts.\<close>

definition text_filter :: "int \<Rightarrow> int \<Rightarrow> zbx_scheduler_filter \<Rightarrow> bool" where
  "text_filter lo hi f \<longleftrightarrow> wf_filter lo hi f \<and> (f_step f = 1 \<or> f_step f \<le> f_end f - f_start f)"

definition text_interval :: "zbx_scheduler_interval \<Rightarrow> bool" where
  "text_interval I \<longleftrightarrow> list_all (text_filter 1 31) (mdays I) \<and> list_all (text_filter 1 7) (wdays I) \<and>
     list_all (text_filter 0 23) (hours I) \<and> list_all (text_filter 0 59) (minutes I) \<and> list_all (text_filter 0 59) (seconds I) \<and>
     filter_level I = (if seconds I \<noteq> [] then 4 else if minutes I \<noteq> [] then 3 else if hours I \<noteq> [] then 2 else 1) \<and>
     interval_text I \<noteq> []"

lemma filter_range_text:
  assumes "0 \<le> lo" "lo \<le> a" "a \<le> b" "b \<le> hi" "hi < 100" "length (decimal_text hi) \<le> var_len"
    "rest = [] \<or> \<not> isdigit (hd rest)"
  shows "filter_range (decimal_text a @ CHR ''-'' # decimal_text b @ rest) lo hi var_len = Some (a, b, rest)"
proof -
  have a: "0 \<le> a" "a < 100" "0 \<le> b" "b < 100" "0 \<le> hi" using assms by auto
  have "\<not> isdigit CHR ''-''" by (simp add: isdigit_def)
  then have w: "takeWhile isdigit (decimal_text a @ CHR ''-'' # decimal_text b @ rest) = decimal_text a"
    "dropWhile isdigit (decimal_text a @ CHR ''-'' # decimal_text b @ rest) = CHR ''-'' # decimal_text b @ rest"
    using takeWhile_digits [OF decimal_text_digits(1) [OF a(1,2)], of "CHR ''-'' # decimal_text b @ rest"] by simp_all
  have r: "int_in_range (decimal_text a) lo hi = Some a" "int_in_range (decimal_text b) lo hi = Some b"
    using assms by (auto intro!: number_in_range)
  have l: "length (decimal_text a) \<le> var_len" "length (decimal_text b) \<le> var_len"
    using assms a decimal_text_digits(4) [of a] decimal_text_digits(4) [of b] decimal_text_digits(4) [of hi] by (auto split: if_splits)
  show ?thesis
    using l decimal_text_digits(3) [OF a(1,2)] decimal_text_digits(3) [OF a(3,4)] assms(3)
    by (simp add: filter_range_def w r takeWhile_digits [OF decimal_text_digits(1) [OF a(3,4)] assms(7)])
qed

lemma filter_fragment_text:
  assumes "text_filter lo hi f" "0 \<le> lo" "hi < 100" "length (decimal_text hi) \<le> var_len"
    "rest = [] \<or> \<not> isdigit (hd rest)" "rest = [] \<or> hd rest \<noteq> CHR ''/''"
  shows "filter_fragment (filter_text f @ rest) lo hi var_len = Some (f, rest)"
proof -
  have f: "lo \<le> f_start f" "f_start f \<le> f_end f" "f_end f \<le> hi" "1 \<le> f_step f"
    using assms(1) by (auto simp: text_filter_def wf_filter_def)
  let ?step = "if f_step f = 1 then [] else CHR ''/'' # decimal_text (f_step f)"
  have eq: "filter_text f @ rest = decimal_text (f_start f) @ CHR ''-'' # decimal_text (f_end f) @ (?step @ rest)"
    by (simp add: filter_text_def)
  have r: "filter_range (filter_text f @ rest) lo hi var_len = Some (f_start f, f_end f, ?step @ rest)"
    unfolding eq using f assms(2-5) by (intro filter_range_text) (auto simp: isdigit_def)
  have "?step @ rest \<noteq> filter_text f @ rest" unfolding eq using decimal_text_digits(3) [of "f_start f"]  by (auto simp: )
  then have s: "filter_step (filter_text f @ rest) (?step @ rest) (f_end f - f_start f) var_len = Some (f_step f, rest)"
  proof (cases "f_step f = 1")
    case True
    then show ?thesis using assms(6) \<open>?step @ rest \<noteq> filter_text f @ rest\<close> by (auto simp: filter_step_def)
  next
    case False
    then have st: "1 \<le> f_step f" "f_step f \<le> f_end f - f_start f" "f_end f - f_start f < 100" "0 \<le> f_step f" "f_step f < 100"
      using assms f by (auto simp: text_filter_def)
    have l: "length (decimal_text (f_step f)) \<le> var_len"
      using st f assms(2-4) decimal_text_digits(4) [of "f_step f"] decimal_text_digits(4) [of hi] by (auto split: if_splits)
    show ?thesis
      using l False decimal_text_digits(3) [OF st(4,5)] number_in_range [OF _ st(1,2,3)]
      by (simp add: filter_step_def takeWhile_digits [OF decimal_text_digits(1) [OF st(4,5)] assms(5)])
  qed
  show ?thesis by (simp add: filter_fragment_def r s)
qed

lemma chain_text_Cons: "fs \<noteq> [] \<Longrightarrow> chain_text (f # fs) = filter_text f @ CHR '','' # chain_text fs"
  by (cases fs) simp_all

lemma filter_text_Nil [simp]: "filter_text f \<noteq> []" by (simp add: filter_text_def)

lemma chain_text_Nil [simp]: "chain_text fs = [] \<longleftrightarrow> fs = []"
  by (cases fs rule: chain_text.cases) simp_all

lemma parse_filter_text:
  assumes "0 \<le> lo" "hi < 100" "length (decimal_text hi) \<le> var_len"
    "rest = [] \<or> hd rest \<in> {CHR ''h'', CHR ''m'', CHR ''s'', CHR ''w''}"
  shows "list_all (text_filter lo hi) fs \<Longrightarrow> fs \<noteq> [] \<Longrightarrow>
    scheduler_parse_filter_r (chain_text fs @ rest) lo hi var_len = Some (fs, rest)"
proof (induction fs)
  case (Cons f fs)
  show ?case
  proof (cases "fs = []")
    case True
    then show ?thesis
      using filter_fragment_text [of lo hi f var_len rest] Cons(2) assms
      by (auto simp: scheduler_parse_filter_r.simps isdigit_def)
  next
    case False
    let ?r = "CHR '','' # chain_text fs @ rest"
    have "filter_fragment (filter_text f @ ?r) lo hi var_len = Some (f, ?r)"
      using Cons(2) assms by (intro filter_fragment_text) (auto simp: isdigit_def)
    then show ?thesis using Cons(1,2) False
      by (simp add: scheduler_parse_filter_r.simps [of "filter_text f @ ?r"] chain_text_Cons)
  qed
qed simp


definition part_end :: "string \<Rightarrow> bool" where
  "part_end rest \<longleftrightarrow> rest = [] \<or> hd rest \<in> {CHR ''h'', CHR ''m'', CHR ''s'', CHR ''w''}"

lemma part_end_part_text [simp]:
  "c \<in> {CHR ''h'', CHR ''m'', CHR ''s'', CHR ''w''} \<Longrightarrow> part_end rest \<Longrightarrow> part_end (part_text (c # cs) fs @ rest)"
  "part_end []"
  by (auto simp: part_end_def part_text_def)

lemma chain_text_hd:
  assumes "list_all (text_filter lo hi) fs" "fs \<noteq> []" "0 \<le> lo" "hi < 100"
  shows "isdigit (hd (chain_text fs @ rest))"
proof -
  obtain f fs' where fs: "fs = f # fs'" using assms(2) by (cases fs) auto
  have n: "0 \<le> f_start f" "f_start f < 100" using assms by (auto simp: fs text_filter_def wf_filter_def)
  note d = decimal_text_digits(1,3) [OF n]
  have "isdigit (hd (decimal_text (f_start f)))" using d by (cases "decimal_text (f_start f)") auto
  then show ?thesis using d(2) by (cases "fs' = []") (auto simp: fs chain_text_Cons filter_text_def)
qed

lemmas part_simps = part_text_def part_end_def interval_part_def scheduler_parse_filter_def level_defs

lemma len2 [simp]: "length (decimal_text 31) = 2" "length (decimal_text 23) = 2" "length (decimal_text 59) = 2" "length (decimal_text 7) = 1"
  by (simp_all add: decimal_text_def)

lemma mdays_part:
  assumes "list_all (text_filter 1 31) fs" "part_end rest" "mdays I = []" "wdays I = []" "filter_level I \<le> 1"
  shows "interval_parts I (part_text ''md'' fs @ rest) =
    interval_parts (if fs = [] then I else I\<lparr>mdays := fs, filter_level := 1\<rparr>) rest"
  using assms parse_filter_text [of 1 31 2 rest fs] by (auto simp: part_simps)

lemma wdays_part:
  assumes "list_all (text_filter 1 7) fs" "part_end rest" "wdays I = []" "filter_level I \<le> 1"
  shows "interval_parts I (part_text ''wd'' fs @ rest) =
    interval_parts (if fs = [] then I else I\<lparr>wdays := fs, filter_level := 1\<rparr>) rest"
  using assms parse_filter_text [of 1 7 1 rest fs] by (auto simp: part_simps)

lemma hours_part:
  assumes "list_all (text_filter 0 23) fs" "part_end rest" "hours I = []" "filter_level I \<le> 2"
  shows "interval_parts I (part_text ''h'' fs @ rest) =
    interval_parts (if fs = [] then I else I\<lparr>hours := fs, filter_level := 2\<rparr>) rest"
  using assms parse_filter_text [of 0 23 2 rest fs] by (auto simp: part_simps)

lemma minutes_part:
  assumes "list_all (text_filter 0 59) fs" "part_end rest" "minutes I = []" "filter_level I \<le> 3"
  shows "interval_parts I (part_text ''m'' fs @ rest) =
    interval_parts (if fs = [] then I else I\<lparr>minutes := fs, filter_level := 3\<rparr>) rest"
proof -
  have "fs \<noteq> [] \<Longrightarrow> hd (chain_text fs @ rest) \<noteq> CHR ''d''"
    using chain_text_hd [OF assms(1), of rest] by (auto simp: isdigit_def)
  then show ?thesis using assms parse_filter_text [of 0 59 2 rest fs] by (auto simp: part_simps)
qed

lemma seconds_part:
  assumes "list_all (text_filter 0 59) fs" "part_end rest" "seconds I = []" "filter_level I \<le> 4"
  shows "interval_parts I (part_text ''s'' fs @ rest) =
    interval_parts (if fs = [] then I else I\<lparr>seconds := fs, filter_level := 4\<rparr>) rest"
  using assms parse_filter_text [of 0 59 2 rest fs] by (auto simp: part_simps)

lemma interval_text_parsed:
  assumes "text_interval I"
  shows "scheduler_interval_parse empty_interval (interval_text I) = Some I"
proof -
  note d = assms [unfolded text_interval_def]
  let ?I1 = "if mdays I = [] then empty_interval else empty_interval\<lparr>mdays := mdays I, filter_level := 1\<rparr>"
  let ?I2 = "if wdays I = [] then ?I1 else ?I1\<lparr>wdays := wdays I, filter_level := 1\<rparr>"
  let ?I3 = "if hours I = [] then ?I2 else ?I2\<lparr>hours := hours I, filter_level := 2\<rparr>"
  let ?I4 = "if minutes I = [] then ?I3 else ?I3\<lparr>minutes := minutes I, filter_level := 3\<rparr>"
  let ?I5 = "if seconds I = [] then ?I4 else ?I4\<lparr>seconds := seconds I, filter_level := 4\<rparr>"
  let ?s = "part_text ''s'' (seconds I) @ []"
  let ?m = "part_text ''m'' (minutes I) @ ?s"
  let ?h = "part_text ''h'' (hours I) @ ?m"
  let ?wd = "part_text ''wd'' (wdays I) @ ?h"
  have e: "part_end ?s" "part_end ?m" "part_end ?h" "part_end ?wd" by (simp_all only: part_end_part_text insert_iff simp_thms)
  have "interval_parts empty_interval (part_text ''md'' (mdays I) @ ?wd) = interval_parts ?I1 ?wd"
    using d e by (intro mdays_part) (simp_all add: empty_interval_def)
  also have "\<dots> = interval_parts ?I2 ?h"
    using d e by (intro wdays_part) (simp_all add: empty_interval_def)
  also have "\<dots> = interval_parts ?I3 ?m"
    using d e by (intro hours_part) (simp_all add: empty_interval_def)
  also have "\<dots> = interval_parts ?I4 ?s"
    using d e by (intro minutes_part) (simp_all add: empty_interval_def)
  also have "\<dots> = interval_parts ?I5 []"
    using d e by (intro seconds_part) (simp_all add: empty_interval_def)
  also have "?I5 = I"
    using d by (cases I) (simp add: empty_interval_def interval_text_def part_text_def split: if_splits)
  finally show ?thesis using d by (simp add: scheduler_interval_parse_def interval_text_def)
qed


lemma decimal_text_no_semicolon:
  assumes "0 \<le> n" "n < 100"
  shows "CHR '';'' \<notin> set (decimal_text n)"
  using decimal_text_digits(1) [OF assms] by (auto simp: list_all_iff isdigit_def)

lemma filter_text_no_semicolon:
  assumes "text_filter lo hi f" "0 \<le> lo" "hi < 100"
  shows "CHR '';'' \<notin> set (filter_text f)"
proof -
  have "0 \<le> f_start f" "f_start f < 100" "0 \<le> f_end f" "f_end f < 100" "f_step f \<noteq> 1 \<longrightarrow> 0 \<le> f_step f \<and> f_step f < 100"
    using assms by (auto simp: text_filter_def wf_filter_def)
  then show ?thesis by (auto simp: filter_text_def decimal_text_no_semicolon)
qed

lemma chain_text_no_semicolon:
  "list_all (text_filter lo hi) fs \<Longrightarrow> 0 \<le> lo \<Longrightarrow> hi < 100 \<Longrightarrow> CHR '';'' \<notin> set (chain_text fs)"
  by (induction fs rule: chain_text.induct) (auto dest: filter_text_no_semicolon)

lemma interval_text_segment:
  assumes "text_interval I"
  shows "segment (interval_text I) = (interval_text I, None)"
proof -
  have "c \<noteq> CHR '';''" if "c \<in> set (interval_text I)" for c
    using that assms chain_text_no_semicolon
    by (fastforce simp: text_interval_def interval_text_def part_text_def split: if_splits)
  then have "dropWhile (\<lambda>c. c \<noteq> CHR '';'') (interval_text I) = []" "takeWhile (\<lambda>c. c \<noteq> CHR '';'') (interval_text I) = interval_text I"
    by (auto simp: takeWhile_eq_all_conv dropWhile_eq_Nil_conv)
  then show ?thesis by (simp only: segment_def list.case)
qed

lemma interval_text_hd: "text_interval I \<Longrightarrow> \<not> isdigit (hd (interval_text I))"
  by (auto simp: text_interval_def interval_text_def part_text_def isdigit_def)

section \<open>Properties\<close>

text \<open>
  C20. A scheduling interval that is written out is read back.  For every interval whose filters are within the
  limits of their time units and whose steps fit into the ranges, the parser accepts its text and
  returns the same interval, with the filters of each unit in their order; an update interval that consists of 0 and
  this text is accepted, and its only custom interval is this one.
\<close>

theorem scheduling_text_roundtrip:
  assumes "text_interval I"
  shows "scheduler_interval_parse empty_interval (interval_text I) = Some I \<and>
    zbx_interval_preproc (''0;'' @ interval_text I) True = Some (0, Some \<lparr>flexible = [], scheduling = [I]\<rparr>)"
proof -
  have "segment (''0;'' @ interval_text I) = (''0'', Some (interval_text I))" by (simp add: segment_def)
  moreover have "zbx_is_time_suffix ''0'' = Some 0" by code_simp
  ultimately show ?thesis
    using interval_text_parsed [OF assms] interval_text_segment [OF assms] interval_text_hd [OF assms]
    by (simp add: zbx_interval_preproc_def SEC_PER_DAY_def)
qed

definition monday_quarters :: zbx_scheduler_interval where
  "monday_quarters = \<lparr>mdays = [], wdays = [\<lparr>f_start = 1, f_end = 1, f_step = 1\<rparr>], hours = [\<lparr>f_start = 9, f_end = 12, f_step = 1\<rparr>, \<lparr>f_start = 14, f_end = 17, f_step = 1\<rparr>],
     minutes = [\<lparr>f_start = 0, f_end = 59, f_step = 15\<rparr>], seconds = [], filter_level = 3\<rparr>"

theorem scheduling_text_roundtrip_witness:
  "interval_text monday_quarters = ''wd1-1h9-12,14-17m0-59/15'' \<and>
   scheduler_interval_parse empty_interval ''wd1-1h9-12,14-17m0-59/15'' = Some monday_quarters"
proof -
  have "text_interval monday_quarters" "interval_text monday_quarters = ''wd1-1h9-12,14-17m0-59/15''" by code_simp+
  with scheduling_text_roundtrip [of monday_quarters] show ?thesis by simp
qed

text \<open>A flexible delay of \<open>INT_MAX\<close> seconds is accepted (see \<open>nextcheck_overflow\<close>).\<close>

lemma long_flexible_delay_accepted:
  "zbx_interval_preproc ''1m;2147483647s/1-7,00:00-24:00'' True = Some (60, Some \<lparr>flexible =
     [\<lparr>period = \<lparr>start_day = 1, end_day = 7, start_time = 0, end_time = 86400\<rparr>, delay = 2147483647\<rparr>], scheduling = []\<rparr>)"
  by code_simp

text \<open>
  C21. The update interval of an agent item is safe to schedule with.  If the text is refused, the item gets no check
  (\<open>ZBX_JAN_2038\<close>).  If it is accepted, the update interval is at most a day, every flexible and
  every scheduling interval is within its limits, an update interval of 0 comes with at least one custom interval and
  only with flexible intervals that have a delay.  When moreover there is no scheduling interval, no flexible delay is longer than
  a day and now is not negative and at least a year before 2038, the calculation ends with a check later than now, in every time zone.  The
  parser does not limit flexible delays, and with a delay of years the \<open>int\<close> of the check overflows.
\<close>

theorem agent_nextcheck_parsed:
  "case zbx_interval_preproc delay_str True of
      None \<Rightarrow> zbx_get_agent_item_nextcheck localtime mktime time_dst itemid delay_str now = Some (FAIL, ZBX_JAN_2038, None)
    | Some (d, custom) \<Rightarrow>
        (\<exists>ci. custom = Some ci \<and> 0 \<le> d \<and> d \<le> SEC_PER_DAY \<and> wf_flexible (flexible ci) \<and> list_all wf_interval (scheduling ci) \<and>
          (d \<noteq> 0 \<or> (flexible ci \<noteq> [] \<or> scheduling ci \<noteq> []) \<and> list_all (\<lambda>f. 0 < delay f) (flexible ci)) \<and>
          (scheduling ci = [] \<and> day_delays (flexible ci) \<and> clock_ranges localtime \<and> 0 \<le> now \<and> now + SEC_PER_YEAR \<le> ZBX_JAN_2038 \<longrightarrow>
            (\<exists>n. zbx_get_agent_item_nextcheck localtime mktime time_dst itemid delay_str now = Some (SUCCEED, n, Some False) \<and> now < n)))"
proof (cases "zbx_interval_preproc delay_str True")
  case None
  then show ?thesis by (simp add: zbx_get_agent_item_nextcheck_def)
next
  case (Some r)
  obtain s rest d ci where r: "segment delay_str = (s, rest)" "zbx_is_time_suffix s = Some d" "custom_segments d rest [] [] = Some ci"
    "\<not> (flexible ci = [] \<and> scheduling ci = [] \<and> d = 0)" "d \<le> SEC_PER_DAY" "r = (d, Some ci)"
    using Some by (auto simp: zbx_interval_preproc_def split: prod.splits option.splits if_splits)
  have wf: "wf_flexible (flexible ci)" "list_all wf_interval (scheduling ci)" "d = 0 \<longrightarrow> list_all (\<lambda>f. 0 < delay f) (flexible ci)"
    using custom_segments_wf [OF r(3)] by (simp_all add: wf_flexible_def)
  have d: "0 \<le> d" using time_suffix_bounds [OF r(2)] by simp
  have "now < now + SEC_PER_YEAR" by (simp add: SEC_PER_YEAR_def SEC_PER_DAY_def)
  then have "\<exists>n. zbx_get_agent_item_nextcheck localtime mktime time_dst itemid delay_str now = Some (SUCCEED, n, Some False) \<and> now < n"
    if "scheduling ci = []" "day_delays (flexible ci)" "clock_ranges localtime" "0 \<le> now" "now + SEC_PER_YEAR \<le> ZBX_JAN_2038"
    using that(1) flexible_loop_spec [OF that(3) wf(1) that(2) d r(5) that(5,4), of True now 0 itemid] Some
    by (auto simp: zbx_get_agent_item_nextcheck_def zbx_calculate_item_nextcheck_def scheduler_get_nextcheck_def r(6))
  then show ?thesis using Some r wf d by auto
qed

theorem agent_nextcheck_parsed_witness:
  "\<exists>n. zbx_get_agent_item_nextcheck greenwich (\<lambda>_. -1) 0 17 ''1m;10s/1-5,09:00-18:00'' 1000 = Some (SUCCEED, n, Some False) \<and> 1000 < n"
proof -
  have "0 \<le> (1000 :: int)" "1000 + SEC_PER_YEAR \<le> ZBX_JAN_2038"
    "zbx_interval_preproc ''1m;10s/1-5,09:00-18:00'' True = Some (60, Some \<lparr>flexible =
      [\<lparr>period = \<lparr>start_day = 1, end_day = 5, start_time = 32400, end_time = 64800\<rparr>, delay = 10\<rparr>], scheduling = []\<rparr>)" by code_simp+
  with week_clock_ranges [OF week_clock_greenwich] agent_nextcheck_parsed [where localtime = greenwich and now = 1000 and delay_str = "''1m;10s/1-5,09:00-18:00''" and mktime = "\<lambda>_. -1" and time_dst = 0 and itemid = 17] show ?thesis by (simp add: day_delays_def SEC_PER_DAY_def)
qed

end
