(* ===== verification/Spec2Isabelle.thy ===== *)
theory Spec2Isabelle
  imports Hashmap Event_Queue Obj_Index Strpool Linked_List Ring_Buffer Base64 Serialize Int128 Poller_Sessions Ip_Parse Json_Build Shmem_Props Param_Props Sched_Parse_Props
begin

text \<open>
  \<^bold>\<open>A verification library for the Glaber monitoring server.\<close>

  Glaber is a fork of Zabbix: a server with asynchronous pollers, caches of item, host and trigger state, and
  the protocols that agents, proxies and the web interface speak.  The programs are thin layers over the
  libraries under \<open>src/libs\<close>.  The development models the libraries that carry the state and the data
  formats of the server, function by function, and proves what their callers rely on.

  \<^bold>\<open>Parts and theories.\<close>  Paths are relative to \<open>src/\<close> of the repository.

  \<^item> \<open>Prelude\<close>: return codes, the abnormal ends of C code as values of \<^typ>\<open>c_error\<close> (a read through NULL,
    an index outside an array, an assertion, a division by zero), the type \<open>'a result\<close> of computations
    that may end abnormally, word types of the C integers and lemmas on lists and words.
  \<^item> \<open>AlgoDefs\<close> (\<open>libs/zbxalgo/algodefs.c\<close>): hashes, comparison functions, primes, square roots.
    The locales \<open>compare_order\<close> and \<open>compare_linear\<close> are the contract of a comparison function; sorting and
    searching of \<open>Vector\<close> are proved against it and interpreted for the functions of the source.
  \<^item> \<open>Vector\<close> (\<open>libs/zbxalgo/vector.c\<close>, \<open>vectorimpl.h\<close>): growing arrays, binary search, set difference.
  \<^item> \<open>Hashmap\<close>, \<open>Binary_Heap\<close>, \<open>Event_Queue\<close> (\<open>hashmap.c\<close>, \<open>binaryheap.c\<close>, \<open>event_queue.c\<close>): the heap
    keeps the position of every key in a hashmap (locale \<open>key_index\<close>); the event queue is a client of the
    heap (locale \<open>timer_queue\<close>).
  \<^item> \<open>Hashset\<close>, \<open>Elems_Hash\<close>, \<open>Obj_Index\<close>, \<open>Strpool\<close>, \<open>Poller_Sessions\<close> (\<open>hashset.c\<close>, \<open>elems_hash.c\<close>,
    \<open>obj_index.c\<close>, \<open>strpool.c\<close>, \<open>zabbix_server/glb_poller/poller_sessions.c\<close> and \<open>poller_contention.c\<close>): the
    chained hash table with addresses of entries, and its clients.  Locale \<open>keyed\<close> is what a table asks of
    its hash and comparison functions and is interpreted for every client; \<open>id_store\<close> is what the elements
    hash offers to the object index.  \<open>Glb_Lock\<close> (\<open>libs/zbxsys/glb_lock.c\<close>) are the locks they hold.
  \<^item> \<open>Queue\<close>, \<open>Linked_List\<close>, \<open>Ring_Buffer\<close> (\<open>queue.c\<close>, \<open>linked_list.c\<close>, \<open>ring_buffer.c\<close>): locale \<open>fifo\<close>
    is interpreted for the circular queue and for the list, which is a heap of linked cells.
  \<^item> \<open>Int128\<close>, \<open>Serialize\<close>, \<open>Base64\<close>, \<open>Num_Parse\<close> (\<open>int128.c\<close>, \<open>zbxserialize/serialize.c\<close>,
    \<open>zbxcrypto/base64.c\<close>, \<open>zbxnum/num.c\<close>): 128-bit arithmetic, compact numbers, the base64 coder, numbers in text.
  \<^item> \<open>Ip_Range\<close>, \<open>Ip_Parse\<close> (\<open>zbxip/iprange.c\<close>, \<open>ip.c\<close>): ranges of addresses: parsing, walking, membership.
  \<^item> \<open>Json_Text\<close>, \<open>Json_Parse\<close>, \<open>Json_Doc\<close>, \<open>Json_Build\<close> (\<open>zbxjson/json.c\<close>, \<open>json_parser.c\<close>,
    \<open>jsonobj.c\<close>): escaping, the parser, documents as trees, and the builder in its growing buffer.

  \<^item> \<open>Shmem\<close>, \<open>Shmem_Heap\<close>, \<open>Shmem_Alloc\<close>, \<open>Shmem_Blocks\<close>, \<open>Shmem_Spec\<close>, \<open>Shmem_Segment\<close>, \<open>Shmem_Props\<close>
    (\<open>zbxshmem/memalloc.c\<close>): the allocator of the shared memory under the caches: the model, the doubly linked lists of
    free chunks, the sequence of chunks, the blocks of the clients, reallocation, creation and statistics,
    and the properties.
  \<^item> \<open>Param\<close>, \<open>Param_Props\<close> (\<open>zbxparam/param.c\<close>, \<open>zbx_parse_key\<close> of \<open>zbxexpr/expr.c\<close>, quoting in
    \<open>zbxsysinfo/sysinfo.c\<close>): parameters of item keys: reading, measuring, counting, quoting, and the parser of keys.
  \<^item> \<open>Sched_Time\<close>, \<open>Sched_Search\<close>, \<open>Sched_Check\<close>, \<open>Sched_Parse\<close> (\<open>zbxtime/time.c\<close>, \<open>zbxexpr/interval.c\<close>): the calendar, the
    search for the next time of a scheduling interval, flexible intervals and the next check of an item, the parser
    of update intervals.  \<open>Sched_Day\<close>, \<open>Sched_Props\<close>, \<open>Sched_Check_Props\<close> and \<open>Sched_Parse_Props\<close> hold their proofs.  The
    searches for the hour, the minute and the second have one contract, the locale \<open>level_search\<close>, interpreted three times;
    each rests on the interpretation before it.

  \<^bold>\<open>State and operations.\<close>  A C structure is a \<open>record\<close> with the fields of the source, a function is a
  definition of the same name that takes the structure and returns it changed; a leading underscore pair is
  dropped and a name that clashes with the logic has a suffix.  An array is a list of its cells, allocated
  cells that are not in use included where the code can reach them.  Where identity matters (entries of
  hash tables, nodes of lists, strings of the pool) an entry carries an address, and an operation that
  allocates takes the next address from its caller's counter.  Integers are words of their C width where the
  code wraps or shifts them, and unbounded where the modelled range excludes an overflow; the \<open>int\<close> in which the next check of
  an item is computed wraps at 32 bits.  An allocation that the
  code checks is a truth value that the operation takes; the others succeed, as the \<open>zbx_malloc\<close> family ends
  the process on failure.  Callbacks, hash and comparison functions are arguments, and so are
  \<open>localtime\<close> and \<open>mktime\<close> of the C library, of which the theorems assume that
  they return a day of the week and a time of the day; what is said about the grid of checks and about the delay in force also assumes
  a zone without daylight saving, in which the local week advances by the second.

  \<^bold>\<open>What the lemmas show.\<close>
  \<^item> Refinement: the heap simulates a priority queue on a multiset, the hashmap and the hash set simulate
    finite maps, the object index two directions of one multiset of pairs, the queue and the linked list
    a first-in first-out list, the JSON builder a document under construction.
  \<^item> Memory safety: the blocks that clients of a shared memory segment hold never overlap, keep their content
    under the operations of other clients, and are merged again when they are freed.
  \<^item> Invariants: key positions of the heap, reference counts of the string pool, order and content of the
    ring buffer, totals of the contention counters, well-formed parsed address ranges.
  \<^item> Termination: bisection in the ring, the event loop, sweeps of hash tables, the prime search, the
    128-bit division, walks of address ranges, the JSON parser, the first-fit search of the allocator, the search for
    the next scheduled time, which finds the first match before 2038 that is not lost to the wrong length of February.
  \<^item> Round trips: base64, compact numbers, JSON strings and whole JSON documents, parameters of item keys, scheduling intervals.
  \<^item> Scheduling: with delays of at most a day and up to a year before 2038, the next check of an item is later than now and on
    the grid of the delay that is in force at that time, and the delay does not change before the time at which the code looks again.
  \<^item> Exactness: numbers in text, IPv4 addresses, networks and lists, square roots, 128-bit products.
  \<^item> Failures: lemmas that end in an error value or in a wrong result state what the code really does on
    the inputs that it does not handle (growing an unwrapped ring, mass deletion of a missing element,
    housekeeping of contention counters, member names of JSON objects that hold a NUL, the overflow of the next check for
    delays of years, 32-bit numbers in the compact form, unit suffixes that overflow,
    IPv6 ranges that leave their array, masks of 31 and 32 bits, schedules for the 29th of February and from 2038 on).

  \<^bold>\<open>Loops and fuel.\<close>  Structural loops are recursions over the remaining cells or characters.  The others:
  the event loop is a partial function in the option monad and is proved to return when its limit is
  positive or its handlers add nothing; the bisection of the ring takes fuel, and more fuel than values is
  enough; a sweep of a hash table needs one call more than there are entries; the 128-bit division ends
  within 66 rounds; drawing a session id consumes a list of random numbers, and one unused number in the list is
  enough; the walk of an address range needs as much fuel as the range has addresses; the JSON parser needs
  more fuel than its text has characters; the searches of the scheduler are partial functions whose value \<open>None\<close> is a
  loop that never ends, and a matching time ahead makes them return.  Each bound is part of a theorem that the result exists.

  \<^bold>\<open>Not modelled.\<close>  Database access, sockets and TLS, the processes around them, the embedded JavaScript
  engine and the collectors of system metrics consist of calls to code outside the repository.  Prediction
  functions depend on IEEE rounding; floating point members of the JSON builder and numbers of the JSON tree are
  kept as text for the same reason.  The configuration cache mirrors database tables.  The value policies of the state caches,
  expression evaluation, the validation of intervals with user macros, the schedule of reports and the replacement of key
  parameters by callbacks are left out.  Concurrency is modelled as far as the locks of the
  elements hash, the object index and the string pool: an operation that takes
  a lock that it already holds, or frees one that it does not hold, ends in an error value.  The mutex of the event queue is not
  modelled.
\<close>

end
